(* ===== verification/Collab_Prelude.thy ===== *)
theory Collab_Prelude
  imports Main "HOL-Library.Word" "HOL-Library.List_Lexorder" "HOL-Library.Product_Lexorder"
begin

text \<open>
  Shared vocabulary of the development: the widths of the machine integers, the error codes and
  result values every component returns, and list lemmas about the position of elements
  (\<open>before\<close>) and about strictly sorted association lists, which the components use.
\<close>

section \<open>Collections of rewrite rules\<close>

named_theorems result_simps \<open>case analysis of result values\<close>
named_theorems run_simps \<open>the run interface of the sequence order\<close>

section \<open>Machine integers\<close>

text \<open>
  Counters and sizes are natural numbers; where the code adds values that may leave their
  width the wrap-around is written with these functions.
\<close>

definition U64_MAX :: nat where
  "U64_MAX = 2 ^ 64 - 1"

definition u64 :: "nat \<Rightarrow> nat" where
  "u64 n = n mod 2 ^ 64"

definition u32 :: "nat \<Rightarrow> nat" where
  "u32 n = n mod 2 ^ 32"

lemma U64_MAX_eq: "U64_MAX = 18446744073709551615"
  by (simp add: U64_MAX_def)

lemma u64_small [simp]: "n \<le> U64_MAX \<Longrightarrow> u64 n = n"
  by (simp add: u64_def U64_MAX_eq)

lemma u32_small [simp]: "n < 4294967296 \<Longrightarrow> u32 n = n"
  by (simp add: u32_def)

section \<open>Errors and results\<close>

text \<open>
  \<open>ErrorCode\<close> of \<open>ActorId.h\<close>. An \<open>Error\<close> is modelled by its code: the message and the
  context strings are diagnostics that no code branches on, except that an error built from a
  code is never empty. \<open>Result\<close> is a sum, the error on the left.
\<close>

datatype error_code =
    malformed | unknown_format | unsupported_version | invalid_unicode
  | invalid_identity | actor_conflict | pin_conflict | writer_conflict | unknown_stream
  | wrong_epoch | counter_regression | counter_exhausted
  | unresolvable_anchor
  | off_end | not_scalar_boundary | not_found | wrong_document | wrong_stream
  | wrong_primitive | awaiting_state | detached | limit_exceeded | history_unavailable
  | corrupt_record | io_error | commit_uncertain | unsupported_operation
  | random_source_unavailable
  | deferred_queue_full
  | reentrant_mutation

type_synonym 'a result = "error_code + 'a"

abbreviation Ok :: "'a \<Rightarrow> 'a result" where
  "Ok \<equiv> Inr"

abbreviation Err :: "error_code \<Rightarrow> 'a result" where
  "Err \<equiv> Inl"

definition is_ok :: "'a result \<Rightarrow> bool" where
  "is_ok r = (case r of Inl _ \<Rightarrow> False | Inr _ \<Rightarrow> True)"

lemma is_ok_simps [simp, result_simps]: "is_ok (Ok x)" "\<not> is_ok (Err e)"
  by (simp_all add: is_ok_def)

section \<open>Order of elements in a list\<close>

text \<open>\<open>before xs a b\<close>: some occurrence of \<open>a\<close> stands before some occurrence of \<open>b\<close>.\<close>

fun before :: "'a list \<Rightarrow> 'a \<Rightarrow> 'a \<Rightarrow> bool" where
  "before [] a b = False"
| "before (z # zs) a b = (z = a \<and> b \<in> set zs \<or> before zs a b)"

lemma before_set: "before xs a b \<Longrightarrow> a \<in> set xs \<and> b \<in> set xs"
  by (induction xs) auto

lemma before_append:
  "before (us @ vs) a b \<longleftrightarrow> before us a b \<or> before vs a b \<or> a \<in> set us \<and> b \<in> set vs"
  by (induction us) auto

lemma before_irrefl: "distinct xs \<Longrightarrow> \<not> before xs a a"
  by (induction xs) (auto dest: before_set)

lemma before_trans: "distinct xs \<Longrightarrow> before xs a b \<Longrightarrow> before xs b c \<Longrightarrow> before xs a c"
  by (induction xs) (auto dest: before_set)

lemma before_asym: "distinct xs \<Longrightarrow> before xs a b \<Longrightarrow> \<not> before xs b a"
  using before_irrefl before_trans by metis

lemma before_total:
  "a \<in> set xs \<Longrightarrow> b \<in> set xs \<Longrightarrow> a \<noteq> b \<Longrightarrow> before xs a b \<or> before xs b a"
  by (induction xs) auto

text \<open>Inserting a fresh element keeps the order of the others.\<close>

lemma before_insert_old:
  "a \<noteq> x \<Longrightarrow> b \<noteq> x \<Longrightarrow> before (us @ x # vs) a b \<longleftrightarrow> before (us @ vs) a b"
  by (auto simp: before_append)

lemma before_insert_left:
  "x \<notin> set us \<Longrightarrow> x \<notin> set vs \<Longrightarrow> before (us @ x # vs) a x \<longleftrightarrow> a \<in> set us"
  by (auto simp: before_append dest: before_set)

lemma before_insert_right:
  "x \<notin> set us \<Longrightarrow> x \<notin> set vs \<Longrightarrow> before (us @ x # vs) x b \<longleftrightarrow> b \<in> set vs"
  by (auto simp: before_append dest: before_set)

text \<open>A duplicate-free list is determined by its elements and their order.\<close>

lemma before_determines_list:
  assumes "distinct xs" "distinct ys" "set xs = set ys"
    and "\<And>a b. before xs a b \<longleftrightarrow> before ys a b"
  shows "xs = ys"
  using assms
proof (induction xs arbitrary: ys)
  case Nil
  then show ?case by simp
next
  case (Cons x xs)
  then obtain y zs where ys: "ys = y # zs"
    by (cases ys) auto
  have "x = y"
  proof (rule ccontr)
    assume "x \<noteq> y"
    with Cons.prems(3) ys have "y \<in> set xs" "x \<in> set zs"
      by auto
    then have "before (x # xs) x y" and "before ys y x"
      using ys by auto
    then show False
      using Cons.prems before_asym by metis
  qed
  moreover have "xs = zs"
  proof (rule Cons.IH)
    show "distinct xs" "distinct zs"
      using Cons.prems(1,2) ys by simp_all
    have "x \<notin> set xs" "x \<notin> set zs"
      using Cons.prems(1,2) ys \<open>x = y\<close> by simp_all
    then show "set xs = set zs"
      using Cons.prems(3) ys \<open>x = y\<close> by (metis insert_ident list.simps(15))
    show "before xs a b \<longleftrightarrow> before zs a b" for a b
      using Cons.prems(4) [of a b] ys \<open>x = y\<close> \<open>x \<notin> set xs\<close> \<open>x \<notin> set zs\<close>
      by (auto dest: before_set)
  qed
  ultimately show ?case
    using ys by simp
qed

section \<open>Strictly sorted association lists\<close>

abbreviation sorted1 :: "('a::linorder \<times> 'b) list \<Rightarrow> bool" where
  "sorted1 ps \<equiv> sorted_wrt (<) (map fst ps)"

lemma sorted1_distinct: "sorted1 ps \<Longrightarrow> distinct (map fst ps)"
  by (simp add: strict_sorted_iff)

lemma sorted1_ext:
  assumes "sorted1 ps" "sorted1 qs" "map_of ps = map_of qs"
  shows "ps = qs"
proof -
  have d: "distinct (map fst ps)" "distinct (map fst qs)"
    using assms(1,2) by (simp_all add: sorted1_distinct)
  have eq: "set ps = set qs"
    using assms(3) d by (metis map_of_inject_set)
  then have keys: "map fst ps = map fst qs"
    using assms(1,2) by (metis list.set_map strict_sorted_equal)
  have "inj_on fst (set ps)"
    using d(1) by (simp add: distinct_map)
  then show ?thesis
    using keys eq by (metis map_inj_on sup.idem)
qed

end
