(* ===== verification/Actor_Identity.thy ===== *)
theory Actor_Identity
  imports Collab_Prelude
begin

text \<open>
  Actor ids, item and operation identities, anchors, and the checked counters they are minted
  from: \<open>ActorId\<close> and \<open>CheckedCounter\<close> (\<open>ActorId.h\<close>, \<open>ReplicaState.cpp\<close>), \<open>Identity\<close>,
  \<open>Anchor\<close> and the \<open>IdentityAllocator\<close> interface (\<open>Engine.h\<close>). The orders of the code are the
  class orders of the model's types; the laws an allocator promises to the engines are the
  locale \<open>identity_allocator\<close>.
\<close>

unbundle bit_operations_syntax

section \<open>Actor ids\<close>

type_synonym byte = "8 word"

text \<open>\<open>ActorId\<close>: an array of 16 bytes. The array's length is the predicate \<open>actor_ok\<close>.\<close>

datatype actor_id = ActorId (m_bytes: "byte list")

definition kBytes :: nat where
  "kBytes = 16"

definition actor_ok :: "actor_id \<Rightarrow> bool" where
  "actor_ok a = (length (m_bytes a) = kBytes)"

definition default_actor :: actor_id where
  "default_actor = ActorId (replicate kBytes 0)"

definition actor_valid :: "actor_id \<Rightarrow> bool" where
  "actor_valid a = list_ex (\<lambda>b. b \<noteq> 0) (m_bytes a)"

text \<open>\<open>std::lexicographical_compare\<close> is the list order; \<open>compare\<close> returns -1, 0 or 1.\<close>

definition actor_compare :: "actor_id \<Rightarrow> actor_id \<Rightarrow> int" where
  "actor_compare a b =
     (if m_bytes a < m_bytes b then -1 else if m_bytes a = m_bytes b then 0 else 1)"

instantiation actor_id :: linorder
begin

definition less_actor_id :: "actor_id \<Rightarrow> actor_id \<Rightarrow> bool" where
  "less_actor_id a b = (actor_compare a b < 0)"

definition less_eq_actor_id :: "actor_id \<Rightarrow> actor_id \<Rightarrow> bool" where
  "less_eq_actor_id a b = (actor_compare a b \<le> 0)"

instance
  by intro_classes
    (auto simp: less_actor_id_def less_eq_actor_id_def actor_compare_def actor_id.expand
      split: if_splits)

end

lemma actor_less_bytes: "a < b \<longleftrightarrow> m_bytes a < m_bytes b" for a b :: actor_id
  by (simp add: less_actor_id_def actor_compare_def)

subsection \<open>Canonical hexadecimal form\<close>

definition hex_digit :: "nat \<Rightarrow> char" where
  "hex_digit n = ''0123456789abcdef'' ! n"

fun to_hex :: "byte list \<Rightarrow> string" where
  "to_hex [] = []"
| "to_hex (b # bs) =
     hex_digit (unat (drop_bit 4 b)) # hex_digit (unat (b AND 15)) # to_hex bs"

definition nibble :: "char \<Rightarrow> int" where
  "nibble ch =
     (let c = of_char ch :: int in
      if 48 \<le> c \<and> c \<le> 57 then c - 48
      else if 97 \<le> c \<and> c \<le> 102 then c - 97 + 10
      else if 65 \<le> c \<and> c \<le> 70 then c - 65 + 10
      else -1)"

fun parse_hex_bytes :: "string \<Rightarrow> byte list result" where
  "parse_hex_bytes (h # l # rest) =
     (let hi = nibble h; lo = nibble l in
      if hi < 0 \<or> lo < 0 then Err malformed
      else case parse_hex_bytes rest of
        Inl e \<Rightarrow> Err e
      | Inr bs \<Rightarrow> Ok ((push_bit 4 (word_of_int hi) OR word_of_int lo) # bs))"
| "parse_hex_bytes _ = Ok []"

definition parse_hex_exact :: "string \<Rightarrow> byte list result" where
  "parse_hex_exact text =
     (if length text \<noteq> kBytes * 2 then Err malformed else parse_hex_bytes text)"

definition actor_to_string :: "actor_id \<Rightarrow> string" where
  "actor_to_string a = to_hex (m_bytes a)"

definition actor_parse :: "string \<Rightarrow> actor_id result" where
  "actor_parse text =
     (case parse_hex_exact text of
        Inl e \<Rightarrow> Err e
      | Inr bs \<Rightarrow> (if actor_valid (ActorId bs) then Ok (ActorId bs) else Err invalid_identity))"

text \<open>\<open>generate(source)\<close>: the randomness source is the parameter.\<close>

definition actor_generate :: "byte list result \<Rightarrow> actor_id result" where
  "actor_generate source =
     (case source of
        Inl e \<Rightarrow> Err e
      | Inr bs \<Rightarrow> (if actor_valid (ActorId bs) then Ok (ActorId bs) else Err invalid_identity))"

lemma nibble_hex_digit: "n < 16 \<Longrightarrow> nibble (hex_digit n) = int n"
proof -
  have "\<forall>n \<in> {0..<16}. nibble (hex_digit n) = int n"
    by code_simp
  then show "n < 16 \<Longrightarrow> nibble (hex_digit n) = int n"
    by simp
qed

lemma drop_bit_4_bound: "unat (drop_bit 4 b) < 16" for b :: byte
proof -
  have "unat b < 256"
    using unsigned_less [of b] by simp
  then show ?thesis
    by (simp add: drop_bit_eq_div unat_div)
qed

lemma and_15_bound: "unat (b AND 15) < 16" for b :: byte
proof -
  have "b AND 15 \<le> (15 :: byte)"
    by (rule word_and_le1)
  then have "unat (b AND 15) \<le> unat (15 :: byte)"
    by (rule word_le_nat_alt [THEN iffD1])
  then show ?thesis
    by simp
qed

lemma byte_from_nibbles: "push_bit 4 (drop_bit 4 b) OR (b AND 15) = b" for b :: byte
proof -
  have mask: "(15 :: byte) = mask 4"
    by (simp add: mask_eq_exp_minus_1)
  show ?thesis
    unfolding mask by (auto intro!: bit_eqI simp: bit_simps)
qed

lemma length_to_hex [simp]: "length (to_hex bs) = 2 * length bs"
  by (induction bs) simp_all

lemma parse_to_hex: "parse_hex_bytes (to_hex bs) = Ok bs"
proof (induction bs)
  case (Cons b bs)
  then show ?case
    by (simp add: Let_def nibble_hex_digit [OF drop_bit_4_bound] nibble_hex_digit [OF and_15_bound]
        byte_from_nibbles)
qed simp

lemma actor_parse_to_string:
  "actor_ok a \<Longrightarrow> actor_valid a \<Longrightarrow> actor_parse (actor_to_string a) = Ok a"
  by (simp add: actor_parse_def actor_to_string_def parse_hex_exact_def actor_ok_def parse_to_hex)

lemma default_actor_invalid [simp]: "\<not> actor_valid default_actor"
  by (simp add: actor_valid_def default_actor_def kBytes_def list_ex_iff)

section \<open>Identities\<close>

text \<open>\<open>Identity\<close>: ordered by the counter first and then by the actor.\<close>

datatype identity = Identity (actor: actor_id) (counter: nat)

definition identity_min :: identity where
  "identity_min = Identity default_actor 0"

instantiation identity :: linorder
begin

definition less_identity :: "identity \<Rightarrow> identity \<Rightarrow> bool" where
  "less_identity a b =
     (if counter a \<noteq> counter b then counter a < counter b else actor_compare (actor a) (actor b) < 0)"

definition less_eq_identity :: "identity \<Rightarrow> identity \<Rightarrow> bool" where
  "less_eq_identity a b = (a < b \<or> a = b)" for a b :: identity

instance
proof
  fix x y z :: identity
  have lt: "x < y \<longleftrightarrow> counter x < counter y \<or> counter x = counter y \<and> actor x < actor y"
    for x y :: identity
    by (simp add: less_identity_def less_actor_id_def)
  show "x < y \<longleftrightarrow> x \<le> y \<and> \<not> y \<le> x"
    by (auto simp: less_eq_identity_def lt)
  show "x \<le> x"
    by (simp add: less_eq_identity_def)
  show "x \<le> y \<Longrightarrow> y \<le> z \<Longrightarrow> x \<le> z"
    by (auto simp: less_eq_identity_def lt)
  show "x \<le> y \<Longrightarrow> y \<le> x \<Longrightarrow> x = y"
    by (auto simp: less_eq_identity_def lt)
  show "x \<le> y \<or> y \<le> x"
    by (metis identity.expand less_eq_identity_def lt not_less_iff_gr_or_eq)
qed

end

lemma identity_less_iff:
  "x < y \<longleftrightarrow> counter x < counter y \<or> counter x = counter y \<and> actor x < actor y"
  for x y :: identity
  by (simp add: less_identity_def less_actor_id_def)

text \<open>\<open>Identity::tick\<close> and \<open>Identity::observe\<close> on the causal clock.\<close>

definition identity_tick :: "identity \<Rightarrow> identity \<times> identity" where
  "identity_tick i = (i, Identity (actor i) (u64 (counter i + 1)))"

definition identity_observe :: "identity \<Rightarrow> identity \<Rightarrow> identity" where
  "identity_observe i other =
     (if counter i \<le> counter other then Identity (actor i) (u64 (counter other + 1)) else i)"

section \<open>Anchors\<close>

datatype bias = BiasLeft | BiasRight

record anchor =
  position :: identity
  a_bias :: bias
  at_end :: bool

definition anchor_min :: anchor where
  "anchor_min = \<lparr>position = identity_min, a_bias = BiasLeft, at_end = False\<rparr>"

definition anchor_end :: anchor where
  "anchor_end = \<lparr>position = identity_min, a_bias = BiasRight, at_end = True\<rparr>"

definition is_min :: "anchor \<Rightarrow> bool" where
  "is_min a = (\<not> at_end a \<and> position a = identity_min)"

definition is_end :: "anchor \<Rightarrow> bool" where
  "is_end a = at_end a"

section \<open>Checked counters\<close>

text \<open>
  \<open>CheckedCounter\<close>: the state is \<open>m_next\<close>. Every operation returns the new counter and its
  result; a failed one returns the counter it was given.
\<close>

definition kExhausted :: nat where
  "kExhausted = U64_MAX"

definition counter_start :: nat where
  "counter_start = 1"

definition cc_reserve :: "nat \<Rightarrow> nat \<times> nat result" where
  "cc_reserve m_next =
     (if m_next = 0 then (m_next, Err invalid_identity)
      else if m_next = kExhausted then (m_next, Err counter_exhausted)
      else (u64 (m_next + 1), Ok m_next))"

definition cc_reserve_run :: "nat \<Rightarrow> nat \<Rightarrow> nat \<times> nat result" where
  "cc_reserve_run m_next count =
     (if count = 0 then (m_next, Err invalid_identity)
      else if m_next = 0 then (m_next, Err invalid_identity)
      else if m_next = kExhausted \<or> count - 1 > (kExhausted - 1) - m_next
        then (m_next, Err counter_exhausted)
      else (u64 (m_next + count), Ok m_next))"

definition cc_observe :: "nat \<Rightarrow> nat \<Rightarrow> nat \<times> unit result" where
  "cc_observe m_next observed =
     (if observed = kExhausted then (m_next, Err counter_exhausted)
      else if u64 (observed + 1) > m_next then (u64 (observed + 1), Ok ())
      else (m_next, Ok ()))"

definition cc_restore :: "nat \<Rightarrow> nat \<Rightarrow> nat \<times> unit result" where
  "cc_restore m_next next_value =
     (if next_value < m_next then (m_next, Err counter_regression) else (next_value, Ok ()))"

lemma cc_reserve_run_Ok:
  assumes "n \<le> U64_MAX" "cc_reserve_run n count = (n', Ok b)"
  shows "b = n \<and> n' = n + count \<and> 0 < n \<and> 0 < count \<and> n' \<le> kExhausted"
  using assms by (auto simp: cc_reserve_run_def kExhausted_def split: if_splits)

lemma cc_reserve_run_Err: "cc_reserve_run n count = (n', Err e) \<Longrightarrow> n' = n"
  by (auto simp: cc_reserve_run_def split: if_splits)

lemma cc_reserve_run_mono:
  assumes "n \<le> U64_MAX"
  shows "n \<le> fst (cc_reserve_run n count) \<and> fst (cc_reserve_run n count) \<le> U64_MAX"
proof (cases "cc_reserve_run n count")
  case (Pair n' r)
  then show ?thesis
    using assms cc_reserve_run_Ok [of n count n'] cc_reserve_run_Err [of n count n']
    by (cases r) (auto simp: kExhausted_def)
qed

lemma cc_observe_mono:
  "n \<le> U64_MAX \<Longrightarrow> c \<le> U64_MAX \<Longrightarrow>
     n \<le> fst (cc_observe n c) \<and> fst (cc_observe n c) \<le> U64_MAX"
  by (auto simp: cc_observe_def kExhausted_def)

section \<open>The allocator interface\<close>

text \<open>
  \<open>IdentityAllocator\<close> is an abstract class: an engine holds a shared handle and calls its four
  virtual functions. The handle's state is the type \<open>'al\<close>, the virtual functions are the fields
  of \<open>alloc_ops\<close>.
\<close>

record 'al alloc_ops =
  reserve_run :: "'al \<Rightarrow> nat \<Rightarrow> 'al \<times> nat result"
  alloc_observe :: "'al \<Rightarrow> nat \<Rightarrow> 'al"
  alloc_peek :: "'al \<Rightarrow> nat"
  alloc_actor :: "'al \<Rightarrow> actor_id"

text \<open>
  What the engines rely on: a successful reservation returns values that were never returned
  before and never will be again (\<open>issued\<close> is the bound below which everything was issued or
  skipped), a refused one issues nothing, and the actor never changes.
\<close>

locale identity_allocator =
  fixes A :: "'al alloc_ops"
    and usable :: "'al \<Rightarrow> bool"
    and issued :: "'al \<Rightarrow> nat"
  assumes reserve_ok:
      "usable al \<Longrightarrow> n \<le> U64_MAX \<Longrightarrow> reserve_run A al n = (al', Ok c) \<Longrightarrow>
         usable al' \<and> 0 < n \<and> 0 < c \<and> issued al \<le> c \<and> c + n \<le> issued al' \<and> issued al' \<le> U64_MAX"
    and reserve_err:
      "usable al \<Longrightarrow> n \<le> U64_MAX \<Longrightarrow> reserve_run A al n = (al', Err e) \<Longrightarrow>
         usable al' \<and> issued al \<le> issued al'"
    and observe_ok:
      "usable al \<Longrightarrow> c \<le> U64_MAX \<Longrightarrow>
         usable (alloc_observe A al c) \<and> issued al \<le> issued (alloc_observe A al c)"
    and observe_raises:
      "usable al \<Longrightarrow> c < U64_MAX \<Longrightarrow> c < issued (alloc_observe A al c)"
    and actor_reserve: "usable al \<Longrightarrow> alloc_actor A (fst (reserve_run A al n)) = alloc_actor A al"
    and actor_observe: "usable al \<Longrightarrow> alloc_actor A (alloc_observe A al c) = alloc_actor A al"
begin

lemma reserve_after_observe_fresh:
  assumes "usable al" "c < U64_MAX" "n \<le> U64_MAX"
    and "reserve_run A (alloc_observe A al c) n = (al', Ok b)"
  shows "c < b"
  using assms observe_ok [of al c] observe_raises [of al c]
    reserve_ok [of "alloc_observe A al c" n al' b] by simp

lemma reserve_twice_disjoint:
  assumes "usable al" "n \<le> U64_MAX" "m \<le> U64_MAX"
    and "reserve_run A al n = (al', Ok b)" "reserve_run A al' m = (al'', Ok b')"
  shows "b + n \<le> b'"
  using assms reserve_ok [of al n al' b] reserve_ok [of al' m al'' b'] by simp

end

text \<open>The volatile allocator: one actor and one checked counter.\<close>

definition counter_alloc :: "(actor_id \<times> nat) alloc_ops" where
  "counter_alloc =
     \<lparr>reserve_run = (\<lambda>(a, n) count. case cc_reserve_run n count of (n', r) \<Rightarrow> ((a, n'), r)),
      alloc_observe = (\<lambda>(a, n) c. (a, fst (cc_observe n c))),
      alloc_peek = snd,
      alloc_actor = fst\<rparr>"

interpretation counter_allocator: identity_allocator counter_alloc "\<lambda>(a, n). n \<le> U64_MAX" snd
proof (unfold_locales, goal_cases)
  case (1 al n al' c)
  then show ?case
    by (auto simp: counter_alloc_def kExhausted_def split: prod.splits dest!: cc_reserve_run_Ok)
next
  case (2 al n al' e)
  then show ?case
    by (auto simp: counter_alloc_def split: prod.splits dest!: cc_reserve_run_Err)
next
  case (3 al c)
  then show ?case
    using cc_observe_mono [of "snd al" c] by (auto simp: counter_alloc_def split: prod.splits)
next
  case (4 al c)
  then show ?case
    by (auto simp: counter_alloc_def cc_observe_def kExhausted_def split: prod.splits)
qed (auto simp: counter_alloc_def split: prod.splits)

end
