(* ===== verification/Version_Vector.thy ===== *)
theory Version_Vector
  imports Actor_Identity
begin

text \<open>
  The sparse version vector \<open>Global\<close> (\<open>Engine.h\<close>, \<open>Clock.cpp\<close>): the array of (actor, counter)
  pairs the class keeps sorted by actor, with the operations in the order of the source. The
  storage management (inline buffer, heap growth, copies) is not modelled: the list is the
  contents \<open>data()[0..m_size)\<close>. \<open>global_ok\<close> is the invariant every operation keeps, and under it
  a vector is determined by the function \<open>get\<close>.
\<close>

type_synonym global = "(actor_id \<times> nat) list"

section \<open>Operations\<close>

text \<open>The loop of \<open>find_index\<close>: binary search over the pairs.\<close>

function find_index_loop :: "global \<Rightarrow> actor_id \<Rightarrow> nat \<Rightarrow> nat \<Rightarrow> nat" where
  "find_index_loop d a lo hi =
     (if lo < hi then
        let mid = lo + (hi - lo) div 2 in
        if fst (d ! mid) < a then find_index_loop d a (mid + 1) hi
        else find_index_loop d a lo mid
      else lo)"
  by pat_completeness auto
termination
  by (relation "measure (\<lambda>(d, a, lo, hi). hi - lo)") auto

declare find_index_loop.simps [simp del]

definition find_index :: "global \<Rightarrow> actor_id \<Rightarrow> nat \<times> bool" where
  "find_index d a =
     (let lo = find_index_loop d a 0 (length d) in
      (lo, lo < length d \<and> fst (d ! lo) = a))"

definition get :: "global \<Rightarrow> actor_id \<Rightarrow> nat" where
  "get g a = (case find_index g a of (idx, found) \<Rightarrow> if found then snd (g ! idx) else 0)"

definition observe :: "global \<Rightarrow> identity \<Rightarrow> global" where
  "observe g i =
     (if counter i = 0 then g
      else case find_index g (actor i) of (idx, found) \<Rightarrow>
        if found then
          (if snd (g ! idx) < counter i then g[idx := (fst (g ! idx), counter i)] else g)
        else take idx g @ (actor i, counter i) # drop idx g)"

definition observed :: "global \<Rightarrow> identity \<Rightarrow> bool" where
  "observed g i = (get g (actor i) \<ge> counter i)"

definition observed_all :: "global \<Rightarrow> global \<Rightarrow> bool" where
  "observed_all g other = list_all (\<lambda>(a, c). \<not> get g a < c) other"

definition join :: "global \<Rightarrow> global \<Rightarrow> global" where
  "join g other = foldl (\<lambda>acc (a, c). observe acc (Identity a c)) g other"

definition meet :: "global \<Rightarrow> global \<Rightarrow> global" where
  "meet g other =
     map (\<lambda>(a, v). let other_val = get other a in
            (a, if other_val > 0 \<and> other_val < v then other_val else v)) g"

fun coverage_walk :: "global \<Rightarrow> global \<Rightarrow> global" where
  "coverage_walk [] [] = []"
| "coverage_walk ((a, l) # as) [] =
     (let value = min l 0 in (if value > 0 then [(a, value)] else []) @ coverage_walk as [])"
| "coverage_walk [] ((b, r) # bs) =
     (let value = min 0 r in (if value > 0 then [(b, value)] else []) @ coverage_walk [] bs)"
| "coverage_walk ((a, l) # as) ((b, r) # bs) =
     (if a < b then
        let value = min l 0 in
        (if value > 0 then [(a, value)] else []) @ coverage_walk as ((b, r) # bs)
      else if b < a then
        let value = min 0 r in
        (if value > 0 then [(b, value)] else []) @ coverage_walk ((a, l) # as) bs
      else
        let value = min l r in
        (if value > 0 then [(a, value)] else []) @ coverage_walk as bs)"

definition coverage_intersection :: "global \<Rightarrow> global \<Rightarrow> global" where
  "coverage_intersection g other = coverage_walk g other"

section \<open>The invariant\<close>

definition global_ok :: "global \<Rightarrow> bool" where
  "global_ok g = (sorted1 g \<and> (\<forall>p \<in> set g. 0 < snd p))"

lemma global_ok_Nil [simp]: "global_ok []"
  by (simp add: global_ok_def)

text \<open>The binary search finds the first pair whose actor is not below the wanted one.\<close>

lemma find_index_loop_spec:
  assumes "sorted1 d" "lo \<le> hi" "hi \<le> length d"
    and "\<forall>i < lo. fst (d ! i) < a" "hi < length d \<longrightarrow> \<not> fst (d ! hi) < a"
  shows "find_index_loop d a lo hi = length (takeWhile (\<lambda>p. fst p < a) d)"
  using assms
proof (induction d a lo hi rule: find_index_loop.induct)
  case (1 d a lo hi)
  have mono: "i \<le> j \<Longrightarrow> j < length d \<Longrightarrow> fst (d ! i) \<le> fst (d ! j)" for i j
    using "1.prems"(1) sorted_wrt_nth_less [of "(<)" "map fst d" i j]
    by (cases "i = j") (auto simp: less_imp_le)
  show ?case
  proof (cases "lo < hi")
    case False
    then have "lo = hi"
      using "1.prems"(2) by simp
    then have "takeWhile (\<lambda>p. fst p < a) d = take lo d"
      using "1.prems"(4,5) by (intro takeWhile_eq_take_P_nth) auto
    then show ?thesis
      using \<open>lo = hi\<close> "1.prems"(3) find_index_loop.simps [of d a hi hi] by simp
  next
    case True
    define mid where "mid = lo + (hi - lo) div 2"
    have mid: "lo \<le> mid" "mid < hi"
      using True by (auto simp: mid_def)
    show ?thesis
    proof (cases "fst (d ! mid) < a")
      case below: True
      have "fst (d ! i) < a" if "i < mid + 1" for i
        using below mono [of i mid] mid "1.prems"(3) that by (auto intro: le_less_trans)
      then show ?thesis
        using "1.IH"(1) [OF True mid_def] below "1.prems" mid True
        by (simp add: find_index_loop.simps [of d a lo hi] mid_def [symmetric] Let_def)
    next
      case above: False
      then show ?thesis
        using "1.IH"(2) [OF True mid_def] "1.prems" mid True
        by (simp add: find_index_loop.simps [of d a lo hi] mid_def [symmetric] Let_def)
    qed
  qed
qed

lemma find_index_takeWhile:
  assumes "sorted1 g"
  shows "find_index g a =
     (length (takeWhile (\<lambda>p. fst p < a) g),
      case dropWhile (\<lambda>p. fst p < a) g of [] \<Rightarrow> False | p # _ \<Rightarrow> fst p = a)"
proof -
  let ?n = "length (takeWhile (\<lambda>p. fst p < a) g)"
  have idx: "find_index_loop g a 0 (length g) = ?n"
    using assms by (intro find_index_loop_spec) auto
  have dw: "dropWhile (\<lambda>p. fst p < a) g = drop ?n g"
    by (rule dropWhile_eq_drop)
  have "(?n < length g \<and> fst (g ! ?n) = a) \<longleftrightarrow>
      (case drop ?n g of [] \<Rightarrow> False | p # _ \<Rightarrow> fst p = a)"
  proof (cases "?n < length g")
    case True
    then show ?thesis
      by (simp add: Cons_nth_drop_Suc [symmetric])
  qed simp
  then show ?thesis
    by (simp only: find_index_def idx Let_def dw)
qed

text \<open>
  The recursive reading of the two operations on sorted pairs: \<open>get\<close> is the association-list
  lookup, \<open>observe\<close> is an ordered insertion that keeps the larger counter.
\<close>

fun raise_pair :: "actor_id \<Rightarrow> nat \<Rightarrow> global \<Rightarrow> global" where
  "raise_pair a c [] = [(a, c)]"
| "raise_pair a c ((b, v) # ps) =
     (if b < a then (b, v) # raise_pair a c ps
      else if b = a then (b, max v c) # ps
      else (a, c) # (b, v) # ps)"

lemma get_Cons:
  assumes "sorted1 ((b, v) # ps)"
  shows "get ((b, v) # ps) a = (if a = b then v else if a < b then 0 else get ps a)"
proof -
  have "sorted1 ps"
    using assms by simp
  then show ?thesis
    using assms
    by (cases "dropWhile (\<lambda>p. fst p < a) ps")
      (auto simp: get_def find_index_takeWhile Let_def)
qed

lemma get_Nil [simp]: "get [] a = 0"
  by (simp add: get_def find_index_takeWhile)

lemma observe_raise_pair:
  assumes "sorted1 g" "counter i \<noteq> 0"
  shows "observe g i = raise_pair (actor i) (counter i) g"
  using assms
proof (induction g)
  case Nil
  then show ?case
    by (simp add: observe_def find_index_takeWhile)
next
  case (Cons p g)
  obtain b v where p: "p = (b, v)"
    by (cases p)
  have "sorted1 g"
    using Cons.prems by simp
  then have IH: "observe g i = raise_pair (actor i) (counter i) g"
    using Cons by simp
  show ?case
    using Cons.prems IH \<open>sorted1 g\<close> p
    by (auto simp: observe_def find_index_takeWhile max_def split: if_splits list.splits)
qed

lemma raise_pair_keys: "fst ` set (raise_pair a c g) = insert a (fst ` set g)"
  by (induction a c g rule: raise_pair.induct) auto

lemma raise_pair_sorted: "sorted1 g \<Longrightarrow> sorted1 (raise_pair a c g)"
proof (induction a c g rule: raise_pair.induct)
  case (2 a c b v ps)
  then show ?case
    using raise_pair_keys [of a c ps] by (fastforce intro: less_trans)
qed simp

lemma raise_pair_get:
  "sorted1 g \<Longrightarrow> get (raise_pair a c g) x = (if x = a then max (get g x) c else get g x)"
proof (induction a c g rule: raise_pair.induct)
  case (2 a c b v ps)
  have "sorted1 (raise_pair a c ((b, v) # ps))"
    using "2.prems" by (rule raise_pair_sorted)
  then show ?case
    using 2 by (auto simp: get_Cons)
qed (simp add: get_Cons)

lemma raise_pair_pos:
  "0 < c \<Longrightarrow> \<forall>p \<in> set g. 0 < snd p \<Longrightarrow> \<forall>p \<in> set (raise_pair a c g). 0 < snd p"
  by (induction a c g rule: raise_pair.induct) auto

section \<open>Behaviour of the operations\<close>

lemma get_notin: "sorted1 g \<Longrightarrow> a \<notin> fst ` set g \<Longrightarrow> get g a = 0"
proof (induction g)
  case (Cons p g)
  then show ?case
    by (cases p) (auto simp: get_Cons)
qed simp

lemma get_in: "sorted1 g \<Longrightarrow> (a, c) \<in> set g \<Longrightarrow> get g a = c"
proof (induction g)
  case (Cons p g)
  then show ?case
    by (cases p) (fastforce simp: get_Cons)
qed simp

lemma get_map_of:
  assumes "sorted1 g"
  shows "get g a = (case map_of g a of None \<Rightarrow> 0 | Some c \<Rightarrow> c)"
  using assms get_notin [of g a] get_in [of g a]
  by (auto split: option.splits dest: map_of_SomeD simp: map_of_eq_None_iff)

lemma global_ok_ext:
  assumes "global_ok g" "global_ok h" "\<And>a. get g a = get h a"
  shows "g = h"
proof (rule sorted1_ext)
  show sg: "sorted1 g" and sh: "sorted1 h"
    using assms by (auto simp: global_ok_def)
  have pos: "map_of g a \<noteq> Some 0" "map_of h a \<noteq> Some 0" for a
    using assms(1,2) by (auto simp: global_ok_def dest!: map_of_SomeD)
  show "map_of g = map_of h"
  proof
    fix a
    show "map_of g a = map_of h a"
      using assms(3) [of a] pos [of a]
      by (auto simp: get_map_of [OF sg] get_map_of [OF sh] split: option.splits)
  qed
qed

lemma global_ok_observe [simp]: "global_ok g \<Longrightarrow> global_ok (observe g i)"
proof (cases "counter i = 0")
  case True
  then show "global_ok g \<Longrightarrow> global_ok (observe g i)"
    by (simp add: observe_def)
next
  case False
  then show "global_ok g \<Longrightarrow> global_ok (observe g i)"
    using raise_pair_pos raise_pair_sorted by (auto simp: global_ok_def observe_raise_pair)
qed

lemma get_observe:
  assumes "global_ok g"
  shows "get (observe g i) a = (if a = actor i then max (get g a) (counter i) else get g a)"
proof (cases "counter i = 0")
  case True
  then show ?thesis
    by (simp add: observe_def)
next
  case False
  then show ?thesis
    using assms by (simp add: global_ok_def observe_raise_pair raise_pair_get)
qed

lemma global_ok_join [simp]: "global_ok g \<Longrightarrow> global_ok (join g h)"
  unfolding join_def by (induction h arbitrary: g) auto

lemma get_join:
  assumes "global_ok g" "sorted1 h"
  shows "get (join g h) a = max (get g a) (get h a)"
  using assms
proof (induction h arbitrary: g)
  case Nil
  then show ?case
    by (simp add: join_def)
next
  case (Cons p h)
  obtain b v where p: "p = (b, v)"
    by (cases p)
  have rest: "sorted1 h" "b \<notin> fst ` set h"
    using Cons.prems p by auto
  have "get (join g (p # h)) a = max (get (observe g (Identity b v)) a) (get h a)"
    using Cons.IH [of "observe g (Identity b v)"] Cons.prems(1) rest p by (simp add: join_def)
  moreover have "a \<le> b \<Longrightarrow> get h a = 0"
    using Cons.prems(2) rest p get_notin [of h a] by fastforce
  ultimately show ?case
    using Cons.prems p by (auto simp: get_observe get_Cons split: if_splits)
qed

lemma observed_all_iff:
  assumes "sorted1 h"
  shows "observed_all g h \<longleftrightarrow> (\<forall>a. get h a \<le> get g a)"
proof
  assume all: "observed_all g h"
  show "\<forall>a. get h a \<le> get g a"
  proof
    fix a
    show "get h a \<le> get g a"
    proof (cases "a \<in> fst ` set h")
      case True
      then obtain c where "(a, c) \<in> set h"
        by auto
      then show ?thesis
        using all get_in [OF assms] by (auto simp: observed_all_def list_all_iff)
    next
      case False
      then show ?thesis
        using get_notin [OF assms] by simp
    qed
  qed
next
  assume "\<forall>a. get h a \<le> get g a"
  then show "observed_all g h"
    unfolding observed_all_def list_all_iff using get_in [OF assms] by (auto simp: not_less)
qed

lemma meet_keys: "map fst (meet g h) = map fst g"
  by (induction g) (auto simp: meet_def Let_def)

lemma global_ok_meet [simp]:
  assumes "global_ok g"
  shows "global_ok (meet g h)"
proof -
  have "sorted1 (meet g h)"
    using assms by (simp add: global_ok_def meet_keys)
  moreover have "\<forall>p \<in> set (meet g h). 0 < snd p"
    using assms by (auto simp: global_ok_def meet_def Let_def)
  ultimately show ?thesis
    by (simp add: global_ok_def)
qed

lemma map_of_meet:
  "map_of (meet g h) a =
     map_option (\<lambda>v. if get h a > 0 \<and> get h a < v then get h a else v) (map_of g a)"
  by (induction g) (auto simp: meet_def Let_def)

lemma get_meet:
  assumes "sorted1 g"
  shows "get (meet g h) a = (if get h a = 0 then get g a else min (get g a) (get h a))"
proof -
  have "sorted1 (meet g h)"
    using assms by (simp add: meet_keys)
  then show ?thesis
    using assms by (auto simp: get_map_of map_of_meet split: option.splits)
qed

lemma coverage_walk_keys:
  "p \<in> set (coverage_walk g h) \<Longrightarrow> fst p \<in> fst ` set g \<and> fst p \<in> fst ` set h \<and> 0 < snd p"
  by (induction g h rule: coverage_walk.induct) (auto simp: Let_def split: if_splits)

lemma coverage_walk_sorted: "sorted1 g \<Longrightarrow> sorted1 h \<Longrightarrow> sorted1 (coverage_walk g h)"
proof (induction g h rule: coverage_walk.induct)
  case (4 a l as b r bs)
  have "\<forall>p \<in> set (coverage_walk as bs). a < fst p"
    using "4.prems"(1) coverage_walk_keys [of _ as bs] by fastforce
  then show ?case
    using 4 by (auto simp: Let_def)
qed (auto simp: Let_def)

lemma global_ok_coverage [simp]:
  "global_ok g \<Longrightarrow> global_ok h \<Longrightarrow> global_ok (coverage_intersection g h)"
  using coverage_walk_keys
  by (auto simp: global_ok_def coverage_intersection_def coverage_walk_sorted)

lemma get_coverage_walk:
  "sorted1 g \<Longrightarrow> sorted1 h \<Longrightarrow> get (coverage_walk g h) a = min (get g a) (get h a)"
proof (induction g h rule: coverage_walk.induct)
  case (4 a' l as b r bs)
  have s: "sorted1 (coverage_walk ((a', l) # as) ((b, r) # bs))"
    using "4.prems" by (rule coverage_walk_sorted)
  have zero: "a \<le> a' \<Longrightarrow> get as a = 0" "a \<le> b \<Longrightarrow> get bs a = 0"
    using "4.prems" get_notin [of as a] get_notin [of bs a] by fastforce+
  consider "a' < b" | "b < a'" | "a' = b"
    by (rule linorder_cases)
  then show ?case
    using 4 s zero by cases (auto simp: Let_def get_Cons)
qed (auto simp: Let_def get_Cons)

lemma get_coverage:
  "global_ok g \<Longrightarrow> global_ok h \<Longrightarrow>
     get (coverage_intersection g h) a = min (get g a) (get h a)"
  by (simp add: coverage_intersection_def get_coverage_walk global_ok_def)

lemmas get_simps = get_observe get_join get_coverage

lemma global_ok_sorted: "global_ok g \<Longrightarrow> sorted1 g"
  by (simp add: global_ok_def)

section \<open>The interface the engines use\<close>

text \<open>
  What an engine needs of its version vector: coverage only grows, an observed identity stays
  observed, and joining a covered vector changes nothing.
\<close>

locale coverage_clock =
  fixes ok :: "'v \<Rightarrow> bool"
    and seen :: "'v \<Rightarrow> identity \<Rightarrow> bool"
    and covers :: "'v \<Rightarrow> 'v \<Rightarrow> bool"
    and note_id :: "'v \<Rightarrow> identity \<Rightarrow> 'v"
    and merge :: "'v \<Rightarrow> 'v \<Rightarrow> 'v"
  assumes ok_note: "ok v \<Longrightarrow> ok (note_id v i)"
    and ok_merge: "ok v \<Longrightarrow> ok w \<Longrightarrow> ok (merge v w)"
    and seen_note: "ok v \<Longrightarrow> seen (note_id v i) i"
    and note_covers: "ok v \<Longrightarrow> covers (note_id v i) v"
    and merge_covers: "ok v \<Longrightarrow> ok w \<Longrightarrow> covers (merge v w) v \<and> covers (merge v w) w"
    and covers_seen: "ok v \<Longrightarrow> ok w \<Longrightarrow> covers w v \<Longrightarrow> seen v i \<Longrightarrow> seen w i"
    and merge_absorb: "ok v \<Longrightarrow> ok w \<Longrightarrow> covers v w \<Longrightarrow> merge v w = v"
    and note_commute: "ok v \<Longrightarrow> note_id (note_id v i) j = note_id (note_id v j) i"
    and note_seen: "ok v \<Longrightarrow> seen v i \<Longrightarrow> note_id v i = v"
begin

lemma seen_keeps:
  "ok v \<Longrightarrow> seen v i \<Longrightarrow> seen (note_id v j) i"
  using covers_seen [OF _ ok_note note_covers] by blast

lemma seen_merge:
  "ok v \<Longrightarrow> ok w \<Longrightarrow> seen v i \<Longrightarrow> seen (merge v w) i"
  using covers_seen [OF _ ok_merge] merge_covers by blast

end

interpretation version_clock: coverage_clock global_ok observed observed_all observe join
proof (unfold_locales, goal_cases)
  case (3 v i)
  then show ?case
    by (simp add: observed_def get_observe)
next
  case (4 v i)
  then show ?case
    by (simp add: observed_all_iff global_ok_sorted get_observe)
next
  case (5 v w)
  then show ?case
    by (simp add: observed_all_iff global_ok_sorted get_join)
next
  case (6 v w i)
  then show ?case
    by (auto simp: observed_def observed_all_iff global_ok_sorted intro: order_trans)
next
  case (7 v w)
  then show ?case
    by (intro global_ok_ext) (auto simp: get_join observed_all_iff global_ok_sorted max_def
        intro: antisym)
next
  case (8 v i j)
  then show ?case
    by (intro global_ok_ext) (auto simp: get_observe)
next
  case (9 v i)
  then show ?case
    by (intro global_ok_ext) (auto simp: get_observe observed_def)
qed simp_all

end
