(* ===== verification/Sequence_Order.thy ===== *)
theory Sequence_Order
  imports Actor_Identity
begin

text \<open>
  FugueMax placement over a document-ordered vector of runs: \<open>Placement.h\<close> and
  \<open>SequenceOrder.cpp\<close>. The C++ functions are templates over the run type; here the requirements
  on the run type (the comment at the top of \<open>SequenceOrder.h\<close>) are the fields of \<open>run_ops\<close>, an
  argument \<open>R\<close> of every definition. \<open>bool integrate(vector&, Run)\<close> becomes a function to
  \<open>'r list option\<close>: \<open>None\<close> is \<open>false\<close> with the vector untouched. Loops are recursive functions;
  the guard of \<open>top_child\<close> is the fuel the code itself counts down. Counters inside this
  component are unbounded: the operations that reach it passed \<open>interval_fits\<close>, so
  \<open>origin.counter + length\<close> does not leave 64 bits.
\<close>

section \<open>Links and runs\<close>

datatype side = Left | Right

datatype link = Link (parent: "identity option") (l_side: side) (right_origin: "identity option")

definition default_link :: link where
  "default_link = Link None Right None"

record 'r run_ops =
  origin :: "'r \<Rightarrow> identity"
  run_length :: "'r \<Rightarrow> nat"
  run_link :: "'r \<Rightarrow> link"
  split_off :: "'r \<Rightarrow> nat \<Rightarrow> 'r \<times> 'r" \<comment> \<open>what stays, and the tail that is returned\<close>

definition item_at :: "('r, 'z) run_ops_scheme \<Rightarrow> 'r \<Rightarrow> nat \<Rightarrow> identity" where
  "item_at R f off = Identity (actor (origin R f)) (counter (origin R f) + off)"

definition link_at :: "('r, 'z) run_ops_scheme \<Rightarrow> 'r \<Rightarrow> nat \<Rightarrow> link" where
  "link_at R f off =
     (if off = 0 then run_link R f
      else Link (Some (item_at R f (off - 1))) Right (right_origin (run_link R f)))"

text \<open>\<open>Pos\<close>: fragment index and offset, compared lexicographically.\<close>

type_synonym pos = "nat \<times> nat"

section \<open>The identity index\<close>

text \<open>
  \<open>Index\<close>: per actor the (counter, fragment) pairs in ascending order, and \<open>find\<close>: the last pair
  not above the wanted counter, checked against the run's length.
\<close>

definition index_runs :: "('r, 'z) run_ops_scheme \<Rightarrow> 'r list \<Rightarrow> actor_id \<Rightarrow> (nat \<times> nat) list" where
  "index_runs R frags a =
     sort (map (\<lambda>i. (counter (origin R (frags ! i)), i))
       (filter (\<lambda>i. actor (origin R (frags ! i)) = a) [0..<length frags]))"

definition index_find :: "('r, 'z) run_ops_scheme \<Rightarrow> 'r list \<Rightarrow> identity \<Rightarrow> pos option" where
  "index_find R frags i =
     (let found = takeWhile (\<lambda>p. \<not> counter i < fst p) (index_runs R frags (actor i)) in
      if found = [] then None
      else let n = snd (last found); f = frags ! n in
        if counter i \<ge> counter (origin R f) + run_length R f then None
        else Some (n, counter i - counter (origin R f)))"

definition find_item :: "('r, 'z) run_ops_scheme \<Rightarrow> 'r list \<Rightarrow> identity \<Rightarrow> pos option" where
  "find_item R frags i = index_find R frags i"

section \<open>Walking the runs\<close>

definition w_at_end :: "'r list \<Rightarrow> pos \<Rightarrow> bool" where
  "w_at_end frags p = (fst p \<ge> length frags)"

definition w_id :: "('r, 'z) run_ops_scheme \<Rightarrow> 'r list \<Rightarrow> pos \<Rightarrow> identity" where
  "w_id R frags p = item_at R (frags ! fst p) (snd p)"

definition w_link :: "('r, 'z) run_ops_scheme \<Rightarrow> 'r list \<Rightarrow> pos \<Rightarrow> link" where
  "w_link R frags p = link_at R (frags ! fst p) (snd p)"

definition w_next :: "('r, 'z) run_ops_scheme \<Rightarrow> 'r list \<Rightarrow> pos \<Rightarrow> pos" where
  "w_next R frags p =
     (if snd p + 1 < run_length R (frags ! fst p) then (fst p, snd p + 1) else (fst p + 1, 0))"

text \<open>\<open>top_child\<close>: the loop counts \<open>guard\<close> from 0 to \<open>m_f.size() + 1\<close>.\<close>

definition in_run_before ::
  "('r, 'z) run_ops_scheme \<Rightarrow> 'r \<Rightarrow> nat \<Rightarrow> identity option \<Rightarrow> bool" where
  "in_run_before R f off ancestor =
     (case ancestor of
        None \<Rightarrow> False
      | Some a \<Rightarrow> actor (origin R f) = actor a \<and> counter a \<ge> counter (origin R f) \<and>
          counter a < counter (origin R f) + off)"

fun top_child_loop ::
  "('r, 'z) run_ops_scheme \<Rightarrow> 'r list \<Rightarrow> nat \<Rightarrow> pos \<Rightarrow> identity option \<Rightarrow> pos option" where
  "top_child_loop R frags 0 cur ancestor = None"
| "top_child_loop R frags (Suc guard) cur ancestor =
     (let f = frags ! fst cur in
      if in_run_before R f (snd cur) ancestor then
        Some (fst cur, counter (the ancestor) - counter (origin R f) + 1)
      else if parent (run_link R f) = ancestor then Some (fst cur, 0)
      else case parent (run_link R f) of
        None \<Rightarrow> None
      | Some p \<Rightarrow>
          (case index_find R frags p of
             None \<Rightarrow> None
           | Some up \<Rightarrow> top_child_loop R frags guard up ancestor))"

definition top_child ::
  "('r, 'z) run_ops_scheme \<Rightarrow> 'r list \<Rightarrow> pos \<Rightarrow> identity option \<Rightarrow> pos option" where
  "top_child R frags x ancestor = top_child_loop R frags (length frags + 2) x ancestor"

definition descendant ::
  "('r, 'z) run_ops_scheme \<Rightarrow> 'r list \<Rightarrow> pos \<Rightarrow> identity option \<Rightarrow> bool" where
  "descendant R frags x ancestor = (top_child R frags x ancestor \<noteq> None)"

function skip_subtree :: "('r, 'z) run_ops_scheme \<Rightarrow> 'r list \<Rightarrow> pos \<Rightarrow> identity \<Rightarrow> pos" where
  "skip_subtree R frags p root =
     (if w_at_end frags p then p
      else if w_id R frags p = root \<or> descendant R frags p (Some root)
        then skip_subtree R frags (fst p + 1, 0) root
      else p)"
  by pat_completeness auto
termination
  by (relation "measure (\<lambda>(R, frags, p, root). length frags - fst p)") (auto simp: w_at_end_def)

declare skip_subtree.simps [simp del]

definition w_rank :: "('r, 'z) run_ops_scheme \<Rightarrow> 'r list \<Rightarrow> identity option \<Rightarrow> pos option" where
  "w_rank R frags ro =
     (case ro of None \<Rightarrow> Some (length frags + 1, 0) | Some i \<Rightarrow> index_find R frags i)"

subsection \<open>The walk always moves on\<close>

text \<open>
  The child that \<open>top_child\<close> finds above a position is the position's own item or an ancestor
  of it, so skipping its subtree moves past at least one run. This makes the two walks below
  terminate on every vector, consistent or not.
\<close>

lemma w_id_Pair [simp]: "w_id R frags (n, off) = item_at R (frags ! n) off"
  by (simp add: w_id_def)

lemma last_takeWhile_props:
  assumes "found = takeWhile P xs" "found \<noteq> []"
  shows "last found \<in> set xs" "P (last found)"
  using assms by (metis last_in_set set_takeWhileD)+

lemma index_runs_mem:
  "(c, n) \<in> set (index_runs R frags a) \<longleftrightarrow>
     n < length frags \<and> origin R (frags ! n) = Identity a c"
proof
  assume "(c, n) \<in> set (index_runs R frags a)"
  then show "n < length frags \<and> origin R (frags ! n) = Identity a c"
    by (auto simp: index_runs_def identity.expand)
next
  assume "n < length frags \<and> origin R (frags ! n) = Identity a c"
  then show "(c, n) \<in> set (index_runs R frags a)"
    by (auto simp: index_runs_def intro!: image_eqI [of _ _ n])
qed

lemma index_find_Some:
  assumes "index_find R frags i = Some (n, off)"
  shows "n < length frags" "off < run_length R (frags ! n)" "item_at R (frags ! n) off = i"
proof -
  define found where
    "found = takeWhile (\<lambda>p. \<not> counter i < fst p) (index_runs R frags (actor i))"
  have ne: "found \<noteq> []" and n: "n = snd (last found)"
    and bound: "\<not> counter i \<ge> counter (origin R (frags ! n)) + run_length R (frags ! n)"
    and off: "off = counter i - counter (origin R (frags ! n))"
    using assms unfolding index_find_def found_def [symmetric] Let_def by (auto split: if_splits)
  have "last found \<in> set (index_runs R frags (actor i))" "\<not> counter i < fst (last found)"
    using last_takeWhile_props [OF found_def ne] by auto
  then have "n < length frags" "origin R (frags ! n) = Identity (actor i) (fst (last found))"
    "fst (last found) \<le> counter i"
    using n index_runs_mem [of "fst (last found)" "snd (last found)" R frags "actor i"] by auto
  then show "n < length frags" "off < run_length R (frags ! n)" "item_at R (frags ! n) off = i"
    using bound off by (auto simp: item_at_def identity.expand)
qed

lemma index_find_id: "index_find R frags i = Some p \<Longrightarrow> w_id R frags p = i"
  using index_find_Some by (cases p) fastforce

lemma top_child_loop_self:
  assumes "top_child_loop R frags g cur anc = Some c"
  shows "w_id R frags cur = w_id R frags c \<or>
    (\<exists>d. top_child_loop R frags g cur (Some (w_id R frags c)) = Some d)"
  using assms
proof (induction g arbitrary: cur)
  case 0
  then show ?case by simp
next
  case (Suc g)
  let ?f = "frags ! fst cur"
  consider (inside) "in_run_before R ?f (snd cur) anc"
      "c = (fst cur, counter (the anc) - counter (origin R ?f) + 1)"
    | (child) "\<not> in_run_before R ?f (snd cur) anc" "parent (run_link R ?f) = anc" "c = (fst cur, 0)"
    | (up) p up where "parent (run_link R ?f) = Some p" "index_find R frags p = Some up"
      "top_child_loop R frags g up anc = Some c"
    using Suc.prems by (auto simp: Let_def split: if_splits option.splits)
  then show ?case
  proof cases
    case inside
    then obtain a where a: "anc = Some a" "counter (origin R ?f) \<le> counter a"
      "counter a < counter (origin R ?f) + snd cur" "actor (origin R ?f) = actor a"
      by (auto simp: in_run_before_def split: option.splits)
    show ?thesis
    proof (cases "counter a - counter (origin R ?f) + 1 = snd cur")
      case True
      then have "c = cur"
        using inside(2) a(1) by (simp add: prod_eq_iff)
      then show ?thesis by simp
    next
      case False
      then have "in_run_before R ?f (snd cur) (Some (w_id R frags c))"
        using a inside(2) by (simp add: in_run_before_def item_at_def)
      then show ?thesis
        by (simp add: Let_def)
    qed
  next
    case child
    show ?thesis
    proof (cases "snd cur = 0")
      case True
      then have "c = cur"
        using child(3) by (simp add: prod_eq_iff)
      then show ?thesis by simp
    next
      case False
      then have "in_run_before R ?f (snd cur) (Some (w_id R frags c))"
        using child(3) by (simp add: in_run_before_def item_at_def)
      then show ?thesis
        by (simp add: Let_def)
    qed
  next
    case up
    from Suc.IH [OF up(3)] show ?thesis
    proof
      assume "w_id R frags up = w_id R frags c"
      then have "parent (run_link R ?f) = Some (w_id R frags c)"
        using up(1,2) index_find_id by metis
      then show ?thesis
        by (auto simp: Let_def)
    next
      assume "\<exists>d. top_child_loop R frags g up (Some (w_id R frags c)) = Some d"
      then show ?thesis
        using up(1,2) by (auto simp: Let_def)
    qed
  qed
qed

lemma skip_subtree_ge: "fst p \<le> fst (skip_subtree R frags p root)"
proof (induction R frags p root rule: skip_subtree.induct)
  case (1 R frags p root)
  then show ?case
    by (subst skip_subtree.simps) auto
qed

lemma skip_subtree_progress:
  assumes "\<not> w_at_end frags p" "top_child R frags p anc = Some c"
  shows "fst p < fst (skip_subtree R frags p (w_id R frags c))"
proof -
  have "w_id R frags p = w_id R frags c \<or> descendant R frags p (Some (w_id R frags c))"
    using top_child_loop_self [OF assms(2) [unfolded top_child_def]]
    by (auto simp: top_child_def descendant_def)
  then have "skip_subtree R frags p (w_id R frags c) =
      skip_subtree R frags (fst p + 1, 0) (w_id R frags c)"
    using assms(1) by (subst skip_subtree.simps) simp
  then show ?thesis
    using skip_subtree_ge [of "(fst p + 1, 0)"] by (metis Suc_eq_plus1 Suc_le_lessD fst_conv)
qed

section \<open>Placement\<close>

text \<open>
  The walk over the right children of the parent. \<open>mine\<close> is the rank of the incoming right
  origin; \<open>None\<close> is the \<open>return false\<close> when a sibling's right origin is missing.
\<close>

function right_walk ::
  "('r, 'z) run_ops_scheme \<Rightarrow> 'r list \<Rightarrow> identity \<Rightarrow> pos \<Rightarrow> identity option \<Rightarrow> pos \<Rightarrow> pos option" where
  "right_walk R frags inc mine par p =
     (if w_at_end frags p then Some p
      else case top_child R frags p par of
        None \<Rightarrow> Some p
      | Some child \<Rightarrow>
          (case w_rank R frags (right_origin (w_link R frags child)) of
             None \<Rightarrow> None
           | Some theirs \<Rightarrow>
               if mine > theirs \<or> (mine = theirs \<and> inc < w_id R frags child) then Some p
               else right_walk R frags inc mine par (skip_subtree R frags p (w_id R frags child))))"
  by pat_completeness auto
termination
proof (relation "measure (\<lambda>(R, frags, inc, mine, par, p). length frags - fst p)", goal_cases)
  case (2 R frags inc mine par p child theirs)
  then have "fst p < fst (skip_subtree R frags p (w_id R frags child))" "fst p < length frags"
    using skip_subtree_progress [of frags p R par child] by (auto simp: w_at_end_def)
  then show ?case by simp
qed simp

declare right_walk.simps [simp del]

text \<open>
  The backward loop over the left subtrees that end at the parent. The last item of the
  previous run is at \<open>length - 1\<close>: runs are never empty.
\<close>

definition prev_pos :: "('r, 'z) run_ops_scheme \<Rightarrow> 'r list \<Rightarrow> pos \<Rightarrow> pos option" where
  "prev_pos R frags start =
     (if snd start > 0 then Some (fst start, snd start - 1)
      else if fst start > 0 then Some (fst start - 1, run_length R (frags ! (fst start - 1)) - 1)
      else None)"

function left_start ::
  "('r, 'z) run_ops_scheme \<Rightarrow> 'r list \<Rightarrow> identity option \<Rightarrow> pos \<Rightarrow> pos" where
  "left_start R frags par start =
     (case prev_pos R frags start of
        None \<Rightarrow> start
      | Some b \<Rightarrow>
          if descendant R frags b par then left_start R frags par (fst b, 0) else start)"
  by pat_completeness auto
termination
  by (relation "measure (\<lambda>(R, frags, par, start). 2 * fst start + (if snd start > 0 then 1 else 0))")
    (auto simp: prev_pos_def split: if_splits)

declare left_start.simps [simp del]

text \<open>
  The walk over the left children up to the parent. Running past the last run cannot happen on
  a consistent vector (the parent is not in the subtree of its own child); the recursion stops
  there.
\<close>

function left_walk ::
  "('r, 'z) run_ops_scheme \<Rightarrow> 'r list \<Rightarrow> identity \<Rightarrow> identity option \<Rightarrow> pos \<Rightarrow> pos \<Rightarrow> pos" where
  "left_walk R frags inc par parent_pos p =
     (if p = parent_pos \<or> w_at_end frags p then p
      else case top_child R frags p par of
        None \<Rightarrow> p
      | Some child \<Rightarrow>
          if inc < w_id R frags child then p
          else left_walk R frags inc par parent_pos (skip_subtree R frags p (w_id R frags child)))"
  by pat_completeness auto
termination
proof (relation "measure (\<lambda>(R, frags, inc, par, parent_pos, p). length frags - fst p)", goal_cases)
  case (2 R frags inc par parent_pos p child)
  then have "fst p < fst (skip_subtree R frags p (w_id R frags child))" "fst p < length frags"
    using skip_subtree_progress [of frags p R par child] by (auto simp: w_at_end_def)
  then show ?case by simp
qed simp

declare left_walk.simps [simp del]

definition has_final_append_preconditions ::
  "('r, 'z) run_ops_scheme \<Rightarrow> 'r list \<Rightarrow> 'r \<Rightarrow> bool" where
  "has_final_append_preconditions R runs incoming =
     (let link = run_link R incoming in
      if run_length R incoming = 0 \<or> l_side link \<noteq> Right \<or> right_origin link \<noteq> None then False
      else case parent link of
        None \<Rightarrow> runs = []
      | Some p \<Rightarrow> runs \<noteq> [] \<and> run_length R (last runs) > 0 \<and>
          item_at R (last runs) (run_length R (last runs) - 1) = p)"

text \<open>Where the general search puts the incoming run.\<close>

definition place_right :: "('r, 'z) run_ops_scheme \<Rightarrow> 'r list \<Rightarrow> 'r \<Rightarrow> pos option" where
  "place_right R frags incoming =
     (let link = run_link R incoming in
      case (case parent link of
              None \<Rightarrow> Some (0, 0)
            | Some p \<Rightarrow> map_option (w_next R frags) (index_find R frags p)) of
        None \<Rightarrow> None
      | Some p \<Rightarrow>
          (case w_rank R frags (right_origin link) of
             None \<Rightarrow> None
           | Some mine \<Rightarrow> right_walk R frags (origin R incoming) mine (parent link) p))"

definition place_left :: "('r, 'z) run_ops_scheme \<Rightarrow> 'r list \<Rightarrow> 'r \<Rightarrow> pos option" where
  "place_left R frags incoming =
     (let link = run_link R incoming in
      case parent link of
        None \<Rightarrow> None
      | Some p \<Rightarrow>
          (case index_find R frags p of
             None \<Rightarrow> None
           | Some pp \<Rightarrow>
               Some (left_walk R frags (origin R incoming) (parent link) pp
                 (left_start R frags (parent link) pp))))"

text \<open>The insertion at the end of \<open>integrate_impl\<close>, splitting a run if the position is inside.\<close>

definition insert_run :: "('r, 'z) run_ops_scheme \<Rightarrow> 'r list \<Rightarrow> pos \<Rightarrow> 'r \<Rightarrow> 'r list" where
  "insert_run R frags at incoming =
     (if snd at > 0 then
        case split_off R (frags ! fst at) (snd at) of
          (h, t) \<Rightarrow> take (fst at) frags @ [h, incoming, t] @ drop (fst at + 1) frags
      else take (fst at) frags @ incoming # drop (fst at) frags)"

definition integrate_impl ::
  "('r, 'z) run_ops_scheme \<Rightarrow> 'r list \<Rightarrow> 'r \<Rightarrow> bool \<Rightarrow> 'r list option" where
  "integrate_impl R frags incoming allow_append =
     (if allow_append \<and> has_final_append_preconditions R frags incoming
      then Some (frags @ [incoming])
      else case (if l_side (run_link R incoming) = Right then place_right R frags incoming
                 else place_left R frags incoming) of
        None \<Rightarrow> None
      | Some at \<Rightarrow> Some (insert_run R frags at incoming))"

definition integrate :: "('r, 'z) run_ops_scheme \<Rightarrow> 'r list \<Rightarrow> 'r \<Rightarrow> 'r list option" where
  "integrate R frags incoming = integrate_impl R frags incoming True"

definition integrate_slow :: "('r, 'z) run_ops_scheme \<Rightarrow> 'r list \<Rightarrow> 'r \<Rightarrow> 'r list option" where
  "integrate_slow R frags incoming = integrate_impl R frags incoming False"

text \<open>
  \<open>mint_link\<close>. An element that is not found gives the default link, as in the code.
\<close>

definition mint_link :: "('r, 'z) run_ops_scheme \<Rightarrow> 'r list \<Rightarrow> identity option \<Rightarrow> link" where
  "mint_link R frags left_origin =
     (case (case left_origin of
              None \<Rightarrow> Some (0, 0)
            | Some i \<Rightarrow> map_option (w_next R frags) (index_find R frags i)) of
        None \<Rightarrow> default_link
      | Some after \<Rightarrow>
          let right = (if w_at_end frags after then None else Some (w_id R frags after));
              has_right_child =
                (case left_origin of
                   Some _ \<Rightarrow> right \<noteq> None \<and> descendant R frags after left_origin
                 | None \<Rightarrow> right \<noteq> None)
          in if \<not> has_right_child then Link left_origin Right right else Link right Left right)"

section \<open>Consistency check\<close>

datatype violation =
    RunEmpty nat | ParentMissing nat | RightBeforeParent nat | LeftAfterParent nat
  | LeftRightOriginDiffers nat | LeftOfRoot nat | RightOriginMissing nat
  | RightOriginBefore nat

definition check_run :: "('r, 'z) run_ops_scheme \<Rightarrow> 'r list \<Rightarrow> nat \<Rightarrow> violation option" where
  "check_run R runs i =
     (let link = run_link R (runs ! i); here = (i, 0::nat);
          final = (i, run_length R (runs ! i) - 1);
          on_parent =
            (case parent link of
               Some p \<Rightarrow>
                 (case index_find R runs p of
                    None \<Rightarrow> Some (ParentMissing i)
                  | Some pp \<Rightarrow>
                      if l_side link = Right \<and> \<not> pp < here then Some (RightBeforeParent i)
                      else if l_side link = Left \<and> \<not> final < pp then Some (LeftAfterParent i)
                      else if l_side link = Left \<and> right_origin link \<noteq> parent link
                        then Some (LeftRightOriginDiffers i)
                      else None)
             | None \<Rightarrow> if l_side link = Left then Some (LeftOfRoot i) else None)
      in if run_length R (runs ! i) = 0 then Some (RunEmpty i)
         else case on_parent of
           Some v \<Rightarrow> Some v
         | None \<Rightarrow>
             (case right_origin link of
                None \<Rightarrow> None
              | Some r \<Rightarrow>
                  (case index_find R runs r of
                     None \<Rightarrow> Some (RightOriginMissing i)
                   | Some ro \<Rightarrow>
                       if l_side link = Right \<and> \<not> final < ro then Some (RightOriginBefore i)
                       else None)))"

definition check_consistency :: "('r, 'z) run_ops_scheme \<Rightarrow> 'r list \<Rightarrow> violation option" where
  "check_consistency R runs =
     (case filter (\<lambda>v. v \<noteq> None) (map (check_run R runs) [0..<length runs]) of
        [] \<Rightarrow> None
      | v # _ \<Rightarrow> v)"

end
