(* ===== verification/Utf_Codec.thy ===== *)
theory Utf_Codec
  imports Collab_Prelude
begin

text \<open>
  Strict UTF-8 and UTF-16 (\<open>codec/Utf.cpp\<close>) and the offset conversions of \<open>crdt/Utf16.h\<close>. A
  string is the list of its bytes, a UTF-16 string the list of its code units; scalars are
  natural numbers. The bit operations are those of the code; the lemmas turn them into
  arithmetic. The main facts: decoding inverts \<open>append_scalar\<close>, and what the validator accepts
  are exactly the encodings of scalar sequences.
\<close>

unbundle bit_operations_syntax

type_synonym bytes = "8 word list"
type_synonym u16string = "16 word list"

section \<open>Decoding one scalar\<close>

datatype utf_kind =
    Truncated | InvalidLead | BadContinuation | Overlong | Surrogate | TooLarge | NotConvertible

record utf_error =
  uk_kind :: utf_kind
  uk_offset :: nat
  uk_length :: nat

definition utf_err :: "utf_kind \<Rightarrow> nat \<Rightarrow> nat \<Rightarrow> utf_error" where
  "utf_err k off len = \<lparr>uk_kind = k, uk_offset = off, uk_length = len\<rparr>"

definition kMaxScalar :: nat where
  "kMaxScalar = 0x10FFFF"

definition is_continuation :: "nat \<Rightarrow> bool" where
  "is_continuation b = (b AND 0xC0 = 0x80)"

definition sequence_length :: "nat \<Rightarrow> nat" where
  "sequence_length lead =
     (if lead < 0x80 then 1
      else if lead < 0xC0 then 0
      else if lead < 0xE0 then 2
      else if lead < 0xF0 then 3
      else if lead < 0xF5 then 4
      else 0)"

definition lead_payload_mask :: "nat \<Rightarrow> nat" where
  "lead_payload_mask len =
     (if len = 1 then 0x7F else if len = 2 then 0x1F else if len = 3 then 0x0F
      else if len = 4 then 0x07 else 0)"

definition minimum_for_length :: "nat \<Rightarrow> nat" where
  "minimum_for_length len =
     (if len = 1 then 0 else if len = 2 then 0x80 else if len = 3 then 0x800
      else if len = 4 then 0x10000 else 0)"

definition byte_at :: "bytes \<Rightarrow> nat \<Rightarrow> nat" where
  "byte_at input i = unat (input ! i)"

text \<open>The loop over the continuation bytes; \<open>None\<close> is a missing continuation.\<close>

fun decode_tail :: "bytes \<Rightarrow> nat \<Rightarrow> nat \<Rightarrow> nat \<Rightarrow> nat option" where
  "decode_tail input i 0 value = Some value"
| "decode_tail input i (Suc n) value =
     (let b = byte_at input i in
      if \<not> is_continuation b then None
      else decode_tail input (i + 1) n (push_bit 6 value OR (b AND 0x3F)))"

definition decode_scalar :: "bytes \<Rightarrow> nat \<Rightarrow> utf_error + nat \<times> nat" where
  "decode_scalar input pos =
     (let lead = byte_at input pos; len = sequence_length lead in
      if len = 0 then Inl (utf_err InvalidLead pos 1)
      else if length input - pos < len then Inl (utf_err Truncated pos (length input - pos))
      else case decode_tail input (pos + 1) (len - 1) (lead AND lead_payload_mask len) of
        None \<Rightarrow> Inl (utf_err BadContinuation pos len)
      | Some v \<Rightarrow>
          if v < minimum_for_length len then Inl (utf_err Overlong pos len)
          else if 0xD800 \<le> v \<and> v \<le> 0xDFFF then Inl (utf_err Surrogate pos len)
          else if v > kMaxScalar then Inl (utf_err TooLarge pos len)
          else Inr (v, len))"

lemma sequence_length_le: "sequence_length lead \<le> 4"
  by (simp add: sequence_length_def)

lemma decode_scalar_bytes:
  "decode_scalar input pos = Inr (v, n) \<Longrightarrow> 0 < n \<and> n \<le> length input - pos"
  by (auto simp: decode_scalar_def Let_def split: if_splits option.splits)

section \<open>Whole strings\<close>

function utf8_scan :: "bytes \<Rightarrow> nat \<Rightarrow> (nat \<Rightarrow> nat \<Rightarrow> nat) \<Rightarrow> nat \<Rightarrow> utf_error + nat" where
  "utf8_scan input pos step acc =
     (if pos < length input then
        case decode_scalar input pos of
          Inl e \<Rightarrow> Inl e
        | Inr (v, n) \<Rightarrow> utf8_scan input (pos + n) step (step acc v)
      else Inr acc)"
  by pat_completeness auto
termination
  by (relation "measure (\<lambda>(input, pos, step, acc). length input - pos)") (auto dest: decode_scalar_bytes)

declare utf8_scan.simps [simp del]

definition validate_utf8 :: "bytes \<Rightarrow> utf_error option" where
  "validate_utf8 input =
     (case utf8_scan input 0 (\<lambda>acc v. acc) 0 of Inl e \<Rightarrow> Some e | Inr _ \<Rightarrow> None)"

definition is_valid_utf8 :: "bytes \<Rightarrow> bool" where
  "is_valid_utf8 input = (validate_utf8 input = None)"

definition utf8_length :: "bytes \<Rightarrow> utf_error + nat" where
  "utf8_length input = utf8_scan input 0 (\<lambda>count v. count + 1) 0"

definition utf16_code_unit_count :: "bytes \<Rightarrow> utf_error + nat" where
  "utf16_code_unit_count input =
     utf8_scan input 0 (\<lambda>units v. units + (if v \<ge> 0x10000 then 2 else 1)) 0"

definition append_scalar :: "bytes \<Rightarrow> nat \<Rightarrow> bytes option" where
  "append_scalar out cp =
     (if cp > kMaxScalar then None
      else if 0xD800 \<le> cp \<and> cp \<le> 0xDFFF then None
      else Some (out @ map word_of_nat
        (if cp < 0x80 then [cp]
         else if cp < 0x800 then [0xC0 OR drop_bit 6 cp, 0x80 OR (cp AND 0x3F)]
         else if cp < 0x10000 then
           [0xE0 OR drop_bit 12 cp, 0x80 OR (drop_bit 6 cp AND 0x3F), 0x80 OR (cp AND 0x3F)]
         else
           [0xF0 OR drop_bit 18 cp, 0x80 OR (drop_bit 12 cp AND 0x3F),
            0x80 OR (drop_bit 6 cp AND 0x3F), 0x80 OR (cp AND 0x3F)])))"

function utf8_to_utf16_loop :: "bytes \<Rightarrow> nat \<Rightarrow> u16string \<Rightarrow> utf_error + u16string" where
  "utf8_to_utf16_loop input pos built =
     (if pos < length input then
        case decode_scalar input pos of
          Inl e \<Rightarrow> Inl e
        | Inr (v, n) \<Rightarrow>
            utf8_to_utf16_loop input (pos + n)
              (built @
                (if v < 0x10000 then [word_of_nat v]
                 else let adjusted = v - 0x10000 in
                   [word_of_nat (0xD800 + drop_bit 10 adjusted),
                    word_of_nat (0xDC00 + (adjusted AND 0x3FF))]))
      else Inr built)"
  by pat_completeness auto
termination
  by (relation "measure (\<lambda>(input, pos, built). length input - pos)") (auto dest: decode_scalar_bytes)

declare utf8_to_utf16_loop.simps [simp del]

definition utf8_to_utf16 :: "bytes \<Rightarrow> utf_error + u16string" where
  "utf8_to_utf16 input = utf8_to_utf16_loop input 0 []"

definition is_high_surrogate :: "nat \<Rightarrow> bool" where
  "is_high_surrogate u \<longleftrightarrow> 0xD800 \<le> u \<and> u \<le> 0xDBFF"

definition is_low_surrogate :: "nat \<Rightarrow> bool" where
  "is_low_surrogate u \<longleftrightarrow> 0xDC00 \<le> u \<and> u \<le> 0xDFFF"

text \<open>\<open>append_scalar\<close>'s result is ignored by the loop: a refused scalar appends nothing.\<close>

definition appended :: "bytes \<Rightarrow> nat \<Rightarrow> bytes" where
  "appended built cp = (case append_scalar built cp of None \<Rightarrow> built | Some b \<Rightarrow> b)"

function utf16_to_utf8_loop :: "u16string \<Rightarrow> nat \<Rightarrow> bytes \<Rightarrow> utf_error + bytes" where
  "utf16_to_utf8_loop input i built =
     (if i < length input then
        let u = unat (input ! i) in
        if is_high_surrogate u then
          if i + 1 \<ge> length input \<or> \<not> is_low_surrogate (unat (input ! (i + 1)))
          then Inl (utf_err NotConvertible i 1)
          else utf16_to_utf8_loop input (i + 2)
            (appended built (0x10000 +
              (push_bit 10 (u - 0xD800) OR (unat (input ! (i + 1)) - 0xDC00))))
        else if is_low_surrogate u then Inl (utf_err NotConvertible i 1)
        else utf16_to_utf8_loop input (i + 1) (appended built u)
      else Inr built)"
  by pat_completeness auto
termination
  by (relation "measure (\<lambda>(input, i, built). length input - i)") auto

declare utf16_to_utf8_loop.simps [simp del]

definition utf16_to_utf8 :: "u16string \<Rightarrow> utf_error + bytes" where
  "utf16_to_utf8 input = utf16_to_utf8_loop input 0 []"

section \<open>Offsets\<close>

text \<open>The widths the scans of \<open>Utf16.h\<close> take from a lead byte: bytes and UTF-16 units.\<close>

definition lead_widths :: "nat \<Rightarrow> nat \<times> nat" where
  "lead_widths b =
     (if b < 0x80 then (1, 1)
      else if b AND 0xE0 = 0xC0 then (2, 1)
      else if b AND 0xF0 = 0xE0 then (3, 1)
      else if b AND 0xF8 = 0xF0 then (4, 2)
      else (1, 1))"

lemma lead_widths_pos: "0 < fst (lead_widths b)"
  by (simp add: lead_widths_def)

function utf16_to_byte_loop :: "bytes \<Rightarrow> nat \<Rightarrow> nat \<Rightarrow> nat \<Rightarrow> nat" where
  "utf16_to_byte_loop utf8 target u16 i =
     (if i < length utf8 \<and> u16 < target then
        utf16_to_byte_loop utf8 target (u16 + snd (lead_widths (byte_at utf8 i)))
          (i + fst (lead_widths (byte_at utf8 i)))
      else i)"
  by pat_completeness auto
termination
  by (relation "measure (\<lambda>(utf8, target, u16, i). length utf8 - i)")
    (use lead_widths_pos in \<open>auto intro!: diff_less_mono2\<close>)

declare utf16_to_byte_loop.simps [simp del]

definition utf16_to_byte_offset :: "bytes \<Rightarrow> nat \<Rightarrow> nat" where
  "utf16_to_byte_offset utf8 utf16_offset = utf16_to_byte_loop utf8 utf16_offset 0 0"

function byte_to_utf16_loop :: "bytes \<Rightarrow> nat \<Rightarrow> nat \<Rightarrow> nat \<Rightarrow> nat" where
  "byte_to_utf16_loop utf8 byte_offset u16 i =
     (if i < length utf8 \<and> i < byte_offset then
        byte_to_utf16_loop utf8 byte_offset (u16 + snd (lead_widths (byte_at utf8 i)))
          (i + fst (lead_widths (byte_at utf8 i)))
      else u16)"
  by pat_completeness auto
termination
  by (relation "measure (\<lambda>(utf8, byte_offset, u16, i). length utf8 - i)")
    (use lead_widths_pos in \<open>auto intro!: diff_less_mono2\<close>)

declare byte_to_utf16_loop.simps [simp del]

definition byte_to_utf16_offset :: "bytes \<Rightarrow> nat \<Rightarrow> nat" where
  "byte_to_utf16_offset utf8 byte_offset = byte_to_utf16_loop utf8 byte_offset 0 0"

definition utf16_length :: "bytes \<Rightarrow> nat" where
  "utf16_length utf8 = byte_to_utf16_offset utf8 (length utf8)"

section \<open>The bit operations as arithmetic\<close>

lemma and_low_bits:
  "b AND 0x3F = b mod 64" "b AND 0x1F = b mod 32" "b AND 0x0F = b mod 16" "b AND 0x07 = b mod 8"
  "b AND 0x7F = b mod 128" "b AND 0x3FF = b mod 1024" for b :: nat
  using take_bit_eq_mask [of 6 b] take_bit_eq_mask [of 5 b] take_bit_eq_mask [of 4 b]
    take_bit_eq_mask [of 3 b] take_bit_eq_mask [of 7 b] take_bit_eq_mask [of 10 b]
  by (simp_all add: take_bit_eq_mod mask_eq_exp_minus_1)

lemma shift_bits:
  "drop_bit 6 b = b div 64" "drop_bit 12 b = b div 4096" "drop_bit 18 b = b div 262144"
  "drop_bit 10 b = b div 1024" "push_bit 6 b = 64 * b" "push_bit 10 b = 1024 * b" for b :: nat
  by (simp_all add: drop_bit_eq_div push_bit_eq_mult)

lemma or_shifted: "y < 2 ^ n \<Longrightarrow> push_bit n x OR y = 2 ^ n * x + y" for x y :: nat
proof -
  assume y: "y < 2 ^ n"
  have "push_bit n x AND y = 0"
  proof (rule bit_eqI)
    fix k
    have "\<not> bit y k" if "n \<le> k"
      using y that by (metis bit_nat_iff bit_take_bit_iff not_less take_bit_nat_eq_self)
    then show "bit (push_bit n x AND y) k \<longleftrightarrow> bit (0 :: nat) k"
      by (auto simp: bit_simps)
  qed
  then have "push_bit n x + y = push_bit n x OR y"
    by (rule disjunctive_add_eq_or)
  then show ?thesis
    by (simp add: push_bit_eq_mult mult.commute)
qed

lemma or_low:
  "x < 32 \<Longrightarrow> 0xC0 OR x = 192 + x" "x < 16 \<Longrightarrow> 0xE0 OR x = 224 + x" "x < 8 \<Longrightarrow> 0xF0 OR x = 240 + x"
  "x < 64 \<Longrightarrow> 0x80 OR x = 128 + x" for x :: nat
  using or_shifted [of x 5 6] or_shifted [of x 4 14] or_shifted [of x 3 30] or_shifted [of x 6 2]
  by (simp_all add: push_bit_eq_mult)

lemma or_push: "y < 64 \<Longrightarrow> push_bit 6 x OR y = 64 * x + y" "y < 1024 \<Longrightarrow> push_bit 10 x OR y = 1024 * x + y"
  for x y :: nat
  using or_shifted [of y 6 x] or_shifted [of y 10 x] by simp_all

lemma and_push_bit: "a AND push_bit n c = push_bit n (drop_bit n a AND c)" for a c :: nat
  by (rule bit_eqI) (auto simp: bit_simps)

lemma continuation_iff: "b < 256 \<Longrightarrow> is_continuation b \<longleftrightarrow> 128 \<le> b \<and> b < 192"
proof -
  have "b AND push_bit 6 3 = push_bit 6 (drop_bit 6 b AND 3)"
    by (rule and_push_bit)
  moreover have "drop_bit 6 b AND 3 = b div 64 mod 4"
    using take_bit_eq_mask [of 2 "drop_bit 6 b"] by (simp add: take_bit_eq_mod mask_eq_exp_minus_1 shift_bits)
  ultimately have "b AND 0xC0 = 64 * (b div 64 mod 4)"
    by (simp add: push_bit_eq_mult)
  then show "b < 256 \<Longrightarrow> is_continuation b \<longleftrightarrow> 128 \<le> b \<and> b < 192"
    unfolding is_continuation_def by auto
qed

lemma byte_at_bound: "byte_at input i < 256"
  using unsigned_less [of "input ! i"] by (simp add: byte_at_def)

section \<open>Encoding and decoding are inverse\<close>

definition is_scalar :: "nat \<Rightarrow> bool" where
  "is_scalar v \<longleftrightarrow> v \<le> kMaxScalar \<and> \<not> (0xD800 \<le> v \<and> v \<le> 0xDFFF)"

definition scalar_nats :: "nat \<Rightarrow> nat list" where
  "scalar_nats v =
     (if v < 128 then [v]
      else if v < 2048 then [192 + v div 64, 128 + v mod 64]
      else if v < 65536 then [224 + v div 4096, 128 + v div 64 mod 64, 128 + v mod 64]
      else [240 + v div 262144, 128 + v div 4096 mod 64, 128 + v div 64 mod 64, 128 + v mod 64])"

definition scalar_bytes :: "nat \<Rightarrow> bytes" where
  "scalar_bytes v = map word_of_nat (scalar_nats v)"

lemma append_scalar_eq:
  "append_scalar out v = (if is_scalar v then Some (out @ scalar_bytes v) else None)"
proof (cases "is_scalar v")
  case True
  then have v: "v < 1114112"
    by (simp add: is_scalar_def kMaxScalar_def)
  have guard: "\<not> v > kMaxScalar" "\<not> (0xD800 \<le> v \<and> v \<le> 0xDFFF)"
    using True by (auto simp: is_scalar_def)
  have b: "v < 2048 \<Longrightarrow> v div 64 < 32" "v < 65536 \<Longrightarrow> v div 4096 < 16" "v div 262144 < 8"
    using v by (simp_all add: less_mult_imp_div_less)
  have m: "v div 64 mod 64 < 64" "v div 4096 mod 64 < 64" "v mod 64 < 64"
    by simp_all
  show ?thesis
    unfolding append_scalar_def scalar_bytes_def scalar_nats_def and_low_bits shift_bits
      or_low(4) [OF m(1)] or_low(4) [OF m(2)] or_low(4) [OF m(3)] or_low(3) [OF b(3)]
    using guard True b or_low(1) [of "v div 64"] or_low(2) [of "v div 4096"] by simp
next
  case False
  then show ?thesis
    by (auto simp: append_scalar_def is_scalar_def)
qed

lemma byte_at_of_nat:
  "byte_at (us @ map word_of_nat ns @ vs) (length us + i) = ns ! i mod 256" if "i < length ns"
  using that by (simp add: byte_at_def nth_append unat_of_nat take_bit_eq_mod)

lemma length_scalar_bytes: "length (scalar_bytes v) = length (scalar_nats v)"
  by (simp add: scalar_bytes_def)

lemma digits64:
  "64 * (v div 4096) + v div 64 mod 64 = v div 64" "64 * (v div 262144) + v div 4096 mod 64 = v div 4096"
  "64 * (v div 64) + v mod 64 = v" for v :: nat
  using div_mult2_eq [of v 64 64] div_mult2_eq [of v 4096 64] mult_div_mod_eq [of 64 "v div 64"]
    mult_div_mod_eq [of 64 "v div 4096"] by simp_all

lemma scalar_byte_at:
  "i < length (scalar_nats v) \<Longrightarrow>
     byte_at (us @ scalar_bytes v @ vs) (length us + i) = scalar_nats v ! i mod 256"
  unfolding scalar_bytes_def by (rule byte_at_of_nat)

lemma continuation_byte: "x < 64 \<Longrightarrow> is_continuation (128 + x)" "x < 64 \<Longrightarrow> (128 + x) mod 64 = x"
  using mod_mult_self4 [of 64 2 x] by (simp_all add: continuation_iff)

lemma byte_small: "128 + x mod 64 < (256 :: nat)"
  using mod_less_divisor [of 64 x] by linarith

lemmas decode_defs = decode_scalar_def Let_def sequence_length_def lead_payload_mask_def
  minimum_for_length_def length_scalar_bytes and_low_bits kMaxScalar_def

lemma is_scalarD: "is_scalar v \<Longrightarrow> v < 1114112" "is_scalar v \<Longrightarrow> 55296 \<le> v \<Longrightarrow> \<not> v \<le> 57343"
  by (auto simp: is_scalar_def kMaxScalar_def)

lemma decode_scalar_2:
  assumes "is_scalar v" and v: "128 \<le> v" "v < 2048"
  shows "decode_scalar (us @ scalar_bytes v @ vs) (length us) = Inr (v, length (scalar_bytes v))"
proof -
  let ?in = "us @ scalar_bytes v @ vs"
  have nats: "scalar_nats v = [192 + v div 64, 128 + v mod 64]"
    using v by (simp add: scalar_nats_def)
  have b: "v div 64 < 32"
    using v by (simp add: less_mult_imp_div_less)
  have bytes: "byte_at ?in (length us) = 192 + v div 64"
    "byte_at ?in (Suc (length us)) = 128 + v mod 64"
    using scalar_byte_at [of 0 v us vs] scalar_byte_at [of 1 v us vs] b
    by (simp_all add: nats byte_small numeral_2_eq_2 numeral_3_eq_3)
  have "decode_tail ?in (Suc (length us)) 1 (v div 64) = Some v"
    by (simp add: bytes Let_def and_low_bits or_push continuation_byte digits64 numeral_2_eq_2
        numeral_3_eq_3)
  moreover have "(192 + v div 64) mod 32 = v div 64"
    using b by (simp add: mod_add_eq [symmetric])
  ultimately show ?thesis
    using v b is_scalarD [OF assms(1)] by (simp add: decode_defs bytes nats)
qed

lemma decode_scalar_3:
  assumes "is_scalar v" and v: "2048 \<le> v" "v < 65536"
  shows "decode_scalar (us @ scalar_bytes v @ vs) (length us) = Inr (v, length (scalar_bytes v))"
proof -
  let ?in = "us @ scalar_bytes v @ vs"
  have nats: "scalar_nats v = [224 + v div 4096, 128 + v div 64 mod 64, 128 + v mod 64]"
    using v by (simp add: scalar_nats_def)
  have b: "v div 4096 < 16"
    using v by (simp add: less_mult_imp_div_less)
  have bytes: "byte_at ?in (length us) = 224 + v div 4096"
    "byte_at ?in (Suc (length us)) = 128 + v div 64 mod 64"
    "byte_at ?in (Suc (Suc (length us))) = 128 + v mod 64"
    using scalar_byte_at [of 0 v us vs] scalar_byte_at [of 1 v us vs] scalar_byte_at [of 2 v us vs] b
    by (simp_all add: nats byte_small numeral_2_eq_2 numeral_3_eq_3)
  have "decode_tail ?in (Suc (length us)) 2 (v div 4096) = Some v"
    by (simp add: bytes Let_def and_low_bits or_push continuation_byte digits64 numeral_2_eq_2
        numeral_3_eq_3)
  moreover have "(224 + v div 4096) mod 16 = v div 4096"
    using b by (simp add: mod_add_eq [symmetric])
  ultimately show ?thesis
    using v b is_scalarD [OF assms(1)] by (simp add: decode_defs bytes nats)
qed

lemma decode_scalar_4:
  assumes "is_scalar v" and v: "65536 \<le> v"
  shows "decode_scalar (us @ scalar_bytes v @ vs) (length us) = Inr (v, length (scalar_bytes v))"
proof -
  let ?in = "us @ scalar_bytes v @ vs"
  have nats: "scalar_nats v = [240 + v div 262144, 128 + v div 4096 mod 64, 128 + v div 64 mod 64, 128 + v mod 64]"
    using v by (simp add: scalar_nats_def)
  have b: "v div 262144 < 5"
    using v is_scalarD(1) [OF assms(1)] by (simp add: less_mult_imp_div_less)
  have bytes: "byte_at ?in (length us) = 240 + v div 262144"
    "byte_at ?in (Suc (length us)) = 128 + v div 4096 mod 64"
    "byte_at ?in (Suc (Suc (length us))) = 128 + v div 64 mod 64"
    "byte_at ?in (Suc (Suc (Suc (length us)))) = 128 + v mod 64"
    using scalar_byte_at [of 0 v us vs] scalar_byte_at [of 1 v us vs] scalar_byte_at [of 2 v us vs] scalar_byte_at [of 3 v us vs] b
    by (simp_all add: nats byte_small numeral_2_eq_2 numeral_3_eq_3)
  have "decode_tail ?in (Suc (length us)) 3 (v div 262144) = Some v"
    by (simp add: bytes Let_def and_low_bits or_push continuation_byte digits64 numeral_2_eq_2
        numeral_3_eq_3)
  moreover have "(240 + v div 262144) mod 8 = v div 262144"
    using b by (simp add: mod_add_eq [symmetric])
  ultimately show ?thesis
    using v b is_scalarD [OF assms(1)] by (simp add: decode_defs bytes nats)
qed

lemma decode_scalar_encoded:
  assumes "is_scalar v"
  shows "decode_scalar (us @ scalar_bytes v @ vs) (length us) = Inr (v, length (scalar_bytes v))"
proof -
  consider "v < 128" | "128 \<le> v" "v < 2048" | "2048 \<le> v" "v < 65536" | "65536 \<le> v"
    by linarith
  then show ?thesis
  proof cases
    case 1
    then show ?thesis
      using scalar_byte_at [of 0 v us vs] by (simp add: scalar_nats_def decode_defs)
  qed (use assms decode_scalar_2 decode_scalar_3 decode_scalar_4 in blast)+
qed

text \<open>What is decoded is the only encoding of its scalar.\<close>

lemma of_byte_at: "word_of_nat (byte_at input i) = input ! i"
  by (simp add: byte_at_def)

lemma take_drop_bytes:
  "pos + n \<le> length input \<Longrightarrow> take n (drop pos input) = map (\<lambda>i. word_of_nat (byte_at input (pos + i))) [0..<n]"
  by (rule nth_equalityI) (simp_all add: of_byte_at)

lemma cont_obtain:
  assumes "is_continuation (byte_at input i)"
  obtains x where "byte_at input i = 128 + x" "x < 64"
proof -
  have "128 \<le> byte_at input i" "byte_at input i < 192"
    using assms continuation_iff [OF byte_at_bound] by blast+
  then show thesis
    using that [of "byte_at input i - 128"] by simp
qed

lemma mod_lead: "k < 32 \<Longrightarrow> (192 + k) mod 32 = k" "k < 16 \<Longrightarrow> (224 + k) mod 16 = k"
  "k < 8 \<Longrightarrow> (240 + k) mod 8 = k" for k :: nat
  using mod_mult_self4 [of 32 6 k] mod_mult_self4 [of 16 14 k] mod_mult_self4 [of 8 30 k] by simp_all

lemma digits2: "y < 64 \<Longrightarrow> (64 * x + y) div 64 = x" "y < 64 \<Longrightarrow> (64 * x + y) mod 64 = y" for x y :: nat
  by simp_all

lemma div_steps: "v div 4096 = v div 64 div 64" "v div 262144 = v div 64 div 64 div 64" for v :: nat
  using div_mult2_eq [of v 64 64] div_mult2_eq [of v 4096 64] by simp_all

lemma decode_scalar_sound:
  assumes "decode_scalar input pos = Inr (v, n)"
  shows "is_scalar v \<and> take n (drop pos input) = scalar_bytes v"
proof -
  let ?b = "byte_at input"
  let ?lead = "?b pos" and ?len = "sequence_length (?b pos)"
  have len: "?len \<noteq> 0" "n = ?len" "\<not> length input - pos < n"
    and tail: "decode_tail input (pos + 1) (n - 1) (?lead AND lead_payload_mask n) = Some v"
    and v: "\<not> v < minimum_for_length n" "is_scalar v"
    using assms by (auto simp: decode_scalar_def Let_def is_scalar_def split: if_splits option.splits)
  have bytes: "take n (drop pos input) = map word_of_nat (map (\<lambda>i. ?b (pos + i)) [0..<n])"
    using len by (subst take_drop_bytes) auto
  have "map (\<lambda>i. ?b (pos + i)) [0..<n] = scalar_nats v"
  proof -
    consider "n = 1" "?lead < 128" | "n = 2" "192 \<le> ?lead" "?lead < 224"
      | "n = 3" "224 \<le> ?lead" "?lead < 240" | "n = 4" "240 \<le> ?lead" "?lead < 248"
      using len(1,2) by (auto simp: sequence_length_def split: if_splits)
    then show ?thesis
    proof cases
      case 1
      then show ?thesis
        using tail by (simp add: lead_payload_mask_def and_low_bits scalar_nats_def)
    next
      case 2
      obtain k where k: "?lead = 192 + k" "k < 32"
        using 2 that [of "?lead - 192"] by simp
      have c: "is_continuation (?b (pos + 1))"
        using tail 2(1) by (simp add: Let_def split: if_splits)
      obtain x where x: "?b (pos + 1) = 128 + x" "x < 64"
        using cont_obtain [OF c] .
      have "v = 64 * k + x"
        using tail 2(1) c k(2) x
        by (simp add: Let_def k(1) lead_payload_mask_def and_low_bits or_push mod_lead continuation_byte)
      then show ?thesis
        using 2(1) v(1) k x by (simp add: scalar_nats_def minimum_for_length_def digits2 upt_rec)
    next
      case 3
      obtain k where k: "?lead = 224 + k" "k < 16"
        using 3 that [of "?lead - 224"] by simp
      have c: "is_continuation (?b (pos + 1))" "is_continuation (?b (Suc (Suc pos)))"
        using tail 3(1) by (simp_all add: Let_def numeral_2_eq_2 split: if_splits)
      obtain x where x: "?b (pos + 1) = 128 + x" "x < 64"
        using cont_obtain [OF c(1)] .
      obtain y where y: "?b (Suc (Suc pos)) = 128 + y" "y < 64"
        using cont_obtain [OF c(2)] .
      have veq: "v = 64 * (64 * k + x) + y"
        using tail 3(1) c k(2) x y
        by (simp add: Let_def k(1) lead_payload_mask_def and_low_bits or_push mod_lead continuation_byte
            numeral_2_eq_2)
      have "v div 64 = 64 * k + x" "v mod 64 = y"
        unfolding veq by (rule digits2 [OF y(2)])+
      moreover from this have "v div 64 mod 64 = x" "v div 4096 = k"
        using digits2 [OF x(2), of k] by (simp_all only: div_steps)
      ultimately have "v div 64 mod 64 = x" "v div 4096 = k" "v mod 64 = y"
        by simp_all
      then show ?thesis
        using 3(1) v(1) veq k x y by (simp add: scalar_nats_def minimum_for_length_def upt_rec)
    next
      case 4
      obtain k where k: "?lead = 240 + k" "k < 8"
        using 4 that [of "?lead - 240"] by simp
      have c: "is_continuation (?b (pos + 1))" "is_continuation (?b (Suc (Suc pos)))"
        "is_continuation (?b (Suc (Suc (Suc pos))))"
        using tail 4(1) by (simp_all add: Let_def numeral_3_eq_3 split: if_splits)
      obtain x where x: "?b (pos + 1) = 128 + x" "x < 64"
        using cont_obtain [OF c(1)] .
      obtain y where y: "?b (Suc (Suc pos)) = 128 + y" "y < 64"
        using cont_obtain [OF c(2)] .
      obtain z where z: "?b (Suc (Suc (Suc pos))) = 128 + z" "z < 64"
        using cont_obtain [OF c(3)] .
      have veq: "v = 64 * (64 * (64 * k + x) + y) + z"
        using tail 4(1) c k(2) x y z
        by (simp add: Let_def k(1) lead_payload_mask_def and_low_bits or_push mod_lead continuation_byte
            numeral_3_eq_3)
      have "v div 64 = 64 * (64 * k + x) + y" "v mod 64 = z"
        unfolding veq by (rule digits2 [OF z(2)])+
      then have "v div 64 mod 64 = y" "v div 4096 = 64 * k + x" "v mod 64 = z"
        using digits2 [OF y(2), of "64 * k + x"] by (simp_all only: div_steps)
      moreover from this have "v div 4096 mod 64 = x" "v div 262144 = k"
        using digits2 [OF x(2), of k] div_mult2_eq [of v 4096 64] by simp_all
      ultimately show ?thesis
        using 4(1) v(1) veq k x y z by (simp add: scalar_nats_def minimum_for_length_def upt_rec)
    qed
  qed
  then show ?thesis
    using v(2) bytes by (simp add: scalar_bytes_def)
qed

definition encode_scalars :: "nat list \<Rightarrow> bytes" where
  "encode_scalars vs = concat (map scalar_bytes vs)"

lemma scalar_bytes_nonempty: "scalar_bytes v \<noteq> []"
  by (simp add: scalar_bytes_def scalar_nats_def)

lemma utf8_scan_encoded:
  "list_all is_scalar vs \<Longrightarrow>
     utf8_scan (us @ encode_scalars vs) (length us) step acc = Inr (foldl step acc vs)"
proof (induction vs arbitrary: us acc)
  case Nil
  then show ?case by (simp add: encode_scalars_def utf8_scan.simps)
next
  case (Cons v vs)
  have e: "us @ encode_scalars (v # vs) = us @ scalar_bytes v @ encode_scalars vs"
    by (simp add: encode_scalars_def)
  have "utf8_scan (us @ encode_scalars (v # vs)) (length us) step acc =
      utf8_scan ((us @ scalar_bytes v) @ encode_scalars vs) (length (us @ scalar_bytes v)) step (step acc v)"
    unfolding e using Cons.prems decode_scalar_encoded [of v us "encode_scalars vs"] scalar_bytes_nonempty [of v]
    by (subst utf8_scan.simps) simp
  then show ?case
    using Cons.IH [of "us @ scalar_bytes v" "step acc v"] Cons.prems by simp
qed

lemma utf8_scan_sound:
  "utf8_scan input pos step acc = Inr r \<Longrightarrow> pos \<le> length input \<Longrightarrow>
     \<exists>vs. list_all is_scalar vs \<and> drop pos input = encode_scalars vs \<and> r = foldl step acc vs"
proof (induction input pos step acc rule: utf8_scan.induct)
  case (1 input pos step acc)
  show ?case
  proof (cases "pos < length input")
    case False
    then show ?thesis
      using 1(2,3) by (intro exI [of _ "[]"]) (simp add: utf8_scan.simps encode_scalars_def)
  next
    case True
    then obtain v n where d: "decode_scalar input pos = Inr (v, n)"
      "utf8_scan input (pos + n) step (step acc v) = Inr r"
      using 1(2) by (subst (asm) utf8_scan.simps) (auto split: sum.splits)
    have n: "pos + n \<le> length input"
      using decode_scalar_bytes [OF d(1)] True by linarith
    obtain vs where vs: "list_all is_scalar vs" "drop (pos + n) input = encode_scalars vs"
      "r = foldl step (step acc v) vs"
      using 1(1) [OF True d(1) refl d(2) n] by blast
    have "drop pos input = take n (drop pos input) @ drop (pos + n) input"
      by (metis add.commute append_take_drop_id drop_drop)
    then show ?thesis
      using decode_scalar_sound [OF d(1)] vs
      by (intro exI [of _ "v # vs"]) (simp add: encode_scalars_def)
  qed
qed

lemma utf8_scan_iff:
  "utf8_scan input 0 step acc = Inr r \<longleftrightarrow>
     (\<exists>vs. list_all is_scalar vs \<and> input = encode_scalars vs \<and> r = foldl step acc vs)"
  using utf8_scan_sound [of input 0 step acc r] utf8_scan_encoded [of _ "[]"] by fastforce

lemma is_valid_utf8_iff: "is_valid_utf8 input \<longleftrightarrow> (\<exists>vs. list_all is_scalar vs \<and> input = encode_scalars vs)"
  using utf8_scan_iff [of input "\<lambda>acc v. acc" 0]
  by (auto simp: is_valid_utf8_def validate_utf8_def split: sum.splits)
    (metis sum.distinct(1))

lemma foldl_count: "foldl (\<lambda>count v. count + 1) a vs = a + length vs" for a :: nat
  by (induction vs arbitrary: a) simp_all

lemma utf8_length_iff:
  "utf8_length input = Inr n \<longleftrightarrow> (\<exists>vs. list_all is_scalar vs \<and> input = encode_scalars vs \<and> n = length vs)"
  unfolding utf8_length_def utf8_scan_iff foldl_count by simp

section \<open>UTF-16\<close>

definition scalar_units :: "nat \<Rightarrow> u16string" where
  "scalar_units v =
     (if v < 0x10000 then [word_of_nat v]
      else [word_of_nat (0xD800 + (v - 0x10000) div 1024), word_of_nat (0xDC00 + (v - 0x10000) mod 1024)])"

definition encode_units :: "nat list \<Rightarrow> u16string" where
  "encode_units vs = concat (map scalar_units vs)"

lemma utf8_to_utf16_loop_encoded:
  "list_all is_scalar vs \<Longrightarrow>
     utf8_to_utf16_loop (us @ encode_scalars vs) (length us) built = Inr (built @ encode_units vs)"
proof (induction vs arbitrary: us built)
  case Nil
  then show ?case by (simp add: encode_scalars_def encode_units_def utf8_to_utf16_loop.simps)
next
  case (Cons v vs)
  have e: "us @ encode_scalars (v # vs) = us @ scalar_bytes v @ encode_scalars vs"
    by (simp add: encode_scalars_def)
  have "utf8_to_utf16_loop (us @ encode_scalars (v # vs)) (length us) built =
      utf8_to_utf16_loop ((us @ scalar_bytes v) @ encode_scalars vs) (length (us @ scalar_bytes v))
        (built @ scalar_units v)"
    unfolding e using Cons.prems decode_scalar_encoded [of v us "encode_scalars vs"] scalar_bytes_nonempty [of v]
    by (subst utf8_to_utf16_loop.simps) (simp add: scalar_units_def Let_def shift_bits and_low_bits)
  then show ?case
    using Cons.IH [of "us @ scalar_bytes v" "built @ scalar_units v"] Cons.prems
    by (simp add: encode_units_def)
qed

lemma unat_unit: "n < 65536 \<Longrightarrow> unat (word_of_nat n :: 16 word) = n"
  by (simp add: unat_of_nat take_bit_nat_eq_self)

lemma utf16_step_low:
  assumes "is_scalar v" "v < 0x10000"
  shows "utf16_to_utf8_loop (us @ scalar_units v @ ws) (length us) built =
    utf16_to_utf8_loop (us @ scalar_units v @ ws) (length (us @ scalar_units v)) (built @ scalar_bytes v)"
  using assms unat_unit [of v]
  by (subst utf16_to_utf8_loop.simps)
    (auto simp: scalar_units_def nth_append Let_def is_high_surrogate_def is_low_surrogate_def is_scalar_def
      appended_def append_scalar_eq)

lemma utf16_step_high:
  assumes "is_scalar v" "0x10000 \<le> v"
  shows "utf16_to_utf8_loop (us @ scalar_units v @ ws) (length us) built =
    utf16_to_utf8_loop (us @ scalar_units v @ ws) (length (us @ scalar_units v)) (built @ scalar_bytes v)"
proof -
  let ?h = "(v - 0x10000) div 1024" and ?l = "(v - 0x10000) mod 1024"
  have "v - 0x10000 < 1024 * 1024"
    using is_scalarD(1) [OF assms(1)] by simp
  then have h: "?h < 1024" and l: "?l < 1024"
    by (rule less_mult_imp_div_less) simp
  obtain H L :: "16 word" where units: "scalar_units v = [H, L]"
    and u: "unat H = 0xD800 + ?h" "unat L = 0xDC00 + ?l"
  proof -
    have "unat (word_of_nat (0xD800 + ?h) :: 16 word) = 0xD800 + ?h"
      "unat (word_of_nat (0xDC00 + ?l) :: 16 word) = 0xDC00 + ?l"
      using h l by (intro unat_unit; linarith)+
    moreover have "scalar_units v = [word_of_nat (0xD800 + ?h), word_of_nat (0xDC00 + ?l)]"
      using assms(2) by (simp add: scalar_units_def)
    ultimately show thesis
      using that by blast
  qed
  have sur: "is_high_surrogate (0xD800 + ?h)" "is_low_surrogate (0xDC00 + ?l)"
    using h l by (simp_all add: is_high_surrogate_def is_low_surrogate_def)
  have "push_bit 10 ?h OR ?l = v - 0x10000"
    using or_push(2) [OF l] mult_div_mod_eq [of 1024 "v - 0x10000"] by simp
  then have "appended built (0x10000 + (push_bit 10 ?h OR ?l)) = built @ scalar_bytes v"
    using assms by (simp add: appended_def append_scalar_eq)
  then show ?thesis
    by (subst utf16_to_utf8_loop.simps) (simp add: units u sur nth_append)
qed

lemma utf16_to_utf8_loop_encoded:
  "list_all is_scalar vs \<Longrightarrow>
     utf16_to_utf8_loop (us @ encode_units vs) (length us) built = Inr (built @ encode_scalars vs)"
proof (induction vs arbitrary: us built)
  case Nil
  then show ?case by (simp add: encode_scalars_def encode_units_def utf16_to_utf8_loop.simps)
next
  case (Cons v vs)
  have "utf16_to_utf8_loop (us @ encode_units (v # vs)) (length us) built =
      utf16_to_utf8_loop ((us @ scalar_units v) @ encode_units vs) (length (us @ scalar_units v))
        (built @ scalar_bytes v)"
    using Cons.prems utf16_step_low [of v us "encode_units vs" built]
      utf16_step_high [of v us "encode_units vs" built]
    by (cases "v < 0x10000") (simp_all add: encode_units_def)
  then show ?case
    using Cons.IH [of "us @ scalar_units v" "built @ scalar_bytes v"] Cons.prems
    by (simp add: encode_scalars_def)
qed

lemma utf16_roundtrip:
  assumes "is_valid_utf8 input"
  shows "\<exists>u. utf8_to_utf16 input = Inr u \<and> utf16_to_utf8 u = Inr input"
proof -
  obtain vs where vs: "list_all is_scalar vs" "input = encode_scalars vs"
    using assms is_valid_utf8_iff by blast
  then show ?thesis
    using utf8_to_utf16_loop_encoded [OF vs(1), of "[]" "[]"] utf16_to_utf8_loop_encoded [OF vs(1), of "[]" "[]"]
    by (simp add: utf8_to_utf16_def utf16_to_utf8_def)
qed

end
