(* ===== verification/Operations.thy ===== *)
theory Operations
  imports Version_Vector Sequence_Order Utf_Codec
begin

text \<open>
  The operations the engines exchange (\<open>OperationPayload.h\<close>) and their semantic validation
  before any mutation (\<open>OperationValidation.h\<close>, \<open>OperationValidation.cpp\<close>): validity first, then
  causality. A visitor over the C++ variant is a case distinction. The lemmas say what a valid
  or deferred verdict promises: which the engines rely on.
\<close>

section \<open>Operations\<close>

record inserted_fragment =
  if_origin :: identity
  if_link :: link
  if_content :: bytes
  if_length :: nat
  if_marker :: bool

record deletion_run =
  dr_first :: identity
  dr_count :: nat

record edit_operation =
  eo_marker_edit :: bool
  eo_timestamp :: identity
  eo_version :: global
  eo_ranges :: "(nat \<times> nat) list"
  eo_new_text :: "bytes list"
  eo_inserted :: "inserted_fragment list"
  eo_deletion_runs :: "deletion_run list"
  eo_deletion_id :: identity

record undo_operation =
  uo_timestamp :: identity
  uo_version :: global
  uo_counts :: "(identity \<times> nat) list"

datatype operation = EditOp edit_operation | UndoOp undo_operation

record list_insert_op =
  li_timestamp :: identity
  li_version :: global
  li_id :: nat
  li_link :: link

record list_remove_op =
  lr_timestamp :: identity
  lr_version :: global
  lr_target_origin :: identity

record list_undo_op =
  lu_timestamp :: identity
  lu_version :: global
  lu_counts :: "(identity \<times> nat) list"

datatype idlist_operation =
    ListInsert list_insert_op | ListRemove list_remove_op | ListUndo list_undo_op

definition op_identity :: "operation \<Rightarrow> identity" where
  "op_identity op = (case op of EditOp e \<Rightarrow> eo_timestamp e | UndoOp u \<Rightarrow> uo_timestamp u)"

definition idlist_op_identity :: "idlist_operation \<Rightarrow> identity" where
  "idlist_op_identity op =
     (case op of ListInsert i \<Rightarrow> li_timestamp i | ListRemove r \<Rightarrow> lr_timestamp r
      | ListUndo u \<Rightarrow> lu_timestamp u)"

definition idlist_op_version :: "idlist_operation \<Rightarrow> global" where
  "idlist_op_version op =
     (case op of ListInsert i \<Rightarrow> li_version i | ListRemove r \<Rightarrow> lr_version r
      | ListUndo u \<Rightarrow> lu_version u)"

section \<open>Verdicts\<close>

datatype validation_result = Valid | Defer identity | Reject error_code

text \<open>\<open>if (auto r = f; !r.ok()) return r;\<close> and then the rest.\<close>

definition and_then :: "validation_result \<Rightarrow> validation_result \<Rightarrow> validation_result" where
  "and_then r rest = (case r of Valid \<Rightarrow> rest | _ \<Rightarrow> r)"

fun check_each :: "('a \<Rightarrow> validation_result) \<Rightarrow> 'a list \<Rightarrow> validation_result" where
  "check_each f [] = Valid"
| "check_each f (x # xs) = and_then (f x) (check_each f xs)"

definition max_elements :: nat where
  "max_elements = 65536" \<comment> \<open>every field of \<open>ValidationLimits\<close>\<close>

definition interval_fits :: "nat \<Rightarrow> nat \<Rightarrow> bool" where
  "interval_fits start count = (count \<le> U64_MAX - start)"

definition check_counter :: "identity \<Rightarrow> validation_result" where
  "check_counter i =
     (if counter i = 0 then Reject invalid_identity
      else if \<not> actor_valid (actor i) then Reject invalid_identity
      else Valid)"

definition first_unmet_dependency :: "global \<Rightarrow> global \<Rightarrow> identity option" where
  "first_unmet_dependency required current =
     map_option (\<lambda>(a, c). Identity a c)
       (find (\<lambda>(a, c). \<not> observed current (Identity a c)) required)"

definition check_causality :: "global \<Rightarrow> global \<Rightarrow> validation_result" where
  "check_causality required current =
     (case first_unmet_dependency required current of Some missing \<Rightarrow> Defer missing | None \<Rightarrow> Valid)"

text \<open>\<open>check_ranges\<close>: \<open>prev\<close> is the range before, when there is one.\<close>

fun check_ranges_from :: "(nat \<times> nat) option \<Rightarrow> (nat \<times> nat) list \<Rightarrow> validation_result" where
  "check_ranges_from prev [] = Valid"
| "check_ranges_from prev ((start, end') # rest) =
     (if start > end' then Reject malformed
      else case prev of
        None \<Rightarrow> check_ranges_from (Some (start, end')) rest
      | Some (prev_start, prev_end) \<Rightarrow>
          if start < prev_start then Reject malformed
          else if start < prev_end then Reject malformed
          else check_ranges_from (Some (start, end')) rest)"

definition check_ranges :: "(nat \<times> nat) list \<Rightarrow> validation_result" where
  "check_ranges ranges = check_ranges_from None ranges"

definition validate_operation_identity :: "operation \<Rightarrow> validation_result" where
  "validate_operation_identity op =
     (case op of
        EditOp e \<Rightarrow> and_then (check_counter (eo_timestamp e)) (check_counter (eo_deletion_id e))
      | UndoOp u \<Rightarrow> check_counter (uo_timestamp u))"

definition validate_idlist_operation_identity :: "idlist_operation \<Rightarrow> validation_result" where
  "validate_idlist_operation_identity op =
     (case op of
        ListInsert i \<Rightarrow> check_counter (li_timestamp i)
      | ListRemove r \<Rightarrow> and_then (check_counter (lr_timestamp r)) (check_counter (lr_target_origin r))
      | ListUndo u \<Rightarrow> check_counter (lu_timestamp u))"

definition check_named :: "global \<Rightarrow> identity option \<Rightarrow> validation_result" where
  "check_named frontier named =
     (case named of
        None \<Rightarrow> Valid
      | Some i \<Rightarrow> and_then (check_counter i) (if \<not> observed frontier i then Reject malformed else Valid))"

definition check_link :: "link \<Rightarrow> global \<Rightarrow> validation_result" where
  "check_link l frontier =
     and_then (check_named frontier (parent l)) (and_then (check_named frontier (right_origin l))
       (if l_side l = Left \<and> (parent l = None \<or> right_origin l = None \<or> parent l \<noteq> right_origin l)
        then Reject malformed else Valid))"

definition marker_edit_shape :: "edit_operation \<Rightarrow> bool" where
  "marker_edit_shape op \<longleftrightarrow>
     \<not> (eo_ranges op \<noteq> [] \<or> eo_new_text op \<noteq> [] \<or>
        \<not> ((length (eo_inserted op) = 1 \<and> eo_deletion_runs op = [] \<and> if_marker (eo_inserted op ! 0)) \<or>
           (eo_inserted op = [] \<and> length (eo_deletion_runs op) = 1 \<and>
            dr_count (eo_deletion_runs op ! 0) = 1)))"

definition check_text :: "bytes \<Rightarrow> validation_result" where
  "check_text t = (case validate_utf8 t of Some _ \<Rightarrow> Reject invalid_unicode | None \<Rightarrow> Valid)"

definition check_fragment :: "edit_operation \<Rightarrow> inserted_fragment \<Rightarrow> validation_result" where
  "check_fragment op f =
     and_then (check_counter (if_origin f))
       (case utf8_length (if_content f) of
          Inl _ \<Rightarrow> Reject invalid_unicode
        | Inr scalars \<Rightarrow>
            if if_marker f \<and> (\<not> eo_marker_edit op \<or> if_length f \<noteq> 1 \<or> if_content f \<noteq> [])
            then Reject malformed
            else if \<not> if_marker f \<and> scalars \<noteq> if_length f then Reject malformed
            else if if_length f = 0 then Reject malformed
            else if \<not> interval_fits (counter (if_origin f)) (if_length f) then Reject counter_exhausted
            else check_link (if_link f) (eo_version op))"

definition check_deletion_run :: "deletion_run \<Rightarrow> validation_result" where
  "check_deletion_run r =
     (if dr_count r = 0 then Reject malformed
      else and_then (check_counter (dr_first r))
        (if \<not> interval_fits (counter (dr_first r)) (dr_count r) then Reject counter_exhausted else Valid))"

definition validate_edit_operation :: "edit_operation \<Rightarrow> global \<Rightarrow> validation_result" where
  "validate_edit_operation op current =
     (if eo_marker_edit op \<and> \<not> marker_edit_shape op then Reject malformed
      else if length (eo_ranges op) > max_elements \<or> length (eo_inserted op) > max_elements \<or>
          length (eo_deletion_runs op) > max_elements then Reject malformed
      else and_then (check_counter (eo_timestamp op)) (and_then (check_counter (eo_deletion_id op))
        (if length (eo_ranges op) \<noteq> length (eo_new_text op) then Reject malformed
         else and_then (check_ranges (eo_ranges op)) (and_then (check_each check_text (eo_new_text op))
          (and_then (check_each (check_fragment op) (eo_inserted op))
            (and_then (check_each check_deletion_run (eo_deletion_runs op))
              (check_causality (eo_version op) current)))))))"

definition check_undo_target :: "identity \<Rightarrow> identity \<times> nat \<Rightarrow> validation_result" where
  "check_undo_target timestamp tc =
     (case tc of (target, count) \<Rightarrow>
        and_then (check_counter target)
          (if count = 0 then Reject malformed
           else if target \<ge> timestamp then Reject malformed
           else Valid))"

definition validate_undo_operation :: "undo_operation \<Rightarrow> global \<Rightarrow> validation_result" where
  "validate_undo_operation op current =
     (if length (uo_counts op) > max_elements then Reject malformed
      else and_then (check_counter (uo_timestamp op))
        (and_then (check_each (check_undo_target (uo_timestamp op)) (uo_counts op))
          (check_causality (uo_version op) current)))"

definition validate_operation :: "operation \<Rightarrow> global \<Rightarrow> validation_result" where
  "validate_operation op current =
     (case op of EditOp e \<Rightarrow> validate_edit_operation e current
      | UndoOp u \<Rightarrow> validate_undo_operation u current)"

definition validate_idlist_operation :: "idlist_operation \<Rightarrow> global \<Rightarrow> validation_result" where
  "validate_idlist_operation op current =
     and_then
       (case op of
          ListUndo u \<Rightarrow>
            if length (lu_counts u) > max_elements then Reject malformed
            else and_then (check_counter (lu_timestamp u))
              (check_each (check_undo_target (lu_timestamp u)) (lu_counts u))
        | ListInsert i \<Rightarrow> and_then (check_counter (li_timestamp i)) (check_link (li_link i) (li_version i))
        | ListRemove r \<Rightarrow> and_then (check_counter (lr_timestamp r)) (check_counter (lr_target_origin r)))
       (check_causality (idlist_op_version op) current)"

section \<open>Local edits\<close>

fun validate_local_ranges :: "nat \<Rightarrow> (nat \<times> nat) option \<Rightarrow> (nat \<times> nat) list \<Rightarrow> unit result" where
  "validate_local_ranges visible prev [] = Ok ()"
| "validate_local_ranges visible prev ((start, end') # rest) =
     (if start > end' then Err malformed
      else if end' > visible then Err malformed
      else case prev of
        None \<Rightarrow> validate_local_ranges visible (Some (start, end')) rest
      | Some (prev_start, prev_end) \<Rightarrow>
          if start < prev_start then Err malformed
          else if start < prev_end then Err malformed
          else validate_local_ranges visible (Some (start, end')) rest)"

definition validate_local_edit :: "(nat \<times> nat) list \<Rightarrow> bytes list \<Rightarrow> nat \<Rightarrow> unit result" where
  "validate_local_edit ranges new_text visible_length =
     (if length ranges \<noteq> length new_text then Err malformed
      else case validate_local_ranges visible_length None ranges of
        Inl e \<Rightarrow> Err e
      | Inr _ \<Rightarrow> if list_all is_valid_utf8 new_text then Ok () else Err invalid_unicode)"

section \<open>The deferral budget\<close>

record deferred_budget =
  max_operations :: nat
  max_bytes :: nat

definition default_budget :: deferred_budget where
  "default_budget = \<lparr>max_operations = 4096, max_bytes = 8 * 2 ^ 20\<rparr>"

text \<open>Sizes of the C++ objects on a 64-bit platform.\<close>

definition sizeof_identity :: nat where "sizeof_identity = 24"
definition sizeof_link :: nat where "sizeof_link = 72"

definition estimate_operation_bytes :: "operation \<Rightarrow> nat" where
  "estimate_operation_bytes op =
     (let bytes = sizeof_identity * 2 in
      case op of
        EditOp e \<Rightarrow>
          bytes + length (eo_ranges e) * 8 + sum_list (map length (eo_new_text e)) +
          sum_list (map (\<lambda>f. sizeof_identity + sizeof_link + length (if_content f) + 4) (eo_inserted e)) +
          length (eo_deletion_runs e) * 4 * 2 + length (eo_version e) * 8
      | UndoOp u \<Rightarrow> bytes + length (uo_counts u) * (sizeof_identity + 4) + length (uo_version u) * 8)"

definition estimate_idlist_bytes :: "idlist_operation \<Rightarrow> nat" where
  "estimate_idlist_bytes op =
     sizeof_identity + length (idlist_op_version op) * 8 +
     (case op of
        ListInsert i \<Rightarrow> 8 + sizeof_link
      | ListRemove r \<Rightarrow> sizeof_identity
      | ListUndo u \<Rightarrow> length (lu_counts u) * (sizeof_identity + 4))"

definition deferred_budget_exhausted :: "deferred_budget \<Rightarrow> nat \<Rightarrow> nat \<Rightarrow> nat \<Rightarrow> bool" where
  "deferred_budget_exhausted budget queued_operations queued_bytes incoming_bytes =
     (if max_operations budget = 0 then True
      else if queued_operations \<ge> max_operations budget then True
      else if max_bytes budget = 0 then True
      else if incoming_bytes > max_bytes budget then True
      else queued_bytes > max_bytes budget - incoming_bytes)"

section \<open>What the verdicts promise\<close>

lemma and_then_Valid [simp]: "and_then r s = Valid \<longleftrightarrow> r = Valid \<and> s = Valid"
  by (cases r) (simp_all add: and_then_def)

lemma and_then_Defer: "and_then r s = Defer i \<longleftrightarrow> r = Defer i \<or> r = Valid \<and> s = Defer i"
  by (cases r) (simp_all add: and_then_def)

lemma check_each_Valid [simp]: "check_each f xs = Valid \<longleftrightarrow> (\<forall>x \<in> set xs. f x = Valid)"
  by (induction xs) auto

lemma check_each_Defer:
  "(\<And>x. x \<in> set xs \<Longrightarrow> f x \<noteq> Defer i) \<Longrightarrow> check_each f xs \<noteq> Defer i"
  by (induction xs) (auto simp: and_then_Defer)

lemma check_counter_Valid [simp]:
  "check_counter i = Valid \<longleftrightarrow> counter i \<noteq> 0 \<and> actor_valid (actor i)"
  by (simp add: check_counter_def)

lemma check_counter_Defer [simp]: "check_counter i \<noteq> Defer j"
  by (simp add: check_counter_def)

lemma check_causality_Valid:
  "check_causality required current = Valid \<longleftrightarrow> observed_all current required"
proof -
  have "check_causality required current = Valid \<longleftrightarrow>
      find (\<lambda>(a, c). \<not> observed current (Identity a c)) required = None"
    by (auto simp: check_causality_def first_unmet_dependency_def split: option.splits)
  then show ?thesis
    by (force simp: find_None_iff observed_all_def observed_def list_all_iff)
qed

lemma check_causality_Defer:
  assumes "check_causality required current = Defer i"
  shows "(actor i, counter i) \<in> set required \<and> \<not> observed current i"
proof -
  obtain a c where "find (\<lambda>(a, c). \<not> observed current (Identity a c)) required = Some (a, c)"
    "i = Identity a c"
    using assms by (auto simp: check_causality_def first_unmet_dependency_def split: option.splits)
  then show ?thesis
    by (auto simp: find_Some_iff dest: nth_mem)
qed

lemma check_link_Valid:
  "check_link l frontier = Valid \<longleftrightarrow>
     (\<forall>i \<in> set_option (parent l) \<union> set_option (right_origin l).
        counter i \<noteq> 0 \<and> actor_valid (actor i) \<and> observed frontier i) \<and>
     (l_side l = Left \<longrightarrow> parent l \<noteq> None \<and> parent l = right_origin l)"
  by (cases "parent l"; cases "right_origin l")
    (auto simp: check_link_def check_named_def)

lemma budget_exhausted_iff:
  "\<not> deferred_budget_exhausted b ops bytes incoming \<longleftrightarrow>
     ops < max_operations b \<and> max_bytes b \<noteq> 0 \<and> bytes + incoming \<le> max_bytes b"
  by (auto simp: deferred_budget_exhausted_def)

lemma validate_idlist_valid_causal:
  "validate_idlist_operation op current = Valid \<Longrightarrow> observed_all current (idlist_op_version op)"
  by (simp add: validate_idlist_operation_def check_causality_Valid)

end
