(* ===== verification/Retention.thy ===== *)
theory Retention
  imports Operations
begin

text \<open>
  Retention bookkeeping the engines share: the ledger of terminal counter gaps
  (\<open>CounterGapLedger.h\<close>, with the canonical encoding of a gap whose size it charges,
  \<open>OperationCodec.cpp\<close>), the reclamation policy (\<open>ReclamationPolicy.h\<close>) and the charge of a
  retired undo group (\<open>LocalHistoryBudget.h\<close>). The encoder's last step parses its own output
  again as a check; the parser is not modelled here, the step is taken to succeed.
\<close>

section \<open>Counter gaps\<close>

record counter_gap =
  gap_actor :: actor_id
  gap_first :: nat
  gap_count :: nat
  gap_prior :: global

definition last_counter :: nat where
  "last_counter = U64_MAX - 1"

definition actor_limit :: nat where
  "actor_limit = 512"

definition usable :: "identity \<Rightarrow> bool" where
  "usable i \<longleftrightarrow> actor_valid (actor i) \<and> counter i \<noteq> 0 \<and> counter i \<le> last_counter"

text \<open>\<open>hex\<close>: sixteen lowercase digits, most significant first.\<close>

fun hex_digits :: "nat \<Rightarrow> nat \<Rightarrow> string" where
  "hex_digits 0 value = ''''"
| "hex_digits (Suc i) value = hex_digits i (value div 16) @ [hex_digit (value mod 16)]"

definition hex16 :: "nat \<Rightarrow> string" where
  "hex16 value = hex_digits 16 value"

text \<open>No character of an actor or a number needs an escape.\<close>

definition write_string :: "string \<Rightarrow> string" where
  "write_string s = ''\"'' @ s @ ''\"''"

definition write_number :: "nat \<Rightarrow> string" where
  "write_number n = write_string (hex16 n)"

fun write_pairs :: "global \<Rightarrow> string result" where
  "write_pairs [] = Ok ''''"
| "write_pairs ((a, c) # rest) =
     (if \<not> usable (Identity a c) then Err invalid_identity
      else case write_pairs rest of
        Inl e \<Rightarrow> Err e
      | Inr tail \<Rightarrow>
          Ok (write_string (actor_to_string a) @ '':'' @ write_number c @
            (if rest = [] then '''' else '','') @ tail))"

definition write_global :: "global \<Rightarrow> string result" where
  "write_global g =
     (if length g > actor_limit then Err malformed
      else case write_pairs g of Inl e \<Rightarrow> Err e | Inr s \<Rightarrow> Ok (''{'' @ s @ ''}''))"

definition check_gap :: "counter_gap \<Rightarrow> error_code option" where
  "check_gap g =
     (if \<not> actor_valid (gap_actor g) \<or> gap_first g = 0 \<or> gap_first g > last_counter
      then Some invalid_identity
      else if gap_count g = 0 \<or> gap_count g > U64_MAX - gap_first g \<or>
          get (gap_prior g) (gap_actor g) \<ge> gap_first g then Some malformed
      else None)"

definition encode_counter_gap :: "counter_gap \<Rightarrow> string result" where
  "encode_counter_gap g =
     (case check_gap g of
        Some e \<Rightarrow> Err e
      | None \<Rightarrow>
          (case write_global (gap_prior g) of
             Inl e \<Rightarrow> Err e
           | Inr v \<Rightarrow>
               Ok (''CTGP0001:{\"actor\":'' @ write_string (actor_to_string (gap_actor g)) @
                 '',\"first\":'' @ write_number (gap_first g) @ '',\"count\":'' @
                 write_number (gap_count g) @ '',\"v\":'' @ v @ ''}'')))"

section \<open>The ledger\<close>

record gap_ledger =
  gl_records :: "counter_gap list"
  gl_bytes :: nat

definition empty_ledger :: gap_ledger where
  "empty_ledger = \<lparr>gl_records = [], gl_bytes = 0\<rparr>"

definition max_gap_records :: nat where "max_gap_records = 4096"
definition max_gap_bytes :: nat where "max_gap_bytes = 8 * 2 ^ 20"

definition gap_overlaps :: "gap_ledger \<Rightarrow> actor_id \<Rightarrow> nat \<Rightarrow> nat \<Rightarrow> bool" where
  "gap_overlaps l a first' last' =
     list_ex (\<lambda>g. a = gap_actor g \<and> first' < gap_first g + gap_count g \<and> gap_first g \<le> last') (gl_records l)"

definition gap_contains :: "gap_ledger \<Rightarrow> identity \<Rightarrow> bool" where
  "gap_contains l i = gap_overlaps l (actor i) (counter i) (counter i)"

definition ledger_conflicts_op :: "gap_ledger \<Rightarrow> operation \<Rightarrow> bool" where
  "ledger_conflicts_op l op =
     (let i = op_identity op;
          first' = (case op of
             EditOp e \<Rightarrow> foldl (\<lambda>acc f. if actor (if_origin f) = actor i then min acc (counter (if_origin f)) else acc)
                 (counter i) (eo_inserted e)
           | UndoOp _ \<Rightarrow> counter i)
      in gap_overlaps l (actor i) first' (counter i))"

definition ledger_conflicts_idlist :: "gap_ledger \<Rightarrow> idlist_operation \<Rightarrow> bool" where
  "ledger_conflicts_idlist l op = gap_contains l (idlist_op_identity op)"

datatype apply_outcome = Applied | Duplicate | Deferred identity | Rejected error_code

fun gap_check_records :: "counter_gap \<Rightarrow> counter_gap list \<Rightarrow> apply_outcome option" where
  "gap_check_records g [] = None"
| "gap_check_records g (old # rest) =
     (if gap_actor g \<noteq> gap_actor old \<or> gap_first g \<ge> gap_first old + gap_count old \<or>
         gap_first old \<ge> gap_first g + gap_count g then gap_check_records g rest
      else if gap_first g = gap_first old \<and> gap_count g = gap_count old \<and> gap_prior g = gap_prior old
        then Some Duplicate
      else Some (Rejected actor_conflict))"

definition gap_check :: "gap_ledger \<Rightarrow> counter_gap \<Rightarrow> global \<Rightarrow> apply_outcome" where
  "gap_check l g current =
     (case encode_counter_gap g of
        Inl e \<Rightarrow> Rejected e
      | Inr bytes \<Rightarrow>
          (case gap_check_records g (gl_records l) of
             Some out \<Rightarrow> out
           | None \<Rightarrow>
               if get current (gap_actor g) \<ge> gap_first g then Rejected actor_conflict
               else case find (\<lambda>(a, c). get current a < c) (gap_prior g) of
                 Some (a, c) \<Rightarrow> Deferred (Identity a c)
               | None \<Rightarrow>
                   if length (gl_records l) \<ge> max_gap_records \<or>
                      length bytes > max_gap_bytes - gl_bytes l then Rejected limit_exceeded
                   else Applied))"

definition gap_size :: "counter_gap \<Rightarrow> nat" where
  "gap_size g = (case encode_counter_gap g of Inl _ \<Rightarrow> 0 | Inr s \<Rightarrow> length s)"

definition gap_commit :: "gap_ledger \<Rightarrow> counter_gap \<Rightarrow> global \<Rightarrow> gap_ledger \<times> global" where
  "gap_commit l g current =
     (\<lparr>gl_records = gl_records l @ [g], gl_bytes = gl_bytes l + gap_size g\<rparr>,
      observe current (Identity (gap_actor g) (gap_first g + gap_count g - 1)))"

fun gap_restore_loop :: "gap_ledger \<Rightarrow> counter_gap list \<Rightarrow> global \<Rightarrow> gap_ledger result" where
  "gap_restore_loop restored [] current = Ok restored"
| "gap_restore_loop restored (g # rest) current =
     (case encode_counter_gap g of
        Inl e \<Rightarrow> Err e
      | Inr bytes \<Rightarrow>
          if \<not> observed_all current (gap_prior g) \<or>
             get current (gap_actor g) < gap_first g + gap_count g - 1 then Err counter_regression
          else if gap_overlaps restored (gap_actor g) (gap_first g) (gap_first g + gap_count g - 1)
            then Err actor_conflict
          else if length (gl_records restored) \<ge> max_gap_records \<or>
             length bytes > max_gap_bytes - gl_bytes restored then Err limit_exceeded
          else gap_restore_loop
            \<lparr>gl_records = gl_records restored @ [g], gl_bytes = gl_bytes restored + length bytes\<rparr>
            rest current)"

definition gap_restore :: "counter_gap list \<Rightarrow> global \<Rightarrow> gap_ledger result" where
  "gap_restore records current = gap_restore_loop empty_ledger records current"

section \<open>Reclamation\<close>

type_synonym frontier = "(actor_id \<times> nat) list" \<comment> \<open>\<open>std::map\<close>, ascending keys\<close>

record reclamation_binding =
  rb_stream :: string
  rb_descriptor_hash :: string
  rb_checkpoint_hash :: string
  rb_frontier :: frontier

definition empty_binding :: reclamation_binding where
  "empty_binding = \<lparr>rb_stream = '''', rb_descriptor_hash = '''', rb_checkpoint_hash = '''', rb_frontier = []\<rparr>"

definition binding_empty :: "reclamation_binding \<Rightarrow> bool" where
  "binding_empty b \<longleftrightarrow> rb_stream b = '''' \<and> rb_descriptor_hash b = '''' \<and> rb_checkpoint_hash b = '''' \<and>
     rb_frontier b = []"

definition is_lower_hex :: "char \<Rightarrow> bool" where
  "is_lower_hex ch =
     (let c = of_char ch :: nat in 48 \<le> c \<and> c \<le> 57 \<or> 97 \<le> c \<and> c \<le> 102)"

definition is_sha256_hex :: "string \<Rightarrow> bool" where
  "is_sha256_hex value \<longleftrightarrow> length value = 64 \<and> list_all is_lower_hex value"

definition binding_well_formed :: "reclamation_binding \<Rightarrow> bool" where
  "binding_well_formed b =
     (if binding_empty b then True
      else if rb_stream b = '''' \<or> length (rb_stream b) > 4096 \<or> \<not> is_sha256_hex (rb_descriptor_hash b) \<or>
          \<not> is_sha256_hex (rb_checkpoint_hash b) \<or> rb_frontier b = [] then False
      else list_all (\<lambda>(a, c). actor_valid a \<and> c \<noteq> 0 \<and> c \<noteq> U64_MAX) (rb_frontier b))"

definition operation_is_covered :: "frontier \<Rightarrow> identity \<Rightarrow> bool" where
  "operation_is_covered f i =
     (if \<not> actor_valid (actor i) \<or> counter i = 0 then False
      else case map_of f (actor i) of None \<Rightarrow> False | Some through \<Rightarrow> counter i \<le> through)"

definition item_interval_is_covered :: "frontier \<Rightarrow> identity \<Rightarrow> nat \<Rightarrow> bool" where
  "item_interval_is_covered f first' item_count =
     (if item_count = 0 \<or> \<not> actor_valid (actor first') \<or> counter first' = 0 \<or>
         counter first' > U64_MAX - (item_count - 1) then False
      else case map_of f (actor first') of
        None \<Rightarrow> False | Some through \<Rightarrow> counter first' + item_count - 1 \<le> through)"

definition tombstone_is_covered :: "frontier \<Rightarrow> identity \<Rightarrow> nat \<Rightarrow> identity list \<Rightarrow> bool" where
  "tombstone_is_covered f first' item_count deletions =
     (if deletions = [] \<or> \<not> item_interval_is_covered f first' item_count then False
      else list_all (operation_is_covered f) deletions)"

section \<open>Charges of the undo history\<close>

record undo_group =
  ug_group_id :: identity
  ug_operation_ids :: "identity list"
  ug_inserted :: "identity list"
  ug_deletions :: "identity list"
  ug_retained_bytes :: nat

definition kMaxRetirementGroups :: nat where "kMaxRetirementGroups = 100000"
definition kMaxRetirementBytes :: nat where "kMaxRetirementBytes = 8 * 1024 * 1024"
definition sizeof_snapshot :: nat where "sizeof_snapshot = 104"

definition retirement_charge_of :: "nat \<Rightarrow> nat \<Rightarrow> nat \<Rightarrow> nat" where
  "retirement_charge_of ops ins dels =
     (if ins > U64_MAX - ops then U64_MAX
      else if dels > U64_MAX - (ops + ins) then U64_MAX
      else if ops + ins + dels > (U64_MAX - sizeof_snapshot) div sizeof_identity then U64_MAX
      else sizeof_snapshot + (ops + ins + dels) * sizeof_identity)"

definition retirement_charge :: "undo_group \<Rightarrow> nat" where
  "retirement_charge g =
     retirement_charge_of (length (ug_operation_ids g)) (length (ug_inserted g)) (length (ug_deletions g))"

section \<open>Facts\<close>

lemma retirement_charge_bound: "retirement_charge_of ops ins dels \<le> U64_MAX"
proof -
  have "n * sizeof_identity \<le> U64_MAX - sizeof_snapshot" if "n \<le> (U64_MAX - sizeof_snapshot) div sizeof_identity" for n
    using mult_le_mono1 [OF that, of sizeof_identity] div_times_less_eq_dividend order_trans by blast
  then have "sizeof_snapshot + n * sizeof_identity \<le> U64_MAX"
    if "\<not> n > (U64_MAX - sizeof_snapshot) div sizeof_identity" for n
    using that le_diff_conv2 [of sizeof_snapshot U64_MAX] by (simp add: U64_MAX_eq sizeof_snapshot_def)
  then show ?thesis
    by (simp add: retirement_charge_of_def)
qed

text \<open>The ledger: pairwise disjoint intervals inside the coverage, and the byte count is their size.\<close>

definition gap_interval :: "counter_gap \<Rightarrow> (actor_id \<times> nat) set" where
  "gap_interval g = {gap_actor g} \<times> {gap_first g ..< gap_first g + gap_count g}"

definition ledger_ok :: "gap_ledger \<Rightarrow> global \<Rightarrow> bool" where
  "ledger_ok l current \<longleftrightarrow>
     (\<forall>g \<in> set (gl_records l). is_ok (encode_counter_gap g) \<and> observed_all current (gap_prior g) \<and>
        gap_first g + gap_count g - 1 \<le> get current (gap_actor g)) \<and>
     sorted_wrt (\<lambda>g h. gap_interval g \<inter> gap_interval h = {}) (gl_records l) \<and>
     length (gl_records l) \<le> max_gap_records \<and>
     gl_bytes l = sum_list (map gap_size (gl_records l)) \<and> gl_bytes l \<le> max_gap_bytes"

lemma encode_gap_ok:
  "encode_counter_gap g = Ok s \<Longrightarrow>
     gap_first g \<noteq> 0 \<and> gap_count g \<noteq> 0 \<and> gap_first g + gap_count g \<le> U64_MAX \<and>
     get (gap_prior g) (gap_actor g) < gap_first g"
  by (auto simp: encode_counter_gap_def check_gap_def last_counter_def split: if_splits option.splits)

lemma gap_overlaps_iff:
  assumes "first' \<le> last'" "\<forall>g \<in> set (gl_records l). gap_count g \<noteq> 0"
  shows "gap_overlaps l a first' last' \<longleftrightarrow>
    (\<exists>g \<in> set (gl_records l). gap_interval g \<inter> ({a} \<times> {first'..last'}) \<noteq> {})"
proof -
  have "gap_interval g \<inter> ({a} \<times> {first'..last'}) \<noteq> {} \<longleftrightarrow>
      a = gap_actor g \<and> first' < gap_first g + gap_count g \<and> gap_first g \<le> last'" if "gap_count g \<noteq> 0" for g
  proof
    assume "a = gap_actor g \<and> first' < gap_first g + gap_count g \<and> gap_first g \<le> last'"
    then have "(a, max first' (gap_first g)) \<in> gap_interval g \<inter> ({a} \<times> {first'..last'})"
      using assms(1) that by (auto simp: gap_interval_def)
    then show "gap_interval g \<inter> ({a} \<times> {first'..last'}) \<noteq> {}" by blast
  qed (auto simp: gap_interval_def)
  then show ?thesis
    using assms(2) unfolding gap_overlaps_def list_ex_iff by blast
qed

lemma gap_contains_iff:
  "gap_contains l i \<longleftrightarrow> (\<exists>g \<in> set (gl_records l). (actor i, counter i) \<in> gap_interval g)"
  by (auto simp: gap_contains_def gap_overlaps_def list_ex_iff gap_interval_def)

lemma gap_disjoint_iff:
  assumes "gap_count g \<noteq> 0" "gap_count h \<noteq> 0"
  shows "gap_interval g \<inter> gap_interval h = {} \<longleftrightarrow>
    gap_actor g \<noteq> gap_actor h \<or> gap_first g \<ge> gap_first h + gap_count h \<or> gap_first h \<ge> gap_first g + gap_count g"
proof -
  have "(gap_actor g, max (gap_first g) (gap_first h)) \<in> gap_interval g \<inter> gap_interval h"
    if "gap_actor g = gap_actor h" "gap_first g < gap_first h + gap_count h" "gap_first h < gap_first g + gap_count g"
    using that assms by (auto simp: gap_interval_def)
  then show ?thesis
    by (fastforce simp: gap_interval_def)
qed

lemma gap_check_records_None:
  assumes "\<forall>h \<in> set records. gap_count h \<noteq> 0" "gap_count g \<noteq> 0"
  shows "gap_check_records g records = None \<longleftrightarrow> (\<forall>h \<in> set records. gap_interval h \<inter> gap_interval g = {})"
  using assms by (induction records) (auto simp: gap_disjoint_iff)

lemma ledger_ok_counts:
  "ledger_ok l current \<Longrightarrow> \<forall>g \<in> set (gl_records l). gap_count g \<noteq> 0"
proof
  fix g
  assume "ledger_ok l current" "g \<in> set (gl_records l)"
  then have "is_ok (encode_counter_gap g)"
    by (simp add: ledger_ok_def)
  then show "gap_count g \<noteq> 0"
    using encode_gap_ok by (cases "encode_counter_gap g") auto
qed

lemma gap_size_Ok: "encode_counter_gap g = Ok s \<Longrightarrow> gap_size g = length s"
  by (simp add: gap_size_def)

lemma observed_all_mono:
  assumes "observed_all v h" "\<And>a. get v a \<le> get w a"
  shows "observed_all w h"
proof -
  have "\<not> get w a < c" if "\<not> get v a < c" for a c
    using that assms(2) [of a] by linarith
  then show ?thesis
    using assms(1) unfolding observed_all_def list_all_iff by blast
qed

lemma ledger_ok_mono:
  assumes "ledger_ok l current" "\<And>a. get current a \<le> get later a"
  shows "ledger_ok l later"
  using assms(1) observed_all_mono [OF _ assms(2)] order_trans [OF _ assms(2)]
  unfolding ledger_ok_def by blast

lemma gap_check_records_not_Applied: "gap_check_records g records \<noteq> Some Applied"
  by (induction records) auto

lemma gap_commit_ok:
  assumes ok: "ledger_ok l current" and applied: "gap_check l g current = Applied"
    and g: "global_ok current"
    and commit: "gap_commit l g current = (l', current')"
  shows "ledger_ok l' current'"
proof -
  obtain s where s: "encode_counter_gap g = Ok s" "gap_check_records g (gl_records l) = None"
    "get current (gap_actor g) < gap_first g" "find (\<lambda>(a, c). get current a < c) (gap_prior g) = None"
    "length (gl_records l) < max_gap_records" "length s \<le> max_gap_bytes - gl_bytes l"
    using applied gap_check_records_not_Applied [of g "gl_records l"]
    by (auto simp: gap_check_def not_le split: sum.splits option.splits if_splits)
  have count: "gap_count g \<noteq> 0"
    using encode_gap_ok [OF s(1)] by simp
  have cur: "current' = observe current (Identity (gap_actor g) (gap_first g + gap_count g - 1))"
    and l': "l' = \<lparr>gl_records = gl_records l @ [g], gl_bytes = gl_bytes l + length s\<rparr>"
    using commit gap_size_Ok [OF s(1)] by (auto simp: gap_commit_def)
  have mono: "get current a \<le> get current' a" for a
    using g by (simp add: cur get_observe)
  have ok': "ledger_ok l current'"
    using ledger_ok_mono [OF ok mono] .
  have prior: "observed_all current (gap_prior g)"
    using s(4) by (force simp: find_None_iff observed_all_def list_all_iff)
  then have prior': "observed_all current' (gap_prior g)"
    using mono by (rule observed_all_mono)
  have last': "gap_first g + gap_count g - 1 \<le> get current' (gap_actor g)"
    using g by (simp add: cur get_observe)
  have disj: "\<forall>h \<in> set (gl_records l). gap_interval h \<inter> gap_interval g = {}"
    using gap_check_records_None [OF ledger_ok_counts [OF ok] count] s(2) by blast
  show ?thesis
    using ok' prior' last' disj s gap_size_Ok [OF s(1)]
    by (auto simp: ledger_ok_def l' sorted_wrt_append)
qed

lemma gap_restore_loop_iff:
  assumes "\<forall>h \<in> set (gl_records l). gap_count h \<noteq> 0" "gl_bytes l \<le> max_gap_bytes"
  shows "gap_restore_loop l records current = Ok l' \<longleftrightarrow>
    (\<forall>g \<in> set records. is_ok (encode_counter_gap g) \<and> observed_all current (gap_prior g) \<and>
       gap_first g + gap_count g - 1 \<le> get current (gap_actor g)) \<and>
    sorted_wrt (\<lambda>g h. gap_interval g \<inter> gap_interval h = {}) records \<and>
    (\<forall>g \<in> set (gl_records l). \<forall>h \<in> set records. gap_interval g \<inter> gap_interval h = {}) \<and>
    (records \<noteq> [] \<longrightarrow> length (gl_records l) + length records \<le> max_gap_records) \<and>
    gl_bytes l + sum_list (map gap_size records) \<le> max_gap_bytes \<and>
    l' = \<lparr>gl_records = gl_records l @ records, gl_bytes = gl_bytes l + sum_list (map gap_size records)\<rparr>"
  using assms
proof (induction records arbitrary: l)
  case Nil
  then show ?case by (cases l) auto
next
  case (Cons g rest)
  show ?case
  proof (cases "encode_counter_gap g")
    case (Inl e)
    then show ?thesis by simp
  next
    case (Inr s)
    note enc = encode_gap_ok [OF Inr] and size = gap_size_Ok [OF Inr]
    let ?l = "\<lparr>gl_records = gl_records l @ [g], gl_bytes = gl_bytes l + length s\<rparr>"
    have last': "{gap_actor g} \<times> {gap_first g..gap_first g + gap_count g - 1} = gap_interval g"
      using enc by (auto simp: gap_interval_def)
    have over: "gap_overlaps l (gap_actor g) (gap_first g) (gap_first g + gap_count g - 1) \<longleftrightarrow>
        \<not> (\<forall>h \<in> set (gl_records l). gap_interval h \<inter> gap_interval g = {})"
    proof -
      have "gap_first g \<le> gap_first g + gap_count g - 1"
        using enc by linarith
      then show ?thesis
        using gap_overlaps_iff [OF _ Cons.prems(1), of "gap_first g" "gap_first g + gap_count g - 1" "gap_actor g"]
        unfolding last' by blast
    qed
    define cond where "cond \<longleftrightarrow> observed_all current (gap_prior g) \<and>
        gap_first g + gap_count g - 1 \<le> get current (gap_actor g) \<and>
        (\<forall>h \<in> set (gl_records l). gap_interval h \<inter> gap_interval g = {}) \<and>
        length (gl_records l) < max_gap_records \<and> length s \<le> max_gap_bytes - gl_bytes l"
    have step: "gap_restore_loop l (g # rest) current =
        (if cond then gap_restore_loop ?l rest current else
         gap_restore_loop l (g # rest) current)"
      "\<not> cond \<Longrightarrow> gap_restore_loop l (g # rest) current \<noteq> Ok l'"
      using Inr over by (auto simp: cond_def not_le not_less)
    show ?thesis
    proof (cases cond)
      case False
      then show ?thesis
        using step(2) size Cons.prems(2) Inr by (auto simp: cond_def)
    next
      case True
      then have IH: "gap_restore_loop ?l rest current = Ok l' \<longleftrightarrow>
        (\<forall>g \<in> set rest. is_ok (encode_counter_gap g) \<and> observed_all current (gap_prior g) \<and>
           gap_first g + gap_count g - 1 \<le> get current (gap_actor g)) \<and>
        sorted_wrt (\<lambda>g h. gap_interval g \<inter> gap_interval h = {}) rest \<and>
        (\<forall>x \<in> set (gl_records ?l). \<forall>h \<in> set rest. gap_interval x \<inter> gap_interval h = {}) \<and>
        (rest \<noteq> [] \<longrightarrow> length (gl_records ?l) + length rest \<le> max_gap_records) \<and>
        gl_bytes ?l + sum_list (map gap_size rest) \<le> max_gap_bytes \<and>
        l' = \<lparr>gl_records = gl_records ?l @ rest, gl_bytes = gl_bytes ?l + sum_list (map gap_size rest)\<rparr>"
        using Cons.prems enc by (intro Cons.IH) (auto simp: cond_def)
      have eq: "gap_restore_loop l (g # rest) current = gap_restore_loop ?l rest current"
        using step(1) True by presburger
      have "is_ok (encode_counter_gap g)"
        using Inr by simp
      then show ?thesis
        unfolding eq IH using True size Cons.prems(2) by (auto simp: cond_def)
    qed
  qed
qed

lemma gap_restore_iff:
  "gap_restore records current = Ok l \<longleftrightarrow> gl_records l = records \<and> ledger_ok l current"
proof -
  have "gap_restore records current = Ok l \<longleftrightarrow>
    (\<forall>g \<in> set records. is_ok (encode_counter_gap g) \<and> observed_all current (gap_prior g) \<and>
       gap_first g + gap_count g - 1 \<le> get current (gap_actor g)) \<and>
    sorted_wrt (\<lambda>g h. gap_interval g \<inter> gap_interval h = {}) records \<and>
    (records \<noteq> [] \<longrightarrow> length records \<le> max_gap_records) \<and>
    sum_list (map gap_size records) \<le> max_gap_bytes \<and>
    l = \<lparr>gl_records = records, gl_bytes = sum_list (map gap_size records)\<rparr>"
    unfolding gap_restore_def empty_ledger_def by (subst gap_restore_loop_iff) simp_all
  then show ?thesis
    by (cases l) (auto simp: ledger_ok_def)
qed

end
