(* ===== verification/Undo_Map.thy ===== *)
theory Undo_Map
  imports Version_Vector
begin

text \<open>
  The undo counts of items and deletions: \<open>UndoMap.h\<close>, \<open>UndoMap.cpp\<close>. The B+ tree the class
  keeps its entries in is its item sequence here; a cursor is the rest of the sequence. \<open>seek\<close>
  with \<open>Bias::Left\<close> stops at the first item whose key is above the target, \<open>slice\<close> takes the
  items up to the target and \<open>suffix\<close> what is left. The counts an undo map answers depend only on
  the set of its entries, so undo operations commute.
\<close>

section \<open>Entries and the cursor\<close>

record undo_entry =
  ue_edit :: identity
  ue_undo :: identity
  ue_count :: nat

type_synonym undo_key = "identity \<times> identity"
type_synonym undo_map = "undo_entry list"

definition ue_key :: "undo_entry \<Rightarrow> undo_key" where
  "ue_key e = (ue_edit e, ue_undo e)"

definition undo_zero_key :: undo_key where
  "undo_zero_key = (identity_min, identity_min)"

definition undo_seek :: "undo_map \<Rightarrow> undo_key \<Rightarrow> undo_map" where
  "undo_seek m target = dropWhile (\<lambda>e. \<not> target < ue_key e) m"

definition undo_slice :: "undo_map \<Rightarrow> undo_key \<Rightarrow> undo_map" where
  "undo_slice cursor target = takeWhile (\<lambda>e. ue_key e \<le> target) cursor"

definition undo_suffix :: "undo_map \<Rightarrow> undo_key \<Rightarrow> undo_map" where
  "undo_suffix cursor target = dropWhile (\<lambda>e. ue_key e \<le> target) cursor"

section \<open>Operations\<close>

definition undo_insert :: "undo_map \<Rightarrow> undo_entry \<Rightarrow> undo_map" where
  "undo_insert m entry =
     (if m = [] then [entry]
      else let cursor = undo_seek m undo_zero_key in
        undo_slice cursor (ue_key entry) @ entry # undo_suffix cursor (ue_key entry))"

definition undo_scan :: "undo_map \<Rightarrow> identity \<Rightarrow> undo_map" where
  "undo_scan m edit_id =
     takeWhile (\<lambda>e. ue_edit e = edit_id) (undo_seek m (edit_id, identity_min))"

definition undo_count :: "undo_map \<Rightarrow> identity \<Rightarrow> nat" where
  "undo_count m edit_id =
     foldl (\<lambda>max_count e. if ue_count e > max_count then ue_count e else max_count) 0
       (undo_scan m edit_id)"

definition is_undone :: "undo_map \<Rightarrow> identity \<Rightarrow> bool" where
  "is_undone m edit_id = (undo_count m edit_id mod 2 = 1)"

definition was_undone :: "undo_map \<Rightarrow> identity \<Rightarrow> global \<Rightarrow> bool" where
  "was_undone m edit_id version =
     (foldl (\<lambda>max_count e.
        if observed version (ue_undo e) then
          (if ue_count e > max_count then ue_count e else max_count)
        else max_count) 0 (undo_scan m edit_id) mod 2 = 1)"

definition undo_size :: "undo_map \<Rightarrow> nat" where
  "undo_size m = length m"

definition undo_clear :: "undo_map \<Rightarrow> undo_map" where
  "undo_clear m = []"

fun undo_restore_loop :: "undo_map \<Rightarrow> undo_key option \<Rightarrow> undo_entry list \<Rightarrow> undo_map result" where
  "undo_restore_loop rebuilt previous [] = Ok rebuilt"
| "undo_restore_loop rebuilt previous (entry # rest) =
     (if \<not> actor_valid (actor (ue_edit entry)) \<or> counter (ue_edit entry) = 0 \<or>
         \<not> actor_valid (actor (ue_undo entry)) \<or> counter (ue_undo entry) = 0 \<or> ue_count entry = 0
      then Err malformed
      else if (case previous of None \<Rightarrow> False | Some p \<Rightarrow> \<not> p < ue_key entry) then Err malformed
      else undo_restore_loop (undo_insert rebuilt entry) (Some (ue_key entry)) rest)"

definition undo_restore :: "undo_entry list \<Rightarrow> undo_map result" where
  "undo_restore entries = undo_restore_loop [] None entries"

section \<open>The invariant\<close>

definition undo_entry_ok :: "undo_entry \<Rightarrow> bool" where
  "undo_entry_ok e \<longleftrightarrow> counter (ue_edit e) \<noteq> 0 \<and> counter (ue_undo e) \<noteq> 0"

definition undo_ok :: "undo_map \<Rightarrow> bool" where
  "undo_ok m \<longleftrightarrow> sorted (map ue_key m) \<and> list_all undo_entry_ok m"

lemma undo_ok_Nil [simp]: "undo_ok []"
  by (simp add: undo_ok_def)

lemma min_less: "counter i \<noteq> 0 \<Longrightarrow> identity_min < i"
  by (simp add: identity_min_def identity_less_iff)

lemma zero_key_less: "undo_entry_ok e \<Longrightarrow> undo_zero_key < ue_key e"
  by (simp add: undo_entry_ok_def undo_zero_key_def ue_key_def min_less)

lemma seek_zero: "list_all undo_entry_ok m \<Longrightarrow> undo_seek m undo_zero_key = m"
  using zero_key_less by (cases m) (auto simp: undo_seek_def)

lemma undo_insert_ok_eq:
  assumes "undo_ok m"
  shows "undo_insert m e = undo_slice m (ue_key e) @ e # undo_suffix m (ue_key e)"
  using assms seek_zero [of m]
  by (auto simp: undo_insert_def undo_ok_def Let_def undo_slice_def undo_suffix_def)

lemma slice_suffix: "undo_slice m k @ undo_suffix m k = m"
  by (simp add: undo_slice_def undo_suffix_def)

lemma undo_insert_set:
  assumes "undo_ok m"
  shows "set (undo_insert m e) = insert e (set m)"
proof -
  have "set m = set (undo_slice m (ue_key e)) \<union> set (undo_suffix m (ue_key e))"
    using slice_suffix by (metis set_append)
  then show ?thesis
    by (simp add: undo_insert_ok_eq [OF assms])
qed

lemma undo_insert_ok [simp]:
  assumes "undo_ok m" "undo_entry_ok e"
  shows "undo_ok (undo_insert m e)"
proof -
  have "sorted (map ue_key (undo_slice m (ue_key e) @ undo_suffix m (ue_key e)))"
    using assms(1) by (simp add: slice_suffix undo_ok_def)
  moreover have "\<forall>x \<in> set (undo_slice m (ue_key e)). ue_key x \<le> ue_key e"
    using set_takeWhileD unfolding undo_slice_def by fast
  moreover have "\<forall>x \<in> set (undo_suffix m (ue_key e)). ue_key e \<le> ue_key x"
  proof (cases "undo_suffix m (ue_key e)")
    case (Cons y ys)
    then have "\<not> ue_key y \<le> ue_key e"
      unfolding undo_suffix_def by (simp add: dropWhile_eq_Cons_conv)
    then show ?thesis
      using \<open>sorted (map ue_key (undo_slice m (ue_key e) @ undo_suffix m (ue_key e)))\<close> Cons
      by (auto simp: sorted_append)
  qed simp
  ultimately have "sorted (map ue_key (undo_insert m e))"
    by (auto simp: undo_insert_ok_eq [OF assms(1)] sorted_append)
  moreover have "list_all undo_entry_ok (undo_insert m e)"
    using assms undo_insert_set [OF assms(1)] by (auto simp: undo_ok_def list_all_iff)
  ultimately show ?thesis
    by (simp add: undo_ok_def)
qed

section \<open>What the queries answer\<close>

lemma sorted_map_dropWhile: "sorted (map f xs) \<Longrightarrow> sorted (map f (dropWhile P xs))"
  by (induction xs) auto

lemma sorted_dropWhile_mem:
  assumes "sorted (map f xs)" "x \<in> set xs" "k < f x"
  shows "x \<in> set (dropWhile (\<lambda>y. \<not> k < f y) xs)"
  using assms by (induction xs) auto

lemma sorted_takeWhile_fst:
  assumes "sorted (map f xs)" "x \<in> set xs" "P x" "\<And>y. y \<in> set xs \<Longrightarrow> f y \<le> f x \<Longrightarrow> P y"
  shows "x \<in> set (takeWhile P xs)"
  using assms by (induction xs) auto

lemma undo_scan_set:
  assumes "undo_ok m"
  shows "set (undo_scan m i) = {e \<in> set m. ue_edit e = i}"
proof (intro equalityI subsetI)
  fix e
  assume "e \<in> set (undo_scan m i)"
  then show "e \<in> {e \<in> set m. ue_edit e = i}"
    unfolding undo_scan_def undo_seek_def by (auto dest: set_takeWhileD set_dropWhileD)
next
  fix e
  assume "e \<in> {e \<in> set m. ue_edit e = i}"
  then have e: "e \<in> set m" "ue_edit e = i"
    by auto
  have ok: "sorted (map ue_key m)" "undo_entry_ok e"
    using assms e by (auto simp: undo_ok_def list_all_iff)
  have above: "(i, identity_min) < ue_key e"
    using ok(2) e(2) by (simp add: ue_key_def undo_entry_ok_def min_less)
  let ?rest = "undo_seek m (i, identity_min)"
  have mem: "e \<in> set ?rest"
    using sorted_dropWhile_mem [OF ok(1) e(1) above] by (simp add: undo_seek_def)
  have rest: "sorted (map ue_key ?rest)"
    using sorted_map_dropWhile [OF ok(1)] by (simp add: undo_seek_def)
  have "ue_edit y = i" if y: "y \<in> set ?rest" "ue_key y \<le> ue_key e" for y
  proof -
    obtain z zs where zs: "?rest = z # zs"
      using mem by (cases ?rest) auto
    then have "(i, identity_min) < ue_key z"
      by (simp add: undo_seek_def dropWhile_eq_Cons_conv)
    moreover have "ue_key z \<le> ue_key y"
      using rest y(1) zs by auto
    ultimately have "i \<le> ue_edit y"
      by (auto simp: ue_key_def)
    then show ?thesis
      using y(2) e(2) by (auto simp: ue_key_def)
  qed
  then show "e \<in> set (undo_scan m i)"
    unfolding undo_scan_def by (rule sorted_takeWhile_fst [where f = ue_key and P = "\<lambda>e. ue_edit e = i",
        OF rest mem e(2)])
qed

lemma Max_insert_max: "finite S \<Longrightarrow> Max (insert (max a x) S) = Max (insert a (insert x S))"
  for a :: nat
  by (cases "S = {}") (simp_all add: max.assoc)

lemma foldl_max_filter:
  "foldl (\<lambda>mx e. if P e then (if ue_count e > mx then ue_count e else mx) else mx) a es =
     Max (insert a (ue_count ` {e \<in> set es. P e}))"
proof (induction es arbitrary: a)
  case Nil
  then show ?case by simp
next
  case (Cons e es)
  have "{x \<in> set (e # es). P x} = (if P e then insert e {x \<in> set es. P x} else {x \<in> set es. P x})"
    by auto
  moreover have "(if ue_count e > a then ue_count e else a) = max a (ue_count e)"
    by (simp add: max_def)
  ultimately show ?case
    using Cons.IH Max_insert_max [of "ue_count ` {x \<in> set es. P x}" a "ue_count e"] by simp
qed

lemma foldl_max:
  "foldl (\<lambda>mx e. if ue_count e > mx then ue_count e else mx) a es = Max (insert a (ue_count ` set es))"
  using foldl_max_filter [of "\<lambda>_. True"] by simp

lemma undo_count_spec:
  "undo_ok m \<Longrightarrow> undo_count m i = Max (insert 0 (ue_count ` {e \<in> set m. ue_edit e = i}))"
  by (simp add: undo_count_def foldl_max undo_scan_set)

lemma was_undone_spec:
  "undo_ok m \<Longrightarrow> was_undone m i v =
     (Max (insert 0 (ue_count ` {e \<in> set m. ue_edit e = i \<and> observed v (ue_undo e)})) mod 2 = 1)"
  by (simp add: was_undone_def foldl_max_filter undo_scan_set)

lemma undo_count_set_eq:
  "undo_ok m \<Longrightarrow> undo_ok n \<Longrightarrow> set m = set n \<Longrightarrow> undo_count m i = undo_count n i"
  by (simp add: undo_count_spec)

lemma is_undone_set_eq:
  "undo_ok m \<Longrightarrow> undo_ok n \<Longrightarrow> set m = set n \<Longrightarrow> is_undone m i = is_undone n i"
  unfolding is_undone_def using undo_count_set_eq [of m n i] by simp

lemma undo_count_insert:
  assumes "undo_ok m" "undo_entry_ok e"
  shows "undo_count (undo_insert m e) i =
    (if ue_edit e = i then max (undo_count m i) (ue_count e) else undo_count m i)"
proof -
  have "{x \<in> set (undo_insert m e). ue_edit x = i} =
      (if ue_edit e = i then insert e {x \<in> set m. ue_edit x = i} else {x \<in> set m. ue_edit x = i})"
    unfolding undo_insert_set [OF assms(1)] by (cases "ue_edit e = i"; simp; blast)
  then show ?thesis
    using assms by (simp add: undo_count_spec max.commute max.left_commute insert_commute [of 0])
qed

text \<open>Folding in the entries of one undo operation.\<close>

definition undo_insert_all :: "undo_map \<Rightarrow> identity \<Rightarrow> (identity \<times> nat) list \<Rightarrow> undo_map" where
  "undo_insert_all m timestamp counts =
     foldl (\<lambda>m (edit_id, count). undo_insert m \<lparr>ue_edit = edit_id, ue_undo = timestamp, ue_count = count\<rparr>)
       m counts"

lemma undo_insert_all_simps [simp]:
  "undo_insert_all m t [] = m"
  "undo_insert_all m t ((i, c) # cs) =
     undo_insert_all (undo_insert m \<lparr>ue_edit = i, ue_undo = t, ue_count = c\<rparr>) t cs"
  by (simp_all add: undo_insert_all_def)

lemma undo_insert_all_ok:
  assumes "undo_ok m" "counter t \<noteq> 0" "\<forall>(i, c) \<in> set cs. counter i \<noteq> 0"
  shows "undo_ok (undo_insert_all m t cs)"
    and "set (undo_insert_all m t cs) =
      set m \<union> (\<lambda>(i, c). \<lparr>ue_edit = i, ue_undo = t, ue_count = c\<rparr>) ` set cs"
proof -
  have "undo_ok (undo_insert_all m t cs) \<and> set (undo_insert_all m t cs) =
      set m \<union> (\<lambda>(i, c). \<lparr>ue_edit = i, ue_undo = t, ue_count = c\<rparr>) ` set cs"
    using assms
  proof (induction cs arbitrary: m)
    case Nil
    then show ?case by simp
  next
    case (Cons p cs)
    obtain i c where p: "p = (i, c)"
      by (cases p)
    let ?e = "\<lparr>ue_edit = i, ue_undo = t, ue_count = c\<rparr>"
    have "undo_ok (undo_insert m ?e)"
      using Cons.prems p by (simp add: undo_entry_ok_def)
    then show ?case
      using Cons.IH [of "undo_insert m ?e"] Cons.prems p undo_insert_set [OF Cons.prems(1), of ?e] by auto
  qed
  then show "undo_ok (undo_insert_all m t cs)" "set (undo_insert_all m t cs) =
      set m \<union> (\<lambda>(i, c). \<lparr>ue_edit = i, ue_undo = t, ue_count = c\<rparr>) ` set cs"
    by blast+
qed

section \<open>Restoring from a checkpoint\<close>

definition undo_entry_valid :: "undo_entry \<Rightarrow> bool" where
  "undo_entry_valid e \<longleftrightarrow>
     actor_valid (actor (ue_edit e)) \<and> counter (ue_edit e) \<noteq> 0 \<and>
     actor_valid (actor (ue_undo e)) \<and> counter (ue_undo e) \<noteq> 0 \<and> ue_count e \<noteq> 0"

lemma undo_entry_valid_ok: "undo_entry_valid e \<Longrightarrow> undo_entry_ok e"
  by (simp add: undo_entry_valid_def undo_entry_ok_def)

lemma undo_insert_last:
  assumes "undo_ok m" "\<forall>x \<in> set m. ue_key x < ue_key e"
  shows "undo_insert m e = m @ [e]"
proof -
  have "undo_slice m (ue_key e) = m" "undo_suffix m (ue_key e) = []"
    using assms(2) by (auto simp: undo_slice_def undo_suffix_def less_imp_le)
  then show ?thesis
    using undo_insert_ok_eq [OF assms(1), of e] by simp
qed

lemma undo_restore_loop_iff:
  assumes "undo_ok m" "\<forall>x \<in> set m. \<exists>p. prev = Some p \<and> ue_key x \<le> p"
  shows "undo_restore_loop m prev es = Ok m' \<longleftrightarrow>
    (\<forall>e \<in> set es. undo_entry_valid e) \<and> sorted_wrt (<) (map ue_key es) \<and>
    (\<forall>p e. prev = Some p \<longrightarrow> e \<in> set es \<longrightarrow> p < ue_key e) \<and> m' = m @ es"
  using assms
proof (induction es arbitrary: m prev)
  case Nil
  then show ?case by auto
next
  case (Cons e es)
  show ?case
  proof (cases "undo_entry_valid e \<and> (\<forall>p. prev = Some p \<longrightarrow> p < ue_key e)")
    case False
    then show ?thesis
      by (auto simp: undo_entry_valid_def split: option.splits)
  next
    case True
    have app: "undo_insert m e = m @ [e]"
      using True Cons.prems by (intro undo_insert_last) (auto intro: le_less_trans)
    have "undo_ok (m @ [e])"
      using undo_insert_ok [OF Cons.prems(1), of e] True undo_entry_valid_ok app by simp
    moreover have "\<forall>x \<in> set (m @ [e]). \<exists>p. Some (ue_key e) = Some p \<and> ue_key x \<le> p"
      using True Cons.prems(2) by (auto intro: less_imp_le le_less_trans)
    ultimately have "undo_restore_loop (m @ [e]) (Some (ue_key e)) es = Ok m' \<longleftrightarrow>
        (\<forall>e \<in> set es. undo_entry_valid e) \<and> sorted_wrt (<) (map ue_key es) \<and>
        (\<forall>x. x \<in> set es \<longrightarrow> ue_key e < ue_key x) \<and> m' = (m @ [e]) @ es"
      using Cons.IH [of "m @ [e]" "Some (ue_key e)"] by simp
    moreover have "undo_restore_loop m prev (e # es) = undo_restore_loop (m @ [e]) (Some (ue_key e)) es"
      using True app by (auto simp: undo_entry_valid_def split: option.split)
    ultimately show ?thesis
      using True by (auto intro: less_trans)
  qed
qed

lemma undo_restore_iff:
  "undo_restore es = Ok m \<longleftrightarrow>
     (\<forall>e \<in> set es. undo_entry_valid e) \<and> sorted_wrt (<) (map ue_key es) \<and> m = es"
  unfolding undo_restore_def by (subst undo_restore_loop_iff) auto

lemma undo_restore_ok: "undo_restore es = Ok m \<Longrightarrow> undo_ok m"
  by (auto simp: undo_restore_iff undo_ok_def list_all_iff undo_entry_valid_ok strict_sorted_imp_sorted)

end
