(* ===== verification/Fugue_Order.thy ===== *)
theory Fugue_Order
  imports Sequence_Order
begin

text \<open>
  The abstract specification of the placement: what a document order has to satisfy with respect
  to a set of links (\<open>fugue\<close>), that the links determine the order (\<open>fugue_unique\<close>), and under
  which conditions a new leaf may be put at a cut of the order (\<open>fugue_insert\<close>). The rules are
  those of the comment in \<open>SequenceOrder.h\<close>: left children, the node, right children, each with
  its subtree; left siblings by identity; right siblings by the reverse order of their right
  origins and then by identity.
\<close>

section \<open>Ancestors\<close>

inductive desc :: "(identity \<rightharpoonup> link) \<Rightarrow> identity \<Rightarrow> identity option \<Rightarrow> bool" for L where
  child: "L x = Some l \<Longrightarrow> desc L x (parent l)"
| deeper: "L x = Some l \<Longrightarrow> parent l = Some y \<Longrightarrow> desc L y a \<Longrightarrow> desc L x a"

inductive_simps desc_unfold: "desc L x a"

definition in_sub :: "(identity \<rightharpoonup> link) \<Rightarrow> identity \<Rightarrow> identity \<Rightarrow> bool" where
  "in_sub L x r = (x = r \<or> desc L x (Some r))"

lemma in_sub_refl [simp]: "in_sub L x x"
  by (simp add: in_sub_def)

text \<open>
  The links of a document: what a link names is present and older. \<open>rank\<close> is any number that
  decreases towards the parent and the right origin.
\<close>

definition links_ranked :: "(identity \<rightharpoonup> link) \<Rightarrow> (identity \<Rightarrow> nat) \<Rightarrow> bool" where
  "links_ranked L rank \<longleftrightarrow>
     (\<forall>x l p. L x = Some l \<longrightarrow> parent l = Some p \<longrightarrow> p \<in> dom L \<and> rank p < rank x) \<and>
     (\<forall>x l r. L x = Some l \<longrightarrow> right_origin l = Some r \<longrightarrow> r \<in> dom L \<and> rank r < rank x)"

lemma links_ranked_parent:
  "links_ranked L rank \<Longrightarrow> L x = Some l \<Longrightarrow> parent l = Some p \<Longrightarrow> p \<in> dom L \<and> rank p < rank x"
  by (auto simp: links_ranked_def)

lemma links_ranked_origin:
  "links_ranked L rank \<Longrightarrow> L x = Some l \<Longrightarrow> right_origin l = Some r \<Longrightarrow> r \<in> dom L \<and> rank r < rank x"
  by (auto simp: links_ranked_def)

lemma desc_dom: "desc L x a \<Longrightarrow> x \<in> dom L"
  by (auto elim: desc.cases)

lemma desc_trans: "desc L x (Some y) \<Longrightarrow> desc L y a \<Longrightarrow> desc L x a"
proof (induction x "Some y" rule: desc.induct)
  case (child x l)
  then show ?case
    by (metis desc.deeper)
next
  case (deeper x l z)
  then show ?case
    by (metis desc.deeper)
qed

lemma in_sub_trans: "in_sub L x y \<Longrightarrow> in_sub L y z \<Longrightarrow> in_sub L x z"
  by (auto simp: in_sub_def intro: desc_trans)

lemma desc_rank: "desc L x (Some a) \<Longrightarrow> links_ranked L rank \<Longrightarrow> a \<in> dom L \<and> rank a < rank x"
proof (induction x "Some a" rule: desc.induct)
  case (child x l)
  then show ?case
    by (metis links_ranked_parent)
next
  case (deeper x l y)
  then show ?case
    by (metis links_ranked_parent less_trans)
qed

lemma in_sub_rank: "links_ranked L rank \<Longrightarrow> in_sub L x a \<Longrightarrow> rank a \<le> rank x"
  unfolding in_sub_def using desc_rank [of L x a rank] by auto

lemma in_sub_antisym: "links_ranked L rank \<Longrightarrow> in_sub L x y \<Longrightarrow> in_sub L y x \<Longrightarrow> x = y"
  using desc_rank unfolding in_sub_def by (metis less_asym)

lemma desc_root: "links_ranked L rank \<Longrightarrow> x \<in> dom L \<Longrightarrow> desc L x None"
proof (induction "rank x" arbitrary: x rule: less_induct)
  case less
  then obtain l where l: "L x = Some l"
    by auto
  show ?case
  proof (cases "parent l")
    case None
    then show ?thesis
      using desc.child [of L, OF l] by simp
  next
    case (Some p)
    then show ?thesis
      using less links_ranked_parent [OF less.prems(1) l Some] desc.deeper [of L x l p None] l
      by blast
  qed
qed

text \<open>The direct child of an ancestor on the way down.\<close>

lemma desc_child:
  "desc L x a \<Longrightarrow> \<exists>c lc. L c = Some lc \<and> parent lc = a \<and> in_sub L x c"
proof (induction rule: desc.induct)
  case (child x l)
  then show ?case
    by (auto simp: in_sub_def)
next
  case (deeper x l y a)
  then show ?case
    by (metis desc.child desc_trans in_sub_def)
qed

lemma desc_linear:
  assumes "desc L x (Some a)" "in_sub L x b"
  shows "in_sub L a b \<or> in_sub L b a"
proof -
  have "desc L x (Some b) \<Longrightarrow> in_sub L a b \<or> in_sub L b a" for b
    using assms(1)
  proof (induction x "Some a" arbitrary: b rule: desc.induct)
    case (child x l)
    then show ?case
      by (metis desc_unfold in_sub_def option.inject)
  next
    case (deeper x l y)
    from deeper.prems deeper.hyps(1,2) have "in_sub L y b"
      by (auto simp: desc_unfold [of L x "Some b"] in_sub_def)
    then show ?case
      using deeper by (metis in_sub_def)
  qed
  then show ?thesis
    using assms by (auto simp: in_sub_def)
qed

lemma in_sub_linear:
  "in_sub L x a \<Longrightarrow> in_sub L x b \<Longrightarrow> in_sub L a b \<or> in_sub L b a"
  using desc_linear by (auto simp: in_sub_def)

text \<open>Subtrees of different siblings do not meet.\<close>

lemma siblings_not_nested:
  assumes "links_ranked L rank" "L a = Some la" "L b = Some lb" "parent la = parent lb" "a \<noteq> b"
  shows "\<not> in_sub L a b"
proof
  assume "in_sub L a b"
  then have "desc L a (Some b)"
    using assms(5) by (simp add: in_sub_def)
  then have "parent la = Some b \<or> (\<exists>y. parent la = Some y \<and> desc L y (Some b))"
    using assms(2) by (simp add: desc_unfold [of L a]) metis
  then obtain y where y: "parent la = Some y" "in_sub L y b"
    unfolding in_sub_def by blast
  then have "rank b \<le> rank y"
    using assms(1) in_sub_rank by blast
  moreover have "rank y < rank b"
    using assms y links_ranked_parent by metis
  ultimately show False by simp
qed

lemma siblings_disjoint:
  assumes "links_ranked L rank" "L a = Some la" "L b = Some lb" "parent la = parent lb"
    and "in_sub L x a" "in_sub L x b"
  shows "a = b"
  using assms in_sub_linear siblings_not_nested by metis

text \<open>
  Two elements are on one branch, or hang under different children of a common ancestor (the
  document root when it is \<open>None\<close>).
\<close>

lemma common_ancestor:
  assumes ranked: "links_ranked L rank" and "a \<in> dom L" "b \<in> dom L"
  shows "in_sub L a b \<or> in_sub L b a \<or>
    (\<exists>c d lc ld. L c = Some lc \<and> L d = Some ld \<and> c \<noteq> d \<and> parent lc = parent ld \<and>
       in_sub L a c \<and> in_sub L b d)"
  using assms(2)
proof (induction "rank a" arbitrary: a rule: less_induct)
  case less
  then obtain l where l: "L a = Some l"
    by auto
  show ?case
  proof (cases "parent l")
    case None
    obtain d ld where d: "L d = Some ld" "parent ld = None" "in_sub L b d"
      using desc_child [OF desc_root [OF ranked assms(3)]] by auto
    show ?thesis
    proof (cases "d = a")
      case True
      then show ?thesis using d by blast
    next
      case False
      then show ?thesis using d l None in_sub_refl by metis
    qed
  next
    case (Some p)
    have p: "p \<in> dom L" "rank p < rank a"
      using links_ranked_parent [OF ranked l Some] by auto
    have ap: "in_sub L a p"
      using desc.child [of L, OF l] Some by (simp add: in_sub_def)
    consider "in_sub L p b" | "in_sub L b p"
      | c d lc ld where "L c = Some lc" "L d = Some ld" "c \<noteq> d" "parent lc = parent ld"
          "in_sub L p c" "in_sub L b d"
      using less.hyps [OF p(2,1)] by blast
    then show ?thesis
    proof cases
      case 1
      then show ?thesis
        using in_sub_trans [OF ap] by blast
    next
      case 2
      show ?thesis
      proof (cases "b = p")
        case True
        then show ?thesis using ap by simp
      next
        case False
        then obtain d ld where "L d = Some ld" "parent ld = Some p" "in_sub L b d"
          using 2 desc_child [of L b "Some p"] by (auto simp: in_sub_def)
        then show ?thesis
          using l Some in_sub_refl by metis
      qed
    next
      case 3
      then show ?thesis
        using in_sub_trans [OF ap] by blast
    qed
  qed
qed

section \<open>The document order\<close>

text \<open>The end of the document is later than every element.\<close>

fun later_origin :: "(identity \<Rightarrow> identity \<Rightarrow> bool) \<Rightarrow> identity option \<Rightarrow> identity option \<Rightarrow> bool" where
  "later_origin lt None None = False"
| "later_origin lt None (Some b) = True"
| "later_origin lt (Some a) None = False"
| "later_origin lt (Some a) (Some b) = lt b a"

definition sibling_before ::
  "(identity \<Rightarrow> identity \<Rightarrow> bool) \<Rightarrow> identity \<Rightarrow> link \<Rightarrow> identity \<Rightarrow> link \<Rightarrow> bool" where
  "sibling_before lt x lx y ly =
     (case l_side lx of
        Left \<Rightarrow> x < y
      | Right \<Rightarrow> later_origin lt (right_origin lx) (right_origin ly) \<or>
          right_origin lx = right_origin ly \<and> x < y)"

definition strict_order_on :: "identity set \<Rightarrow> (identity \<Rightarrow> identity \<Rightarrow> bool) \<Rightarrow> bool" where
  "strict_order_on S lt \<longleftrightarrow>
     (\<forall>a \<in> S. \<not> lt a a) \<and>
     (\<forall>a \<in> S. \<forall>b \<in> S. \<forall>c \<in> S. lt a b \<longrightarrow> lt b c \<longrightarrow> lt a c) \<and>
     (\<forall>a \<in> S. \<forall>b \<in> S. a = b \<or> lt a b \<or> lt b a)"

definition fugue :: "(identity \<rightharpoonup> link) \<Rightarrow> (identity \<Rightarrow> identity \<Rightarrow> bool) \<Rightarrow> bool" where
  "fugue L lt \<longleftrightarrow>
     (\<exists>rank. links_ranked L rank) \<and>
     strict_order_on (dom L) lt \<and>
     (\<forall>x l p. L x = Some l \<longrightarrow> parent l = Some p \<longrightarrow> (if l_side l = Right then lt p x else lt x p)) \<and>
     (\<forall>x l. L x = Some l \<longrightarrow> l_side l = Left \<longrightarrow> parent l \<noteq> None) \<and>
     (\<forall>r u v w. v \<in> dom L \<longrightarrow> in_sub L u r \<longrightarrow> in_sub L w r \<longrightarrow> lt u v \<longrightarrow> lt v w \<longrightarrow>
        u \<in> dom L \<longrightarrow> w \<in> dom L \<longrightarrow> in_sub L v r) \<and>
     (\<forall>x y lx ly. L x = Some lx \<longrightarrow> L y = Some ly \<longrightarrow> x \<noteq> y \<longrightarrow> parent lx = parent ly \<longrightarrow>
        l_side lx = l_side ly \<longrightarrow> (lt x y \<longleftrightarrow> sibling_before lt x lx y ly))"

lemma fugueD:
  assumes "fugue L lt"
  shows fugue_ranked: "\<exists>rank. links_ranked L rank"
    and fugue_order: "strict_order_on (dom L) lt"
    and fugue_side: "L x = Some l \<Longrightarrow> parent l = Some p \<Longrightarrow> if l_side l = Right then lt p x else lt x p"
    and fugue_left: "L x = Some l \<Longrightarrow> l_side l = Left \<Longrightarrow> parent l \<noteq> None"
    and fugue_convex: "u \<in> dom L \<Longrightarrow> v \<in> dom L \<Longrightarrow> w \<in> dom L \<Longrightarrow> in_sub L u r \<Longrightarrow> in_sub L w r \<Longrightarrow>
      lt u v \<Longrightarrow> lt v w \<Longrightarrow> in_sub L v r"
    and fugue_sibling: "L x = Some lx \<Longrightarrow> L y = Some ly \<Longrightarrow> x \<noteq> y \<Longrightarrow> parent lx = parent ly \<Longrightarrow>
      l_side lx = l_side ly \<Longrightarrow> lt x y \<longleftrightarrow> sibling_before lt x lx y ly"
  using assms unfolding fugue_def by blast+

lemma strict_order_onD:
  assumes "strict_order_on S lt"
  shows strict_irrefl: "a \<in> S \<Longrightarrow> \<not> lt a a"
    and strict_trans: "a \<in> S \<Longrightarrow> b \<in> S \<Longrightarrow> c \<in> S \<Longrightarrow> lt a b \<Longrightarrow> lt b c \<Longrightarrow> lt a c"
    and strict_total: "a \<in> S \<Longrightarrow> b \<in> S \<Longrightarrow> a = b \<or> lt a b \<or> lt b a"
  using assms unfolding strict_order_on_def by blast+

lemma strict_asym: "strict_order_on S lt \<Longrightarrow> a \<in> S \<Longrightarrow> b \<in> S \<Longrightarrow> lt a b \<Longrightarrow> \<not> lt b a"
  using strict_irrefl strict_trans by metis

lemma in_sub_dom: "in_sub L x r \<Longrightarrow> r \<in> dom L \<Longrightarrow> x \<in> dom L"
  by (auto simp: in_sub_def dest: desc_dom)

text \<open>The subtrees of two siblings lie on the two sides of each other.\<close>

lemma fugue_subtrees_ordered:
  assumes f: "fugue L lt" and c: "L c = Some lc" and d: "L d = Some ld"
    and par: "parent lc = parent ld" and "c \<noteq> d" and a: "in_sub L a c" and b: "in_sub L b d"
    and "lt c d"
  shows "lt a b"
proof -
  obtain rank where ranked: "links_ranked L rank"
    using fugue_ranked [OF f] by blast
  note ord = fugue_order [OF f]
  have dom: "c \<in> dom L" "d \<in> dom L" "a \<in> dom L" "b \<in> dom L"
    using in_sub_dom [OF a] in_sub_dom [OF b] c d by blast+
  have refl: "in_sub L c c" "in_sub L d d"
    by (simp_all add: in_sub_def)
  have sep: "\<not> (in_sub L x c \<and> in_sub L x d)" for x
    using siblings_disjoint [OF ranked c d par] \<open>c \<noteq> d\<close> by blast
  have "\<not> lt b c"
    using fugue_convex [OF f dom(4,1,2) b refl(2)] \<open>lt c d\<close> sep refl(1) by blast
  then have "lt c b"
    using strict_total [OF ord dom(1,4)] sep [of b] refl b by auto
  show ?thesis
  proof (rule ccontr)
    assume "\<not> lt a b"
    then have "lt b a"
      using strict_total [OF ord dom(3,4)] sep [of b] a b by auto
    then have "in_sub L b c"
      using fugue_convex [OF f dom(1,4,3) refl(1) a \<open>lt c b\<close>] by blast
    then show False
      using sep b by blast
  qed
qed

text \<open>An element and what hangs below one of its children.\<close>

lemma fugue_below:
  assumes f: "fugue L lt" and c: "L c = Some lc" and p: "parent lc = Some p" and b: "in_sub L b c"
  shows "if l_side lc = Right then lt p b else lt b p"
proof -
  obtain rank where ranked: "links_ranked L rank"
    using fugue_ranked [OF f] by blast
  note ord = fugue_order [OF f]
  have pdom: "p \<in> dom L" and prank: "rank p < rank c"
    using links_ranked_parent [OF ranked c p] by auto
  have dom: "c \<in> dom L" "b \<in> dom L"
    using in_sub_dom [OF b] c by blast+
  have np: "\<not> in_sub L p c"
    using prank in_sub_rank [OF ranked] by fastforce
  then have "b \<noteq> p"
    using b by auto
  have refl: "in_sub L c c"
    by (simp add: in_sub_def)
  have "lt p c \<Longrightarrow> lt p b"
    using strict_total [OF ord pdom dom(2)] \<open>b \<noteq> p\<close> np
      fugue_convex [OF f dom(2) pdom dom(1) b refl] by blast
  moreover have "lt c p \<Longrightarrow> lt b p"
    using strict_total [OF ord pdom dom(2)] \<open>b \<noteq> p\<close> np
      fugue_convex [OF f dom(1) pdom dom(2) refl b] by blast
  ultimately show ?thesis
    using fugue_side [OF f c p] by (auto split: if_splits)
qed

section \<open>The links determine the order\<close>

lemma later_origin_cong:
  assumes "\<And>a b. r = Some a \<Longrightarrow> s = Some b \<Longrightarrow> a \<noteq> b \<Longrightarrow> lt1 b a \<longleftrightarrow> lt2 b a"
    and "\<And>a. r = Some a \<Longrightarrow> \<not> lt1 a a \<and> \<not> lt2 a a"
  shows "later_origin lt1 r s \<longleftrightarrow> later_origin lt2 r s"
proof (cases "r = None \<or> s = None")
  case True
  then show ?thesis
    by (cases r; cases s) auto
next
  case False
  then obtain a b where "r = Some a" "s = Some b"
    by auto
  then show ?thesis
    using assms by (cases "a = b") auto
qed

lemma fugue_unique_aux:
  assumes f1: "fugue L lt1" and f2: "fugue L lt2" and ranked: "links_ranked L rank"
  shows "a \<in> dom L \<Longrightarrow> b \<in> dom L \<Longrightarrow> lt1 a b \<longleftrightarrow> lt2 a b"
proof (induction "rank a + rank b" arbitrary: a b rule: less_induct)
  case less
  note o1 = fugue_order [OF f1] and o2 = fugue_order [OF f2]
  show ?case
  proof (cases "a = b")
    case True
    then show ?thesis
      using less.prems strict_irrefl [OF o1] strict_irrefl [OF o2] by blast
  next
    case False
    have below: "lt1 u v \<longleftrightarrow> lt2 u v" "lt1 v u \<longleftrightarrow> lt2 v u"
      if uv: "in_sub L u v" "u \<noteq> v" "u \<in> dom L" "v \<in> dom L" for u v
    proof -
      obtain c lc where c: "L c = Some lc" "parent lc = Some v" "in_sub L u c"
        using desc_child [of L u "Some v"] uv(1,2) unfolding in_sub_def by blast
      show "lt1 u v \<longleftrightarrow> lt2 u v" "lt1 v u \<longleftrightarrow> lt2 v u"
        using fugue_below [OF f1 c] fugue_below [OF f2 c] uv
          strict_asym [OF o1] strict_asym [OF o2] by (auto split: if_splits)
    qed
    consider "in_sub L a b" | "in_sub L b a"
      | c d lc ld where "L c = Some lc" "L d = Some ld" "c \<noteq> d" "parent lc = parent ld"
          "in_sub L a c" "in_sub L b d"
      using common_ancestor [OF ranked less.prems] by blast
    then show ?thesis
    proof cases
      case 1
      then show ?thesis
        using below(1) False less.prems by blast
    next
      case 2
      then show ?thesis
        using below(2) False less.prems by blast
    next
      case 3
      have dom: "c \<in> dom L" "d \<in> dom L"
        using 3 by auto
      have rank: "rank c \<le> rank a" "rank d \<le> rank b"
        using 3 in_sub_rank [OF ranked] by auto
      have top: "lt1 c d \<longleftrightarrow> lt2 c d"
      proof (cases "l_side lc = l_side ld")
        case False
        then obtain p where p: "parent lc = Some p" "parent ld = Some p"
          using 3 fugue_left [OF f1] by (metis not_None_eq side.exhaust)
        then have "p \<in> dom L"
          using links_ranked_parent [OF ranked 3(1)] by blast
        then show ?thesis
          using False p fugue_side [OF f1 3(1)] fugue_side [OF f1 3(2)]
            fugue_side [OF f2 3(1)] fugue_side [OF f2 3(2)]
            strict_trans [OF o1] strict_trans [OF o2] strict_asym [OF o1] strict_asym [OF o2] dom
          by (metis side.exhaust)
      next
        case True
        have "later_origin lt1 (right_origin lc) (right_origin ld) \<longleftrightarrow>
            later_origin lt2 (right_origin lc) (right_origin ld)"
        proof (rule later_origin_cong)
          fix r s
          assume rs: "right_origin lc = Some r" "right_origin ld = Some s"
          then have "r \<in> dom L" "s \<in> dom L" "rank s + rank r < rank a + rank b"
            using links_ranked_origin [OF ranked 3(1) rs(1)] links_ranked_origin [OF ranked 3(2) rs(2)]
              rank by auto
          then show "lt1 s r \<longleftrightarrow> lt2 s r"
            using less.hyps by blast
        next
          fix r
          assume "right_origin lc = Some r"
          then have "r \<in> dom L"
            using links_ranked_origin [OF ranked 3(1)] by blast
          then show "\<not> lt1 r r \<and> \<not> lt2 r r"
            using strict_irrefl [OF o1] strict_irrefl [OF o2] by blast
        qed
        then show ?thesis
          using fugue_sibling [OF f1 3(1,2,3,4) True] fugue_sibling [OF f2 3(1,2,3,4) True]
          by (simp add: sibling_before_def split: side.splits)
      qed
      have "a \<noteq> b"
        using False .
      have doms: "a \<in> dom L" "b \<in> dom L"
        using less.prems by auto
      show ?thesis
      proof (cases "lt1 c d")
        case True
        then show ?thesis
          using top fugue_subtrees_ordered [OF f1 3(1,2,4,3,5,6)]
            fugue_subtrees_ordered [OF f2 3(1,2,4,3,5,6)] by blast
      next
        case no: False
        then have "lt1 d c" "lt2 d c"
          using top strict_total [OF o1 dom] strict_total [OF o2 dom] 3(3) by blast+
        then have "lt1 b a" "lt2 b a"
          using fugue_subtrees_ordered [OF f1 3(2,1) 3(4) [symmetric] 3(3) [symmetric] 3(6,5)]
            fugue_subtrees_ordered [OF f2 3(2,1) 3(4) [symmetric] 3(3) [symmetric] 3(6,5)] by blast+
        then show ?thesis
          using strict_asym [OF o1] strict_asym [OF o2] doms by blast
      qed
    qed
  qed
qed

lemma fugue_unique:
  assumes "fugue L lt1" "fugue L lt2" "a \<in> dom L" "b \<in> dom L"
  shows "lt1 a b \<longleftrightarrow> lt2 a b"
  using assms fugue_unique_aux fugue_ranked by blast

section \<open>Inserting a leaf\<close>

lemma later_origin_total:
  assumes "strict_order_on S lt" "\<And>a. r = Some a \<Longrightarrow> a \<in> S" "\<And>a. s = Some a \<Longrightarrow> a \<in> S"
  shows "later_origin lt s r \<longleftrightarrow> r \<noteq> s \<and> \<not> later_origin lt r s"
proof (cases "r = None \<or> s = None")
  case True
  then show ?thesis
    by (cases r; cases s) auto
next
  case False
  then obtain a b where ab: "r = Some a" "s = Some b"
    by auto
  then have "a \<in> S" "b \<in> S"
    using assms(2,3) by auto
  then show ?thesis
    using ab strict_total [OF assms(1)] strict_asym [OF assms(1)] strict_irrefl [OF assms(1)] by auto
qed

lemma sibling_before_total:
  assumes "strict_order_on S lt" "x \<noteq> y" "l_side lx = l_side ly"
    and "\<And>a. right_origin lx = Some a \<Longrightarrow> a \<in> S" "\<And>a. right_origin ly = Some a \<Longrightarrow> a \<in> S"
  shows "sibling_before lt y ly x lx \<longleftrightarrow> \<not> sibling_before lt x lx y ly"
proof -
  have "y < x \<longleftrightarrow> \<not> x < y"
    using assms(2) by (metis less_asym neq_iff)
  moreover have "later_origin lt (right_origin ly) (right_origin lx) \<longleftrightarrow>
      right_origin lx \<noteq> right_origin ly \<and> \<not> later_origin lt (right_origin lx) (right_origin ly)"
    by (rule later_origin_total [OF assms(1)]) (use assms(4,5) in blast)+
  moreover have "\<not> later_origin lt (right_origin lx) (right_origin ly)"
    if "right_origin lx = right_origin ly"
    using later_origin_total [OF assms(1,4,4)] unfolding that by blast
  ultimately show ?thesis
    using assms(3) unfolding sibling_before_def 
    by (cases "l_side ly"; cases "right_origin lx = right_origin ly") auto
qed

definition order_insert ::
  "(identity \<Rightarrow> identity \<Rightarrow> bool) \<Rightarrow> identity set \<Rightarrow> identity set \<Rightarrow> identity \<Rightarrow> identity \<Rightarrow> identity \<Rightarrow> bool" where
  "order_insert lt A B x a b = (if a = x then b \<in> B else if b = x then a \<in> A else lt a b)"

text \<open>A cut of the order where a leaf \<open>x\<close> with link \<open>l\<close> belongs.\<close>

definition leaf_cut ::
  "(identity \<rightharpoonup> link) \<Rightarrow> (identity \<Rightarrow> identity \<Rightarrow> bool) \<Rightarrow> identity \<Rightarrow> link \<Rightarrow> identity set \<Rightarrow> identity set \<Rightarrow> bool" where
  "leaf_cut L lt x l A B \<longleftrightarrow>
     A \<union> B = dom L \<and> (\<forall>a \<in> A. \<forall>b \<in> B. lt a b) \<and>
     (\<forall>p. parent l = Some p \<longrightarrow> p \<in> (if l_side l = Right then A else B)) \<and>
     (\<forall>r. right_origin l = Some r \<longrightarrow> r \<in> dom L) \<and>
     (l_side l = Left \<longrightarrow> parent l \<noteq> None) \<and>
     (\<forall>p. parent l = Some p \<longrightarrow> (\<exists>e. in_sub L e p \<and>
        (e \<in> A \<and> (\<forall>a \<in> A. a = e \<or> lt a e) \<or> e \<in> B \<and> (\<forall>b \<in> B. b = e \<or> lt e b)))) \<and>
     (\<forall>c lc a b. L c = Some lc \<longrightarrow> parent lc = parent l \<longrightarrow> in_sub L a c \<longrightarrow> in_sub L b c \<longrightarrow>
        a \<in> A \<longrightarrow> b \<notin> B) \<and>
     (\<forall>c lc. L c = Some lc \<longrightarrow> parent lc = parent l \<longrightarrow> l_side lc = l_side l \<longrightarrow>
        (c \<in> A \<longleftrightarrow> sibling_before lt c lc x l))"

lemmas leaf_cut_parts = leaf_cut_def [THEN iffD1]

lemma cut_union:
  "leaf_cut L lt x l A B \<Longrightarrow> A \<union> B = dom L"
  by (drule leaf_cut_parts [THEN conjunct1]) simp

lemma cut_lt:
  "leaf_cut L lt x l A B \<Longrightarrow> a \<in> A \<Longrightarrow> b \<in> B \<Longrightarrow> lt a b"
  by (drule leaf_cut_parts [THEN conjunct2, THEN conjunct1]) simp

lemma cut_side:
  "leaf_cut L lt x l A B \<Longrightarrow> parent l = Some p \<Longrightarrow> p \<in> (if l_side l = Right then A else B)"
  by (drule leaf_cut_parts [THEN conjunct2, THEN conjunct2, THEN conjunct1]) simp

lemma cut_origin:
  "leaf_cut L lt x l A B \<Longrightarrow> right_origin l = Some r \<Longrightarrow> r \<in> dom L"
  by (drule leaf_cut_parts [THEN conjunct2, THEN conjunct2, THEN conjunct2, THEN conjunct1]) simp

lemma cut_left:
  "leaf_cut L lt x l A B \<Longrightarrow> l_side l = Left \<Longrightarrow> parent l \<noteq> None"
  by (drule leaf_cut_parts [THEN conjunct2, THEN conjunct2, THEN conjunct2, THEN conjunct2, THEN conjunct1]) simp

lemma cut_adjacent:
  "leaf_cut L lt x l A B \<Longrightarrow> parent l = Some p \<Longrightarrow> \<exists>e. in_sub L e p \<and>
        (e \<in> A \<and> (\<forall>a \<in> A. a = e \<or> lt a e) \<or> e \<in> B \<and> (\<forall>b \<in> B. b = e \<or> lt e b))"
  by (drule leaf_cut_parts [THEN conjunct2, THEN conjunct2, THEN conjunct2, THEN conjunct2, THEN conjunct2, THEN conjunct1]) simp

lemma cut_whole:
  "leaf_cut L lt x l A B \<Longrightarrow> L c = Some lc \<Longrightarrow> parent lc = parent l \<Longrightarrow> in_sub L a c \<Longrightarrow> in_sub L b c \<Longrightarrow>
        a \<in> A \<Longrightarrow> b \<notin> B"
  by (drule leaf_cut_parts [THEN conjunct2, THEN conjunct2, THEN conjunct2, THEN conjunct2, THEN conjunct2, THEN conjunct2, THEN conjunct1]) simp

lemma cut_sibling:
  "leaf_cut L lt x l A B \<Longrightarrow> L c = Some lc \<Longrightarrow> parent lc = parent l \<Longrightarrow> l_side lc = l_side l \<Longrightarrow>
        c \<in> A \<longleftrightarrow> sibling_before lt c lc x l"
  by (drule leaf_cut_parts [THEN conjunct2, THEN conjunct2, THEN conjunct2, THEN conjunct2, THEN conjunct2, THEN conjunct2, THEN conjunct2]) simp

lemma cut_parent: "leaf_cut L lt x l A B \<Longrightarrow> parent l = Some p \<Longrightarrow> p \<in> dom L"
  using cut_side [of L lt x l A B p] cut_union [of L lt x l A B] by (auto split: if_splits)

lemma links_ranked_update:
  assumes "links_ranked L rank" "x \<notin> dom L"
    and "\<And>p. parent l = Some p \<Longrightarrow> p \<in> dom L" "\<And>r. right_origin l = Some r \<Longrightarrow> r \<in> dom L"
  shows "\<exists>rank'. links_ranked (L(x \<mapsto> l)) rank'"
proof -
  define deps where "deps = (case parent l of None \<Rightarrow> 0 | Some p \<Rightarrow> rank p) +
    (case right_origin l of None \<Rightarrow> 0 | Some r \<Rightarrow> rank r)"
  have old: "y \<noteq> x" if "y \<in> dom L" for y
    using that assms(2) by auto
  have "links_ranked (L(x \<mapsto> l)) (rank(x := Suc deps))"
    unfolding links_ranked_def
  proof (intro conjI allI impI)
    fix y ly p
    assume "(L(x \<mapsto> l)) y = Some ly" "parent ly = Some p"
    then have "p \<in> dom L \<and> (if y = x then rank p \<le> deps else rank p < rank y)"
      using links_ranked_parent [OF assms(1)] assms(3) by (auto simp: deps_def split: if_splits)
    then show "p \<in> dom (L(x \<mapsto> l))" "(rank(x := Suc deps)) p < (rank(x := Suc deps)) y"
      using old [of p] by (auto split: if_splits)
  next
    fix y ly r
    assume "(L(x \<mapsto> l)) y = Some ly" "right_origin ly = Some r"
    then have "r \<in> dom L \<and> (if y = x then rank r \<le> deps else rank r < rank y)"
      using links_ranked_origin [OF assms(1)] assms(4) by (auto simp: deps_def split: if_splits)
    then show "r \<in> dom (L(x \<mapsto> l))" "(rank(x := Suc deps)) r < (rank(x := Suc deps)) y"
      using old [of r] by (auto split: if_splits)
  qed
  then show ?thesis by blast
qed

lemma strict_order_on_insert:
  assumes "strict_order_on (A \<union> B) lt" "x \<notin> A \<union> B" "\<And>a b. a \<in> A \<Longrightarrow> b \<in> B \<Longrightarrow> lt a b"
  shows "strict_order_on (insert x (A \<union> B)) (order_insert lt A B x)"
proof -
  have disj: "a \<notin> B" if "a \<in> A" for a
    using assms(1,3) that strict_irrefl by blast
  have down: "a \<in> A" if "lt a b" "b \<in> A" "a \<in> A \<union> B" for a b
    using that assms(1,3) strict_asym [of "A \<union> B" lt a b] by auto
  have up: "b \<in> B" if "lt a b" "a \<in> B" "b \<in> A \<union> B" for a b
    using that assms(1,3) strict_asym [of "A \<union> B" lt a b] by auto
  let ?lt = "order_insert lt A B x"
  have "\<not> ?lt a a" if "a \<in> insert x (A \<union> B)" for a
    using that assms(2) strict_irrefl [OF assms(1)] by (auto simp: order_insert_def)
  moreover have "a = b \<or> ?lt a b \<or> ?lt b a"
    if "a \<in> insert x (A \<union> B)" "b \<in> insert x (A \<union> B)" for a b
    using that strict_total [OF assms(1)] by (auto simp: order_insert_def)
  moreover have "?lt a c" if "?lt a b" "?lt b c"
    "a \<in> insert x (A \<union> B)" "b \<in> insert x (A \<union> B)" "c \<in> insert x (A \<union> B)" for a b c
  proof (cases "a = x \<or> b = x \<or> c = x")
    case True
    then show ?thesis
      using that assms(2,3) disj down [of a b] up [of b c]
      by (auto simp: order_insert_def split: if_splits)
  next
    case False
    then show ?thesis
      using that strict_trans [OF assms(1), of a b c] by (auto simp: order_insert_def)
  qed
  ultimately show ?thesis
    unfolding strict_order_on_def by blast
qed

lemma desc_update_other:
  assumes "\<forall>y ly. L y = Some ly \<longrightarrow> parent ly \<noteq> Some x" "x \<notin> dom L" "u \<noteq> x"
  shows "desc (L(x \<mapsto> l)) u r \<longleftrightarrow> desc L u r"
proof
  assume "desc (L(x \<mapsto> l)) u r"
  then show "desc L u r"
    using assms(3)
  proof (induction rule: desc.induct)
    case (child u l)
    then show ?case by (auto intro: desc.child)
  next
    case (deeper u l y a)
    then have "L u = Some l" "y \<noteq> x"
      using assms(1) by (auto split: if_splits)
    then show ?case
      using deeper desc.deeper by metis
  qed
next
  assume "desc L u r"
  then show "desc (L(x \<mapsto> l)) u r"
  proof (induction rule: desc.induct)
    case (child u lu)
    then show ?case
      using desc.child [of "L(x \<mapsto> l)" u lu] assms(2) by (metis domI fun_upd_other)
  next
    case (deeper u lu y a)
    then show ?case
      using desc.deeper [of "L(x \<mapsto> l)" u lu y a] assms(2) by (metis domI fun_upd_other)
  qed
qed

lemma desc_update_new:
  assumes "\<forall>y ly. L y = Some ly \<longrightarrow> parent ly \<noteq> Some x" "x \<notin> dom L" "parent l \<noteq> Some x"
  shows "desc (L(x \<mapsto> l)) x r \<longleftrightarrow> parent l = r \<or> (\<exists>p. parent l = Some p \<and> desc L p r)"
  using assms(3) desc_update_other [OF assms(1,2)]
  by (auto simp: desc_unfold [of "L(x \<mapsto> l)" x])

lemma in_sub_update:
  assumes "fugue L lt" "x \<notin> dom L" "\<forall>p. parent l = Some p \<longrightarrow> p \<in> dom L"
  shows "u \<in> dom L \<Longrightarrow> in_sub (L(x \<mapsto> l)) u r \<longleftrightarrow> in_sub L u r"
    and "r \<noteq> x \<Longrightarrow> in_sub (L(x \<mapsto> l)) x r \<longleftrightarrow> (\<exists>p. parent l = Some p \<and> in_sub L p r)"
proof -
  obtain rank where ranked: "links_ranked L rank"
    using fugue_ranked [OF assms(1)] by blast
  have leaf: "\<forall>y ly. L y = Some ly \<longrightarrow> parent ly \<noteq> Some x"
    using links_ranked_parent [OF ranked] assms(2) by blast
  have "parent l \<noteq> Some x"
    using assms(2,3) by blast
  then show "r \<noteq> x \<Longrightarrow> in_sub (L(x \<mapsto> l)) x r \<longleftrightarrow> (\<exists>p. parent l = Some p \<and> in_sub L p r)"
    using desc_update_new [of L x l "Some r", OF leaf assms(2)] unfolding in_sub_def by metis
  show "u \<in> dom L \<Longrightarrow> in_sub (L(x \<mapsto> l)) u r \<longleftrightarrow> in_sub L u r"
    using desc_update_other [of L x u l "Some r", OF leaf assms(2)] assms(2) unfolding in_sub_def
    by metis
qed

lemma in_sub_parent_dom: "links_ranked L rank \<Longrightarrow> in_sub L x r \<Longrightarrow> x \<in> dom L \<Longrightarrow> r \<in> dom L"
  unfolding in_sub_def using desc_rank by metis

text \<open>Convexity of the subtrees after the insertion, by which of the three elements is new.\<close>

lemma cut_extreme:
  assumes f: "fugue L lt" and cut: "leaf_cut L lt x l A B" and p: "parent l = Some p"
    and r: "in_sub L p r"
  shows "v \<in> B \<Longrightarrow> w \<in> dom L \<Longrightarrow> in_sub L w r \<Longrightarrow> lt v w \<Longrightarrow> in_sub L v r"
    and "v \<in> A \<Longrightarrow> u \<in> dom L \<Longrightarrow> in_sub L u r \<Longrightarrow> lt u v \<Longrightarrow> in_sub L v r"
proof -
  obtain e where e: "in_sub L e p"
    "e \<in> A \<and> (\<forall>a \<in> A. a = e \<or> lt a e) \<or> e \<in> B \<and> (\<forall>b \<in> B. b = e \<or> lt e b)"
    using cut_adjacent [OF cut p] by blast
  then have er: "in_sub L e r" and ed: "e \<in> dom L"
    using in_sub_trans [OF _ r] cut_union [OF cut] by auto
  have dom: "v \<in> A \<Longrightarrow> v \<in> dom L" "v \<in> B \<Longrightarrow> v \<in> dom L" for v
    using cut_union [OF cut] by auto
  show "in_sub L v r" if v: "v \<in> B" "w \<in> dom L" "in_sub L w r" "lt v w"
  proof (cases "v = e")
    case False
    then have "lt e v"
      using e v cut_lt [OF cut] by blast
    then show ?thesis
      using fugue_convex [OF f ed dom(2) [OF v(1)] v(2) er v(3) _ v(4)] by blast
  qed (use er in simp)
  show "in_sub L v r" if v: "v \<in> A" "u \<in> dom L" "in_sub L u r" "lt u v"
  proof (cases "v = e")
    case False
    then have "lt v e"
      using e v cut_lt [OF cut] by blast
    then show ?thesis
      using fugue_convex [OF f v(2) dom(1) [OF v(1)] ed v(3) er v(4)] by blast
  qed (use er in simp)
qed

lemma cut_between:
  assumes f: "fugue L lt" and cut: "leaf_cut L lt x l A B"
    and uw: "u \<in> A" "w \<in> B" "in_sub L u r" "in_sub L w r"
  shows "\<exists>p. parent l = Some p \<and> in_sub L p r"
proof -
  obtain rank where ranked: "links_ranked L rank"
    using fugue_ranked [OF f] by blast
  have dom: "u \<in> dom L" "w \<in> dom L" "\<And>a. a \<in> A \<Longrightarrow> a \<in> dom L" "\<And>b. b \<in> B \<Longrightarrow> b \<in> dom L"
    using cut_union [OF cut] uw by auto
  have rdom: "r \<in> dom L"
    using in_sub_parent_dom [OF ranked uw(3) dom(1)] .
  have notwhole: False if "L c = Some lc" "parent lc = parent l" "in_sub L r c" for c lc
    using cut_whole [OF cut that(1,2) in_sub_trans [OF uw(3) that(3)] in_sub_trans [OF uw(4) that(3)]]
      uw(1,2) by blast
  show ?thesis
  proof (cases "parent l")
    case None
    then show ?thesis
      using desc_child [OF desc_root [OF ranked rdom]] notwhole by metis
  next
    case (Some p)
    obtain e where e: "in_sub L e p"
      "e \<in> A \<and> (\<forall>a \<in> A. a = e \<or> lt a e) \<or> e \<in> B \<and> (\<forall>b \<in> B. b = e \<or> lt e b)"
      using cut_adjacent [OF cut Some] by blast
    have "in_sub L e r"
    proof (cases "e = u \<or> e = w")
      case False
      then have "lt u e" "lt e w"
        using e(2) uw(1,2) cut_lt [OF cut] by auto
      then show ?thesis
        using fugue_convex [OF f dom(1) _ dom(2) uw(3,4)] e dom by blast
    qed (use uw in auto)
    then have "in_sub L p r \<or> desc L r (Some p)"
      using in_sub_linear [OF e(1)] unfolding in_sub_def by blast
    moreover have "\<not> desc L r (Some p)"
      using desc_child [of L r "Some p"] notwhole Some by metis
    ultimately show ?thesis
      using Some by blast
  qed
qed

lemma order_insert_old: "a \<noteq> x \<Longrightarrow> b \<noteq> x \<Longrightarrow> order_insert lt A B x a b = lt a b"
  by (simp add: order_insert_def)

lemma cut_convex:
  assumes f: "fugue L lt" and x: "x \<notin> dom L" and cut: "leaf_cut L lt x l A B"
    and L': "L' = L(x \<mapsto> l)" and lt': "lt' = order_insert lt A B x"
    and dom: "u \<in> dom L'" "v \<in> dom L'" "w \<in> dom L'"
    and uw: "in_sub L' u r" "in_sub L' w r" "lt' u v" "lt' v w"
  shows "in_sub L' v r"
proof -
  have "\<forall>p. parent l = Some p \<longrightarrow> p \<in> dom L"
    using cut_parent [OF cut] by blast
  note sub = in_sub_update [OF f x this, folded L']
  have xA: "x \<notin> A" "x \<notin> B" and AB: "A \<union> B = dom L"
    using x cut_union [OF cut] by auto
  obtain rank where ranked: "links_ranked L rank"
    using fugue_ranked [OF f] by blast
  have disj: "a \<notin> B" if "a \<in> A" for a
    using that cut_lt [OF cut that, of a] strict_irrefl [OF fugue_order [OF f], of a] AB by auto
  have old: "a \<noteq> x \<Longrightarrow> a \<in> dom L' \<Longrightarrow> a \<in> dom L" for a
    by (simp add: L')
  have leaf: "a = x" if "in_sub L' a x" "a \<in> dom L'" for a
  proof (rule ccontr)
    assume "a \<noteq> x"
    then have a: "a \<in> dom L"
      using that(2) old by blast
    then have "in_sub L a x"
      using that(1) sub(1) by blast
    then show False
      using x in_sub_parent_dom [OF ranked _ a] by blast
  qed
  show ?thesis
  proof (cases "v = x")
    case True
    then have "u \<in> A" "w \<in> B" "u \<noteq> x" "w \<noteq> x"
      using uw(3,4) xA by (auto simp: lt' order_insert_def split: if_splits)
    then have in_dom: "u \<in> dom L" "w \<in> dom L"
      using old dom by blast+
    have "in_sub L u r" "in_sub L w r"
      using sub(1) [OF in_dom(1)] sub(1) [OF in_dom(2)] uw(1,2) by blast+
    then have "\<exists>p. parent l = Some p \<and> in_sub L p r"
      using cut_between [OF f cut \<open>u \<in> A\<close> \<open>w \<in> B\<close>] by blast
    moreover have "r \<noteq> x"
      using leaf [of u] uw(1) dom(1) \<open>u \<noteq> x\<close> by blast
    ultimately show ?thesis
      using sub(2) True by blast
  next
    case False
    then have v: "v \<in> dom L"
      using dom old by blast
    have uv: "if u = x then v \<in> B else lt u v" and vw: "if w = x then v \<in> A else lt v w"
      using uw(3,4) False by (auto simp: lt' order_insert_def split: if_splits)
    show ?thesis
    proof (cases "r = x")
      case True
      then have "u = x" "w = x"
        using leaf [of u] leaf [of w] uw(1,2) dom(1,3) by blast+
      then show ?thesis
        using uv vw disj by auto
    next
      case rx: False
      consider "u = x" "w = x" | "u = x" "w \<noteq> x" | "u \<noteq> x" "w = x" | "u \<noteq> x" "w \<noteq> x"
        by blast
      then show ?thesis
      proof cases
        case 1
        then show ?thesis
          using uv vw disj by auto
      next
        case 2
        then obtain p where "parent l = Some p" "in_sub L p r"
          using uw(1) sub(2) [OF rx] by blast
        then show ?thesis
          using cut_extreme(1) [OF f cut, of p r v w] uv vw 2 uw(2) sub(1) [of w] sub(1) [OF v]
            old [OF 2(2) dom(3)] by simp
      next
        case 3
        then obtain p where "parent l = Some p" "in_sub L p r"
          using uw(2) sub(2) [OF rx] by blast
        then show ?thesis
          using cut_extreme(2) [OF f cut, of p r v u] uv vw 3 uw(1) sub(1) [of u] sub(1) [OF v]
            old [OF 3(1) dom(1)] by simp
      next
        case 4
        then have "u \<in> dom L" "w \<in> dom L" "lt u v" "lt v w"
          using old [OF 4(1) dom(1)] old [OF 4(2) dom(3)] uv vw 4 by simp_all
        then show ?thesis
          using fugue_convex [OF f _ v, of u w r] uw(1,2) sub(1) [of u] sub(1) [of w] sub(1) [OF v]
          by blast
      qed
    qed
  qed
qed

lemma sibling_before_cong:
  assumes "\<And>a b. right_origin lx = Some a \<Longrightarrow> right_origin ly = Some b \<Longrightarrow> lt1 b a \<longleftrightarrow> lt2 b a"
  shows "sibling_before lt1 x lx y ly \<longleftrightarrow> sibling_before lt2 x lx y ly"
proof -
  have "later_origin lt1 (right_origin lx) (right_origin ly) \<longleftrightarrow>
      later_origin lt2 (right_origin lx) (right_origin ly)"
    using assms by (cases "right_origin lx"; cases "right_origin ly") auto
  then show ?thesis
    by (simp add: sibling_before_def split: side.split)
qed

theorem fugue_insert:
  assumes f: "fugue L lt" and x: "x \<notin> dom L" and cut: "leaf_cut L lt x l A B"
  shows "fugue (L(x \<mapsto> l)) (order_insert lt A B x)"
proof -
  let ?L = "L(x \<mapsto> l)" and ?lt = "order_insert lt A B x"
  obtain rank where ranked: "links_ranked L rank"
    using fugue_ranked [OF f] by blast
  note ord = fugue_order [OF f]
  have AB: "A \<union> B = dom L"
    using cut_union [OF cut] .
  have disj: "a \<in> B \<longleftrightarrow> a \<notin> A" if "a \<in> dom L" for a
    using that cut_lt [OF cut, of a a] strict_irrefl [OF ord] AB by blast
  have origin: "r \<in> dom L" if "?L y = Some ly" "right_origin ly = Some r" for y ly r
    using that links_ranked_origin [OF ranked, of y ly r] cut_origin [OF cut, of r]
    by (cases "y = x") simp_all
  have pdom: "p \<in> dom L" if "?L y = Some ly" "parent ly = Some p" for y ly p
    using that links_ranked_parent [OF ranked, of y ly p] cut_parent [OF cut, of p]
    by (cases "y = x") simp_all
  have notx: "a \<noteq> x" if "a \<in> dom L" for a
    using that x by blast
  have cong: "sibling_before ?lt y ly z lz \<longleftrightarrow> sibling_before lt y ly z lz"
    if "?L y = Some ly" "?L z = Some lz" for y ly z lz
    by (rule sibling_before_cong)
      (rule order_insert_old, rule notx, rule origin [OF that(2)], assumption,
        rule notx, rule origin [OF that(1)], assumption)
  show ?thesis
    unfolding fugue_def
  proof (intro conjI allI impI)
    show "\<exists>rank. links_ranked ?L rank"
      by (rule links_ranked_update [OF ranked x]) (use cut_parent [OF cut] cut_origin [OF cut] in blast)+
    show "strict_order_on (dom ?L) ?lt"
      using strict_order_on_insert [of A B lt x] ord x cut_lt [OF cut] AB by simp
    fix y ly p
    assume y: "?L y = Some ly" and p: "parent ly = Some p"
    show "if l_side ly = Right then ?lt p y else ?lt y p"
      using y p notx [OF pdom [OF y p]] fugue_side [OF f, of y ly p] cut_side [OF cut, of p]
      by (cases "y = x"; cases "l_side ly") (simp_all add: order_insert_def)
  next
    fix y ly
    assume "?L y = Some ly" "l_side ly = Left"
    then show "parent ly \<noteq> None"
      using fugue_left [OF f, of y ly] cut_left [OF cut] by (auto split: if_splits)
  next
    fix r u v w
    assume "v \<in> dom ?L" "in_sub ?L u r" "in_sub ?L w r" "?lt u v" "?lt v w" "u \<in> dom ?L" "w \<in> dom ?L"
    then show "in_sub ?L v r"
      using cut_convex [OF f x cut refl refl] by blast
  next
    fix y z ly lz
    assume y: "?L y = Some ly" and z: "?L z = Some lz" and yz: "y \<noteq> z"
      and par: "parent ly = parent lz" "l_side ly = l_side lz"
    have total: "sibling_before lt z lz y ly \<longleftrightarrow> \<not> sibling_before lt y ly z lz"
      by (rule sibling_before_total [OF ord yz par(2)]) (use origin y z in blast)+
    consider "y = x" | "z = x" | "y \<noteq> x" "z \<noteq> x"
      by blast
    then show "?lt y z \<longleftrightarrow> sibling_before ?lt y ly z lz"
    proof cases
      case 1
      then have "L z = Some lz" "ly = l"
        using y z yz by auto
      then show ?thesis
        using cong [OF y z] total 1 par cut_sibling [OF cut, of z lz] disj [of z]
        by (auto simp: order_insert_def)
    next
      case 2
      then have "L y = Some ly" "lz = l"
        using y z yz by auto
      then show ?thesis
        using cong [OF y z] 2 yz par cut_sibling [OF cut, of y ly] by (auto simp: order_insert_def)
    next
      case 3
      then show ?thesis
        using cong [OF y z] fugue_sibling [OF f _ _ yz par] y z by (auto simp: order_insert_def)
    qed
  qed
qed

end
