(* ===== verification/Run_Items.thy ===== *)
theory Run_Items
  imports Fugue_Order
begin

text \<open>
  The items of a vector of runs: every run stands for consecutive identities of one actor, each
  the right child of the one before (\<open>item_at\<close>, \<open>link_at\<close>). This theory relates the positions
  (fragment, offset) the placement code works with to the flattened item sequence, and shows that
  \<open>index_find\<close> and \<open>top_child\<close> compute lookup and ancestry in it. \<open>runs_ok\<close> is the invariant
  of a consistent vector: its item sequence is the document order its links prescribe.
\<close>

section \<open>Items and positions\<close>

definition run_items :: "('r, 'z) run_ops_scheme \<Rightarrow> 'r \<Rightarrow> (identity \<times> link) list" where
  "run_items R f = map (\<lambda>off. (item_at R f off, link_at R f off)) [0..<run_length R f]"

definition items :: "('r, 'z) run_ops_scheme \<Rightarrow> 'r list \<Rightarrow> (identity \<times> link) list" where
  "items R frags = concat (map (run_items R) frags)"

definition run_ids :: "('r, 'z) run_ops_scheme \<Rightarrow> 'r list \<Rightarrow> identity list" where
  "run_ids R frags = map fst (items R frags)"

definition valid_pos :: "('r, 'z) run_ops_scheme \<Rightarrow> 'r list \<Rightarrow> pos \<Rightarrow> bool" where
  "valid_pos R frags p \<longleftrightarrow> fst p < length frags \<and> snd p < run_length R (frags ! fst p)"

definition norm_pos :: "('r, 'z) run_ops_scheme \<Rightarrow> 'r list \<Rightarrow> pos \<Rightarrow> bool" where
  "norm_pos R frags p \<longleftrightarrow> valid_pos R frags p \<or> p = (length frags, 0)"

definition flat :: "('r, 'z) run_ops_scheme \<Rightarrow> 'r list \<Rightarrow> pos \<Rightarrow> nat" where
  "flat R frags p = length (items R (take (fst p) frags)) + snd p"

definition runs_ok :: "('r, 'z) run_ops_scheme \<Rightarrow> 'r list \<Rightarrow> bool" where
  "runs_ok R frags \<longleftrightarrow>
     (\<forall>f \<in> set frags. 0 < run_length R f) \<and>
     distinct (run_ids R frags) \<and>
     fugue (map_of (items R frags)) (before (run_ids R frags))"

lemma items_simps [simp, run_simps]:
  "items R [] = []"
  "items R (f # fs) = run_items R f @ items R fs"
  "items R (fs @ gs) = items R fs @ items R gs"
  by (simp_all add: items_def)

lemma length_run_items [simp]: "length (run_items R f) = run_length R f"
  by (simp add: run_items_def)

lemma run_items_nth: "off < run_length R f \<Longrightarrow> run_items R f ! off = (item_at R f off, link_at R f off)"
  by (simp add: run_items_def)

lemma length_run_ids [simp]: "length (run_ids R frags) = length (items R frags)"
  by (simp add: run_ids_def)

lemma set_run_ids: "set (run_ids R frags) = dom (map_of (items R frags))"
  by (simp add: run_ids_def dom_map_of_conv_image_fst)

lemma items_split:
  assumes "n < length frags"
  shows "items R frags = items R (take n frags) @ run_items R (frags ! n) @ items R (drop (Suc n) frags)"
  using assms by (metis id_take_nth_drop items_simps(2,3))

lemma items_nth:
  assumes "valid_pos R frags p"
  shows "flat R frags p < length (items R frags)"
    and "items R frags ! flat R frags p = (w_id R frags p, w_link R frags p)"
  using assms items_split [of "fst p" frags R]
  by (auto simp: valid_pos_def flat_def nth_append run_items_nth w_id_def w_link_def)

lemma run_ids_nth: "valid_pos R frags p \<Longrightarrow> run_ids R frags ! flat R frags p = w_id R frags p"
  using items_nth [of R frags p] by (simp add: run_ids_def)

lemma items_pos_ex:
  "k < length (items R frags) \<Longrightarrow> \<exists>p. valid_pos R frags p \<and> flat R frags p = k"
proof (induction frags arbitrary: k)
  case Nil
  then show ?case by simp
next
  case (Cons f fs)
  show ?case
  proof (cases "k < run_length R f")
    case True
    then show ?thesis
      by (intro exI [of _ "(0, k)"]) (simp add: valid_pos_def flat_def)
  next
    case False
    then obtain p where "valid_pos R fs p" "flat R fs p = k - run_length R f"
      using Cons.IH [of "k - run_length R f"] Cons.prems by (metis add_diff_inverse_nat
        items_simps(2) length_append length_run_items nat_add_left_cancel_less)
    then show ?thesis
      using False by (intro exI [of _ "(Suc (fst p), snd p)"]) (simp add: valid_pos_def flat_def)
  qed
qed

lemma pos_of_id:
  assumes "i \<in> set (run_ids R frags)"
  obtains p where "valid_pos R frags p" "w_id R frags p = i"
proof -
  obtain k where "k < length (items R frags)" "run_ids R frags ! k = i"
    using assms by (metis in_set_conv_nth length_run_ids)
  then show thesis
    using items_pos_ex run_ids_nth that by metis
qed

lemma valid_pos_mem: "valid_pos R frags p \<Longrightarrow> w_id R frags p \<in> set (run_ids R frags)"
  by (metis items_nth(1) length_run_ids nth_mem run_ids_nth)

text \<open>Lexicographic order of positions is order in the item sequence.\<close>

lemma flat_take_mono: "m \<le> n \<Longrightarrow> length (items R (take m frags)) \<le> length (items R (take n frags))"
  by (induction frags arbitrary: m n) (auto simp: take_Cons' split: nat.splits)

lemma flat_less:
  assumes "valid_pos R frags p" "p < q"
  shows "flat R frags p < flat R frags q"
proof (cases "fst p = fst q")
  case True
  then show ?thesis
    using assms by (cases p; cases q) (auto simp: flat_def)
next
  case False
  then have lt: "fst p < fst q"
    using assms(2) by (cases p; cases q) auto
  have "flat R frags p < length (items R (take (Suc (fst p)) frags))"
    using assms(1) by (simp add: valid_pos_def flat_def take_Suc_conv_app_nth)
  also have "\<dots> \<le> length (items R (take (fst q) frags))"
    using lt by (intro flat_take_mono) simp
  finally show ?thesis
    by (simp add: flat_def)
qed

lemma flat_less_iff:
  assumes "valid_pos R frags p" "valid_pos R frags q"
  shows "flat R frags p < flat R frags q \<longleftrightarrow> p < q"
  using assms flat_less [of R frags p q] flat_less [of R frags q p] by (metis less_asym neqE)

lemma flat_inject:
  "valid_pos R frags p \<Longrightarrow> valid_pos R frags q \<Longrightarrow> flat R frags p = flat R frags q \<longleftrightarrow> p = q"
  using flat_less [of R frags p q] flat_less [of R frags q p] by (metis less_irrefl neqE)

lemma w_id_inject:
  assumes "distinct (run_ids R frags)" "valid_pos R frags p" "valid_pos R frags q"
  shows "w_id R frags p = w_id R frags q \<longleftrightarrow> p = q"
  using assms items_nth(1) run_ids_nth flat_inject
  by (metis length_run_ids nth_eq_iff_index_eq)

lemma before_nth:
  assumes "distinct xs" "i < length xs" "j < length xs"
  shows "before xs (xs ! i) (xs ! j) \<longleftrightarrow> i < j"
proof -
  have "before xs (xs ! i) (xs ! j)" if "i < j" "j < length xs" for i j
  proof -
    have "xs = take j xs @ drop j xs" "xs ! i \<in> set (take j xs)" "xs ! j \<in> set (drop j xs)"
      using that by (auto simp: in_set_conv_nth intro: exI [of _ i] exI [of _ 0])
    then show ?thesis
      by (metis before_append)
  qed
  then show ?thesis
    using assms before_asym before_irrefl by (metis linorder_neqE_nat)
qed

lemma before_pos:
  assumes "distinct (run_ids R frags)" "valid_pos R frags p" "valid_pos R frags q"
  shows "before (run_ids R frags) (w_id R frags p) (w_id R frags q) \<longleftrightarrow> p < q"
  using assms before_nth [of "run_ids R frags" "flat R frags p" "flat R frags q"]
  by (simp add: run_ids_nth items_nth flat_less_iff)

lemma links_pos:
  "distinct (run_ids R frags) \<Longrightarrow> valid_pos R frags p \<Longrightarrow>
     map_of (items R frags) (w_id R frags p) = Some (w_link R frags p)"
  using items_nth [of R frags p] by (metis map_of_eq_Some_iff nth_mem run_ids_def)

section \<open>Lookup\<close>

lemma run_valid_pos: "n < length frags \<Longrightarrow> off < run_length R (frags ! n) \<Longrightarrow> valid_pos R frags (n, off)"
  by (simp add: valid_pos_def)

lemma sorted_last_max:
  "sorted xs \<Longrightarrow> x \<in> set xs \<Longrightarrow> x \<le> last xs"
  by (induction xs) (auto split: if_splits intro: order_trans)

lemma sorted_takeWhile_mem:
  assumes "sorted xs" "x \<in> set xs" "P x" "\<And>y z. y \<le> z \<Longrightarrow> P z \<Longrightarrow> P y"
  shows "x \<in> set (takeWhile P xs)"
  using assms(1,2) by (induction xs) (use assms(3,4) in auto)

lemma index_find_complete:
  assumes d: "distinct (run_ids R frags)" and pos: "\<And>f. f \<in> set frags \<Longrightarrow> 0 < run_length R f"
    and p: "valid_pos R frags p"
  shows "index_find R frags (w_id R frags p) = Some p"
proof -
  obtain n off where np: "p = (n, off)"
    by (cases p)
  define i where "i = w_id R frags p"
  let ?o = "\<lambda>m. origin R (frags ! m)"
  have n: "n < length frags" "off < run_length R (frags ! n)"
    and i: "i = Identity (actor (?o n)) (counter (?o n) + off)"
    using p by (simp_all add: valid_pos_def np i_def item_at_def)
  define runs where "runs = index_runs R frags (actor i)"
  define found where "found = takeWhile (\<lambda>p. \<not> counter i < fst p) runs"
  have sorted: "sorted runs"
    by (simp add: runs_def index_runs_def)
  then have "sorted found"
    by (simp add: found_def sorted_takeWhile)
  have "(counter (?o n), n) \<in> set runs"
    using n i by (simp add: runs_def index_runs_mem identity.expand)
  then have mem: "(counter (?o n), n) \<in> set found"
    using sorted_takeWhile_mem [OF sorted, of _ "\<lambda>p. \<not> counter i < fst p"] i
    unfolding found_def by fastforce
  then obtain c m where cm: "last found = (c, m)"
    by fastforce
  have ne: "found \<noteq> []"
    using mem by auto
  have "(c, m) \<in> set runs" "\<not> counter i < c"
    using last_takeWhile_props [OF found_def ne] cm by auto
  then have m: "m < length frags" "?o m = Identity (actor i) c" "c \<le> counter i"
    by (simp_all add: runs_def index_runs_mem)
  have "counter (?o n) \<le> c"
    using sorted_last_max [OF \<open>sorted found\<close> mem] cm by auto
  then have "w_id R frags (m, 0) = w_id R frags (n, c - counter (?o n))"
    and "c - counter (?o n) < run_length R (frags ! n)"
    using m i n by (auto simp: item_at_def)
  then have "m = n"
    using w_id_inject [OF d, of "(m, 0)" "(n, c - counter (?o n))"] m n pos
    by (simp add: valid_pos_def)
  then show ?thesis
    using ne cm i n unfolding index_find_def runs_def [symmetric] found_def [symmetric] i_def [symmetric]
    by (simp add: Let_def np found_def [symmetric] runs_def [symmetric])
qed

abbreviation links :: "('r, 'z) run_ops_scheme \<Rightarrow> 'r list \<Rightarrow> identity \<rightharpoonup> link" where
  "links R frags \<equiv> map_of (items R frags)"

lemma runs_okD:
  assumes "runs_ok R frags"
  shows runs_ok_length: "f \<in> set frags \<Longrightarrow> 0 < run_length R f"
    and runs_ok_distinct: "distinct (run_ids R frags)"
    and runs_ok_fugue: "fugue (links R frags) (before (run_ids R frags))"
  using assms by (simp_all add: runs_ok_def)

theorem index_find_correct:
  assumes "runs_ok R frags"
  shows "index_find R frags i = Some p \<longleftrightarrow> valid_pos R frags p \<and> w_id R frags p = i"
proof
  assume "index_find R frags i = Some p"
  then show "valid_pos R frags p \<and> w_id R frags p = i"
    using index_find_Some [of R frags i "fst p" "snd p"] index_find_id [of R frags i p]
    by (simp add: valid_pos_def)
next
  assume "valid_pos R frags p \<and> w_id R frags p = i"
  then show "index_find R frags i = Some p"
    using index_find_complete runs_ok_distinct [OF assms] runs_ok_length [OF assms] by blast
qed

lemma index_find_None:
  assumes "runs_ok R frags"
  shows "index_find R frags i = None \<longleftrightarrow> i \<notin> set (run_ids R frags)"
  using index_find_correct [OF assms] pos_of_id valid_pos_mem by (metis not_None_eq)

section \<open>Ancestry\<close>

lemma in_run_before_iff:
  "in_run_before R f off anc \<longleftrightarrow> (\<exists>k < off. anc = Some (item_at R f k))"
proof
  assume "in_run_before R f off anc"
  then obtain a where a: "anc = Some a" "actor (origin R f) = actor a"
    "counter (origin R f) \<le> counter a" "counter a < counter (origin R f) + off"
    by (auto simp: in_run_before_def split: option.splits)
  then show "\<exists>k < off. anc = Some (item_at R f k)"
    by (intro exI [of _ "counter a - counter (origin R f)"]) (auto simp: item_at_def identity.expand)
next
  assume "\<exists>k < off. anc = Some (item_at R f k)"
  then show "in_run_before R f off anc"
    by (auto simp: in_run_before_def item_at_def)
qed

lemma valid_pos_le: "valid_pos R frags (n, off) \<Longrightarrow> k \<le> off \<Longrightarrow> valid_pos R frags (n, k)"
  by (simp add: valid_pos_def)

lemma links_run_Suc:
  assumes "runs_ok R frags" "valid_pos R frags (n, Suc off)"
  shows "links R frags (w_id R frags (n, Suc off)) =
    Some (Link (Some (w_id R frags (n, off))) Right (right_origin (run_link R (frags ! n))))"
  using links_pos [OF runs_ok_distinct [OF assms(1)] assms(2)]
  by (simp add: w_link_def link_at_def)

lemma links_run_0:
  assumes "runs_ok R frags" "valid_pos R frags (n, off)"
  shows "links R frags (w_id R frags (n, 0)) = Some (run_link R (frags ! n))"
  using links_pos [OF runs_ok_distinct [OF assms(1)] valid_pos_le [OF assms(2), of 0]]
  by (simp add: w_link_def link_at_def)

lemma desc_iff:
  "L x = Some l \<Longrightarrow> desc L x a \<longleftrightarrow> parent l = a \<or> (\<exists>p. parent l = Some p \<and> desc L p a)"
  by (subst desc_unfold) auto

text \<open>The ancestors of an item: the earlier items of its run, and those of the first item.\<close>

lemma desc_in_run:
  assumes "runs_ok R frags" "valid_pos R frags (n, off)"
  shows "desc (links R frags) (w_id R frags (n, off)) a \<longleftrightarrow>
    in_run_before R (frags ! n) off a \<or> desc (links R frags) (w_id R frags (n, 0)) a"
  using assms(2)
proof (induction off)
  case 0
  then show ?case by (simp add: in_run_before_iff)
next
  case (Suc off)
  have "desc (links R frags) (w_id R frags (n, Suc off)) a \<longleftrightarrow>
      a = Some (w_id R frags (n, off)) \<or> desc (links R frags) (w_id R frags (n, off)) a"
    using links_run_Suc [OF assms(1) Suc.prems] by (subst desc_unfold) auto
  then show ?case
    using Suc.IH valid_pos_le [OF Suc.prems, of off] by (auto simp: in_run_before_iff less_Suc_eq)
qed

lemma in_sub_run_start:
  assumes "runs_ok R frags" "valid_pos R frags (n, off)" "k \<le> off"
  shows "in_sub (links R frags) (w_id R frags (n, off)) (w_id R frags (n, k))"
proof (cases "k = off")
  case False
  then have "in_run_before R (frags ! n) off (Some (w_id R frags (n, k)))"
    using assms(3) by (auto simp: in_run_before_iff intro!: exI [of _ k])
  then show ?thesis
    using desc_in_run [OF assms(1,2)] by (simp add: in_sub_def)
qed simp

definition heads_below :: "('r, 'z) run_ops_scheme \<Rightarrow> 'r list \<Rightarrow> (identity \<Rightarrow> nat) \<Rightarrow> nat \<Rightarrow> nat set" where
  "heads_below R frags rank n =
     {m. m < length frags \<and> rank (w_id R frags (m, 0)) < rank (w_id R frags (n, 0))}"

text \<open>
  What \<open>top_child\<close> answers. The fuel: the head of the run that is looked at gets older with every
  turn, so no run is looked at twice.
\<close>

definition child_above ::
  "('r, 'z) run_ops_scheme \<Rightarrow> 'r list \<Rightarrow> pos \<Rightarrow> identity option \<Rightarrow> pos \<Rightarrow> bool" where
  "child_above R frags x anc c \<longleftrightarrow> valid_pos R frags c \<and> parent (w_link R frags c) = anc \<and>
     in_sub (links R frags) (w_id R frags x) (w_id R frags c)"

lemma top_child_loop_spec:
  assumes ok: "runs_ok R frags" and ranked: "links_ranked (links R frags) rank"
  shows "valid_pos R frags cur \<Longrightarrow> card (heads_below R frags rank (fst cur)) < g \<Longrightarrow>
    (case top_child_loop R frags g cur anc of
       None \<Rightarrow> \<not> desc (links R frags) (w_id R frags cur) anc
     | Some c \<Rightarrow> child_above R frags cur anc c)"
proof (induction g arbitrary: cur)
  case 0
  then show ?case by simp
next
  case (Suc g)
  obtain n off where cur: "cur = (n, off)"
    by (cases cur)
  let ?L = "links R frags" and ?f = "frags ! n" and ?id = "w_id R frags"
  have v: "valid_pos R frags (n, off)" and v0: "valid_pos R frags (n, 0)"
    using Suc.prems(1) valid_pos_le cur by blast+
  note dir = desc_in_run [OF ok v, of anc]
  have head: "?L (?id (n, 0)) = Some (run_link R ?f)"
    using links_run_0 [OF ok v] .
  show ?case
  proof (cases "in_run_before R ?f off anc")
    case True
    then obtain k where k: "k < off" "anc = Some (item_at R ?f k)"
      unfolding in_run_before_iff by blast
    have "child_above R frags cur anc (n, k + 1)"
      using k in_sub_run_start [OF ok v, of "k + 1"] valid_pos_le [OF v, of "k + 1"]
      by (simp add: child_above_def cur w_link_def link_at_def)
    then show ?thesis
      using True k by (simp add: cur Let_def item_at_def)
  next
    case out: False
    show ?thesis
    proof (cases "parent (run_link R ?f) = anc")
      case True
      have "child_above R frags cur anc (n, 0)"
        using True v0 in_sub_run_start [OF ok v, of 0]
        by (simp add: child_above_def cur w_link_def link_at_def)
      then show ?thesis
        using True out by (simp add: cur Let_def)
    next
      case other: False
      have up: "desc ?L (?id cur) anc \<longleftrightarrow> (\<exists>p. parent (run_link R ?f) = Some p \<and> desc ?L p anc)"
        using dir out desc_iff [of ?L, OF head, of anc] other by (simp add: cur)
      show ?thesis
      proof (cases "parent (run_link R ?f)")
        case None
        then show ?thesis
          using up out other by (simp add: cur Let_def)
      next
        case (Some p)
        have p: "p \<in> dom ?L" "rank p < rank (?id (n, 0))"
          using links_ranked_parent [OF ranked head Some] by auto
        then obtain q where q: "valid_pos R frags q" "?id q = p"
          using pos_of_id set_run_ids by metis
        have find: "index_find R frags p = Some q"
          using index_find_correct [OF ok] q by blast
        have "rank (?id (fst q, 0)) \<le> rank p"
          using in_sub_rank [OF ranked in_sub_run_start [OF ok, of "fst q" "snd q" 0]] q by simp
        then have "heads_below R frags rank (fst q) \<subset> heads_below R frags rank n"
          using p(2) q(1) by (auto simp: heads_below_def valid_pos_def intro: less_trans)
        then have "card (heads_below R frags rank (fst q)) < card (heads_below R frags rank n)"
          by (rule psubset_card_mono [rotated]) (simp add: heads_below_def)
        then have IH: "case top_child_loop R frags g q anc of
            None \<Rightarrow> \<not> desc ?L p anc | Some c \<Rightarrow> child_above R frags q anc c"
          using Suc.IH [OF q(1), unfolded q(2)] Suc.prems(2) cur by simp
        have "in_sub ?L (?id cur) p"
          using in_sub_run_start [OF ok v, of 0] desc.child [of ?L, OF head] Some
            in_sub_trans [of ?L "?id cur" "?id (n, 0)" p]
          by (simp add: in_sub_def cur)
        then have "child_above R frags q anc c \<Longrightarrow> child_above R frags cur anc c" for c
          using q(2) in_sub_trans by (auto simp: child_above_def)
        then show ?thesis
          using IH up out other Some find by (auto simp: cur Let_def split: option.splits)
      qed
    qed
  qed
qed

lemma top_child_spec:
  assumes ok: "runs_ok R frags" and v: "valid_pos R frags x"
  shows "case top_child R frags x anc of
      None \<Rightarrow> \<not> desc (links R frags) (w_id R frags x) anc
    | Some c \<Rightarrow> child_above R frags x anc c"
proof -
  obtain rank where ranked: "links_ranked (links R frags) rank"
    using fugue_ranked [OF runs_ok_fugue [OF ok]] by blast
  have "card (heads_below R frags rank (fst x)) \<le> card {..<length frags}"
    by (rule card_mono) (auto simp: heads_below_def)
  then have "card (heads_below R frags rank (fst x)) < length frags + 2"
    by simp
  then show ?thesis
    unfolding top_child_def using top_child_loop_spec [OF ok ranked v] by blast
qed

lemma child_above_desc:
  assumes "runs_ok R frags" "child_above R frags x anc c"
  shows "desc (links R frags) (w_id R frags x) anc"
proof -
  have "desc (links R frags) (w_id R frags c) anc"
    using assms desc.child links_pos [OF runs_ok_distinct [OF assms(1)]]
    by (metis child_above_def)
  then show ?thesis
    using assms(2) desc_trans unfolding child_above_def in_sub_def by metis
qed

theorem descendant_correct:
  assumes "runs_ok R frags" "valid_pos R frags x"
  shows "descendant R frags x anc \<longleftrightarrow> desc (links R frags) (w_id R frags x) anc"
  using top_child_spec [OF assms, of anc] child_above_desc [OF assms(1), of x anc]
  by (auto simp: descendant_def split: option.splits)

lemma top_child_Some: 
  "runs_ok R frags \<Longrightarrow> valid_pos R frags x \<Longrightarrow> top_child R frags x anc = Some c \<Longrightarrow>
     child_above R frags x anc c"
  using top_child_spec [of R frags x anc] by simp

end
