(* ===== verification/Placement_Walks.thy ===== *)
theory Placement_Walks
  imports Run_Items
begin

text \<open>
  The searches of \<open>integrate_impl\<close> on a consistent vector: \<open>skip_subtree\<close> passes exactly a
  subtree, and the walks over the right and over the left children of the parent end at a cut
  of the document order where the incoming item belongs (\<open>leaf_cut\<close>).
\<close>

section \<open>Cuts at positions\<close>

definition pre :: "('r, 'z) run_ops_scheme \<Rightarrow> 'r list \<Rightarrow> pos \<Rightarrow> identity set" where
  "pre R frags p = {w_id R frags q | q. valid_pos R frags q \<and> q < p}"

definition post :: "('r, 'z) run_ops_scheme \<Rightarrow> 'r list \<Rightarrow> pos \<Rightarrow> identity set" where
  "post R frags p = {w_id R frags q | q. valid_pos R frags q \<and> p \<le> q}"

abbreviation doc_lt :: "('r, 'z) run_ops_scheme \<Rightarrow> 'r list \<Rightarrow> identity \<Rightarrow> identity \<Rightarrow> bool" where
  "doc_lt R frags \<equiv> before (run_ids R frags)"

lemma pre_iff:
  "distinct (run_ids R frags) \<Longrightarrow> valid_pos R frags q \<Longrightarrow> w_id R frags q \<in> pre R frags p \<longleftrightarrow> q < p"
  unfolding pre_def using w_id_inject by blast

lemma post_iff:
  "distinct (run_ids R frags) \<Longrightarrow> valid_pos R frags q \<Longrightarrow> w_id R frags q \<in> post R frags p \<longleftrightarrow> p \<le> q"
  unfolding post_def using w_id_inject by blast

lemma pre_post_dom: "pre R frags p \<union> post R frags p = dom (links R frags)"
proof (intro equalityI subsetI)
  fix i
  assume "i \<in> pre R frags p \<union> post R frags p"
  then show "i \<in> dom (links R frags)"
    using valid_pos_mem set_run_ids unfolding pre_def post_def by blast
next
  fix i
  assume "i \<in> dom (links R frags)"
  then obtain q where "valid_pos R frags q" "w_id R frags q = i"
    using pos_of_id set_run_ids by metis
  then show "i \<in> pre R frags p \<union> post R frags p"
    unfolding pre_def post_def using not_less by blast
qed

lemma pre_before_post:
  assumes "distinct (run_ids R frags)" "a \<in> pre R frags p" "b \<in> post R frags p"
  shows "doc_lt R frags a b"
  using assms before_pos [OF assms(1)] less_le_trans unfolding pre_def post_def by blast

lemma pre_not_post: "distinct (run_ids R frags) \<Longrightarrow> a \<in> pre R frags p \<Longrightarrow> a \<notin> post R frags p"
  using pre_before_post before_irrefl by metis

lemma not_pre_post: "a \<in> dom (links R frags) \<Longrightarrow> a \<notin> pre R frags p \<Longrightarrow> a \<in> post R frags p"
  using pre_post_dom [of R frags p] by auto

lemma pre_closed:
  assumes ok: "runs_ok R frags" and "b \<in> pre R frags p" "doc_lt R frags a b"
  shows "a \<in> pre R frags p"
proof -
  note d = runs_ok_distinct [OF ok]
  have "a \<in> dom (links R frags)"
    using before_set [OF assms(3)] set_run_ids by metis
  then show ?thesis
    using not_pre_post pre_before_post [OF d assms(2), of a] assms(3) before_asym [OF d] by blast
qed

section \<open>Positions next to each other\<close>

lemma runs_ok_lengths: "runs_ok R frags \<Longrightarrow> \<forall>f \<in> set frags. 0 < run_length R f"
  by (simp add: runs_ok_def)

lemma norm_pos_cases:
  assumes "norm_pos R frags p"
  obtains "valid_pos R frags p" "\<not> w_at_end frags p" | "p = (length frags, 0)" "w_at_end frags p"
  using assms by (auto simp: norm_pos_def valid_pos_def w_at_end_def)

lemma valid_pos_less_end: "valid_pos R frags q \<Longrightarrow> q < (length frags, 0)"
  by (cases q) (simp add: valid_pos_def)

lemma post_end: "post R frags (length frags, 0) = {}"
  unfolding post_def using valid_pos_less_end leD by blast

lemma norm_pos_start:
  "\<forall>f \<in> set frags. 0 < run_length R f \<Longrightarrow> n \<le> length frags \<Longrightarrow> norm_pos R frags (n, 0)"
  by (auto simp: norm_pos_def valid_pos_def)

lemma w_next_norm:
  assumes "\<forall>f \<in> set frags. 0 < run_length R f" "valid_pos R frags p"
  shows "norm_pos R frags (w_next R frags p)"
  using assms norm_pos_start [of frags R "Suc (fst p)"]
  by (auto simp: w_next_def norm_pos_def valid_pos_def)

lemma w_next_less:
  assumes "valid_pos R frags q" "valid_pos R frags p"
  shows "q < w_next R frags p \<longleftrightarrow> q \<le> p"
  using assms by (cases p; cases q) (auto simp: w_next_def valid_pos_def less_Suc_eq)

lemma prev_pos_Some:
  assumes "\<forall>f \<in> set frags. 0 < run_length R f" "norm_pos R frags p" "prev_pos R frags p = Some b"
  shows "valid_pos R frags b" "b < p" "valid_pos R frags q \<Longrightarrow> q < p \<longleftrightarrow> q \<le> b"
proof -
  obtain n off where p: "p = (n, off)"
    by (cases p)
  show b: "valid_pos R frags b"
    using assms p by (auto simp: prev_pos_def norm_pos_def valid_pos_def split: if_splits)
  show "b < p"
    using assms(3) p by (auto simp: prev_pos_def split: if_splits)
  show "valid_pos R frags q \<Longrightarrow> q < p \<longleftrightarrow> q \<le> b"
    using assms(3) p by (cases q; cases n) (auto simp: prev_pos_def valid_pos_def less_Suc_eq
      less_Suc_eq_le split: if_splits)
qed

lemma prev_pos_None: "prev_pos R frags p = None \<Longrightarrow> p = (0, 0)"
  by (cases p) (auto simp: prev_pos_def split: if_splits)

section \<open>Skipping a subtree\<close>

abbreviation under :: "('r, 'z) run_ops_scheme \<Rightarrow> 'r list \<Rightarrow> pos \<Rightarrow> identity \<Rightarrow> bool" where
  "under R frags q root \<equiv> in_sub (links R frags) (w_id R frags q) root"

lemma skip_subtree_spec:
  assumes ok: "runs_ok R frags"
  shows "norm_pos R frags p \<Longrightarrow> q = skip_subtree R frags p root \<Longrightarrow>
    norm_pos R frags q \<and> p \<le> q \<and>
    (\<forall>r. valid_pos R frags r \<longrightarrow> p \<le> r \<longrightarrow> r < q \<longrightarrow> under R frags r root) \<and>
    (valid_pos R frags q \<longrightarrow> \<not> under R frags q root)"
proof (induction "length frags - fst p" arbitrary: p rule: less_induct)
  case less
  show ?case
  proof (cases "valid_pos R frags p \<and> under R frags p root")
    case True
    have stop: "w_id R frags p = root \<or> descendant R frags p (Some root)" "\<not> w_at_end frags p"
      using True descendant_correct [OF ok] by (auto simp: in_sub_def valid_pos_def w_at_end_def)
    have n: "fst p < length frags"
      using True by (simp add: valid_pos_def)
    have q: "q = skip_subtree R frags (fst p + 1, 0) root"
      using less.prems(2) stop by (subst (asm) skip_subtree.simps) auto
    have "norm_pos R frags (fst p + 1, 0)"
      using norm_pos_start [of frags R "fst p + 1"] runs_ok_lengths [OF ok] n by simp
    then have IH: "norm_pos R frags q" "(fst p + 1, 0) \<le> q" "valid_pos R frags q \<longrightarrow> \<not> under R frags q root"
      "\<And>r. valid_pos R frags r \<Longrightarrow> (fst p + 1, 0) \<le> r \<Longrightarrow> r < q \<Longrightarrow> under R frags r root"
      using less.hyps [of "(fst p + 1, 0)"] q n by auto
    moreover have "under R frags r root" if r: "valid_pos R frags r" "p \<le> r" "r < q" for r
    proof (cases "fst r = fst p")
      case True': True
      then have "under R frags r (w_id R frags p)"
        using in_sub_run_start [OF ok, of "fst r" "snd r" "snd p"] r by (cases r; cases p) auto
      then show ?thesis
        using True in_sub_trans by blast
    next
      case False
      then have "(fst p + 1, 0) \<le> r"
        using r(2) by (cases r; cases p) auto
      then show ?thesis
        using IH(4) r by blast
    qed
    moreover have "p \<le> q"
      using IH(2) by (cases p; cases q) auto
    ultimately show ?thesis
      by blast
  next
    case False
    have "w_at_end frags p \<or> \<not> (w_id R frags p = root \<or> descendant R frags p (Some root))"
      using less.prems(1) False descendant_correct [OF ok, of p "Some root"]
      by (auto simp: norm_pos_def in_sub_def w_at_end_def)
    then have "q = p"
      using less.prems(2) skip_subtree.simps [of R frags p root] by auto
    then show ?thesis
      using less.prems False by auto
  qed
qed

lemmas skip_subtree_norm = skip_subtree_spec [OF _ _ refl, THEN conjunct1]
lemmas skip_subtree_le = skip_subtree_spec [OF _ _ refl, THEN conjunct2, THEN conjunct1]
lemmas skip_subtree_under =
  skip_subtree_spec [OF _ _ refl, THEN conjunct2, THEN conjunct2, THEN conjunct1, rule_format]
lemmas skip_subtree_stop =
  skip_subtree_spec [OF _ _ refl, THEN conjunct2, THEN conjunct2, THEN conjunct2, rule_format]

section \<open>Cuts between the children of the parent\<close>

definition whole_cut :: "('r, 'z) run_ops_scheme \<Rightarrow> 'r list \<Rightarrow> identity option \<Rightarrow> pos \<Rightarrow> bool" where
  "whole_cut R frags par p \<longleftrightarrow>
     (\<forall>c lc a b. links R frags c = Some lc \<longrightarrow> parent lc = par \<longrightarrow> in_sub (links R frags) a c \<longrightarrow>
        in_sub (links R frags) b c \<longrightarrow> a \<in> pre R frags p \<longrightarrow> b \<notin> post R frags p)"

lemma whole_cutD:
  "whole_cut R frags par p \<Longrightarrow> links R frags c = Some lc \<Longrightarrow> parent lc = par \<Longrightarrow>
     in_sub (links R frags) a c \<Longrightarrow> in_sub (links R frags) b c \<Longrightarrow> a \<in> pre R frags p \<Longrightarrow>
     b \<notin> post R frags p"
  unfolding whole_cut_def by blast

lemma pre_mono: "p \<le> q \<Longrightarrow> a \<in> pre R frags p \<Longrightarrow> a \<in> pre R frags q"
  unfolding pre_def using less_le_trans by blast

lemma pre_step:
  assumes "a \<in> pre R frags q" "a \<notin> pre R frags p"
  obtains r where "valid_pos R frags r" "w_id R frags r = a" "p \<le> r" "r < q"
  using assms unfolding pre_def using not_less by blast

text \<open>The subtree found at a cut lies between the cut and the end of the skip.\<close>

lemma skip_covers:
  assumes ok: "runs_ok R frags" and p: "valid_pos R frags p" and ch: "child_above R frags p par ch"
    and whole: "whole_cut R frags par p" and q: "q = skip_subtree R frags p (w_id R frags ch)"
    and i: "in_sub (links R frags) i (w_id R frags ch)"
  shows "i \<in> post R frags p" "i \<in> pre R frags q"
proof -
  note d = runs_ok_distinct [OF ok]
  let ?root = "w_id R frags ch"
  have root: "links R frags ?root = Some (w_link R frags ch)" "parent (w_link R frags ch) = par"
    and under: "under R frags p ?root" and vch: "valid_pos R frags ch"
    using ch links_pos [OF d] by (auto simp: child_above_def)
  have idom: "i \<in> dom (links R frags)"
    using in_sub_dom [OF i] root(1) by blast
  then obtain r where r: "valid_pos R frags r" "w_id R frags r = i"
    using pos_of_id set_run_ids by metis
  have ppost: "w_id R frags p \<in> post R frags p"
    using post_iff [OF d p] by simp
  show ipost: "i \<in> post R frags p"
    using not_pre_post [OF idom] whole_cutD [OF whole root i under] ppost by blast
  have norm: "norm_pos R frags p"
    using p by (simp add: norm_pos_def)
  have pr: "p \<le> r"
    using ipost r post_iff [OF d r(1)] by blast
  show "i \<in> pre R frags q"
  proof (rule ccontr)
    assume "i \<notin> pre R frags q"
    then have qr: "q \<le> r"
      using r pre_iff [OF d r(1)] by (metis not_less)
    then have vq: "valid_pos R frags q"
      using skip_subtree_norm [OF ok norm, of ?root] valid_pos_less_end [OF r(1)]
      unfolding norm_pos_def q by fastforce
    have nq: "\<not> under R frags q ?root"
      using skip_subtree_stop [OF ok norm] vq q by blast
    then have "p < q" "q < r"
      using skip_subtree_le [OF ok norm, of ?root] qr r i under q by (metis le_less)+
    then have "in_sub (links R frags) (w_id R frags q) ?root"
      using fugue_convex [OF runs_ok_fugue [OF ok]] under i r p vq
        before_pos [OF d] valid_pos_mem set_run_ids by metis
    then show False
      using nq by blast
  qed
qed

lemma whole_skip:
  assumes ok: "runs_ok R frags" and p: "valid_pos R frags p" and ch: "child_above R frags p par ch"
    and whole: "whole_cut R frags par p" and q: "q = skip_subtree R frags p (w_id R frags ch)"
  shows "whole_cut R frags par q"
    and "links R frags c = Some lc \<Longrightarrow> parent lc = par \<Longrightarrow>
      c \<in> pre R frags q \<longleftrightarrow> c \<in> pre R frags p \<or> c = w_id R frags ch"
proof -
  note d = runs_ok_distinct [OF ok]
  let ?root = "w_id R frags ch" and ?L = "links R frags"
  obtain rank where ranked: "links_ranked ?L rank"
    using fugue_ranked [OF runs_ok_fugue [OF ok]] by blast
  have root: "?L ?root = Some (w_link R frags ch)" "parent (w_link R frags ch) = par"
    using ch links_pos [OF d] by (auto simp: child_above_def)
  have norm: "norm_pos R frags p"
    using p by (simp add: norm_pos_def)
  have pq: "p \<le> q"
    using skip_subtree_le [OF ok norm] q by blast
  note cov = skip_covers [OF ok p ch whole q]
  have old: "a \<in> pre R frags p"
    if c: "?L c = Some lc" "parent lc = par" "c \<noteq> ?root" "in_sub ?L a c" "a \<in> pre R frags q" for a c lc
  proof (rule ccontr)
    assume "a \<notin> pre R frags p"
    then obtain r where "valid_pos R frags r" "w_id R frags r = a" "p \<le> r" "r < q"
      using pre_step c(5) by metis
    then have "in_sub ?L a ?root"
      using skip_subtree_under [OF ok norm, of _ ?root] q by blast
    then show False
      using siblings_disjoint [OF ranked c(1) root(1)] c root(2) by simp
  qed
  show "whole_cut R frags par q"
    unfolding whole_cut_def
  proof (intro allI impI)
    fix c lc a b
    assume c: "?L c = Some lc" "parent lc = par" "in_sub ?L a c" "in_sub ?L b c" "a \<in> pre R frags q"
    have "b \<in> pre R frags q"
    proof (cases "c = ?root")
      case True
      then show ?thesis
        using cov(2) c by blast
    next
      case False
      then have "b \<notin> post R frags p"
        using old [OF c(1,2) _ c(3,5)] whole_cutD [OF whole c(1-4)] by blast
      then show ?thesis
        using not_pre_post [of b] in_sub_dom [OF c(4)] c(1) pre_mono [OF pq] by blast
    qed
    then show "b \<notin> post R frags q"
      using pre_not_post [OF d] by blast
  qed
  show "c \<in> pre R frags q \<longleftrightarrow> c \<in> pre R frags p \<or> c = ?root"
    if "?L c = Some lc" "parent lc = par"
    using old [OF that, of c] cov(2) [of ?root] pre_mono [OF pq, of c] by auto
qed

lemma skip_last:
  assumes ok: "runs_ok R frags" and p: "valid_pos R frags p" and under: "under R frags p root"
    and q: "q = skip_subtree R frags p root"
  obtains e where "valid_pos R frags e" "e < q" "under R frags e root"
    "\<And>r. valid_pos R frags r \<Longrightarrow> r < q \<Longrightarrow> r \<le> e"
proof -
  have norm: "norm_pos R frags p"
    using p by (simp add: norm_pos_def)
  have qn: "norm_pos R frags q" and le: "p \<le> q"
    using skip_subtree_norm [OF ok norm] skip_subtree_le [OF ok norm] q by blast+
  have "p \<noteq> q"
    using skip_subtree_stop [OF ok norm, of root] under p q by metis
  then have pq: "p < q"
    using le by simp
  then obtain e where e: "prev_pos R frags q = Some e"
    using prev_pos_None [of R frags q] by (cases "prev_pos R frags q"; cases p) auto
  note ep = prev_pos_Some [OF runs_ok_lengths [OF ok] qn e]
  have "p \<le> e"
    using ep(3) [OF p] pq by blast
  then have "under R frags e root"
    using skip_subtree_under [OF ok norm, of e root] ep q by blast
  then show thesis
    using that ep by blast
qed

section \<open>The right children\<close>

lemma later_origin_trans:
  assumes "strict_order_on S lt" "later_origin lt r s" "later_origin lt s t"
    and "\<forall>a. r = Some a \<longrightarrow> a \<in> S" "\<forall>a. s = Some a \<longrightarrow> a \<in> S" "\<forall>a. t = Some a \<longrightarrow> a \<in> S"
  shows "later_origin lt r t"
proof -
  obtain b where s: "s = Some b"
    using assms(2) by (cases r; cases s) auto
  obtain c where t: "t = Some c"
    using assms(3) s by (cases t) auto
  show ?thesis
  proof (cases r)
    case None
    then show ?thesis using t by simp
  next
    case (Some a)
    then have "lt b a" "lt c b" "a \<in> S" "b \<in> S" "c \<in> S"
      using assms(2-6) s t by simp_all
    then show ?thesis
      using strict_trans [OF assms(1), of c b a] Some t by simp
  qed
qed

definition origins_in :: "identity set \<Rightarrow> link \<Rightarrow> bool" where
  "origins_in S l \<longleftrightarrow> (\<forall>r. right_origin l = Some r \<longrightarrow> r \<in> S)"

lemma sibling_before_trans:
  assumes "strict_order_on S lt" "l_side lx = l_side ly" "l_side ly = l_side lz"
    and "origins_in S lx" "origins_in S ly" "origins_in S lz"
    and "sibling_before lt x lx y ly" "sibling_before lt y ly z lz"
  shows "sibling_before lt x lx z lz"
proof (cases "l_side lx")
  case Left
  then show ?thesis
    using assms(2,3,7,8) by (auto simp: sibling_before_def)
next
  case Right
  let ?later = "\<lambda>l m. later_origin lt (right_origin l) (right_origin m)"
  have "?later lx ly \<or> right_origin lx = right_origin ly \<and> x < y"
    "?later ly lz \<or> right_origin ly = right_origin lz \<and> y < z"
    using assms(2,3,7,8) Right by (simp_all add: sibling_before_def)
  moreover have "?later lx ly \<Longrightarrow> ?later ly lz \<Longrightarrow> ?later lx lz"
    using later_origin_trans [OF assms(1)] assms(4-6) unfolding origins_in_def by blast
  ultimately have "?later lx lz \<or> right_origin lx = right_origin lz \<and> x < z"
    by (metis less_trans)
  then show ?thesis
    using Right by (simp add: sibling_before_def)
qed

lemma sibling_before_flip:
  assumes "strict_order_on S lt" "x \<noteq> y" "l_side lx = l_side ly" "origins_in S lx" "origins_in S ly"
  shows "sibling_before lt y ly x lx \<longleftrightarrow> \<not> sibling_before lt x lx y ly"
  by (rule sibling_before_total [OF assms(1-3)]) (use assms(4,5) in \<open>auto simp: origins_in_def\<close>)

lemma origins_present:
  assumes "runs_ok R frags" "links R frags c = Some lc"
  shows "origins_in (dom (links R frags)) lc"
  unfolding origins_in_def
  using fugue_ranked [OF runs_ok_fugue [OF assms(1)]] links_ranked_origin [of "links R frags" _ c lc] assms(2)
  by blast

lemma w_rank_None: "w_rank R frags None = Some (length frags + 1, 0)"
  by (simp add: w_rank_def)

lemma w_rank_Some:
  assumes "runs_ok R frags"
  shows "w_rank R frags (Some i) = Some r \<longleftrightarrow> valid_pos R frags r \<and> w_id R frags r = i"
  using index_find_correct [OF assms] by (simp add: w_rank_def)

lemma w_rank_ex:
  assumes "runs_ok R frags" "origins_in (dom (links R frags)) l"
  shows "\<exists>r. w_rank R frags (right_origin l) = Some r"
proof (cases "right_origin l")
  case None
  then show ?thesis by (simp add: w_rank_None)
next
  case (Some i)
  then obtain p where "valid_pos R frags p" "w_id R frags p = i"
    using assms(2) pos_of_id [of i R frags] set_run_ids unfolding origins_in_def by metis
  then show ?thesis
    using Some w_rank_Some [OF assms(1), of i p] by auto
qed

lemma w_rank_compare:
  assumes ok: "runs_ok R frags" and r: "w_rank R frags ro = Some r" and s: "w_rank R frags so = Some s"
  shows "r > s \<longleftrightarrow> later_origin (doc_lt R frags) ro so" and "r = s \<longleftrightarrow> ro = so"
proof -
  note d = runs_ok_distinct [OF ok]
  have far: "q < (length frags + 1, 0)" "q \<noteq> (length frags + 1, 0)" if "valid_pos R frags q" for q
    using that by (cases q; auto simp: valid_pos_def)+
  have "(r > s \<longleftrightarrow> later_origin (doc_lt R frags) ro so) \<and> (r = s \<longleftrightarrow> ro = so)"
  proof (cases ro)
    case None
    show ?thesis
    proof (cases so)
      case None
      then show ?thesis using \<open>ro = None\<close> r s by (simp add: w_rank_None)
    next
      case (Some b)
      then have "valid_pos R frags s"
        using s w_rank_Some [OF ok] by blast
      then show ?thesis
        using Some \<open>ro = None\<close> r far [of s] by (simp add: w_rank_None)
    qed
  next
    case (Some a)
    then have ra: "valid_pos R frags r" "w_id R frags r = a"
      using r w_rank_Some [OF ok] by blast+
    show ?thesis
    proof (cases so)
      case None
      then show ?thesis
        using Some s far [OF ra(1)] by (auto simp: w_rank_None)
    next
      case (Some b)
      then have sb: "valid_pos R frags s" "w_id R frags s = b"
        using s w_rank_Some [OF ok] by blast+
      show ?thesis
        using before_pos [OF d sb(1) ra(1)] w_id_inject [OF d ra(1) sb(1)] ra sb Some \<open>ro = Some a\<close>
        by simp
    qed
  qed
  then show "r > s \<longleftrightarrow> later_origin (doc_lt R frags) ro so" "r = s \<longleftrightarrow> ro = so"
    by blast+
qed

definition right_inv ::
  "('r, 'z) run_ops_scheme \<Rightarrow> 'r list \<Rightarrow> identity \<Rightarrow> link \<Rightarrow> pos \<Rightarrow> bool" where
  "right_inv R frags x l p \<longleftrightarrow>
     norm_pos R frags p \<and> whole_cut R frags (parent l) p \<and>
     (\<forall>a. parent l = Some a \<longrightarrow> a \<in> pre R frags p \<and>
        (\<exists>e \<in> pre R frags p. in_sub (links R frags) e a \<and>
           (\<forall>b \<in> pre R frags p. b = e \<or> doc_lt R frags b e))) \<and>
     (\<forall>c lc. links R frags c = Some lc \<longrightarrow> parent lc = parent l \<longrightarrow> l_side lc = Right \<longrightarrow>
        c \<in> pre R frags p \<longrightarrow> sibling_before (doc_lt R frags) c lc x l)"

lemma right_invD:
  assumes "right_inv R frags x l p"
  shows right_inv_norm: "norm_pos R frags p"
    and right_inv_whole: "whole_cut R frags (parent l) p"
    and right_inv_parent: "parent l = Some a \<Longrightarrow> a \<in> pre R frags p"
    and right_inv_adjacent: "parent l = Some a \<Longrightarrow> \<exists>e \<in> pre R frags p. in_sub (links R frags) e a \<and>
           (\<forall>b \<in> pre R frags p. b = e \<or> doc_lt R frags b e)"
    and right_inv_sibling: "links R frags c = Some lc \<Longrightarrow> parent lc = parent l \<Longrightarrow> l_side lc = Right \<Longrightarrow>
        c \<in> pre R frags p \<Longrightarrow> sibling_before (doc_lt R frags) c lc x l"
  using assms unfolding right_inv_def by simp_all

lemma right_inv_cut:
  assumes ok: "runs_ok R frags" and inv: "right_inv R frags x l p" and side: "l_side l = Right"
    and origin: "origins_in (dom (links R frags)) l"
    and stop: "\<And>c lc. links R frags c = Some lc \<Longrightarrow> parent lc = parent l \<Longrightarrow> l_side lc = Right \<Longrightarrow>
        c \<in> post R frags p \<Longrightarrow> \<not> sibling_before (doc_lt R frags) c lc x l"
  shows "leaf_cut (links R frags) (doc_lt R frags) x l (pre R frags p) (post R frags p)"
  unfolding leaf_cut_def
proof (intro conjI allI impI)
  show "pre R frags p \<union> post R frags p = dom (links R frags)"
    by (rule pre_post_dom)
  show "\<forall>a \<in> pre R frags p. \<forall>b \<in> post R frags p. doc_lt R frags a b"
    using pre_before_post [OF runs_ok_distinct [OF ok]] by blast
  show "a \<in> (if l_side l = Right then pre R frags p else post R frags p)" if "parent l = Some a" for a
    using right_inv_parent [OF inv that] side by simp
  show "r \<in> dom (links R frags)" if "right_origin l = Some r" for r
    using origin that by (simp add: origins_in_def)
  show "\<exists>e. in_sub (links R frags) e a \<and>
      (e \<in> pre R frags p \<and> (\<forall>b \<in> pre R frags p. b = e \<or> doc_lt R frags b e) \<or>
       e \<in> post R frags p \<and> (\<forall>b \<in> post R frags p. b = e \<or> doc_lt R frags e b))"
    if "parent l = Some a" for a
    using right_inv_adjacent [OF inv that] by blast
  show "b \<notin> post R frags p" if "links R frags c = Some lc" "parent lc = parent l"
    "in_sub (links R frags) a c" "in_sub (links R frags) b c" "a \<in> pre R frags p" for c lc a b
    using whole_cutD [OF right_inv_whole [OF inv] that] .
  show "c \<in> pre R frags p \<longleftrightarrow> sibling_before (doc_lt R frags) c lc x l"
    if c: "links R frags c = Some lc" "parent lc = parent l" "l_side lc = l_side l" for c lc
    using right_inv_sibling [OF inv c(1,2)] stop [OF c(1,2)] c(3) side not_pre_post [of c R frags p] c(1)
    by auto
qed (use side in simp)

text \<open>The child found above a position behind the parent is a right child.\<close>

lemma child_above_right:
  assumes ok: "runs_ok R frags" and p: "valid_pos R frags p" and ch: "child_above R frags p par ch"
    and par: "\<And>a. par = Some a \<Longrightarrow> a \<in> pre R frags p"
  shows "l_side (w_link R frags ch) = Right"
proof (rule ccontr)
  note d = runs_ok_distinct [OF ok] and f = runs_ok_fugue [OF ok]
  assume "l_side (w_link R frags ch) \<noteq> Right"
  then have left: "l_side (w_link R frags ch) = Left"
    by (metis side.exhaust)
  have c: "links R frags (w_id R frags ch) = Some (w_link R frags ch)"
    "parent (w_link R frags ch) = par" "under R frags p (w_id R frags ch)"
    using ch links_pos [OF d] by (auto simp: child_above_def)
  then obtain a where a: "par = Some a"
    using fugue_left [OF f c(1) left] by auto
  then have "doc_lt R frags (w_id R frags p) a"
    using fugue_below [OF f c(1) _ c(3), of a] c(2) left by simp
  moreover have "doc_lt R frags a (w_id R frags p)"
    using pre_before_post [OF d par [OF a]] post_iff [OF d p] by blast
  ultimately show False
    using before_asym [OF d] by blast
qed

lemma right_stop_outside:
  assumes ok: "runs_ok R frags" and inv: "right_inv R frags x l p" and p: "valid_pos R frags p"
    and out: "\<not> desc (links R frags) (w_id R frags p) (parent l)"
    and c: "links R frags c = Some lc" "parent lc = parent l" "c \<in> post R frags p"
  shows False
proof -
  note d = runs_ok_distinct [OF ok] and f = runs_ok_fugue [OF ok]
  let ?L = "links R frags"
  obtain rank where ranked: "links_ranked ?L rank"
    using fugue_ranked [OF f] by blast
  have pdom: "w_id R frags p \<in> dom ?L"
    using valid_pos_mem [OF p] set_run_ids by metis
  obtain a where a: "parent l = Some a"
    using out desc_root [OF ranked pdom] by (cases "parent l") auto
  have ca: "desc ?L c (Some a)"
    using desc.child [of ?L c lc] c a by simp
  have apre: "a \<in> pre R frags p"
    using right_inv_parent [OF inv a] .
  have ppost: "w_id R frags p \<in> post R frags p"
    using post_iff [OF d p] by simp
  obtain r where r: "valid_pos R frags r" "w_id R frags r = c" "p \<le> r"
    using c(3) by (auto simp: post_def)
  have "p \<noteq> r"
    using out ca r a by auto
  then have "doc_lt R frags (w_id R frags p) c"
    using before_pos [OF d p r(1)] r by simp
  then have "in_sub ?L (w_id R frags p) a"
    using fugue_convex [OF f _ pdom _ in_sub_refl, of a c] ca pre_before_post [OF d apre ppost]
      desc_rank [OF ca ranked] c(1) unfolding in_sub_def by blast
  moreover have "w_id R frags p \<noteq> a"
    using pre_not_post [OF d apre] ppost by metis
  ultimately show False
    using out a by (auto simp: in_sub_def)
qed

lemma stop_before:
  assumes ok: "runs_ok R frags" and p: "valid_pos R frags p"
    and ch: "child_above R frags p par ch" and side: "l_side (w_link R frags ch) = l_side l"
    and whole: "whole_cut R frags par p" and l: "origins_in (dom (links R frags)) l"
    and x: "x \<notin> dom (links R frags)"
    and stop: "sibling_before (doc_lt R frags) x l (w_id R frags ch) (w_link R frags ch)"
    and c: "links R frags c = Some lc" "parent lc = par" "l_side lc = l_side l" "c \<in> post R frags p"
  shows "\<not> sibling_before (doc_lt R frags) c lc x l"
proof -
  note d = runs_ok_distinct [OF ok] and f = runs_ok_fugue [OF ok]
  let ?c = "w_id R frags ch" and ?lt = "doc_lt R frags"
  note ord = fugue_order [OF f]
  have h: "links R frags ?c = Some (w_link R frags ch)"
    "parent (w_link R frags ch) = par" "under R frags p ?c"
    using ch links_pos [OF d] by (auto simp: child_above_def)
  note org = origins_present [OF ok h(1)] origins_present [OF ok c(1)]
  have "sibling_before ?lt x l c lc"
  proof (cases "c = ?c")
    case True
    then show ?thesis
      using stop c h by simp
  next
    case False
    have "\<not> ?lt c ?c"
    proof
      assume "?lt c ?c"
      then have "?lt c (w_id R frags p)"
        using fugue_subtrees_ordered [OF f c(1) h(1) _ False in_sub_refl h(3)] c(2) h(2) by simp
      moreover obtain r where r: "valid_pos R frags r" "w_id R frags r = c" "p \<le> r"
        using c(4) by (auto simp: post_def)
      ultimately show False
        using before_pos [OF d r(1) p] r by simp
    qed
    then have "?lt ?c c"
      using strict_total [OF ord] False c(1) h(1) by blast
    then have "sibling_before ?lt ?c (w_link R frags ch) c lc"
      using fugue_sibling [OF f h(1) c(1)] False c h side by simp
    then show ?thesis
      using sibling_before_trans [OF ord _ _ l org stop] side c(3) by simp
  qed
  moreover have "c \<noteq> x"
    using x c(1) by blast
  ultimately show ?thesis
    using sibling_before_flip [OF ord, of x c l lc] l c(3) org(2) by auto
qed

lemma right_inv_skip:
  assumes ok: "runs_ok R frags" and inv: "right_inv R frags x l p" and p: "valid_pos R frags p"
    and ch: "child_above R frags p (parent l) ch"
    and go: "sibling_before (doc_lt R frags) (w_id R frags ch) (w_link R frags ch) x l"
    and q: "q = skip_subtree R frags p (w_id R frags ch)"
  shows "right_inv R frags x l q"
proof -
  note d = runs_ok_distinct [OF ok] and whole = right_inv_whole [OF inv]
  have h: "links R frags (w_id R frags ch) = Some (w_link R frags ch)"
    "parent (w_link R frags ch) = parent l" "under R frags p (w_id R frags ch)"
    using ch links_pos [OF d] by (auto simp: child_above_def)
  have norm: "norm_pos R frags p"
    using right_inv_norm [OF inv] .
  have pq: "p \<le> q"
    using skip_subtree_le [OF ok norm] q by blast
  obtain e where e: "valid_pos R frags e" "e < q" "under R frags e (w_id R frags ch)"
    "\<And>r. valid_pos R frags r \<Longrightarrow> r < q \<Longrightarrow> r \<le> e"
    using skip_last [OF ok p h(3) q] by blast
  have epre: "w_id R frags e \<in> pre R frags q"
    using e pre_iff [OF d e(1)] by blast
  have max: "b = w_id R frags e \<or> doc_lt R frags b (w_id R frags e)" if b: "b \<in> pre R frags q" for b
  proof -
    obtain r where r: "valid_pos R frags r" "w_id R frags r = b" "r < q"
      using b by (auto simp: pre_def)
    then show ?thesis
      using e(4) [OF r(1,3)] before_pos [OF d r(1) e(1)] by (cases "r = e") auto
  qed
  show ?thesis
    unfolding right_inv_def
  proof (intro conjI allI impI)
    show "norm_pos R frags q"
      using skip_subtree_norm [OF ok norm] q by blast
    show "whole_cut R frags (parent l) q"
      using whole_skip(1) [OF ok p ch whole q] .
    fix a
    assume a: "parent l = Some a"
    show "a \<in> pre R frags q"
      using pre_mono [OF pq] right_inv_parent [OF inv a] by blast
    have "in_sub (links R frags) (w_id R frags ch) a"
      using desc.child [of "links R frags" _, OF h(1)] h(2) a by (simp add: in_sub_def)
    then show "\<exists>e \<in> pre R frags q. in_sub (links R frags) e a \<and>
        (\<forall>b \<in> pre R frags q. b = e \<or> doc_lt R frags b e)"
      using in_sub_trans [OF e(3)] epre max by blast
  next
    fix c lc
    assume c: "links R frags c = Some lc" "parent lc = parent l" "l_side lc = Right" "c \<in> pre R frags q"
    then show "sibling_before (doc_lt R frags) c lc x l"
      using whole_skip(2) [OF ok p ch whole q c(1,2)] right_inv_sibling [OF inv c(1-3)] go h(1) by auto
  qed
qed

lemma right_walk_correct:
  assumes ok: "runs_ok R frags" and side: "l_side l = Right"
    and origin: "origins_in (dom (links R frags)) l" and x: "x \<notin> dom (links R frags)"
    and mine: "w_rank R frags (right_origin l) = Some mine"
  shows "right_inv R frags x l p \<Longrightarrow>
    \<exists>q. right_walk R frags x mine (parent l) p = Some q \<and> norm_pos R frags q \<and>
      leaf_cut (links R frags) (doc_lt R frags) x l (pre R frags q) (post R frags q)"
proof (induction "length frags - fst p" arbitrary: p rule: less_induct)
  case less
  note inv = less.prems and d = runs_ok_distinct [OF ok]
  from right_inv_norm [OF inv] show ?case
  proof (cases rule: norm_pos_cases)
    case 2
    then have "post R frags p = {}"
      using post_end by simp
    then have "leaf_cut (links R frags) (doc_lt R frags) x l (pre R frags p) (post R frags p)"
      by (intro right_inv_cut [OF ok inv side origin]) simp
    then show ?thesis
      using 2 right_inv_norm [OF inv] by (subst right_walk.simps) simp
  next
    case 1
    note p = 1(1)
    show ?thesis
    proof (cases "top_child R frags p (parent l)")
      case None
      then have "\<not> desc (links R frags) (w_id R frags p) (parent l)"
        using top_child_spec [OF ok p, of "parent l"] by simp
      then have "leaf_cut (links R frags) (doc_lt R frags) x l (pre R frags p) (post R frags p)"
        using right_inv_cut [OF ok inv side origin] right_stop_outside [OF ok inv p] by blast
      then show ?thesis
        using 1 None right_inv_norm [OF inv] by (subst right_walk.simps) simp
    next
      case (Some ch)
      have ch: "child_above R frags p (parent l) ch"
        using top_child_Some [OF ok p Some] .
      have chs: "l_side (w_link R frags ch) = Right"
        using child_above_right [OF ok p ch right_inv_parent [OF inv]] by blast
      have lch: "links R frags (w_id R frags ch) = Some (w_link R frags ch)"
        using ch links_pos [OF d] by (auto simp: child_above_def)
      obtain theirs where theirs: "w_rank R frags (right_origin (w_link R frags ch)) = Some theirs"
        using w_rank_ex [OF ok origins_present [OF ok lch]] by blast
      define stop where "stop \<longleftrightarrow> mine > theirs \<or> (mine = theirs \<and> x < w_id R frags ch)"
      have stop_iff: "stop \<longleftrightarrow> sibling_before (doc_lt R frags) x l (w_id R frags ch) (w_link R frags ch)"
        using w_rank_compare [OF ok mine theirs] side by (simp add: stop_def sibling_before_def)
      have walk: "right_walk R frags x mine (parent l) p = (if stop then Some p
          else right_walk R frags x mine (parent l) (skip_subtree R frags p (w_id R frags ch)))"
        using 1(2) Some theirs by (subst right_walk.simps) (simp add: stop_def)
      show ?thesis
      proof (cases stop)
        case True
        then have "leaf_cut (links R frags) (doc_lt R frags) x l (pre R frags p) (post R frags p)"
          using right_inv_cut [OF ok inv side origin]
            stop_before [OF ok p ch _ right_inv_whole [OF inv] origin x] chs side stop_iff by metis
        then show ?thesis
          using walk True right_inv_norm [OF inv] by simp
      next
        case False
        have "w_id R frags ch \<noteq> x"
          using x lch by blast
        then have "sibling_before (doc_lt R frags) (w_id R frags ch) (w_link R frags ch) x l"
          using sibling_before_flip [OF fugue_order [OF runs_ok_fugue [OF ok]], of x "w_id R frags ch"]
            origin origins_present [OF ok lch] side chs False stop_iff by auto
        then have "right_inv R frags x l (skip_subtree R frags p (w_id R frags ch))"
          using right_inv_skip [OF ok inv p ch] by blast
        moreover have "length frags - fst (skip_subtree R frags p (w_id R frags ch)) < length frags - fst p"
          using skip_subtree_progress [OF 1(2) Some] 1(2) by (simp add: w_at_end_def)
        ultimately show ?thesis
          using less.hyps walk False by auto
      qed
    qed
  qed
qed

text \<open>Where the walk over the right children starts.\<close>

lemma right_inv_root:
  assumes "runs_ok R frags" "parent l = None"
  shows "right_inv R frags x l (0, 0)"
proof -
  have "pre R frags (0, 0) = {}"
    by (auto simp: pre_def)
  then show ?thesis
    using assms norm_pos_start [OF runs_ok_lengths [OF assms(1)], of 0]
    by (simp add: right_inv_def whole_cut_def)
qed

lemma right_inv_start:
  assumes ok: "runs_ok R frags" and a: "parent l = Some a" and pp: "valid_pos R frags pp" "w_id R frags pp = a"
  shows "right_inv R frags x l (w_next R frags pp)"
proof -
  note d = runs_ok_distinct [OF ok] and f = runs_ok_fugue [OF ok]
  let ?p = "w_next R frags pp"
  have pre: "i \<in> pre R frags ?p \<longleftrightarrow> i = a \<or> doc_lt R frags i a" for i
  proof
    assume "i \<in> pre R frags ?p"
    then obtain r where r: "valid_pos R frags r" "w_id R frags r = i" "r < ?p"
      by (auto simp: pre_def)
    then show "i = a \<or> doc_lt R frags i a"
      using w_next_less [OF r(1) pp(1)] before_pos [OF d r(1) pp(1)] pp(2) by (auto simp: le_less)
  next
    assume i: "i = a \<or> doc_lt R frags i a"
    then have "i \<in> set (run_ids R frags)"
      using valid_pos_mem [OF pp(1)] before_set pp(2) by metis
    then obtain r where r: "valid_pos R frags r" "w_id R frags r = i"
      using pos_of_id by metis
    then have "r \<le> pp"
      using i before_pos [OF d r(1) pp(1)] w_id_inject [OF d r(1) pp(1)] pp(2) by auto
    then show "i \<in> pre R frags ?p"
      using pre_iff [OF d r(1), of ?p] w_next_less [OF r(1) pp(1)] r(2) by blast
  qed
  have side: "l_side lc = Left" if "links R frags c = Some lc" "parent lc = Some a"
    "in_sub (links R frags) i c" "i \<in> pre R frags ?p" for c lc i
  proof (rule ccontr)
    assume "l_side lc \<noteq> Left"
    then have "doc_lt R frags a i"
      using fugue_below [OF f that(1-3)] by (metis side.exhaust)
    then show False
      using that(4) pre before_asym [OF d] before_irrefl [OF d] by metis
  qed
  have whole: "whole_cut R frags (parent l) ?p"
    unfolding whole_cut_def
  proof (intro allI impI)
    fix c lc i j
    assume c: "links R frags c = Some lc" "parent lc = parent l" "in_sub (links R frags) i c"
      "in_sub (links R frags) j c" "i \<in> pre R frags ?p"
    then have "l_side lc = Left"
      using side a by simp
    then have "doc_lt R frags j a"
      using fugue_below [OF f c(1) _ c(4)] c(2) a by auto
    then show "j \<notin> post R frags ?p"
      using pre pre_not_post [OF d] by blast
  qed
  show ?thesis
    unfolding right_inv_def
  proof (intro conjI allI impI)
    show "norm_pos R frags ?p"
      using w_next_norm [OF runs_ok_lengths [OF ok] pp(1)] .
    fix b
    assume "parent l = Some b"
    then have "b = a"
      using a by simp
    then show "b \<in> pre R frags ?p" "\<exists>e \<in> pre R frags ?p. in_sub (links R frags) e b \<and>
        (\<forall>i \<in> pre R frags ?p. i = e \<or> doc_lt R frags i e)"
      using pre in_sub_refl by blast+
  next
    fix c lc
    assume "links R frags c = Some lc" "parent lc = parent l" "l_side lc = Right" "c \<in> pre R frags ?p"
    then show "sibling_before (doc_lt R frags) c lc x l"
      using side [of c lc c] a by simp
  qed (rule whole)
qed

theorem place_right_correct:
  assumes ok: "runs_ok R frags" and side: "l_side (run_link R inc) = Right"
    and x: "origin R inc \<notin> dom (links R frags)"
    and par: "\<forall>a. parent (run_link R inc) = Some a \<longrightarrow> a \<in> dom (links R frags)"
    and org: "origins_in (dom (links R frags)) (run_link R inc)"
  shows "\<exists>q. place_right R frags inc = Some q \<and> norm_pos R frags q \<and>
    leaf_cut (links R frags) (doc_lt R frags) (origin R inc) (run_link R inc)
      (pre R frags q) (post R frags q)"
proof -
  let ?l = "run_link R inc"
  obtain mine where mine: "w_rank R frags (right_origin ?l) = Some mine"
    using w_rank_ex [OF ok org] by blast
  note walk = right_walk_correct [OF ok side org x mine]
  show ?thesis
  proof (cases "parent ?l")
    case None
    then show ?thesis
      using walk [OF right_inv_root [OF ok None]] mine by (simp add: place_right_def Let_def)
  next
    case (Some a)
    then obtain pp where pp: "valid_pos R frags pp" "w_id R frags pp = a"
      using par pos_of_id set_run_ids by metis
    then have "index_find R frags a = Some pp"
      using index_find_correct [OF ok] by blast
    then show ?thesis
      using walk [OF right_inv_start [OF ok Some pp]] mine Some by (simp add: place_right_def Let_def)
  qed
qed

end
