(* ===== verification/Placement_Left.thy ===== *)
theory Placement_Left
  imports Placement_Walks
begin

text \<open>
  The search for a left child: \<open>left_start\<close> goes back to the first item below the parent, and
  \<open>left_walk\<close> from there over the left children to the place of the incoming item.
\<close>

definition below_upto :: "('r, 'z) run_ops_scheme \<Rightarrow> 'r list \<Rightarrow> pos \<Rightarrow> pos \<Rightarrow> bool" where
  "below_upto R frags pp p \<longleftrightarrow> valid_pos R frags p \<and> p \<le> pp \<and>
     (\<forall>r. valid_pos R frags r \<longrightarrow> p \<le> r \<longrightarrow> r < pp \<longrightarrow>
        desc (links R frags) (w_id R frags r) (Some (w_id R frags pp)))"

lemma below_upto_refl: "valid_pos R frags pp \<Longrightarrow> below_upto R frags pp pp"
  unfolding below_upto_def using leD by blast

lemma below_uptoD: 
  "below_upto R frags pp p \<Longrightarrow> valid_pos R frags r \<Longrightarrow> p \<le> r \<Longrightarrow> r < pp \<Longrightarrow>
     desc (links R frags) (w_id R frags r) (Some (w_id R frags pp))"
  unfolding below_upto_def by blast

lemma below_upto_back:
  assumes ok: "runs_ok R frags" and pp: "valid_pos R frags pp" and below: "below_upto R frags pp s"
    and b: "prev_pos R frags s = Some b" "descendant R frags b (Some (w_id R frags pp))"
  shows "below_upto R frags pp (fst b, 0)"
proof -
  note d = runs_ok_distinct [OF ok]
  let ?L = "links R frags" and ?a = "w_id R frags pp"
  have s: "valid_pos R frags s" "s \<le> pp"
    using below by (simp_all add: below_upto_def)
  note bp = prev_pos_Some [OF runs_ok_lengths [OF ok] _ b(1)]
  have norm: "norm_pos R frags s"
    using s by (simp add: norm_pos_def)
  obtain n off where bn: "b = (n, off)"
    by (cases b)
  have vb: "valid_pos R frags (n, off)" "b < pp"
    using bp(1,2) [OF norm] s(2) bn by auto
  have "desc ?L (w_id R frags (n, off)) (Some ?a)"
    using descendant_correct [OF ok vb(1)] b(2) bn by blast
  moreover have "\<not> in_run_before R (frags ! n) off (Some ?a)"
  proof
    assume "in_run_before R (frags ! n) off (Some ?a)"
    then obtain k where k: "k < off" "?a = w_id R frags (n, k)"
      by (auto simp: in_run_before_iff)
    then have "pp = (n, k)"
      using w_id_inject [OF d pp valid_pos_le [OF vb(1), of k]] by simp
    then show False
      using vb(2) bn k(1) by simp
  qed
  ultimately have head: "desc ?L (w_id R frags (n, 0)) (Some ?a)"
    using desc_in_run [OF ok vb(1)] by blast
  have "desc ?L (w_id R frags r) (Some ?a)" if r: "valid_pos R frags r" "(n, 0) \<le> r" "r < pp" for r
  proof (cases "r \<le> b")
    case True
    then have "fst r = n"
      using r(2) bn by (cases r) auto
    then have "in_sub ?L (w_id R frags r) (w_id R frags (n, 0))"
      using in_sub_run_start [OF ok, of "fst r" "snd r" 0] r(1) by (metis le0 prod.collapse)
    then show ?thesis
      using head desc_trans unfolding in_sub_def by metis
  next
    case False
    then have "s \<le> r"
      using bp(3) [OF norm r(1)] by auto
    then show ?thesis
      using below r unfolding below_upto_def by blast
  qed
  moreover have "(n, 0) \<le> pp"
    using vb(2) bn by (cases pp) auto
  ultimately show ?thesis
    using valid_pos_le [OF vb(1), of 0] bn by (simp add: below_upto_def)
qed

lemma below_upto_stop:
  assumes ok: "runs_ok R frags" and pp: "valid_pos R frags pp" and below: "below_upto R frags pp s"
    and stop: "\<And>b. prev_pos R frags s = Some b \<Longrightarrow> \<not> descendant R frags b (Some (w_id R frags pp))"
    and i: "desc (links R frags) i (Some (w_id R frags pp))"
  shows "i \<in> post R frags s"
proof (rule ccontr)
  note d = runs_ok_distinct [OF ok] and f = runs_ok_fugue [OF ok]
  let ?L = "links R frags" and ?a = "w_id R frags pp"
  assume "i \<notin> post R frags s"
  then have "i \<in> pre R frags s"
    using pre_post_dom desc_dom [OF i] by blast
  then obtain r where r: "valid_pos R frags r" "w_id R frags r = i" "r < s"
    by (auto simp: pre_def)
  have s: "norm_pos R frags s" "s \<le> pp"
    using below by (simp_all add: below_upto_def norm_pos_def)
  obtain b where b: "prev_pos R frags s = Some b"
    using prev_pos_None [of R frags s] r(3) by (cases "prev_pos R frags s"; cases r) auto
  note bp = prev_pos_Some [OF runs_ok_lengths [OF ok] s(1) b]
  have bpp: "b < pp"
    using bp(2) s(2) by simp
  have dom: "i \<in> dom ?L" "w_id R frags b \<in> dom ?L" "?a \<in> dom ?L"
    using valid_pos_mem set_run_ids r bp(1) pp by metis+
  have "in_sub ?L (w_id R frags b) ?a"
  proof (cases "r = b")
    case True
    then show ?thesis
      using i r by (simp add: in_sub_def)
  next
    case False
    then have "doc_lt R frags i (w_id R frags b)" "doc_lt R frags (w_id R frags b) ?a"
      using bp(3) [OF r(1)] r before_pos [OF d r(1) bp(1)] before_pos [OF d bp(1) pp] bpp by auto
    moreover have "in_sub ?L i ?a"
      using i by (simp add: in_sub_def)
    ultimately show ?thesis
      using fugue_convex [OF f dom, of ?a] in_sub_refl by blast
  qed
  moreover have "w_id R frags b \<noteq> ?a"
    using w_id_inject [OF d bp(1) pp] bpp by auto
  ultimately show False
    using stop [OF b] descendant_correct [OF ok bp(1)] by (simp add: in_sub_def)
qed

lemma left_start_correct:
  assumes ok: "runs_ok R frags" and pp: "valid_pos R frags pp" and a: "w_id R frags pp = a"
  shows "below_upto R frags pp s \<Longrightarrow> q = left_start R frags (Some a) s \<Longrightarrow>
    below_upto R frags pp q \<and> (\<forall>i. desc (links R frags) i (Some a) \<longrightarrow> i \<in> post R frags q)"
proof (induction "2 * fst s + (if snd s > 0 then 1 else 0)" arbitrary: s rule: less_induct)
  case less
  show ?case
  proof (cases "\<exists>b. prev_pos R frags s = Some b \<and> descendant R frags b (Some a)")
    case True
    then obtain b where b: "prev_pos R frags s = Some b" "descendant R frags b (Some a)"
      by blast
    have "q = left_start R frags (Some a) (fst b, 0)"
      using less.prems(2) b left_start.simps [of R frags "Some a" s] by simp
    moreover have "below_upto R frags pp (fst b, 0)"
      using below_upto_back [OF ok pp less.prems(1) b(1)] b(2) a by simp
    moreover have "2 * fst b < 2 * fst s + (if snd s > 0 then 1 else 0)"
      using b(1) by (auto simp: prev_pos_def split: if_splits)
    ultimately show ?thesis
      using less.hyps [of "(fst b, 0)"] by simp
  next
    case False
    then have "q = s"
      using less.prems(2) left_start.simps [of R frags "Some a" s] by (auto split: option.splits)
    then show ?thesis
      using less.prems(1) below_upto_stop [OF ok pp less.prems(1)] False a by blast
  qed
qed

definition left_inv ::
  "('r, 'z) run_ops_scheme \<Rightarrow> 'r list \<Rightarrow> identity \<Rightarrow> link \<Rightarrow> pos \<Rightarrow> pos \<Rightarrow> bool" where
  "left_inv R frags x l pp p \<longleftrightarrow>
     below_upto R frags pp p \<and> whole_cut R frags (parent l) p \<and>
     (\<forall>c lc. links R frags c = Some lc \<longrightarrow> parent lc = parent l \<longrightarrow> l_side lc = Left \<longrightarrow>
        c \<in> pre R frags p \<longrightarrow> sibling_before (doc_lt R frags) c lc x l)"

lemma left_invD:
  assumes "left_inv R frags x l pp p"
  shows left_inv_below: "below_upto R frags pp p"
    and left_inv_whole: "whole_cut R frags (parent l) p"
    and left_inv_sibling: "links R frags c = Some lc \<Longrightarrow> parent lc = parent l \<Longrightarrow> l_side lc = Left \<Longrightarrow>
        c \<in> pre R frags p \<Longrightarrow> sibling_before (doc_lt R frags) c lc x l"
  using assms unfolding left_inv_def by simp_all

lemma post_min:
  assumes "distinct (run_ids R frags)" "valid_pos R frags p" "b \<in> post R frags p"
  shows "b = w_id R frags p \<or> doc_lt R frags (w_id R frags p) b"
proof -
  obtain r where r: "valid_pos R frags r" "w_id R frags r = b" "p \<le> r"
    using assms(3) by (auto simp: post_def)
  then show ?thesis
    using before_pos [OF assms(1,2) r(1)] by (cases "p = r") auto
qed

lemma left_inv_cut:
  assumes ok: "runs_ok R frags" and inv: "left_inv R frags x l pp p" and side: "l_side l = Left"
    and par: "parent l = Some (w_id R frags pp)" and pp: "valid_pos R frags pp"
    and origin: "origins_in (dom (links R frags)) l"
    and stop: "\<And>c lc. links R frags c = Some lc \<Longrightarrow> parent lc = parent l \<Longrightarrow> l_side lc = l_side l \<Longrightarrow>
        c \<in> post R frags p \<Longrightarrow> \<not> sibling_before (doc_lt R frags) c lc x l"
  shows "leaf_cut (links R frags) (doc_lt R frags) x l (pre R frags p) (post R frags p)"
  unfolding leaf_cut_def
proof (intro conjI allI impI)
  note d = runs_ok_distinct [OF ok]
  have p: "valid_pos R frags p" "p \<le> pp"
    using left_inv_below [OF inv] by (simp_all add: below_upto_def)
  show "pre R frags p \<union> post R frags p = dom (links R frags)"
    by (rule pre_post_dom)
  show "\<forall>a \<in> pre R frags p. \<forall>b \<in> post R frags p. doc_lt R frags a b"
    using pre_before_post [OF d] by blast
  show "a \<in> (if l_side l = Right then pre R frags p else post R frags p)" if "parent l = Some a" for a
    using that par side post_iff [OF d pp] p(2) by auto
  show "r \<in> dom (links R frags)" if "right_origin l = Some r" for r
    using origin that by (simp add: origins_in_def)
  show "\<exists>e. in_sub (links R frags) e a \<and>
      (e \<in> pre R frags p \<and> (\<forall>b \<in> pre R frags p. b = e \<or> doc_lt R frags b e) \<or>
       e \<in> post R frags p \<and> (\<forall>b \<in> post R frags p. b = e \<or> doc_lt R frags e b))"
    if a: "parent l = Some a" for a
  proof -
    have "in_sub (links R frags) (w_id R frags p) a"
      using below_uptoD [OF left_inv_below [OF inv] p(1)] p(2) a par
      by (cases "p = pp") (auto simp: in_sub_def)
    then show ?thesis
      using post_min [OF d p(1)] post_iff [OF d p(1), of p] by blast
  qed
  show "b \<notin> post R frags p" if "links R frags c = Some lc" "parent lc = parent l"
    "in_sub (links R frags) a c" "in_sub (links R frags) b c" "a \<in> pre R frags p" for c lc a b
    using whole_cutD [OF left_inv_whole [OF inv] that] .
  show "c \<in> pre R frags p \<longleftrightarrow> sibling_before (doc_lt R frags) c lc x l"
    if c: "links R frags c = Some lc" "parent lc = parent l" "l_side lc = l_side l" for c lc
    using left_inv_sibling [OF inv c(1,2)] stop [OF c] c(3) side not_pre_post [of c R frags p] c(1)
    by auto
qed (use par in simp)

lemma child_above_left:
  assumes ok: "runs_ok R frags" and p: "valid_pos R frags p" "p < pp" and pp: "valid_pos R frags pp"
    and ch: "child_above R frags p (Some (w_id R frags pp)) ch"
  shows "l_side (w_link R frags ch) = Left"
proof (rule ccontr)
  note d = runs_ok_distinct [OF ok] and f = runs_ok_fugue [OF ok]
  assume "l_side (w_link R frags ch) \<noteq> Left"
  then have "l_side (w_link R frags ch) = Right"
    by (metis side.exhaust)
  moreover have "links R frags (w_id R frags ch) = Some (w_link R frags ch)"
    "parent (w_link R frags ch) = Some (w_id R frags pp)" "under R frags p (w_id R frags ch)"
    using ch links_pos [OF d] by (auto simp: child_above_def)
  ultimately have "doc_lt R frags (w_id R frags pp) (w_id R frags p)"
    using fugue_below [OF f] by fastforce
  then show False
    using before_pos [OF d pp p(1)] p(2) by simp
qed

lemma left_inv_skip:
  assumes ok: "runs_ok R frags" and inv: "left_inv R frags x l pp p" and p: "p < pp"
    and pp: "valid_pos R frags pp" and par: "parent l = Some (w_id R frags pp)"
    and ch: "child_above R frags p (parent l) ch"
    and go: "sibling_before (doc_lt R frags) (w_id R frags ch) (w_link R frags ch) x l"
    and q: "q = skip_subtree R frags p (w_id R frags ch)"
  shows "left_inv R frags x l pp q"
proof -
  note d = runs_ok_distinct [OF ok] and whole = left_inv_whole [OF inv] and f = runs_ok_fugue [OF ok]
  let ?L = "links R frags"
  have v: "valid_pos R frags p"
    using left_inv_below [OF inv] by (simp add: below_upto_def)
  have norm: "norm_pos R frags p"
    using v by (simp add: norm_pos_def)
  have h: "?L (w_id R frags ch) = Some (w_link R frags ch)" "parent (w_link R frags ch) = parent l"
    using ch links_pos [OF d] by (auto simp: child_above_def)
  have pq: "p \<le> q"
    using skip_subtree_le [OF ok norm] q by blast
  obtain rank where ranked: "links_ranked ?L rank"
    using fugue_ranked [OF f] by blast
  have "\<not> in_sub ?L (w_id R frags pp) (w_id R frags ch)"
    using in_sub_rank [OF ranked] links_ranked_parent [OF ranked h(1)] h(2) par by (metis not_le)
  then have qpp: "q \<le> pp"
    using skip_subtree_under [OF ok norm pp, of "w_id R frags ch"] p q by (metis less_imp_le not_le)
  have vq: "valid_pos R frags q"
    using skip_subtree_norm [OF ok norm] q qpp valid_pos_less_end [OF pp] unfolding norm_pos_def
    by (metis leD)
  have "below_upto R frags pp q"
    using left_inv_below [OF inv] vq qpp pq unfolding below_upto_def by (meson order_trans)
  moreover have "sibling_before (doc_lt R frags) c lc x l"
    if c: "?L c = Some lc" "parent lc = parent l" "l_side lc = Left" "c \<in> pre R frags q" for c lc
    using whole_skip(2) [OF ok v ch whole q c(1,2)] left_inv_sibling [OF inv c(1-3)] go h(1) c by auto
  ultimately show ?thesis
    unfolding left_inv_def using whole_skip(1) [OF ok v ch whole q] by blast
qed

lemma left_walk_correct:
  assumes ok: "runs_ok R frags" and side: "l_side l = Left" and pp: "valid_pos R frags pp"
    and par: "parent l = Some (w_id R frags pp)"
    and origin: "origins_in (dom (links R frags)) l" and x: "x \<notin> dom (links R frags)"
  shows "left_inv R frags x l pp p \<Longrightarrow> q = left_walk R frags x (parent l) pp p \<Longrightarrow>
    norm_pos R frags q \<and>
    leaf_cut (links R frags) (doc_lt R frags) x l (pre R frags q) (post R frags q)"
proof (induction "length frags - fst p" arbitrary: p rule: less_induct)
  case less
  note inv = less.prems(1) and d = runs_ok_distinct [OF ok] and f = runs_ok_fugue [OF ok]
  note cut = left_inv_cut [OF ok inv side par pp origin]
  have v: "valid_pos R frags p" "p \<le> pp" "\<not> w_at_end frags p"
    using left_inv_below [OF inv] by (simp_all add: below_upto_def valid_pos_def w_at_end_def)
  have norm: "norm_pos R frags p"
    using v by (simp add: norm_pos_def)
  note walk = less.prems(2) [unfolded left_walk.simps [of R frags x "parent l" pp p]]
  show ?case
  proof (cases "p = pp")
    case True
    have "c \<notin> post R frags p" if c: "links R frags c = Some lc" "parent lc = parent l" "l_side lc = l_side l" for c lc
    proof
      assume "c \<in> post R frags p"
      moreover have "doc_lt R frags c (w_id R frags pp)"
        using fugue_side [OF f c(1)] c(2,3) par side by simp
      ultimately show False
        using post_min [OF d v(1)] True before_asym [OF d] before_irrefl [OF d] by metis
    qed
    then show ?thesis
      using cut walk True norm by auto
  next
    case False
    then have lt: "p < pp"
      using v(2) by simp
    have "desc (links R frags) (w_id R frags p) (parent l)"
      using below_uptoD [OF left_inv_below [OF inv] v(1)] lt par by simp
    then obtain ch where top: "top_child R frags p (parent l) = Some ch"
      using top_child_spec [OF ok v(1), of "parent l"] by (cases "top_child R frags p (parent l)") auto
    have ch: "child_above R frags p (parent l) ch"
      using top_child_Some [OF ok v(1) top] .
    have chs: "l_side (w_link R frags ch) = Left"
      using child_above_left [OF ok v(1) lt pp] ch par by simp
    have lch: "links R frags (w_id R frags ch) = Some (w_link R frags ch)"
      using ch links_pos [OF d] by (auto simp: child_above_def)
    have "w_id R frags ch \<noteq> x"
      using x lch by blast
    then have flip: "x < w_id R frags ch \<longleftrightarrow> \<not> w_id R frags ch < x"
      by auto
    show ?thesis
    proof (cases "x < w_id R frags ch")
      case True
      then have "sibling_before (doc_lt R frags) x l (w_id R frags ch) (w_link R frags ch)"
        using side by (simp add: sibling_before_def)
      then have "leaf_cut (links R frags) (doc_lt R frags) x l (pre R frags p) (post R frags p)"
        using cut stop_before [OF ok v(1) ch _ left_inv_whole [OF inv] origin x] chs side by metis
      moreover have "q = p"
        using walk False v(3) top True by simp
      ultimately show ?thesis
        using norm by simp
    next
      case go: False
      then have "sibling_before (doc_lt R frags) (w_id R frags ch) (w_link R frags ch) x l"
        using chs flip by (simp add: sibling_before_def)
      then have "left_inv R frags x l pp (skip_subtree R frags p (w_id R frags ch))"
        using left_inv_skip [OF ok inv lt pp par ch] by blast
      moreover have "length frags - fst (skip_subtree R frags p (w_id R frags ch)) < length frags - fst p"
        using skip_subtree_progress [OF v(3) top] v(3) by (simp add: w_at_end_def)
      moreover have "q = left_walk R frags x (parent l) pp (skip_subtree R frags p (w_id R frags ch))"
        using walk False v(3) top go by simp
      ultimately show ?thesis
        using less.hyps by blast
    qed
  qed
qed

theorem place_left_correct:
  assumes ok: "runs_ok R frags" and side: "l_side (run_link R inc) = Left"
    and x: "origin R inc \<notin> dom (links R frags)"
    and par: "parent (run_link R inc) = Some a" "a \<in> dom (links R frags)"
    and org: "origins_in (dom (links R frags)) (run_link R inc)"
  shows "\<exists>q. place_left R frags inc = Some q \<and> norm_pos R frags q \<and>
    leaf_cut (links R frags) (doc_lt R frags) (origin R inc) (run_link R inc)
      (pre R frags q) (post R frags q)"
proof -
  note d = runs_ok_distinct [OF ok] and f = runs_ok_fugue [OF ok]
  let ?l = "run_link R inc" and ?L = "links R frags"
  obtain pp where pp: "valid_pos R frags pp" "w_id R frags pp = a"
    using par(2) pos_of_id set_run_ids by metis
  define s where "s = left_start R frags (Some a) pp"
  have s: "below_upto R frags pp s" "\<And>i. desc ?L i (Some a) \<Longrightarrow> i \<in> post R frags s"
    using left_start_correct [OF ok pp below_upto_refl [OF pp(1)] s_def] by blast+
  have none: False if "?L c = Some lc" "parent lc = Some a" "in_sub ?L i c" "i \<in> pre R frags s" for c lc i
  proof -
    have "desc ?L i (Some a)"
      using that(3) desc.child [of ?L c lc] that(1,2) desc_trans [of ?L i c]
      unfolding in_sub_def by metis
    then show False
      using s(2) pre_not_post [OF d that(4)] by blast
  qed
  have "left_inv R frags (origin R inc) ?l pp s"
    unfolding left_inv_def whole_cut_def using s(1) none none [OF _ _ in_sub_refl] par(1) by metis
  then have "norm_pos R frags (left_walk R frags (origin R inc) (parent ?l) pp s) \<and>
      leaf_cut ?L (doc_lt R frags) (origin R inc) ?l
        (pre R frags (left_walk R frags (origin R inc) (parent ?l) pp s))
        (post R frags (left_walk R frags (origin R inc) (parent ?l) pp s))"
    using left_walk_correct [OF ok side pp(1) _ org x] par(1) pp(2) by blast
  moreover have "index_find R frags a = Some pp"
    using index_find_correct [OF ok] pp by blast
  ultimately show ?thesis
    using par(1) by (simp add: place_left_def s_def Let_def)
qed

end
