(* ===== verification/Placement_Correct.thy ===== *)
theory Placement_Correct
  imports Placement_Left
begin

text \<open>
  \<open>integrate\<close> and \<open>mint_link\<close> on consistent vectors. The laws the placement needs of the run
  type are the locale \<open>run_interface\<close>; inside it: integrating a fresh run whose links are
  present keeps the vector consistent, puts the run's items next to each other somewhere in
  the old sequence, and agrees with the slow search; what fails and why; and the sequence
  depends only on the set of items, whatever the order of integration.
\<close>

section \<open>Inserting into the item sequence\<close>

lemma strict_order_cong:
  assumes "strict_order_on S lt" "\<And>a b. a \<in> S \<Longrightarrow> b \<in> S \<Longrightarrow> lt a b \<longleftrightarrow> lt' a b"
  shows "strict_order_on S lt'"
proof -
  have "\<not> lt' a a" if "a \<in> S" for a
    using strict_irrefl [OF assms(1) that] assms(2) [OF that that] by simp
  moreover have "lt' a c" if "a \<in> S" "b \<in> S" "c \<in> S" "lt' a b" "lt' b c" for a b c
    using strict_trans [OF assms(1) that(1-3)] assms(2) [of a b] assms(2) [of b c] assms(2) [of a c] that
    by simp
  moreover have "a = b \<or> lt' a b \<or> lt' b a" if "a \<in> S" "b \<in> S" for a b
    using strict_total [OF assms(1) that] assms(2) [of a b] assms(2) [of b a] that by simp
  ultimately show ?thesis
    unfolding strict_order_on_def by blast
qed

lemma fugue_cong_imp:
  assumes f: "fugue L lt" and eq: "\<And>a b. a \<in> dom L \<Longrightarrow> b \<in> dom L \<Longrightarrow> lt a b \<longleftrightarrow> lt' a b"
  shows "fugue L lt'"
proof -
  obtain rank where ranked: "links_ranked L rank"
    using fugue_ranked [OF f] by blast
  have sib: "sibling_before lt x lx y ly \<longleftrightarrow> sibling_before lt' x lx y ly"
    if "L x = Some lx" "L y = Some ly" for x lx y ly
    by (rule sibling_before_cong, rule eq)
      (use links_ranked_origin [OF ranked that(2)] links_ranked_origin [OF ranked that(1)] in auto)
  show ?thesis
    unfolding fugue_def
  proof (intro conjI allI impI)
    show "\<exists>rank. links_ranked L rank"
      using ranked by blast
    show "strict_order_on (dom L) lt'"
      by (rule strict_order_cong [OF fugue_order [OF f] eq])
    fix x l p
    assume x: "L x = Some l" "parent l = Some p"
    have "p \<in> dom L" "x \<in> dom L"
      using links_ranked_parent [OF ranked x] x by auto
    then show "if l_side l = Right then lt' p x else lt' x p"
      using fugue_side [OF f x] eq [of p x] eq [of x p] by (cases "l_side l") simp_all
  next
    fix x l
    assume "L x = Some l" "l_side l = Left"
    then show "parent l \<noteq> None"
      using fugue_left [OF f] by blast
  next
    fix r u v w
    assume "v \<in> dom L" "in_sub L u r" "in_sub L w r" "lt' u v" "lt' v w" "u \<in> dom L" "w \<in> dom L"
    then show "in_sub L v r"
      using fugue_convex [OF f, of u v w r] eq by blast
  next
    fix x y lx ly
    assume x: "L x = Some lx" "L y = Some ly" "x \<noteq> y" "parent lx = parent ly" "l_side lx = l_side ly"
    then show "lt' x y \<longleftrightarrow> sibling_before lt' x lx y ly"
      using fugue_sibling [OF f x] sib [OF x(1,2)] eq [of x y] by blast
  qed
qed

lemma map_of_insert:
  assumes "x \<notin> fst ` set us"
  shows "map_of (us @ (x, l) # vs) = (map_of (us @ vs))(x \<mapsto> l)"
proof -
  have "map_of us x = None"
    using assms by (metis map_of_eq_None_iff)
  then show ?thesis
    by (auto simp: map_add_def fun_eq_iff split: option.splits)
qed

lemma fugue_insert_list:
  assumes "fugue (map_of (us @ vs)) (before (map fst (us @ vs)))"
    and "distinct (map fst (us @ vs))" "x \<notin> set (map fst (us @ vs))"
    and "leaf_cut (map_of (us @ vs)) (before (map fst (us @ vs))) x l (set (map fst us)) (set (map fst vs))"
  shows "fugue (map_of (us @ (x, l) # vs)) (before (map fst (us @ (x, l) # vs)))"
proof -
  let ?L = "map_of (us @ vs)"
  have x: "x \<notin> dom ?L"
    using assms(3) by (simp add: dom_map_of_conv_image_fst)
  note f = fugue_insert [OF assms(1) x assms(4)]
  have "map_of (us @ (x, l) # vs) = ?L(x \<mapsto> l)"
    using assms(3) by (intro map_of_insert) auto
  moreover have "fugue (?L(x \<mapsto> l)) (before (map fst (us @ (x, l) # vs)))"
  proof (rule fugue_cong_imp [OF f])
    fix a b
    assume "a \<in> dom (?L(x \<mapsto> l))" "b \<in> dom (?L(x \<mapsto> l))"
    show "order_insert (before (map fst (us @ vs))) (set (map fst us)) (set (map fst vs)) x a b \<longleftrightarrow>
        before (map fst (us @ (x, l) # vs)) a b"
      using assms(3) before_insert_left [of x "map fst us" "map fst vs" a]
        before_insert_right [of x "map fst us" "map fst vs" b]
        before_insert_old [of a x b "map fst us" "map fst vs"]
      by (auto simp: order_insert_def)
  qed
  ultimately show ?thesis
    by simp
qed

text \<open>A run is a leaf and then a chain of right children.\<close>

lemma leaf_cut_chain:
  assumes f: "fugue (map_of (us @ (x, l) # vs)) (before (map fst (us @ (x, l) # vs)))"
    and d: "distinct (map fst (us @ (x, l) # vs))"
    and leaf: "\<And>c lc. (c, lc) \<in> set (us @ vs) \<Longrightarrow> parent lc \<noteq> Some x" "parent l \<noteq> Some x"
    and ro: "\<forall>r. ro = Some r \<longrightarrow> r \<in> fst ` set (us @ (x, l) # vs)"
  shows "leaf_cut (map_of (us @ (x, l) # vs)) (before (map fst (us @ (x, l) # vs))) y
    (Link (Some x) Right ro) (set (map fst (us @ [(x, l)]))) (set (map fst vs))"
proof -
  let ?xs = "us @ (x, l) # vs"
  have child: "parent lc \<noteq> Some x" if "map_of ?xs c = Some lc" for c lc
    using map_of_SomeD [OF that] leaf by auto
  have dom: "dom (map_of ?xs) = set (map fst ?xs)"
    by (simp add: dom_map_of_conv_image_fst)
  have bef: "before (map fst ?xs) a b" if "a \<in> set (map fst (us @ [(x, l)]))" "b \<in> set (map fst vs)" for a b
    using that by (auto simp: before_append)
  have max: "before (map fst ?xs) a x" if "a \<in> set (map fst us)" for a
    using that by (auto simp: before_append)
  show ?thesis
    unfolding leaf_cut_def
  proof (intro conjI allI impI)
    show "set (map fst (us @ [(x, l)])) \<union> set (map fst vs) = dom (map_of ?xs)"
      unfolding dom by auto
    show "\<forall>a \<in> set (map fst (us @ [(x, l)])). \<forall>b \<in> set (map fst vs). before (map fst ?xs) a b"
      using bef by blast
    show "r \<in> dom (map_of ?xs)" if "right_origin (Link (Some x) Right ro) = Some r" for r
      using that ro unfolding dom by auto
    show "\<exists>e. in_sub (map_of ?xs) e p \<and>
        (e \<in> set (map fst (us @ [(x, l)])) \<and> (\<forall>a \<in> set (map fst (us @ [(x, l)])). a = e \<or> before (map fst ?xs) a e) \<or>
         e \<in> set (map fst vs) \<and> (\<forall>b \<in> set (map fst vs). b = e \<or> before (map fst ?xs) e b))"
      if "parent (Link (Some x) Right ro) = Some p" for p
      using that max by (intro exI [of _ x]) auto
  qed (use child in auto)
qed

lemma item_at_0 [simp]: "item_at R f 0 = origin R f"
  by (simp add: item_at_def)

lemma item_at_inject [simp]: "item_at R f i = item_at R f j \<longleftrightarrow> i = j"
  by (simp add: item_at_def)

lemma link_at_0 [simp]: "link_at R f 0 = run_link R f"
  by (simp add: link_at_def)

lemma take_run_items:
  "j \<le> run_length R f \<Longrightarrow> take j (run_items R f) = map (\<lambda>k. (item_at R f k, link_at R f k)) [0..<j]"
  by (simp add: run_items_def take_map)

definition run_fresh :: "('r, 'z) run_ops_scheme \<Rightarrow> identity set \<Rightarrow> 'r \<Rightarrow> bool" where
  "run_fresh R S f \<longleftrightarrow> 0 < run_length R f \<and> (\<forall>k < run_length R f. item_at R f k \<notin> S)"

lemma fugue_insert_run_prefix:
  assumes f: "fugue (map_of (us @ vs)) (before (map fst (us @ vs)))"
    and d: "distinct (map fst (us @ vs))" and fresh: "run_fresh R (set (map fst (us @ vs))) inc"
    and cut: "leaf_cut (map_of (us @ vs)) (before (map fst (us @ vs))) (origin R inc) (run_link R inc)
      (set (map fst us)) (set (map fst vs))"
  shows "j < run_length R inc \<Longrightarrow>
    fugue (map_of (us @ take (Suc j) (run_items R inc) @ vs))
      (before (map fst (us @ take (Suc j) (run_items R inc) @ vs))) \<and>
    distinct (map fst (us @ take (Suc j) (run_items R inc) @ vs))"
proof (induction j)
  case 0
  have "origin R inc \<notin> set (map fst (us @ vs))"
    using fresh by (metis run_fresh_def item_at_0)
  moreover have "take (Suc 0) (run_items R inc) = [(origin R inc, run_link R inc)]"
    using 0 by (simp add: take_run_items)
  ultimately show ?case
    using fugue_insert_list [OF f d _ cut] d by simp
next
  case (Suc j)
  let ?run = "\<lambda>k. (item_at R inc k, link_at R inc k)"
  define ws where "ws = us @ map ?run [0..<j]"
  have take1: "us @ take (Suc j) (run_items R inc) @ vs = ws @ ?run j # vs"
    and take2: "us @ take (Suc (Suc j)) (run_items R inc) @ vs = (ws @ [?run j]) @ ?run (Suc j) # vs"
    using Suc.prems by (simp_all add: take_run_items ws_def)
  note IH = Suc.IH [OF Suc_lessD [OF Suc.prems], unfolded take1]
  obtain rank where ranked: "links_ranked (map_of (us @ vs)) rank"
    using fugue_ranked [OF f] by blast
  have domuv: "dom (map_of (us @ vs)) = set (map fst (us @ vs))"
    by (simp add: dom_map_of_conv_image_fst)
  have notin: "item_at R inc k \<notin> set (map fst (us @ vs))" if "k \<le> Suc j" for k
    using fresh Suc.prems that by (simp add: run_fresh_def)
  have link: "link_at R inc (Suc k) = Link (Some (item_at R inc k)) Right (right_origin (run_link R inc))" for k
    by (simp add: link_at_def)
  have head: "parent (run_link R inc) \<noteq> Some (item_at R inc k)" if "k \<le> Suc j" for k
    using cut_parent [OF cut] notin [OF that] unfolding domuv by blast
  have chain: "parent (link_at R inc k) \<noteq> Some (item_at R inc j)" if "k \<le> j" for k
    using head [of j] that by (cases k) (auto simp: link)
  have old: "parent lc \<noteq> Some (item_at R inc j)" if "(c, lc) \<in> set (us @ vs)" for c lc
  proof -
    have "map_of (us @ vs) c = Some lc"
      using that d by (metis map_of_eq_Some_iff)
    then show ?thesis
      using links_ranked_parent [OF ranked, of c lc "item_at R inc j"] notin [of j] unfolding domuv
      by fastforce
  qed
  have "leaf_cut (map_of (ws @ ?run j # vs)) (before (map fst (ws @ ?run j # vs))) (item_at R inc (Suc j))
      (Link (Some (item_at R inc j)) Right (right_origin (run_link R inc)))
      (set (map fst (ws @ [?run j]))) (set (map fst vs))"
  proof (rule leaf_cut_chain)
    fix c lc
    assume "(c, lc) \<in> set (ws @ vs)"
    then consider "(c, lc) \<in> set (us @ vs)" | k where "k < j" "(c, lc) = ?run k"
      by (auto simp: ws_def)
    then show "parent lc \<noteq> Some (item_at R inc j)"
      using old chain by cases auto
  next
    show "\<forall>r. right_origin (run_link R inc) = Some r \<longrightarrow> r \<in> fst ` set (ws @ ?run j # vs)"
      using cut_origin [OF cut] unfolding domuv by (auto simp: ws_def)
  qed (use IH chain in auto)
  then have cut': "leaf_cut (map_of ((ws @ [?run j]) @ vs)) (before (map fst ((ws @ [?run j]) @ vs)))
      (item_at R inc (Suc j)) (link_at R inc (Suc j)) (set (map fst (ws @ [?run j]))) (set (map fst vs))"
    by (simp add: link)
  have new: "item_at R inc (Suc j) \<notin> set (map fst ((ws @ [?run j]) @ vs))"
    using notin [of "Suc j"] by (auto simp: ws_def)
  show ?case
    unfolding take2 using fugue_insert_list [OF _ _ new cut'] IH new by simp
qed

lemma fugue_insert_run:
  assumes "fugue (map_of (us @ vs)) (before (map fst (us @ vs)))"
    and "distinct (map fst (us @ vs))" and "run_fresh R (set (map fst (us @ vs))) inc"
    and "leaf_cut (map_of (us @ vs)) (before (map fst (us @ vs))) (origin R inc) (run_link R inc)
      (set (map fst us)) (set (map fst vs))"
  shows "fugue (map_of (us @ run_items R inc @ vs)) (before (map fst (us @ run_items R inc @ vs)))"
    and "distinct (map fst (us @ run_items R inc @ vs))"
proof -
  have "run_length R inc - 1 < run_length R inc"
    using assms(3) by (simp add: run_fresh_def)
  moreover from this have "take (Suc (run_length R inc - 1)) (run_items R inc) = run_items R inc"
    by simp
  ultimately show "fugue (map_of (us @ run_items R inc @ vs)) (before (map fst (us @ run_items R inc @ vs)))"
    "distinct (map fst (us @ run_items R inc @ vs))"
    using fugue_insert_run_prefix [OF assms, of "run_length R inc - 1"] by simp_all
qed

section \<open>Cuts of the vector and cuts of the sequence\<close>

lemma flat_le: "norm_pos R frags p \<Longrightarrow> flat R frags p \<le> length (items R frags)"
  using items_nth(1) [of R frags p] by (auto simp: norm_pos_def flat_def)

lemma flat_less_norm:
  assumes "valid_pos R frags q" "norm_pos R frags p"
  shows "flat R frags q < flat R frags p \<longleftrightarrow> q < p"
proof (cases "valid_pos R frags p")
  case True
  then show ?thesis
    using flat_less_iff [OF assms(1)] by blast
next
  case False
  then show ?thesis
    using assms items_nth(1) [OF assms(1)] valid_pos_less_end [OF assms(1)]
    by (auto simp: norm_pos_def flat_def)
qed

lemma pre_take:
  assumes "distinct (run_ids R frags)" "norm_pos R frags p"
  shows "pre R frags p = set (take (flat R frags p) (run_ids R frags))"
proof (intro equalityI subsetI)
  fix i
  assume "i \<in> pre R frags p"
  then obtain q where q: "valid_pos R frags q" "w_id R frags q = i" "q < p"
    by (auto simp: pre_def)
  then show "i \<in> set (take (flat R frags p) (run_ids R frags))"
    using flat_less_norm [OF q(1) assms(2)] items_nth(1) [OF q(1)] run_ids_nth [OF q(1)]
    by (auto simp: in_set_conv_nth intro!: exI [of _ "flat R frags q"])
next
  fix i
  assume "i \<in> set (take (flat R frags p) (run_ids R frags))"
  then obtain k where k: "k < flat R frags p" "k < length (items R frags)" "run_ids R frags ! k = i"
    by (auto simp: in_set_conv_nth)
  then obtain q where "valid_pos R frags q" "flat R frags q = k"
    using items_pos_ex by metis
  then show "i \<in> pre R frags p"
    using k run_ids_nth flat_less_norm [OF _ assms(2)] unfolding pre_def by blast
qed

lemma post_drop:
  assumes "distinct (run_ids R frags)" "norm_pos R frags p"
  shows "post R frags p = set (drop (flat R frags p) (run_ids R frags))"
proof -
  have "pre R frags p \<union> post R frags p = set (run_ids R frags)"
    using pre_post_dom set_run_ids by metis
  moreover have "pre R frags p \<inter> post R frags p = {}"
    using pre_not_post [OF assms(1)] by blast
  moreover have "set (run_ids R frags) =
      set (take (flat R frags p) (run_ids R frags)) \<union> set (drop (flat R frags p) (run_ids R frags))"
    by (metis append_take_drop_id set_append)
  moreover have "set (take (flat R frags p) (run_ids R frags)) \<inter> set (drop (flat R frags p) (run_ids R frags)) = {}"
    using assms(1) by (rule set_take_disj_set_drop_if_distinct) simp
  ultimately show ?thesis
    using pre_take [OF assms] by blast
qed

lemma pre_inject:
  assumes d: "distinct (run_ids R frags)" and "norm_pos R frags p" "norm_pos R frags q"
    and eq: "pre R frags p = pre R frags q"
  shows "p = q"
proof -
  have "\<not> p < q" if n: "norm_pos R frags p" "norm_pos R frags q" "pre R frags p = pre R frags q" for p q
  proof
    assume lt: "p < q"
    then have "valid_pos R frags p"
      using n valid_pos_less_end [of R frags q] unfolding norm_pos_def by fastforce
    then show False
      using pre_iff [OF d, of p p] pre_iff [OF d, of p q] lt n(3) by auto
  qed
  then show ?thesis
    using assms by (metis neqE)
qed

definition link_present :: "(identity \<rightharpoonup> link) \<Rightarrow> link \<Rightarrow> bool" where
  "link_present L l \<longleftrightarrow>
     (\<forall>a. parent l = Some a \<longrightarrow> a \<in> dom L) \<and> origins_in (dom L) l \<and>
     (l_side l = Left \<longrightarrow> parent l \<noteq> None)"

abbreviation run_cut :: "('r, 'z) run_ops_scheme \<Rightarrow> 'r list \<Rightarrow> 'r \<Rightarrow> pos \<Rightarrow> bool" where
  "run_cut R frags inc q \<equiv> norm_pos R frags q \<and>
     leaf_cut (links R frags) (doc_lt R frags) (origin R inc) (run_link R inc)
       (pre R frags q) (post R frags q)"

lemma run_fresh_origin: "run_fresh R S inc \<Longrightarrow> origin R inc \<notin> S"
  by (metis run_fresh_def item_at_0)

text \<open>Both searches, and the append of the fast path, end at a cut for the run.\<close>

lemma slow_cut:
  assumes "runs_ok R frags" "run_fresh R (set (run_ids R frags)) inc"
    and "link_present (links R frags) (run_link R inc)"
  shows "\<exists>q. run_cut R frags inc q \<and> integrate_slow R frags inc = Some (insert_run R frags q inc)"
proof -
  have x: "origin R inc \<notin> dom (links R frags)"
    using run_fresh_origin [OF assms(2)] set_run_ids by metis
  show ?thesis
  proof (cases "l_side (run_link R inc)")
    case Right
    then obtain q where "place_right R frags inc = Some q" "run_cut R frags inc q"
      using place_right_correct [OF assms(1) Right x] assms(3) unfolding link_present_def by blast
    then show ?thesis
      using Right by (intro exI [of _ q]) (simp add: integrate_slow_def integrate_impl_def)
  next
    case Left
    then obtain a where "parent (run_link R inc) = Some a" "a \<in> dom (links R frags)"
      using assms(3) by (auto simp: link_present_def)
    then obtain q where "place_left R frags inc = Some q" "run_cut R frags inc q"
      using place_left_correct [OF assms(1) Left x] assms(3) unfolding link_present_def by blast
    then show ?thesis
      using Left by (intro exI [of _ q]) (simp add: integrate_slow_def integrate_impl_def)
  qed
qed

lemma pre_end:
  assumes "distinct (run_ids R frags)"
  shows "pre R frags (length frags, 0) = dom (links R frags)"
  using pre_post_dom [of R frags "(length frags, 0)"] post_end by auto

lemma append_cut:
  assumes ok: "runs_ok R frags" and fast: "has_final_append_preconditions R frags inc"
  shows "run_cut R frags inc (length frags, 0)"
proof -
  note d = runs_ok_distinct [OF ok]
  let ?l = "run_link R inc" and ?L = "links R frags"
  have l: "l_side ?l = Right" "right_origin ?l = None"
    using fast by (simp_all add: has_final_append_preconditions_def Let_def split: if_splits)
  have norm: "norm_pos R frags (length frags, 0)"
    by (simp add: norm_pos_def)
  have "right_inv R frags (origin R inc) ?l (length frags, 0)"
  proof (cases "parent ?l")
    case None
    then have "frags = []"
      using fast by (simp add: has_final_append_preconditions_def Let_def split: if_splits)
    then show ?thesis
      using right_inv_root [OF ok None] by simp
  next
    case (Some a)
    then have a: "frags \<noteq> []" "run_length R (last frags) > 0"
      "item_at R (last frags) (run_length R (last frags) - 1) = a"
      using fast by (simp_all add: has_final_append_preconditions_def Let_def split: if_splits)
    let ?pp = "(length frags - 1, run_length R (last frags) - 1)"
    have pp: "valid_pos R frags ?pp" "w_id R frags ?pp = a"
      using a by (simp_all add: valid_pos_def last_conv_nth)
    have "w_next R frags ?pp = (length frags, 0)"
      using a by (simp add: w_next_def last_conv_nth)
    then show ?thesis
      using right_inv_start [OF ok Some pp] by metis
  qed
  moreover have "origins_in (dom ?L) ?l"
    using l(2) by (simp add: origins_in_def)
  ultimately have "leaf_cut ?L (doc_lt R frags) (origin R inc) ?l
      (pre R frags (length frags, 0)) (post R frags (length frags, 0))"
    by (rule right_inv_cut [OF ok _ l(1)]) (simp add: post_end)
  then show ?thesis
    using norm by blast
qed

lemma cut_unique:
  assumes ok: "runs_ok R frags" and x: "origin R inc \<notin> set (run_ids R frags)"
    and p: "run_cut R frags inc p" and q: "run_cut R frags inc q"
  shows "p = q"
proof -
  note f = runs_ok_fugue [OF ok] and d = runs_ok_distinct [OF ok]
  let ?L = "(links R frags)(origin R inc \<mapsto> run_link R inc)"
  have x': "origin R inc \<notin> dom (links R frags)"
    using x set_run_ids by metis
  note fp = fugue_insert [OF f x' p [THEN conjunct2]] and fq = fugue_insert [OF f x' q [THEN conjunct2]]
  have "a \<in> pre R frags p \<longleftrightarrow> a \<in> pre R frags q" if a: "a \<in> dom (links R frags)" for a
  proof -
    have "a \<noteq> origin R inc"
      using a x' by auto
    moreover have "a \<in> dom ?L" "origin R inc \<in> dom ?L"
      using a by auto
    ultimately show ?thesis
      using fugue_unique [OF fp fq, of a "origin R inc"] by (simp add: order_insert_def)
  qed
  then have "pre R frags p = pre R frags q"
    using pre_post_dom by blast
  then show ?thesis
    using pre_inject [OF d] p q by blast
qed

lemma insert_run_end: "insert_run R frags (length frags, 0) inc = frags @ [inc]"
  by (simp add: insert_run_def)

lemma fast_eq_slow:
  assumes "runs_ok R frags" "run_fresh R (set (run_ids R frags)) inc"
    and "link_present (links R frags) (run_link R inc)"
  shows "integrate R frags inc = integrate_slow R frags inc"
proof (cases "has_final_append_preconditions R frags inc")
  case True
  then have "integrate R frags inc = Some (insert_run R frags (length frags, 0) inc)"
    by (simp add: integrate_def integrate_impl_def insert_run_end)
  moreover obtain q where "run_cut R frags inc q" "integrate_slow R frags inc = Some (insert_run R frags q inc)"
    using slow_cut [OF assms] by blast
  ultimately show ?thesis
    using cut_unique [OF assms(1) run_fresh_origin [OF assms(2)]] append_cut [OF assms(1) True] by metis
next
  case False
  then show ?thesis
    by (simp add: integrate_def integrate_slow_def integrate_impl_def)
qed

section \<open>What fails\<close>

definition link_wf :: "link \<Rightarrow> bool" where
  "link_wf l \<longleftrightarrow> (l_side l = Left \<longrightarrow> parent l \<noteq> None \<and> right_origin l = parent l)"

lemma w_rank_missing:
  "runs_ok R frags \<Longrightarrow> w_rank R frags (Some r) = None \<longleftrightarrow> r \<notin> set (run_ids R frags)"
  using index_find_None by (simp add: w_rank_def)

lemma slow_missing:
  assumes ok: "runs_ok R frags" and wf: "link_wf (run_link R inc)"
    and missing: "\<not> link_present (links R frags) (run_link R inc)"
  shows "integrate_slow R frags inc = None"
proof -
  let ?l = "run_link R inc"
  consider a where "parent ?l = Some a" "a \<notin> set (run_ids R frags)"
    | r where "right_origin ?l = Some r" "r \<notin> set (run_ids R frags)" "l_side ?l = Right"
    using missing wf set_run_ids [of R frags]
    by (cases "l_side ?l") (auto simp: link_present_def origins_in_def link_wf_def)
  then show ?thesis
  proof cases
    case 1
    then have "index_find R frags a = None"
      using index_find_None [OF ok] by blast
    then show ?thesis
      using 1 by (simp add: integrate_slow_def integrate_impl_def place_right_def place_left_def Let_def)
  next
    case 2
    then have "w_rank R frags (right_origin ?l) = None"
      using w_rank_missing [OF ok] by simp
    then show ?thesis
      using 2 by (simp add: integrate_slow_def integrate_impl_def place_right_def Let_def split: option.split)
  qed
qed

lemma append_present:
  assumes "has_final_append_preconditions R frags inc"
  shows "link_present (links R frags) (run_link R inc)"
proof -
  have l: "l_side (run_link R inc) = Right" "right_origin (run_link R inc) = None"
    using assms by (simp_all add: has_final_append_preconditions_def Let_def split: if_splits)
  have "a \<in> dom (links R frags)" if "parent (run_link R inc) = Some a" for a
  proof -
    have a: "frags \<noteq> []" "run_length R (last frags) > 0"
      "item_at R (last frags) (run_length R (last frags) - 1) = a"
      using assms that by (simp_all add: has_final_append_preconditions_def Let_def split: if_splits)
    then have "valid_pos R frags (length frags - 1, run_length R (last frags) - 1)"
      "w_id R frags (length frags - 1, run_length R (last frags) - 1) = a"
      by (simp_all add: valid_pos_def last_conv_nth)
    then show ?thesis
      using valid_pos_mem set_run_ids by metis
  qed
  then show ?thesis
    using l by (auto simp: link_present_def origins_in_def)
qed

lemma integrate_eq_slow:
  assumes "runs_ok R frags" "run_fresh R (set (run_ids R frags)) inc"
  shows "integrate R frags inc = integrate_slow R frags inc"
proof (cases "has_final_append_preconditions R frags inc")
  case True
  then show ?thesis
    using fast_eq_slow [OF assms append_present [OF True]] by blast
next
  case False
  then show ?thesis
    by (simp add: integrate_def integrate_slow_def integrate_impl_def)
qed

lemma integrate_None_iff:
  assumes "runs_ok R frags" "run_fresh R (set (run_ids R frags)) inc" "link_wf (run_link R inc)"
  shows "integrate R frags inc = None \<longleftrightarrow> \<not> link_present (links R frags) (run_link R inc)"
  using integrate_eq_slow [OF assms(1,2)] slow_cut [OF assms(1,2)] slow_missing [OF assms(1,3)]
  by auto

section \<open>Minting a link\<close>

lemma mint_link_right:
  assumes ok: "runs_ok R frags" and inv: "right_inv R frags x (Link lo Right ro) p"
    and ro: "ro = (if w_at_end frags p then None else Some (w_id R frags p))"
    and out: "\<not> w_at_end frags p \<Longrightarrow> \<not> desc (links R frags) (w_id R frags p) lo"
  shows "leaf_cut (links R frags) (doc_lt R frags) x (Link lo Right ro) (pre R frags p) (post R frags p)"
proof (rule right_inv_cut [OF ok inv])
  show "origins_in (dom (links R frags)) (Link lo Right ro)"
    using right_inv_norm [OF inv] valid_pos_mem [of R frags p] set_run_ids [of R frags] ro
    by (auto simp: origins_in_def norm_pos_def w_at_end_def split: if_splits)
  fix c lc
  assume c: "links R frags c = Some lc" "parent lc = parent (Link lo Right ro)" "c \<in> post R frags p"
  from right_inv_norm [OF inv] show "\<not> sibling_before (doc_lt R frags) c lc x (Link lo Right ro)"
  proof (cases rule: norm_pos_cases)
    case 1
    then show ?thesis
      using right_stop_outside [OF ok inv 1(1) _ c] out by simp
  next
    case 2
    then show ?thesis
      using c(3) post_end [of R frags] by simp
  qed
qed simp

lemma mint_link_left:
  assumes ok: "runs_ok R frags" and p: "valid_pos R frags p"
    and prev: "\<forall>i \<in> pre R frags p. \<not> desc (links R frags) i (Some (w_id R frags p))"
  shows "leaf_cut (links R frags) (doc_lt R frags) x
    (Link (Some (w_id R frags p)) Left (Some (w_id R frags p))) (pre R frags p) (post R frags p)"
proof -
  note d = runs_ok_distinct [OF ok] and f = runs_ok_fugue [OF ok]
  let ?l = "Link (Some (w_id R frags p)) Left (Some (w_id R frags p))" and ?L = "links R frags"
  have nochild: False if c: "?L c = Some lc" "parent lc = Some (w_id R frags p)" "in_sub ?L i c"
    "i \<in> pre R frags p" for c lc i
  proof -
    have "desc ?L i (Some (w_id R frags p))"
      using c(3) desc.child [of ?L c lc] c(1,2) desc_trans [of ?L i c] unfolding in_sub_def by metis
    then show False
      using prev c(4) by blast
  qed
  have inv: "left_inv R frags x ?l p p"
    unfolding left_inv_def whole_cut_def
    using below_upto_refl [OF p] nochild nochild [OF _ _ in_sub_refl] by simp blast
  show ?thesis
  proof (rule left_inv_cut [OF ok inv])
    show "origins_in (dom ?L) ?l"
      using valid_pos_mem [OF p] set_run_ids [of R frags] by (simp add: origins_in_def)
    fix c lc
    assume c: "?L c = Some lc" "parent lc = parent ?l" "l_side lc = l_side ?l" "c \<in> post R frags p"
    then have "doc_lt R frags c (w_id R frags p)"
      using fugue_side [OF f c(1)] by simp
    then have False
      using post_min [OF d p c(4)] before_asym [OF d] before_irrefl [OF d] by metis
    then show "\<not> sibling_before (doc_lt R frags) c lc x ?l" ..
  qed (use p in simp_all)
qed

text \<open>The position right behind the left origin, as \<open>mint_link\<close> computes it.\<close>

definition after_pos :: "('r, 'z) run_ops_scheme \<Rightarrow> 'r list \<Rightarrow> identity option \<Rightarrow> pos option" where
  "after_pos R frags lo =
     (case lo of None \<Rightarrow> Some (0, 0) | Some i \<Rightarrow> map_option (w_next R frags) (index_find R frags i))"

lemma mint_link_cut:
  assumes ok: "runs_ok R frags" and lo: "\<forall>i. lo = Some i \<longrightarrow> i \<in> set (run_ids R frags)"
  shows "\<exists>p. after_pos R frags lo = Some p \<and> norm_pos R frags p \<and>
    leaf_cut (links R frags) (doc_lt R frags) x (mint_link R frags lo) (pre R frags p) (post R frags p)"
proof (cases lo)
  case None
  have norm: "norm_pos R frags (0, 0)"
    using norm_pos_start [OF runs_ok_lengths [OF ok], of 0] by simp
  have pre0: "pre R frags (0, 0) = {}"
    by (auto simp: pre_def)
  have "leaf_cut (links R frags) (doc_lt R frags) x (mint_link R frags lo)
      (pre R frags (0, 0)) (post R frags (0, 0))"
  proof (cases "w_at_end frags (0, 0)")
    case True
    then have "mint_link R frags lo = Link None Right None"
      by (simp add: mint_link_def None)
    then show ?thesis
      using mint_link_right [OF ok, of x None None "(0, 0)"] True
        right_inv_root [OF ok, of "Link None Right None" x] by simp
  next
    case False
    then have v: "valid_pos R frags (0, 0)"
      using norm by (auto simp: norm_pos_def w_at_end_def)
    have "mint_link R frags lo =
        Link (Some (w_id R frags (0, 0))) Left (Some (w_id R frags (0, 0)))"
      using False by (simp add: mint_link_def None Let_def)
    then show ?thesis
      using mint_link_left [OF ok v] pre0 by simp
  qed
  then show ?thesis
    using None norm by (simp add: after_pos_def)
next
  case (Some i)
  note d = runs_ok_distinct [OF ok] and f = runs_ok_fugue [OF ok]
  obtain pp where pp: "valid_pos R frags pp" "w_id R frags pp = i"
    using lo Some pos_of_id by metis
  have find: "index_find R frags i = Some pp"
    using index_find_correct [OF ok] pp by blast
  define p where "p = w_next R frags pp"
  have norm: "norm_pos R frags p"
    using w_next_norm [OF runs_ok_lengths [OF ok] pp(1)] by (simp add: p_def)
  define ro where "ro = (if w_at_end frags p then None else Some (w_id R frags p))"
  have mint: "mint_link R frags lo = (if ro \<noteq> None \<and> descendant R frags p (Some i)
      then Link ro Left ro else Link (Some i) Right ro)"
    by (simp add: mint_link_def Some find p_def ro_def Let_def)
  have "leaf_cut (links R frags) (doc_lt R frags) x (mint_link R frags lo) (pre R frags p) (post R frags p)"
  proof (cases "ro \<noteq> None \<and> descendant R frags p (Some i)")
    case False
    have inv: "right_inv R frags x (Link (Some i) Right ro) p"
      unfolding p_def by (rule right_inv_start [OF ok _ pp]) simp
    have out: "\<not> desc (links R frags) (w_id R frags p) (Some i)" if "\<not> w_at_end frags p"
    proof -
      have "valid_pos R frags p"
        using norm that by (auto simp: norm_pos_def w_at_end_def)
      then show ?thesis
        using False that descendant_correct [OF ok] by (simp add: ro_def)
    qed
    have "mint_link R frags lo = Link (Some i) Right ro"
      using mint False by auto
    then show ?thesis
      using mint_link_right [OF ok inv ro_def out] by simp
  next
    case True
    then have v: "valid_pos R frags p" and ro: "ro = Some (w_id R frags p)"
      using norm by (auto simp: norm_pos_def w_at_end_def ro_def split: if_splits)
    have up: "desc (links R frags) (w_id R frags p) (Some i)"
      using descendant_correct [OF ok v] True by blast
    obtain rank where ranked: "links_ranked (links R frags) rank"
      using fugue_ranked [OF f] by blast
    have notup: "\<not> in_sub (links R frags) i (w_id R frags p)"
      using desc_rank [OF up ranked] in_sub_rank [OF ranked] by (metis not_le)
    have "\<not> desc (links R frags) j (Some (w_id R frags p))" if j: "j \<in> pre R frags p" for j
    proof
      assume jd: "desc (links R frags) j (Some (w_id R frags p))"
      obtain q where q: "valid_pos R frags q" "w_id R frags q = j" "q < p"
        using j by (auto simp: pre_def)
      have "q \<noteq> pp"
        using q(2) jd notup pp(2) by (auto simp: in_sub_def)
      then have "q < pp" "pp < p"
        using w_next_less [OF q(1) pp(1)] w_next_less [OF pp(1) pp(1)] q(3) by (auto simp: p_def)
      then have "doc_lt R frags j i" "doc_lt R frags i (w_id R frags p)"
        using before_pos [OF d q(1) pp(1)] before_pos [OF d pp(1) v] q pp by simp_all
      moreover have "j \<in> dom (links R frags)" "i \<in> dom (links R frags)" "w_id R frags p \<in> dom (links R frags)"
        using valid_pos_mem set_run_ids q pp v by metis+
      ultimately have "in_sub (links R frags) i (w_id R frags p)"
        using fugue_convex [OF f, of j i "w_id R frags p" "w_id R frags p"] jd
        by (simp add: in_sub_def)
      then show False
        using notup by blast
    qed
    moreover have "mint_link R frags lo = Link ro Left ro"
      using mint True by simp
    ultimately show ?thesis
      using mint_link_left [OF ok v] ro by simp
  qed
  then show ?thesis
    using Some norm find by (auto simp: after_pos_def p_def)
qed

section \<open>The sequence depends on the items only\<close>

lemma items_determined:
  assumes "runs_ok R xs" "runs_ok R ys" "set (items R xs) = set (items R ys)"
  shows "items R xs = items R ys"
proof -
  note dx = runs_ok_distinct [OF assms(1)] and dy = runs_ok_distinct [OF assms(2)]
  have L: "links R xs = links R ys"
    using assms(3) dx dy by (metis map_of_inject_set run_ids_def)
  have ids: "set (run_ids R xs) = set (run_ids R ys)"
    using L set_run_ids by metis
  have "run_ids R xs = run_ids R ys"
  proof (rule before_determines_list [OF dx dy ids])
    fix a b
    show "before (run_ids R xs) a b \<longleftrightarrow> before (run_ids R ys) a b"
    proof (cases "a \<in> set (run_ids R xs) \<and> b \<in> set (run_ids R xs)")
      case True
      then show ?thesis
        using fugue_unique [OF runs_ok_fugue [OF assms(1)] runs_ok_fugue [OF assms(2), folded L], of a b]
          set_run_ids by metis
    next
      case False
      then show ?thesis
        using before_set ids by metis
    qed
  qed
  moreover have "items R zs = map (\<lambda>i. (i, the (links R zs i))) (run_ids R zs)"
    if "runs_ok R zs" for zs
  proof -
    have "links R zs (fst z) = Some (snd z)" if "z \<in> set (items R zs)" for z
      using that runs_ok_distinct [OF \<open>runs_ok R zs\<close>] by (metis map_of_eq_Some_iff prod.collapse run_ids_def)
    then show ?thesis
      by (auto simp: run_ids_def intro!: map_idI [symmetric])
  qed
  ultimately show ?thesis
    using assms(1,2) L by metis
qed

text \<open>Integrating one run after the other.\<close>

fun integrate_all :: "('r, 'z) run_ops_scheme \<Rightarrow> 'r list \<Rightarrow> 'r list \<Rightarrow> 'r list option" where
  "integrate_all R frags [] = Some frags"
| "integrate_all R frags (f # fs) =
     (case integrate R frags f of None \<Rightarrow> None | Some frags' \<Rightarrow> integrate_all R frags' fs)"

lemma runs_ok_empty: "runs_ok R []"
  by (simp add: runs_ok_def run_ids_def fugue_def links_ranked_def strict_order_on_def)

section \<open>The interface of the run type\<close>

locale run_interface =
  fixes R :: "'r run_ops"
  assumes split_head: "0 < k \<Longrightarrow> k < run_length R f \<Longrightarrow> split_off R f k = (h, t) \<Longrightarrow>
      origin R h = origin R f \<and> run_length R h = k \<and> run_link R h = run_link R f"
    and split_tail: "0 < k \<Longrightarrow> k < run_length R f \<Longrightarrow> split_off R f k = (h, t) \<Longrightarrow>
      origin R t = item_at R f k \<and> run_length R t = run_length R f - k \<and> run_link R t = link_at R f k"
begin

lemma split_items:
  assumes "0 < k" "k < run_length R f" "split_off R f k = (h, t)"
  shows "run_items R h = take k (run_items R f)" "run_items R t = drop k (run_items R f)"
proof -
  note h = split_head [OF assms] and t = split_tail [OF assms]
  have "item_at R h i = item_at R f i" "link_at R h i = link_at R f i" for i
    using h by (simp_all add: item_at_def link_at_def)
  then show "run_items R h = take k (run_items R f)"
    using h assms(2) by (simp add: run_items_def take_map)
  have item: "item_at R t i = item_at R f (k + i)" for i
    using t by (simp add: item_at_def)
  moreover have "link_at R t i = link_at R f (k + i)" for i
    using t item [of "i - 1"] assms(1) by (cases i) (auto simp: link_at_def)
  moreover have "[k..<run_length R f] = map (\<lambda>i. k + i) [0..<run_length R f - k]"
    by (rule nth_equalityI) auto
  ultimately show "run_items R t = drop k (run_items R f)"
    using t assms(2) by (simp add: run_items_def drop_map)
qed

lemma insert_run_items:
  assumes "norm_pos R frags q"
  shows "items R (insert_run R frags q inc) =
    take (flat R frags q) (items R frags) @ run_items R inc @ drop (flat R frags q) (items R frags)"
proof (cases "snd q > 0")
  case True
  obtain n k where q: "q = (n, k)"
    by (cases q)
  have v: "n < length frags" "0 < k" "k < run_length R (frags ! n)"
    using assms True q by (auto simp: norm_pos_def valid_pos_def)
  obtain h t where ht: "split_off R (frags ! n) k = (h, t)"
    by (cases "split_off R (frags ! n) k")
  note split = split_items [OF v(2,3) ht]
  have "items R frags = items R (take n frags) @ (run_items R h @ run_items R t) @ items R (drop (Suc n) frags)"
    using items_split [OF v(1)] split by simp
  moreover have "length (run_items R h) = k"
    using split v(3) by simp
  ultimately have "take (flat R frags q) (items R frags) = items R (take n frags) @ run_items R h"
    "drop (flat R frags q) (items R frags) = run_items R t @ items R (drop (Suc n) frags)"
    by (simp_all add: flat_def q)
  then show ?thesis
    using q v ht by (simp add: insert_run_def)
next
  case False
  have "items R frags = items R (take (fst q) frags) @ items R (drop (fst q) frags)"
    by (metis append_take_drop_id items_simps(3))
  then have "take (flat R frags q) (items R frags) = items R (take (fst q) frags)"
    "drop (flat R frags q) (items R frags) = items R (drop (fst q) frags)"
    using False by (simp_all add: flat_def)
  then show ?thesis
    using False by (simp add: insert_run_def)
qed

lemma insert_run_nonempty:
  assumes "\<forall>f \<in> set frags. 0 < run_length R f" "0 < run_length R inc" "norm_pos R frags q"
  shows "\<forall>f \<in> set (insert_run R frags q inc). 0 < run_length R f"
proof (cases "snd q > 0")
  case True
  obtain n k where q: "q = (n, k)"
    by (cases q)
  have v: "n < length frags" "0 < k" "k < run_length R (frags ! n)"
    using assms(3) True q by (auto simp: norm_pos_def valid_pos_def)
  obtain h t where ht: "split_off R (frags ! n) k = (h, t)"
    by (cases "split_off R (frags ! n) k")
  show ?thesis
    using q v ht split_head [OF v(2,3) ht] split_tail [OF v(2,3) ht] assms(1,2)
    by (auto simp: insert_run_def dest: in_set_takeD in_set_dropD)
next
  case False
  then show ?thesis
    using assms(1,2) by (auto simp: insert_run_def dest: in_set_takeD in_set_dropD)
qed

lemma run_cut_ok:
  assumes ok: "runs_ok R frags" and fresh: "run_fresh R (set (run_ids R frags)) inc"
    and cut: "run_cut R frags inc q"
  shows "runs_ok R (insert_run R frags q inc)"
proof -
  note d = runs_ok_distinct [OF ok]
  let ?us = "take (flat R frags q) (items R frags)" and ?vs = "drop (flat R frags q) (items R frags)"
  have uv: "?us @ ?vs = items R frags" and ids: "map fst (?us @ ?vs) = run_ids R frags"
    by (simp_all add: run_ids_def)
  have cut': "leaf_cut (map_of (?us @ ?vs)) (before (map fst (?us @ ?vs))) (origin R inc) (run_link R inc)
      (set (map fst ?us)) (set (map fst ?vs))"
    using cut pre_take [OF d, of q] post_drop [OF d, of q] unfolding uv ids
    by (simp add: run_ids_def take_map drop_map)
  note ins = fugue_insert_run [OF _ _ _ cut', unfolded uv, folded run_ids_def,
      OF runs_ok_fugue [OF ok] d fresh]
  have "items R (insert_run R frags q inc) = ?us @ run_items R inc @ ?vs"
    using insert_run_items cut by blast
  then show ?thesis
    unfolding runs_ok_def run_ids_def
    using ins insert_run_nonempty [OF runs_ok_lengths [OF ok], of inc q] fresh cut
    by (simp add: run_fresh_def)
qed

lemma integrate_correct:
  assumes "runs_ok R frags" "run_fresh R (set (run_ids R frags)) inc"
    and "link_present (links R frags) (run_link R inc)"
  shows "\<exists>k frags'. integrate R frags inc = Some frags' \<and> runs_ok R frags' \<and> k \<le> length (items R frags) \<and>
    items R frags' = take k (items R frags) @ run_items R inc @ drop k (items R frags)"
  using slow_cut [OF assms] fast_eq_slow [OF assms] run_cut_ok [OF assms(1,2)] insert_run_items flat_le
  by metis

lemma integrate_Some:
  assumes ok: "runs_ok R frags" and fresh: "run_fresh R (set (run_ids R frags)) inc"
    and wf: "link_wf (run_link R inc)" and some: "integrate R frags inc = Some frags'"
  shows "runs_ok R frags'" "set (items R frags') = set (items R frags) \<union> set (run_items R inc)"
proof -
  have "link_present (links R frags) (run_link R inc)"
    using integrate_None_iff [OF ok fresh wf] some by simp
  then obtain k where k: "runs_ok R frags'"
    "items R frags' = take k (items R frags) @ run_items R inc @ drop k (items R frags)"
    using integrate_correct [OF ok fresh] some by fastforce
  have "set (items R frags) = set (take k (items R frags)) \<union> set (drop k (items R frags))"
    by (metis append_take_drop_id set_append)
  then show "runs_ok R frags'" "set (items R frags') = set (items R frags) \<union> set (run_items R inc)"
    using k by auto
qed

lemma integrate_all_items:
  assumes "runs_ok R frags" "distinct (run_ids R (frags @ incs))"
    and "\<forall>f \<in> set incs. 0 < run_length R f \<and> link_wf (run_link R f)"
    and "integrate_all R frags incs = Some frags'"
  shows "runs_ok R frags' \<and> set (items R frags') = set (items R frags) \<union> set (items R incs)"
  using assms
proof (induction incs arbitrary: frags)
  case Nil
  then show ?case by simp
next
  case (Cons f incs)
  from Cons.prems(4) obtain mid where mid: "integrate R frags f = Some mid" "integrate_all R mid incs = Some frags'"
    by (auto split: option.splits)
  have fresh: "run_fresh R (set (run_ids R frags)) f"
  proof -
    have "item_at R f k \<in> set (map fst (run_items R f))" if "k < run_length R f" for k
      using that by (auto simp: run_items_def)
    moreover have "set (run_ids R frags) \<inter> set (map fst (run_items R f)) = {}"
      using Cons.prems(2) by (auto simp: run_ids_def)
    ultimately show ?thesis
      using Cons.prems(3) by (auto simp: run_fresh_def)
  qed
  have wf: "link_wf (run_link R f)"
    using Cons.prems(3) by simp
  note step = integrate_Some [OF Cons.prems(1) fresh wf mid(1)]
  have "set (run_ids R mid) = set (run_ids R frags) \<union> fst ` set (run_items R f)"
    using step(2) by (auto simp: run_ids_def)
  then have "distinct (run_ids R (mid @ incs))"
    using Cons.prems(2) runs_ok_distinct [OF step(1)] by (auto simp: run_ids_def)
  then show ?case
    using Cons.IH [OF step(1) _ _ mid(2)] Cons.prems(3) step(2) by auto
qed

lemma integrate_all_converges:
  assumes "runs_ok R frags" "distinct (run_ids R (frags @ xs))" "set xs = set ys" "distinct (run_ids R (frags @ ys))"
    and "\<forall>f \<in> set xs. 0 < run_length R f \<and> link_wf (run_link R f)"
    and "integrate_all R frags xs = Some f1" "integrate_all R frags ys = Some f2"
  shows "items R f1 = items R f2"
proof -
  have "set (items R xs) = set (items R ys)"
    using assms(3) by (simp add: items_def)
  then show ?thesis
    using integrate_all_items [OF assms(1,2,5,6)] integrate_all_items [OF assms(1,4) _ assms(7)] assms(3,5)
    by (intro items_determined) auto
qed

lemma mint_link_correct:
  assumes ok: "runs_ok R frags" and lo: "\<forall>i. lo = Some i \<longrightarrow> i \<in> set (run_ids R frags)"
    and fresh: "run_fresh R (set (run_ids R frags)) inc" and link: "run_link R inc = mint_link R frags lo"
  shows "\<exists>us vs frags'. integrate R frags inc = Some frags' \<and> runs_ok R frags' \<and>
    items R frags = us @ vs \<and> items R frags' = us @ run_items R inc @ vs \<and>
    (if us = [] then None else Some (fst (last us))) = lo"
proof -
  obtain p where p: "after_pos R frags lo = Some p" "run_cut R frags inc p"
    using mint_link_cut [OF ok lo, of "origin R inc"] link by auto
  have "link_present (links R frags) (run_link R inc)"
    using cut_parent [OF p(2) [THEN conjunct2]] cut_origin [OF p(2) [THEN conjunct2]]
      cut_left [OF p(2) [THEN conjunct2]]
    by (auto simp: link_present_def origins_in_def)
  then obtain q where q: "run_cut R frags inc q" "integrate R frags inc = Some (insert_run R frags q inc)"
    using slow_cut [OF ok fresh] integrate_eq_slow [OF ok fresh] by auto
  then have "q = p"
    using cut_unique [OF ok run_fresh_origin [OF fresh]] p(2) by blast
  let ?k = "flat R frags p"
  have last: "(if take ?k (items R frags) = [] then None else Some (fst (last (take ?k (items R frags))))) = lo"
  proof (cases lo)
    case None
    then show ?thesis
      using p(1) by (auto simp: after_pos_def flat_def)
  next
    case (Some i)
    then obtain pp where pp: "index_find R frags i = Some pp" "p = w_next R frags pp"
      using p(1) by (auto simp: after_pos_def)
    then have v: "valid_pos R frags pp" "w_id R frags pp = i"
      using index_find_correct [OF ok] by blast+
    have "?k = Suc (flat R frags pp)"
      using v(1) by (auto simp: pp(2) flat_def w_next_def valid_pos_def take_Suc_conv_app_nth)
    moreover have "flat R frags pp < length (items R frags)"
      using items_nth(1) [OF v(1)] .
    ultimately show ?thesis
      using items_nth(2) [OF v(1)] v(2) Some by (auto simp: take_Suc_conv_app_nth)
  qed
  show ?thesis
    using q(2) \<open>q = p\<close> run_cut_ok [OF ok fresh p(2)] insert_run_items [of frags p inc] p(2) last
    by (intro exI [of _ "take ?k (items R frags)"] exI [of _ "drop ?k (items R frags)"]
        exI [of _ "insert_run R frags p inc"]) simp
qed

end

end
