(* ===== verification/Id_List.thy ===== *)
theory Id_List
  imports Retention Undo_Map Placement_Correct
begin

text \<open>
  The list engine \<open>IdList\<close> (\<open>IdList.h\<close>, \<open>IdList.cpp\<close>): its state and every operation. The entry
  tree is its item sequence; the deferral queue, a tree ordered by arrival, is a list. The
  allocator is a handle: an argument \<open>A\<close> (\<open>alloc_ops\<close>) with its state in the field \<open>il_alloc\<close>.
  The calls of the two callbacks are recorded in \<open>il_log\<close>. An operation that can fail returns the
  new state and a result; where the code returns early the state is the one at that point.
  Diagnostics counters are not modelled.
\<close>

section \<open>Entries\<close>

record list_entry =
  le_origin :: identity
  le_link :: link
  le_id :: nat
  le_deletions :: "identity list"
  le_visible :: bool

definition new_entry :: "identity \<Rightarrow> link \<Rightarrow> nat \<Rightarrow> list_entry" where
  "new_entry orig l i =
     \<lparr>le_origin = orig, le_link = l, le_id = i, le_deletions = [], le_visible = True\<rparr>"

text \<open>An entry is a run of one item; \<open>split_off\<close> is never called (\<open>assert(false)\<close>).\<close>

definition entry_ops :: "list_entry run_ops" where
  "entry_ops =
     \<lparr>origin = le_origin, run_length = (\<lambda>_. 1), run_link = le_link, split_off = (\<lambda>e _. (e, e))\<rparr>"

definition entry_was_visible :: "list_entry \<Rightarrow> bool" where
  "entry_was_visible e = (le_deletions e = [])"

definition compute_visible :: "list_entry \<Rightarrow> undo_map \<Rightarrow> bool" where
  "compute_visible e m =
     (if is_undone m (le_origin e) then False else list_all (is_undone m) (le_deletions e))"

definition was_visible_at :: "list_entry \<Rightarrow> global \<Rightarrow> undo_map \<Rightarrow> bool" where
  "was_visible_at e v m =
     (if \<not> observed v (le_origin e) then False
      else if was_undone m (le_origin e) v then False
      else list_all (\<lambda>del. \<not> (observed v del \<and> \<not> was_undone m del v)) (le_deletions e))"

definition refresh_visible :: "undo_map \<Rightarrow> list_entry \<Rightarrow> list_entry" where
  "refresh_visible m e = e\<lparr>le_visible := compute_visible e m\<rparr>"

section \<open>State\<close>

record list_op_entry =
  oe_timestamp :: identity
  oe_op :: idlist_operation

datatype list_event = ChangeEvent | LocalOpEvent idlist_operation

record 'al id_list =
  il_alloc :: 'al
  il_version :: global
  il_gaps :: gap_ledger
  il_undo_map :: undo_map
  il_reclamation :: reclamation_binding
  il_entries :: "list_entry list"
  il_undo_stack :: "undo_group list"
  il_retired :: "undo_group list"
  il_retired_bytes :: nat
  il_cursor :: nat
  il_max_depth :: nat
  il_undo_bytes :: nat
  il_max_bytes :: nat
  il_deferred :: "list_op_entry list"
  il_deferred_count :: nat
  il_deferred_bytes :: nat
  il_deferred_budget :: deferred_budget
  il_quarantined :: "(idlist_operation \<times> error_code) list"
  il_quarantine_budget :: deferred_budget
  il_quarantined_bytes :: nat
  il_log :: "list_event list"

definition new_id_list :: "'al \<Rightarrow> 'al id_list" where
  "new_id_list al =
     \<lparr>il_alloc = al, il_version = [], il_gaps = empty_ledger, il_undo_map = [],
      il_reclamation = empty_binding, il_entries = [], il_undo_stack = [], il_retired = [],
      il_retired_bytes = 0, il_cursor = 0, il_max_depth = 1000, il_undo_bytes = 0,
      il_max_bytes = 16 * 1024 * 1024, il_deferred = [], il_deferred_count = 0,
      il_deferred_bytes = 0, il_deferred_budget = default_budget, il_quarantined = [],
      il_quarantine_budget = default_budget, il_quarantined_bytes = 0, il_log = []\<rparr>"

definition set_entries :: "list_entry list \<Rightarrow> 'al id_list \<Rightarrow> 'al id_list" where
  "set_entries es st = st\<lparr>il_entries := map (refresh_visible (il_undo_map st)) es\<rparr>"

definition log_event :: "list_event \<Rightarrow> 'al id_list \<Rightarrow> 'al id_list" where
  "log_event ev st = st\<lparr>il_log := il_log st @ [ev]\<rparr>"

definition observe_remote :: "'al alloc_ops \<Rightarrow> identity \<Rightarrow> 'al id_list \<Rightarrow> 'al id_list" where
  "observe_remote A i st = st\<lparr>il_alloc := alloc_observe A (il_alloc st) (counter i)\<rparr>"

definition check_allocator :: "'al alloc_ops \<Rightarrow> 'al id_list \<Rightarrow> unit result" where
  "check_allocator A st =
     (if \<not> actor_valid (alloc_actor A (il_alloc st)) then Err invalid_identity else Ok ())"

definition find_origin :: "list_entry list \<Rightarrow> anchor \<Rightarrow> nat option" where
  "find_origin es target =
     find (\<lambda>i. le_origin (es ! i) = position target) [0..<length es]"

section \<open>The undo history\<close>

text \<open>An active group and its snapshot have the same fields: \<open>snapshot_undo_entry\<close> is a copy.\<close>

fun saturating_bytes :: "nat \<Rightarrow> undo_group list \<Rightarrow> nat" where
  "saturating_bytes acc [] = acc"
| "saturating_bytes acc (g # gs) =
     (if ug_retained_bytes g > U64_MAX - acc then U64_MAX
      else saturating_bytes (acc + ug_retained_bytes g) gs)"

definition recalculate_undo_bytes :: "'al id_list \<Rightarrow> 'al id_list" where
  "recalculate_undo_bytes st = st\<lparr>il_undo_bytes := saturating_bytes 0 (il_undo_stack st)\<rparr>"

definition retire_undo_entry :: "undo_group \<Rightarrow> 'al id_list \<Rightarrow> 'al id_list" where
  "retire_undo_entry g st =
     st\<lparr>il_retired_bytes := il_retired_bytes st + retirement_charge g,
        il_retired := il_retired st @ [g]\<rparr>"

function trim_loop :: "'al id_list \<Rightarrow> 'al id_list" where
  "trim_loop st =
     (if il_undo_stack st \<noteq> [] \<and>
         (length (il_undo_stack st) > il_max_depth st \<or> il_undo_bytes st > il_max_bytes st)
      then
        let st1 = retire_undo_entry (hd (il_undo_stack st)) st;
            st2 = st1\<lparr>il_undo_stack := tl (il_undo_stack st1), il_cursor := il_cursor st1 - 1\<rparr>
        in trim_loop (recalculate_undo_bytes st2)
      else st)"
  by pat_completeness auto
termination
  by (relation "measure (\<lambda>st. length (il_undo_stack st))")
    (auto simp: retire_undo_entry_def recalculate_undo_bytes_def)

declare trim_loop.simps [simp del]

definition trim_undo_stack :: "'al id_list \<Rightarrow> 'al id_list" where
  "trim_undo_stack st = trim_loop (recalculate_undo_bytes st)"

definition push_undo_group :: "undo_group \<Rightarrow> 'al id_list \<Rightarrow> 'al id_list" where
  "push_undo_group g st =
     (let st1 = fold retire_undo_entry (drop (il_cursor st) (il_undo_stack st)) st;
          stack = take (il_cursor st) (il_undo_stack st1) @ [g]
      in trim_undo_stack (st1\<lparr>il_undo_stack := stack, il_cursor := length stack\<rparr>))"

text \<open>The retirement budgets. \<open>add_charge\<close> is the addition both checks share.\<close>

definition add_charge :: "nat \<Rightarrow> nat \<Rightarrow> nat option" where
  "add_charge added charge =
     (if charge > kMaxRetirementBytes - min added kMaxRetirementBytes then None else Some (added + charge))"

definition final_budget_check :: "'al id_list \<Rightarrow> nat \<Rightarrow> nat \<Rightarrow> nat \<Rightarrow> unit result" where
  "final_budget_check st added_bytes added_groups count =
     (let existing = length (il_retired st) in
      if existing > kMaxRetirementGroups \<or> added_groups > kMaxRetirementGroups - existing \<or>
         count > kMaxRetirementGroups - existing - added_groups \<or>
         added_bytes > kMaxRetirementBytes - min (il_retired_bytes st) kMaxRetirementBytes
      then Err limit_exceeded else Ok ())"

fun limits_loop ::
  "nat \<Rightarrow> nat \<Rightarrow> undo_group list \<Rightarrow> nat \<Rightarrow> nat \<Rightarrow> nat \<Rightarrow> nat \<Rightarrow> (nat \<times> nat \<times> nat) result" where
  "limits_loop depth bytes [] remaining added groups count = Ok (added, groups, count)"
| "limits_loop depth bytes (g # gs) remaining added groups count =
     (if count > depth \<or> remaining > bytes then
        case add_charge added (retirement_charge g) of
          None \<Rightarrow> Err limit_exceeded
        | Some added' \<Rightarrow>
            limits_loop depth bytes gs (remaining - min remaining (ug_retained_bytes g)) added'
              (groups + 1) (count - 1)
      else Ok (added, groups, count))"

definition check_retirement_for_limits :: "'al id_list \<Rightarrow> nat \<Rightarrow> nat \<Rightarrow> unit result" where
  "check_retirement_for_limits st depth bytes =
     (case limits_loop depth bytes (il_undo_stack st) (il_undo_bytes st) 0 0 (length (il_undo_stack st)) of
        Inl e \<Rightarrow> Err e
      | Inr (added, groups, count) \<Rightarrow> final_budget_check st added groups count)"

fun redo_tail_charge :: "undo_group list \<Rightarrow> nat \<Rightarrow> nat \<Rightarrow> (nat \<times> nat) result" where
  "redo_tail_charge [] added groups = Ok (added, groups)"
| "redo_tail_charge (g # gs) added groups =
     (case add_charge added (retirement_charge g) of
        None \<Rightarrow> Err limit_exceeded
      | Some added' \<Rightarrow> redo_tail_charge gs added' (groups + 1))"

definition dec64 :: "nat \<Rightarrow> nat" where
  "dec64 n = (if n = 0 then U64_MAX else n - 1)"

text \<open>
  The simulated trim: active groups first, then the candidate itself. The candidate's charge is
  positive, so the pending bytes grow with every turn and the budget ends the loop.
\<close>

lemma retirement_charge_pos: "0 < retirement_charge_of ops ins dels"
  by (simp add: retirement_charge_of_def sizeof_snapshot_def U64_MAX_eq)

function new_entry_loop ::
  "nat \<Rightarrow> nat \<Rightarrow> nat \<Rightarrow> nat \<Rightarrow> nat \<Rightarrow> undo_group list \<Rightarrow> nat \<Rightarrow> nat \<Rightarrow> nat \<Rightarrow> nat \<Rightarrow>
     (nat \<times> nat \<times> nat) result" where
  "new_entry_loop depth bytes retained ins dels [] remaining added groups count =
     (if count > depth \<or> remaining > bytes then
        case add_charge added (retirement_charge_of 1 ins dels) of
          None \<Rightarrow> Err limit_exceeded
        | Some added' \<Rightarrow>
            new_entry_loop depth bytes retained ins dels []
              (remaining - min remaining retained) added' (groups + 1) (dec64 count)
      else Ok (added, groups, count))"
| "new_entry_loop depth bytes retained ins dels (g # gs) remaining added groups count =
     (if count > depth \<or> remaining > bytes then
        case add_charge added (retirement_charge g) of
          None \<Rightarrow> Err limit_exceeded
        | Some added' \<Rightarrow>
            new_entry_loop depth bytes retained ins dels gs
              (remaining - min remaining (ug_retained_bytes g)) added' (groups + 1) (dec64 count)
      else Ok (added, groups, count))"
  by pat_completeness auto
termination
proof (relation "measures [\<lambda>(md, mb, r, i, d, gs, rem, added, groups, count). length gs,
      \<lambda>(md, mb, r, i, d, gs, rem, added, groups, count). kMaxRetirementBytes - added]", goal_cases)
  case (2 md mb r ins dels rem added groups count added')
  then show ?case
    using retirement_charge_pos [of 1 ins dels] by (auto simp: add_charge_def split: if_splits)
qed simp_all

declare new_entry_loop.simps [simp del]

definition check_retirement_for_new_entry ::
  "'al id_list \<Rightarrow> nat \<Rightarrow> nat \<Rightarrow> nat \<Rightarrow> unit result" where
  "check_retirement_for_new_entry st retained inserted_count deletion_count =
     (case redo_tail_charge (drop (il_cursor st) (il_undo_stack st)) 0 0 of
        Inl e \<Rightarrow> Err e
      | Inr (added, groups) \<Rightarrow>
          let active = take (il_cursor st) (il_undo_stack st);
              before_bytes = saturating_bytes 0 active;
              remaining = (if retained > U64_MAX - before_bytes then U64_MAX else before_bytes + retained)
          in case new_entry_loop (il_max_depth st) (il_max_bytes st) retained
                 inserted_count deletion_count active remaining added groups
                 (il_cursor st + 1) of
               Inl e \<Rightarrow> Err e
             | Inr (added', groups', count) \<Rightarrow> final_budget_check st added' groups' count)"

definition set_max_undo_depth :: "nat \<Rightarrow> 'al id_list \<Rightarrow> 'al id_list \<times> unit result" where
  "set_max_undo_depth depth st =
     (if depth > kMaxRetirementGroups then (st, Err limit_exceeded)
      else case check_retirement_for_limits st depth (il_max_bytes st) of
        Inl e \<Rightarrow> (st, Err e)
      | Inr _ \<Rightarrow> (trim_undo_stack (st\<lparr>il_max_depth := depth\<rparr>), Ok ()))"

definition set_max_undo_bytes :: "nat \<Rightarrow> 'al id_list \<Rightarrow> 'al id_list \<times> unit result" where
  "set_max_undo_bytes bytes st =
     (case check_retirement_for_limits st (il_max_depth st) bytes of
        Inl e \<Rightarrow> (st, Err e)
      | Inr _ \<Rightarrow> (trim_undo_stack (st\<lparr>il_max_bytes := bytes\<rparr>), Ok ()))"

definition coalesce_last_undo :: "'al id_list \<Rightarrow> 'al id_list \<times> bool" where
  "coalesce_last_undo st =
     (if il_cursor st < 2 then (st, False)
      else
        let c = il_cursor st; stack = il_undo_stack st;
            latest = stack ! (c - 1); previous = stack ! (c - 2);
            merged = previous\<lparr>
              ug_inserted := ug_inserted previous @ ug_inserted latest,
              ug_deletions := ug_deletions previous @ ug_deletions latest,
              ug_operation_ids := ug_operation_ids previous @ ug_operation_ids latest,
              ug_retained_bytes :=
                (if ug_retained_bytes latest > U64_MAX - ug_retained_bytes previous then U64_MAX
                 else ug_retained_bytes previous + ug_retained_bytes latest)\<rparr>;
            stack' = take (c - 2) stack @ merged # drop c stack
        in (recalculate_undo_bytes (st\<lparr>il_undo_stack := stack', il_cursor := c - 1\<rparr>), True))"

record history_snapshot =
  hs_entries :: "undo_group list"
  hs_retired :: "undo_group list"
  hs_cursor :: nat

definition local_history_snapshot :: "'al id_list \<Rightarrow> history_snapshot" where
  "local_history_snapshot st =
     \<lparr>hs_entries = il_undo_stack st, hs_retired = il_retired st, hs_cursor = il_cursor st\<rparr>"

definition next_undo_group :: "'al id_list \<Rightarrow> undo_group option" where
  "next_undo_group st =
     (if il_cursor st = 0 then None
      else Some (hs_entries (local_history_snapshot st) ! (il_cursor st - 1)))"

definition next_redo_group :: "'al id_list \<Rightarrow> undo_group option" where
  "next_redo_group st =
     (if il_cursor st \<ge> length (il_undo_stack st) then None
      else Some (hs_entries (local_history_snapshot st) ! il_cursor st))"

fun ack_check :: "undo_group list \<Rightarrow> identity list \<Rightarrow> identity list \<Rightarrow> unit result" where
  "ack_check retired unique [] = Ok ()"
| "ack_check retired unique (i # ids) =
     (if i \<in> set unique then Err malformed
      else if \<not> list_ex (\<lambda>g. ug_group_id g = i) retired then Err not_found
      else ack_check retired (i # unique) ids)"

definition acknowledge_undo_retirements ::
  "identity list \<Rightarrow> 'al id_list \<Rightarrow> 'al id_list \<times> unit result" where
  "acknowledge_undo_retirements group_ids st =
     (case ack_check (il_retired st) [] group_ids of
        Inl e \<Rightarrow> (st, Err e)
      | Inr _ \<Rightarrow>
          (st\<lparr>il_retired_bytes := il_retired_bytes st -
                sum_list (map retirement_charge
                  (filter (\<lambda>g. ug_group_id g \<in> set group_ids) (il_retired st))),
              il_retired := filter (\<lambda>g. ug_group_id g \<notin> set group_ids) (il_retired st)\<rparr>, Ok ()))"

definition valid_local_id :: "'al alloc_ops \<Rightarrow> 'al id_list \<Rightarrow> identity \<Rightarrow> bool" where
  "valid_local_id A st i \<longleftrightarrow>
     actor i = alloc_actor A (il_alloc st) \<and> counter i \<noteq> 0 \<and>
     counter i \<le> get (il_version st) (alloc_actor A (il_alloc st)) \<and> \<not> gap_contains (il_gaps st) i"

definition group_members_valid :: "'al alloc_ops \<Rightarrow> 'al id_list \<Rightarrow> undo_group \<Rightarrow> bool" where
  "group_members_valid A st g \<longleftrightarrow>
     valid_local_id A st (ug_group_id g) \<and> ug_operation_ids g \<noteq> [] \<and>
     list_all (valid_local_id A st) (ug_operation_ids g) \<and>
     list_all (valid_local_id A st) (ug_inserted g) \<and> list_all (valid_local_id A st) (ug_deletions g)"

fun restore_active :: "'al alloc_ops \<Rightarrow> 'al id_list \<Rightarrow> nat \<Rightarrow> undo_group list \<Rightarrow> nat result" where
  "restore_active A st bytes [] = Ok bytes"
| "restore_active A st bytes (g # gs) =
     (if ug_retained_bytes g > il_max_bytes st - min bytes (il_max_bytes st) then Err limit_exceeded
      else if \<not> group_members_valid A st g then Err history_unavailable
      else restore_active A st (bytes + ug_retained_bytes g) gs)"

fun restore_retired :: "'al alloc_ops \<Rightarrow> 'al id_list \<Rightarrow> nat \<Rightarrow> undo_group list \<Rightarrow> nat result" where
  "restore_retired A st bytes [] = Ok bytes"
| "restore_retired A st bytes (g # gs) =
     (case add_charge bytes (retirement_charge g) of
        None \<Rightarrow> Err limit_exceeded
      | Some bytes' \<Rightarrow>
          if \<not> group_members_valid A st g then Err history_unavailable
          else restore_retired A st bytes' gs)"

definition restore_local_history ::
  "'al alloc_ops \<Rightarrow> history_snapshot \<Rightarrow> 'al id_list \<Rightarrow> 'al id_list \<times> unit result" where
  "restore_local_history A snap st =
     (if hs_cursor snap > length (hs_entries snap) \<or> length (hs_entries snap) > il_max_depth st \<or>
         length (hs_retired snap) > kMaxRetirementGroups \<or>
         length (hs_entries snap) > kMaxRetirementGroups - length (hs_retired snap)
      then (st, Err malformed)
      else case restore_active A st 0 (hs_entries snap) of
        Inl e \<Rightarrow> (st, Err e)
      | Inr bytes \<Rightarrow>
          (case restore_retired A st 0 (hs_retired snap) of
             Inl e \<Rightarrow> (st, Err e)
           | Inr retired_bytes \<Rightarrow>
               (st\<lparr>il_undo_stack := hs_entries snap, il_retired := hs_retired snap,
                   il_retired_bytes := retired_bytes, il_cursor := hs_cursor snap,
                   il_undo_bytes := bytes\<rparr>, Ok ())))"

section \<open>Local operations\<close>

definition sizeof_key :: nat where "sizeof_key = sizeof_identity"

definition insert_after_resolved ::
  "'al alloc_ops \<Rightarrow> anchor \<Rightarrow> nat \<Rightarrow> 'al id_list \<Rightarrow> 'al id_list \<times> idlist_operation result" where
  "insert_after_resolved A after eid st =
     (let entries = il_entries st;
          left = (if \<not> is_min after then Some (position after) else None);
          new_link = mint_link entry_ops entries left;
          retained = 8 + sizeof_key
      in case check_retirement_for_new_entry st retained 1 0 of
           Inl e \<Rightarrow> (st, Err e)
         | Inr _ \<Rightarrow>
             (case check_allocator A st of
                Inl e \<Rightarrow> (st, Err e)
              | Inr _ \<Rightarrow>
                  (case reserve_run A (il_alloc st) 1 of
                     (al, Inl e) \<Rightarrow> (st\<lparr>il_alloc := al\<rparr>, Err e)
                   | (al, Inr c) \<Rightarrow>
                       let orig = Identity (alloc_actor A al) c;
                           version_before = il_version st;
                           st1 = st\<lparr>il_alloc := al, il_version := observe (il_version st) orig\<rparr>;
                           placed = (case integrate entry_ops entries (new_entry orig new_link eid) of
                             None \<Rightarrow> entries | Some es \<Rightarrow> es);
                           st2 = set_entries placed st1;
                           st3 = push_undo_group
                             \<lparr>ug_group_id = orig, ug_operation_ids = [orig], ug_inserted = [orig],
                              ug_deletions = [], ug_retained_bytes = retained\<rparr> st2;
                           op = ListInsert \<lparr>li_timestamp = orig, li_version = version_before,
                             li_id = eid, li_link = new_link\<rparr>
                       in (log_event (LocalOpEvent op) (log_event ChangeEvent st3), Ok op))))"

definition try_insert_after ::
  "'al alloc_ops \<Rightarrow> anchor \<Rightarrow> nat \<Rightarrow> 'al id_list \<Rightarrow> 'al id_list \<times> idlist_operation result" where
  "try_insert_after A after eid st =
     (if \<not> is_min after \<and> find_origin (il_entries st) after = None then (st, Err unresolvable_anchor)
      else insert_after_resolved A after eid st)"

definition remove_at_resolved ::
  "'al alloc_ops \<Rightarrow> nat \<Rightarrow> 'al id_list \<Rightarrow> 'al id_list \<times> idlist_operation result" where
  "remove_at_resolved A idx st =
     (let entries = il_entries st;
          target_origin = le_origin (entries ! idx);
          retained = 8 + sizeof_identity
      in case check_retirement_for_new_entry st retained 0 1 of
           Inl e \<Rightarrow> (st, Err e)
         | Inr _ \<Rightarrow>
             (case check_allocator A st of
                Inl e \<Rightarrow> (st, Err e)
              | Inr _ \<Rightarrow>
                  (case reserve_run A (il_alloc st) 1 of
                     (al, Inl e) \<Rightarrow> (st\<lparr>il_alloc := al\<rparr>, Err e)
                   | (al, Inr c) \<Rightarrow>
                       let del_id = Identity (alloc_actor A al) c;
                           version_before = il_version st;
                           st1 = st\<lparr>il_alloc := al, il_version := observe (il_version st) del_id\<rparr>;
                           e = entries ! idx;
                           st2 = set_entries
                             (entries[idx := e\<lparr>le_deletions := le_deletions e @ [del_id]\<rparr>]) st1;
                           st3 = push_undo_group
                             \<lparr>ug_group_id = del_id, ug_operation_ids = [del_id], ug_inserted = [],
                              ug_deletions = [del_id], ug_retained_bytes = retained\<rparr> st2;
                           op = ListRemove \<lparr>lr_timestamp = del_id, lr_version = version_before,
                             lr_target_origin = target_origin\<rparr>
                       in (log_event (LocalOpEvent op) (log_event ChangeEvent st3), Ok op))))"

definition try_remove_at ::
  "'al alloc_ops \<Rightarrow> anchor \<Rightarrow> 'al id_list \<Rightarrow> 'al id_list \<times> idlist_operation result" where
  "try_remove_at A target st =
     (case find_origin (il_entries st) target of
        None \<Rightarrow> (st, Err unresolvable_anchor)
      | Some idx \<Rightarrow> remove_at_resolved A idx st)"

text \<open>The common part of undo and redo: one more count for every item and deletion of the group.\<close>

fun bump_counts :: "undo_map \<Rightarrow> identity \<Rightarrow> identity list \<Rightarrow> undo_map \<times> (identity \<times> nat) list" where
  "bump_counts m timestamp [] = (m, [])"
| "bump_counts m timestamp (i # ids) =
     (let c = u32 (undo_count m i + 1) in
      case bump_counts (undo_insert m \<lparr>ue_edit = i, ue_undo = timestamp, ue_count = c\<rparr>) timestamp ids of
        (m', counts) \<Rightarrow> (m', (i, c) # counts))"

definition flip_group ::
  "undo_group \<Rightarrow> identity \<Rightarrow> 'al id_list \<Rightarrow> 'al id_list \<times> idlist_operation" where
  "flip_group g timestamp st =
     (case bump_counts (il_undo_map st) timestamp (ug_inserted g @ ug_deletions g) of
        (m, counts) \<Rightarrow>
          let op = ListUndo \<lparr>lu_timestamp = timestamp, lu_version = il_version st, lu_counts = counts\<rparr>;
              st1 = set_entries (il_entries st) (st\<lparr>il_undo_map := m\<rparr>);
              st2 = st1\<lparr>il_version := observe (il_version st1) timestamp\<rparr>
          in (log_event (LocalOpEvent op) (log_event ChangeEvent st2), op))"

definition try_undo_group ::
  "'al alloc_ops \<Rightarrow> identity \<Rightarrow> 'al id_list \<Rightarrow> 'al id_list \<times> idlist_operation option result" where
  "try_undo_group A group_id st =
     (case find (\<lambda>i. ug_group_id (il_undo_stack st ! i) = group_id) [0..<il_cursor st] of
        None \<Rightarrow> (st, Err history_unavailable)
      | Some index \<Rightarrow>
          (case check_allocator A st of
             Inl e \<Rightarrow> (st, Err e)
           | Inr _ \<Rightarrow>
               (case reserve_run A (il_alloc st) 1 of
                  (al, Inl e) \<Rightarrow> (st\<lparr>il_alloc := al\<rparr>, Err e)
                | (al, Inr c) \<Rightarrow>
                    let stack = il_undo_stack st; g = stack ! index;
                        erased = take index stack @ drop (index + 1) stack;
                        cursor = il_cursor st - 1;
                        st1 = st\<lparr>il_alloc := al,
                          il_undo_stack := take cursor erased @ g # drop cursor erased,
                          il_cursor := cursor\<rparr>
                    in case flip_group g (Identity (alloc_actor A al) c) st1 of
                         (st2, op) \<Rightarrow> (st2, Ok (Some op)))))"

definition try_undo :: "'al alloc_ops \<Rightarrow> 'al id_list \<Rightarrow> 'al id_list \<times> idlist_operation option result" where
  "try_undo A st =
     (if il_cursor st = 0 then (st, Ok None)
      else try_undo_group A (ug_group_id (il_undo_stack st ! (il_cursor st - 1))) st)"

definition try_redo_group ::
  "'al alloc_ops \<Rightarrow> identity \<Rightarrow> 'al id_list \<Rightarrow> 'al id_list \<times> idlist_operation option result" where
  "try_redo_group A group_id st =
     (case find (\<lambda>i. ug_group_id (il_undo_stack st ! i) = group_id)
             [il_cursor st..<length (il_undo_stack st)] of
        None \<Rightarrow> (st, Err history_unavailable)
      | Some index \<Rightarrow>
          (case check_allocator A st of
             Inl e \<Rightarrow> (st, Err e)
           | Inr _ \<Rightarrow>
               (case reserve_run A (il_alloc st) 1 of
                  (al, Inl e) \<Rightarrow> (st\<lparr>il_alloc := al\<rparr>, Err e)
                | (al, Inr c) \<Rightarrow>
                    let stack = il_undo_stack st; g = stack ! index;
                        erased = take index stack @ drop (index + 1) stack;
                        cursor = il_cursor st;
                        st1 = st\<lparr>il_alloc := al,
                          il_undo_stack := take cursor erased @ g # drop cursor erased,
                          il_cursor := cursor + 1\<rparr>
                    in case flip_group g (Identity (alloc_actor A al) c) st1 of
                         (st2, op) \<Rightarrow> (st2, Ok (Some op)))))"

definition try_redo :: "'al alloc_ops \<Rightarrow> 'al id_list \<Rightarrow> 'al id_list \<times> idlist_operation option result" where
  "try_redo A st =
     (if il_cursor st \<ge> length (il_undo_stack st) then (st, Ok None)
      else try_redo_group A (ug_group_id (il_undo_stack st ! il_cursor st)) st)"

section \<open>Queries\<close>

definition visible_entries :: "'al id_list \<Rightarrow> list_entry list" where
  "visible_entries st = filter le_visible (il_entries st)"

definition list_ids :: "'al id_list \<Rightarrow> nat list" where
  "list_ids st = map le_id (visible_entries st)"

definition list_size :: "'al id_list \<Rightarrow> nat" where
  "list_size st = length (visible_entries st)"

definition mk_anchor :: "identity \<Rightarrow> bias \<Rightarrow> anchor" where
  "mk_anchor i b = \<lparr>position = i, a_bias = b, at_end = False\<rparr>"

fun anchor_at_index_loop :: "list_entry list \<Rightarrow> nat \<Rightarrow> nat \<Rightarrow> bias \<Rightarrow> anchor" where
  "anchor_at_index_loop [] seen index b = anchor_end"
| "anchor_at_index_loop (e # es) seen index b =
     (if \<not> le_visible e then anchor_at_index_loop es seen index b
      else if seen = index then mk_anchor (le_origin e) b
      else anchor_at_index_loop es (seen + 1) index b)"

definition anchor_at_index :: "'al id_list \<Rightarrow> nat \<Rightarrow> bias \<Rightarrow> anchor" where
  "anchor_at_index st index b = anchor_at_index_loop (il_entries st) 0 index b"

definition try_anchor_of :: "'al id_list \<Rightarrow> nat \<Rightarrow> bias \<Rightarrow> anchor result" where
  "try_anchor_of st eid b =
     (case find (\<lambda>e. le_visible e \<and> le_id e = eid) (il_entries st) of
        None \<Rightarrow> Err unresolvable_anchor
      | Some e \<Rightarrow> Ok (mk_anchor (le_origin e) b))"

fun resolve_loop :: "list_entry list \<Rightarrow> identity \<Rightarrow> nat \<Rightarrow> nat option" where
  "resolve_loop [] i accumulated = None"
| "resolve_loop (e # es) i accumulated =
     (if le_origin e = i then Some accumulated
      else resolve_loop es i (if le_visible e then accumulated + 1 else accumulated))"

definition resolve_anchor :: "'al id_list \<Rightarrow> anchor \<Rightarrow> nat" where
  "resolve_anchor st a =
     (if is_min a then 0
      else if is_end a then list_size st
      else case resolve_loop (il_entries st) (position a) 0 of None \<Rightarrow> list_size st | Some n \<Rightarrow> n)"

definition compare_anchors :: "'al id_list \<Rightarrow> anchor \<Rightarrow> anchor \<Rightarrow> int" where
  "compare_anchors st a b =
     (let pa = resolve_anchor st a; pb = resolve_anchor st b in
      if pa < pb then -1
      else if pa > pb then 1
      else if a_bias a \<noteq> a_bias b then (if a_bias a = BiasLeft then -1 else 1)
      else 0)"

definition tombstone_count :: "'al id_list \<Rightarrow> nat" where
  "tombstone_count st = length (filter (\<lambda>e. \<not> le_visible e) (il_entries st))"

definition entry_count :: "'al id_list \<Rightarrow> nat" where
  "entry_count st = length (il_entries st)"

section \<open>Remote operations\<close>

definition gap_conflicts :: "gap_ledger \<Rightarrow> idlist_operation \<Rightarrow> bool" where
  "gap_conflicts gaps op =
     (if gl_records gaps = [] \<or> \<not> actor_valid (actor (idlist_op_identity op)) then False
      else if ledger_conflicts_idlist gaps op then True
      else case op of
        ListInsert i \<Rightarrow>
          (case parent (li_link i) of None \<Rightarrow> False | Some p \<Rightarrow> gap_contains gaps p) \<or>
          (case right_origin (li_link i) of None \<Rightarrow> False | Some r \<Rightarrow> gap_contains gaps r)
      | ListRemove r \<Rightarrow> gap_contains gaps (lr_target_origin r)
      | ListUndo u \<Rightarrow> list_ex (\<lambda>(target, count). gap_contains gaps target) (lu_counts u))"

text \<open>
  \<open>apply_concrete\<close> and \<open>try_apply\<close>: the new state, or the refusal with \<open>m_apply_error\<close>, which is
  empty when the operation may still become applicable. A refusal changes nothing.
\<close>

type_synonym 'al attempt = "error_code option + 'al id_list"

definition integrated ::
  "'al alloc_ops \<Rightarrow> identity \<Rightarrow> global \<Rightarrow> list_entry list \<Rightarrow> 'al id_list \<Rightarrow> 'al id_list" where
  "integrated A timestamp version entries st =
     (let st1 = observe_remote A timestamp st;
          st2 = st1\<lparr>il_version := join (observe (il_version st1) timestamp) version\<rparr>
      in log_event ChangeEvent (set_entries entries st2))"

definition dependency_reclaimed :: "'al id_list \<Rightarrow> identity option \<Rightarrow> bool" where
  "dependency_reclaimed st dep =
     (case dep of
        None \<Rightarrow> False
      | Some i \<Rightarrow> \<not> list_ex (\<lambda>e. le_origin e = i) (il_entries st) \<and>
          operation_is_covered (rb_frontier (il_reclamation st)) i)"

definition apply_insert :: "'al alloc_ops \<Rightarrow> list_insert_op \<Rightarrow> 'al id_list \<Rightarrow> 'al attempt" where
  "apply_insert A op st =
     (if dependency_reclaimed st (parent (li_link op)) \<or>
         dependency_reclaimed st (right_origin (li_link op)) then Inl (Some history_unavailable)
      else case integrate entry_ops (il_entries st) (new_entry (li_timestamp op) (li_link op) (li_id op)) of
        None \<Rightarrow> Inl (Some malformed)
      | Some entries \<Rightarrow> Inr (integrated A (li_timestamp op) (li_version op) entries st))"

fun mark_deleted :: "identity \<Rightarrow> identity \<Rightarrow> list_entry list \<Rightarrow> list_entry list option" where
  "mark_deleted target del [] = None"
| "mark_deleted target del (e # es) =
     (if le_origin e = target then Some (e\<lparr>le_deletions := le_deletions e @ [del]\<rparr> # es)
      else map_option ((#) e) (mark_deleted target del es))"

definition apply_remove :: "'al alloc_ops \<Rightarrow> list_remove_op \<Rightarrow> 'al id_list \<Rightarrow> 'al attempt" where
  "apply_remove A op st =
     (case mark_deleted (lr_target_origin op) (lr_timestamp op) (il_entries st) of
        None \<Rightarrow>
          Inl (if operation_is_covered (rb_frontier (il_reclamation st)) (lr_target_origin op)
               then Some history_unavailable else None)
      | Some entries \<Rightarrow> Inr (integrated A (lr_timestamp op) (lr_version op) entries st))"

definition apply_undo :: "'al alloc_ops \<Rightarrow> list_undo_op \<Rightarrow> 'al id_list \<Rightarrow> 'al attempt" where
  "apply_undo A op st =
     (if list_ex (\<lambda>(i, c). operation_is_covered (rb_frontier (il_reclamation st)) i) (lu_counts op)
      then Inl (Some history_unavailable)
      else Inr (integrated A (lu_timestamp op) (lu_version op) (il_entries st)
        (st\<lparr>il_undo_map := undo_insert_all (il_undo_map st) (lu_timestamp op) (lu_counts op)\<rparr>)))"

definition apply_concrete :: "'al alloc_ops \<Rightarrow> idlist_operation \<Rightarrow> 'al id_list \<Rightarrow> 'al attempt" where
  "apply_concrete A op st =
     (case op of ListInsert i \<Rightarrow> apply_insert A i st | ListRemove r \<Rightarrow> apply_remove A r st
      | ListUndo u \<Rightarrow> apply_undo A u st)"

definition try_apply :: "'al alloc_ops \<Rightarrow> idlist_operation \<Rightarrow> 'al id_list \<Rightarrow> 'al attempt" where
  "try_apply A op st =
     (if \<not> observed_all (il_version st) (idlist_op_version op) then Inl None
      else apply_concrete A op st)"

definition quarantine :: "idlist_operation \<Rightarrow> error_code \<Rightarrow> 'al id_list \<Rightarrow> 'al id_list" where
  "quarantine op reason st =
     (let bytes = estimate_idlist_bytes op in
      if \<not> deferred_budget_exhausted (il_quarantine_budget st) (length (il_quarantined st))
          (il_quarantined_bytes st) bytes
      then st\<lparr>il_quarantined := il_quarantined st @ [(op, reason)],
              il_quarantined_bytes := il_quarantined_bytes st + bytes\<rparr>
      else st)"

definition defer_or_quarantine ::
  "idlist_operation \<Rightarrow> identity \<Rightarrow> 'al id_list \<Rightarrow> 'al id_list \<times> apply_outcome" where
  "defer_or_quarantine op awaiting st =
     (let bytes = estimate_idlist_bytes op in
      if deferred_budget_exhausted (il_deferred_budget st) (il_deferred_count st)
          (il_deferred_bytes st) bytes
      then (quarantine op deferred_queue_full st, Rejected deferred_queue_full)
      else (st\<lparr>il_deferred := il_deferred st @
                 [\<lparr>oe_timestamp = idlist_op_identity op, oe_op = op\<rparr>],
               il_deferred_count := il_deferred_count st + 1,
               il_deferred_bytes := il_deferred_bytes st + bytes\<rparr>, Deferred awaiting))"

definition apply_one ::
  "'al alloc_ops \<Rightarrow> idlist_operation \<Rightarrow> 'al id_list \<Rightarrow> 'al id_list \<times> apply_outcome" where
  "apply_one A op st =
     (let ts = idlist_op_identity op in
      case validate_idlist_operation_identity op of
        Reject e \<Rightarrow> (st, Rejected e)
      | Defer _ \<Rightarrow> (st, Rejected malformed) \<comment> \<open>never: identities are valid or rejected\<close>
      | Valid \<Rightarrow>
          if gap_conflicts (il_gaps st) op then (st, Rejected actor_conflict)
          else if observed (il_version st) ts then (st, Duplicate)
          else case validate_idlist_operation op (il_version st) of
            Reject e \<Rightarrow> (st, Rejected e)
          | Defer awaiting \<Rightarrow> defer_or_quarantine op awaiting st
          | Valid \<Rightarrow>
              (case try_apply A op st of
                 Inr st' \<Rightarrow> (st', Applied)
               | Inl (Some e) \<Rightarrow> (st, Rejected e)
               | Inl None \<Rightarrow> defer_or_quarantine op ts st))"

text \<open>One pass over the deferral queue: the kept entries and whether anything moved.\<close>

fun retry_pass ::
  "'al alloc_ops \<Rightarrow> list_op_entry list \<Rightarrow> 'al id_list \<Rightarrow> 'al id_list \<times> list_op_entry list \<times> bool" where
  "retry_pass A [] st = (st, [], False)"
| "retry_pass A (e # es) st =
     (if observed (il_version st) (idlist_op_identity (oe_op e)) then
        case retry_pass A es st of (st', rest, _) \<Rightarrow> (st', rest, True)
      else case try_apply A (oe_op e) st of
        Inr st1 \<Rightarrow> (case retry_pass A es st1 of (st', rest, _) \<Rightarrow> (st', rest, True))
      | Inl (Some err) \<Rightarrow>
          (case retry_pass A es (quarantine (oe_op e) err st) of (st', rest, _) \<Rightarrow> (st', rest, True))
      | Inl None \<Rightarrow> (case retry_pass A es st of (st', rest, p) \<Rightarrow> (st', e # rest, p)))"

lemma retry_pass_length:
  "retry_pass A es st = (st', rest, p) \<Longrightarrow>
     length rest \<le> length es \<and> (p \<longrightarrow> length rest < length es)"
proof (induction A es st arbitrary: st' rest p rule: retry_pass.induct)
  case (2 A e es st)
  then show ?case
    by (fastforce split: if_splits sum.splits option.splits prod.splits)
qed simp

function retry_deferred :: "'al alloc_ops \<Rightarrow> 'al id_list \<Rightarrow> 'al id_list" where
  "retry_deferred A st =
     (case retry_pass A (il_deferred st) st of
        (st1, remaining, progress) \<Rightarrow>
          let st2 = st1\<lparr>il_deferred := remaining, il_deferred_count := length remaining,
                il_deferred_bytes := sum_list (map (\<lambda>e. estimate_idlist_bytes (oe_op e)) remaining)\<rparr>
          in if progress then retry_deferred A st2 else st2)"
  by pat_completeness auto
termination
  by (relation "measure (\<lambda>(A, st). length (il_deferred st))") (auto dest: retry_pass_length [OF sym])

declare retry_deferred.simps [simp del]

fun apply_each ::
  "'al alloc_ops \<Rightarrow> idlist_operation list \<Rightarrow> 'al id_list \<Rightarrow> 'al id_list \<times> apply_outcome list" where
  "apply_each A [] st = (st, [])"
| "apply_each A (op # ops) st =
     (case apply_one A op st of
        (st1, out) \<Rightarrow> (case apply_each A ops st1 of (st2, outs) \<Rightarrow> (st2, out # outs)))"

definition apply_ops ::
  "'al alloc_ops \<Rightarrow> idlist_operation list \<Rightarrow> 'al id_list \<Rightarrow> 'al id_list \<times> apply_outcome list" where
  "apply_ops A ops st =
     (case apply_each A ops st of (st1, outs) \<Rightarrow> (retry_deferred A st1, outs))"

definition apply_remote_op_checked ::
  "'al alloc_ops \<Rightarrow> idlist_operation \<Rightarrow> 'al id_list \<Rightarrow> 'al id_list \<times> apply_outcome" where
  "apply_remote_op_checked A op st =
     (case apply_ops A [op] st of
        (st', outs) \<Rightarrow> (st', if outs = [] then Rejected malformed else hd outs))"

definition apply_remote_op ::
  "'al alloc_ops \<Rightarrow> idlist_operation \<Rightarrow> 'al id_list \<Rightarrow> 'al id_list \<times> bool" where
  "apply_remote_op A op st =
     (case apply_remote_op_checked A op st of
        (st', out) \<Rightarrow> (st', case out of Rejected _ \<Rightarrow> False | _ \<Rightarrow> True))"

definition apply_counter_gap ::
  "'al alloc_ops \<Rightarrow> counter_gap \<Rightarrow> 'al id_list \<Rightarrow> 'al id_list \<times> apply_outcome" where
  "apply_counter_gap A g st =
     (case gap_check (il_gaps st) g (il_version st) of
        Applied \<Rightarrow>
          (let offered = fst (gap_commit empty_ledger g (gap_prior g)) in
           if list_ex (\<lambda>e. gap_conflicts offered (oe_op e)) (il_deferred st) \<or>
              list_ex (\<lambda>(op, _). gap_conflicts offered op) (il_quarantined st)
           then (st, Rejected actor_conflict)
           else case gap_commit (il_gaps st) g (il_version st) of
             (ledger, version) \<Rightarrow>
               (retry_deferred A (observe_remote A
                 (Identity (gap_actor g) (gap_first g + gap_count g - 1))
                 (st\<lparr>il_gaps := ledger, il_version := version\<rparr>)), Applied))
      | out \<Rightarrow> (st, out))"

section \<open>Budgets, quarantine, detached view\<close>

definition set_deferred_budget :: "deferred_budget \<Rightarrow> 'al id_list \<Rightarrow> 'al id_list" where
  "set_deferred_budget b st = st\<lparr>il_deferred_budget := b\<rparr>"

definition set_quarantine_budget :: "deferred_budget \<Rightarrow> 'al id_list \<Rightarrow> 'al id_list \<times> unit result" where
  "set_quarantine_budget b st =
     (if length (il_quarantined st) > max_operations b \<or> il_quarantined_bytes st > max_bytes b
      then (st, Err malformed) else (st\<lparr>il_quarantine_budget := b\<rparr>, Ok ()))"

definition take_quarantined ::
  "'al id_list \<Rightarrow> 'al id_list \<times> (idlist_operation \<times> error_code) list" where
  "take_quarantined st =
     (st\<lparr>il_quarantined_bytes := 0, il_quarantined := []\<rparr>, il_quarantined st)"

definition discard_local_view :: "'al id_list \<Rightarrow> 'al id_list" where
  "discard_local_view st =
     st\<lparr>il_entries := [], il_undo_map := undo_clear (il_undo_map st), il_undo_stack := [],
        il_cursor := 0, il_undo_bytes := 0, il_deferred := [], il_deferred_count := 0,
        il_deferred_bytes := 0, il_quarantined := [], il_quarantined_bytes := 0\<rparr>"

section \<open>Certified collection\<close>

definition retained_by_history :: "'al id_list \<Rightarrow> list_entry \<Rightarrow> bool" where
  "retained_by_history st e =
     list_ex (\<lambda>g. le_origin e \<in> set (ug_inserted g) \<or>
         list_ex (\<lambda>d. d \<in> set (le_deletions e)) (ug_deletions g))
       (il_undo_stack st @ il_retired st)"

definition referenced_by_other :: "list_entry list \<Rightarrow> nat \<Rightarrow> bool" where
  "referenced_by_other es i =
     list_ex (\<lambda>j. i \<noteq> j \<and> (parent (le_link (es ! j)) = Some (le_origin (es ! i)) \<or>
         right_origin (le_link (es ! j)) = Some (le_origin (es ! i)))) [0..<length es]"

definition uncovered_undo :: "frontier \<Rightarrow> undo_map \<Rightarrow> list_entry \<Rightarrow> bool" where
  "uncovered_undo f m e =
     list_ex (\<lambda>event. (ue_edit event = le_origin e \<or> ue_edit event \<in> set (le_deletions e)) \<and>
        \<not> operation_is_covered f (ue_undo event)) m"

definition reclaimable :: "'al id_list \<Rightarrow> identity set \<Rightarrow> nat \<Rightarrow> bool" where
  "reclaimable st pinned i =
     (let e = il_entries st ! i; f = rb_frontier (il_reclamation st) in
      \<not> (le_visible e \<or> \<not> tombstone_is_covered f (le_origin e) 1 (le_deletions e) \<or>
         retained_by_history st e \<or> le_origin e \<in> pinned) \<and>
      \<not> referenced_by_other (il_entries st) i \<and>
      \<not> uncovered_undo f (il_undo_map st) e)"

definition collect_garbage :: "identity set \<Rightarrow> 'al id_list \<Rightarrow> 'al id_list \<times> nat result" where
  "collect_garbage pinned st =
     (if \<not> binding_well_formed (il_reclamation st) \<or> binding_empty (il_reclamation st)
      then (st, Err awaiting_state)
      else if list_ex (\<lambda>(a, through). get (il_version st) a < through) (rb_frontier (il_reclamation st))
      then (st, Err counter_regression)
      else
        let entries = il_entries st;
            removed = filter (reclaimable st pinned) [0..<length entries];
            is_target = (\<lambda>i. list_ex (\<lambda>k. le_origin (entries ! k) = i \<or>
              i \<in> set (le_deletions (entries ! k))) removed)
        in if removed = [] then (st, Ok 0)
           else case undo_restore (filter (\<lambda>event. \<not> is_target (ue_edit event)) (il_undo_map st)) of
             Inl e \<Rightarrow> (st, Err e)
           | Inr rebuilt \<Rightarrow>
               (st\<lparr>il_undo_map := rebuilt,
                   il_entries := map (refresh_visible rebuilt)
                     (map ((!) entries) (filter (\<lambda>k. k \<notin> set removed) [0..<length entries]))\<rparr>,
                Ok (length removed)))"

section \<open>Checkpoints\<close>

record list_checkpoint =
  ck_version :: global
  ck_gaps :: "counter_gap list"
  ck_entries :: "list_entry list"
  ck_undo_entries :: "undo_entry list"
  ck_deferred :: "list_op_entry list"
  ck_quarantined :: "(idlist_operation \<times> error_code) list"
  ck_reclamation :: reclamation_binding

definition checkpoint_state :: "'al id_list \<Rightarrow> list_checkpoint" where
  "checkpoint_state st =
     \<lparr>ck_version = il_version st, ck_gaps = gl_records (il_gaps st), ck_entries = il_entries st,
      ck_undo_entries = il_undo_map st, ck_deferred = il_deferred st,
      ck_quarantined = il_quarantined st, ck_reclamation = il_reclamation st\<rparr>"

definition valid_identity :: "identity \<Rightarrow> bool" where
  "valid_identity i \<longleftrightarrow> actor_valid (actor i) \<and> counter i \<noteq> 0 \<and> counter i \<noteq> U64_MAX"

definition observed_identity :: "global \<Rightarrow> gap_ledger \<Rightarrow> identity \<Rightarrow> bool" where
  "observed_identity v gaps i \<longleftrightarrow> valid_identity i \<and> observed v i \<and> \<not> gap_contains gaps i"

definition checked_entry :: "global \<Rightarrow> gap_ledger \<Rightarrow> list_entry \<Rightarrow> bool" where
  "checked_entry v gaps e \<longleftrightarrow>
     observed_identity v gaps (le_origin e) \<and>
     (\<forall>i \<in> set_option (parent (le_link e)). observed_identity v gaps i) \<and>
     (\<forall>i \<in> set_option (right_origin (le_link e)). observed_identity v gaps i) \<and>
     list_all (observed_identity v gaps) (le_deletions e) \<and> distinct (le_deletions e)"

fun check_entries :: "global \<Rightarrow> gap_ledger \<Rightarrow> identity list \<Rightarrow> list_entry list \<Rightarrow> unit result" where
  "check_entries v gaps seen [] = Ok ()"
| "check_entries v gaps seen (e # es) =
     (if le_origin e \<in> set seen \<or> \<not> checked_entry v gaps e then Err malformed
      else check_entries v gaps (le_origin e # seen) es)"

fun check_deferred ::
  "global \<Rightarrow> gap_ledger \<Rightarrow> deferred_budget \<Rightarrow> identity list \<Rightarrow> nat \<Rightarrow> list_op_entry list \<Rightarrow>
     (identity list \<times> nat) result" where
  "check_deferred v gaps budget seen bytes [] = Ok (seen, bytes)"
| "check_deferred v gaps budget seen bytes (e # es) =
     (let ts = idlist_op_identity (oe_op e); size = estimate_idlist_bytes (oe_op e) in
      if gap_conflicts gaps (oe_op e) then Err actor_conflict
      else if ts \<noteq> oe_timestamp e \<or> \<not> valid_identity ts \<or> observed v ts \<or> ts \<in> set seen
        then Err malformed
      else case validate_idlist_operation (oe_op e) v of
        Reject err \<Rightarrow> Err err
      | _ \<Rightarrow>
          if size > U64_MAX - bytes \<or> size > max_bytes budget - min bytes (max_bytes budget)
          then Err limit_exceeded
          else check_deferred v gaps budget (ts # seen) (bytes + size) es)"

fun check_quarantined ::
  "global \<Rightarrow> gap_ledger \<Rightarrow> deferred_budget \<Rightarrow> identity list \<Rightarrow> nat \<Rightarrow>
     (idlist_operation \<times> error_code) list \<Rightarrow> nat result" where
  "check_quarantined v gaps budget seen bytes [] = Ok bytes"
| "check_quarantined v gaps budget seen bytes ((op, reason) # es) =
     (let ts = idlist_op_identity op; size = estimate_idlist_bytes op in
      if gap_conflicts gaps op then Err actor_conflict
      else if \<not> valid_identity ts \<or> observed v ts \<or> ts \<in> set seen then Err malformed
      else if size > U64_MAX - bytes \<or> size > max_bytes budget - min bytes (max_bytes budget)
        then Err limit_exceeded
      else check_quarantined v gaps budget (ts # seen) (bytes + size) es)"

definition restore_checkpoint_state ::
  "'al alloc_ops \<Rightarrow> list_checkpoint \<Rightarrow> 'al id_list \<Rightarrow> 'al id_list \<times> unit result" where
  "restore_checkpoint_state A snap st =
     (let refuse = (\<lambda>e. (st, Err e)); v = ck_version snap in
      if \<not> binding_well_formed (ck_reclamation snap) then refuse malformed
      else if list_ex (\<lambda>(a, through). get v a < through) (rb_frontier (ck_reclamation snap))
        then refuse counter_regression
      else if get v (alloc_actor A (il_alloc st)) \<ge> alloc_peek A (il_alloc st)
        then refuse counter_regression
      else if length (ck_deferred snap) > max_operations (il_deferred_budget st) \<or>
          length (ck_quarantined snap) > max_operations (il_quarantine_budget st)
        then refuse limit_exceeded
      else case gap_restore (ck_gaps snap) v of
        Inl e \<Rightarrow> refuse e
      | Inr gaps \<Rightarrow>
        (case undo_restore (ck_undo_entries snap) of
           Inl e \<Rightarrow> refuse e
         | Inr um \<Rightarrow>
           if \<not> list_all (\<lambda>u. observed_identity v gaps (ue_edit u) \<and> observed_identity v gaps (ue_undo u))
               (ck_undo_entries snap) then refuse malformed
           else case check_entries v gaps [] (ck_entries snap) of
             Inl e \<Rightarrow> refuse e
           | Inr _ \<Rightarrow>
             if check_consistency entry_ops (ck_entries snap) \<noteq> None then refuse malformed
             else case check_deferred v gaps (il_deferred_budget st) [] 0 (ck_deferred snap) of
               Inl e \<Rightarrow> refuse e
             | Inr (seen, deferred_bytes) \<Rightarrow>
               if deferred_bytes > max_bytes (il_deferred_budget st) then refuse limit_exceeded
               else case check_quarantined v gaps (il_quarantine_budget st) seen 0 (ck_quarantined snap) of
                 Inl e \<Rightarrow> refuse e
               | Inr quarantine_bytes \<Rightarrow>
                 if quarantine_bytes > max_bytes (il_quarantine_budget st) then refuse limit_exceeded
                 else
                   let rebuilt = (new_id_list (il_alloc st))
                         \<lparr>il_gaps := gaps, il_deferred_budget := il_deferred_budget st,
                          il_quarantine_budget := il_quarantine_budget st,
                          il_max_depth := il_max_depth st, il_max_bytes := il_max_bytes st,
                          il_reclamation := ck_reclamation snap, il_undo_map := um,
                          il_version := v, il_deferred := ck_deferred snap,
                          il_deferred_count := length (ck_deferred snap),
                          il_deferred_bytes := deferred_bytes,
                          il_quarantined := ck_quarantined snap,
                          il_quarantined_bytes := quarantine_bytes\<rparr>
                   in case restore_local_history A (local_history_snapshot st)
                          (set_entries (ck_entries snap) rebuilt) of
                        (_, Inl e) \<Rightarrow> refuse e
                      | (rebuilt', Inr _) \<Rightarrow> (rebuilt'\<lparr>il_log := il_log st\<rparr>, Ok ())))"

section \<open>Entries as runs\<close>

text \<open>An entry is never split: the position of an insertion is always a run boundary.\<close>

interpretation entries: run_interface entry_ops
  by unfold_locales (simp_all add: entry_ops_def)

lemma entry_ops_simps [simp, run_simps]:
  "origin entry_ops e = le_origin e" "run_length entry_ops e = 1" "run_link entry_ops e = le_link e"
  by (simp_all add: entry_ops_def)

lemma items_entry [simp, run_simps]:
  "items entry_ops es = map (\<lambda>e. (le_origin e, le_link e)) es"
  by (induction es) (simp_all add: run_items_def)

lemma run_ids_entry [simp, run_simps]: "run_ids entry_ops es = map le_origin es"
  by (simp add: run_ids_def)

lemma run_fresh_entry [simp]: "run_fresh entry_ops S e \<longleftrightarrow> le_origin e \<notin> S"
  by (auto simp: run_fresh_def)

end
