(* ===== verification/List_Invariant.thy ===== *)
theory List_Invariant
  imports Id_List
begin

text \<open>
  The invariant of the list engine and its preservation. \<open>list_ok\<close> says that the entries are the
  document order of their links, that every visibility flag is the one the undo map prescribes,
  that everything in the list was observed, that the counts and byte totals of the deferral
  queue, the quarantine and the undo history are the ones of their contents, and that the
  counter gaps are consistent with the version.
\<close>

section \<open>Placing one entry\<close>

lemma integrate_entry:
  assumes ok: "runs_ok entry_ops es" and fresh: "le_origin e \<notin> le_origin ` set es"
    and present: "link_present (links entry_ops es) (le_link e)"
  obtains us vs where "es = us @ vs" "integrate entry_ops es e = Some (us @ e # vs)"
    "runs_ok entry_ops (us @ e # vs)"
proof -
  have f: "run_fresh entry_ops (set (run_ids entry_ops es)) e"
    using fresh by simp
  obtain q where q: "run_cut entry_ops es e q" "integrate_slow entry_ops es e = Some (insert_run entry_ops es q e)"
    using slow_cut [OF ok f] present by auto
  have "snd q = 0"
    using q(1) by (auto simp: norm_pos_def valid_pos_def)
  then have eq: "insert_run entry_ops es q e = take (fst q) es @ e # drop (fst q) es"
    by (simp add: insert_run_def)
  have "runs_ok entry_ops (insert_run entry_ops es q e)"
    using entries.run_cut_ok [OF ok f q(1)] .
  then show thesis
    using that [of "take (fst q) es" "drop (fst q) es"] q(2) eq integrate_eq_slow [OF ok f] by simp
qed

lemma integrate_entry_Some:
  assumes ok: "runs_ok entry_ops es" and fresh: "le_origin e \<notin> le_origin ` set es"
    and wf: "link_wf (le_link e)" and some: "integrate entry_ops es e = Some es'"
  obtains us vs where "es = us @ vs" "es' = us @ e # vs" "runs_ok entry_ops es'"
proof -
  have "link_present (links entry_ops es) (le_link e)"
    using integrate_None_iff [of entry_ops es e] ok fresh wf some by auto
  then show thesis
    using integrate_entry [OF ok fresh] some that by (metis option.inject)
qed

text \<open>\<open>runs_ok\<close> only looks at origins and links.\<close>

lemma runs_ok_entries_cong:
  assumes "map (\<lambda>e. (le_origin e, le_link e)) es = map (\<lambda>e. (le_origin e, le_link e)) es'"
  shows "runs_ok entry_ops es \<longleftrightarrow> runs_ok entry_ops es'"
proof -
  have "map le_origin es = map le_origin es'"
    using arg_cong [OF assms, of "map fst"] by (simp add: comp_def)
  then show ?thesis
    using assms by (auto simp: runs_ok_def)
qed

lemma refresh_simps [simp]:
  "le_origin (refresh_visible m e) = le_origin e" "le_link (refresh_visible m e) = le_link e"
  "le_id (refresh_visible m e) = le_id e" "le_deletions (refresh_visible m e) = le_deletions e"
  "le_visible (refresh_visible m e) = compute_visible e m"
  "compute_visible (refresh_visible m e) n = compute_visible e n"
  by (simp_all add: refresh_visible_def compute_visible_def)

lemma runs_ok_refresh [simp]: "runs_ok entry_ops (map (refresh_visible m) es) \<longleftrightarrow> runs_ok entry_ops es"
  by (rule runs_ok_entries_cong) simp

section \<open>The invariant\<close>

definition op_ok :: "idlist_operation \<Rightarrow> bool" where
  "op_ok op \<longleftrightarrow> counter (idlist_op_identity op) \<noteq> 0 \<and>
     (case op of
        ListInsert i \<Rightarrow> link_wf (li_link i)
      | ListRemove r \<Rightarrow> True
      | ListUndo u \<Rightarrow> \<forall>(i, c) \<in> set (lu_counts u). counter i \<noteq> 0)"

definition entry_ok :: "global \<Rightarrow> list_entry \<Rightarrow> bool" where
  "entry_ok v e \<longleftrightarrow> observed v (le_origin e) \<and> list_all (observed v) (le_deletions e)"

definition flags_ok :: "undo_map \<Rightarrow> list_entry list \<Rightarrow> bool" where
  "flags_ok m es \<longleftrightarrow> list_all (\<lambda>e. le_visible e = compute_visible e m) es"

definition queue_ok :: "'al id_list \<Rightarrow> bool" where
  "queue_ok st \<longleftrightarrow>
     il_deferred_count st = length (il_deferred st) \<and>
     il_deferred_bytes st = sum_list (map (\<lambda>e. estimate_idlist_bytes (oe_op e)) (il_deferred st)) \<and>
     list_all (\<lambda>e. oe_timestamp e = idlist_op_identity (oe_op e) \<and> op_ok (oe_op e)) (il_deferred st) \<and>
     il_quarantined_bytes st = sum_list (map (\<lambda>q. estimate_idlist_bytes (fst q)) (il_quarantined st))"

definition group_ok :: "undo_group \<Rightarrow> bool" where
  "group_ok g \<longleftrightarrow> list_all (\<lambda>i. counter i \<noteq> 0) (ug_inserted g @ ug_deletions g)"

definition history_ok :: "'al id_list \<Rightarrow> bool" where
  "history_ok st \<longleftrightarrow>
     list_all group_ok (il_retired st @ il_undo_stack st) \<and>
     il_cursor st \<le> length (il_undo_stack st) \<and>
     il_undo_bytes st = saturating_bytes 0 (il_undo_stack st) \<and>
     il_retired_bytes st = sum_list (map retirement_charge (il_retired st)) \<and>
     length (il_undo_stack st) \<le> il_max_depth st \<and>
     il_undo_bytes st \<le> il_max_bytes st \<and> il_max_bytes st \<le> U64_MAX"

definition list_ok :: "'al id_list \<Rightarrow> bool" where
  "list_ok st \<longleftrightarrow>
     global_ok (il_version st) \<and> undo_ok (il_undo_map st) \<and>
     runs_ok entry_ops (il_entries st) \<and> flags_ok (il_undo_map st) (il_entries st) \<and>
     list_all (entry_ok (il_version st)) (il_entries st) \<and>
     queue_ok st \<and> history_ok st \<and> ledger_ok (il_gaps st) (il_version st)"

text \<open>Validation gives the structural half of the invariant, also for a deferred verdict.\<close>

lemma check_link_wf: "check_link l v = Valid \<Longrightarrow> link_wf l"
  by (cases "right_origin l") (auto simp: check_link_Valid link_wf_def)

lemma validated_op_ok:
  assumes "validate_idlist_operation op v = Valid \<or> validate_idlist_operation op v = Defer i"
  shows "op_ok op"
proof (cases op)
  case (ListInsert x)
  have "check_link (li_link x) (li_version x) \<noteq> Defer j" for j
    by (cases "parent (li_link x)"; cases "right_origin (li_link x)")
      (auto simp: check_link_def check_named_def and_then_Defer)
  then show ?thesis
    using assms ListInsert
    by (auto simp: validate_idlist_operation_def and_then_Defer op_ok_def idlist_op_identity_def
        dest: check_link_wf)
next
  case (ListRemove x)
  then show ?thesis
    using assms by (auto simp: validate_idlist_operation_def and_then_Defer op_ok_def idlist_op_identity_def)
next
  case (ListUndo u)
  have nd: "check_each (check_undo_target (lu_timestamp u)) (lu_counts u) \<noteq> Defer j" for j
    by (rule check_each_Defer) (auto simp: check_undo_target_def and_then_Defer split: prod.splits if_splits)
  have "check_undo_target (lu_timestamp u) p = Valid \<Longrightarrow> counter (fst p) \<noteq> 0" for p
    by (auto simp: check_undo_target_def split: prod.splits)
  then show ?thesis
    using assms ListUndo nd
    by (fastforce simp: validate_idlist_operation_def and_then_Defer op_ok_def idlist_op_identity_def
        split: if_splits)
qed

lemma observed_mono:
  "(\<And>a. get v a \<le> get w a) \<Longrightarrow> observed v i \<Longrightarrow> observed w i"
  unfolding observed_def using order_trans by blast

lemma entry_ok_mono: "(\<And>a. get v a \<le> get w a) \<Longrightarrow> entry_ok v e \<Longrightarrow> entry_ok w e"
  using observed_mono unfolding entry_ok_def list_all_iff by blast

lemma entry_ok_refresh [simp]: "entry_ok v (refresh_visible m e) = entry_ok v e"
  by (simp add: entry_ok_def)

lemma flags_ok_refresh [simp]: "flags_ok m (map (refresh_visible m) es)"
  by (simp add: flags_ok_def list_all_iff)

lemma list_ok_new: "list_ok (new_id_list al)"
  by (simp add: list_ok_def new_id_list_def runs_ok_empty flags_ok_def queue_ok_def history_ok_def
      ledger_ok_def empty_ledger_def U64_MAX_eq)

section \<open>Remote operations keep it\<close>

lemma get_observe_ge: "global_ok v \<Longrightarrow> get v a \<le> get (observe v i) a"
  by (simp add: get_observe)

lemma observed_observe: "global_ok v \<Longrightarrow> observed (observe v i) i"
  by (simp add: observed_def get_observe)

lemma get_join_ge: "global_ok v \<Longrightarrow> get v a \<le> get (join v w) a"
proof (induction w arbitrary: v)
  case Nil
  then show ?case by (simp add: join_def)
next
  case (Cons p w)
  have "get v a \<le> get (observe v (Identity (fst p) (snd p))) a"
    using Cons.prems get_observe_ge by blast
  moreover have "join v (p # w) = join (observe v (Identity (fst p) (snd p))) w"
    by (cases p) (simp add: join_def)
  ultimately show ?case
    using Cons.IH [of "observe v (Identity (fst p) (snd p))"] Cons.prems by (metis global_ok_observe le_trans)
qed

lemma queue_ok_cong:
  "il_deferred st' = il_deferred st \<Longrightarrow> il_deferred_count st' = il_deferred_count st \<Longrightarrow>
   il_deferred_bytes st' = il_deferred_bytes st \<Longrightarrow> il_quarantined st' = il_quarantined st \<Longrightarrow>
   il_quarantined_bytes st' = il_quarantined_bytes st \<Longrightarrow> queue_ok st' = queue_ok st"
  by (simp add: queue_ok_def)

lemma history_ok_cong:
  "il_cursor st' = il_cursor st \<Longrightarrow> il_undo_stack st' = il_undo_stack st \<Longrightarrow>
   il_undo_bytes st' = il_undo_bytes st \<Longrightarrow> il_retired st' = il_retired st \<Longrightarrow>
   il_retired_bytes st' = il_retired_bytes st \<Longrightarrow> il_max_depth st' = il_max_depth st \<Longrightarrow>
   il_max_bytes st' = il_max_bytes st \<Longrightarrow> history_ok st' = history_ok st"
  by (simp add: history_ok_def)

lemma integrated_simps [simp]:
  "il_entries (integrated A ts v es st) = map (refresh_visible (il_undo_map st)) es"
  "il_undo_map (integrated A ts v es st) = il_undo_map st"
  "il_version (integrated A ts v es st) = join (observe (il_version st) ts) v"
  "il_alloc (integrated A ts v es st) = alloc_observe A (il_alloc st) (counter ts)"
  "il_gaps (integrated A ts v es st) = il_gaps st"
  "il_reclamation (integrated A ts v es st) = il_reclamation st"
  "il_deferred (integrated A ts v es st) = il_deferred st"
  "il_quarantined (integrated A ts v es st) = il_quarantined st"
  "il_log (integrated A ts v es st) = il_log st @ [ChangeEvent]"
  "queue_ok (integrated A ts v es st) = queue_ok st"
  "history_ok (integrated A ts v es st) = history_ok st"
  by (simp_all add: integrated_def log_event_def set_entries_def observe_remote_def Let_def
      queue_ok_def history_ok_def)

lemma list_ok_integrated:
  assumes "global_ok (il_version st)" "undo_ok (il_undo_map st)" "runs_ok entry_ops es"
    and "list_all (entry_ok (observe (il_version st) ts)) es"
    and "queue_ok st" "history_ok st" "ledger_ok (il_gaps st) (il_version st)"
  shows "list_ok (integrated A ts v es st)"
proof -
  let ?v = "join (observe (il_version st) ts) v"
  have mono1: "get (observe (il_version st) ts) a \<le> get ?v a" for a
    using assms(1) get_join_ge by simp
  then have mono: "get (il_version st) a \<le> get ?v a" for a
    using get_observe_ge [OF assms(1)] order_trans by blast
  have "list_all (entry_ok ?v) es"
    using assms(4) entry_ok_mono [OF mono1] by (auto simp: list_all_iff)
  then have "list_all (entry_ok ?v) (map (refresh_visible (il_undo_map st)) es)"
    by (simp add: list_all_iff)
  moreover have "ledger_ok (il_gaps st) ?v"
    using ledger_ok_mono [OF assms(7) mono] .
  ultimately show ?thesis
    using assms by (simp add: list_ok_def)
qed

lemma entries_observe:
  assumes "list_ok st"
  shows "list_all (entry_ok (observe (il_version st) ts)) (il_entries st)"
proof -
  have mono: "get (il_version st) a \<le> get (observe (il_version st) ts) a" for a
    using assms get_observe_ge by (simp add: list_ok_def)
  show ?thesis
    using assms entry_ok_mono [OF mono] by (auto simp: list_ok_def list_all_iff)
qed

lemma fresh_origin:
  "list_ok st \<Longrightarrow> \<not> observed (il_version st) i \<Longrightarrow> i \<notin> le_origin ` set (il_entries st)"
  by (auto simp: list_ok_def entry_ok_def list_all_iff)

lemma mark_deleted_Some:
  "mark_deleted target del es = Some es' \<Longrightarrow>
     \<exists>us e vs. es = us @ e # vs \<and> le_origin e = target \<and> target \<notin> le_origin ` set us \<and>
       es' = us @ e\<lparr>le_deletions := le_deletions e @ [del]\<rparr> # vs"
proof (induction es arbitrary: es')
  case (Cons e es)
  show ?case
  proof (cases "le_origin e = target")
    case True
    then show ?thesis
      using Cons.prems by (intro exI [of _ "[]"] exI [of _ e] exI [of _ es]) auto
  next
    case False
    then obtain es'' where "mark_deleted target del es = Some es''" "es' = e # es''"
      using Cons.prems by auto
    then obtain us f vs where "es = us @ f # vs" "le_origin f = target" "target \<notin> le_origin ` set us"
      "es'' = us @ f\<lparr>le_deletions := le_deletions f @ [del]\<rparr> # vs"
      using Cons.IH by blast
    then show ?thesis
      using False \<open>es' = e # es''\<close>
      by (intro exI [of _ "e # us"] exI [of _ f] exI [of _ vs]) auto
  qed
qed simp

lemma mark_deleted_None: "mark_deleted target del es = None \<longleftrightarrow> target \<notin> le_origin ` set es"
  by (induction es) auto

lemma new_entry_simps [simp]:
  "le_origin (new_entry i l n) = i" "le_link (new_entry i l n) = l" "le_id (new_entry i l n) = n"
  "le_deletions (new_entry i l n) = []"
  by (simp_all add: new_entry_def)

lemma apply_insert_ok:
  assumes ok: "list_ok st" and op: "op_ok (ListInsert i)" and new: "\<not> observed (il_version st) (li_timestamp i)"
    and st': "apply_insert A i st = Inr st'"
  shows "list_ok st'"
proof -
  let ?e = "new_entry (li_timestamp i) (li_link i) (li_id i)"
  obtain es where es: "integrate entry_ops (il_entries st) ?e = Some es"
    "st' = integrated A (li_timestamp i) (li_version i) es st"
    using st' by (auto simp: apply_insert_def split: if_splits option.splits)
  have "runs_ok entry_ops (il_entries st)" "link_wf (le_link ?e)"
    using ok op by (simp_all add: list_ok_def op_ok_def)
  then obtain us vs where uv: "il_entries st = us @ vs" "es = us @ ?e # vs" "runs_ok entry_ops es"
    using integrate_entry_Some [OF _ _ _ es(1)] fresh_origin [OF ok new] by auto
  have "list_all (entry_ok (observe (il_version st) (li_timestamp i))) es"
    using entries_observe [OF ok, of "li_timestamp i"] uv observed_observe ok
    by (auto simp: entry_ok_def list_ok_def)
  then show ?thesis
    using list_ok_integrated [of st es "li_timestamp i"] ok uv(3) es(2) by (simp add: list_ok_def)
qed

lemma apply_remove_ok:
  assumes ok: "list_ok st" and st': "apply_remove A r st = Inr st'"
  shows "list_ok st'"
proof -
  obtain es where es: "mark_deleted (lr_target_origin r) (lr_timestamp r) (il_entries st) = Some es"
    "st' = integrated A (lr_timestamp r) (lr_version r) es st"
    using st' by (auto simp: apply_remove_def split: option.splits)
  obtain us e vs where uv: "il_entries st = us @ e # vs"
    "es = us @ e\<lparr>le_deletions := le_deletions e @ [lr_timestamp r]\<rparr> # vs"
    using mark_deleted_Some [OF es(1)] by blast
  have "runs_ok entry_ops es"
    using ok runs_ok_entries_cong [of es "il_entries st"] uv by (simp add: list_ok_def)
  moreover have "list_all (entry_ok (observe (il_version st) (lr_timestamp r))) es"
    using entries_observe [OF ok, of "lr_timestamp r"] uv observed_observe ok
    by (auto simp: entry_ok_def list_ok_def)
  ultimately show ?thesis
    using list_ok_integrated [of st es "lr_timestamp r"] ok es(2) by (simp add: list_ok_def)
qed

lemma apply_undo_ok:
  assumes ok: "list_ok st" and op: "op_ok (ListUndo u)" and st': "apply_undo A u st = Inr st'"
  shows "list_ok st'"
proof -
  let ?m = "undo_insert_all (il_undo_map st) (lu_timestamp u) (lu_counts u)"
  have "undo_ok ?m"
    using undo_insert_all_ok(1) [of "il_undo_map st" "lu_timestamp u" "lu_counts u"] ok op
    by (simp add: list_ok_def op_ok_def idlist_op_identity_def)
  moreover have "st' = integrated A (lu_timestamp u) (lu_version u) (il_entries st) (st\<lparr>il_undo_map := ?m\<rparr>)"
    using st' by (auto simp: apply_undo_def split: if_splits)
  ultimately show ?thesis
    using ok list_ok_integrated [of "st\<lparr>il_undo_map := ?m\<rparr>" "il_entries st" "lu_timestamp u"]
      entries_observe [OF ok, of "lu_timestamp u"] queue_ok_cong [of "st\<lparr>il_undo_map := ?m\<rparr>" st]
      history_ok_cong [of "st\<lparr>il_undo_map := ?m\<rparr>" st]
    by (simp add: list_ok_def)
qed

lemma try_apply_ok:
  assumes "list_ok st" "op_ok op" "\<not> observed (il_version st) (idlist_op_identity op)"
    and "try_apply A op st = Inr st'"
  shows "list_ok st'"
  using assms apply_insert_ok apply_remove_ok apply_undo_ok
  by (cases op) (auto simp: try_apply_def apply_concrete_def idlist_op_identity_def split: if_splits)

lemma list_ok_queue_update:
  assumes "list_ok st" "queue_ok (f st)"
    and "il_version (f st) = il_version st" "il_undo_map (f st) = il_undo_map st"
    and "il_entries (f st) = il_entries st" "il_gaps (f st) = il_gaps st" "history_ok (f st) = history_ok st"
  shows "list_ok (f st)"
  using assms by (simp add: list_ok_def)

lemma quarantine_simps [simp]:
  "il_version (quarantine op e st) = il_version st" "il_undo_map (quarantine op e st) = il_undo_map st"
  "il_entries (quarantine op e st) = il_entries st" "il_gaps (quarantine op e st) = il_gaps st"
  "il_deferred (quarantine op e st) = il_deferred st" "il_alloc (quarantine op e st) = il_alloc st"
  "il_reclamation (quarantine op e st) = il_reclamation st" "il_log (quarantine op e st) = il_log st"
  "history_ok (quarantine op e st) = history_ok st"
  by (simp_all add: quarantine_def Let_def history_ok_def)

lemma quarantine_ok: "list_ok st \<Longrightarrow> list_ok (quarantine op e st)"
proof (rule list_ok_queue_update [where f = "quarantine op e"])
  assume "list_ok st"
  then show "queue_ok (quarantine op e st)"
    by (simp add: list_ok_def queue_ok_def quarantine_def Let_def)
qed simp_all

lemma defer_ok:
  assumes "list_ok st" "op_ok op" "defer_or_quarantine op i st = (st', out)"
  shows "list_ok st'"
proof (cases "deferred_budget_exhausted (il_deferred_budget st) (il_deferred_count st)
    (il_deferred_bytes st) (estimate_idlist_bytes op)")
  case True
  then show ?thesis
    using assms quarantine_ok by (auto simp: defer_or_quarantine_def)
next
  case False
  then show ?thesis
    using assms by (auto simp: defer_or_quarantine_def list_ok_def queue_ok_def history_ok_def)
qed

lemma apply_one_ok:
  assumes "list_ok st" "apply_one A op st = (st', out)"
  shows "list_ok st'"
proof -
  have step: "list_ok st1"
    if "validate_idlist_operation op (il_version st) = Valid" "\<not> observed (il_version st) (idlist_op_identity op)"
      "try_apply A op st = Inr st1" for st1
    using that assms(1) try_apply_ok validated_op_ok by blast
  have queued: "list_ok st1"
    if "validate_idlist_operation op (il_version st) = Valid \<or> validate_idlist_operation op (il_version st) = Defer i"
      "defer_or_quarantine op j st = (st1, out)" for st1 i j
    using that assms(1) defer_ok validated_op_ok by blast
  show ?thesis
    using assms step queued
    by (auto simp: apply_one_def Let_def split: validation_result.splits if_splits sum.splits option.splits)
qed

lemma retry_pass_ok:
  assumes "list_ok st" "\<forall>e \<in> set es. op_ok (oe_op e)" "retry_pass A es st = (st', rest, p)"
  shows "list_ok st' \<and> set rest \<subseteq> set es"
  using assms
proof (induction A es st arbitrary: st' rest p rule: retry_pass.induct)
  case (1 A st)
  then show ?case by simp
next
  case (2 A e es st)
  have ops: "\<forall>x \<in> set es. op_ok (oe_op x)" "op_ok (oe_op e)"
    using "2.prems"(2) by auto
  show ?case
  proof (cases "observed (il_version st) (idlist_op_identity (oe_op e))")
    case True
    then show ?thesis
      using "2.IH"(1) [OF True "2.prems"(1) ops(1)] "2.prems"(3) by (auto split: prod.splits)
  next
    case False
    show ?thesis
    proof (cases "try_apply A (oe_op e) st")
      case (Inr st1)
      then have "list_ok st1"
        using try_apply_ok [OF "2.prems"(1) ops(2) False] by simp
      then show ?thesis
        using "2.IH"(4) [OF False Inr \<open>list_ok st1\<close> ops(1)] "2.prems"(3) False Inr by (auto split: prod.splits)
    next
      case (Inl err)
      then show ?thesis
      proof (cases err)
        case None
        then show ?thesis
          using "2.IH"(2) [OF False Inl None "2.prems"(1) ops(1)] "2.prems"(3) False Inl
          by (auto split: prod.splits)
      next
        case (Some c)
        then show ?thesis
          using "2.IH"(3) [OF False Inl Some quarantine_ok [OF "2.prems"(1)] ops(1)] "2.prems"(3) False Inl
          by (auto split: prod.splits)
      qed
    qed
  qed
qed

definition requeue :: "list_op_entry list \<Rightarrow> 'al id_list \<Rightarrow> 'al id_list" where
  "requeue es st =
     st\<lparr>il_deferred := es, il_deferred_count := length es,
        il_deferred_bytes := sum_list (map (\<lambda>e. estimate_idlist_bytes (oe_op e)) es)\<rparr>"

lemma requeue_simps [simp]:
  "il_version (requeue es st) = il_version st" "il_undo_map (requeue es st) = il_undo_map st"
  "il_entries (requeue es st) = il_entries st" "il_gaps (requeue es st) = il_gaps st"
  "il_deferred (requeue es st) = es" "il_alloc (requeue es st) = il_alloc st"
  "il_quarantined (requeue es st) = il_quarantined st" "history_ok (requeue es st) = history_ok st"
  "il_reclamation (requeue es st) = il_reclamation st" "il_log (requeue es st) = il_log st"
  by (simp_all add: requeue_def history_ok_def)

lemma requeue_ok:
  assumes "list_ok st" "\<forall>e \<in> set es. oe_timestamp e = idlist_op_identity (oe_op e) \<and> op_ok (oe_op e)"
  shows "list_ok (requeue es st)"
proof (rule list_ok_queue_update [where f = "requeue es"])
  show "queue_ok (requeue es st)"
    using assms by (auto simp: list_ok_def queue_ok_def requeue_def list_all_iff)
qed (use assms in simp_all)

lemma retry_deferred_unfold:
  "retry_deferred A st =
     (case retry_pass A (il_deferred st) st of
        (st1, rest, progress) \<Rightarrow>
          if progress then retry_deferred A (requeue rest st1) else requeue rest st1)"
  by (subst retry_deferred.simps) (simp add: requeue_def Let_def split: prod.splits)

text \<open>Induction over the retry loop: a property every pass keeps holds at its end.\<close>

lemma retry_deferred_induct:
  assumes start: "P st"
    and pass: "\<And>st st1 rest p. P st \<Longrightarrow> retry_pass A (il_deferred st) st = (st1, rest, p) \<Longrightarrow> P (requeue rest st1)"
  shows "P (retry_deferred A st)"
  using start
proof (induction "length (il_deferred st)" arbitrary: st rule: less_induct)
  case less
  obtain st1 rest p where r: "retry_pass A (il_deferred st) st = (st1, rest, p)"
    by (metis prod_cases3)
  have P1: "P (requeue rest st1)"
    using pass [OF less.prems r] .
  have "p \<Longrightarrow> length rest < length (il_deferred st)"
    using retry_pass_length [OF r] by simp
  then show ?case
    using less.hyps [of "requeue rest st1"] P1 r by (subst retry_deferred_unfold) simp
qed

lemma retry_deferred_ok:
  assumes "list_ok st"
  shows "list_ok (retry_deferred A st)"
proof (rule retry_deferred_induct [where P = list_ok, OF assms])
  fix st st1 :: "'a id_list" and rest p
  assume ok: "list_ok st" and r: "retry_pass A (il_deferred st) st = (st1, rest, p)"
  have q: "\<forall>e \<in> set (il_deferred st). oe_timestamp e = idlist_op_identity (oe_op e) \<and> op_ok (oe_op e)"
    using ok by (simp add: list_ok_def queue_ok_def list_all_iff)
  then have "list_ok st1 \<and> set rest \<subseteq> set (il_deferred st)"
    using retry_pass_ok [OF ok _ r] by blast
  then show "list_ok (requeue rest st1)"
    using q requeue_ok by blast
qed

lemma apply_each_ok: "list_ok st \<Longrightarrow> apply_each A ops st = (st', outs) \<Longrightarrow> list_ok st'"
proof (induction ops arbitrary: st st' outs)
  case Nil
  then show ?case by simp
next
  case (Cons op ops)
  obtain st1 out where "apply_one A op st = (st1, out)"
    by (cases "apply_one A op st")
  moreover obtain st2 outs2 where "apply_each A ops st1 = (st2, outs2)"
    by (cases "apply_each A ops st1")
  ultimately show ?case
    using Cons.IH [of st1] Cons.prems apply_one_ok [OF Cons.prems(1), of A op] by auto
qed

lemma apply_ops_ok: "list_ok st \<Longrightarrow> apply_ops A ops st = (st', outs) \<Longrightarrow> list_ok st'"
  using apply_each_ok retry_deferred_ok by (fastforce simp: apply_ops_def split: prod.splits)

lemma apply_remote_op_checked_ok:
  "list_ok st \<Longrightarrow> apply_remote_op_checked A op st = (st', out) \<Longrightarrow> list_ok st'"
  using apply_ops_ok by (fastforce simp: apply_remote_op_checked_def split: prod.splits)

lemma apply_counter_gap_ok:
  assumes ok: "list_ok st" and res: "apply_counter_gap A g st = (st', out)"
  shows "list_ok st'"
proof -
  let ?last = "Identity (gap_actor g) (gap_first g + gap_count g - 1)"
  obtain l v where lv: "gap_commit (il_gaps st) g (il_version st) = (l, v)"
    by (cases "gap_commit (il_gaps st) g (il_version st)")
  have "list_ok (observe_remote A ?last (st\<lparr>il_gaps := l, il_version := v\<rparr>))"
    if "gap_check (il_gaps st) g (il_version st) = Applied"
  proof -
    have gl: "ledger_ok l v"
      using gap_commit_ok [OF _ that _ lv] ok by (simp add: list_ok_def)
    have v: "v = observe (il_version st) ?last"
      using lv by (simp add: gap_commit_def)
    show ?thesis
      using ok gl entries_observe [OF ok, of ?last]
      by (simp add: list_ok_def v observe_remote_def queue_ok_def history_ok_def)
  qed
  then show ?thesis
    using res ok lv retry_deferred_ok
    by (auto simp: apply_counter_gap_def Let_def split: apply_outcome.splits if_splits)
qed

end
