(* ===== verification/List_History.thy ===== *)
theory List_History
  imports List_Invariant
begin

text \<open>
  The undo history of the list engine: trimming, the depth and byte limits, coalescing, the
  acknowledgement of retired groups and the restoring of a snapshot. Trimming loses nothing: the
  retired groups followed by the active ones stay the same sequence. Every operation keeps
  \<open>list_ok\<close>, and a new group fits the retirement budget that was checked for it.
\<close>

section \<open>Byte totals\<close>

lemma saturating_bytes_eq:
  "acc \<le> U64_MAX \<Longrightarrow> saturating_bytes acc gs = min U64_MAX (acc + sum_list (map ug_retained_bytes gs))"
  by (induction gs arbitrary: acc) (auto simp: min_def)

lemma saturating_bytes_0: "saturating_bytes 0 gs = min U64_MAX (sum_list (map ug_retained_bytes gs))"
  by (simp add: saturating_bytes_eq)

section \<open>What the history operations leave alone\<close>

definition history_only :: "'al id_list \<Rightarrow> 'al id_list \<Rightarrow> bool" where
  "history_only st st' \<longleftrightarrow>
     il_alloc st' = il_alloc st \<and> il_version st' = il_version st \<and> il_gaps st' = il_gaps st \<and>
     il_undo_map st' = il_undo_map st \<and> il_reclamation st' = il_reclamation st \<and>
     il_entries st' = il_entries st \<and> il_deferred st' = il_deferred st \<and>
     il_deferred_count st' = il_deferred_count st \<and> il_deferred_bytes st' = il_deferred_bytes st \<and>
     il_deferred_budget st' = il_deferred_budget st \<and> il_quarantined st' = il_quarantined st \<and>
     il_quarantine_budget st' = il_quarantine_budget st \<and>
     il_quarantined_bytes st' = il_quarantined_bytes st \<and> il_log st' = il_log st"

definition limits_same :: "'al id_list \<Rightarrow> 'al id_list \<Rightarrow> bool" where
  "limits_same st st' \<longleftrightarrow> il_max_depth st' = il_max_depth st \<and> il_max_bytes st' = il_max_bytes st"

lemma history_only_refl [simp]: "history_only st st" "limits_same st st"
  by (simp_all add: history_only_def limits_same_def)

lemma history_only_trans:
  "history_only st1 st2 \<Longrightarrow> history_only st2 st3 \<Longrightarrow> history_only st1 st3"
  "limits_same st1 st2 \<Longrightarrow> limits_same st2 st3 \<Longrightarrow> limits_same st1 st3"
  by (simp_all add: history_only_def limits_same_def)

lemma history_only_update [simp]:
  "history_only st (st\<lparr>il_undo_stack := a, il_cursor := c\<rparr>)"
  "limits_same st (st\<lparr>il_undo_stack := a, il_cursor := c\<rparr>)"
  "history_only st (recalculate_undo_bytes st)" "limits_same st (recalculate_undo_bytes st)"
  "history_only st (retire_undo_entry g st)" "limits_same st (retire_undo_entry g st)"
  by (simp_all add: history_only_def limits_same_def recalculate_undo_bytes_def retire_undo_entry_def)

lemma list_ok_history:
  "list_ok st \<Longrightarrow> history_only st st' \<Longrightarrow> history_ok st' \<Longrightarrow> list_ok st'"
  using queue_ok_cong [of st' st] by (simp add: list_ok_def history_only_def)

section \<open>Trimming\<close>

definition history_base :: "'al id_list \<Rightarrow> bool" where
  "history_base st \<longleftrightarrow>
     list_all group_ok (il_retired st @ il_undo_stack st) \<and>
     il_cursor st \<le> length (il_undo_stack st) \<and>
     il_retired_bytes st = sum_list (map retirement_charge (il_retired st)) \<and>
     il_max_bytes st \<le> U64_MAX"

abbreviation all_groups :: "'al id_list \<Rightarrow> undo_group list" where
  "all_groups st \<equiv> il_retired st @ il_undo_stack st"

lemma history_ok_base: "history_ok st \<Longrightarrow> history_base st"
  by (simp add: history_ok_def history_base_def)

lemma trim_step:
  assumes "il_undo_stack st \<noteq> []"
  defines "st1 \<equiv> retire_undo_entry (hd (il_undo_stack st)) st"
  defines "st' \<equiv> recalculate_undo_bytes
    (st1\<lparr>il_undo_stack := tl (il_undo_stack st1), il_cursor := il_cursor st1 - 1\<rparr>)"
  shows "history_only st st'" "limits_same st st'" "all_groups st' = all_groups st"
    "history_base st \<Longrightarrow> history_base st'"
    "il_undo_bytes st' = saturating_bytes 0 (il_undo_stack st')"
    "length (il_undo_stack st') < length (il_undo_stack st)"
  using assms(1)
  by (auto simp: st'_def st1_def retire_undo_entry_def recalculate_undo_bytes_def history_only_def
      limits_same_def history_base_def)

lemma trim_loop_props:
  "history_only st (trim_loop st) \<and> limits_same st (trim_loop st) \<and>
   all_groups (trim_loop st) = all_groups st \<and>
   (history_base st \<and> il_undo_bytes st = saturating_bytes 0 (il_undo_stack st) \<longrightarrow> history_ok (trim_loop st))"
proof (induction st rule: trim_loop.induct)
  case (1 st)
  show ?case
  proof (cases "il_undo_stack st \<noteq> [] \<and>
      (length (il_undo_stack st) > il_max_depth st \<or> il_undo_bytes st > il_max_bytes st)")
    case True
    define st1 where "st1 = retire_undo_entry (hd (il_undo_stack st)) st"
    define st2 where "st2 = st1\<lparr>il_undo_stack := tl (il_undo_stack st1), il_cursor := il_cursor st1 - 1\<rparr>"
    have eq: "trim_loop st = trim_loop (recalculate_undo_bytes st2)"
      using True by (subst trim_loop.simps) (simp add: st1_def st2_def Let_def)
    note step = trim_step [of st, folded st1_def, folded st2_def]
    show ?thesis
      unfolding eq using "1.IH" [OF True st1_def st2_def] step True history_only_trans by metis
  next
    case False
    then have "trim_loop st = st"
      by (subst trim_loop.simps) auto
    then show ?thesis
      using False by (auto simp: history_base_def history_ok_def)
  qed
qed

lemma trim_props:
  "history_only st (trim_undo_stack st)" "limits_same st (trim_undo_stack st)"
  "all_groups (trim_undo_stack st) = all_groups st"
  "history_base st \<Longrightarrow> history_ok (trim_undo_stack st)"
  using trim_loop_props [of "recalculate_undo_bytes st"]
    history_only_trans [of st "recalculate_undo_bytes st"] history_only_update [of st]
  by (auto simp: trim_undo_stack_def recalculate_undo_bytes_def history_base_def)

section \<open>A new group\<close>

lemma list_all_take_drop: "list_all P xs \<Longrightarrow> list_all P (take n xs) \<and> list_all P (drop n xs)"
  by (metis append_take_drop_id list_all_append)

lemma fold_retire:
  "il_retired (fold retire_undo_entry gs st) = il_retired st @ gs"
  "il_retired_bytes (fold retire_undo_entry gs st) = il_retired_bytes st + sum_list (map retirement_charge gs)"
  "il_undo_stack (fold retire_undo_entry gs st) = il_undo_stack st"
  "history_only st (fold retire_undo_entry gs st)" "limits_same st (fold retire_undo_entry gs st)"
proof (induction gs arbitrary: st)
  case (Cons g gs)
  {
    case 1 show ?case by (simp add: Cons.IH) (simp add: retire_undo_entry_def)
  next
    case 2 show ?case by (simp add: Cons.IH) (simp add: retire_undo_entry_def)
  next
    case 3 show ?case by (simp add: Cons.IH) (simp add: retire_undo_entry_def)
  next
    case 4 show ?case
      using Cons.IH(4) [of "retire_undo_entry g st"] history_only_trans history_only_update
      by (metis fold_simps(2))
  next
    case 5 show ?case
      using Cons.IH(5) [of "retire_undo_entry g st"] history_only_trans history_only_update
      by (metis fold_simps(2))
  }
qed simp_all

text \<open>
  The redo tail is retired, then the new group is pushed and the oldest groups give way: every
  group is still there, in this order.
\<close>

lemma push_undo_group_props:
  assumes "history_base st" "group_ok g"
  shows "history_only st (push_undo_group g st)" "limits_same st (push_undo_group g st)"
    "history_ok (push_undo_group g st)"
    "all_groups (push_undo_group g st) =
       il_retired st @ drop (il_cursor st) (il_undo_stack st) @ take (il_cursor st) (il_undo_stack st) @ [g]"
proof -
  define st1 where "st1 = fold retire_undo_entry (drop (il_cursor st) (il_undo_stack st)) st"
  define stack where "stack = take (il_cursor st) (il_undo_stack st1) @ [g]"
  define st2 where "st2 = st1\<lparr>il_undo_stack := stack, il_cursor := length stack\<rparr>"
  have push: "push_undo_group g st = trim_undo_stack st2"
    by (simp add: push_undo_group_def Let_def st1_def st2_def stack_def)
  have "history_base st2"
    using assms fold_retire(1,2) [of "drop (il_cursor st) (il_undo_stack st)" st]
      fold_retire(5) [of st "drop (il_cursor st) (il_undo_stack st)"]
      fold_retire(3) [of "drop (il_cursor st) (il_undo_stack st)" st]
      list_all_take_drop [of group_ok "il_undo_stack st" "il_cursor st"]
    by (simp add: st2_def st1_def stack_def history_base_def limits_same_def)
  then show "history_ok (push_undo_group g st)"
    unfolding push by (rule trim_props(4))
  have "history_only st st2" "limits_same st st2"
    using fold_retire(4,5) [of st "drop (il_cursor st) (il_undo_stack st)", folded st1_def]
    by (auto simp: st2_def history_only_def limits_same_def)
  then show "history_only st (push_undo_group g st)" "limits_same st (push_undo_group g st)"
    unfolding push using trim_props(1,2) history_only_trans by blast+
  show "all_groups (push_undo_group g st) =
      il_retired st @ drop (il_cursor st) (il_undo_stack st) @ take (il_cursor st) (il_undo_stack st) @ [g]"
    unfolding push trim_props(3)
    by (simp add: st2_def st1_def stack_def fold_retire)
qed

section \<open>How many groups give way\<close>

text \<open>The number of oldest groups a trim retires: as few as the limits allow.\<close>

fun trim_count :: "nat \<Rightarrow> nat \<Rightarrow> undo_group list \<Rightarrow> nat" where
  "trim_count depth bytes [] = 0"
| "trim_count depth bytes (g # gs) =
     (if length (g # gs) \<le> depth \<and> saturating_bytes 0 (g # gs) \<le> bytes then 0
      else Suc (trim_count depth bytes gs))"

lemma trim_count_le: "trim_count d b gs \<le> length gs"
  by (induction gs) auto

lemma trim_loop_count:
  assumes "il_undo_bytes st = saturating_bytes 0 (il_undo_stack st)"
  defines "k \<equiv> trim_count (il_max_depth st) (il_max_bytes st) (il_undo_stack st)"
  shows "il_retired (trim_loop st) = il_retired st @ take k (il_undo_stack st) \<and>
    il_undo_stack (trim_loop st) = drop k (il_undo_stack st)"
  using assms(1) unfolding k_def
proof (induction st rule: trim_loop.induct)
  case (1 st)
  show ?case
  proof (cases "il_undo_stack st \<noteq> [] \<and>
      (length (il_undo_stack st) > il_max_depth st \<or> il_undo_bytes st > il_max_bytes st)")
    case True
    define st1 where "st1 = retire_undo_entry (hd (il_undo_stack st)) st"
    define st2 where "st2 = st1\<lparr>il_undo_stack := tl (il_undo_stack st1), il_cursor := il_cursor st1 - 1\<rparr>"
    obtain g gs where gs: "il_undo_stack st = g # gs"
      using True by (cases "il_undo_stack st") auto
    have eq: "trim_loop st = trim_loop (recalculate_undo_bytes st2)"
      using True by (subst trim_loop.simps) (simp add: st1_def st2_def Let_def)
    have "il_undo_bytes (recalculate_undo_bytes st2) = saturating_bytes 0 (il_undo_stack (recalculate_undo_bytes st2))"
      by (simp add: recalculate_undo_bytes_def)
    note IH = "1.IH" [OF True st1_def st2_def this]
    have "il_undo_stack (recalculate_undo_bytes st2) = gs" "il_retired (recalculate_undo_bytes st2) = il_retired st @ [g]"
      "il_max_depth (recalculate_undo_bytes st2) = il_max_depth st" "il_max_bytes (recalculate_undo_bytes st2) = il_max_bytes st"
      using gs by (simp_all add: st2_def st1_def recalculate_undo_bytes_def retire_undo_entry_def)
    then show ?thesis
      unfolding eq using IH True "1.prems" gs by auto
  next
    case False
    then have "trim_loop st = st"
      by (subst trim_loop.simps) auto
    then show ?thesis
      using False "1.prems" by (cases "il_undo_stack st") auto
  qed
qed

lemma trim_count_spec:
  "il_retired (trim_undo_stack st) =
     il_retired st @ take (trim_count (il_max_depth st) (il_max_bytes st) (il_undo_stack st)) (il_undo_stack st)"
  "il_undo_stack (trim_undo_stack st) =
     drop (trim_count (il_max_depth st) (il_max_bytes st) (il_undo_stack st)) (il_undo_stack st)"
  using trim_loop_count [of "recalculate_undo_bytes st"]
  by (simp_all add: trim_undo_stack_def recalculate_undo_bytes_def)

abbreviation retained_sum :: "undo_group list \<Rightarrow> nat" where
  "retained_sum gs \<equiv> sum_list (map ug_retained_bytes gs)"

abbreviation charge_sum :: "undo_group list \<Rightarrow> nat" where
  "charge_sum gs \<equiv> sum_list (map retirement_charge gs)"

lemma add_charge_Some: "add_charge added c = Some added' \<Longrightarrow> added' = added + c"
  by (simp add: add_charge_def split: if_splits)

lemma trim_count_no_wrap:
  assumes "retained_sum (g # gs) \<le> U64_MAX"
  shows "trim_count d b (g # gs) =
    (if length (g # gs) > d \<or> retained_sum (g # gs) > b then Suc (trim_count d b gs) else 0)"
proof -
  have "saturating_bytes 0 (g # gs) = retained_sum (g # gs)"
    using assms by (simp only: saturating_bytes_0)
  then show ?thesis
    by (simp only: trim_count.simps) auto
qed

declare trim_count.simps(2) [simp del]

text \<open>The checks simulate the trim they stand for.\<close>

lemma limits_loop_spec:
  assumes "retained_sum gs \<le> U64_MAX"
    and "limits_loop d b gs (retained_sum gs) added groups (length gs) = Ok (a, n, c)"
  defines "k \<equiv> trim_count d b gs"
  shows "a = added + charge_sum (take k gs) \<and> n = groups + k \<and> c = length gs - k"
  using assms(1,2) unfolding k_def
proof (induction gs arbitrary: added groups)
  case Nil
  then show ?case by simp
next
  case (Cons g gs)
  have sum: "retained_sum (g # gs) - min (retained_sum (g # gs)) (ug_retained_bytes g) = retained_sum gs"
    "retained_sum gs \<le> U64_MAX"
    using Cons.prems(1) by simp_all
  show ?case
  proof (cases "length (g # gs) > d \<or> retained_sum (g # gs) > b")
    case True
    then obtain added' where "add_charge added (retirement_charge g) = Some added'"
      "limits_loop d b gs (retained_sum gs) added' (groups + 1) (length gs) = Ok (a, n, c)"
      using Cons.prems sum by (auto split: option.splits)
    then show ?thesis
      using Cons.IH [OF sum(2)] True trim_count_no_wrap [OF Cons.prems(1)] add_charge_Some by fastforce
  next
    case False
    then show ?thesis
      using Cons.prems trim_count_no_wrap [OF Cons.prems(1)] by auto
  qed
qed

lemma new_entry_loop_spec:
  fixes gs :: "undo_group list"
  assumes "retained_sum (gs @ [g]) \<le> U64_MAX"
    and g: "retirement_charge g = retirement_charge_of 1 ins dels" "ug_retained_bytes g = ret"
    and "new_entry_loop d b ret ins dels gs (retained_sum (gs @ [g])) added groups (length gs + 1) = Ok (a, n, c)"
  defines "k \<equiv> trim_count d b (gs @ [g])"
  shows "a = added + charge_sum (take k (gs @ [g])) \<and> n = groups + k \<and> c = length gs + 1 - k"
  using assms(1,4) unfolding k_def
proof (induction gs arbitrary: added groups)
  case Nil
  show ?case
  proof (cases "1 > d \<or> ret > b")
    case True
    then obtain added' where add: "add_charge added (retirement_charge_of 1 ins dels) = Some added'"
      "new_entry_loop d b ret ins dels [] 0 added' (groups + 1) 0 = Ok (a, n, c)"
      using Nil.prems(2) g(2) by (subst (asm) new_entry_loop.simps) (auto simp: dec64_def split: option.splits)
    have "new_entry_loop d b ret ins dels [] 0 added' (groups + 1) 0 = Ok (added', groups + 1, 0)"
      by (subst new_entry_loop.simps) simp
    then show ?thesis
      using add add_charge_Some [OF add(1)] True g trim_count_no_wrap [of g "[]" d b] Nil.prems(1) by auto
  next
    case False
    then show ?thesis
      using Nil.prems g trim_count_no_wrap [of g "[]" d b] by (subst (asm) new_entry_loop.simps) auto
  qed
next
  case (Cons x gs)
  let ?all = "x # gs @ [g]"
  have sum: "retained_sum ?all - min (retained_sum ?all) (ug_retained_bytes x) = retained_sum (gs @ [g])"
    "retained_sum (gs @ [g]) \<le> U64_MAX" "retained_sum ?all \<le> U64_MAX"
    using Cons.prems(1) by simp_all
  show ?case
  proof (cases "length ?all > d \<or> retained_sum ?all > b")
    case True
    then obtain added' where "add_charge added (retirement_charge x) = Some added'"
      "new_entry_loop d b ret ins dels gs (retained_sum (gs @ [g])) added' (groups + 1) (length gs + 1) = Ok (a, n, c)"
      using Cons.prems(2) sum(1) by (subst (asm) new_entry_loop.simps) (auto simp: dec64_def split: option.splits)
    then show ?thesis
      using Cons.IH [OF sum(2)] True trim_count_no_wrap [OF sum(3), of d b] add_charge_Some by fastforce
  next
    case False
    then show ?thesis
      using Cons.prems(2) trim_count_no_wrap [OF sum(3), of d b]
      by (subst (asm) new_entry_loop.simps) auto
  qed
qed

lemma redo_tail_charge_spec:
  "redo_tail_charge gs added groups = Ok (a, n) \<Longrightarrow> a = added + charge_sum gs \<and> n = groups + length gs"
  by (induction gs arbitrary: added groups) (fastforce dest: add_charge_Some split: option.splits)+

section \<open>The retirement budget\<close>

definition retirement_bounded :: "'al id_list \<Rightarrow> bool" where
  "retirement_bounded st \<longleftrightarrow>
     il_retired_bytes st \<le> kMaxRetirementBytes \<and>
     length (il_retired st) + length (il_undo_stack st) \<le> kMaxRetirementGroups"

lemma final_budget_check_Ok:
  assumes "final_budget_check st bytes groups count = Ok ()" "il_retired_bytes st \<le> kMaxRetirementBytes"
  shows "il_retired_bytes st + bytes \<le> kMaxRetirementBytes"
    "length (il_retired st) + groups + count \<le> kMaxRetirementGroups"
  using assms by (auto simp: final_budget_check_def Let_def split: if_splits)

lemma trim_bounded:
  assumes base: "history_base st" and check: "check_retirement_for_limits st0 d b = Ok ()"
    and st0: "history_ok st0" "retirement_bounded st0" "il_max_bytes st0 < U64_MAX"
    and st: "il_undo_stack st = il_undo_stack st0" "il_retired st = il_retired st0"
      "il_retired_bytes st = il_retired_bytes st0" "il_max_depth st = d" "il_max_bytes st = b"
  shows "retirement_bounded (trim_undo_stack st)"
proof -
  let ?gs = "il_undo_stack st0" and ?k = "trim_count d b (il_undo_stack st0)"
  have sum: "retained_sum ?gs \<le> U64_MAX" "il_undo_bytes st0 = retained_sum ?gs"
    using st0 by (auto simp: history_ok_def saturating_bytes_0 min_def split: if_splits)
  obtain a n c where l: "limits_loop d b ?gs (retained_sum ?gs) 0 0 (length ?gs) = Ok (a, n, c)"
    and f: "final_budget_check st0 a n c = Ok ()"
    using check sum(2) by (auto simp: check_retirement_for_limits_def split: sum.splits)
  note k = limits_loop_spec [OF sum(1) l]
  note fb = final_budget_check_Ok [OF f, unfolded retirement_bounded_def]
  have "history_ok (trim_undo_stack st)"
    using trim_props(4) [OF base] .
  then have "il_retired_bytes (trim_undo_stack st) = charge_sum (il_retired st0) + charge_sum (take ?k ?gs)"
    using trim_count_spec(1) [of st] st by (simp add: history_ok_def)
  moreover have "il_retired_bytes st0 = charge_sum (il_retired st0)"
    using st0(1) by (simp add: history_ok_def)
  ultimately show ?thesis
    using fb k st0(2) trim_count_spec [of st] st trim_count_le [of d b ?gs]
    by (simp add: retirement_bounded_def)
qed

text \<open>The bound on the limit leaves room for one group, so no byte total saturates.\<close>

lemma push_bounded:
  assumes check: "check_retirement_for_new_entry st ret ins dels = Ok ()"
    and st: "history_ok st" "retirement_bounded st" "il_max_bytes st + ret < U64_MAX"
    and g: "retirement_charge g = retirement_charge_of 1 ins dels" "ug_retained_bytes g = ret" "group_ok g"
  shows "retirement_bounded (push_undo_group g st)"
proof -
  let ?tail = "drop (il_cursor st) (il_undo_stack st)" and ?act = "take (il_cursor st) (il_undo_stack st)"
  define k where "k = trim_count (il_max_depth st) (il_max_bytes st) (?act @ [g])"
  have "retained_sum (il_undo_stack st) \<le> il_max_bytes st"
    using st by (auto simp: history_ok_def saturating_bytes_0 min_def split: if_splits)
  moreover have "retained_sum (il_undo_stack st) = retained_sum ?act + retained_sum ?tail"
    by (metis append_take_drop_id map_append sum_list_append)
  ultimately have sum: "retained_sum (?act @ [g]) \<le> U64_MAX" "retained_sum ?act + ret \<le> U64_MAX"
    using st(3) g(2) by auto
  obtain a0 n0 where tail: "redo_tail_charge ?tail 0 0 = Ok (a0, n0)"
    using check by (auto simp: check_retirement_for_new_entry_def split: sum.splits)
  note t = redo_tail_charge_spec [OF tail]
  have len: "length ?act = il_cursor st"
    using st(1) by (simp add: history_ok_def)
  have "saturating_bytes 0 ?act = retained_sum ?act"
    using sum(2) by (simp add: saturating_bytes_0)
  then have rem: "(if ret > U64_MAX - saturating_bytes 0 ?act then U64_MAX else saturating_bytes 0 ?act + ret) =
      retained_sum (?act @ [g])"
    using sum g(2) by auto
  obtain a n c where l: "new_entry_loop (il_max_depth st) (il_max_bytes st) ret ins dels ?act
      (retained_sum (?act @ [g])) a0 n0 (length ?act + 1) = Ok (a, n, c)"
    and f: "final_budget_check st a n c = Ok ()"
    using check unfolding check_retirement_for_new_entry_def Let_def rem len tail
    by (auto split: sum.splits)
  note e = new_entry_loop_spec [OF sum(1) g(1,2) l, folded k_def]
  have k: "k \<le> length ?act + 1"
    using trim_count_le [of "il_max_depth st" "il_max_bytes st" "?act @ [g]"] by (simp add: k_def)
  define st1 where "st1 = fold retire_undo_entry ?tail st"
  define st2 where "st2 = st1\<lparr>il_undo_stack := ?act @ [g], il_cursor := length (?act @ [g])\<rparr>"
  have push: "push_undo_group g st = trim_undo_stack st2"
    using fold_retire(3) [of ?tail st] by (simp add: push_undo_group_def Let_def st1_def st2_def)
  have lim: "il_max_depth st2 = il_max_depth st" "il_max_bytes st2 = il_max_bytes st"
    "il_undo_stack st2 = ?act @ [g]" "il_retired st2 = il_retired st @ ?tail"
    using fold_retire(5) [of st ?tail] fold_retire(1) [of ?tail st] by (simp_all add: st2_def st1_def limits_same_def)
  have ok: "history_ok (trim_undo_stack st2)"
    using push_undo_group_props(3) [OF history_ok_base [OF st(1)] g(3)] push by simp
  have ret: "il_retired (trim_undo_stack st2) = il_retired st @ ?tail @ take k (?act @ [g])"
    "il_undo_stack (trim_undo_stack st2) = drop k (?act @ [g])"
    using trim_count_spec [of st2] lim by (simp_all add: k_def)
  have "il_retired_bytes (trim_undo_stack st2) = il_retired_bytes st + a"
    using ok ret(1) st(1) e t by (simp add: history_ok_def)
  moreover have "length (il_retired (trim_undo_stack st2)) + length (il_undo_stack (trim_undo_stack st2)) =
      length (il_retired st) + n + c"
    using ret e t k by simp
  moreover have "il_retired_bytes st + a \<le> kMaxRetirementBytes" "length (il_retired st) + n + c \<le> kMaxRetirementGroups"
    using final_budget_check_Ok [OF f] st(2) by (simp_all add: retirement_bounded_def)
  ultimately show ?thesis
    unfolding push by (simp add: retirement_bounded_def)
qed

section \<open>The other history operations\<close>

lemma set_max_undo_depth_ok:
  assumes ok: "list_ok st" and res: "set_max_undo_depth depth st = (st', r)"
  shows "list_ok st'"
proof (cases "r = Ok ()")
  case True
  let ?st = "st\<lparr>il_max_depth := depth\<rparr>"
  have st': "st' = trim_undo_stack ?st"
    using res True by (auto simp: set_max_undo_depth_def split: if_splits sum.splits)
  have "history_ok st'"
    unfolding st' using ok trim_props(4) [of ?st] by (simp add: list_ok_def history_ok_def history_base_def)
  moreover have "history_only st ?st"
    by (simp add: history_only_def)
  ultimately show ?thesis
    using list_ok_history [OF ok] trim_props(1) [of ?st] history_only_trans(1) st' by blast
next
  case False
  then show ?thesis
    using assms by (auto simp: set_max_undo_depth_def split: if_splits sum.splits)
qed

lemma set_max_undo_bytes_ok:
  assumes ok: "list_ok st" and b: "bytes \<le> U64_MAX" and res: "set_max_undo_bytes bytes st = (st', r)"
  shows "list_ok st'"
proof (cases "r = Ok ()")
  case True
  let ?st = "st\<lparr>il_max_bytes := bytes\<rparr>"
  have st': "st' = trim_undo_stack ?st"
    using res True by (auto simp: set_max_undo_bytes_def split: if_splits sum.splits)
  have "history_ok st'"
    unfolding st' using ok b trim_props(4) [of ?st] by (simp add: list_ok_def history_ok_def history_base_def)
  moreover have "history_only st ?st"
    by (simp add: history_only_def)
  ultimately show ?thesis
    using list_ok_history [OF ok] trim_props(1) [of ?st] history_only_trans(1) st' by blast
next
  case False
  then show ?thesis
    using assms by (auto simp: set_max_undo_bytes_def split: if_splits sum.splits)
qed

text \<open>Coalescing joins the two last active groups; nothing else moves.\<close>

lemma coalesce_stack:
  assumes "coalesce_last_undo st = (st', True)" "il_cursor st \<le> length (il_undo_stack st)"
  obtains xs p l ys m where "il_undo_stack st = xs @ p # l # ys" "length xs = il_cursor st - 2"
    "il_cursor st \<ge> 2" "il_undo_stack st' = xs @ m # ys" "il_cursor st' = il_cursor st - 1"
    "ug_inserted m = ug_inserted p @ ug_inserted l" "ug_deletions m = ug_deletions p @ ug_deletions l"
    "ug_operation_ids m = ug_operation_ids p @ ug_operation_ids l"
    "min U64_MAX (ug_retained_bytes m) = min U64_MAX (ug_retained_bytes p + ug_retained_bytes l)"
    "history_only st st'" "limits_same st st'" "il_retired st' = il_retired st"
    "il_retired_bytes st' = il_retired_bytes st" "il_undo_bytes st' = saturating_bytes 0 (il_undo_stack st')"
proof -
  let ?c = "il_cursor st" and ?s = "il_undo_stack st"
  have c: "?c \<ge> 2"
    using assms(1) by (auto simp: coalesce_last_undo_def split: if_splits)
  define p where "p = ?s ! (?c - 2)"
  define l where "l = ?s ! (?c - 1)"
  have s: "?s = take (?c - 2) ?s @ p # l # drop ?c ?s"
  proof -
    have "Suc (?c - 2) = ?c - 1" "Suc (?c - 1) = ?c" "?c - 2 < length ?s" "?c - 1 < length ?s"
      using c assms(2) by linarith+
    then have "drop (?c - 2) ?s = p # drop (?c - 1) ?s" "drop (?c - 1) ?s = l # drop ?c ?s"
      using Cons_nth_drop_Suc [of "?c - 2" ?s] Cons_nth_drop_Suc [of "?c - 1" ?s]
      unfolding p_def l_def by metis+
    then show ?thesis
      by (metis append_take_drop_id)
  qed
  define m where "m = p\<lparr>ug_inserted := ug_inserted p @ ug_inserted l,
      ug_deletions := ug_deletions p @ ug_deletions l,
      ug_operation_ids := ug_operation_ids p @ ug_operation_ids l,
      ug_retained_bytes := (if ug_retained_bytes l > U64_MAX - ug_retained_bytes p then U64_MAX
        else ug_retained_bytes p + ug_retained_bytes l)\<rparr>"
  have st': "st' = recalculate_undo_bytes (st\<lparr>il_undo_stack := take (?c - 2) ?s @ m # drop ?c ?s, il_cursor := ?c - 1\<rparr>)"
    using assms(1) c unfolding coalesce_last_undo_def Let_def m_def p_def l_def
    by (simp split del: if_split)
  have "min U64_MAX (ug_retained_bytes m) = min U64_MAX (ug_retained_bytes p + ug_retained_bytes l)"
    by (simp add: m_def)
  then show thesis
    by (intro that [of "take (?c - 2) ?s" p l "drop ?c ?s" m])
      (use s c assms(2) in \<open>simp_all add: st' m_def recalculate_undo_bytes_def history_only_def limits_same_def\<close>)
qed

lemma min_sum: "min M (a + min M b) = min M (a + b)" for M a b :: nat
  by (simp add: min_def)

lemma coalesce_ok:
  assumes ok: "list_ok st" and res: "coalesce_last_undo st = (st', r)"
  shows "list_ok st'"
proof (cases r)
  case True
  have h: "history_ok st"
    using ok by (simp add: list_ok_def)
  then have cur: "il_cursor st \<le> length (il_undo_stack st)"
    by (simp add: history_ok_def)
  obtain xs p l ys m where c: "il_undo_stack st = xs @ p # l # ys" "length xs = il_cursor st - 2"
    "il_cursor st \<ge> 2" "il_undo_stack st' = xs @ m # ys" "il_cursor st' = il_cursor st - 1"
    "ug_inserted m = ug_inserted p @ ug_inserted l" "ug_deletions m = ug_deletions p @ ug_deletions l"
    "min U64_MAX (ug_retained_bytes m) = min U64_MAX (ug_retained_bytes p + ug_retained_bytes l)"
    "history_only st st'" "limits_same st st'" "il_retired st' = il_retired st"
    "il_retired_bytes st' = il_retired_bytes st" "il_undo_bytes st' = saturating_bytes 0 (il_undo_stack st')"
    using coalesce_stack [OF _ cur, of st'] res True by metis
  have "min U64_MAX (retained_sum xs + retained_sum ys + ug_retained_bytes m) =
      min U64_MAX (retained_sum xs + retained_sum ys + (ug_retained_bytes p + ug_retained_bytes l))"
    using c(8) min_sum by metis
  then have "il_undo_bytes st' = il_undo_bytes st"
    using h c by (simp add: history_ok_def saturating_bytes_0 ac_simps)
  moreover have "group_ok p \<and> group_ok l \<longrightarrow> group_ok m"
    using c(6,7) by (simp add: group_ok_def)
  ultimately have "history_ok st'"
    using h c by (auto simp: history_ok_def limits_same_def)
  then show ?thesis
    using list_ok_history [OF ok c(9)] by blast
next
  case False
  then show ?thesis
    using assms by (auto simp: coalesce_last_undo_def Let_def split: if_splits)
qed

lemma acknowledge_ok:
  assumes ok: "list_ok st" and res: "acknowledge_undo_retirements ids st = (st', r)"
  shows "list_ok st'"
proof (cases "r = Ok ()")
  case True
  then have st': "st' = st\<lparr>il_retired_bytes := il_retired_bytes st -
        sum_list (map retirement_charge (filter (\<lambda>g. ug_group_id g \<in> set ids) (il_retired st))),
      il_retired := filter (\<lambda>g. ug_group_id g \<notin> set ids) (il_retired st)\<rparr>"
    using res by (auto simp: acknowledge_undo_retirements_def split: sum.splits)
  have "sum_list (map retirement_charge gs) =
      sum_list (map retirement_charge (filter P gs)) + sum_list (map retirement_charge (filter (\<lambda>g. \<not> P g) gs))" for P gs
    by (induction gs) auto
  then have sum: "charge_sum (il_retired st) = sum_list (map retirement_charge
      (filter (\<lambda>g. ug_group_id g \<in> set ids) (il_retired st))) + charge_sum (il_retired st')"
    by (simp add: st')
  have "history_ok st"
    using ok by (simp add: list_ok_def)
  then have "il_retired_bytes st' = charge_sum (il_retired st')"
    using sum by (simp add: st' history_ok_def)
  with \<open>history_ok st\<close> have "history_ok st'"
    unfolding history_ok_def by (auto simp: st' list_all_iff)
  moreover have "history_only st st'"
    by (simp add: st' history_only_def)
  ultimately show ?thesis
    using list_ok_history [OF ok] by blast
next
  case False
  then show ?thesis
    using assms by (auto simp: acknowledge_undo_retirements_def split: sum.splits)
qed

lemma restore_active_Ok:
  "restore_active A st bytes gs = Ok b \<Longrightarrow> bytes \<le> il_max_bytes st \<Longrightarrow>
     b = bytes + retained_sum gs \<and> b \<le> il_max_bytes st \<and> (\<forall>g \<in> set gs. group_members_valid A st g)"
  by (induction gs arbitrary: bytes) (fastforce split: if_splits)+

lemma restore_retired_Ok:
  "restore_retired A st bytes gs = Ok b \<Longrightarrow>
     b = bytes + charge_sum gs \<and> (\<forall>g \<in> set gs. group_members_valid A st g)"
  by (induction gs arbitrary: bytes) (fastforce split: if_splits option.splits dest: add_charge_Some)+

lemma group_members_ok: "group_members_valid A st g \<Longrightarrow> group_ok g"
  by (auto simp: group_members_valid_def group_ok_def valid_local_id_def list_all_iff)

lemma restore_local_history_ok:
  assumes max: "il_max_bytes st \<le> U64_MAX" and res: "restore_local_history A snap st = (st', Ok ())"
  shows "history_ok st'" "history_only st st'" "limits_same st st'"
    "local_history_snapshot st' = snap"
proof -
  obtain b rb where r: "\<not> hs_cursor snap > length (hs_entries snap)" "\<not> length (hs_entries snap) > il_max_depth st"
    "restore_active A st 0 (hs_entries snap) = Ok b" "restore_retired A st 0 (hs_retired snap) = Ok rb"
    "st' = st\<lparr>il_undo_stack := hs_entries snap, il_retired := hs_retired snap, il_retired_bytes := rb,
      il_cursor := hs_cursor snap, il_undo_bytes := b\<rparr>"
    using res by (auto simp: restore_local_history_def split: if_splits sum.splits)
  show "history_ok st'"
    using r(1,2) restore_active_Ok [OF r(3)] restore_retired_Ok [OF r(4)] max
      group_members_ok [of A st]
    by (auto simp: r(5) history_ok_def saturating_bytes_0 list_all_iff)
  show "history_only st st'" "limits_same st st'" "local_history_snapshot st' = snap"
    by (simp_all add: r(5) history_only_def limits_same_def local_history_snapshot_def)
qed

end
