(* ===== verification/List_Local.thy ===== *)
theory List_Local
  imports List_History "HOL-Library.Multiset"
begin

text \<open>
  Local operations of the list engine over any allocator that keeps the interface's laws: an
  insertion lands right after its anchor, a removal marks exactly its target, undo and redo flip
  exactly the members of their group, a refusal changes nothing but the allocator, and each keeps
  the invariant. \<open>alloc_ahead\<close> ties the allocator to the version: what it issues next was not
  observed.
\<close>

definition alloc_ahead ::
  "('al \<Rightarrow> bool) \<Rightarrow> ('al \<Rightarrow> nat) \<Rightarrow> 'al alloc_ops \<Rightarrow> 'al id_list \<Rightarrow> bool" where
  "alloc_ahead ready issued A st \<longleftrightarrow>
     ready (il_alloc st) \<and>
     get (il_version st) (alloc_actor A (il_alloc st)) < issued (il_alloc st)"

section \<open>Shared steps\<close>

lemma log_event_simps [simp]:
  "il_entries (log_event ev st) = il_entries st" "il_version (log_event ev st) = il_version st"
  "il_undo_map (log_event ev st) = il_undo_map st" "il_alloc (log_event ev st) = il_alloc st"
  "il_gaps (log_event ev st) = il_gaps st" "queue_ok (log_event ev st) = queue_ok st"
  "history_ok (log_event ev st) = history_ok st" "list_ok (log_event ev st) = list_ok st"
  "il_undo_stack (log_event ev st) = il_undo_stack st" "il_cursor (log_event ev st) = il_cursor st"
  "il_retired (log_event ev st) = il_retired st" "il_reclamation (log_event ev st) = il_reclamation st"
  "il_deferred (log_event ev st) = il_deferred st" "il_log (log_event ev st) = il_log st @ [ev]"
  "retirement_bounded (log_event ev st) = retirement_bounded st"
  by (simp_all add: log_event_def queue_ok_def history_ok_def list_ok_def retirement_bounded_def)

lemma set_entries_simps [simp]:
  "il_entries (set_entries es st) = map (refresh_visible (il_undo_map st)) es"
  "il_version (set_entries es st) = il_version st" "il_undo_map (set_entries es st) = il_undo_map st"
  "il_alloc (set_entries es st) = il_alloc st" "il_gaps (set_entries es st) = il_gaps st"
  "il_undo_stack (set_entries es st) = il_undo_stack st" "il_cursor (set_entries es st) = il_cursor st"
  "il_retired (set_entries es st) = il_retired st" "il_max_bytes (set_entries es st) = il_max_bytes st"
  "queue_ok (set_entries es st) = queue_ok st" "history_ok (set_entries es st) = history_ok st"
  "il_reclamation (set_entries es st) = il_reclamation st" "il_deferred (set_entries es st) = il_deferred st"
  "il_log (set_entries es st) = il_log st"
  by (simp_all add: set_entries_def queue_ok_def history_ok_def)

text \<open>A local edit observes its identity and replaces the entries.\<close>

definition stamped :: "'al \<Rightarrow> identity \<Rightarrow> list_entry list \<Rightarrow> 'al id_list \<Rightarrow> 'al id_list" where
  "stamped al i es st = set_entries es (st\<lparr>il_alloc := al, il_version := observe (il_version st) i\<rparr>)"

lemma stamped_simps [simp]:
  "il_entries (stamped al i es st) = map (refresh_visible (il_undo_map st)) es"
  "il_version (stamped al i es st) = observe (il_version st) i"
  "il_undo_map (stamped al i es st) = il_undo_map st" "il_alloc (stamped al i es st) = al"
  "il_undo_stack (stamped al i es st) = il_undo_stack st" "il_cursor (stamped al i es st) = il_cursor st"
  "history_ok (stamped al i es st) = history_ok st" "il_retired (stamped al i es st) = il_retired st"
  "il_log (stamped al i es st) = il_log st" "il_gaps (stamped al i es st) = il_gaps st"
  "queue_ok (stamped al i es st) = queue_ok st"
  by (simp_all add: stamped_def set_entries_def queue_ok_def history_ok_def)

lemma stamped_ok:
  assumes ok: "list_ok st" and es: "runs_ok entry_ops es" "list_all (entry_ok (observe (il_version st) i)) es"
  shows "list_ok (stamped al i es st)"
proof -
  have "global_ok (il_version st)" "ledger_ok (il_gaps st) (il_version st)"
    using ok by (simp_all add: list_ok_def)
  then have "ledger_ok (il_gaps st) (observe (il_version st) i)"
    using ledger_ok_mono get_observe_ge by metis
  moreover have "list_all (entry_ok (observe (il_version st) i)) (map (refresh_visible (il_undo_map st)) es)"
    using es(2) by (simp add: list_all_iff)
  ultimately show ?thesis
    using ok es(1) unfolding list_ok_def stamped_simps runs_ok_refresh
    by (intro conjI flags_ok_refresh global_ok_observe) (elim conjE, assumption)+
qed

lemma push_ok:
  assumes "list_ok st" "group_ok g"
  shows "list_ok (push_undo_group g st)" "history_only st (push_undo_group g st)"
proof -
  have base: "history_base st"
    using assms(1) history_ok_base [of st] by (simp add: list_ok_def)
  note p = push_undo_group_props [OF base assms(2)]
  show "list_ok (push_undo_group g st)" "history_only st (push_undo_group g st)"
    using p list_ok_history [OF assms(1)] by blast+
qed

lemma find_origin_Some:
  assumes "find_origin es a = Some i"
  shows "i < length es" "le_origin (es ! i) = position a"
  using assms by (auto simp: find_origin_def find_Some_iff)

lemma find_origin_None: "find_origin es a = None \<longleftrightarrow> position a \<notin> le_origin ` set es"
proof -
  have "position a \<in> le_origin ` set es \<longleftrightarrow> (\<exists>i < length es. le_origin (es ! i) = position a)"
    by (metis (no_types, lifting) image_iff in_set_conv_nth)
  then show ?thesis
    by (auto simp: find_origin_def find_None_iff)
qed

lemma mint_link_wf: "link_wf (mint_link R frags lo)"
  by (auto simp: mint_link_def link_wf_def default_link_def Let_def split: option.splits)

context identity_allocator
begin

lemma reserve_fresh:
  assumes "alloc_ahead usable issued A st" "reserve_run A (il_alloc st) 1 = (al, Ok c)"
  defines "i \<equiv> Identity (alloc_actor A al) c"
  shows "\<not> observed (il_version st) i" "0 < c" "usable al" "alloc_actor A al = alloc_actor A (il_alloc st)"
    "global_ok (il_version st) \<Longrightarrow> get (observe (il_version st) i) (alloc_actor A al) < issued al"
proof -
  have a: "alloc_actor A al = alloc_actor A (il_alloc st)"
    using actor_reserve [of "il_alloc st" 1] assms(1,2) by (simp add: alloc_ahead_def)
  have r: "usable al" "0 < c" "issued (il_alloc st) \<le> c" "c + 1 \<le> issued al"
    using reserve_ok [OF _ _ assms(2)] assms(1) by (auto simp: alloc_ahead_def U64_MAX_eq)
  show "\<not> observed (il_version st) i" "0 < c" "usable al" "alloc_actor A al = alloc_actor A (il_alloc st)"
    using a r assms(1) by (auto simp: i_def observed_def alloc_ahead_def)
  show "global_ok (il_version st) \<Longrightarrow> get (observe (il_version st) i) (alloc_actor A al) < issued al"
    using a r assms(1) by (auto simp: i_def get_observe alloc_ahead_def)
qed

lemma alloc_ahead_cong:
  "il_alloc st' = il_alloc st \<Longrightarrow> il_version st' = il_version st \<Longrightarrow>
     alloc_ahead usable issued A st' = alloc_ahead usable issued A st"
  by (simp add: alloc_ahead_def)

lemma stamped_ahead:
  assumes "list_ok st" "alloc_ahead usable issued A st" "reserve_run A (il_alloc st) 1 = (al, Ok c)"
  shows "alloc_ahead usable issued A (stamped al (Identity (alloc_actor A al) c) es st)"
  using reserve_fresh [OF assms(2,3)] assms(1) by (simp add: alloc_ahead_def list_ok_def)

text \<open>An insertion: the new entry stands right after the anchor, or first for the minimum anchor.\<close>

lemma insert_after_correct:
  assumes ok: "list_ok st" and ahead: "alloc_ahead usable issued A st"
    and res: "try_insert_after A after eid st = (st', Ok op)"
  shows "list_ok st' \<and> alloc_ahead usable issued A st' \<and>
    (\<exists>us vs i l. il_entries st = us @ vs \<and>
       il_entries st' = us @ refresh_visible (il_undo_map st) (new_entry i l eid) # vs \<and>
       (if is_min after then us = [] else us \<noteq> [] \<and> le_origin (last us) = position after) \<and>
       op = ListInsert \<lparr>li_timestamp = i, li_version = il_version st, li_id = eid, li_link = l\<rparr> \<and>
       \<not> observed (il_version st) i \<and> actor i = alloc_actor A (il_alloc st) \<and>
       il_version st' = observe (il_version st) i \<and> il_undo_map st' = il_undo_map st)"
proof -
  let ?es = "il_entries st" and ?m = "il_undo_map st"
  let ?left = "if \<not> is_min after then Some (position after) else None"
  define l where "l = mint_link entry_ops ?es ?left"
  have resolves: "is_min after \<or> position after \<in> le_origin ` set ?es"
    using res find_origin_None by (auto simp: try_insert_after_def split: if_splits)
  have r: "insert_after_resolved A after eid st = (st', Ok op)"
    using res by (auto simp: try_insert_after_def split: if_splits)
  obtain al c where rr: "reserve_run A (il_alloc st) 1 = (al, Ok c)"
    using r by (auto simp: insert_after_resolved_def Let_def split: sum.splits prod.splits)
  define i where "i = Identity (alloc_actor A al) c"
  note fresh = reserve_fresh [OF ahead rr, folded i_def]
  let ?e = "new_entry i l eid"
  have rok: "runs_ok entry_ops ?es"
    using ok by (simp add: list_ok_def)
  have new: "i \<notin> le_origin ` set ?es"
    using fresh_origin [OF ok fresh(1)] .
  have f: "run_fresh entry_ops (set (run_ids entry_ops ?es)) ?e"
    using new by simp
  have left: "\<forall>j. ?left = Some j \<longrightarrow> j \<in> set (run_ids entry_ops ?es)"
    using resolves by auto
  obtain us vs es' where uv: "integrate entry_ops ?es ?e = Some es'" "runs_ok entry_ops es'"
    "items entry_ops ?es = us @ vs" "items entry_ops es' = us @ run_items entry_ops ?e @ vs"
    "(if us = [] then None else Some (fst (last us))) = ?left"
    using entries.mint_link_correct [OF rok left f] by (auto simp: l_def)
  have present: "link_present (links entry_ops ?es) (le_link ?e)"
  proof (rule ccontr)
    assume "\<not> ?thesis"
    moreover have "link_wf (le_link ?e)"
      using mint_link_wf [of entry_ops ?es ?left] by (simp only: l_def new_entry_simps)
    ultimately show False
      using integrate_None_iff [OF rok f] uv(1) by simp
  qed
  have "le_origin ?e \<notin> le_origin ` set ?es"
    using new by simp
  then obtain xs ys where xy: "?es = xs @ ys" "integrate entry_ops ?es ?e = Some (xs @ ?e # ys)"
    using integrate_entry [OF rok _ present] by metis
  have es': "es' = xs @ ?e # ys"
    using uv(1) xy(2) by simp
  have "map (\<lambda>e. (le_origin e, le_link e)) xs = us"
  proof -
    let ?f = "\<lambda>e. (le_origin e, le_link e)"
    have "map ?f xs @ (i, l) # map ?f ys = us @ (i, l) # vs" "us @ vs = map ?f xs @ map ?f ys"
      using uv(3,4) es' xy(1) by (simp_all add: run_items_def)
    moreover have "(i, l) \<notin> set (map ?f xs)" "(i, l) \<notin> set (map ?f ys)"
      using new xy(1) by auto
    ultimately show ?thesis
      using append_Cons_eq_iff [of "(i, l)" "map ?f xs" "map ?f ys" us vs] by simp
  qed
  then have last: "if is_min after then xs = [] else xs \<noteq> [] \<and> le_origin (last xs) = position after"
    using uv(5) by (auto simp: last_map split: if_splits)
  let ?g = "\<lparr>ug_group_id = i, ug_operation_ids = [i], ug_inserted = [i], ug_deletions = [],
      ug_retained_bytes = 8 + sizeof_key\<rparr>"
  let ?op = "ListInsert \<lparr>li_timestamp = i, li_version = il_version st, li_id = eid, li_link = l\<rparr>"
  have st': "st' = log_event (LocalOpEvent ?op) (log_event ChangeEvent (push_undo_group ?g (stamped al i es' st)))"
    "op = ?op"
    using r rr uv(1)
    by (auto simp: insert_after_resolved_def Let_def stamped_def i_def l_def split: sum.splits)
  have "list_all (entry_ok (observe (il_version st) i)) es'"
    using entries_observe [OF ok, of i] xy(1) es' observed_observe ok
    by (auto simp: entry_ok_def list_ok_def)
  then have sok: "list_ok (stamped al i es' st)"
    using stamped_ok [OF ok uv(2)] by blast
  have g: "group_ok ?g"
    using fresh(2) by (simp add: group_ok_def i_def)
  note push = push_ok [OF sok g]
  have "il_entries st' = map (refresh_visible ?m) es'"
    using push(2) st'(1) by (simp add: history_only_def)
  moreover have "map (refresh_visible ?m) zs = zs" if "set zs \<subseteq> set ?es" for zs
    using that ok by (intro map_idI) (auto simp: list_ok_def flags_ok_def list_all_iff refresh_visible_def)
  ultimately have ents: "il_entries st' = xs @ refresh_visible ?m ?e # ys"
    using es' xy(1) by simp
  have "alloc_ahead usable issued A st'"
    using stamped_ahead [OF ok ahead rr] push(2) st'(1)
    by (simp add: alloc_ahead_def history_only_def i_def)
  moreover have "il_version st' = observe (il_version st) i" "il_undo_map st' = ?m"
    using push(2) st'(1) by (simp_all add: history_only_def)
  moreover have "list_ok st'"
    using push(1) st'(1) by simp
  moreover have "actor i = alloc_actor A (il_alloc st)"
    using fresh(4) by (simp add: i_def)
  ultimately show ?thesis
    using st'(2) ents xy(1) last fresh(1) by blast
qed

text \<open>A removal: exactly the anchored entry gets the new deletion.\<close>

lemma remove_at_correct:
  assumes ok: "list_ok st" and ahead: "alloc_ahead usable issued A st"
    and res: "try_remove_at A target st = (st', Ok op)"
  shows "list_ok st' \<and> alloc_ahead usable issued A st' \<and>
    (\<exists>us e vs d. il_entries st = us @ e # vs \<and> le_origin e = position target \<and>
       il_entries st' = us @ refresh_visible (il_undo_map st) (e\<lparr>le_deletions := le_deletions e @ [d]\<rparr>) # vs \<and>
       op = ListRemove \<lparr>lr_timestamp = d, lr_version = il_version st, lr_target_origin = position target\<rparr> \<and>
       \<not> observed (il_version st) d \<and> actor d = alloc_actor A (il_alloc st) \<and>
       il_version st' = observe (il_version st) d \<and> il_undo_map st' = il_undo_map st)"
proof -
  let ?es = "il_entries st" and ?m = "il_undo_map st"
  obtain idx where idx: "find_origin ?es target = Some idx" and r: "remove_at_resolved A idx st = (st', Ok op)"
    using res by (auto simp: try_remove_at_def split: option.splits)
  note f = find_origin_Some [OF idx]
  obtain al c where rr: "reserve_run A (il_alloc st) 1 = (al, Ok c)"
    using r by (auto simp: remove_at_resolved_def Let_def split: sum.splits prod.splits)
  define d where "d = Identity (alloc_actor A al) c"
  note fresh = reserve_fresh [OF ahead rr, folded d_def]
  define e where "e = ?es ! idx"
  define e' where "e' = e\<lparr>le_deletions := le_deletions e @ [d]\<rparr>"
  define es' where "es' = ?es[idx := e']"
  have split: "?es = take idx ?es @ e # drop (Suc idx) ?es" "es' = take idx ?es @ e' # drop (Suc idx) ?es"
    using f(1) by (simp_all add: e_def es'_def id_take_nth_drop upd_conv_take_nth_drop)
  let ?g = "\<lparr>ug_group_id = d, ug_operation_ids = [d], ug_inserted = [], ug_deletions = [d],
      ug_retained_bytes = 8 + sizeof_identity\<rparr>"
  let ?op = "ListRemove \<lparr>lr_timestamp = d, lr_version = il_version st, lr_target_origin = position target\<rparr>"
  have st': "st' = log_event (LocalOpEvent ?op) (log_event ChangeEvent (push_undo_group ?g (stamped al d es' st)))"
    "op = ?op"
    using r rr f(2)
    by (auto simp: remove_at_resolved_def Let_def stamped_def d_def es'_def e'_def e_def split: sum.splits)
  have "runs_ok entry_ops es' \<longleftrightarrow> runs_ok entry_ops ?es"
    by (rule runs_ok_entries_cong, subst split(2), subst split(1)) (simp add: e'_def)
  then have rok: "runs_ok entry_ops es'"
    using ok by (simp add: list_ok_def)
  have eok: "list_all (entry_ok (observe (il_version st) d)) (take idx ?es @ e # drop (Suc idx) ?es)"
    using entries_observe [OF ok, of d] split(1) by simp
  have "observed (observe (il_version st) d) d"
    using ok observed_observe by (simp add: list_ok_def)
  then have "list_all (entry_ok (observe (il_version st) d)) es'"
    using eok unfolding split(2) by (simp add: entry_ok_def e'_def)
  then have sok: "list_ok (stamped al d es' st)"
    using stamped_ok [OF ok rok] by blast
  have g: "group_ok ?g"
    using fresh(2) by (simp add: group_ok_def d_def)
  note push = push_ok [OF sok g]
  have ids: "map (refresh_visible ?m) zs = zs" if "set zs \<subseteq> set ?es" for zs
    using that ok by (intro map_idI) (auto simp: list_ok_def flags_ok_def list_all_iff refresh_visible_def)
  have "il_entries st' = map (refresh_visible ?m) es'"
    using push(2) st'(1) by (simp add: history_only_def)
  then have ents: "il_entries st' = take idx ?es @ refresh_visible ?m e' # drop (Suc idx) ?es"
    using split(2) ids [of "take idx ?es"] ids [of "drop (Suc idx) ?es"] by (simp add: set_take_subset set_drop_subset)
  have "alloc_ahead usable issued A st'"
    using stamped_ahead [OF ok ahead rr] push(2) st'(1)
    by (simp add: alloc_ahead_def history_only_def d_def)
  moreover have "il_version st' = observe (il_version st) d" "il_undo_map st' = ?m"
    using push(2) st'(1) by (simp_all add: history_only_def)
  moreover have "list_ok st'"
    using push(1) st'(1) by simp
  moreover have "actor d = alloc_actor A (il_alloc st)"
    using fresh(4) by (simp add: d_def)
  moreover have "le_origin e = position target"
    using f(2) by (simp add: e_def)
  ultimately show ?thesis
    using st'(2) ents split(1) fresh(1) unfolding e'_def by blast
qed

end

section \<open>Refusals\<close>

text \<open>A refused local operation leaves everything but the allocator as it was.\<close>

definition alloc_only :: "'al id_list \<Rightarrow> 'al id_list \<Rightarrow> bool" where
  "alloc_only st st' \<longleftrightarrow> st' = st\<lparr>il_alloc := il_alloc st'\<rparr>"

lemma insert_refused: "try_insert_after A after eid st = (st', Err e) \<Longrightarrow> alloc_only st st'"
  by (auto simp: try_insert_after_def insert_after_resolved_def Let_def alloc_only_def
      split: if_splits sum.splits prod.splits)

lemma remove_refused: "try_remove_at A target st = (st', Err e) \<Longrightarrow> alloc_only st st'"
  by (auto simp: try_remove_at_def remove_at_resolved_def Let_def alloc_only_def
      split: option.splits sum.splits prod.splits)

lemma undo_group_refused: "try_undo_group A g st = (st', Err e) \<Longrightarrow> alloc_only st st'"
  by (auto simp: try_undo_group_def Let_def alloc_only_def split: option.splits sum.splits prod.splits)

lemma redo_group_refused: "try_redo_group A g st = (st', Err e) \<Longrightarrow> alloc_only st st'"
  by (auto simp: try_redo_group_def Let_def alloc_only_def split: option.splits sum.splits prod.splits)

section \<open>Undo and redo\<close>

lemma bump_counts_eq:
  "bump_counts m t ids = (undo_insert_all m t (snd (bump_counts m t ids)), snd (bump_counts m t ids))"
  by (induction ids arbitrary: m) (auto simp: Let_def split: prod.splits, metis snd_conv prod.collapse fst_conv)

lemma bump_counts_targets: "map fst (snd (bump_counts m t ids)) = ids"
  by (induction ids arbitrary: m) (auto simp: Let_def split: prod.splits, metis snd_conv)

text \<open>Without overflow every member's count goes up by one and no other count changes.\<close>

lemma bump_counts_count:
  assumes "undo_ok m" "counter t \<noteq> 0" "\<forall>i \<in> set ids. counter i \<noteq> 0 \<and> undo_count m i + 1 < 2 ^ 32" "distinct ids"
  shows "undo_ok (fst (bump_counts m t ids)) \<and>
    undo_count (fst (bump_counts m t ids)) j = (if j \<in> set ids then undo_count m j + 1 else undo_count m j)"
  using assms
proof (induction ids arbitrary: m)
  case Nil
  then show ?case by simp
next
  case (Cons i ids)
  let ?e = "\<lparr>ue_edit = i, ue_undo = t, ue_count = undo_count m i + 1\<rparr>"
  let ?m = "undo_insert m ?e"
  have e: "undo_entry_ok ?e"
    using Cons.prems by (simp add: undo_entry_ok_def)
  have m: "undo_ok ?m"
    using undo_insert_ok [OF Cons.prems(1) e] .
  have cnt: "undo_count ?m k = (if k = i then undo_count m i + 1 else undo_count m k)" for k
    using undo_count_insert [OF Cons.prems(1) e, of k] by (auto simp: max_def)
  have "\<forall>k \<in> set ids. counter k \<noteq> 0 \<and> undo_count ?m k + 1 < 2 ^ 32"
    using Cons.prems cnt by auto
  then have IH: "undo_ok (fst (bump_counts ?m t ids)) \<and>
      undo_count (fst (bump_counts ?m t ids)) j = (if j \<in> set ids then undo_count ?m j + 1 else undo_count ?m j)"
    using Cons.IH [OF m Cons.prems(2)] Cons.prems(4) by simp
  have "u32 (undo_count m i + 1) = undo_count m i + 1"
    using Cons.prems(3) by simp
  then have "fst (bump_counts m t (i # ids)) = fst (bump_counts ?m t ids)"
    by (simp add: Let_def split: prod.splits)
  then show ?case
    using IH cnt [of j] Cons.prems(4) by auto
qed

abbreviation members :: "undo_group \<Rightarrow> identity list" where
  "members g \<equiv> ug_inserted g @ ug_deletions g"

text \<open>The members' counts go up by one; the entries stay, with their flags recomputed.\<close>

definition flipped :: "undo_group \<Rightarrow> 'al id_list \<Rightarrow> 'al id_list \<Rightarrow> bool" where
  "flipped g st st' \<longleftrightarrow>
     il_entries st' = map (refresh_visible (il_undo_map st')) (il_entries st) \<and>
     (\<forall>j. undo_count (il_undo_map st') j =
        (if j \<in> set (members g) then undo_count (il_undo_map st) j + 1 else undo_count (il_undo_map st) j))"

definition countable_group :: "undo_group \<Rightarrow> 'al id_list \<Rightarrow> bool" where
  "countable_group g st \<longleftrightarrow>
     distinct (members g) \<and> (\<forall>i \<in> set (members g). undo_count (il_undo_map st) i + 1 < 2 ^ 32)"

lemma undo_insert_all_bump:
  "group_ok g \<Longrightarrow> undo_ok m \<Longrightarrow> counter t \<noteq> 0 \<Longrightarrow> undo_ok (fst (bump_counts m t (members g)))"
proof -
  assume a: "group_ok g" "undo_ok m" "counter t \<noteq> 0"
  have "\<forall>i \<in> set (members g). counter i \<noteq> 0"
    using a(1) by (auto simp: group_ok_def list_all_iff)
  then have "\<forall>i \<in> set (map fst (snd (bump_counts m t (members g)))). counter i \<noteq> 0"
    by (simp only: bump_counts_targets)
  then have "\<forall>(i, c) \<in> set (snd (bump_counts m t (members g))). counter i \<noteq> 0"
    by auto
  then show ?thesis
    using undo_insert_all_ok(1) [OF a(2,3)] bump_counts_eq by (metis fst_conv)
qed

lemma flip_group_correct:
  assumes ok: "list_ok st" and g: "group_ok g" "counter t \<noteq> 0" and res: "flip_group g t st = (st', op)"
  shows "list_ok st'" "il_version st' = observe (il_version st) t" "il_alloc st' = il_alloc st"
    "il_undo_stack st' = il_undo_stack st" "il_cursor st' = il_cursor st"
    "countable_group g st \<Longrightarrow> flipped g st st'"
    "\<exists>counts. op = ListUndo \<lparr>lu_timestamp = t, lu_version = il_version st, lu_counts = counts\<rparr> \<and>
       map fst counts = members g \<and> il_undo_map st' = undo_insert_all (il_undo_map st) t counts"
    "il_entries st' = map (refresh_visible (il_undo_map st')) (il_entries st)"
proof -
  define m where "m = fst (bump_counts (il_undo_map st) t (members g))"
  define counts where "counts = snd (bump_counts (il_undo_map st) t (members g))"
  have b: "bump_counts (il_undo_map st) t (members g) = (m, counts)"
    by (simp add: m_def counts_def)
  let ?st = "stamped (il_alloc st) t (il_entries st) (st\<lparr>il_undo_map := m\<rparr>)"
  have st': "st' = log_event (LocalOpEvent op) (log_event ChangeEvent ?st)"
    "op = ListUndo \<lparr>lu_timestamp = t, lu_version = il_version st, lu_counts = counts\<rparr>"
    using res b by (cases st; auto simp: flip_group_def Let_def stamped_def set_entries_def)+
  have "undo_ok m"
    using undo_insert_all_bump [OF g(1) _ g(2), of "il_undo_map st"] ok by (simp add: m_def list_ok_def)
  moreover have "global_ok (il_version st)" "ledger_ok (il_gaps st) (il_version st)"
    using ok by (simp_all add: list_ok_def)
  then have "ledger_ok (il_gaps st) (observe (il_version st) t)"
    using ledger_ok_mono get_observe_ge by metis
  moreover have "queue_ok ?st = queue_ok st" "history_ok ?st = history_ok st"
    by (simp_all add: queue_ok_def history_ok_def stamped_def set_entries_def)
  moreover have "list_all (entry_ok (observe (il_version st) t)) (map (refresh_visible m) (il_entries st))"
    using entries_observe [OF ok, of t] by (simp add: list_all_iff)
  ultimately have "list_ok ?st"
    using ok by (simp add: list_ok_def stamped_def)
  then show "list_ok st'"
    by (simp add: st'(1))
  show "il_version st' = observe (il_version st) t" "il_alloc st' = il_alloc st"
    "il_undo_stack st' = il_undo_stack st" "il_cursor st' = il_cursor st"
    and ents: "il_entries st' = map (refresh_visible (il_undo_map st')) (il_entries st)"
    by (simp_all add: st'(1))
  have um: "il_undo_map st' = m"
    by (simp add: st'(1))
  show "\<exists>counts. op = ListUndo \<lparr>lu_timestamp = t, lu_version = il_version st, lu_counts = counts\<rparr> \<and>
      map fst counts = members g \<and> il_undo_map st' = undo_insert_all (il_undo_map st) t counts"
    using st'(2) um bump_counts_targets [of "il_undo_map st" t "members g"]
      bump_counts_eq [of "il_undo_map st" t "members g"] b
    by (metis fst_conv snd_conv)
  assume "countable_group g st"
  then show "flipped g st st'"
    using bump_counts_count [of "il_undo_map st" t "members g"] g ok ents um
    by (auto simp: countable_group_def flipped_def list_ok_def group_ok_def list_all_iff m_def)
qed

lemma is_undone_twice:
  "undo_count m' i = undo_count m i + 2 \<Longrightarrow> is_undone m' i = is_undone m i"
  by (simp add: is_undone_def)

lemma compute_visible_cong:
  "(\<And>i. is_undone m i = is_undone n i) \<Longrightarrow> compute_visible e m = compute_visible e n"
  by (simp add: compute_visible_def list_all_iff)

text \<open>Flipping a group twice restores every flag.\<close>

lemma flipped_twice:
  assumes "list_ok st" "flipped g st st1" "flipped g st1 st2"
  shows "il_entries st2 = il_entries st"
proof -
  have "is_undone (il_undo_map st2) i = is_undone (il_undo_map st) i" for i
    using assms(2,3) is_undone_twice [of "il_undo_map st2" i "il_undo_map st"]
    by (cases "i \<in> set (members g)") (auto simp: flipped_def is_undone_def)
  then have vis: "compute_visible e (il_undo_map st2) = compute_visible e (il_undo_map st)" for e
    using compute_visible_cong by blast
  have "il_entries st2 = map (refresh_visible (il_undo_map st2)) (il_entries st)"
    using assms(2,3) by (simp add: flipped_def refresh_visible_def comp_def compute_visible_def)
  moreover have "refresh_visible (il_undo_map st2) e = e" if "e \<in> set (il_entries st)" for e
    using that assms(1) vis by (auto simp: list_ok_def flags_ok_def list_all_iff refresh_visible_def)
  ultimately show ?thesis
    by (simp add: map_idI)
qed

lemma find_index_range:
  assumes "find (\<lambda>i. ug_group_id (gs ! i) = g) [a..<b] = Some k"
  shows "a \<le> k" "k < b" "ug_group_id (gs ! k) = g"
  using assms by (auto simp: find_Some_iff)

text \<open>Moving the group to the border between active and redoable groups.\<close>

lemma move_group:
  assumes "k < length gs" "c \<le> length gs - 1"
  defines "erased \<equiv> take k gs @ drop (k + 1) gs"
  defines "moved \<equiv> take c erased @ gs ! k # drop c erased"
  shows "mset moved = mset gs" "length moved = length gs" "moved ! c = gs ! k" "set moved = set gs"
proof -
  have "mset gs = mset (take k gs @ gs ! k # drop (Suc k) gs)"
    using assms(1) by (metis id_take_nth_drop)
  then have e: "mset gs = add_mset (gs ! k) (mset erased)"
    by (simp add: erased_def)
  have "mset moved = add_mset (gs ! k) (mset (take c erased) + mset (drop c erased))"
    by (simp add: moved_def)
  also have "mset (take c erased) + mset (drop c erased) = mset erased"
    by (metis append_take_drop_id mset_append)
  finally show m: "mset moved = mset gs"
    using e by simp
  then show "length moved = length gs" "set moved = set gs"
    using mset_eq_length mset_eq_setD by blast+
  have "length erased = length gs - 1"
    using assms(1) by (simp add: erased_def)
  then show "moved ! c = gs ! k"
    using assms(2) by (simp add: moved_def nth_append)
qed

lemma history_ok_moved:
  assumes "history_ok st" "mset gs = mset (il_undo_stack st)" "c \<le> length gs"
  shows "history_ok (st\<lparr>il_alloc := al, il_undo_stack := gs, il_cursor := c\<rparr>)"
proof -
  have "set gs = set (il_undo_stack st)" "length gs = length (il_undo_stack st)"
    using assms(2) mset_eq_setD mset_eq_length by blast+
  moreover have "saturating_bytes 0 gs = saturating_bytes 0 (il_undo_stack st)"
    unfolding saturating_bytes_0 by (metis assms(2) mset_map sum_mset_sum_list)
  ultimately show ?thesis
    using assms(1,3) by (simp add: history_ok_def list_all_iff)
qed

lemma list_ok_moved:
  assumes "list_ok st" "mset gs = mset (il_undo_stack st)" "c \<le> length gs"
  shows "list_ok (st\<lparr>il_alloc := al, il_undo_stack := gs, il_cursor := c\<rparr>)"
  using assms history_ok_moved [of st gs c al] by (simp add: list_ok_def queue_ok_def)

text \<open>
  Undo and redo of a group: the group moves to the border of the active part, the cursor moves
  over it, and exactly its members' counts are raised by an operation that says so.
\<close>

definition group_step ::
  "('al \<Rightarrow> bool) \<Rightarrow> ('al \<Rightarrow> nat) \<Rightarrow> 'al alloc_ops \<Rightarrow> undo_group \<Rightarrow> identity \<Rightarrow>
     idlist_operation \<Rightarrow> 'al id_list \<Rightarrow> 'al id_list \<Rightarrow> bool" where
  "group_step ready issued A g t op st st' \<longleftrightarrow>
     list_ok st' \<and> alloc_ahead ready issued A st' \<and>
     \<not> observed (il_version st) t \<and> il_version st' = observe (il_version st) t \<and>
     actor t = alloc_actor A (il_alloc st) \<and>
     mset (il_undo_stack st') = mset (il_undo_stack st) \<and>
     (\<exists>counts. op = ListUndo \<lparr>lu_timestamp = t, lu_version = il_version st, lu_counts = counts\<rparr> \<and>
        map fst counts = members g \<and> il_undo_map st' = undo_insert_all (il_undo_map st) t counts) \<and>
     (countable_group g st \<longrightarrow> flipped g st st') \<and>
     il_entries st' = map (refresh_visible (il_undo_map st')) (il_entries st)"

context identity_allocator
begin

lemma group_step_moved:
  assumes ok: "list_ok st" and ahead: "alloc_ahead usable issued A st"
    and rr: "reserve_run A (il_alloc st) 1 = (al, Ok c)"
    and k: "k < length (il_undo_stack st)" and cur: "cur \<le> length (il_undo_stack st) - 1" "cur' \<le> length (il_undo_stack st)"
  defines "g \<equiv> il_undo_stack st ! k"
  defines "erased \<equiv> take k (il_undo_stack st) @ drop (k + 1) (il_undo_stack st)"
  defines "moved \<equiv> take cur erased @ g # drop cur erased"
  defines "t \<equiv> Identity (alloc_actor A al) c"
  assumes flip: "flip_group g t (st\<lparr>il_alloc := al, il_undo_stack := moved, il_cursor := cur'\<rparr>) = (st', op)"
  shows "group_step usable issued A g t op st st' \<and> il_cursor st' = cur' \<and> il_undo_stack st' ! cur = g"
proof -
  let ?st = "st\<lparr>il_alloc := al, il_undo_stack := moved, il_cursor := cur'\<rparr>"
  note m = move_group [OF k cur(1), folded erased_def g_def, folded moved_def]
  have lok: "list_ok ?st"
    using list_ok_moved [OF ok m(1)] cur(2) m(2) by simp
  have "history_ok st"
    using ok by (simp add: list_ok_def)
  then have g: "group_ok g"
    using k by (simp add: history_ok_def g_def list_all_iff)
  note fresh = reserve_fresh [OF ahead rr, folded t_def]
  have t: "counter t \<noteq> 0"
    using fresh(2) by (simp add: t_def)
  note f = flip_group_correct [OF lok g t flip]
  have "alloc_ahead usable issued A st'"
    using fresh ok f(2,3) by (simp add: alloc_ahead_def list_ok_def)
  moreover have "countable_group g st \<longrightarrow> flipped g st st'"
    using f(6) by (simp add: countable_group_def flipped_def)
  moreover have "actor t = alloc_actor A (il_alloc st)"
    using fresh(4) by (simp add: t_def)
  ultimately show ?thesis
    using f(1,2,4,5,7,8) m fresh(1) by (simp add: group_step_def)
qed

lemma undo_group_correct:
  assumes ok: "list_ok st" and ahead: "alloc_ahead usable issued A st"
    and res: "try_undo_group A gid st = (st', Ok r)"
  shows "\<exists>g t op. r = Some op \<and> group_step usable issued A g t op st st' \<and> ug_group_id g = gid \<and>
    g \<in> set (take (il_cursor st) (il_undo_stack st)) \<and>
    il_cursor st = Suc (il_cursor st') \<and> il_undo_stack st' ! il_cursor st' = g"
proof -
  let ?s = "il_undo_stack st" and ?c = "il_cursor st"
  obtain k where k: "find (\<lambda>i. ug_group_id (?s ! i) = gid) [0..<?c] = Some k"
    using res by (auto simp: try_undo_group_def split: option.splits)
  note kr = find_index_range [OF k]
  have cl: "?c \<le> length ?s"
    using ok by (simp add: list_ok_def history_ok_def)
  obtain al c where rr: "reserve_run A (il_alloc st) 1 = (al, Ok c)"
    using res k by (auto simp: try_undo_group_def Let_def split: sum.splits prod.splits)
  let ?g = "?s ! k" and ?t = "Identity (alloc_actor A al) c"
  let ?erased = "take k ?s @ drop (k + 1) ?s"
  let ?moved = "take (?c - 1) ?erased @ ?g # drop (?c - 1) ?erased"
  obtain op where flip: "flip_group ?g ?t (st\<lparr>il_alloc := al, il_undo_stack := ?moved, il_cursor := ?c - 1\<rparr>) = (st', op)"
    and r: "r = Some op"
    using res k rr by (auto simp: try_undo_group_def Let_def split: sum.splits prod.splits)
  have "k < length ?s" "?c - 1 \<le> length ?s - 1" "?c - 1 \<le> length ?s"
    using kr cl by linarith+
  note step = group_step_moved [OF ok ahead rr this flip]
  have "?g = take ?c ?s ! k"
    using kr(2) by simp
  then have "?g \<in> set (take ?c ?s)"
    using kr(2) cl by (metis length_take min.absorb2 nth_mem)
  then show ?thesis
    using step r kr by (intro exI [of _ ?g] exI [of _ ?t] exI [of _ op]) auto
qed

lemma redo_group_correct:
  assumes ok: "list_ok st" and ahead: "alloc_ahead usable issued A st"
    and res: "try_redo_group A gid st = (st', Ok r)"
  shows "\<exists>g t op. r = Some op \<and> group_step usable issued A g t op st st' \<and> ug_group_id g = gid \<and>
    g \<in> set (drop (il_cursor st) (il_undo_stack st)) \<and>
    il_cursor st' = Suc (il_cursor st) \<and> il_undo_stack st' ! il_cursor st = g"
proof -
  let ?s = "il_undo_stack st" and ?c = "il_cursor st"
  obtain k where k: "find (\<lambda>i. ug_group_id (?s ! i) = gid) [?c..<length ?s] = Some k"
    using res by (auto simp: try_redo_group_def split: option.splits)
  note kr = find_index_range [OF k]
  obtain al c where rr: "reserve_run A (il_alloc st) 1 = (al, Ok c)"
    using res k by (auto simp: try_redo_group_def Let_def split: sum.splits prod.splits)
  let ?g = "?s ! k" and ?t = "Identity (alloc_actor A al) c"
  let ?erased = "take k ?s @ drop (k + 1) ?s"
  let ?moved = "take ?c ?erased @ ?g # drop ?c ?erased"
  obtain op where flip: "flip_group ?g ?t (st\<lparr>il_alloc := al, il_undo_stack := ?moved, il_cursor := ?c + 1\<rparr>) = (st', op)"
    and r: "r = Some op"
    using res k rr by (auto simp: try_redo_group_def Let_def split: sum.splits prod.splits)
  have "k < length ?s" "?c \<le> length ?s - 1" "?c + 1 \<le> length ?s"
    using kr by linarith+
  note step = group_step_moved [OF ok ahead rr this flip]
  have "?g = drop ?c ?s ! (k - ?c)"
    using kr by simp
  then have "?g \<in> set (drop ?c ?s)"
    using kr by (metis diff_less_mono length_drop nth_mem)
  then show ?thesis
    using step r kr by (intro exI [of _ ?g] exI [of _ ?t] exI [of _ op]) auto
qed

text \<open>Undo followed by redo of the same group shows the same list again.\<close>

lemma undo_redo_restores:
  assumes ok: "list_ok st" and ahead: "alloc_ahead usable issued A st"
    and undo: "try_undo A st = (st1, Ok (Some op1))" and redo: "try_redo A st1 = (st2, Ok (Some op2))"
    and small: "\<forall>g \<in> set (il_undo_stack st). distinct (members g) \<and>
      (\<forall>i \<in> set (members g). undo_count (il_undo_map st) i + 2 < 2 ^ 32)"
    and ids: "distinct (map ug_group_id (il_undo_stack st))"
  shows "il_entries st2 = il_entries st \<and> il_cursor st2 = il_cursor st \<and> list_ids st2 = list_ids st"
proof -
  have u: "try_undo_group A (ug_group_id (il_undo_stack st ! (il_cursor st - 1))) st = (st1, Ok (Some op1))"
    using undo by (auto simp: try_undo_def split: if_splits)
  obtain g t where g: "group_step usable issued A g t op1 st st1" "g \<in> set (take (il_cursor st) (il_undo_stack st))"
    "il_cursor st = Suc (il_cursor st1)" "il_undo_stack st1 ! il_cursor st1 = g"
    using undo_group_correct [OF ok ahead u] by auto
  have r: "try_redo_group A (ug_group_id g) st1 = (st2, Ok (Some op2))"
    using redo g(4) by (auto simp: try_redo_def split: if_splits)
  have st1: "list_ok st1" "alloc_ahead usable issued A st1"
    using g(1) by (simp_all add: group_step_def)
  obtain h t' where h: "group_step usable issued A h t' op2 st1 st2" "h \<in> set (drop (il_cursor st1) (il_undo_stack st1))"
    "ug_group_id h = ug_group_id g" "il_cursor st2 = Suc (il_cursor st1)"
    using redo_group_correct [OF st1 r] by auto
  have ms: "mset (il_undo_stack st1) = mset (il_undo_stack st)"
    using g(1) by (simp add: group_step_def)
  then have "mset (map ug_group_id (il_undo_stack st1)) = mset (map ug_group_id (il_undo_stack st))"
    by (simp only: mset_map)
  from iffD2 [OF mset_eq_imp_distinct_iff [OF this] ids]
  have d: "distinct (map ug_group_id (il_undo_stack st1))" .
  have "set (il_undo_stack st1) = set (il_undo_stack st)"
    using mset_eq_setD [OF ms] .
  moreover have gst: "g \<in> set (il_undo_stack st)" and "h \<in> set (il_undo_stack st1)"
    using in_set_takeD [OF g(2)] in_set_dropD [OF h(2)] by simp_all
  ultimately have hg: "h = g"
    using inj_onD [OF conjunct2 [OF iffD1 [OF distinct_map d]] h(3)] by simp
  have s: "distinct (members g)" "\<forall>i \<in> set (members g). undo_count (il_undo_map st) i + 2 < 2 ^ 32"
    using small gst by blast+
  have "undo_count (il_undo_map st) i + 1 < 2 ^ 32" if "i \<in> set (members g)" for i
    using s(2) that by fastforce
  then have "countable_group g st"
    using s(1) unfolding countable_group_def by blast
  then have f1: "flipped g st st1"
    using g(1) by (simp add: group_step_def)
  have "undo_count (il_undo_map st1) i + 1 < 2 ^ 32" if "i \<in> set (members g)" for i
    using s(2) f1 that by (fastforce simp: flipped_def)
  then have "countable_group g st1"
    using s(1) unfolding countable_group_def by blast
  then have "flipped g st1 st2"
    using h(1) hg by (simp add: group_step_def)
  then have "il_entries st2 = il_entries st"
    using flipped_twice [OF ok f1] by blast
  then show ?thesis
    using g(3) h(4) by (simp add: list_ids_def visible_entries_def)
qed

end

end
