(* ===== verification/List_Convergence.thy ===== *)
theory List_Convergence
  imports List_Local
begin

text \<open>
  The abstract specification of the list engine: the list is the set of the operations its
  version covers, whatever the order they came in. \<open>reflects\<close> ties a state to a set of operations
  (its items, deletions and undo events are exactly theirs); every operation of the engine refines
  set insertion; and a state is determined, up to what a reader sees, by the set it reflects.
\<close>

section \<open>The operations as a set\<close>

definition op_items :: "idlist_operation \<Rightarrow> (identity \<times> link \<times> nat) set" where
  "op_items op =
     (case op of ListInsert i \<Rightarrow> {(li_timestamp i, li_link i, li_id i)} | _ \<Rightarrow> {})"

definition op_deletions :: "idlist_operation \<Rightarrow> (identity \<times> identity) set" where
  "op_deletions op =
     (case op of ListRemove r \<Rightarrow> {(lr_target_origin r, lr_timestamp r)} | _ \<Rightarrow> {})"

definition op_undos :: "idlist_operation \<Rightarrow> undo_entry set" where
  "op_undos op =
     (case op of
        ListUndo u \<Rightarrow> (\<lambda>(i, c). \<lparr>ue_edit = i, ue_undo = lu_timestamp u, ue_count = c\<rparr>) ` set (lu_counts u)
      | _ \<Rightarrow> {})"

abbreviation entry_item :: "list_entry \<Rightarrow> identity \<times> link \<times> nat" where
  "entry_item e \<equiv> (le_origin e, le_link e, le_id e)"

definition entry_deletions :: "list_entry list \<Rightarrow> (identity \<times> identity) set" where
  "entry_deletions es = (\<Union>e \<in> set es. Pair (le_origin e) ` set (le_deletions e))"

definition reflects :: "idlist_operation set \<Rightarrow> 'al id_list \<Rightarrow> bool" where
  "reflects S st \<longleftrightarrow>
     entry_item ` set (il_entries st) = \<Union> (op_items ` S) \<and>
     entry_deletions (il_entries st) = \<Union> (op_deletions ` S) \<and>
     set (il_undo_map st) = \<Union> (op_undos ` S)"

lemma reflects_new: "reflects {} (new_id_list al)"
  by (simp add: reflects_def new_id_list_def entry_deletions_def)

lemma entry_deletions_simps [simp]:
  "entry_deletions [] = {}"
  "entry_deletions (e # es) = Pair (le_origin e) ` set (le_deletions e) \<union> entry_deletions es"
  "entry_deletions (es @ fs) = entry_deletions es \<union> entry_deletions fs"
  "entry_deletions (map (refresh_visible m) es) = entry_deletions es"
  by (auto simp: entry_deletions_def)

lemma entry_item_refresh [simp]:
  "entry_item ` set (map (refresh_visible m) es) = entry_item ` set es"
  by (simp add: image_image)

lemma reflects_cong:
  "il_entries st' = il_entries st \<Longrightarrow> il_undo_map st' = il_undo_map st \<Longrightarrow>
     reflects S st' = reflects S st"
  by (simp add: reflects_def)

section \<open>The state is determined by the set\<close>

text \<open>Two lists that reflect the same set have the same entries, up to the order of deletions.\<close>

definition same_entry :: "list_entry \<Rightarrow> list_entry \<Rightarrow> bool" where
  "same_entry e f \<longleftrightarrow> entry_item e = entry_item f \<and> le_visible e = le_visible f \<and>
     set (le_deletions e) = set (le_deletions f)"

lemma entry_deletions_of:
  assumes "distinct (map le_origin es)" "e \<in> set es"
  shows "set (le_deletions e) = {d. (le_origin e, d) \<in> entry_deletions es}"
  using assms by (auto simp: entry_deletions_def distinct_map dest: inj_onD)

lemma compute_visible_eq:
  assumes "le_origin e = le_origin f" "set (le_deletions e) = set (le_deletions f)"
    and "\<And>i. is_undone m i = is_undone n i"
  shows "compute_visible e m = compute_visible f n"
  using assms by (simp add: compute_visible_def list_all_iff)

theorem reflects_same:
  assumes x: "list_ok x" "reflects S x" and y: "list_ok y" "reflects S y"
  shows "list_all2 same_entry (il_entries x) (il_entries y)"
proof -
  let ?xs = "il_entries x" and ?ys = "il_entries y"
  have rx: "runs_ok entry_ops ?xs" and ry: "runs_ok entry_ops ?ys"
    using x(1) y(1) by (simp_all add: list_ok_def)
  have it: "entry_item ` set ?xs = entry_item ` set ?ys"
    and de: "entry_deletions ?xs = entry_deletions ?ys"
    and un: "set (il_undo_map x) = set (il_undo_map y)"
    using x(2) y(2) by (simp_all add: reflects_def)
  have "(\<lambda>(a, b, c). (a, b)) ` entry_item ` set ?xs = (\<lambda>(a, b, c). (a, b)) ` entry_item ` set ?ys"
    using it by (rule arg_cong)
  then have "set (items entry_ops ?xs) = set (items entry_ops ?ys)"
    by (simp add: image_image)
  from items_determined [OF rx ry this]
  have eq: "map (\<lambda>e. (le_origin e, le_link e)) ?xs = map (\<lambda>e. (le_origin e, le_link e)) ?ys"
    by simp
  then have len: "length ?xs = length ?ys"
    using map_eq_imp_length_eq by blast
  have d: "distinct (map le_origin ?xs)" "distinct (map le_origin ?ys)"
    using runs_ok_distinct [OF rx] runs_ok_distinct [OF ry] by simp_all
  have undo: "is_undone (il_undo_map x) i = is_undone (il_undo_map y) i" for i
    using is_undone_set_eq [OF _ _ un] x(1) y(1) by (simp add: list_ok_def)
  show ?thesis
  proof (rule list_all2_all_nthI [OF len])
    fix k
    assume k: "k < length ?xs"
    let ?e = "?xs ! k" and ?f = "?ys ! k"
    have ef: "?e \<in> set ?xs" "?f \<in> set ?ys"
      using k len by simp_all
    have o: "le_origin ?e = le_origin ?f"
      using arg_cong [OF eq, of "\<lambda>zs. fst (zs ! k)"] k len by simp
    have "entry_item ?e \<in> entry_item ` set ?ys"
      using it ef(1) by blast
    then obtain f' where f': "f' \<in> set ?ys" "entry_item ?e = entry_item f'"
      by blast
    then have "f' = ?f"
      using o ef(2) d(2) by (auto simp: distinct_map dest: inj_onD)
    then have item: "entry_item ?e = entry_item ?f"
      using f'(2) by simp
    have dels: "set (le_deletions ?e) = set (le_deletions ?f)"
      using entry_deletions_of [OF d(1) ef(1)] entry_deletions_of [OF d(2) ef(2)] o de by simp
    have "le_visible ?e = le_visible ?f"
      using x(1) y(1) ef compute_visible_eq [OF o dels undo]
      by (simp add: list_ok_def flags_ok_def list_all_iff)
    then show "same_entry ?e ?f"
      using item dels by (simp add: same_entry_def)
  qed
qed

lemma same_entries_ids:
  "list_all2 same_entry es fs \<Longrightarrow>
     map le_id (filter le_visible es) = map le_id (filter le_visible fs)"
  by (induction rule: list_all2_induct) (auto simp: same_entry_def)

lemma reflects_list_ids:
  "list_ok x \<Longrightarrow> reflects S x \<Longrightarrow> list_ok y \<Longrightarrow> reflects S y \<Longrightarrow> list_ids x = list_ids y"
  using same_entries_ids [OF reflects_same] by (simp add: list_ids_def visible_entries_def)

section \<open>Applying is insertion\<close>

lemma integrate_entry_set:
  assumes "runs_ok entry_ops es" "le_origin e \<notin> le_origin ` set es" "link_wf (le_link e)"
    and "integrate entry_ops es e = Some es'"
  shows "set es' = insert e (set es)"
  using integrate_entry_Some [OF assms] by (metis Un_insert_right list.simps(15) set_append)

lemma mark_deleted_reflects:
  assumes "mark_deleted t d es = Some es'"
  shows "entry_item ` set es' = entry_item ` set es"
    "entry_deletions es' = insert (t, d) (entry_deletions es)"
proof -
  obtain us e vs where "es = us @ e # vs" "le_origin e = t"
    "es' = us @ e\<lparr>le_deletions := le_deletions e @ [d]\<rparr> # vs"
    using mark_deleted_Some [OF assms] by blast
  then show "entry_item ` set es' = entry_item ` set es"
    "entry_deletions es' = insert (t, d) (entry_deletions es)"
    by auto
qed

lemma entry_deletions_insert:
  "set es' = insert e (set es) \<Longrightarrow> le_deletions e = [] \<Longrightarrow> entry_deletions es' = entry_deletions es"
  by (simp add: entry_deletions_def)

lemma new_entry_item: "entry_item (new_entry i l n) = (i, l, n)"
  by simp

theorem try_apply_reflects:
  assumes ok: "list_ok st" and op: "op_ok op" and new: "\<not> observed (il_version st) (idlist_op_identity op)"
    and r: "reflects S st" and st': "try_apply A op st = Inr st'"
  shows "reflects (insert op S) st'"
proof (cases op)
  case (ListInsert i)
  let ?e = "new_entry (li_timestamp i) (li_link i) (li_id i)"
  obtain es where es: "integrate entry_ops (il_entries st) ?e = Some es"
    "st' = integrated A (li_timestamp i) (li_version i) es st"
    using st' ListInsert
    by (auto simp: try_apply_def apply_concrete_def apply_insert_def split: if_splits option.splits)
  have "le_origin ?e \<notin> le_origin ` set (il_entries st)"
    using fresh_origin [OF ok] new ListInsert by (simp add: idlist_op_identity_def)
  then have "set es = insert ?e (set (il_entries st))"
    using integrate_entry_set [OF _ _ _ es(1)] ok op ListInsert by (simp add: list_ok_def op_ok_def)
  then show ?thesis
    using r es(2) ListInsert entry_deletions_insert [of es ?e "il_entries st"] new_entry_item
    by (simp add: reflects_def op_items_def op_deletions_def op_undos_def image_image)
next
  case (ListRemove x)
  obtain es where es: "mark_deleted (lr_target_origin x) (lr_timestamp x) (il_entries st) = Some es"
    "st' = integrated A (lr_timestamp x) (lr_version x) es st"
    using st' ListRemove
    by (auto simp: try_apply_def apply_concrete_def apply_remove_def split: if_splits option.splits)
  then show ?thesis
    using r ListRemove mark_deleted_reflects [OF es(1)]
    by (simp add: reflects_def op_items_def op_deletions_def op_undos_def image_image)
next
  case (ListUndo u)
  let ?m = "undo_insert_all (il_undo_map st) (lu_timestamp u) (lu_counts u)"
  have st': "st' = integrated A (lu_timestamp u) (lu_version u) (il_entries st) (st\<lparr>il_undo_map := ?m\<rparr>)"
    using st' ListUndo by (auto simp: try_apply_def apply_concrete_def apply_undo_def split: if_splits)
  have "set ?m = set (il_undo_map st) \<union> op_undos op"
    using undo_insert_all_ok(2) ok op ListUndo
    by (simp add: op_undos_def list_ok_def op_ok_def idlist_op_identity_def)
  then show ?thesis
    using r st' ListUndo by (simp add: reflects_def op_items_def op_deletions_def image_image Un_commute)
qed

lemma join_covered:
  assumes "global_ok g" "observed_all g h"
  shows "get (join g h) a = get g a"
  using assms
proof (induction h arbitrary: g)
  case Nil
  then show ?case by (simp add: join_def)
next
  case (Cons p h)
  obtain b c where p: "p = (b, c)"
    by (cases p)
  let ?g = "observe g (Identity b c)"
  have "c \<le> get g b"
    using Cons.prems(2) p by (simp add: observed_all_def)
  then have g: "get ?g x = get g x" for x
    using Cons.prems(1) by (simp add: get_observe)
  then have "observed_all ?g h"
    using Cons.prems(2) p by (simp add: observed_all_def)
  then show ?case
    using Cons.IH [of ?g] Cons.prems(1) g p by (simp add: join_def)
qed

text \<open>What an applied operation adds to the version: its identity and nothing else.\<close>

lemma try_apply_version:
  assumes "list_ok st" "try_apply A op st = Inr st'"
  shows "get (il_version st') a = get (observe (il_version st) (idlist_op_identity op)) a"
    "observed_all (il_version st) (idlist_op_version op)"
proof -
  show c: "observed_all (il_version st) (idlist_op_version op)"
    using assms(2) by (auto simp: try_apply_def split: if_splits)
  have v: "il_version st' = join (observe (il_version st) (idlist_op_identity op)) (idlist_op_version op)"
    using assms(2)
    by (auto simp: try_apply_def apply_concrete_def apply_insert_def apply_remove_def apply_undo_def
        idlist_op_identity_def idlist_op_version_def split: if_splits option.splits idlist_operation.splits)
  have g: "global_ok (il_version st)"
    using assms(1) by (simp add: list_ok_def)
  then have "observed_all (observe (il_version st) (idlist_op_identity op)) (idlist_op_version op)"
    using observed_all_mono [OF c get_observe_ge] by simp
  then show "get (il_version st') a = get (observe (il_version st) (idlist_op_identity op)) a"
    using join_covered g v by simp
qed

section \<open>A log of operations\<close>

text \<open>
  The operations of all replicas: well formed, each with an identity of its own, and each covering
  the earlier ones of its own actor. A state tracks the log when it reflects exactly the
  operations its version covers, and its queue comes from the log.
\<close>

definition op_log :: "idlist_operation set \<Rightarrow> bool" where
  "op_log L \<longleftrightarrow>
     (\<forall>op \<in> L. op_ok op) \<and> inj_on idlist_op_identity L \<and>
     (\<forall>op \<in> L. \<forall>old \<in> L. actor (idlist_op_identity old) = actor (idlist_op_identity op) \<and>
        counter (idlist_op_identity old) < counter (idlist_op_identity op) \<longrightarrow>
        observed (idlist_op_version op) (idlist_op_identity old))"

definition covered_ops :: "global \<Rightarrow> idlist_operation set \<Rightarrow> idlist_operation set" where
  "covered_ops v L = {op \<in> L. observed v (idlist_op_identity op)}"

lemma covered_ops_cong: "(\<And>a. get v a = get w a) \<Longrightarrow> covered_ops v L = covered_ops w L"
  by (simp add: covered_ops_def observed_def)

lemma get_pair: "get g a = 0 \<or> (a, get g a) \<in> set g"
proof -
  obtain idx found where f: "find_index g a = (idx, found)"
    by (cases "find_index g a")
  then have "found \<Longrightarrow> idx < length g \<and> fst (g ! idx) = a"
    by (auto simp: find_index_def Let_def)
  moreover have "get g a = (if found then snd (g ! idx) else 0)"
    using f by (simp add: get_def)
  ultimately show ?thesis
    by (metis nth_mem prod.collapse)
qed

lemma observed_by_version:
  assumes "observed_all v w" "observed w i"
  shows "observed v i"
  using get_pair [of w "actor i"] assms by (auto simp: observed_all_def observed_def list_all_iff)

text \<open>Observing the identity of a log operation whose version is covered adds just it.\<close>

lemma covered_ops_observe:
  assumes L: "op_log L" "op \<in> L" and g: "global_ok v" and c: "observed_all v (idlist_op_version op)"
    and new: "\<not> observed v (idlist_op_identity op)"
    and w: "\<And>a. get w a = get (observe v (idlist_op_identity op)) a"
  shows "covered_ops w L = insert op (covered_ops v L)"
proof -
  let ?i = "idlist_op_identity op"
  have w': "get w a = (if a = actor ?i then max (get v a) (counter ?i) else get v a)" for a
    using w get_observe [OF g] by simp
  have new_op: "old = op" if "old \<in> L" "observed w (idlist_op_identity old)" "\<not> observed v (idlist_op_identity old)" for old
  proof -
    let ?j = "idlist_op_identity old"
    have j: "actor ?j = actor ?i" "counter ?j \<le> counter ?i"
      using that(2,3) w' by (auto simp: observed_def split: if_splits)
    have "\<not> counter ?j < counter ?i"
    proof
      assume "counter ?j < counter ?i"
      then have "observed (idlist_op_version op) ?j"
        using L that(1) j(1) unfolding op_log_def by blast
      then show False
        using observed_by_version [OF c] that(3) by blast
    qed
    then have "?j = ?i"
      using j by (simp add: identity.expand)
    moreover have "inj_on idlist_op_identity L"
      using L(1) by (simp add: op_log_def)
    ultimately show ?thesis
      using inj_onD [of idlist_op_identity L old op] that(1) L(2) by simp
  qed
  have "observed w ?i"
    using w' by (simp add: observed_def)
  moreover have keep: "observed v i \<Longrightarrow> observed w i" for i
    using w' [of "actor i"] by (simp add: observed_def split: if_splits)
  ultimately show ?thesis
    using L(2) new_op unfolding covered_ops_def by blast
qed

section \<open>Induction over a batch\<close>

text \<open>
  What every integration of an operation of \<open>L\<close> keeps, and what does not depend on the queues,
  holds after a batch of operations of \<open>L\<close>: the loops over the batch and the queue in one rule.
\<close>

definition same_core :: "'al id_list \<Rightarrow> 'al id_list \<Rightarrow> bool" where
  "same_core st st' \<longleftrightarrow>
     il_version st' = il_version st \<and> il_entries st' = il_entries st \<and>
     il_undo_map st' = il_undo_map st \<and> il_alloc st' = il_alloc st \<and>
     il_gaps st' = il_gaps st \<and> il_reclamation st' = il_reclamation st"

definition queued_in :: "idlist_operation set \<Rightarrow> 'al id_list \<Rightarrow> bool" where
  "queued_in L st \<longleftrightarrow> list_ok st \<and> oe_op ` set (il_deferred st) \<subseteq> L"

definition batch_inv ::
  "'al alloc_ops \<Rightarrow> idlist_operation set \<Rightarrow> ('al id_list \<Rightarrow> bool) \<Rightarrow> bool" where
  "batch_inv A L P \<longleftrightarrow>
     (\<forall>op \<in> L. op_ok op) \<and>
     (\<forall>st st'. same_core st st' \<longrightarrow> P st \<longrightarrow> P st') \<and>
     (\<forall>st st' op. P st \<longrightarrow> list_ok st \<longrightarrow> op \<in> L \<longrightarrow>
        \<not> observed (il_version st) (idlist_op_identity op) \<longrightarrow> try_apply A op st = Inr st' \<longrightarrow> P st')"

lemma batch_invI:
  assumes "\<And>op. op \<in> L \<Longrightarrow> op_ok op"
    and "\<And>st st'. same_core st st' \<Longrightarrow> P st \<Longrightarrow> P st'"
    and "\<And>st st' op. P st \<Longrightarrow> list_ok st \<Longrightarrow> op \<in> L \<Longrightarrow>
      \<not> observed (il_version st) (idlist_op_identity op) \<Longrightarrow> try_apply A op st = Inr st' \<Longrightarrow> P st'"
  shows "batch_inv A L P"
  unfolding batch_inv_def using assms by blast

lemma batch_invD:
  assumes "batch_inv A L P"
  shows "op \<in> L \<Longrightarrow> op_ok op" "same_core st st' \<Longrightarrow> P st \<Longrightarrow> P st'"
    "P st \<Longrightarrow> list_ok st \<Longrightarrow> op \<in> L \<Longrightarrow> \<not> observed (il_version st) (idlist_op_identity op) \<Longrightarrow>
       try_apply A op st = Inr st' \<Longrightarrow> P st'"
  using assms unfolding batch_inv_def by blast+

abbreviation batch_state :: "idlist_operation set \<Rightarrow> ('al id_list \<Rightarrow> bool) \<Rightarrow> 'al id_list \<Rightarrow> bool" where
  "batch_state L P st \<equiv> P st \<and> queued_in L st"

lemma try_apply_deferred:
  "try_apply A op st = Inr st' \<Longrightarrow> il_deferred st' = il_deferred st"
  by (auto simp: try_apply_def apply_concrete_def apply_insert_def apply_remove_def
      apply_undo_def split: if_splits option.splits idlist_operation.splits)

lemma try_apply_batch:
  assumes "batch_inv A L P" "op \<in> L" "batch_state L P st"
    and "\<not> observed (il_version st) (idlist_op_identity op)" "try_apply A op st = Inr st'"
  shows "batch_state L P st'"
proof -
  have "list_ok st" "P st"
    using assms(3) by (simp_all add: queued_in_def)
  then have "P st'" "list_ok st'"
    using batch_invD(3) [OF assms(1) _ _ assms(2,4,5)] batch_invD(1) [OF assms(1,2)]
      try_apply_ok [OF _ _ assms(4,5)] by blast+
  then show ?thesis
    using assms(3) try_apply_deferred [OF assms(5)] by (simp add: queued_in_def)
qed

lemma same_core_quarantine: "same_core st (quarantine op e st)"
  by (simp add: same_core_def)

lemma quarantine_batch:
  "batch_inv A L P \<Longrightarrow> batch_state L P st \<Longrightarrow> batch_state L P (quarantine op e st)"
  using batch_invD(2) [OF _ same_core_quarantine] quarantine_ok [of st op e] by (auto simp: queued_in_def)

lemma defer_batch:
  assumes "batch_inv A L P" "op \<in> L" "batch_state L P st" "defer_or_quarantine op i st = (st', out)"
  shows "batch_state L P st'"
proof -
  have "list_ok st'"
    using defer_ok [OF _ _ assms(4)] batch_invD(1) [OF assms(1,2)] assms(3) by (simp add: queued_in_def)
  moreover have "same_core st st' \<and> oe_op ` set (il_deferred st') \<subseteq> L"
    using assms by (fastforce simp: defer_or_quarantine_def Let_def same_core_def queued_in_def split: if_splits)
  ultimately show ?thesis
    using assms(3) batch_invD(2) [OF assms(1)] unfolding queued_in_def by blast
qed

text \<open>The ways one operation can end.\<close>

lemma apply_one_cases:
  assumes "apply_one A op st = (st', out)"
  obtains (same) "st' = st"
  | (queued) i where "defer_or_quarantine op i st = (st', out)"
  | (applied) "\<not> observed (il_version st) (idlist_op_identity op)" "try_apply A op st = Inr st'" "out = Applied"
proof (cases "validate_idlist_operation_identity op = Valid \<and> \<not> gap_conflicts (il_gaps st) op \<and>
    \<not> observed (il_version st) (idlist_op_identity op)")
  case True
  then have a: "apply_one A op st =
      (case validate_idlist_operation op (il_version st) of
         Reject e \<Rightarrow> (st, Rejected e)
       | Defer awaiting \<Rightarrow> defer_or_quarantine op awaiting st
       | Valid \<Rightarrow>
           (case try_apply A op st of
              Inr st' \<Rightarrow> (st', Applied)
            | Inl (Some e) \<Rightarrow> (st, Rejected e)
            | Inl None \<Rightarrow> defer_or_quarantine op (idlist_op_identity op) st))"
    by (simp add: apply_one_def Let_def)
  show thesis
  proof (cases "validate_idlist_operation op (il_version st)")
    case Valid
    show thesis
    proof (cases "try_apply A op st")
      case (Inl err)
      then show thesis
        using assms a Valid that(1,2) by (cases err) simp_all
    next
      case (Inr st1)
      then show thesis
        using assms a Valid True that(3) by simp
    qed
  next
    case (Defer i)
    then show thesis
      using assms a that(2) by simp
  next
    case (Reject e)
    then show thesis
      using assms a that(1) by simp
  qed
next
  case False
  then have "st' = st"
    using assms by (cases "validate_idlist_operation_identity op") (simp_all add: apply_one_def Let_def split: if_splits)
  then show thesis
    using that(1) by blast
qed

lemma apply_one_batch:
  assumes "batch_inv A L P" "op \<in> L" "batch_state L P st" "apply_one A op st = (st', out)"
  shows "batch_state L P st'"
  using assms(4)
proof (cases rule: apply_one_cases)
  case same
  then show ?thesis
    using assms(3) by simp
next
  case (queued i)
  then show ?thesis
    using defer_batch [OF assms(1-3)] by blast
next
  case applied
  then show ?thesis
    using try_apply_batch [OF assms(1-3)] by blast
qed

lemma retry_pass_batch:
  assumes I: "batch_inv A L P"
  shows "batch_state L P st \<Longrightarrow> oe_op ` set es \<subseteq> L \<Longrightarrow> retry_pass A es st = (st', rest, p) \<Longrightarrow>
    batch_state L P st' \<and> set rest \<subseteq> set es"
proof (induction es arbitrary: st st' rest p)
  case Nil
  then show ?case by simp
next
  case (Cons e es)
  have es: "oe_op ` set es \<subseteq> L" "oe_op e \<in> L"
    using Cons.prems(2) by auto
  have step: "batch_state L P st' \<and> set rest \<subseteq> set (e # es)"
    if "batch_state L P st1" "retry_pass A es st1 = (st', rest', q)" "rest = rest' \<or> rest = e # rest'" for st1 rest' q
    using Cons.IH [OF that(1) es(1) that(2)] that(3) by auto
  show ?case
  proof (cases "observed (il_version st) (idlist_op_identity (oe_op e))")
    case True
    then show ?thesis
      using step [OF Cons.prems(1)] Cons.prems(3) by (simp split: prod.splits)
  next
    case new: False
    show ?thesis
    proof (cases "try_apply A (oe_op e) st")
      case (Inr st1)
      then show ?thesis
        using step [OF try_apply_batch [OF I es(2) Cons.prems(1) new Inr]] Cons.prems(3) new
        by (simp split: prod.splits)
    next
      case (Inl err)
      then show ?thesis
        using step [OF Cons.prems(1)] step [OF quarantine_batch [OF I Cons.prems(1)]] Cons.prems(3) new
        by (cases err) (simp_all split: prod.splits)
    qed
  qed
qed

lemma requeue_batch:
  assumes "batch_inv A L P" "batch_state L P st" "set es \<subseteq> set qs" "oe_op ` set qs \<subseteq> L"
    and "\<forall>e \<in> set qs. oe_timestamp e = idlist_op_identity (oe_op e) \<and> op_ok (oe_op e)"
  shows "batch_state L P (requeue es st)"
proof -
  have "same_core st (requeue es st)"
    by (simp add: same_core_def)
  then have "P (requeue es st)"
    using batch_invD(2) [OF assms(1)] assms(2) by blast
  moreover have "list_ok (requeue es st)"
    using requeue_ok [of st es] assms(2,3,5) by (auto simp: queued_in_def)
  moreover have "oe_op ` set es \<subseteq> L"
    using image_mono [OF assms(3)] assms(4) by (rule subset_trans)
  ultimately show ?thesis
    by (simp add: queued_in_def)
qed

lemma retry_deferred_batch:
  assumes I: "batch_inv A L P" and t: "batch_state L P st"
  shows "batch_state L P (retry_deferred A st)"
proof (rule retry_deferred_induct [where P = "batch_state L P", OF t])
  fix st st1 :: "'a id_list" and rest p
  assume t: "batch_state L P st" and r: "retry_pass A (il_deferred st) st = (st1, rest, p)"
  have q: "oe_op ` set (il_deferred st) \<subseteq> L"
    "\<forall>e \<in> set (il_deferred st). oe_timestamp e = idlist_op_identity (oe_op e) \<and> op_ok (oe_op e)"
    using t by (auto simp: queued_in_def list_ok_def queue_ok_def list_all_iff)
  have "batch_state L P st1" "set rest \<subseteq> set (il_deferred st)"
    using retry_pass_batch [OF I t q(1) r] by simp_all
  then show "batch_state L P (requeue rest st1)"
    using q requeue_batch [OF I] by blast
qed

lemma apply_each_batch:
  "batch_inv A L P \<Longrightarrow> set ops \<subseteq> L \<Longrightarrow> batch_state L P st \<Longrightarrow> apply_each A ops st = (st', outs) \<Longrightarrow>
     batch_state L P st'"
proof (induction ops arbitrary: st st' outs)
  case Nil
  then show ?case by simp
next
  case (Cons op ops)
  obtain st1 out where a: "apply_one A op st = (st1, out)"
    by (cases "apply_one A op st")
  obtain st2 outs2 where b: "apply_each A ops st1 = (st2, outs2)"
    by (cases "apply_each A ops st1")
  have "batch_state L P st1"
    using apply_one_batch [OF Cons.prems(1) _ Cons.prems(3) a] Cons.prems(2) by simp
  then show ?case
    using Cons.IH [OF Cons.prems(1) _ _ b] Cons.prems(2,4) a b by simp
qed

theorem apply_ops_batch:
  assumes "batch_inv A L P" "set ops \<subseteq> L" "batch_state L P st" "apply_ops A ops st = (st', outs)"
  shows "batch_state L P st'"
proof -
  obtain st1 where "apply_each A ops st = (st1, outs)" "st' = retry_deferred A st1"
    using assms(4) by (auto simp: apply_ops_def split: prod.splits)
  then show ?thesis
    using apply_each_batch [OF assms(1-3)] retry_deferred_batch [OF assms(1)] by blast
qed

section \<open>Tracking the log\<close>

text \<open>Each counter of the version is the identity of an operation of the log.\<close>

definition justified :: "idlist_operation set \<Rightarrow> global \<Rightarrow> bool" where
  "justified L v \<longleftrightarrow>
     (\<forall>a. get v a = 0 \<or> (\<exists>op \<in> L. idlist_op_identity op = Identity a (get v a)))"

definition shows_log :: "idlist_operation set \<Rightarrow> 'al id_list \<Rightarrow> bool" where
  "shows_log L st \<longleftrightarrow> reflects (covered_ops (il_version st) L) st \<and> justified L (il_version st)"

definition tracks :: "idlist_operation set \<Rightarrow> 'al id_list \<Rightarrow> bool" where
  "tracks L st \<longleftrightarrow> shows_log L st \<and> queued_in L st"

lemma tracks_new: "op_log L \<Longrightarrow> tracks L (new_id_list al)"
proof -
  assume "op_log L"
  then have "covered_ops [] L = {}"
    by (auto simp: covered_ops_def observed_def op_log_def op_ok_def)
  then show ?thesis
    using reflects_new [of al] list_ok_new [of al]
    by (simp add: tracks_def shows_log_def queued_in_def justified_def new_id_list_def)
qed

lemma shows_log_batch:
  assumes L: "op_log L"
  shows "batch_inv A L (shows_log L)"
proof (rule batch_invI)
  show "op \<in> L \<Longrightarrow> op_ok op" for op
    using L by (simp add: op_log_def)
  show "same_core st st' \<Longrightarrow> shows_log L st \<Longrightarrow> shows_log L st'" for st st' :: "'a id_list"
    using reflects_cong [of st' st] by (simp add: same_core_def shows_log_def)
next
  fix st st' :: "'a id_list" and op
  assume t: "shows_log L st" and ok: "list_ok st" and op: "op \<in> L"
    and new: "\<not> observed (il_version st) (idlist_op_identity op)" and st': "try_apply A op st = Inr st'"
  have g: "global_ok (il_version st)" and wf: "op_ok op"
    using ok L op by (simp_all add: list_ok_def op_log_def)
  note v = try_apply_version [OF ok st']
  have "covered_ops (il_version st') L = insert op (covered_ops (il_version st) L)"
    using covered_ops_observe [OF L op g v(2) new v(1)] .
  moreover have "reflects (insert op (covered_ops (il_version st) L)) st'"
    using try_apply_reflects [OF ok wf new _ st'] t by (simp add: shows_log_def)
  moreover have "justified L (il_version st')"
    unfolding justified_def
  proof
    fix a
    show "get (il_version st') a = 0 \<or> (\<exists>op \<in> L. idlist_op_identity op = Identity a (get (il_version st') a))"
    proof (cases "a = actor (idlist_op_identity op)")
      case True
      then have "Identity a (get (il_version st') a) = idlist_op_identity op"
        using v(1) [of a] get_observe [OF g] new by (simp add: observed_def max_def)
      then show ?thesis
        using op by metis
    next
      case False
      then show ?thesis
        using t v(1) [of a] get_observe [OF g] by (auto simp: shows_log_def justified_def)
    qed
  qed
  ultimately show "shows_log L st'"
    by (simp add: shows_log_def)
qed

theorem apply_ops_tracks:
  assumes "op_log L" "set ops \<subseteq> L" "tracks L st" "apply_ops A ops st = (st', outs)"
  shows "tracks L st'"
  using apply_ops_batch [OF shows_log_batch [OF assms(1)] assms(2) _ assms(4)] assms(3)
  by (simp add: tracks_def)

text \<open>Two replicas of one log with equal versions show the same list.\<close>

theorem tracks_converge:
  assumes "tracks L x" "tracks L y" "\<And>a. get (il_version x) a = get (il_version y) a"
  shows "list_all2 same_entry (il_entries x) (il_entries y)" "list_ids x = list_ids y"
proof -
  have "covered_ops (il_version x) L = covered_ops (il_version y) L"
    using assms(3) by (rule covered_ops_cong)
  then show "list_all2 same_entry (il_entries x) (il_entries y)" "list_ids x = list_ids y"
    using assms(1,2) reflects_same reflects_list_ids unfolding tracks_def shows_log_def queued_in_def by metis+
qed

end
