(* ===== verification/List_Network.thy ===== *)
theory List_Network
  imports List_Convergence
begin

text \<open>
  Replicas of the list engine that exchange operations: every replica runs local commands and is
  handed batches of operations that some replica made, in any order, any number of times. The
  invariant ties every replica to the common log, so replicas with equal versions agree, and a
  batch that closes the gaps of a replica is integrated completely.
\<close>

section \<open>Local commands\<close>

datatype local_command =
  InsertAfter anchor nat | RemoveAt anchor | UndoLast | RedoLast | UndoGroup identity | RedoGroup identity

definition as_option :: "'al id_list \<times> 'b result \<Rightarrow> 'al id_list \<times> 'b option" where
  "as_option r = (fst r, case snd r of Inl _ \<Rightarrow> None | Inr x \<Rightarrow> Some x)"

definition as_flat_option :: "'al id_list \<times> 'b option result \<Rightarrow> 'al id_list \<times> 'b option" where
  "as_flat_option r = (fst r, case snd r of Inl _ \<Rightarrow> None | Inr x \<Rightarrow> x)"

text \<open>The new state and the operation to send, if the command made one.\<close>

definition run_command ::
  "'al alloc_ops \<Rightarrow> local_command \<Rightarrow> 'al id_list \<Rightarrow> 'al id_list \<times> idlist_operation option" where
  "run_command A cmd st =
     (case cmd of
        InsertAfter after eid \<Rightarrow> as_option (try_insert_after A after eid st)
      | RemoveAt target \<Rightarrow> as_option (try_remove_at A target st)
      | UndoLast \<Rightarrow> as_flat_option (try_undo A st)
      | RedoLast \<Rightarrow> as_flat_option (try_redo A st)
      | UndoGroup g \<Rightarrow> as_flat_option (try_undo_group A g st)
      | RedoGroup g \<Rightarrow> as_flat_option (try_redo_group A g st))"

lemma push_history_only: "history_only st (push_undo_group g st)"
proof -
  define st1 where "st1 = fold retire_undo_entry (drop (il_cursor st) (il_undo_stack st)) st"
  define stack where "stack = take (il_cursor st) (il_undo_stack st1) @ [g]"
  have "push_undo_group g st = trim_undo_stack (st1\<lparr>il_undo_stack := stack, il_cursor := length stack\<rparr>)"
    by (simp add: push_undo_group_def Let_def st1_def stack_def)
  moreover have "history_only st st1"
    unfolding st1_def by (rule fold_retire(4))
  ultimately show ?thesis
    using history_only_trans(1) [OF history_only_trans(1) [OF _ history_only_update(1)] trim_props(1)] by simp
qed

text \<open>A command takes at most one identity and leaves the deferral queue alone.\<close>

definition took_identity :: "'al alloc_ops \<Rightarrow> 'al id_list \<Rightarrow> 'al id_list \<Rightarrow> identity \<Rightarrow> bool" where
  "took_identity A st st' i \<longleftrightarrow>
     (\<exists>c. reserve_run A (il_alloc st) 1 = (il_alloc st', Ok c) \<and> i = Identity (alloc_actor A (il_alloc st')) c)"

definition kept_alloc :: "'al alloc_ops \<Rightarrow> 'al id_list \<Rightarrow> 'al id_list \<Rightarrow> bool" where
  "kept_alloc A st st' \<longleftrightarrow>
     il_alloc st' = il_alloc st \<or> (\<exists>e. reserve_run A (il_alloc st) 1 = (il_alloc st', Err e))"

lemma push_alloc [simp]:
  "il_alloc (push_undo_group g st) = il_alloc st" "il_deferred (push_undo_group g st) = il_deferred st"
  using push_history_only [of st g] by (simp_all add: history_only_def)

lemma flip_alloc:
  "flip_group g t st = (st', op) \<Longrightarrow>
     il_alloc st' = il_alloc st \<and> il_deferred st' = il_deferred st \<and> idlist_op_identity op = t"
  by (auto simp: flip_group_def Let_def idlist_op_identity_def split: prod.splits)

lemma insert_alloc:
  assumes "try_insert_after A after eid st = (st', r)"
  shows "il_deferred st' = il_deferred st"
    "r = Err e \<Longrightarrow> kept_alloc A st st'"
    "r = Ok op \<Longrightarrow> took_identity A st st' (idlist_op_identity op) \<and> (\<exists>i. op = ListInsert i \<and> link_wf (li_link i))"
  using assms mint_link_wf
  by (auto simp: try_insert_after_def insert_after_resolved_def Let_def kept_alloc_def took_identity_def
      idlist_op_identity_def split: if_splits sum.splits prod.splits)

lemma remove_alloc:
  assumes "try_remove_at A target st = (st', r)"
  shows "il_deferred st' = il_deferred st"
    "r = Err e \<Longrightarrow> kept_alloc A st st'"
    "r = Ok op \<Longrightarrow> took_identity A st st' (idlist_op_identity op)"
  using assms
  by (auto simp: try_remove_at_def remove_at_resolved_def Let_def kept_alloc_def took_identity_def
      idlist_op_identity_def split: option.splits sum.splits prod.splits)

lemma undo_group_alloc:
  assumes "try_undo_group A g st = (st', r)"
  shows "il_deferred st' = il_deferred st"
    "r = Err e \<or> r = Ok None \<Longrightarrow> kept_alloc A st st'"
    "r = Ok (Some op) \<Longrightarrow> took_identity A st st' (idlist_op_identity op)"
  using assms flip_alloc
  by (auto simp: try_undo_group_def Let_def kept_alloc_def took_identity_def
      split: option.splits sum.splits prod.splits) (fastforce dest: flip_alloc)+

lemma redo_group_alloc:
  assumes "try_redo_group A g st = (st', r)"
  shows "il_deferred st' = il_deferred st"
    "r = Err e \<or> r = Ok None \<Longrightarrow> kept_alloc A st st'"
    "r = Ok (Some op) \<Longrightarrow> took_identity A st st' (idlist_op_identity op)"
  using assms flip_alloc
  by (auto simp: try_redo_group_def Let_def kept_alloc_def took_identity_def
      split: option.splits sum.splits prod.splits) (fastforce dest: flip_alloc)+

text \<open>The operation a command makes, and how the new state relates to it.\<close>

definition minted ::
  "('al \<Rightarrow> bool) \<Rightarrow> ('al \<Rightarrow> nat) \<Rightarrow> 'al alloc_ops \<Rightarrow> 'al id_list \<Rightarrow> idlist_operation \<Rightarrow> 'al id_list \<Rightarrow> bool" where
  "minted ready issued A st op st' \<longleftrightarrow>
     list_ok st' \<and> alloc_ahead ready issued A st' \<and> op_ok op \<and>
     took_identity A st st' (idlist_op_identity op) \<and>
     idlist_op_version op = il_version st \<and> \<not> observed (il_version st) (idlist_op_identity op) \<and>
     il_version st' = observe (il_version st) (idlist_op_identity op) \<and>
     il_deferred st' = il_deferred st \<and> (\<forall>S. reflects S st \<longrightarrow> reflects (insert op S) st')"

lemma unobserved_counter: "\<not> observed v i \<Longrightarrow> counter i \<noteq> 0"
  by (auto simp: observed_def)

lemma entry_item_Un: "entry_item ` (A \<union> B) = entry_item ` A \<union> entry_item ` B"
  by (rule image_Un)

context identity_allocator
begin

lemma group_step_minted:
  assumes st: "group_step usable issued A g t op st st'" and g: "group_ok g"
    and took: "took_identity A st st' (idlist_op_identity op)" "il_deferred st' = il_deferred st"
    and ok: "list_ok st"
  shows "minted usable issued A st op st'"
proof -
  obtain counts where op: "op = ListUndo \<lparr>lu_timestamp = t, lu_version = il_version st, lu_counts = counts\<rparr>"
    and c: "map fst counts = members g" and m: "il_undo_map st' = undo_insert_all (il_undo_map st) t counts"
    using st by (auto simp: group_step_def)
  have t: "counter t \<noteq> 0"
    using st unobserved_counter by (auto simp: group_step_def)
  have "\<forall>i \<in> set (map fst counts). counter i \<noteq> 0"
    using c g by (auto simp: group_ok_def list_all_iff)
  then have counts: "\<forall>(i, c) \<in> set counts. counter i \<noteq> 0"
    by auto
  have "set (il_undo_map st') = set (il_undo_map st) \<union> op_undos op"
    using undo_insert_all_ok(2) [OF _ t counts, of "il_undo_map st"] ok m op
    by (simp add: op_undos_def list_ok_def)
  moreover have "il_entries st' = map (refresh_visible (il_undo_map st')) (il_entries st)"
    using st by (simp add: group_step_def)
  ultimately have "reflects (insert op S) st'" if "reflects S st" for S
    using that op by (simp add: reflects_def op_items_def op_deletions_def image_image Un_commute)
  moreover have "op_ok op"
    using t counts op by (simp add: op_ok_def idlist_op_identity_def)
  ultimately show ?thesis
    using st took op by (simp add: minted_def group_step_def idlist_op_identity_def idlist_op_version_def)
qed

lemma group_of_stack:
  assumes "list_ok st" "g \<in> set (il_undo_stack st)"
  shows "group_ok g"
  using assms by (auto simp: list_ok_def history_ok_def list_all_iff)

lemma undo_group_minted:
  assumes "list_ok st" "alloc_ahead usable issued A st" "try_undo_group A gid st = (st', Ok (Some op))"
  shows "minted usable issued A st op st'"
proof -
  obtain g t where g: "group_step usable issued A g t op st st'" "g \<in> set (take (il_cursor st) (il_undo_stack st))"
    using undo_group_correct [OF assms] by blast
  have "group_ok g"
    using group_of_stack [OF assms(1)] g(2) in_set_takeD by metis
  then show ?thesis
    using group_step_minted [OF g(1)] undo_group_alloc [OF assms(3)] assms(1) by simp
qed

lemma redo_group_minted:
  assumes "list_ok st" "alloc_ahead usable issued A st" "try_redo_group A gid st = (st', Ok (Some op))"
  shows "minted usable issued A st op st'"
proof -
  obtain g t where g: "group_step usable issued A g t op st st'" "g \<in> set (drop (il_cursor st) (il_undo_stack st))"
    using redo_group_correct [OF assms] by blast
  have "group_ok g"
    using group_of_stack [OF assms(1)] g(2) in_set_dropD by metis
  then show ?thesis
    using group_step_minted [OF g(1)] redo_group_alloc [OF assms(3)] assms(1) by simp
qed

lemma insert_minted:
  assumes "list_ok st" "alloc_ahead usable issued A st" "try_insert_after A after eid st = (st', Ok op)"
  shows "minted usable issued A st op st'"
proof -
  note a = insert_alloc [OF assms(3)]
  obtain us vs i l where c: "list_ok st'" "alloc_ahead usable issued A st'" "il_entries st = us @ vs"
    "il_entries st' = us @ refresh_visible (il_undo_map st) (new_entry i l eid) # vs"
    "op = ListInsert \<lparr>li_timestamp = i, li_version = il_version st, li_id = eid, li_link = l\<rparr>"
    "\<not> observed (il_version st) i" "il_version st' = observe (il_version st) i" "il_undo_map st' = il_undo_map st"
    using insert_after_correct [OF assms] by blast
  have "reflects (insert op S) st'" if "reflects S st" for S
    using that c(3-5,8) by (simp add: reflects_def op_items_def op_deletions_def op_undos_def)
  moreover have "op_ok op"
    using a(3) c(5) unobserved_counter [OF c(6)] by (auto simp: op_ok_def idlist_op_identity_def)
  ultimately show ?thesis
    using a(1,3) c by (simp add: minted_def idlist_op_identity_def idlist_op_version_def)
qed

lemma remove_minted:
  assumes "list_ok st" "alloc_ahead usable issued A st" "try_remove_at A target st = (st', Ok op)"
  shows "minted usable issued A st op st'"
proof -
  note a = remove_alloc [OF assms(3)]
  obtain us e vs d where c: "list_ok st'" "alloc_ahead usable issued A st'" "il_entries st = us @ e # vs"
    "le_origin e = position target"
    "il_entries st' = us @ refresh_visible (il_undo_map st) (e\<lparr>le_deletions := le_deletions e @ [d]\<rparr>) # vs"
    "op = ListRemove \<lparr>lr_timestamp = d, lr_version = il_version st, lr_target_origin = position target\<rparr>"
    "\<not> observed (il_version st) d" "il_version st' = observe (il_version st) d" "il_undo_map st' = il_undo_map st"
    using remove_at_correct [OF assms] by blast
  have "reflects (insert op S) st'" if "reflects S st" for S
    using that c(3-6,9) by (simp add: reflects_def op_items_def op_deletions_def op_undos_def)
  moreover have "op_ok op"
    using c(6) unobserved_counter [OF c(7)] by (simp add: op_ok_def idlist_op_identity_def)
  ultimately show ?thesis
    using a(1,3) c by (simp add: minted_def idlist_op_identity_def idlist_op_version_def)
qed

lemma undo_as_group:
  "try_undo A st = (st', Ok (Some op)) \<Longrightarrow> \<exists>g. try_undo_group A g st = (st', Ok (Some op))"
  "try_redo A st = (st', Ok (Some op)) \<Longrightarrow> \<exists>g. try_redo_group A g st = (st', Ok (Some op))"
  by (auto simp: try_undo_def try_redo_def split: if_splits)

theorem run_command_minted:
  assumes ok: "list_ok st" "alloc_ahead usable issued A st" and r: "run_command A cmd st = (st', Some op)"
  shows "minted usable issued A st op st'"
proof -
  note cases = insert_minted [OF ok] remove_minted [OF ok] undo_group_minted [OF ok] redo_group_minted [OF ok]
  have flat: "p = (st', Ok (Some op))" if "as_flat_option p = (st', Some op)"
    for p :: "'al id_list \<times> idlist_operation option result"
    using that by (cases p) (auto simp: as_flat_option_def split: sum.splits)
  have opt: "p = (st', Ok op)" if "as_option p = (st', Some op)"
    for p :: "'al id_list \<times> idlist_operation result"
    using that by (cases p) (auto simp: as_option_def split: sum.splits)
  show ?thesis
  proof (cases cmd)
    case (InsertAfter x y)
    then show ?thesis
      using r by (intro cases(1) opt) (simp add: run_command_def)
  next
    case (RemoveAt x)
    then show ?thesis
      using r by (intro cases(2) opt) (simp add: run_command_def)
  next
    case UndoLast
    then have "try_undo A st = (st', Ok (Some op))"
      using r by (intro flat) (simp add: run_command_def)
    then show ?thesis
      using undo_as_group(1) cases(3) by blast
  next
    case RedoLast
    then have "try_redo A st = (st', Ok (Some op))"
      using r by (intro flat) (simp add: run_command_def)
    then show ?thesis
      using undo_as_group(2) cases(4) by blast
  next
    case (UndoGroup x)
    then show ?thesis
      using r by (intro cases(3) flat) (simp add: run_command_def)
  next
    case (RedoGroup x)
    then show ?thesis
      using r by (intro cases(4) flat) (simp add: run_command_def)
  qed
qed

end

text \<open>A command that makes no operation changes nothing but the allocator.\<close>

lemma as_option_None: "as_option p = (st', None) \<Longrightarrow> \<exists>e. p = (st', Err e)"
  by (cases p) (auto simp: as_option_def split: sum.splits)

lemma as_flat_option_None: "as_flat_option p = (st', None) \<Longrightarrow> (\<exists>e. p = (st', Err e)) \<or> p = (st', Ok None)"
  by (cases p) (auto simp: as_flat_option_def split: sum.splits)

definition idle :: "'al alloc_ops \<Rightarrow> 'al id_list \<Rightarrow> 'al id_list \<Rightarrow> bool" where
  "idle A st st' \<longleftrightarrow> alloc_only st st' \<and> kept_alloc A st st'"

lemma idle_refl [simp]: "idle A st st"
  by (simp add: idle_def alloc_only_def kept_alloc_def)

lemma group_idle:
  "try_undo_group A g st = (st', r) \<Longrightarrow> \<forall>op. r \<noteq> Ok (Some op) \<Longrightarrow> idle A st st'"
  "try_redo_group A g st = (st', r) \<Longrightarrow> \<forall>op. r \<noteq> Ok (Some op) \<Longrightarrow> idle A st st'"
proof -
  assume u: "try_undo_group A g st = (st', r)" and r: "\<forall>op. r \<noteq> Ok (Some op)"
  then have "r \<noteq> Ok None"
    by (auto simp: try_undo_group_def Let_def split: option.splits sum.splits prod.splits)
  then obtain e where "r = Err e"
    using r by (cases r) auto
  then show "idle A st st'"
    using undo_group_refused [of A g st st' e] undo_group_alloc(2) [OF u] u by (simp add: idle_def)
next
  assume u: "try_redo_group A g st = (st', r)" and r: "\<forall>op. r \<noteq> Ok (Some op)"
  then have "r \<noteq> Ok None"
    by (auto simp: try_redo_group_def Let_def split: option.splits sum.splits prod.splits)
  then obtain e where "r = Err e"
    using r by (cases r) auto
  then show "idle A st st'"
    using redo_group_refused [of A g st st' e] redo_group_alloc(2) [OF u] u by (simp add: idle_def)
qed

theorem run_command_idle:
  assumes r: "run_command A cmd st = (st', None)"
  shows "idle A st st'"
proof (cases cmd)
  case (InsertAfter x y)
  then obtain e where "try_insert_after A x y st = (st', Err e)"
    using r as_option_None by (fastforce simp: run_command_def)
  then show ?thesis
    using insert_refused insert_alloc(2) by (metis idle_def)
next
  case (RemoveAt x)
  then obtain e where "try_remove_at A x st = (st', Err e)"
    using r as_option_None by (fastforce simp: run_command_def)
  then show ?thesis
    using remove_refused remove_alloc(2) by (metis idle_def)
next
  case UndoLast
  then have "(\<exists>e. try_undo A st = (st', Err e)) \<or> try_undo A st = (st', Ok None)"
    using r as_flat_option_None [of "try_undo A st"] by (simp add: run_command_def)
  then show ?thesis
    using group_idle(1) by (fastforce simp: try_undo_def split: if_splits)
next
  case RedoLast
  then have "(\<exists>e. try_redo A st = (st', Err e)) \<or> try_redo A st = (st', Ok None)"
    using r as_flat_option_None [of "try_redo A st"] by (simp add: run_command_def)
  then show ?thesis
    using group_idle(2) by (fastforce simp: try_redo_def split: if_splits)
next
  case (UndoGroup x)
  then have "(\<exists>e. try_undo_group A x st = (st', Err e)) \<or> try_undo_group A x st = (st', Ok None)"
    using r as_flat_option_None [of "try_undo_group A x st"] by (simp add: run_command_def)
  then show ?thesis
    using group_idle(1) by fastforce
next
  case (RedoGroup x)
  then have "(\<exists>e. try_redo_group A x st = (st', Err e)) \<or> try_redo_group A x st = (st', Ok None)"
    using r as_flat_option_None [of "try_redo_group A x st"] by (simp add: run_command_def)
  then show ?thesis
    using group_idle(2) by fastforce
qed

section \<open>The network\<close>

type_synonym 'al network = "idlist_operation set \<times> 'al id_list list"

inductive net_step :: "'al alloc_ops \<Rightarrow> 'al network \<Rightarrow> 'al network \<Rightarrow> bool" for A where
  command: "k < length rs \<Longrightarrow> run_command A cmd (rs ! k) = (st', made) \<Longrightarrow>
     net_step A (L, rs) (set_option made \<union> L, rs[k := st'])"
| deliver: "k < length rs \<Longrightarrow> set ops \<subseteq> L \<Longrightarrow> apply_ops A ops (rs ! k) = (st', outs) \<Longrightarrow>
     net_step A (L, rs) (L, rs[k := st'])"

abbreviation replica_actor :: "'al alloc_ops \<Rightarrow> 'al id_list \<Rightarrow> actor_id" where
  "replica_actor A st \<equiv> alloc_actor A (il_alloc st)"

definition own_seen :: "'al alloc_ops \<Rightarrow> idlist_operation set \<Rightarrow> 'al id_list \<Rightarrow> bool" where
  "own_seen A L st \<longleftrightarrow>
     (\<forall>op \<in> L. actor (idlist_op_identity op) = replica_actor A st \<longrightarrow>
        observed (il_version st) (idlist_op_identity op))"

definition replica_ok ::
  "('al \<Rightarrow> bool) \<Rightarrow> ('al \<Rightarrow> nat) \<Rightarrow> 'al alloc_ops \<Rightarrow> idlist_operation set \<Rightarrow> 'al id_list \<Rightarrow> bool" where
  "replica_ok ready issued A L st \<longleftrightarrow>
     tracks L st \<and> alloc_ahead ready issued A st \<and> own_seen A L st"

definition network_ok ::
  "('al \<Rightarrow> bool) \<Rightarrow> ('al \<Rightarrow> nat) \<Rightarrow> 'al alloc_ops \<Rightarrow> 'al network \<Rightarrow> bool" where
  "network_ok ready issued A net \<longleftrightarrow>
     (case net of (L, rs) \<Rightarrow>
        op_log L \<and> (\<forall>op \<in> L. counter (idlist_op_identity op) \<le> U64_MAX) \<and>
        distinct (map (replica_actor A) rs) \<and> list_all (replica_ok ready issued A L) rs)"

lemma map_update_same: "f y = f (xs ! k) \<Longrightarrow> map f (xs[k := y]) = map f xs"
  by (metis list_update_id map_update)

text \<open>A new identity extends the log; the replicas that have not seen it still track it.\<close>

lemma op_log_insert:
  assumes L: "op_log L" and op: "op_ok op" and v: "idlist_op_version op = v"
    and new: "\<not> observed v (idlist_op_identity op)"
    and own: "\<And>old. old \<in> L \<Longrightarrow> actor (idlist_op_identity old) = actor (idlist_op_identity op) \<Longrightarrow>
      observed v (idlist_op_identity old)"
  shows "op_log (insert op L)"
proof -
  have less: "counter (idlist_op_identity old) < counter (idlist_op_identity op)"
    if "old \<in> L" "actor (idlist_op_identity old) = actor (idlist_op_identity op)" for old
    using own [OF that] new that(2) by (simp add: observed_def)
  have "inj_on idlist_op_identity (insert op L)"
    using L less by (force simp: op_log_def)
  moreover have "observed (idlist_op_version x) (idlist_op_identity y)"
    if "x \<in> insert op L" "y \<in> insert op L" "actor (idlist_op_identity y) = actor (idlist_op_identity x)"
      "counter (idlist_op_identity y) < counter (idlist_op_identity x)" for x y
  proof (cases "x = op")
    case True
    then show ?thesis
      using that own v by auto
  next
    case False
    then have x: "x \<in> L"
      using that(1) by simp
    show ?thesis
    proof (cases "y = op")
      case True
      then show ?thesis
        using less [OF x] that(3,4) by simp
    next
      case False
      then show ?thesis
        using L x that unfolding op_log_def by blast
    qed
  qed
  ultimately show ?thesis
    using L op unfolding op_log_def by blast
qed

lemma justified_mono: "justified L v \<Longrightarrow> L \<subseteq> L' \<Longrightarrow> justified L' v"
  unfolding justified_def by blast

lemma queued_in_mono: "queued_in L st \<Longrightarrow> L \<subseteq> L' \<Longrightarrow> queued_in L' st"
  by (auto simp: queued_in_def)

lemma tracks_insert:
  assumes "tracks L st" "\<not> observed (il_version st) (idlist_op_identity op)"
  shows "tracks (insert op L) st"
proof -
  have "covered_ops (il_version st) (insert op L) = covered_ops (il_version st) L"
    using assms(2) by (auto simp: covered_ops_def)
  then show ?thesis
    using assms(1) justified_mono [of L "il_version st" "insert op L"] queued_in_mono [of L st "insert op L"]
    by (auto simp: tracks_def shows_log_def)
qed

lemma tracks_minted:
  assumes t: "tracks L st" and own: "own_seen A L st" and m: "minted ready issued A st op st'"
    and act: "actor (idlist_op_identity op) = replica_actor A st"
  shows "tracks (insert op L) st'"
proof -
  let ?i = "idlist_op_identity op" and ?v = "il_version st"
  have g: "global_ok ?v"
    using t by (simp add: tracks_def queued_in_def list_ok_def)
  have v': "il_version st' = observe ?v ?i" and new: "\<not> observed ?v ?i"
    using m by (simp_all add: minted_def)
  have get': "get (il_version st') a = (if a = actor ?i then counter ?i else get ?v a)" for a
    using get_observe [OF g] new v' by (simp add: observed_def)
  have "observed (il_version st') (idlist_op_identity old) \<longleftrightarrow> observed ?v (idlist_op_identity old)"
    if "old \<in> L" for old
    using own that act get' new by (auto simp: own_seen_def observed_def)
  moreover have "observed (il_version st') ?i"
    using get' by (simp add: observed_def)
  ultimately have "covered_ops (il_version st') (insert op L) = insert op (covered_ops ?v L)"
    by (auto simp: covered_ops_def)
  moreover have "reflects (insert op (covered_ops ?v L)) st'"
    using t m by (simp add: tracks_def shows_log_def minted_def)
  moreover have "justified (insert op L) (il_version st')"
    unfolding justified_def
  proof
    fix a
    have "get ?v a = 0 \<or> (\<exists>x \<in> L. idlist_op_identity x = Identity a (get ?v a))"
      using t by (simp add: tracks_def shows_log_def justified_def)
    then show "get (il_version st') a = 0 \<or>
        (\<exists>x \<in> insert op L. idlist_op_identity x = Identity a (get (il_version st') a))"
      using get' [of a] by (cases "a = actor ?i") auto
  qed
  moreover have "queued_in (insert op L) st'"
    using t m by (auto simp: tracks_def queued_in_def minted_def)
  ultimately show ?thesis
    by (simp add: tracks_def shows_log_def)
qed

text \<open>Batches: the own operations are observed already, so the allocator stays ahead.\<close>

context identity_allocator
begin

definition own_state :: "idlist_operation set \<Rightarrow> actor_id \<Rightarrow> 'al id_list \<Rightarrow> bool" where
  "own_state L a st \<longleftrightarrow>
     replica_actor A st = a \<and> alloc_ahead usable issued A st \<and> own_seen A L st"

lemma try_apply_alloc:
  "try_apply A op st = Inr st' \<Longrightarrow>
     il_alloc st' = alloc_observe A (il_alloc st) (counter (idlist_op_identity op))"
  by (auto simp: try_apply_def apply_concrete_def apply_insert_def apply_remove_def
      apply_undo_def idlist_op_identity_def split: if_splits option.splits idlist_operation.splits)

lemma own_state_batch:
  assumes L: "\<And>op. op \<in> L \<Longrightarrow> op_ok op \<and> counter (idlist_op_identity op) \<le> U64_MAX"
  shows "batch_inv A L (own_state L a)"
proof (rule batch_invI)
  show "op \<in> L \<Longrightarrow> op_ok op" for op
    using L by simp
  show "same_core st st' \<Longrightarrow> own_state L a st \<Longrightarrow> own_state L a st'" for st st' :: "'al id_list"
    by (auto simp: same_core_def own_state_def alloc_ahead_def own_seen_def)
next
  fix st st' op
  assume o: "own_state L a st" and ok: "list_ok st" and op: "op \<in> L"
    and new: "\<not> observed (il_version st) (idlist_op_identity op)" and st': "try_apply A op st = Inr st'"
  have use: "usable (il_alloc st)" and act: "replica_actor A st = a"
    using o by (simp_all add: own_state_def alloc_ahead_def)
  have al: "usable (il_alloc st')" "issued (il_alloc st) \<le> issued (il_alloc st')" "replica_actor A st' = a"
    using observe_ok [OF use, of "counter (idlist_op_identity op)"] L [OF op]
      actor_observe [OF use] act try_apply_alloc [OF st'] by simp_all
  have other: "actor (idlist_op_identity op) \<noteq> a"
    using o op new by (auto simp: own_state_def own_seen_def)
  have g: "global_ok (il_version st)"
    using ok by (simp add: list_ok_def)
  have same: "get (il_version st') a = get (il_version st) a"
    using try_apply_version(1) [OF ok st', of a] get_observe [OF g] other by simp
  then have "own_seen A L st'"
    using o al(3) by (auto simp: own_state_def own_seen_def observed_def)
  moreover have "alloc_ahead usable issued A st'"
    using o al same act by (simp add: own_state_def alloc_ahead_def)
  ultimately show "own_state L a st'"
    using al(3) by (simp add: own_state_def)
qed

lemma deliver_ok:
  assumes L: "op_log L" "\<forall>op \<in> L. counter (idlist_op_identity op) \<le> U64_MAX" "set ops \<subseteq> L"
    and st: "replica_ok usable issued A L st" and r: "apply_ops A ops st = (st', outs)"
  shows "replica_ok usable issued A L st' \<and> replica_actor A st' = replica_actor A st"
proof -
  have "tracks L st'"
    using apply_ops_tracks [OF L(1,3) _ r] st by (simp add: replica_ok_def)
  moreover have "batch_inv A L (own_state L (replica_actor A st))"
    using L by (intro own_state_batch) (simp add: op_log_def)
  moreover have "batch_state L (own_state L (replica_actor A st)) st"
    using st by (simp add: replica_ok_def own_state_def tracks_def)
  ultimately show ?thesis
    using apply_ops_batch [OF _ L(3) _ r] unfolding replica_ok_def own_state_def by blast
qed

lemma idle_ok:
  assumes "idle A st st'" "replica_ok usable issued A L st"
  shows "replica_ok usable issued A L st' \<and> replica_actor A st' = replica_actor A st"
proof -
  have use: "usable (il_alloc st)"
    using assms(2) by (simp add: replica_ok_def alloc_ahead_def)
  have al: "usable (il_alloc st')" "issued (il_alloc st) \<le> issued (il_alloc st')"
    "replica_actor A st' = replica_actor A st"
    using assms(1) use reserve_err [OF use, of 1 "il_alloc st'"] actor_reserve [OF use, of 1]
    by (auto simp: idle_def kept_alloc_def U64_MAX_eq)
  have st': "st' = st\<lparr>il_alloc := il_alloc st'\<rparr>"
    using assms(1) by (simp add: idle_def alloc_only_def)
  have same: "il_version st' = il_version st" "il_entries st' = il_entries st"
    "il_undo_map st' = il_undo_map st" "il_deferred st' = il_deferred st" "il_gaps st' = il_gaps st"
    "queue_ok st' = queue_ok st" "history_ok st' = history_ok st"
    by (subst st', simp add: queue_ok_def history_ok_def)+
  have "tracks L st'"
    using assms(2) same reflects_cong [OF same(2,3)]
    by (simp add: replica_ok_def tracks_def shows_log_def queued_in_def list_ok_def)
  then show ?thesis
    using assms(2) same(1) al by (simp add: replica_ok_def alloc_ahead_def own_seen_def)
qed

lemma command_ok:
  assumes L: "op_log L" and st: "replica_ok usable issued A L st"
    and r: "run_command A cmd st = (st', Some op)"
  shows "op_log (insert op L) \<and> replica_ok usable issued A (insert op L) st' \<and>
    replica_actor A st' = replica_actor A st \<and> actor (idlist_op_identity op) = replica_actor A st \<and>
    counter (idlist_op_identity op) \<le> U64_MAX \<and>
    (\<forall>x \<in> L. actor (idlist_op_identity x) = replica_actor A st \<longrightarrow>
       counter (idlist_op_identity x) < counter (idlist_op_identity op))"
proof -
  let ?i = "idlist_op_identity op"
  have ok: "list_ok st" "alloc_ahead usable issued A st" and own: "own_seen A L st" and t: "tracks L st"
    using st by (simp_all add: replica_ok_def tracks_def queued_in_def)
  then have use: "usable (il_alloc st)"
    by (simp add: alloc_ahead_def)
  note m = run_command_minted [OF ok r]
  obtain c where c: "reserve_run A (il_alloc st) 1 = (il_alloc st', Ok c)" "?i = Identity (replica_actor A st') c"
    using m by (auto simp: minted_def took_identity_def)
  have act: "replica_actor A st' = replica_actor A st"
    using actor_reserve [OF use, of 1] c(1) by simp
  have lim: "counter ?i \<le> U64_MAX"
    using reserve_ok [OF use _ c(1)] c(2) by (simp add: U64_MAX_eq)
  have new: "\<not> observed (il_version st) ?i" and v: "idlist_op_version op = il_version st" and wf: "op_ok op"
    using m by (simp_all add: minted_def)
  have less: "counter (idlist_op_identity x) < counter ?i"
    if "x \<in> L" "actor (idlist_op_identity x) = replica_actor A st" for x
  proof -
    have "observed (il_version st) (idlist_op_identity x)"
      using own that by (simp add: own_seen_def)
    then show ?thesis
      using new that(2) c(2) act by (simp add: observed_def)
  qed
  have log: "op_log (insert op L)"
    using op_log_insert [OF L wf v new] own c(2) act by (simp add: own_seen_def)
  have t': "tracks (insert op L) st'"
    using tracks_minted [OF t own m] c(2) act by simp
  have g: "global_ok (il_version st)"
    using ok(1) by (simp add: list_ok_def)
  have "observed (il_version st') (idlist_op_identity x)"
    if "x \<in> insert op L" "actor (idlist_op_identity x) = replica_actor A st'" for x
    using that less [of x] m get_observe [OF g] c(2) act
    by (auto simp: minted_def observed_def)
  then have "own_seen A (insert op L) st'"
    by (simp add: own_seen_def)
  then show ?thesis
    using log t' m act lim less c(2) by (simp add: replica_ok_def minted_def)
qed

lemma bystander_ok:
  assumes st: "replica_ok usable issued A L st"
    and other: "actor (idlist_op_identity op) \<noteq> replica_actor A st"
    and new: "\<And>x. x \<in> L \<Longrightarrow> actor (idlist_op_identity x) = actor (idlist_op_identity op) \<Longrightarrow>
      counter (idlist_op_identity x) < counter (idlist_op_identity op)"
    and pos: "counter (idlist_op_identity op) \<noteq> 0"
  shows "replica_ok usable issued A (insert op L) st"
proof -
  let ?i = "idlist_op_identity op" and ?v = "il_version st"
  have "justified L ?v"
    using st by (simp add: replica_ok_def tracks_def shows_log_def)
  then have "get ?v (actor ?i) = 0 \<or> get ?v (actor ?i) < counter ?i"
    using new unfolding justified_def by (metis identity.sel)
  then have "\<not> observed ?v ?i"
    using pos by (auto simp: observed_def)
  then show ?thesis
    using st other tracks_insert by (auto simp: replica_ok_def own_seen_def)
qed

theorem net_step_ok:
  assumes "net_step A net net'" "network_ok usable issued A net"
  shows "network_ok usable issued A net'"
  using assms
proof (cases rule: net_step.cases)
  case (command k rs cmd st' made L)
  have L: "op_log L" "\<forall>op \<in> L. counter (idlist_op_identity op) \<le> U64_MAX"
    and d: "distinct (map (replica_actor A) rs)" and all: "\<forall>st \<in> set rs. replica_ok usable issued A L st"
    using assms(2) command(1) by (simp_all add: network_ok_def list_all_iff)
  have st: "replica_ok usable issued A L (rs ! k)"
    using all command(3) by simp
  show ?thesis
  proof (cases made)
    case None
    note i = idle_ok [OF run_command_idle st]
    have "replica_ok usable issued A L st'" "replica_actor A st' = replica_actor A (rs ! k)"
      using i command(4) None by simp_all
    then show ?thesis
      using L d all command(2) None set_update_subset_insert [of rs k st']
        map_update_same [of "replica_actor A" st' rs k]
      by (auto simp: network_ok_def list_all_iff)
  next
    case (Some op)
    note c = command_ok [OF L(1) st command(4) [unfolded Some]]
    have "replica_ok usable issued A (insert op L) x" if x: "x \<in> set (rs[k := st'])" for x
    proof -
      obtain j where j: "j < length rs" "x = rs[k := st'] ! j"
        using x by (auto simp: in_set_conv_nth)
      show ?thesis
      proof (cases "j = k")
        case True
        then show ?thesis
          using c j by simp
      next
        case False
        then have "replica_actor A (rs ! j) \<noteq> replica_actor A (rs ! k)"
          using d j(1) command(3) by (simp add: distinct_conv_nth)
        moreover have "op_ok op"
          using c by (simp add: op_log_def)
        moreover have "replica_ok usable issued A L (rs ! j)"
          using all j(1) by simp
        ultimately have "replica_ok usable issued A (insert op L) (rs ! j)"
          using c by (intro bystander_ok) (auto simp: op_ok_def)
        then show ?thesis
          using j False by simp
      qed
    qed
    moreover have "distinct (map (replica_actor A) (rs[k := st']))"
      using d c map_update_same [of "replica_actor A" st' rs k] by simp
    ultimately show ?thesis
      using L c command(2) Some by (simp add: network_ok_def list_all_iff)
  qed
next
  case (deliver k rs ops L st' outs)
  have L: "op_log L" "\<forall>op \<in> L. counter (idlist_op_identity op) \<le> U64_MAX"
    and d: "distinct (map (replica_actor A) rs)" and all: "\<forall>st \<in> set rs. replica_ok usable issued A L st"
    using assms(2) deliver(1) by (simp_all add: network_ok_def list_all_iff)
  have st: "replica_ok usable issued A L (rs ! k)"
    using all deliver(3) by simp
  have "replica_ok usable issued A L st'" "replica_actor A st' = replica_actor A (rs ! k)"
    using deliver_ok [OF L deliver(4) st deliver(5)] by simp_all
  then show ?thesis
    using L d all deliver(2) set_update_subset_insert [of rs k st']
      map_update_same [of "replica_actor A" st' rs k]
    by (auto simp: network_ok_def list_all_iff)
qed

theorem network_reachable_ok:
  assumes "(net_step A)\<^sup>*\<^sup>* net net'" "network_ok usable issued A net"
  shows "network_ok usable issued A net'"
  using assms by (induction rule: rtranclp_induct) (auto intro: net_step_ok)

theorem network_converges:
  assumes "(net_step A)\<^sup>*\<^sup>* net (L, rs)" "network_ok usable issued A net" "x \<in> set rs" "y \<in> set rs"
    and "\<And>a. get (il_version x) a = get (il_version y) a"
  shows "list_all2 same_entry (il_entries x) (il_entries y) \<and> list_ids x = list_ids y"
proof -
  have "network_ok usable issued A (L, rs)"
    using network_reachable_ok [OF assms(1,2)] .
  then have "tracks L x" "tracks L y"
    using assms(3,4) by (auto simp: network_ok_def list_all_iff replica_ok_def)
  then show ?thesis
    using tracks_converge [OF _ _ assms(5)] by blast
qed

end

text \<open>Fresh replicas with distinct actors.\<close>

lemma network_start:
  assumes "distinct (map (alloc_actor A) als)" "list_all (\<lambda>al. ready al \<and> 0 < issued al) als"
  shows "network_ok ready issued A ({}, map new_id_list als)"
proof -
  have "op_log {}"
    by (simp add: op_log_def)
  moreover have "list_all (tracks {}) (map new_id_list als)"
    by (simp add: list_all_iff tracks_new [OF \<open>op_log {}\<close>])
  moreover have "replica_actor A (new_id_list al) = alloc_actor A al"
    "alloc_ahead ready issued A (new_id_list al) \<longleftrightarrow> ready al \<and> 0 < issued al" for al
    by (simp_all add: new_id_list_def alloc_ahead_def)
  ultimately show ?thesis
    using assms by (simp add: network_ok_def list_all_iff replica_ok_def own_seen_def comp_def)
qed

end
