(* ===== verification/List_Retirement.thy ===== *)
theory List_Retirement
  imports List_Network
begin

text \<open>
  The budget of retired history over the life of a local list: commands, changes of the undo
  limits, coalescing and acknowledgements. However these alternate, the retired groups stay within
  \<open>kMaxRetirementBytes\<close>, and the active and retired groups together within
  \<open>kMaxRetirementGroups\<close>.
\<close>

text \<open>The bytes one local operation charges to the undo stack.\<close>

abbreviation kept_bytes :: nat where
  "kept_bytes \<equiv> 8 + sizeof_identity"

lemma retirement_bounded_cong:
  assumes "il_undo_stack st' = il_undo_stack st" "il_retired st' = il_retired st" "il_retired_bytes st' = il_retired_bytes st"
  shows "retirement_bounded st' = retirement_bounded st"
  using assms by (simp add: retirement_bounded_def)

text \<open>Entries, version and allocator do not matter to the history.\<close>

definition same_history :: "'al id_list \<Rightarrow> 'al id_list \<Rightarrow> bool" where
  "same_history st st' \<longleftrightarrow>
     il_undo_stack st' = il_undo_stack st \<and> il_cursor st' = il_cursor st \<and> il_undo_bytes st' = il_undo_bytes st \<and>
     il_retired st' = il_retired st \<and> il_retired_bytes st' = il_retired_bytes st \<and>
     il_max_depth st' = il_max_depth st \<and> il_max_bytes st' = il_max_bytes st"

lemma same_history_stamped: "same_history st (stamped al i es st)"
  by (simp add: same_history_def stamped_def set_entries_def)

lemma same_history_ok: "same_history st st' \<Longrightarrow> history_ok st' = history_ok st"
  by (simp add: same_history_def history_ok_def)

lemma same_history_check:
  "same_history st st' \<Longrightarrow>
     check_retirement_for_new_entry st' ret ins dels = check_retirement_for_new_entry st ret ins dels"
proof -
  assume same: "same_history st st'"
  have fields: "il_undo_stack st' = il_undo_stack st" "il_cursor st' = il_cursor st"
    "il_max_depth st' = il_max_depth st" "il_max_bytes st' = il_max_bytes st"
    using same by (simp_all add: same_history_def)
  have check: "final_budget_check st' = final_budget_check st"
    using same by (intro ext) (simp add: final_budget_check_def same_history_def)
  show ?thesis
    unfolding check_retirement_for_new_entry_def fields check ..
qed

lemma push_after:
  assumes ok: "history_ok st" "retirement_bounded st" "il_max_bytes st + ret < U64_MAX"
    and same: "same_history st st1" and check: "check_retirement_for_new_entry st ret ins dels = Ok ()"
    and g: "retirement_charge g = retirement_charge_of 1 ins dels" "ug_retained_bytes g = ret" "group_ok g"
  shows "retirement_bounded (push_undo_group g st1)"
proof -
  have "retirement_bounded st1" "il_max_bytes st1 = il_max_bytes st"
    using same ok(2) retirement_bounded_cong [of st1 st] by (simp_all add: same_history_def)
  then show ?thesis
    using push_bounded [of st1 ret ins dels g] same_history_check [OF same] same_history_ok [OF same] ok check g
    by simp
qed

lemma push_limits: "limits_same st (push_undo_group g st)"
proof -
  define st1 where "st1 = fold retire_undo_entry (drop (il_cursor st) (il_undo_stack st)) st"
  define stack where "stack = take (il_cursor st) (il_undo_stack st1) @ [g]"
  have "push_undo_group g st = trim_undo_stack (st1\<lparr>il_undo_stack := stack, il_cursor := length stack\<rparr>)"
    by (simp add: push_undo_group_def Let_def st1_def stack_def)
  moreover have "limits_same st st1"
    unfolding st1_def by (rule fold_retire(5))
  ultimately show ?thesis
    using history_only_trans(2) [OF history_only_trans(2) [OF _ history_only_update(2)] trim_props(2)] by simp
qed

context identity_allocator
begin

lemma insert_bounded:
  assumes ok: "history_ok st" "retirement_bounded st" "il_max_bytes st + kept_bytes < U64_MAX"
    and ahead: "alloc_ahead usable issued A st" and r: "try_insert_after A after eid st = (st', Ok op)"
  shows "retirement_bounded st'"
proof -
  obtain al c where c: "check_retirement_for_new_entry st kept_bytes 1 0 = Ok ()"
    "reserve_run A (il_alloc st) 1 = (al, Ok c)"
    using r by (auto simp: try_insert_after_def insert_after_resolved_def Let_def sizeof_key_def split: if_splits sum.splits prod.splits)
  define orig where "orig = Identity (alloc_actor A al) c"
  define g where "g = \<lparr>ug_group_id = orig, ug_operation_ids = [orig], ug_inserted = [orig], ug_deletions = [],
      ug_retained_bytes = kept_bytes\<rparr>"
  obtain es where st': "st' = log_event (LocalOpEvent op) (log_event ChangeEvent
      (push_undo_group g (set_entries es (st\<lparr>il_alloc := al, il_version := observe (il_version st) orig\<rparr>))))"
    using r c by (auto simp: try_insert_after_def insert_after_resolved_def Let_def orig_def g_def sizeof_key_def
        split: if_splits sum.splits prod.splits)
  have "0 < c"
    using reserve_fresh(2) [OF ahead c(2)] .
  then have g: "group_ok g" "retirement_charge g = retirement_charge_of 1 1 0" "ug_retained_bytes g = kept_bytes"
    by (simp_all add: g_def group_ok_def retirement_charge_def orig_def)
  have "same_history st (set_entries es (st\<lparr>il_alloc := al, il_version := observe (il_version st) orig\<rparr>))"
    by (simp add: same_history_def set_entries_def)
  from push_after [OF ok this c(1) g(2,3,1)] show ?thesis
    by (simp add: st' retirement_bounded_def log_event_def)
qed

lemma remove_bounded:
  assumes ok: "history_ok st" "retirement_bounded st" "il_max_bytes st + kept_bytes < U64_MAX"
    and ahead: "alloc_ahead usable issued A st" and r: "try_remove_at A target st = (st', Ok op)"
  shows "retirement_bounded st'"
proof -
  obtain al c where c: "check_retirement_for_new_entry st kept_bytes 0 1 = Ok ()"
    "reserve_run A (il_alloc st) 1 = (al, Ok c)"
    using r by (auto simp: try_remove_at_def remove_at_resolved_def Let_def split: option.splits sum.splits prod.splits)
  define d where "d = Identity (alloc_actor A al) c"
  define g where "g = \<lparr>ug_group_id = d, ug_operation_ids = [d], ug_inserted = [], ug_deletions = [d],
      ug_retained_bytes = kept_bytes\<rparr>"
  obtain es where st': "st' = log_event (LocalOpEvent op) (log_event ChangeEvent
      (push_undo_group g (set_entries es (st\<lparr>il_alloc := al, il_version := observe (il_version st) d\<rparr>))))"
    using r c by (auto simp: try_remove_at_def remove_at_resolved_def Let_def d_def g_def
        split: option.splits sum.splits prod.splits)
  have "0 < c"
    using reserve_fresh(2) [OF ahead c(2)] .
  then have g: "group_ok g" "retirement_charge g = retirement_charge_of 1 0 1" "ug_retained_bytes g = kept_bytes"
    by (simp_all add: g_def group_ok_def retirement_charge_def d_def)
  have "same_history st (set_entries es (st\<lparr>il_alloc := al, il_version := observe (il_version st) d\<rparr>))"
    by (simp add: same_history_def set_entries_def)
  from push_after [OF ok this c(1) g(2,3,1)] show ?thesis
    by (simp add: st' retirement_bounded_def log_event_def)
qed

end

text \<open>Undo and redo move groups within the stack.\<close>

lemma flip_history: "flip_group g t st = (st', op) \<Longrightarrow> same_history st st'"
  by (auto simp: flip_group_def same_history_def log_event_def set_entries_def Let_def split: prod.splits)

lemma moved_bounded:
  assumes "retirement_bounded st" "k < length (il_undo_stack st)" "c \<le> length (il_undo_stack st) - 1"
    and st1: "il_undo_stack st1 = take c (take k (il_undo_stack st) @ drop (k + 1) (il_undo_stack st)) @
      il_undo_stack st ! k # drop c (take k (il_undo_stack st) @ drop (k + 1) (il_undo_stack st))"
      "il_retired st1 = il_retired st" "il_retired_bytes st1 = il_retired_bytes st" "il_max_bytes st1 = il_max_bytes st"
    and flip: "flip_group g t st1 = (st', op)"
  shows "retirement_bounded st' \<and> il_max_bytes st' = il_max_bytes st"
  using assms(1) st1 move_group(2) [OF assms(2,3)] flip_history [OF flip]
  by (simp add: same_history_def retirement_bounded_def)

lemma undo_group_bounded:
  assumes u: "try_undo_group A gid st = (st', r)" and st: "history_ok st" "retirement_bounded st"
  shows "retirement_bounded st' \<and> il_max_bytes st' = il_max_bytes st"
proof (cases "\<exists>op. r = Ok op")
  case True
  then obtain op where r: "r = Ok op"
    by blast
  obtain index al c st1 op' where i: "find (\<lambda>i. ug_group_id (il_undo_stack st ! i) = gid) [0..<il_cursor st] = Some index"
    and st1: "st1 = st\<lparr>il_alloc := al,
        il_undo_stack := take (il_cursor st - 1) (take index (il_undo_stack st) @ drop (index + 1) (il_undo_stack st)) @
          il_undo_stack st ! index # drop (il_cursor st - 1) (take index (il_undo_stack st) @ drop (index + 1) (il_undo_stack st)),
        il_cursor := il_cursor st - 1\<rparr>"
    and f: "flip_group (il_undo_stack st ! index) (Identity (alloc_actor A al) c) st1 = (st', op')"
    using u r by (auto simp: try_undo_group_def Let_def split: option.splits sum.splits prod.splits)
  have "index < il_cursor st" "il_cursor st \<le> length (il_undo_stack st)"
    using find_index_range [OF i] st(1) by (simp_all add: history_ok_def)
  then show ?thesis
    by (intro moved_bounded [where k = index and c = "il_cursor st - 1", OF st(2) _ _ _ _ _ _ f])
      (simp_all add: st1)
next
  case False
  then show ?thesis
    using u st(2) by (auto simp: try_undo_group_def Let_def retirement_bounded_def split: option.splits sum.splits prod.splits)
qed

lemma redo_group_bounded:
  assumes u: "try_redo_group A gid st = (st', r)" and st: "history_ok st" "retirement_bounded st"
  shows "retirement_bounded st' \<and> il_max_bytes st' = il_max_bytes st"
proof (cases "\<exists>op. r = Ok op")
  case True
  then obtain op where r: "r = Ok op"
    by blast
  obtain index al c st1 op' where i: "find (\<lambda>i. ug_group_id (il_undo_stack st ! i) = gid)
        [il_cursor st..<length (il_undo_stack st)] = Some index"
    and st1: "st1 = st\<lparr>il_alloc := al,
        il_undo_stack := take (il_cursor st) (take index (il_undo_stack st) @ drop (index + 1) (il_undo_stack st)) @
          il_undo_stack st ! index # drop (il_cursor st) (take index (il_undo_stack st) @ drop (index + 1) (il_undo_stack st)),
        il_cursor := il_cursor st + 1\<rparr>"
    and f: "flip_group (il_undo_stack st ! index) (Identity (alloc_actor A al) c) st1 = (st', op')"
    using u r by (auto simp: try_redo_group_def Let_def split: option.splits sum.splits prod.splits)
  have "il_cursor st \<le> index" "index < length (il_undo_stack st)"
    using find_index_range [OF i] by simp_all
  then show ?thesis
    by (intro moved_bounded [where k = index and c = "il_cursor st", OF st(2) _ _ _ _ _ _ f])
      (simp_all add: st1)
next
  case False
  then show ?thesis
    using u st(2) by (auto simp: try_redo_group_def Let_def retirement_bounded_def split: option.splits sum.splits prod.splits)
qed

section \<open>Deliveries leave the history alone\<close>

lemma same_history_trans: "same_history x y \<Longrightarrow> same_history y z \<Longrightarrow> same_history x z"
  by (simp add: same_history_def)

lemma same_history_refl [simp]: "same_history st st"
  by (simp add: same_history_def)

lemma try_apply_history: "try_apply A op st = Inr st' \<Longrightarrow> same_history st st'"
  by (auto simp: try_apply_def apply_concrete_def apply_insert_def apply_remove_def apply_undo_def
      integrated_def log_event_def set_entries_def observe_remote_def Let_def same_history_def
      split: if_splits option.splits idlist_operation.splits)

lemma quarantine_history: "same_history st (quarantine op e st)"
  by (simp add: quarantine_def same_history_def Let_def)

lemma defer_history: "defer_or_quarantine op i st = (st', out) \<Longrightarrow> same_history st st'"
  using quarantine_history by (auto simp: defer_or_quarantine_def same_history_def quarantine_def Let_def split: if_splits)

lemma apply_one_history: "apply_one A op st = (st', out) \<Longrightarrow> same_history st st'"
  by (erule apply_one_cases) (auto dest: try_apply_history defer_history)

lemma retry_pass_history: "retry_pass A es st = (st', rest, p) \<Longrightarrow> same_history st st'"
proof (induction es arbitrary: st st' rest p)
  case Nil
  then show ?case by simp
next
  case (Cons e es)
  have step: "same_history st st'"
    if "same_history st st1" "retry_pass A es st1 = (st', rest', q)" for st1 rest' q
    using same_history_trans [OF that(1) Cons.IH [OF that(2)]] .
  show ?case
  proof (cases "observed (il_version st) (idlist_op_identity (oe_op e))")
    case True
    then show ?thesis
      using step [OF same_history_refl] Cons.prems by (simp split: prod.splits)
  next
    case new: False
    show ?thesis
    proof (cases "try_apply A (oe_op e) st")
      case (Inr st1)
      then show ?thesis
        using step [OF try_apply_history [OF Inr]] Cons.prems new by (simp split: prod.splits)
    next
      case (Inl err)
      then show ?thesis
        using step [OF same_history_refl] step [OF quarantine_history] Cons.prems new
        by (cases err) (simp_all split: prod.splits)
    qed
  qed
qed

lemma retry_deferred_history: "same_history st (retry_deferred A st)"
proof (rule retry_deferred_induct [where P = "same_history st"])
  fix st1 st2 :: "'a id_list" and rest p
  assume "same_history st st1" "retry_pass A (il_deferred st1) st1 = (st2, rest, p)"
  moreover have "same_history st2 (requeue rest st2)"
    by (simp add: same_history_def requeue_def)
  ultimately show "same_history st (requeue rest st2)"
    using retry_pass_history same_history_trans by blast
qed simp

lemma apply_each_history: "apply_each A ops st = (st', outs) \<Longrightarrow> same_history st st'"
proof (induction ops arbitrary: st outs)
  case (Cons op ops)
  then show ?case
    by (auto split: prod.splits intro: same_history_trans dest: apply_one_history)
qed simp

lemma apply_ops_history: "apply_ops A ops st = (st', outs) \<Longrightarrow> same_history st st'"
  using retry_deferred_history same_history_trans by (fastforce simp: apply_ops_def split: prod.splits dest: apply_each_history)

lemma same_history_bounded:
  "same_history st st' \<Longrightarrow> retirement_bounded st' = retirement_bounded st \<and> il_max_bytes st' = il_max_bytes st"
  by (simp add: same_history_def retirement_bounded_def)

section \<open>The life of a list\<close>

text \<open>
  The local calls that change the history, and deliveries of operations of a log \<open>L\<close>. The limit of
  the undo stack stays so far below \<open>2 ^ 64\<close> that one operation's charge does not wrap.
\<close>

definition byte_limit :: nat where
  "byte_limit = U64_MAX - kept_bytes"

inductive list_step :: "'al alloc_ops \<Rightarrow> idlist_operation set \<Rightarrow> 'al id_list \<Rightarrow> 'al id_list \<Rightarrow> bool" for A L where
  command: "run_command A cmd st = (st', made) \<Longrightarrow> list_step A L st st'"
| depth: "set_max_undo_depth d st = (st', r) \<Longrightarrow> list_step A L st st'"
| bytes: "b < byte_limit \<Longrightarrow> set_max_undo_bytes b st = (st', r) \<Longrightarrow> list_step A L st st'"
| coalesced: "coalesce_last_undo st = (st', merged) \<Longrightarrow> list_step A L st st'"
| acknowledged: "acknowledge_undo_retirements ids st = (st', r) \<Longrightarrow> list_step A L st st'"
| delivered: "set ops \<subseteq> L \<Longrightarrow> apply_ops A ops st = (st', outs) \<Longrightarrow> list_step A L st st'"

definition life_ok ::
  "('al \<Rightarrow> bool) \<Rightarrow> ('al \<Rightarrow> nat) \<Rightarrow> 'al alloc_ops \<Rightarrow> idlist_operation set \<Rightarrow> 'al id_list \<Rightarrow> bool" where
  "life_ok ready issued A L st \<longleftrightarrow>
     queued_in L st \<and> alloc_ahead ready issued A st \<and> retirement_bounded st \<and> il_max_bytes st < byte_limit"

text \<open>Operations other replicas may send: well formed, with a counter below the last one.\<close>

definition sendable :: "idlist_operation set \<Rightarrow> bool" where
  "sendable L \<longleftrightarrow> (\<forall>op \<in> L. op_ok op \<and> counter (idlist_op_identity op) < U64_MAX)"

lemma history_step_ok:
  assumes st: "life_ok ready issued A L st" and only: "history_only st st'" and ok: "list_ok st'"
    and b: "retirement_bounded st'" "il_max_bytes st' < byte_limit"
  shows "life_ok ready issued A L st'"
  using st only ok b by (auto simp: life_ok_def queued_in_def history_only_def alloc_ahead_def)

lemma set_depth_bounded:
  assumes st: "list_ok st" "retirement_bounded st" "il_max_bytes st < byte_limit"
    and r: "set_max_undo_depth d st = (st', r)"
  shows "history_only st st' \<and> retirement_bounded st' \<and> il_max_bytes st' < byte_limit"
proof (cases "check_retirement_for_limits st d (il_max_bytes st) = Ok () \<and> \<not> d > kMaxRetirementGroups")
  case True
  then have st': "st' = trim_undo_stack (st\<lparr>il_max_depth := d\<rparr>)"
    using r by (simp add: set_max_undo_depth_def)
  have h: "history_ok st" "history_base (st\<lparr>il_max_depth := d\<rparr>)"
    using st(1) by (simp_all add: list_ok_def history_ok_def history_base_def)
  have only: "history_only st (st\<lparr>il_max_depth := d\<rparr>)"
    by (simp add: history_only_def)
  have "retirement_bounded st'"
    unfolding st' using True st(3)
    by (intro trim_bounded [OF h(2) _ h(1) st(2)]) (auto simp: byte_limit_def)
  then show ?thesis
    using history_only_trans(1) [OF only trim_props(1)] trim_props(2) [of "st\<lparr>il_max_depth := d\<rparr>"] st(3)
    by (simp add: st' limits_same_def)
next
  case False
  then have "st' = st"
    using r by (auto simp: set_max_undo_depth_def split: if_splits sum.splits)
  then show ?thesis
    using st by simp
qed

lemma set_bytes_bounded:
  assumes st: "list_ok st" "retirement_bounded st" "il_max_bytes st < byte_limit" and b: "b < byte_limit"
    and r: "set_max_undo_bytes b st = (st', r)"
  shows "history_only st st' \<and> retirement_bounded st' \<and> il_max_bytes st' < byte_limit"
proof (cases "check_retirement_for_limits st (il_max_depth st) b = Ok ()")
  case True
  then have st': "st' = trim_undo_stack (st\<lparr>il_max_bytes := b\<rparr>)"
    using r by (simp add: set_max_undo_bytes_def)
  have h: "history_ok st" "history_base (st\<lparr>il_max_bytes := b\<rparr>)"
    using st(1) b by (simp_all add: list_ok_def history_ok_def history_base_def byte_limit_def)
  have only: "history_only st (st\<lparr>il_max_bytes := b\<rparr>)"
    by (simp add: history_only_def)
  have "retirement_bounded st'"
    unfolding st' using True st(3)
    by (intro trim_bounded [OF h(2) _ h(1) st(2)]) (auto simp: byte_limit_def)
  then show ?thesis
    using history_only_trans(1) [OF only trim_props(1)] trim_props(2) [of "st\<lparr>il_max_bytes := b\<rparr>"] b
    by (simp add: st' limits_same_def)
next
  case False
  then have "st' = st"
    using r by (auto simp: set_max_undo_bytes_def split: sum.splits)
  then show ?thesis
    using st by simp
qed

lemma coalesce_bounded:
  assumes st: "list_ok st" "retirement_bounded st" and r: "coalesce_last_undo st = (st', merged)"
  shows "history_only st st' \<and> retirement_bounded st' \<and> il_max_bytes st' = il_max_bytes st"
proof (cases merged)
  case True
  have c: "il_cursor st \<le> length (il_undo_stack st)"
    using st(1) by (simp add: list_ok_def history_ok_def)
  obtain xs p l ys m where m: "il_undo_stack st = xs @ p # l # ys" "il_undo_stack st' = xs @ m # ys"
    "history_only st st'" "limits_same st st'" "il_retired st' = il_retired st" "il_retired_bytes st' = il_retired_bytes st"
    using coalesce_stack [of st st', OF _ c] r True by metis
  then show ?thesis
    using st(2) by (simp add: retirement_bounded_def limits_same_def)
next
  case False
  then have "st' = st"
    using r by (auto simp: coalesce_last_undo_def Let_def split: if_splits)
  then show ?thesis
    using st by simp
qed

lemma acknowledge_bounded:
  assumes "retirement_bounded st" and r: "acknowledge_undo_retirements ids st = (st', r)"
  shows "history_only st st' \<and> retirement_bounded st' \<and> il_max_bytes st' = il_max_bytes st"
proof (cases "st' = st")
  case True
  then show ?thesis
    using assms by simp
next
  case False
  then have st': "st' = st\<lparr>il_retired_bytes := il_retired_bytes st -
        sum_list (map retirement_charge (filter (\<lambda>g. ug_group_id g \<in> set ids) (il_retired st))),
      il_retired := filter (\<lambda>g. ug_group_id g \<notin> set ids) (il_retired st)\<rparr>"
    using r by (auto simp: acknowledge_undo_retirements_def split: sum.splits)
  have "retirement_bounded st'"
    using assms(1) unfolding retirement_bounded_def st'
    by (auto intro: order_trans [OF add_right_mono [OF length_filter_le]])
  then show ?thesis
    by (simp add: st' history_only_def)
qed

text \<open>A local command: the history is pushed, moved, or left alone.\<close>

lemma push_max_bytes [simp]: "il_max_bytes (push_undo_group g st) = il_max_bytes st"
  using push_limits [of st g] by (simp add: limits_same_def)

lemma insert_max_bytes: "try_insert_after A after eid st = (st', r) \<Longrightarrow> il_max_bytes st' = il_max_bytes st"
  by (auto simp: try_insert_after_def insert_after_resolved_def Let_def log_event_def set_entries_def
      split: if_splits sum.splits prod.splits)

lemma remove_max_bytes: "try_remove_at A target st = (st', r) \<Longrightarrow> il_max_bytes st' = il_max_bytes st"
  by (auto simp: try_remove_at_def remove_at_resolved_def Let_def log_event_def set_entries_def
      split: option.splits sum.splits prod.splits)

context identity_allocator
begin

lemma command_bounded:
  assumes ok: "list_ok st" "alloc_ahead usable issued A st" and b: "retirement_bounded st" "il_max_bytes st < byte_limit"
    and r: "run_command A cmd st = (st', Some op)"
  shows "retirement_bounded st' \<and> il_max_bytes st' = il_max_bytes st"
proof -
  have h: "history_ok st" "il_max_bytes st + kept_bytes < U64_MAX"
    using ok(1) b(2) by (simp_all add: list_ok_def byte_limit_def)
  show ?thesis
  proof (cases cmd)
    case (InsertAfter after eid)
    then have "try_insert_after A after eid st = (st', Ok op)"
      using r by (cases "try_insert_after A after eid st") (auto simp: run_command_def as_option_def split: sum.splits)
    then show ?thesis
      using insert_bounded [OF h(1) b(1) h(2) ok(2)] insert_max_bytes by blast
  next
    case (RemoveAt target)
    then have "try_remove_at A target st = (st', Ok op)"
      using r by (cases "try_remove_at A target st") (auto simp: run_command_def as_option_def split: sum.splits)
    then show ?thesis
      using remove_bounded [OF h(1) b(1) h(2) ok(2)] remove_max_bytes by blast
  next
    case UndoLast
    then have "\<exists>g q. try_undo_group A g st = (st', q)"
      using r by (auto simp: run_command_def try_undo_def as_flat_option_def split: if_splits) (metis prod.collapse)
    then show ?thesis
      using undo_group_bounded [OF _ h(1) b(1)] by blast
  next
    case RedoLast
    then have "\<exists>g q. try_redo_group A g st = (st', q)"
      using r by (auto simp: run_command_def try_redo_def as_flat_option_def split: if_splits) (metis prod.collapse)
    then show ?thesis
      using redo_group_bounded [OF _ h(1) b(1)] by blast
  next
    case (UndoGroup g)
    then have "\<exists>q. try_undo_group A g st = (st', q)"
      using r by (auto simp: run_command_def as_flat_option_def) (metis prod.collapse)
    then show ?thesis
      using undo_group_bounded [OF _ h(1) b(1)] by blast
  next
    case (RedoGroup g)
    then have "\<exists>q. try_redo_group A g st = (st', q)"
      using r by (auto simp: run_command_def as_flat_option_def) (metis prod.collapse)
    then show ?thesis
      using redo_group_bounded [OF _ h(1) b(1)] by blast
  qed
qed

lemma ahead_batch:
  assumes "sendable L"
  shows "batch_inv A L (alloc_ahead usable issued A)"
proof (rule batch_invI)
  show "op \<in> L \<Longrightarrow> op_ok op" for op
    using assms by (simp add: sendable_def)
  show "same_core st st' \<Longrightarrow> alloc_ahead usable issued A st \<Longrightarrow> alloc_ahead usable issued A st'" for st st' :: "'al id_list"
    by (simp add: same_core_def alloc_ahead_def)
next
  fix st st' op
  assume a: "alloc_ahead usable issued A st" and ok: "list_ok st" and op: "op \<in> L"
    and st': "try_apply A op st = Inr st'"
  let ?c = "counter (idlist_op_identity op)"
  have c: "?c < U64_MAX"
    using assms op by (simp add: sendable_def)
  have use: "usable (il_alloc st)"
    using a by (simp add: alloc_ahead_def)
  have al: "il_alloc st' = alloc_observe A (il_alloc st) ?c"
    using try_apply_alloc [OF st'] .
  have up: "usable (il_alloc st')" "issued (il_alloc st) \<le> issued (il_alloc st')" "?c < issued (il_alloc st')"
    "replica_actor A st' = replica_actor A st"
    using observe_ok [OF use] observe_raises [OF use c] actor_observe [OF use] c al by simp_all
  have g: "global_ok (il_version st)"
    using ok by (simp add: list_ok_def)
  have "get (il_version st') (replica_actor A st) \<le> max (get (il_version st) (replica_actor A st)) ?c"
    using try_apply_version(1) [OF ok st'] get_observe [OF g] by simp
  then show "alloc_ahead usable issued A st'"
    using a up by (auto simp: alloc_ahead_def)
qed

theorem list_step_ok:
  assumes step: "list_step A L st st'" and L: "sendable L" and st: "life_ok usable issued A L st"
  shows "life_ok usable issued A L st'"
  using step
proof (cases rule: list_step.cases)
  case (command cmd made)
  have ok: "list_ok st" "alloc_ahead usable issued A st" and b: "retirement_bounded st" "il_max_bytes st < byte_limit"
    using st by (simp_all add: life_ok_def queued_in_def)
  show ?thesis
  proof (cases made)
    case None
    have i: "idle A st st'"
      using run_command_idle command None by blast
    then have same: "st' = st\<lparr>il_alloc := il_alloc st'\<rparr>"
      by (simp add: idle_def alloc_only_def)
    have "usable (il_alloc st')" "issued (il_alloc st) \<le> issued (il_alloc st')" "replica_actor A st' = replica_actor A st"
      using i ok(2) reserve_err [of "il_alloc st" 1 "il_alloc st'"] actor_reserve [of "il_alloc st" 1]
      by (auto simp: idle_def kept_alloc_def alloc_ahead_def U64_MAX_eq)
    moreover have "il_version st' = il_version st" "retirement_bounded st' = retirement_bounded st"
      "il_max_bytes st' = il_max_bytes st" "queued_in L st' = queued_in L st"
      by (subst same, simp add: retirement_bounded_def queued_in_def list_ok_def queue_ok_def history_ok_def)+
    ultimately show ?thesis
      using st by (simp add: life_ok_def alloc_ahead_def)
  next
    case (Some op)
    then show ?thesis
      using run_command_minted [OF ok, of cmd st' op] command_bounded [OF ok b, of cmd st' op] command st
      by (auto simp: life_ok_def queued_in_def minted_def)
  qed
next
  case (depth d r)
  then show ?thesis
    using st set_depth_bounded [of st d st' r] set_max_undo_depth_ok [of st d st' r] history_step_ok [OF st]
    by (simp add: life_ok_def queued_in_def)
next
  case (bytes b r)
  have "b \<le> U64_MAX"
    using bytes(1) by (simp add: byte_limit_def)
  then show ?thesis
    using st set_bytes_bounded [of st b st' r] set_max_undo_bytes_ok [of st b st' r] history_step_ok [OF st] bytes
    by (simp add: life_ok_def queued_in_def)
next
  case (coalesced merged)
  then show ?thesis
    using st coalesce_bounded [of st st' merged] coalesce_ok [of st st' merged] history_step_ok [OF st]
    by (simp add: life_ok_def queued_in_def)
next
  case (acknowledged ids r)
  then show ?thesis
    using st acknowledge_bounded [of st ids st' r] acknowledge_ok [of st ids st' r] history_step_ok [OF st]
    by (simp add: life_ok_def queued_in_def)
next
  case (delivered ops outs)
  have "alloc_ahead usable issued A st' \<and> queued_in L st'"
    using apply_ops_batch [OF ahead_batch [OF L] delivered(1) _ delivered(2)] st by (simp add: life_ok_def)
  then show ?thesis
    using same_history_bounded [OF apply_ops_history [OF delivered(2)]] st by (simp add: life_ok_def)
qed

theorem list_life_ok:
  assumes "(list_step A L)\<^sup>*\<^sup>* st st'" "sendable L" "life_ok usable issued A L st"
  shows "life_ok usable issued A L st'"
  using assms by (induction rule: rtranclp_induct) (auto dest: list_step_ok)

end

lemma life_start:
  assumes "ready al" "0 < issued al"
  shows "life_ok ready issued A L (new_id_list al)"
  using assms list_ok_new [of al]
  by (simp add: life_ok_def queued_in_def alloc_ahead_def retirement_bounded_def new_id_list_def byte_limit_def
      U64_MAX_eq sizeof_identity_def)

end
