(* ===== verification/List_Delivery.thy ===== *)
theory List_Delivery
  imports List_Convergence
begin

text \<open>
  Delivery: a batch that brings everything a replica lacks, in any order, is integrated completely,
  because what arrives too early waits in the queue and the queue is retried until nothing moves.
\<close>

section \<open>Logs that are closed under causality\<close>

definition op_refs :: "idlist_operation \<Rightarrow> identity set" where
  "op_refs op =
     (case op of
        ListInsert i \<Rightarrow> set_option (parent (li_link i)) \<union> set_option (right_origin (li_link i))
      | ListRemove r \<Rightarrow> {lr_target_origin r}
      | ListUndo u \<Rightarrow> {})"

definition insert_ids :: "idlist_operation set \<Rightarrow> identity set" where
  "insert_ids L = {i. \<exists>x. ListInsert x \<in> L \<and> li_timestamp x = i}"

definition deliverable :: "idlist_operation set \<Rightarrow> (idlist_operation \<Rightarrow> nat) \<Rightarrow> idlist_operation \<Rightarrow> bool" where
  "deliverable L rank op \<longleftrightarrow>
     validate_idlist_operation_identity op = Valid \<and>
     validate_idlist_operation op (idlist_op_version op) = Valid \<and>
     (\<forall>i \<in> op_refs op. observed (idlist_op_version op) i \<and> i \<in> insert_ids L) \<and>
     (\<forall>(a, c) \<in> set (idlist_op_version op).
        \<exists>x \<in> L. idlist_op_identity x = Identity a c \<and> rank x < rank op)"

text \<open>A replica without collected or abandoned identities.\<close>

definition plain :: "'al id_list \<Rightarrow> bool" where
  "plain st \<longleftrightarrow> gl_records (il_gaps st) = [] \<and> rb_frontier (il_reclamation st) = []"

lemma plain_uncovered: "plain st \<Longrightarrow> counter i \<noteq> 0 \<Longrightarrow> \<not> operation_is_covered (rb_frontier (il_reclamation st)) i"
  by (simp add: plain_def operation_is_covered_def)

lemma validate_static:
  assumes "validate_idlist_operation op v = Valid"
  shows "validate_idlist_operation op w = Valid \<or> (\<exists>i. validate_idlist_operation op w = Defer i)"
proof -
  have "and_then s (check_causality r w) = Valid \<or> (\<exists>i. and_then s (check_causality r w) = Defer i)"
    if "and_then s (check_causality r v) = Valid" for s r
    using that by (cases "first_unmet_dependency r w") (simp_all add: and_then_Defer check_causality_def)
  from this [OF assms [unfolded validate_idlist_operation_def]] show ?thesis
    unfolding validate_idlist_operation_def .
qed

lemma reflected_origins:
  assumes "reflects (covered_ops v L) st" "i \<in> insert_ids L" "observed v i"
  shows "i \<in> le_origin ` set (il_entries st)"
proof -
  obtain x where x: "ListInsert x \<in> L" "li_timestamp x = i"
    using assms(2) by (auto simp: insert_ids_def)
  then have "ListInsert x \<in> covered_ops v L"
    using assms(3) by (simp add: covered_ops_def idlist_op_identity_def)
  moreover have "(i, li_link x, li_id x) \<in> op_items (ListInsert x)"
    using x(2) by (simp add: op_items_def)
  ultimately have "(i, li_link x, li_id x) \<in> \<Union> (op_items ` covered_ops v L)"
    by (rule UN_I)
  then have "(i, li_link x, li_id x) \<in> entry_item ` set (il_entries st)"
    using assms(1) by (simp only: reflects_def)
  then show ?thesis
    by auto
qed

text \<open>With its version covered, such an operation applies; otherwise it waits.\<close>

lemma ready_applies:
  assumes t: "tracks L st" and p: "plain st" and op: "op \<in> L" "op_ok op" "deliverable L rank op"
    and c: "observed_all (il_version st) (idlist_op_version op)"
    and new: "\<not> observed (il_version st) (idlist_op_identity op)"
  shows "\<exists>st'. try_apply A op st = Inr st'"
proof -
  have ok: "list_ok st" and r: "reflects (covered_ops (il_version st) L) st"
    using t by (simp_all add: tracks_def shows_log_def queued_in_def)
  have refs: "i \<in> le_origin ` set (il_entries st)" if "i \<in> op_refs op" for i
    using that op(3) reflected_origins [OF r] observed_by_version [OF c] unfolding deliverable_def by blast
  show ?thesis
  proof (cases op)
    case (ListInsert x)
    let ?e = "new_entry (li_timestamp x) (li_link x) (li_id x)"
    have f: "le_origin ?e \<notin> le_origin ` set (il_entries st)"
      using fresh_origin [OF ok new] ListInsert by (simp add: idlist_op_identity_def)
    have wf: "link_wf (li_link x)"
      using op(2) ListInsert by (simp add: op_ok_def)
    have d: "dom (links entry_ops (il_entries st)) = le_origin ` set (il_entries st)"
      using set_run_ids [of entry_ops "il_entries st"] by simp
    have "link_present (links entry_ops (il_entries st)) (li_link x)"
      using refs ListInsert wf unfolding link_present_def d
      by (auto simp: op_refs_def origins_in_def link_wf_def)
    then obtain es where "integrate entry_ops (il_entries st) ?e = Some es"
      using integrate_None_iff [of entry_ops "il_entries st" ?e] ok f wf
      by (cases "integrate entry_ops (il_entries st) ?e") (simp_all add: list_ok_def)
    moreover have "\<not> dependency_reclaimed st (parent (li_link x))"
      "\<not> dependency_reclaimed st (right_origin (li_link x))"
      using refs ListInsert
      by (auto simp: dependency_reclaimed_def op_refs_def list_ex_iff split: option.splits)
    ultimately show ?thesis
      using c ListInsert by (simp add: try_apply_def apply_concrete_def apply_insert_def)
  next
    case (ListRemove x)
    have "lr_target_origin x \<in> le_origin ` set (il_entries st)"
      using refs ListRemove by (simp add: op_refs_def)
    then obtain es where "mark_deleted (lr_target_origin x) (lr_timestamp x) (il_entries st) = Some es"
      using mark_deleted_None [of "lr_target_origin x" "lr_timestamp x" "il_entries st"] by fastforce
    then show ?thesis
      using c ListRemove by (simp add: try_apply_def apply_concrete_def apply_remove_def)
  next
    case (ListUndo u)
    have "\<forall>(i, n) \<in> set (lu_counts u). counter i \<noteq> 0"
      using op(2) ListUndo by (simp add: op_ok_def)
    then have "\<not> list_ex (\<lambda>(i, n). operation_is_covered (rb_frontier (il_reclamation st)) i) (lu_counts u)"
      using plain_uncovered [OF p] by (auto simp: list_ex_iff)
    then show ?thesis
      using c ListUndo by (simp add: try_apply_def apply_concrete_def apply_undo_def)
  qed
qed

lemma waiting: "\<not> observed_all (il_version st) (idlist_op_version op) \<Longrightarrow> try_apply A op st = Inl None"
  by (simp add: try_apply_def)

section \<open>The loops\<close>

definition settled :: "'al id_list \<Rightarrow> idlist_operation \<Rightarrow> bool" where
  "settled st op \<longleftrightarrow>
     observed (il_version st) (idlist_op_identity op) \<or> op \<in> oe_op ` set (il_deferred st)"

definition log_ready :: "idlist_operation set \<Rightarrow> (idlist_operation \<Rightarrow> nat) \<Rightarrow> bool" where
  "log_ready L rank \<longleftrightarrow> op_log L \<and> (\<forall>op \<in> L. deliverable L rank op)"

lemma try_apply_frame:
  assumes "try_apply A op st = Inr st'"
  shows "il_gaps st' = il_gaps st" "il_reclamation st' = il_reclamation st"
    "il_deferred_budget st' = il_deferred_budget st" "il_deferred_count st' = il_deferred_count st"
    "il_deferred_bytes st' = il_deferred_bytes st"
  using assms
  by (auto simp: try_apply_def apply_concrete_def apply_insert_def apply_remove_def apply_undo_def
      integrated_def log_event_def set_entries_def observe_remote_def Let_def
      split: if_splits option.splits idlist_operation.splits)

lemma try_apply_observed:
  assumes "list_ok st" "try_apply A op st = Inr st'"
  shows "observed (il_version st') (idlist_op_identity op)"
    "observed (il_version st) i \<Longrightarrow> observed (il_version st') i"
  using try_apply_version(1) [OF assms] get_observe [of "il_version st"] assms(1)
  by (auto simp: observed_def list_ok_def)

lemma try_apply_settles:
  assumes "list_ok st" "try_apply A op st = Inr st'"
  shows "settled st' op" "settled st x \<Longrightarrow> settled st' x"
  using try_apply_observed [OF assms] try_apply_deferred [OF assms(2)] by (auto simp: settled_def)

definition room :: "nat \<Rightarrow> nat \<Rightarrow> 'al id_list \<Rightarrow> bool" where
  "room ops bytes st \<longleftrightarrow>
     il_deferred_count st + ops \<le> max_operations (il_deferred_budget st) \<and>
     il_deferred_bytes st + bytes \<le> max_bytes (il_deferred_budget st)"

lemma estimate_pos: "0 < estimate_idlist_bytes op"
  by (simp add: estimate_idlist_bytes_def sizeof_identity_def)

lemma defer_with_room:
  assumes "room (Suc n) (estimate_idlist_bytes op + b) st" "defer_or_quarantine op i st = (st', out)"
  shows "out = Deferred i" "settled st' op" "settled st x \<Longrightarrow> settled st' x" "room n b st'"
    "same_core st st'" "plain st' = plain st"
proof -
  have "\<not> deferred_budget_exhausted (il_deferred_budget st) (il_deferred_count st) (il_deferred_bytes st)
      (estimate_idlist_bytes op)"
    using assms(1) estimate_pos [of op] by (simp add: budget_exhausted_iff room_def)
  then have "st' = st\<lparr>il_deferred := il_deferred st @ [\<lparr>oe_timestamp = idlist_op_identity op, oe_op = op\<rparr>],
      il_deferred_count := il_deferred_count st + 1,
      il_deferred_bytes := il_deferred_bytes st + estimate_idlist_bytes op\<rparr>" "out = Deferred i"
    using assms(2) by (simp_all add: defer_or_quarantine_def)
  then show "out = Deferred i" "settled st' op" "settled st x \<Longrightarrow> settled st' x" "room n b st'"
    "same_core st st'" "plain st' = plain st"
    using assms(1) by (auto simp: settled_def room_def same_core_def plain_def)
qed

lemma apply_one_settles:
  assumes L: "log_ready L rank" and op: "op \<in> L" and t: "tracks L st" and p: "plain st"
    and r: "room (Suc n) (estimate_idlist_bytes op + b) st" and a: "apply_one A op st = (st', out)"
  shows "settled st' op \<and> (\<forall>x. settled st x \<longrightarrow> settled st' x) \<and> room n b st' \<and> plain st' \<and>
    (\<forall>e. out \<noteq> Rejected e)"
proof -
  let ?i = "idlist_op_identity op" and ?v = "il_version st"
  have d: "deliverable L rank op" and wf: "op_ok op" and ok: "list_ok st"
    using L op t by (auto simp: log_ready_def op_log_def tracks_def queued_in_def)
  have valid: "validate_idlist_operation_identity op = Valid"
    using d by (simp add: deliverable_def)
  have nogap: "\<not> gap_conflicts (il_gaps st) op"
    using p by (simp add: gap_conflicts_def plain_def)
  have weaker: "room n b st"
    using r by (simp add: room_def)
  show ?thesis
  proof (cases "observed ?v ?i")
    case True
    then show ?thesis
      using a valid nogap weaker p by (auto simp: apply_one_def settled_def)
  next
    case new: False
    consider (now) "validate_idlist_operation op ?v = Valid" | (later) i where "validate_idlist_operation op ?v = Defer i"
      using validate_static d unfolding deliverable_def by blast
    then show ?thesis
    proof cases
      case now
      then have c: "observed_all ?v (idlist_op_version op)"
        by (rule validate_idlist_valid_causal)
      obtain st1 where st1: "try_apply A op st = Inr st1"
        using ready_applies [OF t p op wf d c new] by blast
      then have "st' = st1" "out = Applied"
        using a valid nogap new now by (simp_all add: apply_one_def)
      then show ?thesis
        using try_apply_settles [OF ok st1] try_apply_frame [OF st1] weaker p
        by (simp add: room_def plain_def)
    next
      case (later i)
      then have "defer_or_quarantine op i st = (st', out)"
        using a valid nogap new by (simp add: apply_one_def)
      then show ?thesis
        using defer_with_room [OF r] p by blast
    qed
  qed
qed

lemma tracks_apply_one:
  assumes "log_ready L rank" "op \<in> L" "tracks L st" "apply_one A op st = (st', out)"
  shows "tracks L st'"
  using apply_one_batch [OF shows_log_batch assms(2) _ assms(4)] assms(1,3)
  by (simp add: tracks_def log_ready_def)

lemma apply_each_settles:
  "log_ready L rank \<Longrightarrow> set ops \<subseteq> L \<Longrightarrow> tracks L st \<Longrightarrow> plain st \<Longrightarrow>
   room (length ops) (sum_list (map estimate_idlist_bytes ops)) st \<Longrightarrow>
   apply_each A ops st = (st', outs) \<Longrightarrow>
     tracks L st' \<and> plain st' \<and> (\<forall>op. op \<in> set ops \<or> settled st op \<longrightarrow> settled st' op) \<and>
     (\<forall>out \<in> set outs. \<forall>e. out \<noteq> Rejected e)"
proof (induction ops arbitrary: st st' outs)
  case Nil
  then show ?case by simp
next
  case (Cons op ops)
  obtain st1 out where a: "apply_one A op st = (st1, out)"
    by (cases "apply_one A op st")
  obtain st2 outs2 where b: "apply_each A ops st1 = (st2, outs2)"
    by (cases "apply_each A ops st1")
  have op: "op \<in> L" "set ops \<subseteq> L"
    using Cons.prems(2) by auto
  have "room (Suc (length ops)) (estimate_idlist_bytes op + sum_list (map estimate_idlist_bytes ops)) st"
    using Cons.prems(5) by simp
  note one = apply_one_settles [OF Cons.prems(1) op(1) Cons.prems(3,4) this a]
  have "tracks L st1"
    using tracks_apply_one [OF Cons.prems(1) op(1) Cons.prems(3) a] .
  then have rest: "tracks L st2 \<and> plain st2 \<and> (\<forall>x. x \<in> set ops \<or> settled st1 x \<longrightarrow> settled st2 x) \<and>
      (\<forall>out \<in> set outs2. \<forall>e. out \<noteq> Rejected e)"
    using Cons.IH [OF Cons.prems(1) op(2) _ _ _ b] one by blast
  have "st' = st2" "outs = out # outs2"
    using Cons.prems(6) a b by simp_all
  then show ?case
    using rest one by auto
qed

text \<open>One pass keeps what waits and loses nothing; a pass without progress changes nothing.\<close>

lemma retry_pass_settles:
  assumes L: "log_ready L rank"
  shows "tracks L st \<Longrightarrow> plain st \<Longrightarrow> oe_op ` set es \<subseteq> L \<Longrightarrow> retry_pass A es st = (st', rest, p) \<Longrightarrow>
    tracks L st' \<and> plain st' \<and> (\<forall>i. observed (il_version st) i \<longrightarrow> observed (il_version st') i) \<and>
    (\<forall>e \<in> set es. observed (il_version st') (idlist_op_identity (oe_op e)) \<or> e \<in> set rest) \<and>
    (\<not> p \<longrightarrow> st' = st \<and> (\<forall>e \<in> set rest. \<not> observed_all (il_version st) (idlist_op_version (oe_op e))))"
proof (induction es arbitrary: st st' rest p)
  case Nil
  then show ?case by simp
next
  case (Cons e es)
  let ?op = "oe_op e"
  have es: "oe_op ` set es \<subseteq> L" "?op \<in> L"
    using Cons.prems(3) by auto
  then have d: "deliverable L rank ?op" and wf: "op_ok ?op"
    using L by (auto simp: log_ready_def op_log_def)
  have ok: "list_ok st"
    using Cons.prems(1) by (simp add: tracks_def queued_in_def)
  show ?case
  proof (cases "observed (il_version st) (idlist_op_identity ?op)")
    case True
    obtain st1 rest1 p1 where r: "retry_pass A es st = (st1, rest1, p1)"
      by (metis prod_cases3)
    then show ?thesis
      using Cons.IH [OF Cons.prems(1,2) es(1) r] Cons.prems(4) True by auto
  next
    case new: False
    show ?thesis
    proof (cases "observed_all (il_version st) (idlist_op_version ?op)")
      case True
      obtain st1 where st1: "try_apply A ?op st = Inr st1"
        using ready_applies [OF Cons.prems(1,2) es(2) wf d True new] by blast
      obtain st2 rest2 p2 where r: "retry_pass A es st1 = (st2, rest2, p2)"
        by (metis prod_cases3)
      have "tracks L st1"
        using try_apply_batch [OF shows_log_batch es(2) _ new st1] L Cons.prems(1)
        by (simp add: tracks_def log_ready_def)
      moreover have "plain st1"
        using try_apply_frame [OF st1] Cons.prems(2) by (simp add: plain_def)
      ultimately show ?thesis
        using Cons.IH [OF _ _ es(1) r] Cons.prems(4) new st1 r try_apply_observed [OF ok st1] by auto
    next
      case False
      obtain st1 rest1 p1 where r: "retry_pass A es st = (st1, rest1, p1)"
        by (metis prod_cases3)
      then show ?thesis
        using Cons.IH [OF Cons.prems(1,2) es(1) r] Cons.prems(4) new waiting [OF False] False by auto
    qed
  qed
qed

definition quiescent :: "'al id_list \<Rightarrow> bool" where
  "quiescent st \<longleftrightarrow>
     list_all (\<lambda>e. \<not> observed_all (il_version st) (idlist_op_version (oe_op e))) (il_deferred st)"

lemma requeue_pass:
  assumes L: "log_ready L rank" and t: "tracks L st" and p: "plain st"
    and r: "retry_pass A (il_deferred st) st = (st1, rest, progress)"
  shows "tracks L (requeue rest st1)" "plain (requeue rest st1)"
    "settled st op \<Longrightarrow> settled (requeue rest st1) op"
    "\<not> progress \<Longrightarrow> quiescent (requeue rest st1)"
proof -
  have q: "oe_op ` set (il_deferred st) \<subseteq> L"
    using t by (simp add: tracks_def queued_in_def)
  note pass = retry_pass_settles [OF L t p q r]
  have I: "batch_inv A L (shows_log L)"
    using L shows_log_batch [of L A] by (simp add: log_ready_def)
  have "\<forall>e \<in> set (il_deferred st). oe_timestamp e = idlist_op_identity (oe_op e) \<and> op_ok (oe_op e)"
    using t by (simp add: tracks_def queued_in_def list_ok_def queue_ok_def list_all_iff)
  moreover have "set rest \<subseteq> set (il_deferred st)"
    using retry_pass_batch [OF I _ q r] t by (simp add: tracks_def)
  ultimately show "tracks L (requeue rest st1)"
    using requeue_batch [OF I _ _ q] pass by (simp add: tracks_def)
  show "plain (requeue rest st1)"
    using pass by (simp add: plain_def)
  show "settled st op \<Longrightarrow> settled (requeue rest st1) op"
    using pass by (auto simp: settled_def)
  show "\<not> progress \<Longrightarrow> quiescent (requeue rest st1)"
    using pass by (auto simp: quiescent_def list_all_iff)
qed

lemma retry_deferred_settles:
  assumes L: "log_ready L rank"
  shows "tracks L st \<Longrightarrow> plain st \<Longrightarrow>
    tracks L (retry_deferred A st) \<and> quiescent (retry_deferred A st) \<and>
    (\<forall>op. settled st op \<longrightarrow> settled (retry_deferred A st) op)"
proof (induction "length (il_deferred st)" arbitrary: st rule: less_induct)
  case less
  obtain st1 rest p where r: "retry_pass A (il_deferred st) st = (st1, rest, p)"
    by (metis prod_cases3)
  note step = requeue_pass [OF L less.prems r]
  show ?case
  proof (cases p)
    case True
    then have "length rest < length (il_deferred st)"
      using retry_pass_length [OF r] by simp
    then show ?thesis
      using less.hyps [of "requeue rest st1"] step True r by (subst (1 2 3) retry_deferred_unfold) simp
  next
    case False
    then show ?thesis
      using step r by (subst (1 2 3) retry_deferred_unfold) simp
  qed
qed

text \<open>In a quiescent state of a log that is closed under causality, nothing is left waiting.\<close>

lemma quiescent_complete:
  assumes L: "log_ready L rank" and t: "tracks L st" and q: "quiescent st"
    and all: "\<And>op. op \<in> L \<Longrightarrow> settled st op"
  shows "op \<in> L \<Longrightarrow> observed (il_version st) (idlist_op_identity op)"
proof (induction "rank op" arbitrary: op rule: less_induct)
  case less
  let ?w = "idlist_op_version op"
  have d: "deliverable L rank op"
    using L less.prems by (simp add: log_ready_def)
  have "get (il_version st) a \<ge> c" if ac: "(a, c) \<in> set ?w" for a c
  proof -
    obtain x where x: "x \<in> L" "idlist_op_identity x = Identity a c" "rank x < rank op"
      using d ac unfolding deliverable_def by blast
    then show ?thesis
      using less.hyps [OF x(3,1)] by (simp add: observed_def)
  qed
  then have "observed_all (il_version st) ?w"
    by (auto simp: observed_all_def list_all_iff not_less)
  then show ?case
    using all [OF less.prems] q by (auto simp: settled_def quiescent_def list_all_iff)
qed

text \<open>
  The whole: a batch that, with the queue, brings all of the log leaves nothing unobserved. So the
  replica shows the whole log, whatever the order of the batch was.
\<close>

theorem delivery_complete:
  assumes L: "log_ready L rank" and t: "tracks L st" and p: "plain st"
    and ops: "set ops \<subseteq> L" "\<And>op. op \<in> L \<Longrightarrow> op \<in> set ops \<or> settled st op"
    and room: "room (length ops) (sum_list (map estimate_idlist_bytes ops)) st"
    and r: "apply_ops A ops st = (st', outs)"
  shows "list_ok st' \<and> reflects L st' \<and> il_deferred st' = [] \<and>
    (\<forall>op \<in> L. observed (il_version st') (idlist_op_identity op)) \<and>
    (\<forall>out \<in> set outs. \<forall>e. out \<noteq> Rejected e)"
proof -
  obtain st1 where st1: "apply_each A ops st = (st1, outs)" "st' = retry_deferred A st1"
    using r by (auto simp: apply_ops_def split: prod.splits)
  note each = apply_each_settles [OF L ops(1) t p room st1(1)]
  have retry: "tracks L st'" "quiescent st'" "\<And>op. settled st1 op \<Longrightarrow> settled st' op"
    using retry_deferred_settles [OF L, of st1 A] each st1(2) by simp_all
  then have seen: "observed (il_version st') (idlist_op_identity op)" if "op \<in> L" for op
    using quiescent_complete [OF L retry(1,2)] each ops(2) that by blast
  then have "covered_ops (il_version st') L = L"
    by (auto simp: covered_ops_def)
  moreover have "il_deferred st' = []"
  proof (rule ccontr)
    assume "il_deferred st' \<noteq> []"
    then obtain e where e: "e \<in> set (il_deferred st')"
      by (meson list.set_sel(1))
    then have "oe_op e \<in> L"
      using retry(1) by (auto simp: tracks_def queued_in_def)
    then have d: "deliverable L rank (oe_op e)"
      using L by (simp add: log_ready_def)
    have "observed_all (il_version st') (idlist_op_version (oe_op e))"
      using d seen unfolding deliverable_def observed_all_def list_all_iff
      by (fastforce simp: observed_def)
    then show False
      using retry(2) e by (auto simp: quiescent_def list_all_iff)
  qed
  ultimately show ?thesis
    using retry(1) seen each by (simp add: tracks_def shows_log_def queued_in_def)
qed

text \<open>So two replicas that get the same log in different orders show the same list.\<close>

corollary delivery_converges:
  assumes "log_ready L rank" "set ops = L" "set ops' = L"
    and "plain x" "plain y" "tracks L x" "tracks L y"
    and "room (length ops) (sum_list (map estimate_idlist_bytes ops)) x"
    and "room (length ops') (sum_list (map estimate_idlist_bytes ops')) y"
  shows "list_ids (fst (apply_ops A ops x)) = list_ids (fst (apply_ops B ops' y))"
proof -
  let ?x = "fst (apply_ops A ops x)" and ?y = "fst (apply_ops B ops' y)"
  have "list_ok ?x \<and> reflects L ?x"
    using delivery_complete [OF assms(1,6,4) _ _ assms(8), where A = A] assms(2) by (metis eq_refl prod.collapse)
  moreover have "list_ok ?y \<and> reflects L ?y"
    using delivery_complete [OF assms(1,7,5) _ _ assms(9), where A = B] assms(3) by (metis eq_refl prod.collapse)
  ultimately show ?thesis
    using reflects_list_ids by blast
qed

end
