(* ===== verification/List_Collection.thy ===== *)
theory List_Collection
  imports List_Convergence
begin

text \<open>
  Certified collection of the list engine: dropping entries that nothing refers to leaves a
  document order, and a reader sees the same list before and after.
\<close>

section \<open>Dropping leaves from a document order\<close>

lemma before_filter: "P a \<Longrightarrow> P b \<Longrightarrow> before (filter P xs) a b \<longleftrightarrow> before xs a b"
  by (induction xs) auto

lemma desc_restrict:
  assumes closed: "\<And>x l p. x \<in> S \<Longrightarrow> L x = Some l \<Longrightarrow> parent l = Some p \<Longrightarrow> p \<in> S"
  shows "x \<in> S \<Longrightarrow> desc (L |` S) x a \<longleftrightarrow> desc L x a"
proof
  assume "x \<in> S" "desc L x a"
  from \<open>desc L x a\<close> \<open>x \<in> S\<close> show "desc (L |` S) x a"
  proof (induction rule: desc.induct)
    case (child x l)
    then show ?case
      by (intro desc.child) simp
  next
    case (deeper x l y a)
    have "y \<in> S"
      using closed [OF deeper.prems deeper.hyps(1,2)] .
    then show ?case
      using deeper.IH deeper.hyps(1,2) deeper.prems by (intro desc.deeper [of _ x l y]) simp_all
  qed
next
  assume "desc (L |` S) x a"
  then show "desc L x a"
  proof (induction rule: desc.induct)
    case (child x l)
    then show ?case
      by (auto simp: restrict_map_def intro: desc.child split: if_splits)
  next
    case (deeper x l y a)
    then show ?case
      by (auto simp: restrict_map_def intro: desc.deeper split: if_splits)
  qed
qed

lemma fugue_restrict:
  assumes f: "fugue L lt" and S: "S \<subseteq> dom L"
    and closed: "\<And>x l i. x \<in> S \<Longrightarrow> L x = Some l \<Longrightarrow> parent l = Some i \<or> right_origin l = Some i \<Longrightarrow> i \<in> S"
  shows "fugue (L |` S) lt"
proof -
  have d: "dom (L |` S) = S"
    using S by auto
  have sub: "in_sub (L |` S) x r \<longleftrightarrow> in_sub L x r" if "x \<in> S" for x r
    using desc_restrict [of S L x "Some r"] closed that unfolding in_sub_def by blast
  have some: "L x = Some l \<and> x \<in> S" if "(L |` S) x = Some l" for x l
    using that by (simp add: restrict_map_def split: if_splits)
  obtain rank where ranked: "links_ranked L rank"
    using fugue_ranked [OF f] by blast
  have "links_ranked (L |` S) rank"
    unfolding links_ranked_def d using some closed links_ranked_parent [OF ranked] links_ranked_origin [OF ranked]
    by metis
  moreover have "strict_order_on S lt"
    using fugue_order [OF f] S unfolding strict_order_on_def by (meson subsetD)
  moreover have "in_sub (L |` S) v r"
    if "v \<in> S" "in_sub (L |` S) u r" "in_sub (L |` S) w r" "lt u v" "lt v w" "u \<in> S" "w \<in> S" for r u v w
  proof -
    have "u \<in> dom L" "v \<in> dom L" "w \<in> dom L"
      using that S by blast+
    then show ?thesis
      using fugue_convex [OF f, of u v w r] that sub by blast
  qed
  ultimately show ?thesis
    unfolding fugue_def d
    using some fugue_side [OF f] fugue_left [OF f] fugue_sibling [OF f]
    by (intro conjI; metis)
qed

lemma map_of_filter_keys:
  "distinct (map fst xs) \<Longrightarrow> map_of (filter (\<lambda>p. P (fst p)) xs) = map_of xs |` {k. P k}"
  by (induction xs) (auto simp: restrict_map_def fun_eq_iff)

lemma map_nth_filter: "map ((!) xs) (filter (\<lambda>k. P (xs ! k)) [0..<length xs]) = filter P xs"
  using filter_map [of P "(!) xs" "[0..<length xs]"] by (simp add: map_nth comp_def)

lemma runs_ok_filter:
  assumes ok: "runs_ok entry_ops es"
    and closed: "\<And>e i. e \<in> set es \<Longrightarrow> P (le_origin e) \<Longrightarrow>
      parent (le_link e) = Some i \<or> right_origin (le_link e) = Some i \<Longrightarrow> P i"
  shows "runs_ok entry_ops (filter (\<lambda>e. P (le_origin e)) es)"
proof -
  let ?fs = "filter (\<lambda>e. P (le_origin e)) es" and ?L = "links entry_ops es"
  let ?S = "{i. P i \<and> i \<in> dom ?L}"
  have d: "distinct (map le_origin es)" and f: "fugue ?L (before (map le_origin es))"
    using ok by (simp_all add: runs_ok_def)
  have dist: "distinct (map fst (items entry_ops es))"
    using d by (simp add: comp_def)
  have "items entry_ops ?fs = filter (\<lambda>p. P (fst p)) (items entry_ops es)"
    by (simp add: filter_map comp_def)
  then have "links entry_ops ?fs = ?L |` {i. P i}"
    using map_of_filter_keys [OF dist] by simp
  also have "\<dots> = ?L |` ?S"
    by (auto simp: restrict_map_def fun_eq_iff domIff)
  finally have L: "links entry_ops ?fs = ?L |` ?S" .
  obtain rank where ranked: "links_ranked ?L rank"
    using fugue_ranked [OF f] by blast
  have closedS: "i \<in> ?S" if "x \<in> ?S" "?L x = Some l" "parent l = Some i \<or> right_origin l = Some i" for x l i
  proof -
    have "(x, l) \<in> set (items entry_ops es)"
      using that(2) by (rule map_of_SomeD)
    then obtain e where "e \<in> set es" "x = le_origin e" "l = le_link e"
      by auto
    then have "P i"
      using closed [of e i] that by blast
    moreover have "i \<in> dom ?L"
      using links_ranked_parent [OF ranked that(2)] links_ranked_origin [OF ranked that(2)] that(3) by blast
    ultimately show ?thesis
      by simp
  qed
  have "?S \<subseteq> dom ?L"
    by blast
  from fugue_restrict [OF f this closedS] have "fugue (?L |` ?S) (before (map le_origin es))" .
  then have "fugue (?L |` ?S) (before (map le_origin ?fs))"
  proof (rule fugue_cong_imp)
    fix a b
    assume "a \<in> dom (?L |` ?S)" "b \<in> dom (?L |` ?S)"
    then have "P a" "P b"
      by auto
    then show "before (map le_origin es) a b \<longleftrightarrow> before (map le_origin ?fs) a b"
      using before_filter [of P a b "map le_origin es"] by (simp add: filter_map comp_def)
  qed
  then show ?thesis
    using d L by (simp add: runs_ok_def distinct_map_filter)
qed

section \<open>Collection\<close>

text \<open>The identities an entry answers to: its own and those of its deletions.\<close>

definition entry_names :: "list_entry \<Rightarrow> identity set" where
  "entry_names e = insert (le_origin e) (set (le_deletions e))"

definition names_apart :: "list_entry list \<Rightarrow> bool" where
  "names_apart es \<longleftrightarrow>
     (\<forall>e \<in> set es. \<forall>f \<in> set es. le_origin e \<noteq> le_origin f \<longrightarrow> entry_names e \<inter> entry_names f = {})"

definition collected :: "'al id_list \<Rightarrow> identity set \<Rightarrow> identity set" where
  "collected st pinned =
     {le_origin (il_entries st ! k) |k. k < length (il_entries st) \<and> reclaimable st pinned k}"

lemma undo_count_filter:
  assumes "undo_ok m" "undo_restore (filter (\<lambda>u. \<not> Q (ue_edit u)) m) = Ok n" "\<not> Q i"
  shows "undo_count n i = undo_count m i"
proof -
  have n: "n = filter (\<lambda>u. \<not> Q (ue_edit u)) m" "undo_ok n"
    using undo_restore_iff [THEN iffD1, OF assms(2)] undo_restore_ok [OF assms(2)] by simp_all
  have "{e \<in> set n. ue_edit e = i} = {e \<in> set m. ue_edit e = i}"
    using n(1) assms(3) by auto
  then show ?thesis
    using undo_count_spec [OF assms(1)] undo_count_spec [OF n(2)] by simp
qed

text \<open>What a collection that finds something does.\<close>

lemma collect_result:
  assumes ok: "list_ok st" and r: "collect_garbage pinned st = (st', Ok n)" and n: "n \<noteq> 0"
  defines "C \<equiv> collected st pinned"
  obtains m where "undo_restore (filter (\<lambda>u. \<not> (\<exists>e \<in> set (il_entries st). le_origin e \<in> C \<and> ue_edit u \<in> entry_names e))
      (il_undo_map st)) = Ok m"
    "st' = st\<lparr>il_undo_map := m,
        il_entries := map (refresh_visible m) (filter (\<lambda>e. le_origin e \<notin> C) (il_entries st))\<rparr>"
proof -
  let ?es = "il_entries st"
  define removed where "removed = filter (reclaimable st pinned) [0..<length ?es]"
  define target where "target = (\<lambda>i. list_ex (\<lambda>k. le_origin (?es ! k) = i \<or> i \<in> set (le_deletions (?es ! k))) removed)"
  have d: "distinct (map le_origin ?es)"
    using ok runs_ok_distinct [of entry_ops ?es] by (simp add: list_ok_def)
  have rem: "k \<in> set removed \<longleftrightarrow> k < length ?es \<and> reclaimable st pinned k" for k
    by (auto simp: removed_def)
  have inC: "k \<in> set removed \<longleftrightarrow> le_origin (?es ! k) \<in> C" if "k < length ?es" for k
    using that d rem by (auto simp: C_def collected_def distinct_conv_nth)
  obtain m where m: "undo_restore (filter (\<lambda>u. \<not> target (ue_edit u)) (il_undo_map st)) = Ok m"
    and st': "st' = st\<lparr>il_undo_map := m, il_entries := map (refresh_visible m)
      (map ((!) ?es) (filter (\<lambda>k. k \<notin> set removed) [0..<length ?es]))\<rparr>"
    using r n unfolding collect_garbage_def Let_def removed_def [symmetric]
    by (auto simp: target_def split: if_splits sum.splits)
  have "filter (\<lambda>k. k \<notin> set removed) [0..<length ?es] = filter (\<lambda>k. le_origin (?es ! k) \<notin> C) [0..<length ?es]"
    by (rule filter_cong) (auto simp: inC)
  then have kept: "map ((!) ?es) (filter (\<lambda>k. k \<notin> set removed) [0..<length ?es]) = filter (\<lambda>e. le_origin e \<notin> C) ?es"
    using map_nth_filter [of ?es "\<lambda>e. le_origin e \<notin> C"] by simp
  have "target i \<longleftrightarrow> (\<exists>e \<in> set ?es. le_origin e \<in> C \<and> i \<in> entry_names e)" for i
  proof -
    have "target i \<longleftrightarrow> (\<exists>k < length ?es. le_origin (?es ! k) \<in> C \<and> i \<in> entry_names (?es ! k))"
      using inC rem by (auto simp: target_def list_ex_iff entry_names_def)
    also have "\<dots> \<longleftrightarrow> (\<exists>e \<in> set ?es. le_origin e \<in> C \<and> i \<in> entry_names e)"
      by (metis in_set_conv_nth)
    finally show ?thesis .
  qed
  then show thesis
    using that [of m] m st' unfolding kept by simp
qed

lemma collected_unreferenced:
  assumes "e \<in> set (il_entries st)" "le_origin e \<notin> collected st pinned"
    and "parent (le_link e) = Some i \<or> right_origin (le_link e) = Some i"
  shows "i \<notin> collected st pinned"
proof
  let ?es = "il_entries st"
  assume "i \<in> collected st pinned"
  then obtain k where k: "k < length ?es" "reclaimable st pinned k" "i = le_origin (?es ! k)"
    by (auto simp: collected_def)
  obtain j where j: "j < length ?es" "e = ?es ! j"
    using assms(1) by (auto simp: in_set_conv_nth)
  have "k \<noteq> j"
    using assms(2) k j by (auto simp: collected_def)
  then have "referenced_by_other ?es k"
    using j k assms(3) by (auto simp: referenced_by_other_def list_ex_iff)
  then show False
    using k(2) by (simp add: reclaimable_def Let_def)
qed

lemma collected_invisible: "le_origin e \<in> collected st pinned \<Longrightarrow> distinct (map le_origin (il_entries st)) \<Longrightarrow>
    e \<in> set (il_entries st) \<Longrightarrow> \<not> le_visible e"
proof -
  let ?es = "il_entries st"
  assume a: "le_origin e \<in> collected st pinned" "distinct (map le_origin ?es)" "e \<in> set ?es"
  then obtain k where k: "k < length ?es" "reclaimable st pinned k" "le_origin e = le_origin (?es ! k)"
    by (auto simp: collected_def)
  then have "e = ?es ! k"
    using a(2,3) by (auto simp: distinct_map dest: inj_onD)
  then show ?thesis
    using k(2) by (simp add: reclaimable_def Let_def)
qed

theorem collect_garbage_correct:
  assumes ok: "list_ok st" and apart: "names_apart (il_entries st)"
    and r: "collect_garbage pinned st = (st', Ok n)"
  shows "list_ok st' \<and> list_ids st' = list_ids st \<and>
    (n \<noteq> 0 \<longrightarrow> il_entries st' = filter (\<lambda>e. le_origin e \<notin> collected st pinned) (il_entries st))"
proof (cases "n = 0")
  case True
  then have "st' = st"
    using r by (auto simp: collect_garbage_def Let_def split: if_splits sum.splits)
  then show ?thesis
    using ok True by simp
next
  case False
  let ?es = "il_entries st" and ?C = "collected st pinned"
  let ?kept = "filter (\<lambda>e. le_origin e \<notin> ?C) ?es"
  obtain m where m: "undo_restore (filter (\<lambda>u. \<not> (\<exists>e \<in> set ?es. le_origin e \<in> ?C \<and> ue_edit u \<in> entry_names e))
      (il_undo_map st)) = Ok m"
    and st': "st' = st\<lparr>il_undo_map := m, il_entries := map (refresh_visible m) ?kept\<rparr>"
    using collect_result [OF ok r False] by blast
  have rok: "runs_ok entry_ops ?es" and um: "undo_ok (il_undo_map st)"
    and flags: "\<And>e. e \<in> set ?es \<Longrightarrow> le_visible e = compute_visible e (il_undo_map st)"
    using ok by (auto simp: list_ok_def flags_ok_def list_all_iff)
  have d: "distinct (map le_origin ?es)"
    using runs_ok_distinct [OF rok] by simp
  have count: "is_undone m i = is_undone (il_undo_map st) i" if "e \<in> set ?kept" "i \<in> entry_names e" for e i
  proof -
    have "\<not> (\<exists>f \<in> set ?es. le_origin f \<in> ?C \<and> i \<in> entry_names f)"
      using that apart unfolding names_apart_def by fastforce
    then show ?thesis
      using undo_count_filter [OF um m] by (simp add: is_undone_def)
  qed
  have same: "refresh_visible m e = e" if "e \<in> set ?kept" for e
  proof -
    have "compute_visible e m = compute_visible e (il_undo_map st)"
      using count [OF that] by (auto simp: compute_visible_def entry_names_def list_all_iff)
    then show ?thesis
      using flags that by (simp add: refresh_visible_def)
  qed
  have "map (refresh_visible m) ?kept = ?kept"
    by (rule map_idI) (rule same)
  then have ents: "il_entries st' = ?kept"
    by (simp add: st')
  have "runs_ok entry_ops ?kept"
    using runs_ok_filter [OF rok, of "\<lambda>i. i \<notin> ?C"] collected_unreferenced by metis
  moreover have "queue_ok st' = queue_ok st" "history_ok st' = history_ok st"
    by (simp_all add: st' queue_ok_def history_ok_def)
  moreover have "list_all (entry_ok (il_version st)) ?kept"
    using ok by (auto simp: list_ok_def list_all_iff)
  moreover have "flags_ok m ?kept"
    using same unfolding flags_ok_def list_all_iff by (metis refresh_simps(5))
  ultimately have "list_ok st'"
    using ok ents undo_restore_ok [OF m] by (simp add: list_ok_def st')
  moreover have "filter le_visible ?kept = filter le_visible ?es"
    using collected_invisible [OF _ d] by (auto simp: filter_filter intro: filter_cong)
  ultimately show ?thesis
    using ents by (simp add: list_ids_def visible_entries_def)
qed

text \<open>A refused collection changes nothing.\<close>

lemma collect_refused: "collect_garbage pinned st = (st', Err e) \<Longrightarrow> st' = st"
  by (auto simp: collect_garbage_def Let_def split: if_splits sum.splits)

text \<open>A replica that tracks a log has its names apart: each operation has its own identity.\<close>

lemma tracks_names_apart:
  assumes L: "op_log L" and t: "tracks L st"
  shows "names_apart (il_entries st)"
  unfolding names_apart_def
proof (intro ballI impI)
  fix e f
  assume e: "e \<in> set (il_entries st)" and f: "f \<in> set (il_entries st)" and ne: "le_origin e \<noteq> le_origin f"
  let ?S = "covered_ops (il_version st) L"
  have r: "reflects ?S st"
    using t by (simp add: tracks_def shows_log_def)
  have sub: "?S \<subseteq> L"
    by (auto simp: covered_ops_def)
  have inj: "x = y" if "x \<in> L" "y \<in> L" "idlist_op_identity x = idlist_op_identity y" for x y
    using L that by (auto simp: op_log_def dest: inj_onD)
  have ins: "\<exists>x. ListInsert x \<in> L \<and> li_timestamp x = le_origin g" if "g \<in> set (il_entries st)" for g
  proof -
    have "entry_item g \<in> \<Union> (op_items ` ?S)"
      using r that by (auto simp: reflects_def)
    then obtain x where "x \<in> L" "entry_item g \<in> op_items x"
      using sub by (meson UN_E subsetD)
    then show ?thesis
      by (cases x) (auto simp: op_items_def)
  qed
  have del: "\<exists>x. ListRemove x \<in> L \<and> lr_timestamp x = d \<and> lr_target_origin x = le_origin g"
    if "g \<in> set (il_entries st)" "d \<in> set (le_deletions g)" for g d
  proof -
    have "(le_origin g, d) \<in> entry_deletions (il_entries st)"
      using that by (auto simp: entry_deletions_def)
    then have "(le_origin g, d) \<in> \<Union> (op_deletions ` ?S)"
      using r by (simp add: reflects_def)
    then obtain x where "x \<in> L" "(le_origin g, d) \<in> op_deletions x"
      using sub by (meson UN_E subsetD)
    then show ?thesis
      by (cases x) (auto simp: op_deletions_def)
  qed
  have cross: False if "g \<in> set (il_entries st)" "h \<in> set (il_entries st)" "le_origin g \<in> set (le_deletions h)" for g h
  proof -
    note gh = ins [OF that(1)] del [OF that(2,3)]
    obtain x y where "ListInsert x \<in> L" "li_timestamp x = le_origin g" "ListRemove y \<in> L" "lr_timestamp y = le_origin g"
      using gh by blast
    then show False
      using inj [of "ListInsert x" "ListRemove y"] by (simp add: idlist_op_identity_def)
  qed
  have "set (le_deletions e) \<inter> set (le_deletions f) = {}"
  proof (rule ccontr)
    assume "\<not> ?thesis"
    then obtain d where "d \<in> set (le_deletions e)" "d \<in> set (le_deletions f)"
      by blast
    then obtain x y where "ListRemove x \<in> L" "lr_timestamp x = d" "lr_target_origin x = le_origin e"
      "ListRemove y \<in> L" "lr_timestamp y = d" "lr_target_origin y = le_origin f"
      using del e f by blast
    then show False
      using inj [of "ListRemove x" "ListRemove y"] ne by (simp add: idlist_op_identity_def)
  qed
  then show "entry_names e \<inter> entry_names f = {}"
    using ne cross [OF e f] cross [OF f e] by (auto simp: entry_names_def)
qed

end
