(* ===== verification/List_Checkpoint.thy ===== *)
theory List_Checkpoint
  imports List_History
begin

text \<open>
  Checkpoints of the list engine: what restores is a well-formed list with the same content, and
  a refused checkpoint changes nothing.
\<close>

lemma check_entries_Ok:
  "check_entries v gaps seen es = Ok () \<longleftrightarrow>
     distinct (map le_origin es) \<and> le_origin ` set es \<inter> set seen = {} \<and> list_all (checked_entry v gaps) es"
  by (induction es arbitrary: seen) auto

lemma check_deferred_Ok:
  assumes "check_deferred v gaps b seen n es = Ok (seen', bytes)"
  shows "bytes = n + sum_list (map (\<lambda>e. estimate_idlist_bytes (oe_op e)) es) \<and>
    list_all (\<lambda>e. oe_timestamp e = idlist_op_identity (oe_op e) \<and> op_ok (oe_op e)) es"
  using assms
proof (induction es arbitrary: seen n)
  case Nil
  then show ?case by simp
next
  case (Cons e es)
  have "validate_idlist_operation (oe_op e) v = Valid \<or> (\<exists>i. validate_idlist_operation (oe_op e) v = Defer i)"
    using Cons.prems by (cases "validate_idlist_operation (oe_op e) v") (auto simp: Let_def split: if_splits)
  then have op: "op_ok (oe_op e)"
    using validated_op_ok by blast
  obtain s where rest: "check_deferred v gaps b s (n + estimate_idlist_bytes (oe_op e)) es = Ok (seen', bytes)"
    and ts: "oe_timestamp e = idlist_op_identity (oe_op e)"
    using Cons.prems by (auto simp: Let_def split: if_splits validation_result.splits)
  show ?case
    using Cons.IH [OF rest] op ts by simp
qed

lemma check_quarantined_Ok:
  "check_quarantined v gaps b seen n es = Ok bytes \<Longrightarrow>
     bytes = n + sum_list (map (\<lambda>q. estimate_idlist_bytes (fst q)) es)"
  by (induction v gaps b seen n es rule: check_quarantined.induct) (auto simp: Let_def split: if_splits)

text \<open>The state a checkpoint describes, before the local history is put back.\<close>

definition rebuilt ::
  "list_checkpoint \<Rightarrow> gap_ledger \<Rightarrow> nat \<Rightarrow> nat \<Rightarrow> 'al id_list \<Rightarrow> 'al id_list" where
  "rebuilt snap gaps deferred_bytes quarantine_bytes st =
     set_entries (ck_entries snap)
       ((new_id_list (il_alloc st))
          \<lparr>il_gaps := gaps, il_deferred_budget := il_deferred_budget st,
           il_quarantine_budget := il_quarantine_budget st,
           il_max_depth := il_max_depth st, il_max_bytes := il_max_bytes st,
           il_reclamation := ck_reclamation snap, il_undo_map := ck_undo_entries snap,
           il_version := ck_version snap, il_deferred := ck_deferred snap,
           il_deferred_count := length (ck_deferred snap), il_deferred_bytes := deferred_bytes,
           il_quarantined := ck_quarantined snap, il_quarantined_bytes := quarantine_bytes\<rparr>)"

lemma restore_Ok:
  assumes "restore_checkpoint_state A snap st = (st', Ok ())"
  obtains gaps seen db qb re where
    "gap_restore (ck_gaps snap) (ck_version snap) = Ok gaps"
    "undo_restore (ck_undo_entries snap) = Ok (ck_undo_entries snap)"
    "check_entries (ck_version snap) gaps [] (ck_entries snap) = Ok ()"
    "check_consistency entry_ops (ck_entries snap) = None"
    "check_deferred (ck_version snap) gaps (il_deferred_budget st) [] 0 (ck_deferred snap) = Ok (seen, db)"
    "check_quarantined (ck_version snap) gaps (il_quarantine_budget st) seen 0 (ck_quarantined snap) = Ok qb"
    "restore_local_history A (local_history_snapshot st) (rebuilt snap gaps db qb st) = (re, Ok ())"
    "st' = re\<lparr>il_log := il_log st\<rparr>"
proof -
  obtain gaps um where g: "gap_restore (ck_gaps snap) (ck_version snap) = Ok gaps"
    "undo_restore (ck_undo_entries snap) = Ok um"
    using assms by (auto simp: restore_checkpoint_state_def Let_def split: if_splits sum.splits)
  have um: "um = ck_undo_entries snap"
    using undo_restore_iff [THEN iffD1, OF g(2)] by simp
  have rest: "check_entries (ck_version snap) gaps [] (ck_entries snap) = Ok ()"
    "check_consistency entry_ops (ck_entries snap) = None"
    "\<exists>p. check_deferred (ck_version snap) gaps (il_deferred_budget st) [] 0 (ck_deferred snap) = Inr p"
    using assms g by (auto simp: restore_checkpoint_state_def Let_def split: if_splits sum.splits)
  then obtain seen db where d:
    "check_deferred (ck_version snap) gaps (il_deferred_budget st) [] 0 (ck_deferred snap) = Ok (seen, db)"
    by auto
  obtain qb where q:
    "check_quarantined (ck_version snap) gaps (il_quarantine_budget st) seen 0 (ck_quarantined snap) = Ok qb"
    using assms g rest(1) d by (auto simp: restore_checkpoint_state_def Let_def split: if_splits sum.splits)
  have "\<exists>re. restore_local_history A (local_history_snapshot st) (rebuilt snap gaps db qb st) = (re, Ok ()) \<and>
      st' = re\<lparr>il_log := il_log st\<rparr>"
    using assms g rest(1) d q
    by (auto simp: restore_checkpoint_state_def Let_def rebuilt_def um split: if_splits sum.splits prod.splits)
  then show thesis
    using that g d q rest um by blast
qed

lemma restore_refused: "restore_checkpoint_state A snap st = (st', Err e) \<Longrightarrow> st' = st"
  by (auto simp: restore_checkpoint_state_def Let_def split: if_splits sum.splits prod.splits)

text \<open>
  A checkpoint is of a document when its entries are a document order (the consistency check of
  the code is necessary for that, not sufficient) and its version is a canonical one.
\<close>

theorem restore_list_ok:
  assumes max: "il_max_bytes st \<le> U64_MAX" and r: "restore_checkpoint_state A snap st = (st', Ok ())"
    and doc: "runs_ok entry_ops (ck_entries snap)" "global_ok (ck_version snap)"
  shows "list_ok st'" "local_history_snapshot st' = local_history_snapshot st" "il_alloc st' = il_alloc st"
    "checkpoint_state st' = snap\<lparr>ck_entries := map (refresh_visible (ck_undo_entries snap)) (ck_entries snap)\<rparr>"
proof -
  obtain gaps seen db qb re where g: "gap_restore (ck_gaps snap) (ck_version snap) = Ok gaps"
    and u: "undo_restore (ck_undo_entries snap) = Ok (ck_undo_entries snap)"
    and e: "check_entries (ck_version snap) gaps [] (ck_entries snap) = Ok ()"
    and d: "check_deferred (ck_version snap) gaps (il_deferred_budget st) [] 0 (ck_deferred snap) = Ok (seen, db)"
    and q: "check_quarantined (ck_version snap) gaps (il_quarantine_budget st) seen 0 (ck_quarantined snap) = Ok qb"
    and h: "restore_local_history A (local_history_snapshot st) (rebuilt snap gaps db qb st) = (re, Ok ())"
    and st': "st' = re\<lparr>il_log := il_log st\<rparr>"
    using restore_Ok [OF r] by metis
  let ?b = "rebuilt snap gaps db qb st"
  have b: "il_version ?b = ck_version snap" "il_gaps ?b = gaps" "il_undo_map ?b = ck_undo_entries snap"
    "il_entries ?b = map (refresh_visible (ck_undo_entries snap)) (ck_entries snap)"
    "il_deferred ?b = ck_deferred snap" "il_deferred_count ?b = length (ck_deferred snap)"
    "il_deferred_bytes ?b = db" "il_quarantined ?b = ck_quarantined snap" "il_quarantined_bytes ?b = qb"
    "il_max_bytes ?b = il_max_bytes st" "il_alloc ?b = il_alloc st" "il_reclamation ?b = ck_reclamation snap"
    by (simp_all add: rebuilt_def set_entries_def new_id_list_def)
  have "il_max_bytes ?b \<le> U64_MAX"
    using max b by simp
  note hist = restore_local_history_ok [OF this h]
  note only = hist(2) [unfolded history_only_def b]
  have gl: "gl_records gaps = ck_gaps snap" "ledger_ok gaps (ck_version snap)"
    using g gap_restore_iff by blast+
  have "observed (ck_version snap) i" if "observed_identity (ck_version snap) gaps i" for i
    using that by (simp add: observed_identity_def)
  then have "list_all (entry_ok (ck_version snap)) (ck_entries snap)"
    using e by (auto simp: check_entries_Ok checked_entry_def entry_ok_def list_all_iff)
  moreover have "queue_ok re"
    using only check_deferred_Ok [OF d] check_quarantined_Ok [OF q] by (simp add: queue_ok_def)
  moreover have "undo_ok (ck_undo_entries snap)"
    using undo_restore_ok [OF u] .
  ultimately have "list_ok re"
    using doc gl hist(1) only by (simp add: list_ok_def list_all_iff)
  moreover have "queue_ok st' = queue_ok re" "history_ok st' = history_ok re"
    by (simp_all add: st' queue_ok_def history_ok_def)
  ultimately show "list_ok st'"
    by (simp add: list_ok_def st')
  show "local_history_snapshot st' = local_history_snapshot st"
    using hist(4) by (simp add: st' local_history_snapshot_def)
  show "il_alloc st' = il_alloc st"
    using only by (simp add: st')
  show "checkpoint_state st' = snap\<lparr>ck_entries := map (refresh_visible (ck_undo_entries snap)) (ck_entries snap)\<rparr>"
    using only gl(1) by (cases snap) (simp add: checkpoint_state_def st')
qed

text \<open>What comes back is what was saved.\<close>

theorem restore_roundtrip:
  assumes ok: "list_ok st0" "list_ok st"
    and r: "restore_checkpoint_state A (checkpoint_state st0) st = (st', Ok ())"
  shows "list_ok st'" "checkpoint_state st' = checkpoint_state st0" "list_ids st' = list_ids st0"
    "local_history_snapshot st' = local_history_snapshot st" "il_alloc st' = il_alloc st"
proof -
  let ?snap = "checkpoint_state st0"
  have doc: "runs_ok entry_ops (ck_entries ?snap)" "global_ok (ck_version ?snap)" and max: "il_max_bytes st \<le> U64_MAX"
    using ok by (simp_all add: list_ok_def history_ok_def checkpoint_state_def)
  note res = restore_list_ok [OF max r doc]
  show "list_ok st'" "local_history_snapshot st' = local_history_snapshot st" "il_alloc st' = il_alloc st"
    using res by simp_all
  have "flags_ok (il_undo_map st0) (il_entries st0)"
    using ok(1) by (simp add: list_ok_def)
  then have "map (refresh_visible (il_undo_map st0)) (il_entries st0) = il_entries st0"
    by (intro map_idI) (auto simp: flags_ok_def list_all_iff refresh_visible_def)
  then show same: "checkpoint_state st' = checkpoint_state st0"
    using res(4) by (simp add: checkpoint_state_def)
  then show "list_ids st' = list_ids st0"
    by (simp add: checkpoint_state_def list_ids_def visible_entries_def)
qed

end
