(* ===== verification/Utf_Offsets.thy ===== *)
theory Utf_Offsets
  imports Utf_Codec
begin

text \<open>
  The offset scans of \<open>Utf16.h\<close> on valid text: a boundary between two scalars has the byte
  offset and the UTF-16 offset of the text before it, and the two scans turn one into the other.
\<close>

unbundle bit_operations_syntax

section \<open>Widths of a lead byte\<close>

lemma and_high_bits:
  "b AND 0xE0 = 32 * (b div 32 mod 8)" "b AND 0xF0 = 16 * (b div 16 mod 16)"
  "b AND 0xF8 = 8 * (b div 8 mod 32)" for b :: nat
  using and_push_bit [of b 5 7] and_push_bit [of b 4 15] and_push_bit [of b 3 31]
    take_bit_eq_mask [of 3 "drop_bit 5 b"] take_bit_eq_mask [of 4 "drop_bit 4 b"]
    take_bit_eq_mask [of 5 "drop_bit 3 b"]
  by (simp_all add: push_bit_eq_mult drop_bit_eq_div take_bit_eq_mod mask_eq_exp_minus_1)

lemma lead_widths_cases:
  "b < 128 \<Longrightarrow> lead_widths b = (1, 1)" "192 \<le> b \<Longrightarrow> b < 224 \<Longrightarrow> lead_widths b = (2, 1)"
  "224 \<le> b \<Longrightarrow> b < 240 \<Longrightarrow> lead_widths b = (3, 1)" "240 \<le> b \<Longrightarrow> b < 248 \<Longrightarrow> lead_widths b = (4, 2)"
proof -
  show "b < 128 \<Longrightarrow> lead_widths b = (1, 1)"
    by (simp add: lead_widths_def)
  show "192 \<le> b \<Longrightarrow> b < 224 \<Longrightarrow> lead_widths b = (2, 1)"
    using div_nat_eqI [of 32 6 b] by (simp add: lead_widths_def and_high_bits)
  show "224 \<le> b \<Longrightarrow> b < 240 \<Longrightarrow> lead_widths b = (3, 1)"
    using div_nat_eqI [of 32 7 b] div_nat_eqI [of 16 14 b] by (simp add: lead_widths_def and_high_bits)
  show "240 \<le> b \<Longrightarrow> b < 248 \<Longrightarrow> lead_widths b = (4, 2)"
    using div_nat_eqI [of 32 7 b] div_nat_eqI [of 16 15 b] div_nat_eqI [of 8 30 b]
    by (simp add: lead_widths_def and_high_bits)
qed

definition scalar_width :: "nat \<Rightarrow> nat" where
  "scalar_width v = length (scalar_nats v)"

definition unit_width :: "nat \<Rightarrow> nat" where
  "unit_width v = (if v < 0x10000 then 1 else 2)"

text \<open>The first byte of a scalar's encoding.\<close>

definition lead_of :: "nat \<Rightarrow> nat" where
  "lead_of v = hd (scalar_nats v)"

lemma lead_bounds:
  assumes "is_scalar v"
  shows "scalar_width v = 1 \<Longrightarrow> lead_of v < 128" "scalar_width v = 2 \<Longrightarrow> 192 \<le> lead_of v \<and> lead_of v < 224"
    "scalar_width v = 3 \<Longrightarrow> 224 \<le> lead_of v \<and> lead_of v < 240"
    "scalar_width v = 4 \<Longrightarrow> 240 \<le> lead_of v \<and> lead_of v < 245"
    "scalar_width v \<in> {1, 2, 3, 4}" "unit_width v = (if scalar_width v = 4 then 2 else 1)"
proof -
  have b: "v < 2048 \<Longrightarrow> v div 64 < 32" "v < 65536 \<Longrightarrow> v div 4096 < 16" "v div 262144 < 5"
    using is_scalarD(1) [OF assms] by (simp_all add: less_mult_imp_div_less)
  then show "scalar_width v = 1 \<Longrightarrow> lead_of v < 128" "scalar_width v = 2 \<Longrightarrow> 192 \<le> lead_of v \<and> lead_of v < 224"
    "scalar_width v = 3 \<Longrightarrow> 224 \<le> lead_of v \<and> lead_of v < 240"
    "scalar_width v = 4 \<Longrightarrow> 240 \<le> lead_of v \<and> lead_of v < 245"
    "scalar_width v \<in> {1, 2, 3, 4}" "unit_width v = (if scalar_width v = 4 then 2 else 1)"
    by (auto simp: scalar_width_def lead_of_def scalar_nats_def unit_width_def split: if_splits)
qed

lemma lead_byte:
  assumes "is_scalar v"
  shows "byte_at (us @ scalar_bytes v @ ws) (length us) = lead_of v"
proof -
  have ne: "scalar_nats v \<noteq> []"
    by (simp add: scalar_nats_def)
  have "lead_of v < 256"
    using lead_bounds [OF assms] by fastforce
  then show ?thesis
    using scalar_byte_at [of 0 v us ws] ne by (simp add: lead_of_def hd_conv_nth)
qed

lemma lead_widths_scalar: "is_scalar v \<Longrightarrow> lead_widths (lead_of v) = (scalar_width v, unit_width v)"
  using lead_bounds [of v] lead_widths_cases [of "lead_of v"] by fastforce

section \<open>The scans\<close>

abbreviation units_of :: "nat list \<Rightarrow> nat" where
  "units_of vs \<equiv> sum_list (map unit_width vs)"

lemma length_encode: "length (encode_scalars vs) = sum_list (map scalar_width vs)"
  by (induction vs) (simp_all add: encode_scalars_def scalar_width_def length_scalar_bytes)

lemma encode_simps:
  "encode_scalars [] = []" "encode_scalars (v # vs) = scalar_bytes v @ encode_scalars vs"
  "encode_scalars (us @ vs) = encode_scalars us @ encode_scalars vs"
  by (simp_all add: encode_scalars_def)

lemma length_scalar_width: "length (scalar_bytes v) = scalar_width v"
  by (simp add: scalar_width_def length_scalar_bytes)

lemma width_pos: "0 < scalar_width v" "0 < unit_width v"
  by (simp_all add: scalar_width_def scalar_nats_def unit_width_def)

text \<open>Both scans, started at a boundary, stop at the boundary that is asked for.\<close>

lemma utf16_to_byte_loop_prefix:
  "list_all is_scalar (vs @ ws) \<Longrightarrow>
     utf16_to_byte_loop (us @ encode_scalars (vs @ ws)) (u + units_of vs) u (length us) =
       length us + length (encode_scalars vs)"
proof (induction vs arbitrary: us u)
  case Nil
  show ?case
    by (subst utf16_to_byte_loop.simps) (simp add: encode_simps)
next
  case (Cons v vs)
  have v: "is_scalar v" and rest: "list_all is_scalar (vs @ ws)"
    using Cons.prems by simp_all
  let ?in = "us @ scalar_bytes v @ encode_scalars (vs @ ws)"
  have "utf16_to_byte_loop ?in (u + unit_width v + units_of vs) u (length us) =
      utf16_to_byte_loop ?in (u + unit_width v + units_of vs) (u + unit_width v) (length us + scalar_width v)"
    using width_pos [of v]
    by (subst utf16_to_byte_loop.simps)
      (simp add: lead_byte [OF v] lead_widths_scalar [OF v] length_scalar_width)
  then show ?case
    using Cons.IH [OF rest, of "us @ scalar_bytes v" "u + unit_width v"]
    by (simp add: encode_simps length_scalar_width add.assoc)
qed

lemma byte_to_utf16_loop_prefix:
  "list_all is_scalar (vs @ ws) \<Longrightarrow>
     byte_to_utf16_loop (us @ encode_scalars (vs @ ws)) (length us + length (encode_scalars vs)) u (length us) =
       u + units_of vs"
proof (induction vs arbitrary: us u)
  case Nil
  show ?case
    by (subst byte_to_utf16_loop.simps) (simp add: encode_simps)
next
  case (Cons v vs)
  have v: "is_scalar v" and rest: "list_all is_scalar (vs @ ws)"
    using Cons.prems by simp_all
  let ?in = "us @ scalar_bytes v @ encode_scalars (vs @ ws)"
  let ?to = "length us + (scalar_width v + length (encode_scalars vs))"
  have "byte_to_utf16_loop ?in ?to u (length us) =
      byte_to_utf16_loop ?in ?to (u + unit_width v) (length us + scalar_width v)"
    using width_pos [of v]
    by (subst byte_to_utf16_loop.simps)
      (simp add: lead_byte [OF v] lead_widths_scalar [OF v] length_scalar_width)
  then show ?case
    using Cons.IH [OF rest, of "us @ scalar_bytes v" "u + unit_width v"]
    by (simp add: encode_simps length_scalar_width add.assoc)
qed

theorem utf16_offset_boundary:
  assumes "list_all is_scalar (vs @ ws)"
  shows "utf16_to_byte_offset (encode_scalars (vs @ ws)) (units_of vs) = length (encode_scalars vs)"
    "byte_to_utf16_offset (encode_scalars (vs @ ws)) (length (encode_scalars vs)) = units_of vs"
  using utf16_to_byte_loop_prefix [OF assms, of "[]" 0] byte_to_utf16_loop_prefix [OF assms, of "[]" 0]
  by (simp_all add: utf16_to_byte_offset_def byte_to_utf16_offset_def)

end
