(* ===== verification/Fragments.thy ===== *)
theory Fragments
  imports Utf_Offsets Undo_Map Placement_Correct
begin

text \<open>
  The text runs of the buffer (\<open>crdt/Fragment.h\<close>): a run of characters of one insertion with its
  placement, its text, and an index of UTF-16 checkpoints. Lengths and offsets are natural
  numbers; \<open>static_cast<uint32_t>\<close> is \<open>u32\<close>, and text stays below \<open>2 ^ 32\<close> bytes, which the
  cached widths need. The main facts: a split cuts the text at a scalar boundary and keeps items,
  summaries and index; a lookup through the index gives what a scan from the start gives.
\<close>

unbundle bit_operations_syntax

section \<open>Summaries and dimensions\<close>

record fragment_summary =
  fs_visible_bytes :: nat
  fs_retained_runs :: nat
  fs_deleted_bytes :: nat
  fs_visible_utf16 :: nat

definition summary_zero :: fragment_summary where
  "summary_zero = \<lparr>fs_visible_bytes = 0, fs_retained_runs = 0, fs_deleted_bytes = 0, fs_visible_utf16 = 0\<rparr>"

definition summary_add :: "fragment_summary \<Rightarrow> fragment_summary \<Rightarrow> fragment_summary" where
  "summary_add s t =
     \<lparr>fs_visible_bytes = u64 (fs_visible_bytes s + fs_visible_bytes t),
      fs_retained_runs = u64 (fs_retained_runs s + fs_retained_runs t),
      fs_deleted_bytes = u32 (fs_deleted_bytes s + fs_deleted_bytes t),
      fs_visible_utf16 = u32 (fs_visible_utf16 s + fs_visible_utf16 t)\<rparr>"

text \<open>The dimensions a seek accumulates.\<close>

definition visible_offset_add :: "nat \<Rightarrow> fragment_summary \<Rightarrow> nat" where
  "visible_offset_add value s = u32 (value + fs_visible_bytes s)"

definition full_offset_add :: "nat \<Rightarrow> fragment_summary \<Rightarrow> nat" where
  "full_offset_add value s = u32 (value + u64 (fs_visible_bytes s + fs_deleted_bytes s))"

definition visible_utf16_add :: "nat \<times> nat \<Rightarrow> fragment_summary \<Rightarrow> nat \<times> nat" where
  "visible_utf16_add d s = (u64 (fst d + fs_visible_utf16 s), u64 (snd d + fs_visible_bytes s))"

definition retained_run_add :: "nat \<Rightarrow> fragment_summary \<Rightarrow> nat" where
  "retained_run_add value s = u64 (value + fs_retained_runs s)"

section \<open>Fragments\<close>

record utf16_checkpoint =
  cp_byte :: nat
  cp_units :: nat

record fragment =
  fr_origin :: identity
  fr_link :: link
  fr_byte_length :: nat
  fr_length :: nat
  fr_deletions :: "identity list"
  fr_visible :: bool
  fr_text :: bytes
  fr_marker :: bool
  fr_index :: "utf16_checkpoint list option"
  fr_units :: nat
  fr_index_ready :: bool

text \<open>The width the fragment code reads from a lead byte; any other lead counts as four bytes.\<close>

definition frag_width :: "nat \<Rightarrow> nat" where
  "frag_width lead =
     (if lead < 0x80 then 1 else if lead AND 0xE0 = 0xC0 then 2
      else if lead AND 0xF0 = 0xE0 then 3 else 4)"

definition frag_unit_width :: "nat \<Rightarrow> nat" where
  "frag_unit_width width = (if width = 4 then 2 else 1)"

lemma frag_width_pos: "0 < frag_width b"
  by (simp add: frag_width_def)

definition default_fragment :: fragment where
  "default_fragment =
     \<lparr>fr_origin = identity_min, fr_link = default_link, fr_byte_length = 0, fr_length = 0,
      fr_deletions = [], fr_visible = True, fr_text = [], fr_marker = False, fr_index = None,
      fr_units = 0, fr_index_ready = False\<rparr>"

function index_loop ::
  "bytes \<Rightarrow> nat \<Rightarrow> nat \<Rightarrow> nat \<Rightarrow> utf16_checkpoint list \<Rightarrow> nat \<times> utf16_checkpoint list" where
  "index_loop txt byte units since_checkpoint points =
     (if byte < length txt then
        let byte_width = frag_width (byte_at txt byte);
            unit_width = frag_unit_width byte_width;
            byte' = byte + byte_width; units' = units + unit_width; since' = since_checkpoint + unit_width
        in if points \<noteq> [] \<and> since' \<ge> 128 \<and> byte' < length txt
           then index_loop txt byte' units' 0 (points @ [\<lparr>cp_byte = byte', cp_units = units'\<rparr>])
           else index_loop txt byte' units' since' points
      else (units, points))"
  by pat_completeness auto
termination
  by (relation "measure (\<lambda>(txt, byte, units, since, points). length txt - byte)")
    (use frag_width_pos in \<open>auto intro!: diff_less_mono2\<close>)

declare index_loop.simps [simp del]

definition rebuild_utf16_index :: "fragment \<Rightarrow> fragment" where
  "rebuild_utf16_index f =
     (if list_all (\<lambda>b. unat b < 0x80) (fr_text f)
      then f\<lparr>fr_index := None, fr_units := u32 (length (fr_text f)), fr_index_ready := True\<rparr>
      else
        let start = (if length (fr_text f) > 128 then [\<lparr>cp_byte = 0, cp_units = 0\<rparr>] else [])
        in case index_loop (fr_text f) 0 0 0 start of
             (units, points) \<Rightarrow>
               f\<lparr>fr_index := (if length points > 1 then Some points else None),
                 fr_units := units, fr_index_ready := True\<rparr>)"

definition new_fragment :: "identity \<Rightarrow> link \<Rightarrow> nat \<Rightarrow> nat \<Rightarrow> bytes \<Rightarrow> fragment" where
  "new_fragment orig l byte_len char_len txt =
     rebuild_utf16_index (default_fragment\<lparr>fr_origin := orig, fr_link := l,
       fr_byte_length := byte_len, fr_length := char_len, fr_text := txt\<rparr>)"

text \<open>The lookup: the position and \<open>exact\<close>.\<close>

function offset_loop :: "bytes \<Rightarrow> nat \<Rightarrow> nat \<Rightarrow> nat \<Rightarrow> nat \<times> bool" where
  "offset_loop txt target byte units =
     (if byte < length txt \<and> units < target then
        let width = frag_width (byte_at txt byte) in
        if width = 4 \<and> units + 1 = target then (byte, False)
        else offset_loop txt target (byte + width) (units + frag_unit_width width)
      else (byte, units = target))"
  by pat_completeness auto
termination
  by (relation "measure (\<lambda>(txt, target, byte, units). length txt - byte)")
    (use frag_width_pos in \<open>auto intro!: diff_less_mono2\<close>)

declare offset_loop.simps [simp del]

text \<open>\<open>std::upper_bound\<close> over the checkpoints, stepping back one.\<close>

definition checkpoint_before :: "utf16_checkpoint list \<Rightarrow> nat \<Rightarrow> nat \<times> nat" where
  "checkpoint_before points target =
     (let k = length (takeWhile (\<lambda>p. \<not> target < cp_units p) points);
          i = (if k = 0 then 0 else k - 1)
      in (cp_byte (points ! i), cp_units (points ! i)))"

definition utf16_byte_offset :: "fragment \<Rightarrow> nat \<Rightarrow> nat \<times> bool" where
  "utf16_byte_offset f target =
     (if target = 0 \<or> fr_text f = [] then (0, True)
      else if target > fr_units f then (0, False)
      else if fr_units f = fr_byte_length f then (u32 target, True)
      else
        let start = (case fr_index f of None \<Rightarrow> (0, 0) | Some points \<Rightarrow> checkpoint_before points target)
        in offset_loop (fr_text f) target (fst start) (snd start))"

section \<open>Splitting\<close>

fun prefix_loop :: "bytes \<Rightarrow> nat \<Rightarrow> nat \<Rightarrow> nat \<Rightarrow> nat \<times> nat" where
  "prefix_loop txt 0 byte units = (byte, units)"
| "prefix_loop txt (Suc c) byte units =
     (let width = frag_width (byte_at txt byte)
      in prefix_loop txt c (byte + width) (units + frag_unit_width width))"

definition head_points :: "nat \<Rightarrow> utf16_checkpoint list \<Rightarrow> utf16_checkpoint list" where
  "head_points byte points =
     \<lparr>cp_byte = 0, cp_units = 0\<rparr> # filter (\<lambda>p. cp_byte p \<noteq> 0 \<and> cp_byte p < byte) points"

definition tail_points :: "nat \<Rightarrow> nat \<Rightarrow> utf16_checkpoint list \<Rightarrow> utf16_checkpoint list" where
  "tail_points byte prefix_units points =
     \<lparr>cp_byte = 0, cp_units = 0\<rparr> #
     map (\<lambda>p. \<lparr>cp_byte = cp_byte p - byte, cp_units = cp_units p - prefix_units\<rparr>)
       (filter (\<lambda>p. \<not> (cp_byte p \<noteq> 0 \<and> cp_byte p < byte) \<and> cp_byte p > byte) points)"

definition keep_points :: "utf16_checkpoint list \<Rightarrow> utf16_checkpoint list option" where
  "keep_points points = (if length points > 1 then Some points else None)"

definition split_fragment :: "fragment \<Rightarrow> nat \<Rightarrow> fragment \<times> fragment" where
  "split_fragment f k =
     (case prefix_loop (fr_text f) k 0 0 of
        (byte, prefix_units) \<Rightarrow>
          let tail = default_fragment\<lparr>
                fr_origin := Identity (actor (fr_origin f)) (counter (fr_origin f) + k),
                fr_link := (if k = 0 then fr_link f
                  else Link (Some (Identity (actor (fr_origin f)) (counter (fr_origin f) + (k - 1))))
                    Right (right_origin (fr_link f))),
                fr_text := drop byte (fr_text f),
                fr_byte_length := u32 (length (drop byte (fr_text f))),
                fr_length := fr_length f - k,
                fr_deletions := fr_deletions f, fr_visible := fr_visible f,
                fr_units := fr_units f - prefix_units, fr_index_ready := True\<rparr>;
              head = f\<lparr>fr_text := take byte (fr_text f), fr_byte_length := byte, fr_length := k,
                fr_units := prefix_units, fr_index_ready := True\<rparr>
          in case fr_index f of
               None \<Rightarrow> (head, tail)
             | Some points \<Rightarrow>
                 (head\<lparr>fr_index := keep_points (head_points byte points)\<rparr>,
                  tail\<lparr>fr_index := keep_points (tail_points byte prefix_units points)\<rparr>))"

definition fragment_ops :: "fragment run_ops" where
  "fragment_ops =
     \<lparr>origin = fr_origin, run_length = fr_length, run_link = fr_link, split_off = split_fragment\<rparr>"

section \<open>Visibility and summary\<close>

definition fragment_compute_visible :: "fragment \<Rightarrow> undo_map \<Rightarrow> bool" where
  "fragment_compute_visible f m =
     (if is_undone m (fr_origin f) then False else list_all (is_undone m) (fr_deletions f))"

definition fragment_was_visible :: "fragment \<Rightarrow> bool" where
  "fragment_was_visible f = (fr_deletions f = [])"

definition fragment_was_visible_at :: "fragment \<Rightarrow> global \<Rightarrow> undo_map \<Rightarrow> bool" where
  "fragment_was_visible_at f v m =
     (if \<not> observed v (fr_origin f) then False
      else if was_undone m (fr_origin f) v then False
      else list_all (\<lambda>del. \<not> (observed v del \<and> \<not> was_undone m del v)) (fr_deletions f))"

definition fragment_summary_of :: "fragment \<Rightarrow> fragment_summary" where
  "fragment_summary_of f =
     (if fr_visible f
      then summary_zero\<lparr>fs_retained_runs := 1, fs_visible_bytes := fr_byte_length f,
        fs_visible_utf16 := u32 (fr_units f)\<rparr>
      else summary_zero\<lparr>fs_retained_runs := 1, fs_deleted_bytes := fr_byte_length f\<rparr>)"

section \<open>Fragments as runs\<close>

interpretation fragments: run_interface fragment_ops
proof (unfold_locales, goal_cases)
  case (1 k f h t)
  then show ?case
    by (auto simp: fragment_ops_def split_fragment_def Let_def split: prod.splits option.splits)
next
  case (2 k f h t)
  then show ?case
    by (auto simp: fragment_ops_def split_fragment_def Let_def item_at_def link_at_def
        split: prod.splits option.splits)
qed

section \<open>Well-formed text\<close>

text \<open>A checkpoint names a boundary between two scalars of the text.\<close>

definition point_at :: "nat list \<Rightarrow> utf16_checkpoint \<Rightarrow> bool" where
  "point_at vs p \<longleftrightarrow>
     (\<exists>us ws. vs = us @ ws \<and> cp_byte p = length (encode_scalars us) \<and> cp_units p = units_of us)"

definition index_ok :: "nat list \<Rightarrow> utf16_checkpoint list \<Rightarrow> bool" where
  "index_ok vs points \<longleftrightarrow>
     points \<noteq> [] \<and> hd points = \<lparr>cp_byte = 0, cp_units = 0\<rparr> \<and> list_all (point_at vs) points"

definition frag_ok :: "fragment \<Rightarrow> nat list \<Rightarrow> bool" where
  "frag_ok f vs \<longleftrightarrow>
     list_all is_scalar vs \<and> fr_text f = encode_scalars vs \<and> fr_length f = length vs \<and>
     fr_byte_length f = length (fr_text f) \<and> fr_units f = units_of vs \<and> length (fr_text f) < 2 ^ 32 \<and>
     (\<forall>points. fr_index f = Some points \<longrightarrow> index_ok vs points)"

lemma frag_width_lead:
  assumes "is_scalar v"
  shows "frag_width (lead_of v) = scalar_width v" "frag_unit_width (scalar_width v) = unit_width v"
proof -
  let ?b = "lead_of v"
  have d: "192 \<le> ?b \<Longrightarrow> ?b < 224 \<Longrightarrow> ?b div 32 = 6" "224 \<le> ?b \<Longrightarrow> ?b < 256 \<Longrightarrow> ?b div 32 = 7"
    "224 \<le> ?b \<Longrightarrow> ?b < 240 \<Longrightarrow> ?b div 16 = 14" "240 \<le> ?b \<Longrightarrow> ?b < 256 \<Longrightarrow> ?b div 16 = 15"
    by (simp_all add: div_nat_eqI)
  show "frag_width ?b = scalar_width v" "frag_unit_width (scalar_width v) = unit_width v"
    using lead_bounds [OF assms] d by (auto simp: frag_width_def frag_unit_width_def and_high_bits)
qed

lemma units_le_bytes: "units_of vs \<le> length (encode_scalars vs)"
proof (induction vs)
  case (Cons v vs)
  have "unit_width v \<le> scalar_width v"
    by (simp add: unit_width_def scalar_width_def scalar_nats_def)
  then show ?case
    using Cons by (simp add: encode_simps length_scalar_width)
qed (simp add: encode_simps)

text \<open>Equal byte and unit counts mean that every scalar takes one byte.\<close>

lemma all_narrow:
  assumes "list_all is_scalar vs" "length (encode_scalars vs) \<le> units_of vs" "vs = us @ ws"
  shows "length (encode_scalars us) = units_of us"
proof -
  have "length (encode_scalars us) + length (encode_scalars ws) \<le> units_of us + units_of ws"
    using assms(2,3) by (simp add: encode_simps)
  then show ?thesis
    using units_le_bytes [of us] units_le_bytes [of ws] by linarith
qed

section \<open>The index\<close>

lemma text_step:
  assumes "list_all is_scalar (us @ v # vs)"
  shows "byte_at (encode_scalars (us @ v # vs)) (length (encode_scalars us)) = lead_of v"
    "length (encode_scalars us) + scalar_width v = length (encode_scalars (us @ [v]))"
    "units_of us + unit_width v = units_of (us @ [v])"
    "length (encode_scalars us) < length (encode_scalars (us @ v # vs))"
  using assms lead_byte [of v "encode_scalars us" "encode_scalars vs"] width_pos [of v]
  by (simp_all add: encode_simps length_scalar_width)

lemma index_loop_step:
  assumes "byte < length txt" "frag_width (byte_at txt byte) = w" "frag_unit_width w = n"
  shows "index_loop txt byte units since points =
    (if points \<noteq> [] \<and> since + n \<ge> 128 \<and> byte + w < length txt
     then index_loop txt (byte + w) (units + n) 0 (points @ [\<lparr>cp_byte = byte + w, cp_units = units + n\<rparr>])
     else index_loop txt (byte + w) (units + n) (since + n) points)"
  using assms by (subst index_loop.simps) (simp add: Let_def)

lemma index_loop_spec:
  assumes "list_all is_scalar (us @ vs)" "list_all (point_at (us @ vs)) pts"
    and "index_loop (encode_scalars (us @ vs)) (length (encode_scalars us)) (units_of us) since pts = (u, pts')"
  shows "u = units_of (us @ vs) \<and> list_all (point_at (us @ vs)) pts' \<and> (\<exists>rest. pts' = pts @ rest) \<and>
    (pts = [] \<longrightarrow> pts' = [])"
  using assms
proof (induction vs arbitrary: us since pts)
  case Nil
  have "index_loop (encode_scalars us) (length (encode_scalars us)) (units_of us) since pts = (units_of us, pts)"
    by (subst index_loop.simps) simp
  then show ?case
    using Nil by simp
next
  case (Cons v vs)
  let ?txt = "encode_scalars (us @ v # vs)" and ?us = "us @ [v]"
  let ?b = "length (encode_scalars ?us)" and ?u = "units_of ?us"
  note step = text_step [OF Cons.prems(1)]
  have v: "is_scalar v" and sc: "list_all is_scalar (?us @ vs)"
    using Cons.prems(1) by simp_all
  have s: "?us @ vs = us @ v # vs"
    by simp
  have eq: "index_loop ?txt (length (encode_scalars us)) (units_of us) since pts =
      (if pts \<noteq> [] \<and> since + unit_width v \<ge> 128 \<and> ?b < length ?txt
       then index_loop ?txt ?b ?u 0 (pts @ [\<lparr>cp_byte = ?b, cp_units = ?u\<rparr>])
       else index_loop ?txt ?b ?u (since + unit_width v) pts)"
    unfolding step(2,3) [symmetric]
    by (rule index_loop_step [OF step(4)]) (simp_all only: step(1) frag_width_lead [OF v])
  have point: "point_at (us @ v # vs) \<lparr>cp_byte = ?b, cp_units = ?u\<rparr>"
    unfolding point_at_def by (intro exI [of _ ?us] exI [of _ vs]) simp
  show ?case
  proof (cases "pts \<noteq> [] \<and> since + unit_width v \<ge> 128 \<and> ?b < length ?txt")
    case True
    have "list_all (point_at (?us @ vs)) (pts @ [\<lparr>cp_byte = ?b, cp_units = ?u\<rparr>])"
      using Cons.prems(2) point by simp
    from Cons.IH [OF sc this] show ?thesis
      using Cons.prems(3) True unfolding eq s by auto
  next
    case False
    have "list_all (point_at (?us @ vs)) pts"
      using Cons.prems(2) by simp
    from Cons.IH [OF sc this] show ?thesis
      using Cons.prems(3) False unfolding eq s by auto
  qed
qed

lemma ascii_units:
  assumes "list_all is_scalar vs" "list_all (\<lambda>b. unat b < 0x80) (encode_scalars vs)"
  shows "units_of vs = length (encode_scalars vs)"
  using assms
proof (induction vs)
  case Nil
  then show ?case by (simp add: encode_simps)
next
  case (Cons v vs)
  have v: "is_scalar v" and ne: "scalar_bytes v \<noteq> []"
    using Cons.prems(1) scalar_bytes_nonempty by simp_all
  have "byte_at (scalar_bytes v) 0 = lead_of v"
    using lead_byte [OF v, of "[]" "[]"] by simp
  moreover have "unat (scalar_bytes v ! 0) < 128"
    using Cons.prems(2) ne by (cases "scalar_bytes v") (simp_all add: encode_simps)
  ultimately have "lead_of v < 128"
    by (simp add: byte_at_def)
  then have "scalar_width v = 1"
    using lead_bounds [OF v] by fastforce
  then show ?case
    using Cons lead_bounds(6) [OF v] by (simp add: encode_simps length_scalar_width)
qed

theorem rebuild_index_ok:
  assumes "list_all is_scalar vs" "fr_text f = encode_scalars vs" "fr_length f = length vs"
    and "fr_byte_length f = length (fr_text f)" "length (fr_text f) < 2 ^ 32"
  shows "frag_ok (rebuild_utf16_index f) vs"
proof (cases "list_all (\<lambda>b. unat b < 0x80) (fr_text f)")
  case True
  then have "units_of vs = length (fr_text f)"
    using ascii_units assms(1,2) by simp
  then show ?thesis
    using True assms by (simp add: rebuild_utf16_index_def frag_ok_def u32_def)
next
  case False
  let ?start = "if length (fr_text f) > 128 then [\<lparr>cp_byte = 0, cp_units = 0\<rparr>] else []"
  obtain u pts where r: "index_loop (fr_text f) 0 0 0 ?start = (u, pts)"
    by (cases "index_loop (fr_text f) 0 0 0 ?start")
  have "point_at vs \<lparr>cp_byte = 0, cp_units = 0\<rparr>"
    unfolding point_at_def by (intro exI [of _ "[]"] exI [of _ vs]) (simp add: encode_simps)
  then have spec: "u = units_of vs \<and> list_all (point_at vs) pts \<and> (\<exists>rest. pts = ?start @ rest) \<and>
      (?start = [] \<longrightarrow> pts = [])"
    using index_loop_spec [of "[]" vs ?start 0 u pts] r assms(1,2) by (simp add: encode_simps)
  then have "length pts > 1 \<Longrightarrow> index_ok vs pts"
    by (auto simp: index_ok_def split: if_splits)
  then show ?thesis
    using False spec r assms
    by (auto simp: rebuild_utf16_index_def frag_ok_def Let_def split: prod.splits)
qed

section \<open>The lookup\<close>

lemma offset_loop_step:
  assumes "byte < length txt" "units + n \<le> target" "frag_width (byte_at txt byte) = w"
    "frag_unit_width w = n"
  shows "offset_loop txt target byte units = offset_loop txt target (byte + w) (units + n)"
proof -
  have "0 < n" "w = 4 \<Longrightarrow> n = 2"
    using assms(4) by (auto simp: frag_unit_width_def)
  then show ?thesis
    using assms by (subst offset_loop.simps) (auto simp: Let_def)
qed

text \<open>The scan passes every boundary up to its target.\<close>

lemma offset_loop_prefix:
  assumes "list_all is_scalar (us @ vs)" "units_of us \<le> target"
  shows "offset_loop (encode_scalars (us @ vs)) target 0 0 =
    offset_loop (encode_scalars (us @ vs)) target (length (encode_scalars us)) (units_of us)"
  using assms
proof (induction us arbitrary: vs rule: rev_induct)
  case Nil
  then show ?case by (simp add: encode_simps)
next
  case (snoc v us)
  have sc: "list_all is_scalar (us @ v # vs)" and v: "is_scalar v"
    using snoc.prems(1) by simp_all
  note step = text_step [OF sc]
  have "offset_loop (encode_scalars (us @ v # vs)) target 0 0 =
      offset_loop (encode_scalars (us @ v # vs)) target (length (encode_scalars us)) (units_of us)"
    using snoc.IH [OF sc] snoc.prems(2) by simp
  also have "\<dots> = offset_loop (encode_scalars (us @ v # vs)) target
      (length (encode_scalars us) + scalar_width v) (units_of us + unit_width v)"
    using snoc.prems(2)
    by (intro offset_loop_step [OF step(4)]) (simp_all add: step(1) frag_width_lead [OF v])
  also have "\<dots> = offset_loop (encode_scalars (us @ v # vs)) target
      (length (encode_scalars (us @ [v]))) (units_of (us @ [v]))"
    by (simp only: step(2,3))
  finally show ?case
    by simp
qed

text \<open>What the scan finds: the boundary, or the start of the pair the target cuts.\<close>

lemma offset_loop_at: "offset_loop txt target byte target = (byte, True)"
  by (subst offset_loop.simps) simp

lemma offset_loop_boundary:
  assumes "list_all is_scalar (us @ vs)"
  shows "offset_loop (encode_scalars (us @ vs)) (units_of us) 0 0 = (length (encode_scalars us), True)"
  using offset_loop_prefix [OF assms order_refl] offset_loop_at by metis

lemma offset_loop_inside:
  assumes "list_all is_scalar (us @ v # vs)" "units_of us < target" "target < units_of us + unit_width v"
  shows "offset_loop (encode_scalars (us @ v # vs)) target 0 0 = (length (encode_scalars us), False)"
proof -
  have v: "is_scalar v"
    using assms(1) by simp
  note step = text_step [OF assms(1)]
  have "unit_width v = 2" "target = units_of us + 1"
    using assms(2,3) by (auto simp: unit_width_def split: if_splits)
  moreover have "scalar_width v = 4"
    using lead_bounds(6) [OF v] \<open>unit_width v = 2\<close> by (auto split: if_splits)
  ultimately have "offset_loop (encode_scalars (us @ v # vs)) target (length (encode_scalars us)) (units_of us) =
      (length (encode_scalars us), False)"
    using step(4) by (subst offset_loop.simps) (simp add: step(1) frag_width_lead [OF v])
  then show ?thesis
    using offset_loop_prefix [OF assms(1), of target] assms(2) by simp
qed

lemma boundary_or_inside:
  assumes "target \<le> units_of vs"
  obtains us ws where "vs = us @ ws" "units_of us = target"
  | us v ws where "vs = us @ v # ws" "units_of us < target" "target < units_of us + unit_width v"
proof -
  have "(\<exists>us ws. vs = us @ ws \<and> units_of us = target) \<or>
      (\<exists>us v ws. vs = us @ v # ws \<and> units_of us < target \<and> target < units_of us + unit_width v)"
    using assms
  proof (induction vs rule: rev_induct)
    case Nil
    then show ?case by simp
  next
    case (snoc v vs)
    consider "target \<le> units_of vs" | "units_of vs < target" "target < units_of vs + unit_width v"
      | "target = units_of (vs @ [v])"
      using snoc.prems by fastforce
    then show ?case
    proof cases
      case 1
      from snoc.IH [OF this] show ?thesis
      proof (elim disjE exE conjE)
        fix us ws
        assume "vs = us @ ws" "units_of us = target"
        then show ?thesis
          by (intro disjI1 exI [of _ us] exI [of _ "ws @ [v]"]) simp
      next
        fix us w ws
        assume "vs = us @ w # ws" "units_of us < target" "target < units_of us + unit_width w"
        then show ?thesis
          by (intro disjI2 exI [of _ us] exI [of _ w] exI [of _ "ws @ [v]"]) simp
      qed
    next
      case 2
      then show ?thesis
        by (intro disjI2 exI [of _ vs] exI [of _ v] exI [of _ "[]"]) simp
    next
      case 3
      then show ?thesis
        by (intro disjI1 exI [of _ "vs @ [v]"] exI [of _ "[]"]) simp
    qed
  qed
  then show thesis
    using that by blast
qed

lemma checkpoint_before_point:
  assumes "index_ok vs points"
  shows "\<exists>p \<in> set points. checkpoint_before points target = (cp_byte p, cp_units p) \<and> cp_units p \<le> target"
proof -
  let ?found = "takeWhile (\<lambda>p. \<not> target < cp_units p) points"
  obtain p rest where p: "points = p # rest" "cp_units p = 0"
    using assms by (cases points) (auto simp: index_ok_def)
  then have ne: "?found \<noteq> []"
    by simp
  let ?i = "length ?found - 1"
  have i: "?i < length ?found"
    using ne by (cases ?found) simp_all
  then have nth: "points ! ?i = ?found ! ?i"
    by (metis takeWhile_nth)
  have "points ! ?i \<in> set ?found"
    using i nth by simp
  then have "points ! ?i \<in> set points" "cp_units (points ! ?i) \<le> target"
    using set_takeWhileD by fastforce+
  then show ?thesis
    using ne by (auto simp: checkpoint_before_def Let_def)
qed

text \<open>The lookup through the index is the scan from the start.\<close>

theorem lookup_eq_scan:
  assumes ok: "frag_ok f vs" and t: "target \<le> fr_units f"
  shows "utf16_byte_offset f target = offset_loop (fr_text f) target 0 0"
proof -
  have sc: "list_all is_scalar vs" and tx: "fr_text f = encode_scalars vs" and u: "fr_units f = units_of vs"
    and bl: "fr_byte_length f = length (fr_text f)" "length (fr_text f) < 2 ^ 32"
    using ok unfolding frag_ok_def by blast+
  consider (zero) "target = 0 \<or> fr_text f = []" | (narrow) "target \<noteq> 0" "fr_text f \<noteq> []" "fr_units f = fr_byte_length f"
    | (wide) "target \<noteq> 0" "fr_text f \<noteq> []" "fr_units f \<noteq> fr_byte_length f"
    by blast
  then show ?thesis
  proof cases
    case zero
    have "target \<le> length (fr_text f)"
      using order_trans [OF t] units_le_bytes [of vs] unfolding u tx .
    then have "target = 0"
      using zero by auto
    then show ?thesis
      using offset_loop_at [of "fr_text f" 0 0] zero by (simp add: utf16_byte_offset_def)
  next
    case narrow
    have tv: "target \<le> units_of vs"
      using t u by simp
    have nb: "length (encode_scalars vs) \<le> units_of vs"
      using narrow(3) u bl tx by simp
    have "target < 2 ^ 32"
      using t u bl tx units_le_bytes [of vs] by simp
    moreover have "offset_loop (fr_text f) target 0 0 = (target, True)"
    proof (rule boundary_or_inside [OF tv])
      fix us ws
      assume vs: "vs = us @ ws" "units_of us = target"
      then show ?thesis
        using offset_loop_boundary [of us ws] sc all_narrow [OF sc nb vs(1)] tx by simp
    next
      fix us v ws
      assume vs: "vs = us @ v # ws" "units_of us < target" "target < units_of us + unit_width v"
      have "length (encode_scalars us) = units_of us" "length (encode_scalars (us @ [v])) = units_of (us @ [v])"
        using all_narrow [OF sc nb] vs(1) by auto
      then have "scalar_width v = unit_width v"
        by (simp add: encode_simps length_scalar_width)
      moreover have "is_scalar v"
        using sc vs(1) by simp
      ultimately have "unit_width v = 1"
        using lead_bounds(6) [of v] by (auto split: if_splits)
      then show ?thesis
        using vs by simp
    qed
    ultimately show ?thesis
      using narrow t by (simp add: utf16_byte_offset_def u32_def)
  next
    case wide
    show ?thesis
    proof (cases "fr_index f")
      case None
      then show ?thesis
        using wide t by (simp add: utf16_byte_offset_def)
    next
      case (Some points)
      then have idx: "index_ok vs points"
        using ok by (simp add: frag_ok_def)
      obtain p where p: "p \<in> set points" "checkpoint_before points target = (cp_byte p, cp_units p)" "cp_units p \<le> target"
        using checkpoint_before_point [OF idx] by blast
      then obtain us ws where "vs = us @ ws" "cp_byte p = length (encode_scalars us)" "cp_units p = units_of us"
        using idx by (auto simp: index_ok_def list_all_iff point_at_def)
      then show ?thesis
        using wide t Some p offset_loop_prefix [of us ws target] sc tx by (simp add: utf16_byte_offset_def)
    qed
  qed
qed

text \<open>So it answers with the byte offset of a boundary, exactly when the target is one.\<close>

theorem lookup_correct:
  assumes ok: "frag_ok f vs" and t: "target \<le> units_of vs"
  shows "case utf16_byte_offset f target of (byte, exact) \<Rightarrow>
    \<exists>us ws. vs = us @ ws \<and> byte = length (encode_scalars us) \<and>
      (if exact then units_of us = target
       else \<exists>v ws'. ws = v # ws' \<and> units_of us < target \<and> target < units_of us + unit_width v)"
proof -
  have sc: "list_all is_scalar vs" and tx: "fr_text f = encode_scalars vs" and tu: "target \<le> fr_units f"
    using ok t by (simp_all add: frag_ok_def)
  show ?thesis
    unfolding lookup_eq_scan [OF ok tu] tx
  proof (rule boundary_or_inside [OF t])
    fix us ws
    assume "vs = us @ ws" "units_of us = target"
    then show "case offset_loop (encode_scalars vs) target 0 0 of (byte, exact) \<Rightarrow>
        \<exists>us ws. vs = us @ ws \<and> byte = length (encode_scalars us) \<and>
          (if exact then units_of us = target
           else \<exists>v ws'. ws = v # ws' \<and> units_of us < target \<and> target < units_of us + unit_width v)"
      using offset_loop_boundary [of us ws] sc by auto
  next
    fix us v ws
    assume "vs = us @ v # ws" "units_of us < target" "target < units_of us + unit_width v"
    then show "case offset_loop (encode_scalars vs) target 0 0 of (byte, exact) \<Rightarrow>
        \<exists>us ws. vs = us @ ws \<and> byte = length (encode_scalars us) \<and>
          (if exact then units_of us = target
           else \<exists>v ws'. ws = v # ws' \<and> units_of us < target \<and> target < units_of us + unit_width v)"
      using offset_loop_inside [of us v ws target] sc by auto
  qed
qed

section \<open>Splits\<close>

lemma prefix_loop_spec:
  "list_all is_scalar (us @ vs @ ws) \<Longrightarrow>
     prefix_loop (encode_scalars (us @ vs @ ws)) (length vs) (length (encode_scalars us)) (units_of us) =
       (length (encode_scalars (us @ vs)), units_of (us @ vs))"
proof (induction vs arbitrary: us)
  case Nil
  then show ?case by simp
next
  case (Cons v vs)
  have sc: "list_all is_scalar (us @ v # (vs @ ws))" and v: "is_scalar v"
    using Cons.prems by simp_all
  note step = text_step [OF sc]
  have "prefix_loop (encode_scalars (us @ v # (vs @ ws))) (Suc (length vs)) (length (encode_scalars us)) (units_of us) =
      prefix_loop (encode_scalars (us @ v # (vs @ ws))) (length vs)
        (length (encode_scalars us) + scalar_width v) (units_of us + unit_width v)"
    by (simp only: prefix_loop.simps Let_def step(1) frag_width_lead [OF v])
  also have "\<dots> = prefix_loop (encode_scalars ((us @ [v]) @ vs @ ws)) (length vs)
      (length (encode_scalars (us @ [v]))) (units_of (us @ [v]))"
    unfolding step(2,3) by simp
  also have "\<dots> = (length (encode_scalars ((us @ [v]) @ vs)), units_of ((us @ [v]) @ vs))"
    using Cons.prems by (intro Cons.IH) simp
  finally show ?case
    by simp
qed

lemma point_at_head:
  assumes "point_at (us @ vs) p" "cp_byte p < length (encode_scalars us)"
  shows "point_at us p"
proof -
  obtain xs ys where xy: "us @ vs = xs @ ys" "cp_byte p = length (encode_scalars xs)" "cp_units p = units_of xs"
    using assms(1) by (auto simp: point_at_def)
  then obtain zs where "us = xs @ zs \<or> xs = us @ zs"
    by (auto simp: append_eq_append_conv2)
  then have "us = xs @ zs"
    using assms(2) xy(2) by (auto simp: encode_simps)
  then show ?thesis
    using xy by (auto simp: point_at_def)
qed

lemma point_at_tail:
  assumes "point_at (us @ vs) p" "length (encode_scalars us) < cp_byte p"
  shows "point_at vs \<lparr>cp_byte = cp_byte p - length (encode_scalars us), cp_units = cp_units p - units_of us\<rparr>"
proof -
  obtain xs ys where xy: "us @ vs = xs @ ys" "cp_byte p = length (encode_scalars xs)" "cp_units p = units_of xs"
    using assms(1) by (auto simp: point_at_def)
  then obtain zs where "us = xs @ zs \<or> xs = us @ zs"
    by (auto simp: append_eq_append_conv2)
  then have x: "xs = us @ zs"
    using assms(2) xy(2) by (auto simp: encode_simps)
  then have "vs = zs @ ys"
    using xy(1) by simp
  then show ?thesis
    using xy x by (auto simp: point_at_def encode_simps)
qed

theorem split_fragment_ok:
  assumes ok: "frag_ok f (us @ vs)" and s: "split_fragment f (length us) = (h, t)"
  shows "frag_ok h us" "frag_ok t vs" "fr_text f = fr_text h @ fr_text t"
    "fr_visible h = fr_visible f" "fr_visible t = fr_visible f"
    "fr_deletions h = fr_deletions f" "fr_deletions t = fr_deletions f"
proof -
  let ?b = "length (encode_scalars us)" and ?u = "units_of us"
  have sc: "list_all is_scalar (us @ vs)" and tx: "fr_text f = encode_scalars us @ encode_scalars vs"
    and len: "fr_length f = length us + length vs" and un: "fr_units f = ?u + units_of vs"
    and small: "?b + length (encode_scalars vs) < 2 ^ 32"
    using ok by (auto simp: frag_ok_def encode_simps)
  have "prefix_loop (fr_text f) (length us) 0 0 = (?b, ?u)"
    using prefix_loop_spec [of "[]" us vs] sc tx by (simp add: encode_simps)
  note ht = s [unfolded split_fragment_def this prod.case Let_def]
  have zero: "point_at xs \<lparr>cp_byte = 0, cp_units = 0\<rparr>" for xs
    unfolding point_at_def by (intro exI [of _ "[]"] exI [of _ xs]) (simp add: encode_simps)
  have idx: "index_ok us (head_points ?b points)" "index_ok vs (tail_points ?b ?u points)"
    if "fr_index f = Some points" for points
  proof -
    have "list_all (point_at (us @ vs)) points"
      using ok that by (simp add: frag_ok_def index_ok_def)
    then show "index_ok us (head_points ?b points)" "index_ok vs (tail_points ?b ?u points)"
      using zero point_at_head [of us vs] point_at_tail [of us vs]
      by (auto simp: index_ok_def head_points_def tail_points_def list_all_iff)
  qed
  have h: "fr_text h = encode_scalars us" "fr_length h = length us" "fr_byte_length h = ?b" "fr_units h = ?u"
    "fr_index h = (case fr_index f of None \<Rightarrow> None | Some points \<Rightarrow> keep_points (head_points ?b points))"
    using ht tx by (auto split: option.splits)
  have t: "fr_text t = encode_scalars vs" "fr_length t = length vs" "fr_byte_length t = length (encode_scalars vs)"
    "fr_units t = units_of vs"
    "fr_index t = (case fr_index f of None \<Rightarrow> None | Some points \<Rightarrow> keep_points (tail_points ?b ?u points))"
    using ht tx len un small by (auto simp: default_fragment_def u32_def split: option.splits)
  show "frag_ok h us"
    using sc small h idx(1) by (auto simp: frag_ok_def keep_points_def split: option.splits if_splits)
  show "frag_ok t vs"
    using sc small t idx(2) by (auto simp: frag_ok_def keep_points_def split: option.splits if_splits)
  show "fr_text f = fr_text h @ fr_text t"
    using tx h(1) t(1) by simp
  show "fr_visible h = fr_visible f" "fr_visible t = fr_visible f"
    "fr_deletions h = fr_deletions f" "fr_deletions t = fr_deletions f"
    using ht by (auto split: option.splits)
qed

text \<open>The summaries of the two parts add up to the summary of the whole, with one more run.\<close>

theorem split_summary:
  assumes ok: "frag_ok f (us @ vs)" and s: "split_fragment f (length us) = (h, t)"
  shows "summary_add (fragment_summary_of h) (fragment_summary_of t) =
    (fragment_summary_of f)\<lparr>fs_retained_runs := 2\<rparr>"
proof -
  note sp = split_fragment_ok [OF ok s]
  have "length (fr_text f) < 2 ^ 32" "units_of (us @ vs) < 2 ^ 32"
    using ok units_le_bytes [of "us @ vs"] by (auto simp: frag_ok_def)
  then show ?thesis
    using ok sp by (simp add: frag_ok_def fragment_summary_of_def summary_add_def summary_zero_def
        u32_def u64_def encode_simps)
qed

lemma summary_laws:
  "summary_add (summary_add r s) t = summary_add r (summary_add s t)"
  "summary_add s t = summary_add t s"
  by (simp_all add: summary_add_def u64_def u32_def mod_simps ac_simps)

end
