(* ===== verification/Avl_Map.thy ===== *)
theory Avl_Map
  imports Collab_Prelude
begin

text \<open>
  The persistent ordered map of \<open>crdt/PersistentAvlMap.h\<close>, over which the engines keep their
  lookups. A node stores its height and its count as the C++ node does; \<open>avl_make\<close> is the constructor
  that fills them in, path copying is the sharing of values. \<open>m_compare\<close> is the class order.
  \<open>entries\<close> is the abstraction: the bindings in ascending order. Every operation is shown to act
  on it as on a sorted association list, the stored heights stay balanced, and with them the
  length of every search path stays logarithmic in the number of bindings.
\<close>

section \<open>Nodes\<close>

datatype ('k, 'v) avl =
    AvlNil
  | AvlNode 'k 'v "('k, 'v) avl" "('k, 'v) avl" nat nat

fun node_height :: "('k, 'v) avl \<Rightarrow> nat" where
  "node_height AvlNil = 0"
| "node_height (AvlNode k v l r h c) = h"

fun node_count :: "('k, 'v) avl \<Rightarrow> nat" where
  "node_count AvlNil = 0"
| "node_count (AvlNode k v l r h c) = c"

definition avl_make :: "'k \<Rightarrow> 'v \<Rightarrow> ('k, 'v) avl \<Rightarrow> ('k, 'v) avl \<Rightarrow> ('k, 'v) avl" where
  "avl_make k v l r =
     AvlNode k v l r (1 + max (node_height l) (node_height r)) (1 + node_count l + node_count r)"

section \<open>Lookups\<close>

fun avl_find :: "('k::linorder, 'v) avl \<Rightarrow> 'k \<Rightarrow> 'v option" where
  "avl_find AvlNil key = None"
| "avl_find (AvlNode k v l r h c) key =
     (if key < k then avl_find l key else if k < key then avl_find r key else Some v)"

text \<open>The descents keep the best node seen so far.\<close>

fun predecessor_loop :: "('k::linorder, 'v) avl \<Rightarrow> 'k \<Rightarrow> ('k \<times> 'v) option \<Rightarrow> ('k \<times> 'v) option" where
  "predecessor_loop AvlNil key best = best"
| "predecessor_loop (AvlNode k v l r h c) key best =
     (if \<not> key < k then predecessor_loop r key (Some (k, v)) else predecessor_loop l key best)"

definition avl_predecessor :: "('k::linorder, 'v) avl \<Rightarrow> 'k \<Rightarrow> ('k \<times> 'v) option" where
  "avl_predecessor t key = predecessor_loop t key None"

fun lower_bound_loop :: "('k::linorder, 'v) avl \<Rightarrow> 'k \<Rightarrow> ('k \<times> 'v) option \<Rightarrow> ('k \<times> 'v) option" where
  "lower_bound_loop AvlNil key best = best"
| "lower_bound_loop (AvlNode k v l r h c) key best =
     (if \<not> k < key then lower_bound_loop l key (Some (k, v)) else lower_bound_loop r key best)"

definition avl_lower_bound :: "('k::linorder, 'v) avl \<Rightarrow> 'k \<Rightarrow> ('k \<times> 'v) option" where
  "avl_lower_bound t key = lower_bound_loop t key None"

text \<open>
  The visitors. The callback of \<open>for_each_from\<close> works on a state and says whether to go on.
\<close>

fun avl_visit :: "('k, 'v) avl \<Rightarrow> ('k \<Rightarrow> 'v \<Rightarrow> 's \<Rightarrow> 's) \<Rightarrow> 's \<Rightarrow> 's" where
  "avl_visit AvlNil fn s = s"
| "avl_visit (AvlNode k v l r h c) fn s = avl_visit r fn (fn k v (avl_visit l fn s))"

fun visit_from ::
  "('k::linorder, 'v) avl \<Rightarrow> 'k \<Rightarrow> ('k \<Rightarrow> 'v \<Rightarrow> 's \<Rightarrow> 's \<times> bool) \<Rightarrow> 's \<Rightarrow> 's \<times> bool" where
  "visit_from AvlNil lower fn s = (s, True)"
| "visit_from (AvlNode k v l r h c) lower fn s =
     (if k < lower then visit_from r lower fn s
      else case visit_from l lower fn s of
        (s1, False) \<Rightarrow> (s1, False)
      | (s1, True) \<Rightarrow>
          (case fn k v s1 of
             (s2, False) \<Rightarrow> (s2, False)
           | (s2, True) \<Rightarrow> visit_from r lower fn s2))"

section \<open>Updates\<close>

text \<open>A rotation dereferences the child it lifts; the last equations cannot be reached.\<close>

fun rotate_left :: "('k, 'v) avl \<Rightarrow> ('k, 'v) avl" where
  "rotate_left (AvlNode k v l (AvlNode rk rv rl rr rh rc) h c) = avl_make rk rv (avl_make k v l rl) rr"
| "rotate_left t = t"

fun rotate_right :: "('k, 'v) avl \<Rightarrow> ('k, 'v) avl" where
  "rotate_right (AvlNode k v (AvlNode lk lv ll lr lh lc) r h c) = avl_make lk lv ll (avl_make k v lr r)"
| "rotate_right t = t"

fun left_child :: "('k, 'v) avl \<Rightarrow> ('k, 'v) avl" where
  "left_child AvlNil = AvlNil"
| "left_child (AvlNode k v l r h c) = l"

fun right_child :: "('k, 'v) avl \<Rightarrow> ('k, 'v) avl" where
  "right_child AvlNil = AvlNil"
| "right_child (AvlNode k v l r h c) = r"

fun rebalance :: "('k, 'v) avl \<Rightarrow> ('k, 'v) avl" where
  "rebalance AvlNil = AvlNil"
| "rebalance (AvlNode k v l r h c) =
     (if node_height l > node_height r + 1 then
        rotate_right
          (if node_height (left_child l) < node_height (right_child l)
           then avl_make k v (rotate_left l) r else AvlNode k v l r h c)
      else if node_height r > node_height l + 1 then
        rotate_left
          (if node_height (right_child r) < node_height (left_child r)
           then avl_make k v l (rotate_right r) else AvlNode k v l r h c)
      else AvlNode k v l r h c)"

fun avl_insert :: "('k::linorder, 'v) avl \<Rightarrow> 'k \<Rightarrow> 'v \<Rightarrow> ('k, 'v) avl" where
  "avl_insert AvlNil key val = avl_make key val AvlNil AvlNil"
| "avl_insert (AvlNode k v l r h c) key val =
     (if key < k then rebalance (avl_make k v (avl_insert l key val) r)
      else if k < key then rebalance (avl_make k v l (avl_insert r key val))
      else avl_make key val l r)"

text \<open>The loop to the leftmost node of the right subtree.\<close>

fun leftmost :: "'k \<Rightarrow> 'v \<Rightarrow> ('k, 'v) avl \<Rightarrow> 'k \<times> 'v" where
  "leftmost k v AvlNil = (k, v)"
| "leftmost k v (AvlNode lk lv l r h c) = leftmost lk lv l"


text \<open>
  \<open>if (left == n->left) return n\<close>: nothing was removed. The pointers are equal exactly when the
  values are, because a removal makes the count smaller.
\<close>

fun avl_remove :: "('k::linorder, 'v) avl \<Rightarrow> 'k \<Rightarrow> ('k, 'v) avl" where
  "avl_remove AvlNil key = AvlNil"
| "avl_remove (AvlNode k v l r h c) key =
     (if key < k then
        let left = avl_remove l key in
        if left = l then AvlNode k v l r h c else rebalance (avl_make k v left r)
      else if k < key then
        let right = avl_remove r key in
        if right = r then AvlNode k v l r h c else rebalance (avl_make k v l right)
      else case l of
        AvlNil \<Rightarrow> r
      | _ \<Rightarrow>
          (case r of
             AvlNil \<Rightarrow> l
           | AvlNode rk rv rl rr rh rc \<Rightarrow>
               (case leftmost rk rv rl of
                  (sk, sv) \<Rightarrow> rebalance (avl_make sk sv l (avl_remove r sk)))))"

text \<open>\<open>from_sorted\<close> over the range \<open>[first, last)\<close> of the vector.\<close>

function build_balanced :: "('k \<times> 'v) list \<Rightarrow> nat \<Rightarrow> nat \<Rightarrow> ('k, 'v) avl" where
  "build_balanced entries first last' =
     (if last' \<le> first then AvlNil
      else
        let middle = first + (last' - first) div 2;
            left = build_balanced entries first middle;
            right = build_balanced entries (middle + 1) last'
        in avl_make (fst (entries ! middle)) (snd (entries ! middle)) left right)"
  by pat_completeness auto
termination
  by (relation "measure (\<lambda>(entries, first, last'). last' - first)") auto

declare build_balanced.simps [simp del]

definition from_sorted :: "('k \<times> 'v) list \<Rightarrow> ('k, 'v) avl" where
  "from_sorted entries = build_balanced entries 0 (length entries)"

section \<open>The bindings\<close>

fun bindings :: "('k, 'v) avl \<Rightarrow> ('k \<times> 'v) list" where
  "bindings AvlNil = []"
| "bindings (AvlNode k v l r h c) = bindings l @ (k, v) # bindings r"

definition put :: "'k::linorder \<Rightarrow> 'v \<Rightarrow> ('k \<times> 'v) list \<Rightarrow> ('k \<times> 'v) list" where
  "put key val xs = filter (\<lambda>p. fst p < key) xs @ (key, val) # filter (\<lambda>p. key < fst p) xs"

definition cut :: "'k::linorder \<Rightarrow> ('k \<times> 'v) list \<Rightarrow> ('k \<times> 'v) list" where
  "cut key xs = filter (\<lambda>p. fst p \<noteq> key) xs"

lemma bindings_make [simp]: "bindings (avl_make k v l r) = bindings l @ (k, v) # bindings r"
  by (simp add: avl_make_def)

lemma bindings_rotate [simp]:
  "bindings (rotate_left t) = bindings t" "bindings (rotate_right t) = bindings t"
  by (cases t rule: rotate_left.cases; simp) (cases t rule: rotate_right.cases; simp)

lemma bindings_rebalance [simp]: "bindings (rebalance t) = bindings t"
  by (cases t) simp_all

text \<open>Filters over the bindings on one side of a key.\<close>

lemma filter_below:
  fixes k :: "'k::linorder"
  assumes "\<forall>p \<in> set xs. fst p < k" "k \<le> x"
  shows "filter (\<lambda>p. fst p < x) xs = xs" "filter (\<lambda>p. fst p \<le> x) xs = xs"
    "filter (\<lambda>p. fst p \<noteq> x) xs = xs" "filter (\<lambda>p. x < fst p) xs = []" "filter (\<lambda>p. x \<le> fst p) xs = []"
proof -
  have "fst p < x" if "p \<in> set xs" for p
    using assms that less_le_trans [of "fst p" k x] by blast
  then show "filter (\<lambda>p. fst p < x) xs = xs" "filter (\<lambda>p. fst p \<le> x) xs = xs"
    "filter (\<lambda>p. fst p \<noteq> x) xs = xs" "filter (\<lambda>p. x < fst p) xs = []" "filter (\<lambda>p. x \<le> fst p) xs = []"
    by (fastforce simp: filter_id_conv filter_empty_conv)+
qed

lemma filter_above:
  fixes k :: "'k::linorder"
  assumes "\<forall>p \<in> set xs. k < fst p" "x \<le> k"
  shows "filter (\<lambda>p. x < fst p) xs = xs" "filter (\<lambda>p. x \<le> fst p) xs = xs"
    "filter (\<lambda>p. fst p \<noteq> x) xs = xs" "filter (\<lambda>p. fst p < x) xs = []" "filter (\<lambda>p. fst p \<le> x) xs = []"
proof -
  have "x < fst p" if "p \<in> set xs" for p
    using assms that le_less_trans [of x k "fst p"] by blast
  then show "filter (\<lambda>p. x < fst p) xs = xs" "filter (\<lambda>p. x \<le> fst p) xs = xs"
    "filter (\<lambda>p. fst p \<noteq> x) xs = xs" "filter (\<lambda>p. fst p < x) xs = []" "filter (\<lambda>p. fst p \<le> x) xs = []"
    by (fastforce simp: filter_id_conv filter_empty_conv)+
qed

lemma map_of_filter_key: "map_of (filter (\<lambda>p. P (fst p)) xs) x = (if P x then map_of xs x else None)"
  by (induction xs) auto

lemma sorted1_node:
  "sorted_wrt (<) (map fst xs @ k # map fst ys) \<longleftrightarrow>
     sorted1 xs \<and> sorted1 ys \<and> (\<forall>p \<in> set xs. fst p < k) \<and> (\<forall>p \<in> set ys. k < fst p)"
  by (auto simp: sorted_wrt_append intro: less_trans)

lemma put_left:
  assumes "sorted1 (xs @ (k, v) # ys)" "key < k"
  shows "put key val (xs @ (k, v) # ys) = put key val xs @ (k, v) # ys"
  using assms filter_above [of ys k key]
    by (simp add: put_def sorted1_node not_less less_imp_le)

lemma put_right:
  assumes "sorted1 (xs @ (k, v) # ys)" "k < key"
  shows "put key val (xs @ (k, v) # ys) = xs @ (k, v) # put key val ys"
  using assms filter_below [of xs k key]
    by (simp add: put_def sorted1_node not_less less_imp_le)

lemma put_here:
  assumes "sorted1 (xs @ (k, v) # ys)"
  shows "put k val (xs @ (k, v) # ys) = xs @ (k, val) # ys"
  using assms filter_below [of xs k k] filter_above [of ys k k] by (simp add: put_def sorted1_node)

lemma sorted1_put: "sorted1 xs \<Longrightarrow> sorted1 (put key val xs)"
  by (simp add: put_def sorted1_node) (simp add: sorted_wrt_map sorted_wrt_filter)

lemma map_of_put: "map_of (put key val xs) = (map_of xs)(key \<mapsto> val)"
  by (auto simp: put_def fun_eq_iff map_add_def map_of_filter_key [where P = "\<lambda>k. k < key"]
      map_of_filter_key [where P = "\<lambda>k. key < k"] split: option.splits)

lemma sorted1_cut: "sorted1 xs \<Longrightarrow> sorted1 (cut key xs)"
  by (simp add: cut_def sorted_wrt_map sorted_wrt_filter)

lemma map_of_cut: "map_of (cut key xs) = (map_of xs)(key := None)"
  by (auto simp: cut_def fun_eq_iff map_of_filter_key [where P = "\<lambda>k. k \<noteq> key"])

lemma cut_node:
  assumes "sorted1 (xs @ (k, v) # ys)"
  shows "key < k \<Longrightarrow> cut key (xs @ (k, v) # ys) = cut key xs @ (k, v) # ys"
    "k < key \<Longrightarrow> cut key (xs @ (k, v) # ys) = xs @ (k, v) # cut key ys"
    "cut k (xs @ (k, v) # ys) = xs @ ys"
  using assms filter_below [of xs k] filter_above [of ys k]
  by (auto simp: cut_def sorted1_node)

theorem insert_bindings:
  "sorted1 (bindings t) \<Longrightarrow> bindings (avl_insert t key val) = put key val (bindings t)"
proof (induction t key val rule: avl_insert.induct)
  case (1 key val)
  then show ?case by (simp add: put_def)
next
  case (2 k v l r h c key val)
  then show ?case
    by (auto simp: put_left put_right put_here sorted1_node)
qed

lemma leftmost_bindings:
  "leftmost k v l = (sk, sv) \<Longrightarrow>
     \<exists>rest. bindings l @ (k, v) # xs = (sk, sv) # rest"
  by (induction k v l arbitrary: xs rule: leftmost.induct) auto

theorem remove_bindings:
  "sorted1 (bindings t) \<Longrightarrow> bindings (avl_remove t key) = cut key (bindings t)"
proof (induction t key rule: avl_remove.induct)
  case (1 key)
  then show ?case by (simp add: cut_def)
next
  case (2 k v l r h c key)
  have s: "sorted1 (bindings l)" "sorted1 (bindings r)"
    using "2.prems" by (simp_all add: sorted1_node)
  consider "key < k" | "k < key" | "key = k"
    by (meson linorder_neqE)
  then show ?case
  proof cases
    case 1
    then show ?thesis
      using "2.IH"(1) s "2.prems" by (auto simp: Let_def cut_node)
  next
    case 2
    then show ?thesis
      using "2.IH"(2) s "2.prems" by (auto simp: Let_def cut_node)
  next
    case 3
    show ?thesis
    proof (cases "l = AvlNil \<or> r = AvlNil")
      case True
      then show ?thesis
        using 3 "2.prems" by (auto simp: cut_node split: avl.splits)
    next
      case False
      then obtain lk lv ll lr lh lc rk rv rl rr rh rc where
        lr: "l = AvlNode lk lv ll lr lh lc" "r = AvlNode rk rv rl rr rh rc"
        by (meson avl.exhaust)
      obtain sk sv where sk: "leftmost rk rv rl = (sk, sv)"
        by force
      obtain rest where rest: "bindings r = (sk, sv) # rest"
        using leftmost_bindings [OF sk, of "bindings rr"] lr(2) by auto
      have "bindings (avl_remove r sk) = cut sk (bindings r)"
        using "2.IH"(3) 3 lr sk s(2) by fastforce
      then have "bindings (avl_remove r sk) = rest"
        using s(2) rest cut_node(3) [of "[]"] by simp
      moreover have "avl_remove (AvlNode k v l r h c) key = rebalance (avl_make sk sv l (avl_remove r sk))"
        using 3 lr sk by simp
      moreover have "cut key (bindings (AvlNode k v l r h c)) = bindings l @ bindings r"
        using 3 "2.prems" cut_node(3) [of "bindings l" k v "bindings r"] by simp
      ultimately show ?thesis
        using rest by (simp del: avl_remove.simps)
    qed
  qed
qed

text \<open>What the lookups answer.\<close>

lemma map_of_node:
  assumes "sorted1 (xs @ (k, v) # ys)"
  shows "map_of (xs @ (k, v) # ys) key =
    (if key < k then map_of xs key else if k < key then map_of ys key else Some v)"
proof -
  have s: "\<forall>p \<in> set xs. fst p < k" "\<forall>p \<in> set ys. k < fst p"
    using assms by (simp_all add: sorted1_node)
  have "map_of ys key = None" if "key < k"
    using s(2) that by (fastforce simp: map_of_eq_None_iff)
  moreover have "map_of xs key = None" if "\<not> key < k"
    using s(1) that by (auto simp: map_of_eq_None_iff)
  ultimately show ?thesis
    by (auto simp: map_add_def split: option.splits)
qed

theorem find_bindings: "sorted1 (bindings t) \<Longrightarrow> avl_find t key = map_of (bindings t) key"
  by (induction t key rule: avl_find.induct) (simp_all add: map_of_node sorted1_node del: map_of_append)

definition last_of :: "'a list \<Rightarrow> 'a option \<Rightarrow> 'a option" where
  "last_of xs best = (if xs = [] then best else Some (last xs))"

definition first_of :: "'a list \<Rightarrow> 'a option \<Rightarrow> 'a option" where
  "first_of xs best = (case xs of [] \<Rightarrow> best | x # _ \<Rightarrow> Some x)"

lemma predecessor_loop_bindings:
  "sorted1 (bindings t) \<Longrightarrow>
     predecessor_loop t key best = last_of (filter (\<lambda>p. fst p \<le> key) (bindings t)) best"
proof (induction t key best rule: predecessor_loop.induct)
  case (2 k v l r h c key best)
  show ?case
  proof (cases "key < k")
    case True
    then have "filter (\<lambda>p. fst p \<le> key) (bindings r) = []"
      using "2.prems" by (auto simp: sorted1_node filter_empty_conv)
    then show ?thesis
      using True not_le [THEN iffD2, OF True] 2 by (simp add: sorted1_node)
  next
    case False
    then have "filter (\<lambda>p. fst p \<le> key) (bindings l) = bindings l"
      using "2.prems" filter_below [of "bindings l" k key] by (simp add: sorted1_node not_less)
    then show ?thesis
      using False 2 by (simp add: sorted1_node last_of_def not_less)
  qed
qed (simp add: last_of_def)

theorem predecessor_bindings:
  "sorted1 (bindings t) \<Longrightarrow>
     avl_predecessor t key = last_of (filter (\<lambda>p. fst p \<le> key) (bindings t)) None"
  by (simp add: avl_predecessor_def predecessor_loop_bindings)

lemma lower_bound_loop_bindings:
  "sorted1 (bindings t) \<Longrightarrow>
     lower_bound_loop t key best = first_of (filter (\<lambda>p. key \<le> fst p) (bindings t)) best"
proof (induction t key best rule: lower_bound_loop.induct)
  case (2 k v l r h c key best)
  show ?case
  proof (cases "k < key")
    case True
    then have "filter (\<lambda>p. key \<le> fst p) (bindings l) = []"
      using "2.prems" by (auto simp: sorted1_node filter_empty_conv)
    then show ?thesis
      using True not_le [THEN iffD2, OF True] 2 by (simp add: sorted1_node)
  next
    case False
    then have "filter (\<lambda>p. key \<le> fst p) (bindings r) = bindings r"
      using "2.prems" filter_above [of "bindings r" k key] by (simp add: sorted1_node not_less)
    then show ?thesis
      using False 2 by (simp add: sorted1_node first_of_def not_less split: list.splits)
  qed
qed (simp add: first_of_def)

theorem lower_bound_bindings:
  "sorted1 (bindings t) \<Longrightarrow>
     avl_lower_bound t key = first_of (filter (\<lambda>p. key \<le> fst p) (bindings t)) None"
  by (simp add: avl_lower_bound_def lower_bound_loop_bindings)

lemma visit_bindings: "avl_visit t fn s = fold (\<lambda>(k, v). fn k v) (bindings t) s"
  by (induction t fn s rule: avl_visit.induct) simp_all

text \<open>The visitor with an early stop, over a list.\<close>

fun fold_until :: "('a \<Rightarrow> 's \<Rightarrow> 's \<times> bool) \<Rightarrow> 'a list \<Rightarrow> 's \<Rightarrow> 's \<times> bool" where
  "fold_until fn [] s = (s, True)"
| "fold_until fn (x # xs) s = (case fn x s of (s1, False) \<Rightarrow> (s1, False) | (s1, True) \<Rightarrow> fold_until fn xs s1)"

lemma fold_until_append:
  "fold_until fn (xs @ ys) s =
     (case fold_until fn xs s of (s1, False) \<Rightarrow> (s1, False) | (s1, True) \<Rightarrow> fold_until fn ys s1)"
  by (induction xs arbitrary: s) (auto split: prod.splits bool.splits)

theorem visit_from_bindings:
  "sorted1 (bindings t) \<Longrightarrow>
     visit_from t lower fn s =
       fold_until (\<lambda>(k, v). fn k v) (filter (\<lambda>p. lower \<le> fst p) (bindings t)) s"
proof (induction t lower fn s rule: visit_from.induct)
  case (2 k v l r h c lower fn s)
  show ?case
  proof (cases "k < lower")
    case True
    then have "filter (\<lambda>p. lower \<le> fst p) (bindings l) = []"
      using "2.prems" by (auto simp: sorted1_node filter_empty_conv)
    then show ?thesis
      using True not_le [THEN iffD2, OF True] 2 by (simp add: sorted1_node)
  next
    case False
    then have "filter (\<lambda>p. lower \<le> fst p) (bindings r) = bindings r"
      using "2.prems" filter_above [of "bindings r" k lower] by (simp add: sorted1_node not_less)
    then show ?thesis
      using False 2 by (auto simp: sorted1_node fold_until_append split: prod.splits bool.splits)
  qed
qed simp

section \<open>Balance\<close>

fun avl_ok :: "('k, 'v) avl \<Rightarrow> bool" where
  "avl_ok AvlNil = True"
| "avl_ok (AvlNode k v l r h c) \<longleftrightarrow>
     h = 1 + max (node_height l) (node_height r) \<and> c = 1 + node_count l + node_count r \<and>
     node_height l \<le> node_height r + 1 \<and> node_height r \<le> node_height l + 1 \<and> avl_ok l \<and> avl_ok r"

lemma make_simps [simp]:
  "node_height (avl_make k v l r) = 1 + max (node_height l) (node_height r)"
  "node_count (avl_make k v l r) = 1 + node_count l + node_count r"
  "avl_ok (avl_make k v l r) \<longleftrightarrow>
     node_height l \<le> node_height r + 1 \<and> node_height r \<le> node_height l + 1 \<and> avl_ok l \<and> avl_ok r"
  by (simp_all add: avl_make_def)

lemma rebalance_make:
  "\<not> node_height l > node_height r + 1 \<Longrightarrow> \<not> node_height r > node_height l + 1 \<Longrightarrow>
     rebalance (avl_make k v l r) = avl_make k v l r"
  by (simp add: avl_make_def)

lemma rebalance_left:
  assumes "avl_ok l" "avl_ok r" "node_height l = node_height r + 2"
  shows "avl_ok (rebalance (avl_make k v l r)) \<and>
    (node_height (rebalance (avl_make k v l r)) = node_height l \<or>
     node_height (rebalance (avl_make k v l r)) = node_height l + 1)"
proof -
  obtain lk lv ll lr lh lc where l: "l = AvlNode lk lv ll lr lh lc"
    using assms(3) by (cases l) auto
  show ?thesis
  proof (cases "node_height ll < node_height lr")
    case True
    then obtain mk mv ml mr mh mc where lr: "lr = AvlNode mk mv ml mr mh mc"
      by (cases lr) auto
    then show ?thesis
      using assms True unfolding l by (auto simp: avl_make_def max_def split: if_splits)
  next
    case False
    then show ?thesis
      using assms unfolding l by (auto simp: avl_make_def max_def split: if_splits)
  qed
qed

lemma rebalance_right:
  assumes "avl_ok l" "avl_ok r" "node_height r = node_height l + 2"
  shows "avl_ok (rebalance (avl_make k v l r)) \<and>
    (node_height (rebalance (avl_make k v l r)) = node_height r \<or>
     node_height (rebalance (avl_make k v l r)) = node_height r + 1)"
proof -
  obtain rk rv rl rr rh rc where r: "r = AvlNode rk rv rl rr rh rc"
    using assms(3) by (cases r) auto
  show ?thesis
  proof (cases "node_height rr < node_height rl")
    case True
    then obtain mk mv ml mr mh mc where rl: "rl = AvlNode mk mv ml mr mh mc"
      by (cases rl) auto
    then show ?thesis
      using assms True unfolding r by (auto simp: avl_make_def max_def split: if_splits)
  next
    case False
    then show ?thesis
      using assms unfolding r by (auto simp: avl_make_def max_def split: if_splits)
  qed
qed

text \<open>One rebalancing step repairs what one insertion or removal below can do to the heights.\<close>

lemma rebalance_ok:
  assumes "avl_ok l" "avl_ok r" "node_height l \<le> node_height r + 2" "node_height r \<le> node_height l + 2"
  shows "avl_ok (rebalance (avl_make k v l r))"
    "max (node_height l) (node_height r) \<le> node_height (rebalance (avl_make k v l r))"
    "node_height (rebalance (avl_make k v l r)) \<le> 1 + max (node_height l) (node_height r)"
    "node_height l \<le> node_height r + 1 \<Longrightarrow> node_height r \<le> node_height l + 1 \<Longrightarrow>
       node_height (rebalance (avl_make k v l r)) = 1 + max (node_height l) (node_height r)"
proof -
  consider "node_height l = node_height r + 2" | "node_height r = node_height l + 2"
    | "node_height l \<le> node_height r + 1" "node_height r \<le> node_height l + 1"
    using assms(3,4) by linarith
  then have "avl_ok (rebalance (avl_make k v l r)) \<and>
    max (node_height l) (node_height r) \<le> node_height (rebalance (avl_make k v l r)) \<and>
    node_height (rebalance (avl_make k v l r)) \<le> 1 + max (node_height l) (node_height r)"
    using rebalance_left [OF assms(1,2), of k v] rebalance_right [OF assms(1,2), of k v]
      rebalance_make [of r l k v] assms(1,2) by cases auto
  then show "avl_ok (rebalance (avl_make k v l r))"
    "max (node_height l) (node_height r) \<le> node_height (rebalance (avl_make k v l r))"
    "node_height (rebalance (avl_make k v l r)) \<le> 1 + max (node_height l) (node_height r)"
    by simp_all
  show "node_height l \<le> node_height r + 1 \<Longrightarrow> node_height r \<le> node_height l + 1 \<Longrightarrow>
       node_height (rebalance (avl_make k v l r)) = 1 + max (node_height l) (node_height r)"
    by (simp add: rebalance_make)
qed

theorem insert_balanced:
  "avl_ok t \<Longrightarrow> avl_ok (avl_insert t key val) \<and> node_height t \<le> node_height (avl_insert t key val) \<and>
     node_height (avl_insert t key val) \<le> node_height t + 1"
proof (induction t key val rule: avl_insert.induct)
  case (2 k v l r h c key val)
  consider "key < k" | "k < key" | "key = k"
    by (meson linorder_neqE)
  then show ?case
  proof cases
    case 1
    then show ?thesis
      using 2 rebalance_ok [of "avl_insert l key val" r k v]
      by (cases "node_height (avl_insert l key val) \<le> node_height r + 1") (auto simp: max_def split: if_splits)
  next
    case 2
    then show ?thesis
      using "2.IH"(2) "2.prems" rebalance_ok [of l "avl_insert r key val" k v]
      by (cases "node_height (avl_insert r key val) \<le> node_height l + 1") (auto simp: max_def split: if_splits)
  qed (use 2 in auto)
qed simp

theorem remove_balanced:
  "avl_ok t \<Longrightarrow> avl_ok (avl_remove t key) \<and> node_height (avl_remove t key) \<le> node_height t \<and>
     node_height t \<le> node_height (avl_remove t key) + 1"
proof (induction t key rule: avl_remove.induct)
  case (2 k v l r h c key)
  note ok = "2.prems"
  consider "key < k" | "k < key" | "key = k"
    by (meson linorder_neqE)
  then show ?case
  proof cases
    case 1
    then show ?thesis
      using "2.IH"(1) ok rebalance_ok [of "avl_remove l key" r k v]
      by (cases "node_height r \<le> node_height (avl_remove l key) + 1") (auto simp: Let_def max_def split: if_splits)
  next
    case 2
    then show ?thesis
      using "2.IH"(2) ok rebalance_ok [of l "avl_remove r key" k v]
      by (cases "node_height l \<le> node_height (avl_remove r key) + 1") (auto simp: Let_def max_def split: if_splits)
  next
    case 3
    show ?thesis
    proof (cases "l = AvlNil \<or> r = AvlNil")
      case True
      then show ?thesis
        using 3 ok by (auto split: avl.splits)
    next
      case False
      then obtain lk lv ll lr lh lc rk rv rl rr rh rc where
        lr: "l = AvlNode lk lv ll lr lh lc" "r = AvlNode rk rv rl rr rh rc"
        by (meson avl.exhaust)
      obtain sk sv where sk: "leftmost rk rv rl = (sk, sv)"
        by force
      have "avl_remove (AvlNode k v l r h c) key = rebalance (avl_make sk sv l (avl_remove r sk))"
        using 3 lr sk by simp
      moreover have "avl_ok (avl_remove r sk) \<and> node_height (avl_remove r sk) \<le> node_height r \<and>
        node_height r \<le> node_height (avl_remove r sk) + 1"
        using "2.IH"(3) 3 lr sk ok by fastforce
      ultimately show ?thesis
        using ok rebalance_ok [of l "avl_remove r sk" sk sv]
        by (cases "node_height l \<le> node_height (avl_remove r sk) + 1")
          (auto simp: max_def simp del: avl_remove.simps split: if_splits)
    qed
  qed
qed simp

lemma count_bindings: "avl_ok t \<Longrightarrow> node_count t = length (bindings t)"
  by (induction t) simp_all

text \<open>Heights, and with them search paths, are at most twice the binary logarithm of the size.\<close>

theorem height_logarithmic: "avl_ok t \<Longrightarrow> 2 ^ (node_height t div 2) \<le> node_count t + 1"
proof (induction t)
  case (AvlNode k v l r h c)
  define m where "m = min (node_height l) (node_height r)"
  have mono: "(2::nat) ^ (m div 2) \<le> 2 ^ (node_height l div 2)" "(2::nat) ^ (m div 2) \<le> 2 ^ (node_height r div 2)"
    by (simp_all add: m_def div_le_mono)
  have "h \<le> m + 2"
    using AvlNode.prems by (auto simp: m_def)
  then have "(2::nat) ^ (h div 2) \<le> 2 ^ ((m + 2) div 2)"
    by (intro power_increasing div_le_mono) simp_all
  also have "\<dots> = 2 ^ (m div 2) + 2 ^ (m div 2)"
    by simp
  also have "\<dots> \<le> (node_count l + 1) + (node_count r + 1)"
    using mono AvlNode by (intro add_mono order_trans [OF mono(1)] order_trans [OF mono(2)]) auto
  finally show ?case
    using AvlNode.prems by simp
qed simp

subsection \<open>Building from sorted entries\<close>

fun halving_height :: "nat \<Rightarrow> nat" where
  "halving_height n = (if n = 0 then 0 else 1 + halving_height (n div 2))"

declare halving_height.simps [simp del]

lemma halving_height_step: "halving_height n \<le> halving_height (n + 1) \<and> halving_height (n + 1) \<le> halving_height n + 1"
proof (induction n rule: less_induct)
  case (less n)
  show ?case
  proof (cases "n = 0")
    case True
    then show ?thesis
      by (simp add: halving_height.simps)
  next
    case False
    have "(n + 1) div 2 = n div 2 \<or> (n + 1) div 2 = n div 2 + 1"
      by linarith
    then show ?thesis
      using less [of "n div 2"] False halving_height.simps [of n] halving_height.simps [of "n + 1"] by auto
  qed
qed

lemma build_balanced_ok:
  assumes "first \<le> last'" "last' \<le> length xs"
  shows "bindings (build_balanced xs first last') = drop first (take last' xs) \<and>
    avl_ok (build_balanced xs first last') \<and>
    node_height (build_balanced xs first last') = halving_height (last' - first)"
  using assms
proof (induction xs first last' rule: build_balanced.induct)
  case (1 xs first last')
  show ?case
  proof (cases "last' \<le> first")
    case True
    then show ?thesis
      using 1(3) by (simp add: build_balanced.simps halving_height.simps)
  next
    case False
    define n where "n = last' - first"
    define m where "m = first + n div 2"
    have m: "first \<le> m" "m < last'" "m - first = n div 2" "last' - (m + 1) = n - 1 - n div 2" "0 < n"
      using False by (auto simp: m_def n_def)
    have step: "build_balanced xs first last' = avl_make (fst (xs ! m)) (snd (xs ! m))
        (build_balanced xs first m) (build_balanced xs (m + 1) last')"
      using False by (subst build_balanced.simps) (simp add: m_def n_def Let_def)
    have left: "bindings (build_balanced xs first m) = drop first (take m xs)"
      "avl_ok (build_balanced xs first m)"
      "node_height (build_balanced xs first m) = halving_height (n div 2)"
      using 1(1) [OF False m_def [unfolded n_def]] m 1(4) by (simp_all add: n_def)
    have right: "bindings (build_balanced xs (m + 1) last') = drop (m + 1) (take last' xs)"
      "avl_ok (build_balanced xs (m + 1) last')"
      "node_height (build_balanced xs (m + 1) last') = halving_height (n - 1 - n div 2)"
      using 1(2) [OF False m_def [unfolded n_def] refl] m 1(4) by simp_all
    have small: "n - 1 - n div 2 = n div 2 \<or> n div 2 = (n - 1 - n div 2) + 1"
      using m(5) by linarith
    have h: "halving_height n = 1 + halving_height (n div 2)"
      using m(5) by (subst halving_height.simps) simp
    have "drop first (take last' xs) = drop first (take m xs) @ xs ! m # drop (m + 1) (take last' xs)"
    proof -
      have "take last' xs = take m xs @ xs ! m # drop (m + 1) (take last' xs)"
        using id_take_nth_drop [of m "take last' xs"] m(2) 1(4) by (simp add: min_def)
      then show ?thesis
        using m(1,2) 1(4) by (metis drop_append drop_0 length_take min.absorb2 diff_is_0_eq' le_trans less_imp_le)
    qed
    then show ?thesis
      using step left right small h halving_height_step [of "n - 1 - n div 2"]
      by (auto simp: n_def [symmetric])
  qed
qed

theorem from_sorted_ok:
  "bindings (from_sorted xs) = xs \<and> avl_ok (from_sorted xs)"
  using build_balanced_ok [of 0 "length xs" xs] by (simp add: from_sorted_def)

section \<open>Neighbours\<close>

lemma sorted_filter_last:
  assumes "sorted1 xs" "p \<in> set xs" "P (fst p)" "filter (\<lambda>q. P (fst q)) xs \<noteq> []"
  shows "fst p \<le> fst (last (filter (\<lambda>q. P (fst q)) xs))"
  using assms
proof (induction xs)
  case (Cons x xs)
  then show ?case
    by (cases "filter (\<lambda>q. P (fst q)) xs = []")
      (fastforce simp: filter_empty_conv dest!: last_in_set)+
qed simp

lemma sorted_filter_hd:
  assumes "sorted1 xs" "p \<in> set xs" "P (fst p)"
  shows "fst (hd (filter (\<lambda>q. P (fst q)) xs)) \<le> fst p"
  using assms by (induction xs) auto

lemma predecessor_Some:
  assumes "sorted1 (bindings t)" "avl_predecessor t key = Some p"
  shows "p \<in> set (bindings t)" "fst p \<le> key"
    "q \<in> set (bindings t) \<Longrightarrow> fst q \<le> key \<Longrightarrow> fst q \<le> fst p"
proof -
  let ?f = "filter (\<lambda>p. fst p \<le> key) (bindings t)"
  have p: "?f \<noteq> []" "p = last ?f"
    using assms by (auto simp: predecessor_bindings last_of_def split: if_splits)
  then have "p \<in> set ?f"
    using last_in_set by blast
  then show "p \<in> set (bindings t)" "fst p \<le> key"
    by auto
  show "fst q \<le> fst p" if "q \<in> set (bindings t)" "fst q \<le> key"
    using sorted_filter_last [of "bindings t" q "\<lambda>k. k \<le> key"] assms(1) that p by simp
qed

lemma predecessor_None:
  "sorted1 (bindings t) \<Longrightarrow> avl_predecessor t key = None \<Longrightarrow> q \<in> set (bindings t) \<Longrightarrow> \<not> fst q \<le> key"
  by (auto simp: predecessor_bindings last_of_def filter_empty_conv split: if_splits)

lemma lower_bound_Some:
  assumes "sorted1 (bindings t)" "avl_lower_bound t key = Some p"
  shows "p \<in> set (bindings t)" "key \<le> fst p"
    "q \<in> set (bindings t) \<Longrightarrow> key \<le> fst q \<Longrightarrow> fst p \<le> fst q"
proof -
  let ?f = "filter (\<lambda>p. key \<le> fst p) (bindings t)"
  have p: "?f \<noteq> []" "p = hd ?f"
    using assms by (auto simp: lower_bound_bindings first_of_def split: list.splits)
  then have "p \<in> set ?f"
    using hd_in_set by blast
  then show "p \<in> set (bindings t)" "key \<le> fst p"
    by auto
  show "fst p \<le> fst q" if "q \<in> set (bindings t)" "key \<le> fst q"
    using sorted_filter_hd [of "bindings t" q "\<lambda>k. key \<le> k"] assms(1) that p by simp
qed

lemma lower_bound_None:
  "sorted1 (bindings t) \<Longrightarrow> avl_lower_bound t key = None \<Longrightarrow> q \<in> set (bindings t) \<Longrightarrow> \<not> key \<le> fst q"
  by (auto simp: lower_bound_bindings first_of_def filter_empty_conv split: list.splits)

lemma fold_until_while:
  "fold_until (\<lambda>x s. if P x then (f x s, True) else (s, False)) xs s =
     (fold f (takeWhile P xs) s, takeWhile P xs = xs)"
  by (induction xs arbitrary: s) auto

section \<open>The map interface\<close>

text \<open>
  What the indexes over this map rely on: updates act on the finite map, lookups answer from it,
  and the order of the visit is the order of the keys.
\<close>

definition avl_map :: "('k::linorder, 'v) avl \<Rightarrow> 'k \<rightharpoonup> 'v" where
  "avl_map t = map_of (bindings t)"

definition avl_wf :: "('k::linorder, 'v) avl \<Rightarrow> bool" where
  "avl_wf t \<longleftrightarrow> sorted1 (bindings t) \<and> avl_ok t"

locale ordered_map =
  fixes empty_map :: 'm
    and wf_map :: "'m \<Rightarrow> bool"
    and binds :: "'m \<Rightarrow> ('k::linorder \<times> 'v) list"
    and find_in :: "'m \<Rightarrow> 'k \<Rightarrow> 'v option"
    and insert_in :: "'m \<Rightarrow> 'k \<Rightarrow> 'v \<Rightarrow> 'm"
    and erase_in :: "'m \<Rightarrow> 'k \<Rightarrow> 'm"
  assumes empty_ok: "wf_map empty_map" "binds empty_map = []"
    and wf_sorted: "wf_map m \<Longrightarrow> sorted1 (binds m)"
    and find_ok: "wf_map m \<Longrightarrow> find_in m k = map_of (binds m) k"
    and insert_ok: "wf_map m \<Longrightarrow> wf_map (insert_in m k v) \<and> binds (insert_in m k v) = put k v (binds m)"
    and erase_ok: "wf_map m \<Longrightarrow> wf_map (erase_in m k) \<and> binds (erase_in m k) = cut k (binds m)"
begin

lemma find_after_insert: "wf_map m \<Longrightarrow> find_in (insert_in m k v) k' = (if k' = k then Some v else find_in m k')"
  by (simp add: find_ok insert_ok map_of_put)

lemma find_after_erase: "wf_map m \<Longrightarrow> find_in (erase_in m k) k' = (if k' = k then None else find_in m k')"
  by (simp add: find_ok erase_ok map_of_cut)

lemma erase_insert: "wf_map m \<Longrightarrow> find_in m k = None \<Longrightarrow> binds (erase_in (insert_in m k v) k) = binds m"
  using wf_sorted [of m] insert_ok [of m k v] erase_ok [of "insert_in m k v" k]
    wf_sorted [of "erase_in (insert_in m k v) k"]
  by (intro sorted1_ext) (auto simp: map_of_cut map_of_put find_ok fun_upd_idem)

end

interpretation avl: ordered_map AvlNil avl_wf bindings avl_find avl_insert avl_remove
  by unfold_locales
    (simp_all add: avl_wf_def find_bindings insert_bindings remove_bindings sorted1_put sorted1_cut
      insert_balanced remove_balanced)

section \<open>Maps of intervals\<close>

text \<open>
  The indexes keep half-open intervals: a key has an owner and a start, a value an end, and keys
  are ordered by owner, then start. As long as no two intervals of one owner overlap, the rows
  next to a key tell everything about it.
\<close>

definition rows_apart :: "('k \<Rightarrow> 'o) \<Rightarrow> ('k \<Rightarrow> nat) \<Rightarrow> ('v \<Rightarrow> nat) \<Rightarrow> ('k \<times> 'v) set \<Rightarrow> bool" where
  "rows_apart owner start stop R \<longleftrightarrow>
     (\<forall>r \<in> R. start (fst r) < stop (snd r)) \<and>
     (\<forall>r \<in> R. \<forall>s \<in> R. owner (fst r) = owner (fst s) \<longrightarrow> start (fst r) < start (fst s) \<longrightarrow>
        stop (snd r) \<le> start (fst s))"

lemma same_key_same_row:
  assumes "sorted1 xs" "(k, v) \<in> set xs" "(k, w) \<in> set xs"
  shows "v = w"
  using sorted1_distinct [OF assms(1)] assms(2,3) by (meson eq_key_imp_eq_value)

lemma set_put:
  assumes "\<nexists>v. (k, v) \<in> set xs"
  shows "set (put k w xs) = insert (k, w) (set xs)"
  using assms by (auto simp: put_def) (metis linorder_neqE prod.collapse)+

lemma find_None: "sorted1 (bindings ix) \<Longrightarrow> avl_find ix k = None \<longleftrightarrow> (\<nexists>v. (k, v) \<in> set (bindings ix))"
  by (force simp: find_bindings map_of_eq_None_iff)

lemma find_Some: "sorted1 (bindings ix) \<Longrightarrow> avl_find ix k = Some v \<longleftrightarrow> (k, v) \<in> set (bindings ix)"
  by (simp add: find_bindings sorted1_distinct)

locale interval_rows =
  fixes owner :: "'k::linorder \<Rightarrow> 'o::linorder"
    and start :: "'k \<Rightarrow> nat"
    and stop :: "'v \<Rightarrow> nat"
  assumes key_le: "k \<le> k' \<longleftrightarrow> owner k < owner k' \<or> owner k = owner k' \<and> start k \<le> start k'"
begin

lemma apartD:
  assumes "rows_apart owner start stop R" "(k, v) \<in> R"
  shows "start k < stop v"
    "(k', w) \<in> R \<Longrightarrow> owner k = owner k' \<Longrightarrow> start k < start k' \<Longrightarrow> stop v \<le> start k'"
  using assms unfolding rows_apart_def by (metis fst_conv snd_conv)+

lemma apartI:
  assumes "\<And>k v. (k, v) \<in> R \<Longrightarrow> start k < stop v"
    and "\<And>k v m w. (k, v) \<in> R \<Longrightarrow> (m, w) \<in> R \<Longrightarrow> owner k = owner m \<Longrightarrow> start k < start m \<Longrightarrow> stop v \<le> start m"
  shows "rows_apart owner start stop R"
  using assms unfolding rows_apart_def by auto

lemma same_key: "owner k = owner k' \<Longrightarrow> start k = start k' \<Longrightarrow> k = k'"
  by (simp add: antisym key_le)

lemma between: "k \<le> m \<Longrightarrow> m \<le> k' \<Longrightarrow> owner k = owner k' \<Longrightarrow> owner m = owner k \<and> start k \<le> start m \<and> start m \<le> start k'"
  by (auto simp: key_le)

text \<open>The predecessor of a key is the only row of its owner that can reach it.\<close>

lemma predecessor_reaches:
  assumes s: "sorted1 (bindings ix)" and a: "rows_apart owner start stop (set (bindings ix))"
    and row: "(m, v) \<in> set (bindings ix)" "owner m = owner k" "start m \<le> start k" "start k < stop v"
  shows "avl_predecessor ix k = Some (m, v)"
proof -
  have le: "m \<le> k"
    using row by (simp add: key_le)
  obtain n w where p: "avl_predecessor ix k = Some (n, w)"
    using predecessor_None [OF s _ row(1)] le by (cases "avl_predecessor ix k") auto
  have in_ix: "(n, w) \<in> set (bindings ix)" and "n \<le> k" "m \<le> n"
    using predecessor_Some(1,2) [OF s p] predecessor_Some(3) [OF s p row(1)] le by simp_all
  then have b: "owner n = owner m" "start m \<le> start n" "start n \<le> start k"
    using between [of m n k] row(2) by simp_all
  have "start m = start n"
  proof (rule ccontr)
    assume "start m \<noteq> start n"
    then have "stop v \<le> start n"
      using apartD(2) [OF a row(1) in_ix] b by simp
    then show False
      using b(3) row(4) by simp
  qed
  then have "m = n"
    using b(1) same_key by simp
  then show ?thesis
    using p same_key_same_row [OF s row(1)] in_ix by simp
qed

lemma predecessor_covers:
  assumes "sorted1 (bindings ix)" "rows_apart owner start stop (set (bindings ix))"
  shows "(\<exists>m. avl_predecessor ix k = Some (m, v) \<and> owner m = owner k \<and> start k < stop v) \<longleftrightarrow>
    (\<exists>m. (m, v) \<in> set (bindings ix) \<and> owner m = owner k \<and> start m \<le> start k \<and> start k < stop v)"
  using predecessor_reaches [OF assms] predecessor_Some(1,2) [OF assms(1)]
  by (metis fst_conv key_le less_irrefl)

text \<open>The two neighbours decide whether any row overlaps a new interval.\<close>

lemma neighbours:
  assumes s: "sorted1 (bindings ix)" and a: "rows_apart owner start stop (set (bindings ix))"
    and f: "avl_find ix k = None" and e: "start k < e"
  shows "(\<exists>m v. avl_predecessor ix k = Some (m, v) \<and> owner m = owner k \<and> stop v > start k) \<or>
      (\<exists>m v. avl_lower_bound ix k = Some (m, v) \<and> owner m = owner k \<and> start m < e) \<longleftrightarrow>
    (\<exists>(m, v) \<in> set (bindings ix). owner m = owner k \<and> start m < e \<and> start k < stop v)" (is "?near \<longleftrightarrow> ?far")
proof
  assume ?near
  then consider m v where "avl_predecessor ix k = Some (m, v)" "owner m = owner k" "start k < stop v"
    | m v where "avl_lower_bound ix k = Some (m, v)" "owner m = owner k" "start m < e"
    by blast
  then show ?far
  proof cases
    case 1
    then have "(m, v) \<in> set (bindings ix)" "start m \<le> start k"
      using predecessor_Some(1,2) [OF s 1(1)] by (auto simp: key_le)
    then show ?thesis
      using 1 e by (intro bexI [of _ "(m, v)"]) auto
  next
    case 2
    then have in_ix: "(m, v) \<in> set (bindings ix)" and "start k \<le> start m"
      using lower_bound_Some(1,2) [OF s 2(1)] by (auto simp: key_le)
    then have "start k < stop v"
      using apartD(1) [OF a in_ix] by simp
    then show ?thesis
      using 2 in_ix by (intro bexI [of _ "(m, v)"]) auto
  qed
next
  assume ?far
  then obtain m v where row: "(m, v) \<in> set (bindings ix)" "owner m = owner k" "start m < e" "start k < stop v"
    by blast
  have "m \<noteq> k"
    using f find_None [OF s] row(1) by blast
  then have "start m \<noteq> start k"
    using same_key row(2) by blast
  then consider "start m < start k" | "start k < start m"
    by linarith
  then show ?near
  proof cases
    case 1
    then have "avl_predecessor ix k = Some (m, v)"
      using predecessor_reaches [OF s a row(1,2) _ row(4)] by simp
    then show ?thesis
      using row by blast
  next
    case 2
    then have le: "k \<le> m"
      using row(2) by (simp add: key_le)
    obtain n w where p: "avl_lower_bound ix k = Some (n, w)"
      using lower_bound_None [OF s _ row(1)] le by (cases "avl_lower_bound ix k") auto
    have "k \<le> n" "n \<le> m"
      using lower_bound_Some(2) [OF s p] lower_bound_Some(3) [OF s p row(1)] le by simp_all
    then have "owner n = owner k" "start n \<le> start m"
      using between [of k n m] row(2) by simp_all
    then show ?thesis
      using p row(3) by (intro disjI2 exI [of _ n] exI [of _ w]) simp
  qed
qed

lemma apart_insert:
  assumes "rows_apart owner start stop R" "start k < stop v"
    and "\<not> (\<exists>(m, w) \<in> R. owner m = owner k \<and> start m < stop v \<and> start k < stop w)"
  shows "rows_apart owner start stop (insert (k, v) R)"
proof (rule apartI)
  have new: "stop w \<le> start k \<or> stop v \<le> start m" if "(m, w) \<in> R" "owner m = owner k" for m w
    using assms(3) that by (fastforce simp: not_less)
  show "start n < stop x" if "(n, x) \<in> insert (k, v) R" for n x
    using that assms(2) apartD(1) [OF assms(1)] by blast
  show "stop x \<le> start m"
    if x: "(n, x) \<in> insert (k, v) R" and w: "(m, w) \<in> insert (k, v) R"
      and o: "owner n = owner m" "start n < start m" for n x m w
  proof (cases "(n, x) = (k, v)")
    case True
    then have "(m, w) \<in> R"
      using w o(2) by auto
    then show ?thesis
      using True new [of m w] apartD(1) [OF assms(1), of m w] o by auto
  next
    case False
    then have x: "(n, x) \<in> R"
      using x by blast
    show ?thesis
    proof (cases "(m, w) = (k, v)")
      case True
      then show ?thesis
        using new [OF x] o assms(2) by auto
    next
      case False
      then show ?thesis
        using apartD(2) [OF assms(1) x] w o by blast
    qed
  qed
qed

lemma apart_subset: "rows_apart owner start stop R \<Longrightarrow> S \<subseteq> R \<Longrightarrow> rows_apart owner start stop S"
  unfolding rows_apart_def by blast

end

end
