(* ===== verification/Run_Indexes.thy ===== *)
theory Run_Indexes
  imports Avl_Map Actor_Identity
begin

text \<open>
  The lookups the text buffer derives from its fragments: \<open>OriginIndex\<close> (from an item identity to
  the retained run that holds it), \<open>DeletionIndex\<close> (from a deleting operation to the runs it marks)
  and \<open>RunDirectory\<close> (from a run to a leaf and slot of the fragment tree), with the node identities
  of \<open>TreeNodeId.h\<close>. An update that returns \<open>false\<close> and leaves the index alone is \<open>None\<close>. The
  lemmas show that the neighbours an insertion checks are enough to keep all intervals of an actor
  apart, and that the lookups by bisection answer what a scan of all rows would.
\<close>

section \<open>Node identities\<close>

record node_id =
  ni_tree :: nat
  ni_local :: nat

definition node_id_valid :: "node_id \<Rightarrow> bool" where
  "node_id_valid i \<longleftrightarrow> ni_tree i \<noteq> 0 \<and> ni_local i \<noteq> 0"

record node_allocator =
  na_tree :: nat
  na_next :: nat
  na_exhausted :: bool

text \<open>\<open>create\<close> takes the next tree namespace from a process-wide counter, the first component.\<close>

definition create_allocator :: "nat \<Rightarrow> nat \<times> node_allocator option" where
  "create_allocator next_namespace =
     (if next_namespace \<noteq> 0 \<and> next_namespace \<noteq> U64_MAX
      then (next_namespace + 1, Some \<lparr>na_tree = next_namespace, na_next = 1, na_exhausted = False\<rparr>)
      else (next_namespace, None))"

definition allocate_node :: "node_allocator \<Rightarrow> node_allocator \<times> node_id option" where
  "allocate_node a =
     (if na_tree a = 0 \<or> na_exhausted a \<or> na_next a = 0 then (a, None)
      else
        let i = \<lparr>ni_tree = na_tree a, ni_local = na_next a\<rparr> in
        if na_next a = U64_MAX then (a\<lparr>na_exhausted := True\<rparr>, Some i)
        else (a\<lparr>na_next := na_next a + 1\<rparr>, Some i))"

record stable_ids =
  si_allocator :: node_allocator
  si_failed :: bool

definition stable_allocate :: "stable_ids \<Rightarrow> stable_ids \<times> node_id" where
  "stable_allocate s =
     (case allocate_node (si_allocator s) of
        (a, None) \<Rightarrow> (s\<lparr>si_allocator := a, si_failed := True\<rparr>, \<lparr>ni_tree = 0, ni_local = 0\<rparr>)
      | (a, Some i) \<Rightarrow> (s\<lparr>si_allocator := a\<rparr>, i))"

definition stable_valid :: "stable_ids \<Rightarrow> bool" where
  "stable_valid s \<longleftrightarrow> \<not> si_failed s \<and> na_tree (si_allocator s) \<noteq> 0"

text \<open>Identities are handed out in ascending order, so none is handed out twice.\<close>

fun allocate_many :: "nat \<Rightarrow> stable_ids \<Rightarrow> stable_ids \<times> node_id list" where
  "allocate_many 0 s = (s, [])"
| "allocate_many (Suc n) s =
     (case stable_allocate s of (s1, i) \<Rightarrow> (case allocate_many n s1 of (s2, ids) \<Rightarrow> (s2, i # ids)))"

lemma stable_allocate_step:
  assumes "stable_allocate s = (s1, i)" "node_id_valid i" "na_next (si_allocator s) \<le> U64_MAX"
  shows "ni_local i = na_next (si_allocator s)" "na_next (si_allocator s1) \<le> U64_MAX"
    "na_exhausted (si_allocator s1) \<or> na_next (si_allocator s1) = ni_local i + 1"
    "\<not> na_exhausted (si_allocator s)"
  using assms by (auto simp: stable_allocate_def allocate_node_def node_id_valid_def Let_def
      split: if_splits prod.splits option.splits)

lemma exhausted_allocates_nothing:
  "na_exhausted (si_allocator s) \<Longrightarrow> allocate_many n s = (s', ids) \<Longrightarrow> i \<in> set ids \<Longrightarrow> \<not> node_id_valid i"
proof (induction n arbitrary: s ids)
  case (Suc n)
  have step: "stable_allocate s = (s\<lparr>si_failed := True\<rparr>, \<lparr>ni_tree = 0, ni_local = 0\<rparr>)"
    using Suc.prems(1) by (simp add: stable_allocate_def allocate_node_def)
  obtain rest where rest: "allocate_many n (s\<lparr>si_failed := True\<rparr>) = (s', rest)"
    "ids = \<lparr>ni_tree = 0, ni_local = 0\<rparr> # rest"
    using Suc.prems(2) step by (auto split: prod.splits)
  show ?case
    using Suc.IH [OF _ rest(1)] Suc.prems(1,3) rest(2) by (auto simp: node_id_valid_def)
qed simp

lemma allocate_many_ascending:
  assumes "allocate_many n s = (s', ids)" "list_all node_id_valid ids" "na_next (si_allocator s) \<le> U64_MAX"
  shows "sorted_wrt (<) (map ni_local ids) \<and> list_all (\<lambda>i. na_next (si_allocator s) \<le> ni_local i) ids"
  using assms
proof (induction n arbitrary: s ids)
  case (Suc n)
  obtain s1 i rest where step: "stable_allocate s = (s1, i)" "allocate_many n s1 = (s', rest)"
    "ids = i # rest"
    using Suc.prems(1) by (auto split: prod.splits)
  have valid: "node_id_valid i" "list_all node_id_valid rest"
    using Suc.prems(2) step(3) by simp_all
  note one = stable_allocate_step [OF step(1) valid(1) Suc.prems(3)]
  have "rest = []" if "na_exhausted (si_allocator s1)"
    using exhausted_allocates_nothing [OF that step(2)] valid(2)
    by (cases rest) (auto simp: list_all_iff)
  moreover have "sorted_wrt (<) (map ni_local rest) \<and> list_all (\<lambda>i. na_next (si_allocator s1) \<le> ni_local i) rest"
    using Suc.IH [OF step(2) valid(2) one(2)] .
  ultimately show ?case
    using one step(3) by (auto simp: list_all_iff)
qed simp

section \<open>Origin index\<close>

record origin_interval =
  oi_end :: nat
  oi_run :: nat

record interval_entry =
  ie_actor :: actor_id
  ie_first :: nat
  ie_end :: nat
  ie_run :: nat

type_synonym origin_index = "(actor_id \<times> nat, origin_interval) avl"

definition origin_insert :: "actor_id \<Rightarrow> nat \<Rightarrow> nat \<Rightarrow> nat \<Rightarrow> origin_index \<Rightarrow> origin_index option" where
  "origin_insert a first end' run ix =
     (if \<not> actor_valid a \<or> first = 0 \<or> end' \<le> first \<or> run = 0 then None
      else if avl_find ix (a, first) \<noteq> None then None
      else if (case avl_predecessor ix (a, first) of
                 Some ((b, g), v) \<Rightarrow> b = a \<and> oi_end v > first | None \<Rightarrow> False) then None
      else if (case avl_lower_bound ix (a, first) of
                 Some ((b, g), v) \<Rightarrow> b = a \<and> g < end' | None \<Rightarrow> False) then None
      else Some (avl_insert ix (a, first) \<lparr>oi_end = end', oi_run = run\<rparr>))"

text \<open>The loop of \<open>rebuild\<close>: \<open>previous\<close> and \<open>previous_end\<close> are those of the row before.\<close>

fun origin_rows_ok :: "(actor_id \<times> nat) option \<Rightarrow> nat \<Rightarrow> ((actor_id \<times> nat) \<times> origin_interval) list \<Rightarrow> bool" where
  "origin_rows_ok previous previous_end [] = True"
| "origin_rows_ok previous previous_end (((a, first), v) # rows) =
     (if \<not> actor_valid a \<or> first = 0 \<or> oi_end v \<le> first \<or> oi_run v = 0 then False
      else if (case previous of
                 Some (b, g) \<Rightarrow> b = a \<and> (g \<ge> first \<or> previous_end > first) | None \<Rightarrow> False) then False
      else origin_rows_ok (Some (a, first)) (oi_end v) rows)"

definition origin_rebuild :: "((actor_id \<times> nat) \<times> origin_interval) list \<Rightarrow> origin_index option" where
  "origin_rebuild rows =
     (let sorted_rows = sort_key fst rows in
      if origin_rows_ok None 0 sorted_rows then Some (from_sorted sorted_rows) else None)"

definition origin_erase :: "actor_id \<Rightarrow> nat \<Rightarrow> origin_index \<Rightarrow> origin_index option" where
  "origin_erase a first ix =
     (if avl_find ix (a, first) = None then None else Some (avl_remove ix (a, first)))"

definition origin_locate :: "origin_index \<Rightarrow> identity \<Rightarrow> origin_interval option" where
  "origin_locate ix i =
     (case avl_predecessor ix (actor i, counter i) of
        None \<Rightarrow> None
      | Some ((a, first), v) \<Rightarrow> if a \<noteq> actor i \<or> counter i \<ge> oi_end v then None else Some v)"

definition find_interval_start :: "origin_index \<Rightarrow> actor_id \<Rightarrow> nat \<Rightarrow> nat option" where
  "find_interval_start ix a first = map_option oi_run (avl_find ix (a, first))"

definition interval_at_start :: "origin_index \<Rightarrow> actor_id \<Rightarrow> nat \<Rightarrow> origin_interval option" where
  "interval_at_start ix a first = avl_find ix (a, first)"

definition row_entry :: "(actor_id \<times> nat) \<times> origin_interval \<Rightarrow> interval_entry" where
  "row_entry row =
     \<lparr>ie_actor = fst (fst row), ie_first = snd (fst row), ie_end = oi_end (snd row), ie_run = oi_run (snd row)\<rparr>"

definition origin_overlapping :: "origin_index \<Rightarrow> actor_id \<Rightarrow> nat \<Rightarrow> nat \<Rightarrow> interval_entry list" where
  "origin_overlapping ix a first end' =
     (if \<not> actor_valid a \<or> first = 0 \<or> end' \<le> first then []
      else
        let result = fst (visit_from ix (a, first) (\<lambda>key v result.
              if fst key \<noteq> a \<or> snd key \<ge> end' then (result, False)
              else (if oi_end v > first then result @ [row_entry (key, v)] else result, True)) [])
        in case avl_predecessor ix (a, first) of
             None \<Rightarrow> result
           | Some (key, v) \<Rightarrow>
               if fst key = a \<and> oi_end v > first \<and> snd key < first then row_entry (key, v) # result
               else result)"

section \<open>Deletion index\<close>

record incidence =
  in_actor :: actor_id
  in_first :: nat
  in_end :: nat
  in_run :: nat

type_synonym deletion_key = "identity \<times> actor_id \<times> nat"
type_synonym deletion_index = "(deletion_key, incidence) avl"

definition deletion_insert ::
  "identity \<Rightarrow> actor_id \<Rightarrow> nat \<Rightarrow> nat \<Rightarrow> nat \<Rightarrow> deletion_index \<Rightarrow> deletion_index option" where
  "deletion_insert deletion a first end' run ix =
     (if \<not> actor_valid (actor deletion) \<or> counter deletion = 0 \<or> \<not> actor_valid a \<or> first = 0 \<or>
         end' \<le> first \<or> run = 0 then None
      else if avl_find ix (deletion, a, first) \<noteq> None then None
      else if (case avl_predecessor ix (deletion, a, first) of
                 Some ((d, b, g), v) \<Rightarrow> d = deletion \<and> b = a \<and> in_end v > first | None \<Rightarrow> False) then None
      else if (case avl_lower_bound ix (deletion, a, first) of
                 Some ((d, b, g), v) \<Rightarrow> d = deletion \<and> b = a \<and> g < end' | None \<Rightarrow> False) then None
      else Some (avl_insert ix (deletion, a, first)
        \<lparr>in_actor = a, in_first = first, in_end = end', in_run = run\<rparr>))"

fun deletion_rows_ok :: "(deletion_key \<times> incidence) option \<Rightarrow> (deletion_key \<times> incidence) list \<Rightarrow> bool" where
  "deletion_rows_ok previous [] = True"
| "deletion_rows_ok previous (((d, a, first), v) # rows) =
     (if \<not> actor_valid (actor d) \<or> counter d = 0 \<or> \<not> actor_valid (in_actor v) \<or> in_first v = 0 \<or>
         in_end v \<le> in_first v \<or> in_run v = 0 \<or> in_actor v \<noteq> a \<or> in_first v \<noteq> first then False
      else if (case previous of
                 Some ((d', a', first'), w) \<Rightarrow> d' = d \<and> a' = a \<and> (first' = first \<or> in_end w > in_first v)
               | None \<Rightarrow> False) then False
      else deletion_rows_ok (Some ((d, a, first), v)) rows)"

definition deletion_rebuild :: "(deletion_key \<times> incidence) list \<Rightarrow> deletion_index option" where
  "deletion_rebuild rows =
     (let sorted_rows = sort_key fst rows in
      if deletion_rows_ok None sorted_rows then Some (from_sorted sorted_rows) else None)"

definition deletion_erase :: "identity \<Rightarrow> actor_id \<Rightarrow> nat \<Rightarrow> deletion_index \<Rightarrow> deletion_index option" where
  "deletion_erase deletion a first ix =
     (if avl_find ix (deletion, a, first) = None then None else Some (avl_remove ix (deletion, a, first)))"

definition incidences :: "deletion_index \<Rightarrow> identity \<Rightarrow> incidence list" where
  "incidences ix deletion =
     fst (visit_from ix (deletion, default_actor, 0) (\<lambda>key v result.
       if fst key \<noteq> deletion then (result, False) else (result @ [v], True)) [])"

section \<open>Run directory\<close>

record run_location =
  rl_leaf :: node_id
  rl_slot :: nat

type_synonym run_directory = "(nat, run_location) avl"

definition locate_run :: "run_directory \<Rightarrow> nat \<Rightarrow> run_location option" where
  "locate_run dir run = avl_find dir run"

definition run_insert :: "nat \<Rightarrow> run_location \<Rightarrow> run_directory \<Rightarrow> run_directory option" where
  "run_insert run loc dir =
     (if \<not> node_id_valid (rl_leaf loc) then None
      else if run = 0 \<or> avl_find dir run \<noteq> None then None
      else Some (avl_insert dir run loc))"

definition run_insert_or_assign :: "nat \<Rightarrow> run_location \<Rightarrow> run_directory \<Rightarrow> run_directory option" where
  "run_insert_or_assign run loc dir =
     (if run = 0 \<or> \<not> node_id_valid (rl_leaf loc) then None else Some (avl_insert dir run loc))"

definition run_erase :: "nat \<Rightarrow> run_directory \<Rightarrow> run_directory option" where
  "run_erase run dir = (if avl_find dir run = None then None else Some (avl_remove dir run))"

definition run_rebuild :: "(nat \<times> run_location) list \<Rightarrow> run_directory option" where
  "run_rebuild rows =
     (let sorted_rows = sort_key fst rows in
      if list_ex (\<lambda>row. fst row = 0) sorted_rows \<or> \<not> distinct (map fst sorted_rows) then None
      else if list_ex (\<lambda>row. \<not> node_id_valid (rl_leaf (snd row))) sorted_rows then None
      else if \<not> distinct (map (\<lambda>row. (ni_tree (rl_leaf (snd row)), ni_local (rl_leaf (snd row)),
                rl_slot (snd row))) sorted_rows) then None
      else Some (from_sorted sorted_rows))"

section \<open>Both indexes are maps of intervals\<close>

interpretation origin_rows: interval_rows "fst :: actor_id \<times> nat \<Rightarrow> actor_id" snd oi_end
  by unfold_locales auto

definition deletion_owner :: "deletion_key \<Rightarrow> identity \<times> actor_id" where
  "deletion_owner key = (fst key, fst (snd key))"

definition deletion_start :: "deletion_key \<Rightarrow> nat" where
  "deletion_start key = snd (snd key)"

interpretation deletion_rows: interval_rows deletion_owner deletion_start in_end
  by unfold_locales (auto simp: deletion_owner_def deletion_start_def)

section \<open>What the origin index keeps\<close>

definition row_valid :: "(actor_id \<times> nat) \<times> origin_interval \<Rightarrow> bool" where
  "row_valid row \<longleftrightarrow> actor_valid (fst (fst row)) \<and> snd (fst row) \<noteq> 0 \<and>
     snd (fst row) < oi_end (snd row) \<and> oi_run (snd row) \<noteq> 0"

definition origin_ok :: "origin_index \<Rightarrow> bool" where
  "origin_ok ix \<longleftrightarrow> avl_wf ix \<and> (\<forall>row \<in> set (bindings ix). row_valid row) \<and>
     rows_apart fst snd oi_end (set (bindings ix))"

definition row_covers :: "(actor_id \<times> nat) \<times> origin_interval \<Rightarrow> identity \<Rightarrow> bool" where
  "row_covers row i \<longleftrightarrow> fst (fst row) = actor i \<and> snd (fst row) \<le> counter i \<and> counter i < oi_end (snd row)"

definition row_overlaps :: "actor_id \<Rightarrow> nat \<Rightarrow> nat \<Rightarrow> (actor_id \<times> nat) \<times> origin_interval \<Rightarrow> bool" where
  "row_overlaps a first end' row \<longleftrightarrow> fst (fst row) = a \<and> snd (fst row) < end' \<and> first < oi_end (snd row)"

lemma overlaps_iff:
  "(\<exists>row \<in> R. row_overlaps a first end' row) \<longleftrightarrow>
     (\<exists>(m, v) \<in> R. fst m = a \<and> snd m < end' \<and> first < oi_end v)"
  by (simp add: row_overlaps_def case_prod_beta)

lemma neighbour_iff:
  "(case p of Some ((b, g), v) \<Rightarrow> b = a \<and> Q g v | None \<Rightarrow> False) \<longleftrightarrow>
     (\<exists>m v. p = Some (m, v) \<and> fst m = a \<and> Q (snd m) v)"
  by (auto split: option.splits)

lemma apart_empty [simp]: "rows_apart owner start stop {}"
  by (simp add: rows_apart_def)

lemma origin_ok_empty [simp]: "origin_ok AvlNil"
  by (simp add: origin_ok_def avl_wf_def)

lemma origin_okD:
  assumes "origin_ok ix"
  shows "sorted1 (bindings ix)" "avl_wf ix" "row \<in> set (bindings ix) \<Longrightarrow> row_valid row"
    "rows_apart fst snd oi_end (set (bindings ix))"
  using assms by (auto simp: origin_ok_def avl_wf_def)

theorem origin_insert_correct:
  assumes ok: "origin_ok ix"
  shows "case origin_insert a first end' run ix of
      None \<Rightarrow> \<not> row_valid ((a, first), \<lparr>oi_end = end', oi_run = run\<rparr>) \<or>
        (\<exists>row \<in> set (bindings ix). row_overlaps a first end' row)
    | Some ix' \<Rightarrow> row_valid ((a, first), \<lparr>oi_end = end', oi_run = run\<rparr>) \<and>
        \<not> (\<exists>row \<in> set (bindings ix). row_overlaps a first end' row) \<and> origin_ok ix' \<and>
        set (bindings ix') = insert ((a, first), \<lparr>oi_end = end', oi_run = run\<rparr>) (set (bindings ix))"
proof (cases "row_valid ((a, first), \<lparr>oi_end = end', oi_run = run\<rparr>)")
  case False
  then have "origin_insert a first end' run ix = None"
    by (auto simp: origin_insert_def row_valid_def)
  then show ?thesis
    using False by simp
next
  case valid: True
  let ?v = "\<lparr>oi_end = end', oi_run = run\<rparr>"
  have s: "sorted1 (bindings ix)" and wf: "avl_wf ix" and apart: "rows_apart fst snd oi_end (set (bindings ix))"
    using ok by (auto intro: origin_okD)
  show ?thesis
  proof (cases "avl_find ix (a, first)")
    case (Some v)
    then have row: "((a, first), v) \<in> set (bindings ix)"
      using s by (simp add: find_Some)
    then have "\<exists>row \<in> set (bindings ix). row_overlaps a first end' row"
      using origin_okD(3) [OF ok row] valid
      by (intro bexI [of _ "((a, first), v)"]) (auto simp: row_overlaps_def row_valid_def)
    then show ?thesis
      using Some by (simp add: origin_insert_def)
  next
    case None
    have "origin_insert a first end' run ix =
      (if \<exists>row \<in> set (bindings ix). row_overlaps a first end' row then None
       else Some (avl_insert ix (a, first) ?v))"
      using origin_rows.neighbours [OF s apart None, of end'] valid None
      unfolding origin_insert_def neighbour_iff overlaps_iff by (auto simp: row_valid_def)
    moreover have "set (bindings (avl_insert ix (a, first) ?v)) = insert ((a, first), ?v) (set (bindings ix))"
      using None find_None [OF s] by (simp add: insert_bindings [OF s] set_put)
    moreover have "rows_apart fst snd oi_end (insert ((a, first), ?v) (set (bindings ix)))"
      if "\<not> (\<exists>row \<in> set (bindings ix). row_overlaps a first end' row)"
      using that valid by (intro origin_rows.apart_insert [OF apart]) (auto simp: row_overlaps_def row_valid_def)
    ultimately show ?thesis
      using ok valid avl.insert_ok [OF wf] by (auto simp: origin_ok_def)
  qed
qed

theorem origin_locate_iff:
  assumes ok: "origin_ok ix"
  shows "origin_locate ix i = Some v \<longleftrightarrow> (\<exists>row \<in> set (bindings ix). row_covers row i \<and> snd row = v)"
proof -
  have "origin_locate ix i = Some v \<longleftrightarrow>
    (\<exists>m. avl_predecessor ix (actor i, counter i) = Some (m, v) \<and> fst m = actor i \<and> counter i < oi_end v)"
    by (auto simp: origin_locate_def split: option.splits)
  also have "\<dots> \<longleftrightarrow> (\<exists>m. (m, v) \<in> set (bindings ix) \<and> fst m = actor i \<and> snd m \<le> counter i \<and> counter i < oi_end v)"
    using origin_rows.predecessor_covers [OF origin_okD(1,4) [OF ok], of "(actor i, counter i)" v] by simp
  also have "\<dots> \<longleftrightarrow> (\<exists>row \<in> set (bindings ix). row_covers row i \<and> snd row = v)"
    by (force simp: row_covers_def)
  finally show ?thesis .
qed

lemma origin_locate_None:
  "origin_ok ix \<Longrightarrow> origin_locate ix i = None \<longleftrightarrow> (\<forall>row \<in> set (bindings ix). \<not> row_covers row i)"
  using origin_locate_iff [of ix i] by (cases "origin_locate ix i") auto

lemma origin_start_iff:
  "origin_ok ix \<Longrightarrow> interval_at_start ix a first = Some v \<longleftrightarrow> ((a, first), v) \<in> set (bindings ix)"
  by (simp add: interval_at_start_def find_Some origin_okD(1))

lemma origin_erase_ok:
  assumes ok: "origin_ok ix" and e: "origin_erase a first ix = Some ix'"
  shows "origin_ok ix'" "set (bindings ix') = {row \<in> set (bindings ix). fst row \<noteq> (a, first)}"
proof -
  have s: "sorted1 (bindings ix)" and wf: "avl_wf ix"
    using ok by (auto intro: origin_okD)
  have ix': "ix' = avl_remove ix (a, first)"
    using e by (simp add: origin_erase_def split: if_splits)
  show rows: "set (bindings ix') = {row \<in> set (bindings ix). fst row \<noteq> (a, first)}"
    by (auto simp: ix' remove_bindings [OF s] cut_def)
  have "rows_apart fst snd oi_end (set (bindings ix'))"
    using origin_rows.apart_subset [OF origin_okD(4) [OF ok]] rows by blast
  then show "origin_ok ix'"
    using ok avl.erase_ok [OF wf, of "(a, first)"] rows by (auto simp: origin_ok_def ix')
qed

subsection \<open>The range query\<close>

lemma fold_collect:
  "fold (\<lambda>x acc. if P x then acc @ [f x] else acc) xs acc = acc @ map f (filter P xs)"
  by (induction xs arbitrary: acc) auto

lemma takeWhile_filter_sorted:
  assumes "sorted1 xs" "\<And>k k'. Q k' \<Longrightarrow> k \<le> k' \<Longrightarrow> lower \<le> k \<Longrightarrow> Q k" "\<forall>p \<in> set xs. lower \<le> fst p"
  shows "takeWhile (\<lambda>p. Q (fst p)) xs = filter (\<lambda>p. Q (fst p)) xs"
  using assms(1,3)
proof (induction xs)
  case (Cons x xs)
  show ?case
  proof (cases "Q (fst x)")
    case False
    have "\<not> Q (fst p)" if "p \<in> set xs" for p
      using False Cons.prems that assms(2) [of "fst p" "fst x"] less_imp_le [of "fst x" "fst p"] by auto
    then show ?thesis
      using False by (simp add: filter_empty_conv)
  qed (use Cons in simp)
qed simp

lemma filter_single:
  assumes "distinct xs" "\<forall>x \<in> set xs. R x \<longrightarrow> x = p"
  shows "filter R xs = (if p \<in> set xs \<and> R p then [p] else [])"
proof (cases "p \<in> set xs \<and> R p")
  case True
  then have "filter R xs = filter (\<lambda>x. x = p) xs"
    using assms(2) by (intro filter_cong) auto
  also have "\<dots> = [p]"
    using True assms(1) by (induction xs) (auto simp: filter_empty_conv)
  finally show ?thesis
    using True by simp
next
  case False
  then have "\<forall>x \<in> set xs. \<not> R x"
    using assms(2) by blast
  then show ?thesis
    using False by (simp only: filter_empty_conv if_False)
qed

lemma sorted1_split:
  fixes k :: "'k::linorder"
  assumes "sorted1 xs"
  shows "filter (\<lambda>p. fst p < k) xs @ filter (\<lambda>p. k \<le> fst p) xs = xs" (is "?l @ ?h = xs")
proof (rule sorted1_ext)
  have "sorted1 ?l" "sorted1 ?h"
    using assms by (simp_all add: sorted_wrt_map sorted_wrt_filter)
  then show "sorted1 (?l @ ?h)"
    by (auto simp: sorted_wrt_append)
  show "map_of (?l @ ?h) = map_of xs"
    by (auto simp: fun_eq_iff map_add_def map_of_filter_key [where P = "\<lambda>x. x < k"]
        map_of_filter_key [where P = "\<lambda>x. k \<le> x"] split: option.splits)
qed (rule assms)

text \<open>
  \<open>overlapping\<close> starts at the first identity asked for and puts the row before it in front: the
  result is every row of the actor that meets the range, in ascending order.
\<close>

theorem origin_overlapping_eq:
  assumes ok: "origin_ok ix"
  shows "origin_overlapping ix a first end' =
    (if \<not> actor_valid a \<or> first = 0 \<or> end' \<le> first then []
     else map row_entry (filter (row_overlaps a first end') (bindings ix)))"
proof (cases "\<not> actor_valid a \<or> first = 0 \<or> end' \<le> first")
  case True
  then show ?thesis
    by (auto simp: origin_overlapping_def)
next
  case False
  let ?rows = "bindings ix" and ?k = "(a, first)"
  let ?low = "filter (\<lambda>p. fst p < ?k) ?rows" and ?high = "filter (\<lambda>p. ?k \<le> fst p) ?rows"
  have s: "sorted1 ?rows" and apart: "rows_apart fst snd oi_end (set ?rows)"
    using ok by (auto intro: origin_okD)
  have rows: "?rows = ?low @ ?high"
    by (rule sorted1_split [OF s, symmetric])
  let ?P = "\<lambda>key :: actor_id \<times> nat. fst key = a \<and> snd key < end'"
  let ?fn = "\<lambda>key v result. if fst key \<noteq> a \<or> snd key \<ge> end' then (result, False)
    else (if oi_end v > first then result @ [row_entry (key, v)] else result, True)"
  let ?add = "\<lambda>x acc. if first < oi_end (snd x) then acc @ [row_entry x] else acc"
  have fn: "(\<lambda>(k, v). ?fn k v) = (\<lambda>x acc. if ?P (fst x) then (?add x acc, True) else (acc, False))"
    by (auto simp: fun_eq_iff)
  have "sorted1 ?high"
    using s by (simp add: sorted_wrt_map sorted_wrt_filter)
  then have "takeWhile (\<lambda>p. ?P (fst p)) ?high = filter (\<lambda>p. ?P (fst p)) ?high"
    by (rule takeWhile_filter_sorted [where lower = ?k]) (auto simp: less_eq_prod_simp)
  then have "fst (visit_from ix ?k ?fn []) =
      map row_entry (filter (\<lambda>x. first < oi_end (snd x)) (filter (\<lambda>p. ?P (fst p)) ?high))"
    unfolding visit_from_bindings [OF s] fn fold_until_while by (simp add: fold_collect)
  also have "\<dots> = map row_entry (filter (row_overlaps a first end') ?high)"
    by (auto simp: row_overlaps_def intro!: arg_cong [of _ _ "map row_entry"] filter_cong)
  finally have high: "fst (visit_from ix ?k ?fn []) = map row_entry (filter (row_overlaps a first end') ?high)" .
  have reach: "avl_predecessor ix ?k = Some ((b, g), v)"
    if "((b, g), v) \<in> set ?low" "row_overlaps a first end' ((b, g), v)" for b g v
    using origin_rows.predecessor_reaches [OF s apart, of "(b, g)" v ?k] that
    by (auto simp: row_overlaps_def)
  have reached: "avl_predecessor ix ?k = Some x" if "x \<in> set ?low" "row_overlaps a first end' x" for x
    using reach [of "fst (fst x)" "snd (fst x)" "snd x"] that by simp
  have in_low: "(m, v) \<in> set ?low \<and> row_overlaps a first end' (m, v)"
    if "avl_predecessor ix ?k = Some (m, v)" "fst m = a" "first < oi_end v" "snd m < first" for m v
    using predecessor_Some(1) [OF s that(1)] that False by (cases m) (auto simp: row_overlaps_def)
  have low: "filter (row_overlaps a first end') ?low =
      (case avl_predecessor ix ?k of None \<Rightarrow> []
       | Some (m, v) \<Rightarrow> if fst m = a \<and> oi_end v > first \<and> snd m < first then [(m, v)] else [])"
  proof (cases "avl_predecessor ix ?k")
    case None
    then have "\<forall>x \<in> set ?low. \<not> row_overlaps a first end' x"
      using reached by (metis option.distinct(1))
    then show ?thesis
      using None by (simp only: filter_empty_conv option.case)
  next
    case (Some p)
    have "distinct ?low"
      using s by (metis distinct_filter distinct_map sorted1_distinct)
    then have "filter (row_overlaps a first end') ?low = (if p \<in> set ?low \<and> row_overlaps a first end' p then [p] else [])"
      using reached Some by (intro filter_single) (simp_all add: option.inject)
    moreover have "p \<in> set ?low \<and> row_overlaps a first end' p \<longleftrightarrow>
        fst (fst p) = a \<and> oi_end (snd p) > first \<and> snd (fst p) < first"
      using in_low [of "fst p" "snd p"] Some by (cases p; cases "fst p") (auto simp: row_overlaps_def)
    ultimately show ?thesis
      using Some by (cases p) simp
  qed
  have "origin_overlapping ix a first end' =
      map row_entry (filter (row_overlaps a first end') ?low) @ map row_entry (filter (row_overlaps a first end') ?high)"
    unfolding origin_overlapping_def Let_def high low using False by (auto split: option.splits)
  also have "\<dots> = map row_entry (filter (row_overlaps a first end') ?rows)"
    by (subst (3) rows) (simp del: filter_filter)
  finally show ?thesis
    using False by simp
qed

subsection \<open>Rebuilding\<close>

lemma rows_ok_spec:
  assumes "origin_rows_ok previous previous_end rows" "sorted (map fst rows)"
    and "\<forall>k. previous = Some k \<longrightarrow> list_all (\<lambda>r. k \<le> fst r) rows"
  shows "(\<forall>row \<in> set rows. row_valid row) \<and> sorted1 rows \<and> rows_apart fst snd oi_end (set rows) \<and>
    (\<forall>b g. previous = Some (b, g) \<longrightarrow> (\<forall>row \<in> set rows. (b, g) < fst row \<and>
       (fst (fst row) = b \<longrightarrow> previous_end \<le> snd (fst row))))"
  using assms
proof (induction previous previous_end rows rule: origin_rows_ok.induct)
  case (2 previous previous_end a first v rows)
  let ?row = "((a, first), v)"
  have ok: "row_valid ?row" and rest: "origin_rows_ok (Some (a, first)) (oi_end v) rows"
    and prev: "\<And>b g. previous = Some (b, g) \<Longrightarrow> b = a \<Longrightarrow> g < first \<and> previous_end \<le> first"
    using "2.prems"(1) by (auto simp: row_valid_def not_le split: if_splits)
  have sorted_rest: "sorted (map fst rows)" "list_all (\<lambda>r. (a, first) \<le> fst r) rows"
    using "2.prems"(2) by (auto simp: list_all_iff)
  have IH: "\<forall>row \<in> set rows. row_valid row" "sorted1 rows" "rows_apart fst snd oi_end (set rows)"
    "\<forall>row \<in> set rows. (a, first) < fst row \<and> (fst (fst row) = a \<longrightarrow> oi_end v \<le> snd (fst row))"
    using "2.IH" rest sorted_rest "2.prems"(1) by (auto split: if_splits)
  have apart: "rows_apart fst snd oi_end (set (?row # rows))"
    using IH(3,4) ok unfolding rows_apart_def
    by (fastforce simp: row_valid_def)
  have before: "(b, g) < fst row \<and> (fst (fst row) = b \<longrightarrow> previous_end \<le> snd (fst row))"
    if p: "previous = Some (b, g)" and row: "row \<in> set (?row # rows)" for b g row
  proof -
    have le: "(b, g) \<le> (a, first)"
      using "2.prems"(3) p by simp
    have here: "(b, g) < (a, first)" "b = a \<Longrightarrow> previous_end \<le> first"
      using le prev [OF p] by (cases "b = a"; auto)+
    show ?thesis
    proof (cases "row = ?row")
      case False
      then have later: "(a, first) < fst row" "fst (fst row) = a \<longrightarrow> oi_end v \<le> snd (fst row)"
        using IH(4) row by auto
      have "b = a" if "fst (fst row) = b"
        using le later(1) that by (cases "fst row") auto
      then show ?thesis
        using less_trans [OF here(1) later(1)] later(2) here(2) ok by (auto simp: row_valid_def)
    qed (use here in auto)
  qed
  have "sorted1 (?row # rows)"
    using IH(2,4) by simp
  then show ?case
    using ok IH(1) apart before by simp
qed (simp add: rows_apart_def)

theorem origin_rebuild_ok:
  assumes "origin_rebuild rows = Some ix"
  shows "origin_ok ix" "set (bindings ix) = set rows"
proof -
  have ok: "origin_rows_ok None 0 (sort_key fst rows)" and ix: "ix = from_sorted (sort_key fst rows)"
    using assms by (auto simp: origin_rebuild_def Let_def split: if_splits)
  have "sorted (map fst (sort_key fst rows))"
    by simp
  note spec = rows_ok_spec [OF ok this]
  show "set (bindings ix) = set rows"
    by (simp add: ix from_sorted_ok)
  show "origin_ok ix"
    using spec by (simp add: ix origin_ok_def avl_wf_def from_sorted_ok)
qed

section \<open>What the deletion index keeps\<close>

definition deletion_row_valid :: "deletion_key \<times> incidence \<Rightarrow> bool" where
  "deletion_row_valid row \<longleftrightarrow>
     (case row of ((d, a, first), v) \<Rightarrow>
        actor_valid (actor d) \<and> counter d \<noteq> 0 \<and> actor_valid a \<and> first \<noteq> 0 \<and> first < in_end v \<and>
        in_run v \<noteq> 0 \<and> in_actor v = a \<and> in_first v = first)"

definition deletion_ok :: "deletion_index \<Rightarrow> bool" where
  "deletion_ok ix \<longleftrightarrow> avl_wf ix \<and> (\<forall>row \<in> set (bindings ix). deletion_row_valid row) \<and>
     rows_apart deletion_owner deletion_start in_end (set (bindings ix))"

lemma deletion_ok_empty [simp]: "deletion_ok AvlNil"
  by (simp add: deletion_ok_def avl_wf_def)

lemma deletion_okD:
  assumes "deletion_ok ix"
  shows "sorted1 (bindings ix)" "avl_wf ix" "row \<in> set (bindings ix) \<Longrightarrow> deletion_row_valid row"
    "rows_apart deletion_owner deletion_start in_end (set (bindings ix))"
  using assms by (auto simp: deletion_ok_def avl_wf_def)

lemma deletion_neighbour_iff:
  "(case p of Some ((d', b, g), v) \<Rightarrow> d' = d \<and> b = a \<and> Q g v | None \<Rightarrow> False) \<longleftrightarrow>
     (\<exists>m v. p = Some (m, v) \<and> deletion_owner m = (d, a) \<and> Q (deletion_start m) v)"
  by (auto simp: deletion_owner_def deletion_start_def split: option.splits)

theorem deletion_insert_correct:
  assumes ok: "deletion_ok ix" and row_def: "row = \<lparr>in_actor = a, in_first = first, in_end = end', in_run = run\<rparr>"
  shows "case deletion_insert d a first end' run ix of
      None \<Rightarrow> \<not> deletion_row_valid ((d, a, first), row) \<or>
        (\<exists>(m, v) \<in> set (bindings ix). deletion_owner m = (d, a) \<and> deletion_start m < end' \<and> first < in_end v)
    | Some ix' \<Rightarrow> deletion_row_valid ((d, a, first), row) \<and> deletion_ok ix' \<and>
        set (bindings ix') = insert ((d, a, first), row) (set (bindings ix))"
proof (cases "deletion_row_valid ((d, a, first), row)")
  case False
  then have "deletion_insert d a first end' run ix = None"
    by (auto simp: deletion_insert_def deletion_row_valid_def row_def)
  then show ?thesis
    using False by simp
next
  case valid: True
  let ?k = "(d, a, first)" and ?near = "\<lambda>(m, v). deletion_owner m = (d, a) \<and> deletion_start m < end' \<and> first < in_end v"
  have k: "deletion_owner ?k = (d, a)" "deletion_start ?k = first"
    by (simp_all add: deletion_owner_def deletion_start_def)
  have s: "sorted1 (bindings ix)" and wf: "avl_wf ix"
    and apart: "rows_apart deletion_owner deletion_start in_end (set (bindings ix))"
    using ok by (auto intro: deletion_okD)
  show ?thesis
  proof (cases "avl_find ix ?k")
    case (Some v)
    then have in_ix: "(?k, v) \<in> set (bindings ix)"
      using s by (simp add: find_Some)
    then have "\<exists>r \<in> set (bindings ix). ?near r"
      using deletion_okD(3) [OF ok in_ix] valid k
      by (intro bexI [of _ "(?k, v)"]) (auto simp: deletion_row_valid_def row_def)
    then show ?thesis
      using Some by (simp add: deletion_insert_def)
  next
    case None
    have "deletion_insert d a first end' run ix =
      (if \<exists>r \<in> set (bindings ix). ?near r then None else Some (avl_insert ix ?k row))"
      using deletion_rows.neighbours [OF s apart None, of end'] valid None k
      unfolding deletion_insert_def deletion_neighbour_iff by (auto simp: deletion_row_valid_def row_def)
    moreover have "set (bindings (avl_insert ix ?k row)) = insert (?k, row) (set (bindings ix))"
      using None find_None [OF s] by (simp add: insert_bindings [OF s] set_put)
    moreover have "rows_apart deletion_owner deletion_start in_end (insert (?k, row) (set (bindings ix)))"
      if "\<not> (\<exists>r \<in> set (bindings ix). ?near r)"
      using that valid k
      by (intro deletion_rows.apart_insert [OF apart]) (auto simp: deletion_row_valid_def row_def)
    ultimately show ?thesis
      using ok valid avl.insert_ok [OF wf] by (auto simp: deletion_ok_def)
  qed
qed

lemma deletion_erase_ok:
  assumes ok: "deletion_ok ix" and e: "deletion_erase d a first ix = Some ix'"
  shows "deletion_ok ix'" "set (bindings ix') = {row \<in> set (bindings ix). fst row \<noteq> (d, a, first)}"
proof -
  have s: "sorted1 (bindings ix)" and wf: "avl_wf ix"
    using ok by (auto intro: deletion_okD)
  have ix': "ix' = avl_remove ix (d, a, first)"
    using e by (simp add: deletion_erase_def split: if_splits)
  show rows: "set (bindings ix') = {row \<in> set (bindings ix). fst row \<noteq> (d, a, first)}"
    by (auto simp: ix' remove_bindings [OF s] cut_def)
  have "rows_apart deletion_owner deletion_start in_end (set (bindings ix'))"
    using deletion_rows.apart_subset [OF deletion_okD(4) [OF ok]] rows by blast
  then show "deletion_ok ix'"
    using ok avl.erase_ok [OF wf, of "(d, a, first)"] rows by (auto simp: deletion_ok_def ix')
qed

text \<open>The all-zero actor is below every actor of 16 bytes, so the visit misses no incidence.\<close>

lemma default_actor_least:
  assumes "actor_ok a"
  shows "default_actor \<le> a"
proof -
  have "replicate (length bs) 0 \<le> bs" for bs :: "byte list"
    by (induction bs) (auto simp: word_gt_0 less_le)
  then show ?thesis
    using assms by (simp add: actor_less_bytes default_actor_def actor_ok_def flip: not_less) (metis not_less)
qed

theorem incidences_eq:
  assumes ok: "deletion_ok ix" and actors: "\<forall>((d, a, first), v) \<in> set (bindings ix). actor_ok a"
  shows "incidences ix d = map snd (filter (\<lambda>row. fst (fst row) = d) (bindings ix))"
proof -
  let ?k = "(d, default_actor, 0 :: nat)" and ?rows = "bindings ix"
  have s: "sorted1 ?rows"
    using ok by (rule deletion_okD)
  let ?high = "filter (\<lambda>p. ?k \<le> fst p) ?rows"
  have fn: "(\<lambda>(key, v) result. if fst key \<noteq> d then (result, False) else (result @ [v], True)) =
      (\<lambda>x acc. if fst (fst x) = d then (acc @ [snd x], True) else (acc, False))"
    by (auto simp: fun_eq_iff)
  have "sorted1 ?high"
    using s by (simp add: sorted_wrt_map sorted_wrt_filter)
  then have "takeWhile (\<lambda>p. fst (fst p) = d) ?high = filter (\<lambda>p. fst (fst p) = d) ?high"
    by (rule takeWhile_filter_sorted [where lower = ?k and Q = "\<lambda>k. fst k = d"]) (auto simp: less_eq_prod_simp)
  moreover have "filter (\<lambda>p. fst (fst p) = d) ?high = filter (\<lambda>p. fst (fst p) = d) ?rows"
    using actors default_actor_least by (fastforce simp: filter_filter intro: filter_cong)
  moreover have "fold (\<lambda>x acc. acc @ [snd x]) xs acc = acc @ map snd xs"
    for xs :: "(deletion_key \<times> incidence) list" and acc
    by (induction xs arbitrary: acc) simp_all
  ultimately show ?thesis
    unfolding incidences_def visit_from_bindings [OF s] fn fold_until_while by simp
qed

section \<open>What the run directory keeps\<close>

definition directory_ok :: "run_directory \<Rightarrow> bool" where
  "directory_ok dir \<longleftrightarrow> avl_wf dir \<and> (\<forall>row \<in> set (bindings dir). fst row \<noteq> 0 \<and> node_id_valid (rl_leaf (snd row)))"

lemma run_insert_or_assign_ok:
  assumes "directory_ok dir" "run_insert_or_assign run loc dir = Some dir'"
  shows "directory_ok dir'" "locate_run dir' r = (if r = run then Some loc else locate_run dir r)"
proof -
  have wf: "avl_wf dir" and dir': "dir' = avl_insert dir run loc" "run \<noteq> 0" "node_id_valid (rl_leaf loc)"
    using assms by (auto simp: directory_ok_def run_insert_or_assign_def split: if_splits)
  have "set (bindings dir') \<subseteq> insert (run, loc) (set (bindings dir))"
    using avl.insert_ok [OF wf, of run loc] by (auto simp: dir'(1) put_def)
  then show "directory_ok dir'"
    using assms(1) dir' avl.insert_ok [OF wf, of run loc] by (auto simp: directory_ok_def)
  show "locate_run dir' r = (if r = run then Some loc else locate_run dir r)"
    by (simp add: locate_run_def dir'(1) avl.find_after_insert [OF wf])
qed

lemma run_erase_ok:
  assumes "directory_ok dir" "run_erase run dir = Some dir'"
  shows "directory_ok dir'" "locate_run dir' r = (if r = run then None else locate_run dir r)"
proof -
  have wf: "avl_wf dir" and dir': "dir' = avl_remove dir run"
    using assms by (auto simp: directory_ok_def run_erase_def split: if_splits)
  have "set (bindings dir') \<subseteq> set (bindings dir)"
    using avl.erase_ok [OF wf, of run] by (auto simp: dir' cut_def)
  then show "directory_ok dir'"
    using assms(1) dir' avl.erase_ok [OF wf, of run] by (auto simp: directory_ok_def)
  show "locate_run dir' r = (if r = run then None else locate_run dir r)"
    by (simp add: locate_run_def dir' avl.find_after_erase [OF wf])
qed

lemma run_rebuild_ok:
  assumes "run_rebuild rows = Some dir"
  shows "directory_ok dir" "locate_run dir r = map_of rows r"
proof -
  have d: "\<not> list_ex (\<lambda>row. fst row = 0) (sort_key fst rows)" "distinct (map fst (sort_key fst rows))"
    "\<not> list_ex (\<lambda>row. \<not> node_id_valid (rl_leaf (snd row))) (sort_key fst rows)"
    "dir = from_sorted (sort_key fst rows)"
    using assms by (auto simp: run_rebuild_def Let_def split: if_splits)
  have s: "sorted1 (sort_key fst rows)"
    using d(2) by (simp add: strict_sorted_iff)
  show "directory_ok dir"
    using d s by (auto simp: directory_ok_def avl_wf_def from_sorted_ok list_ex_iff)
  have "distinct (map fst rows)"
    using d(2) by (simp add: distinct_map)
  then have "map_of (sort_key fst rows) = map_of rows"
    using d(2) by (intro map_of_inject_set [THEN iffD2]) simp_all
  then show "locate_run dir r = map_of rows r"
    using s by (simp add: locate_run_def d(4) find_bindings from_sorted_ok)
qed

end
