(* ===== verification/Sum_Tree.thy ===== *)
theory Sum_Tree
  imports Run_Indexes
begin

text \<open>
  The copy-on-write B+ tree under every sequence of the program: \<open>crdt/SumTree.h\<close>. The template
  parameters (branching factor, item summaries with their monoid, node identities) are the record
  \<open>tree_ops\<close>, an argument \<open>K\<close>; a dimension is a record of its zero and its addition. A node keeps its
  arrays of entries and of their summaries as one list of pairs whose length is \<open>count\<close>. Sharing
  between trees is invisible in values, so \<open>ensure_mutable\<close> disappears; a function that edits a node
  through a reference returns it, with the overflow sibling and the identity allocator.
  Asserted preconditions that fail leave the node as it is.
\<close>

section \<open>Nodes\<close>

datatype ('i, 's, 'n) node =
    Leaf 'n 's "('i \<times> 's) list"
  | Internal 'n nat 's "(('i, 's, 'n) node \<times> 's) list"

record ('i, 's, 'n, 'p) tree_ops =
  branching :: nat
  s_zero :: 's
  s_add :: "'s \<Rightarrow> 's \<Rightarrow> 's"
  s_item :: "'i \<Rightarrow> 's"
  alloc_id :: "'p \<Rightarrow> 'p \<times> 'n"
  id_valid :: "'n \<Rightarrow> bool"
  ids_valid :: "'p \<Rightarrow> bool"

record ('d, 's) dimension =
  d_zero :: 'd
  d_add :: "'d \<Rightarrow> 's \<Rightarrow> 'd"

record ('i, 's, 'n, 'p) sum_tree =
  st_ids :: 'p
  st_root :: "('i, 's, 'n) node option"

definition max_children :: "('i, 's, 'n, 'p) tree_ops \<Rightarrow> nat" where
  "max_children K = 2 * branching K"

fun nd_id :: "('i, 's, 'n) node \<Rightarrow> 'n" where
  "nd_id (Leaf n s es) = n"
| "nd_id (Internal n h s cs) = n"

fun nd_height :: "('i, 's, 'n) node \<Rightarrow> nat" where
  "nd_height (Leaf n s es) = 0"
| "nd_height (Internal n h s cs) = h"

fun nd_summary :: "('i, 's, 'n) node \<Rightarrow> 's" where
  "nd_summary (Leaf n s es) = s"
| "nd_summary (Internal n h s cs) = s"

fun nd_count :: "('i, 's, 'n) node \<Rightarrow> nat" where
  "nd_count (Leaf n s es) = length es"
| "nd_count (Internal n h s cs) = length cs"

fun is_leaf :: "('i, 's, 'n) node \<Rightarrow> bool" where
  "is_leaf (Leaf n s es) = True"
| "is_leaf (Internal n h s cs) = False"

lemma child_size:
  "(c, s) \<in> set cs \<Longrightarrow> size c < size (Internal n h t cs)"
  using size_list_estimation' [of "(c, s)" cs "size c" "size_prod size (\<lambda>_. 0)"] by simp

lemma child_size_pair: "x \<in> set cs \<Longrightarrow> (c, s) = x \<Longrightarrow> size c < size (Internal n h t cs)"
  using child_size [of c s cs n h t] by (simp del: node.size)

lemma child_size_last:
  "cs \<noteq> [] \<Longrightarrow> size (fst (last cs)) < size (Internal n h t cs)"
  using child_size [of "fst (last cs)" "snd (last cs)"] by simp

lemma child_size_hd:
  "cs \<noteq> [] \<Longrightarrow> size (fst (hd cs)) < size (Internal n h t cs)"
  using child_size [of "fst (hd cs)" "snd (hd cs)"] by simp

lemma child_size_nth:
  "i < length cs \<Longrightarrow> size (fst (cs ! i)) < size (Internal n h t cs)"
  using child_size [of "fst (cs ! i)" "snd (cs ! i)"] by simp

text \<open>\<open>recompute_summary\<close>: the fold over the stored summaries.\<close>

definition fold_summaries :: "('i, 's, 'n, 'p) tree_ops \<Rightarrow> ('a \<times> 's) list \<Rightarrow> 's" where
  "fold_summaries K xs = foldl (s_add K) (s_zero K) (map snd xs)"

definition leaf_of :: "('i, 's, 'n, 'p) tree_ops \<Rightarrow> 'n \<Rightarrow> ('i \<times> 's) list \<Rightarrow> ('i, 's, 'n) node" where
  "leaf_of K n es = Leaf n (fold_summaries K es) es"

definition internal_of ::
  "('i, 's, 'n, 'p) tree_ops \<Rightarrow> 'n \<Rightarrow> nat \<Rightarrow> (('i, 's, 'n) node \<times> 's) list \<Rightarrow> ('i, 's, 'n) node" where
  "internal_of K n h cs = Internal n h (fold_summaries K cs) cs"

definition child :: "('i, 's, 'n) node \<Rightarrow> ('i, 's, 'n) node \<times> 's" where
  "child c = (c, nd_summary c)"

definition make_leaf :: "('i, 's, 'n, 'p) tree_ops \<Rightarrow> 'p \<Rightarrow> ('i, 's, 'n) node \<times> 'p" where
  "make_leaf K p = (case alloc_id K p of (p', n) \<Rightarrow> (Leaf n (s_zero K) [], p'))"

text \<open>A new root over two siblings: the end of \<open>push_item\<close>, \<open>push_tree\<close>, \<open>insert_item\<close>.\<close>

definition new_root ::
  "('i, 's, 'n, 'p) tree_ops \<Rightarrow> ('i, 's, 'n) node \<Rightarrow> ('i, 's, 'n) node \<Rightarrow> 'p \<Rightarrow> ('i, 's, 'n) node \<times> 'p" where
  "new_root K left right p =
     (case alloc_id K p of
        (p', n) \<Rightarrow> (internal_of K n (nd_height left + 1) [child left, child right], p'))"

section \<open>Appending an item\<close>

type_synonym ('i, 's, 'n, 'p) grown = "('i, 's, 'n) node \<times> ('i, 's, 'n) node option \<times> 'p"

definition split_leaf_and_push ::
  "('i, 's, 'n, 'p) tree_ops \<Rightarrow> 'n \<Rightarrow> ('i \<times> 's) list \<Rightarrow> 'i \<Rightarrow> 's \<Rightarrow> 'p \<Rightarrow> ('i, 's, 'n, 'p) grown" where
  "split_leaf_and_push K n es x s p =
     (let mid = max_children K div 2 in
      case alloc_id K p of
        (p', right) \<Rightarrow> (leaf_of K n (take mid es), Some (leaf_of K right (drop mid es @ [(x, s)])), p'))"

definition split_internal_and_add ::
  "('i, 's, 'n, 'p) tree_ops \<Rightarrow> 'n \<Rightarrow> nat \<Rightarrow> (('i, 's, 'n) node \<times> 's) list \<Rightarrow> ('i, 's, 'n) node \<Rightarrow> 'p \<Rightarrow>
     ('i, 's, 'n, 'p) grown" where
  "split_internal_and_add K n h cs overflow p =
     (let mid = max_children K div 2 in
      case alloc_id K p of
        (p', right) \<Rightarrow>
          (internal_of K n h (take mid cs), Some (internal_of K right h (drop mid cs @ [child overflow])), p'))"

text \<open>The new left sibling keeps the identity of the node; the node gets a second new one.\<close>

definition split_internal_and_prepend ::
  "('i, 's, 'n, 'p) tree_ops \<Rightarrow> 'n \<Rightarrow> nat \<Rightarrow> (('i, 's, 'n) node \<times> 's) list \<Rightarrow> ('i, 's, 'n) node \<Rightarrow> 'p \<Rightarrow>
     ('i, 's, 'n, 'p) grown" where
  "split_internal_and_prepend K n h cs overflow p =
     (let mid = max_children K div 2 in
      case alloc_id K p of
        (p1, _) \<Rightarrow>
          (case alloc_id K p1 of
             (p2, right) \<Rightarrow>
               (internal_of K right h (drop (mid - 1) cs),
                Some (internal_of K n h (child overflow # take (mid - 1) cs)), p2)))"

text \<open>What a full or not full node does with an overflow of its last child.\<close>

definition add_last ::
  "('i, 's, 'n, 'p) tree_ops \<Rightarrow> 'n \<Rightarrow> nat \<Rightarrow> (('i, 's, 'n) node \<times> 's) list \<Rightarrow> ('i, 's, 'n) node option \<Rightarrow>
     'p \<Rightarrow> ('i, 's, 'n, 'p) grown" where
  "add_last K n h cs overflow p =
     (case overflow of
        None \<Rightarrow> (internal_of K n h cs, None, p)
      | Some right \<Rightarrow>
          if length cs < max_children K then (internal_of K n h (cs @ [child right]), None, p)
          else split_internal_and_add K n h cs right p)"

definition add_first ::
  "('i, 's, 'n, 'p) tree_ops \<Rightarrow> 'n \<Rightarrow> nat \<Rightarrow> (('i, 's, 'n) node \<times> 's) list \<Rightarrow> ('i, 's, 'n) node option \<Rightarrow>
     'p \<Rightarrow> ('i, 's, 'n, 'p) grown" where
  "add_first K n h cs overflow p =
     (case overflow of
        None \<Rightarrow> (internal_of K n h cs, None, p)
      | Some left \<Rightarrow>
          if length cs < max_children K then (internal_of K n h (child left # cs), None, p)
          else split_internal_and_prepend K n h cs left p)"

function push_item_recursive ::
  "('i, 's, 'n, 'p) tree_ops \<Rightarrow> 'i \<Rightarrow> 's \<Rightarrow> ('i, 's, 'n) node \<Rightarrow> 'p \<Rightarrow> ('i, 's, 'n, 'p) grown" where
  "push_item_recursive K x s (Leaf n t es) p =
     (if length es < max_children K then (Leaf n (s_add K t s) (es @ [(x, s)]), None, p)
      else split_leaf_and_push K n es x s p)"
| "push_item_recursive K x s (Internal n h t cs) p =
     (if cs = [] then (Internal n h t cs, None, p)
      else case push_item_recursive K x s (fst (last cs)) p of
        (c, overflow, p') \<Rightarrow> add_last K n h (butlast cs @ [child c]) overflow p')"
  by pat_completeness auto
termination
  by (relation "measure (\<lambda>(K, x, s, node, p). size node)") (simp_all add: child_size_last del: node.size)

text \<open>The root after a step that may have split it.\<close>

definition grow ::
  "('i, 's, 'n, 'p) tree_ops \<Rightarrow> ('i, 's, 'n, 'p) grown \<Rightarrow> ('i, 's, 'n, 'p) sum_tree" where
  "grow K result =
     (case result of
        (node, None, p) \<Rightarrow> \<lparr>st_ids = p, st_root = Some node\<rparr>
      | (node, Some right, p) \<Rightarrow>
          (case new_root K node right p of (root, p') \<Rightarrow> \<lparr>st_ids = p', st_root = Some root\<rparr>))"

definition push_item ::
  "('i, 's, 'n, 'p) tree_ops \<Rightarrow> 'i \<Rightarrow> ('i, 's, 'n, 'p) sum_tree \<Rightarrow> ('i, 's, 'n, 'p) sum_tree" where
  "push_item K x t =
     (case (case st_root t of None \<Rightarrow> make_leaf K (st_ids t) | Some root \<Rightarrow> (root, st_ids t)) of
        (root, p) \<Rightarrow> grow K (push_item_recursive K x (s_item K x) root p))"

definition extend_items ::
  "('i, 's, 'n, 'p) tree_ops \<Rightarrow> 'i list \<Rightarrow> ('i, 's, 'n, 'p) sum_tree \<Rightarrow> ('i, 's, 'n, 'p) sum_tree" where
  "extend_items K xs t = fold (push_item K) xs t"

section \<open>Appending a tree\<close>

text \<open>\<open>combine_adjacent\<close>: one node if the entries fit, else an even split; \<open>None\<close> is the result 1.\<close>

fun combine_adjacent ::
  "('i, 's, 'n, 'p) tree_ops \<Rightarrow> ('i, 's, 'n) node \<Rightarrow> ('i, 's, 'n) node \<Rightarrow>
     ('i, 's, 'n) node \<times> ('i, 's, 'n) node option" where
  "combine_adjacent K (Leaf n s es) (Leaf m t fs) =
     (let all = es @ fs; k = (if length all \<le> max_children K then length all else length all div 2)
      in (leaf_of K n (take k all), if k = length all then None else Some (leaf_of K m (drop k all))))"
| "combine_adjacent K (Internal n h s cs) (Internal m g t ds) =
     (let all = cs @ ds; k = (if length all \<le> max_children K then length all else length all div 2)
      in (internal_of K n h (take k all), if k = length all then None else Some (internal_of K m g (drop k all))))"
| "combine_adjacent K left right = (left, Some right)"

function push_tree_right ::
  "('i, 's, 'n, 'p) tree_ops \<Rightarrow> ('i, 's, 'n) node \<Rightarrow> ('i, 's, 'n) node \<Rightarrow> 'p \<Rightarrow> ('i, 's, 'n, 'p) grown" where
  "push_tree_right K (Leaf n s es) other p = (Leaf n s es, None, p)"
| "push_tree_right K (Internal n h s cs) other p =
     (if cs = [] then (Internal n h s cs, None, p)
      else if h = nd_height other + 1 then
        case combine_adjacent K (fst (last cs)) other of
          (rightmost, rest) \<Rightarrow> add_last K n h (butlast cs @ [child rightmost]) rest p
      else case push_tree_right K (fst (last cs)) other p of
        (c, overflow, p') \<Rightarrow> add_last K n h (butlast cs @ [child c]) overflow p')"
  by pat_completeness auto
termination
  by (relation "measure (\<lambda>(K, node, other, p). size node)") (simp_all add: child_size_last del: node.size)

function push_tree_left ::
  "('i, 's, 'n, 'p) tree_ops \<Rightarrow> ('i, 's, 'n) node \<Rightarrow> ('i, 's, 'n) node \<Rightarrow> 'p \<Rightarrow> ('i, 's, 'n, 'p) grown" where
  "push_tree_left K (Leaf n s es) other p = (Leaf n s es, None, p)"
| "push_tree_left K (Internal n h s cs) other p =
     (if cs = [] then (Internal n h s cs, None, p)
      else if h = nd_height other + 1 then
        case combine_adjacent K other (fst (hd cs)) of
          (left, None) \<Rightarrow> (internal_of K n h (child left # tl cs), None, p)
        | (left, Some first_child) \<Rightarrow> add_first K n h (child first_child # tl cs) (Some left) p
      else case push_tree_left K (fst (hd cs)) other p of
        (c, overflow, p') \<Rightarrow> add_first K n h (child c # tl cs) overflow p')"
  by pat_completeness auto
termination
  by (relation "measure (\<lambda>(K, node, other, p). size node)") (simp_all add: child_size_hd del: node.size)

definition node_empty :: "('i, 's, 'n) node \<Rightarrow> bool" where
  "node_empty node = (case node of Leaf n s es \<Rightarrow> es = [] | Internal n h s cs \<Rightarrow> False)"

definition tree_empty :: "('i, 's, 'n, 'p) sum_tree \<Rightarrow> bool" where
  "tree_empty t = (case st_root t of None \<Rightarrow> True | Some node \<Rightarrow> node_empty node)"

definition merge_same_height ::
  "('i, 's, 'n, 'p) tree_ops \<Rightarrow> ('i, 's, 'n) node \<Rightarrow> ('i, 's, 'n) node \<Rightarrow> 'p \<Rightarrow> ('i, 's, 'n, 'p) sum_tree" where
  "merge_same_height K node other p =
     (case combine_adjacent K node other of (left, rest) \<Rightarrow> grow K (left, rest, p))"

text \<open>A taller tree on the right: the overflow of its left spine goes to the left of the new root.\<close>

definition push_root ::
  "('i, 's, 'n, 'p) tree_ops \<Rightarrow> ('i, 's, 'n) node \<Rightarrow> ('i, 's, 'n) node \<Rightarrow> 'p \<Rightarrow> ('i, 's, 'n, 'p) sum_tree" where
  "push_root K node other p =
     (if nd_height node = nd_height other then merge_same_height K node other p
      else if nd_height node > nd_height other then grow K (push_tree_right K node other p)
      else case push_tree_left K other node p of
        (taller, None, p') \<Rightarrow> \<lparr>st_ids = p', st_root = Some taller\<rparr>
      | (taller, Some left, p') \<Rightarrow>
          (case new_root K left taller p' of (root, p2) \<Rightarrow> \<lparr>st_ids = p2, st_root = Some root\<rparr>))"

definition push_tree ::
  "('i, 's, 'n, 'p) tree_ops \<Rightarrow> ('i, 's, 'n, 'p) sum_tree \<Rightarrow> ('i, 's, 'n) node option \<Rightarrow>
     ('i, 's, 'n, 'p) sum_tree" where
  "push_tree K t other =
     (case other of
        None \<Rightarrow> t
      | Some node \<Rightarrow>
          if node_empty node then t
          else case st_root t of
            None \<Rightarrow> t\<lparr>st_root := Some node\<rparr>
          | Some root \<Rightarrow> if node_empty root then t\<lparr>st_root := Some node\<rparr> else push_root K root node (st_ids t))"

section \<open>Seeking in an array\<close>

definition past :: "bias \<Rightarrow> 'd::linorder \<Rightarrow> 'd \<Rightarrow> bool" where
  "past b target end_pos = (if b = BiasLeft then target < end_pos else \<not> end_pos < target)"

text \<open>
  The loop all operations share: the first entry whose end is past the target, the position at its
  start, and whether there is one. Without one the index is the count and the position the end.
\<close>

fun seek_entries :: "('d::linorder, 's) dimension \<Rightarrow> 'd \<Rightarrow> bias \<Rightarrow> 'd \<Rightarrow> ('a \<times> 's) list \<Rightarrow> nat \<times> 'd \<times> bool" where
  "seek_entries D target b pos [] = (0, pos, False)"
| "seek_entries D target b pos ((x, s) # xs) =
     (let end_pos = d_add D pos s in
      if past b target end_pos then (0, pos, True)
      else case seek_entries D target b end_pos xs of (i, q, found) \<Rightarrow> (Suc i, q, found))"

lemma seek_entries_found:
  "seek_entries D target b pos xs = (i, q, True) \<Longrightarrow> i < length xs"
  by (induction xs arbitrary: pos i) (auto simp: Let_def split: if_splits prod.splits)

lemma seek_entries_missed:
  "seek_entries D target b pos xs = (i, q, False) \<Longrightarrow> i = length xs"
  by (induction xs arbitrary: pos i) (auto simp: Let_def split: if_splits prod.splits)

text \<open>The same with the test of the path visitors, which skips entries of no width.\<close>

fun span_entries :: "('d::linorder, 's) dimension \<Rightarrow> 'd \<Rightarrow> 'd \<Rightarrow> ('a \<times> 's) list \<Rightarrow> (nat \<times> 'd) option" where
  "span_entries D target pos [] = None"
| "span_entries D target pos ((x, s) # xs) =
     (let end_pos = d_add D pos s in
      if pos \<le> target \<and> target < end_pos then Some (0, pos)
      else map_option (\<lambda>(i, q). (Suc i, q)) (span_entries D target end_pos xs))"

lemma span_entries_bound: "span_entries D target pos xs = Some (i, q) \<Longrightarrow> i < length xs"
  by (induction xs arbitrary: pos i q) (auto simp: Let_def split: if_splits)

section \<open>Items, iteration, validation\<close>

function node_items :: "('i, 's, 'n) node \<Rightarrow> 'i list" where
  "node_items (Leaf n s es) = map fst es"
| "node_items (Internal n h s cs) = concat (map (\<lambda>(c, s). node_items c) cs)"
  by pat_completeness auto
termination
  by (relation "measure size") (simp_all add: child_size_pair del: node.size)

definition tree_items :: "('i, 's, 'n, 'p) sum_tree \<Rightarrow> 'i list" where
  "tree_items t = (case st_root t of None \<Rightarrow> [] | Some node \<Rightarrow> node_items node)"

definition tree_summary :: "('i, 's, 'n, 'p) tree_ops \<Rightarrow> ('i, 's, 'n, 'p) sum_tree \<Rightarrow> 's" where
  "tree_summary K t = (case st_root t of None \<Rightarrow> s_zero K | Some node \<Rightarrow> nd_summary node)"

definition empty_like :: "('i, 's, 'n, 'p) sum_tree \<Rightarrow> ('i, 's, 'n, 'p) sum_tree" where
  "empty_like t = \<lparr>st_ids = st_ids t, st_root = None\<rparr>"

function first_item :: "('i, 's, 'n) node \<Rightarrow> 'i option" where
  "first_item (Leaf n s es) = (if es = [] then None else Some (fst (hd es)))"
| "first_item (Internal n h s cs) = (if cs = [] then None else first_item (fst (hd cs)))"
  by pat_completeness auto
termination
  by (relation "measure size") (simp_all add: child_size_hd del: node.size)

function last_item :: "('i, 's, 'n) node \<Rightarrow> 'i option" where
  "last_item (Leaf n s es) = (if es = [] then None else Some (fst (last es)))"
| "last_item (Internal n h s cs) = (if cs = [] then None else last_item (fst (last cs)))"
  by pat_completeness auto
termination
  by (relation "measure size") (simp_all add: child_size_last del: node.size)

function map_node ::
  "('i, 's, 'n, 'p) tree_ops \<Rightarrow> ('i \<Rightarrow> 'i) \<Rightarrow> ('i, 's, 'n) node \<Rightarrow> ('i, 's, 'n) node" where
  "map_node K f (Leaf n s es) = leaf_of K n (map (\<lambda>(x, s). (f x, s_item K (f x))) es)"
| "map_node K f (Internal n h s cs) = internal_of K n h (map (\<lambda>(c, s). child (map_node K f c)) cs)"
  by pat_completeness auto
termination
  by (relation "measure (\<lambda>(K, f, node). size node)") (simp_all add: child_size_pair del: node.size)

definition for_each_mut ::
  "('i, 's, 'n, 'p) tree_ops \<Rightarrow> ('i \<Rightarrow> 'i) \<Rightarrow> ('i, 's, 'n, 'p) sum_tree \<Rightarrow> ('i, 's, 'n, 'p) sum_tree" where
  "for_each_mut K f t = t\<lparr>st_root := map_option (map_node K f) (st_root t)\<rparr>"

definition recompute_all_summaries ::
  "('i, 's, 'n, 'p) tree_ops \<Rightarrow> ('i, 's, 'n, 'p) sum_tree \<Rightarrow> ('i, 's, 'n, 'p) sum_tree" where
  "recompute_all_summaries K t = for_each_mut K (\<lambda>x. x) t"

text \<open>Every leaf has height 0 in this model, so the check that all leaves agree is vacuous.\<close>

function validate_occupancy :: "('i, 's, 'n, 'p) tree_ops \<Rightarrow> bool \<Rightarrow> ('i, 's, 'n) node \<Rightarrow> bool" where
  "validate_occupancy K is_root (Leaf n s es) \<longleftrightarrow>
     es \<noteq> [] \<and> length es \<le> max_children K \<and> (is_root \<or> branching K \<le> length es)"
| "validate_occupancy K is_root (Internal n h s cs) \<longleftrightarrow>
     cs \<noteq> [] \<and> length cs \<le> max_children K \<and> (is_root \<or> branching K \<le> length cs) \<and>
     list_all (\<lambda>(c, s). nd_height c + 1 = h \<and> validate_occupancy K False c) cs"
  by pat_completeness auto
termination
  by (relation "measure (\<lambda>(K, r, node). size node)") (simp_all add: child_size_pair del: node.size)

definition has_valid_occupancy :: "('i, 's, 'n, 'p) tree_ops \<Rightarrow> ('i, 's, 'n, 'p) sum_tree \<Rightarrow> bool" where
  "has_valid_occupancy K t = (case st_root t of None \<Rightarrow> True | Some node \<Rightarrow> validate_occupancy K True node)"

function validate_summaries :: "('i, 's, 'n, 'p) tree_ops \<Rightarrow> ('i, 's, 'n) node \<Rightarrow> bool" where
  "validate_summaries K (Leaf n s es) \<longleftrightarrow>
     list_all (\<lambda>(x, r). r = s_item K x) es \<and> s = fold_summaries K es"
| "validate_summaries K (Internal n h s cs) \<longleftrightarrow>
     list_all (\<lambda>(c, r). r = nd_summary c \<and> validate_summaries K c) cs \<and>
     s = foldl (s_add K) (s_zero K) (map (\<lambda>(c, s). nd_summary c) cs)"
  by pat_completeness auto
termination
  by (relation "measure (\<lambda>(K, node). size node)") (simp_all add: child_size_pair del: node.size)

definition has_valid_summaries :: "('i, 's, 'n, 'p) tree_ops \<Rightarrow> ('i, 's, 'n, 'p) sum_tree \<Rightarrow> bool" where
  "has_valid_summaries K t = (case st_root t of None \<Rightarrow> True | Some node \<Rightarrow> validate_summaries K node)"

text \<open>The visit of all nodes: each with the identity of its parent and its slot.\<close>

type_synonym ('i, 's, 'n) visit = "('i, 's, 'n) node \<times> 'n option \<times> nat"

function visit_nodes :: "('i, 's, 'n) node \<Rightarrow> 'n option \<Rightarrow> nat \<Rightarrow> ('i, 's, 'n) visit list" where
  "visit_nodes (Leaf n s es) parent slot = [(Leaf n s es, parent, slot)]"
| "visit_nodes (Internal n h s cs) parent slot =
     (Internal n h s cs, parent, slot) #
     concat (map (\<lambda>i. if i < length cs then visit_nodes (fst (cs ! i)) (Some n) i else []) [0..<length cs])"
  by pat_completeness auto
termination
  by (relation "measure (\<lambda>(node, parent, slot). size node)") (simp_all add: child_size_nth del: node.size)

definition for_each_node :: "('i, 's, 'n, 'p) sum_tree \<Rightarrow> ('i, 's, 'n) visit list" where
  "for_each_node t = (case st_root t of None \<Rightarrow> [] | Some node \<Rightarrow> visit_nodes node None 0)"

function node_ids :: "('i, 's, 'n) node \<Rightarrow> 'n list" where
  "node_ids (Leaf n s es) = [n]"
| "node_ids (Internal n h s cs) = n # concat (map (\<lambda>(c, s). node_ids c) cs)"
  by pat_completeness auto
termination
  by (relation "measure size") (simp_all add: child_size_pair del: node.size)

definition has_valid_node_ids :: "('i, 's, 'n, 'p) tree_ops \<Rightarrow> ('i, 's, 'n, 'p) sum_tree \<Rightarrow> bool" where
  "has_valid_node_ids K t \<longleftrightarrow> ids_valid K (st_ids t) \<and>
     (case st_root t of None \<Rightarrow> True | Some node \<Rightarrow> list_all (id_valid K) (node_ids node))"

definition has_unique_node_ids :: "('i, 's, 'n, 'p) tree_ops \<Rightarrow> ('i, 's, 'n, 'p) sum_tree \<Rightarrow> bool" where
  "has_unique_node_ids K t \<longleftrightarrow> has_valid_node_ids K t \<and>
     distinct (map (\<lambda>(node, parent, slot). nd_id node) (for_each_node t))"

text \<open>The path to a coordinate, and the leaves next to it.\<close>

function node_path ::
  "('d::linorder, 's) dimension \<Rightarrow> 'd \<Rightarrow> ('i, 's, 'n) node \<Rightarrow> 'n option \<Rightarrow> nat \<Rightarrow> 'd \<Rightarrow>
     ('i, 's, 'n) visit list option" where
  "node_path D target (Leaf n s es) parent slot start =
     (case span_entries D target start es of
        None \<Rightarrow> None | Some _ \<Rightarrow> Some [(Leaf n s es, parent, slot)])"
| "node_path D target (Internal n h s cs) parent slot start =
     (case span_entries D target start cs of
        None \<Rightarrow> None
      | Some (i, pos) \<Rightarrow>
          map_option ((#) (Internal n h s cs, parent, slot))
            (node_path D target (fst (cs ! i)) (Some n) i pos))"
  by pat_completeness auto
termination
  by (relation "measure (\<lambda>(D, target, node, parent, slot, start). size node)")
    (auto dest!: span_entries_bound simp: child_size_nth simp del: node.size)

definition for_each_node_on_path ::
  "('d::linorder, 's) dimension \<Rightarrow> 'd \<Rightarrow> ('i, 's, 'n, 'p) sum_tree \<Rightarrow> ('i, 's, 'n) visit list option" where
  "for_each_node_on_path D target t =
     (case st_root t of None \<Rightarrow> None | Some node \<Rightarrow> node_path D target node None 0 (d_zero D))"

function leaf_neighborhood ::
  "('d::linorder, 's) dimension \<Rightarrow> 'd \<Rightarrow> ('i, 's, 'n) node \<Rightarrow> 'd \<Rightarrow> ('i, 's, 'n) node list option" where
  "leaf_neighborhood D target (Leaf n s es) start = Some [Leaf n s es]"
| "leaf_neighborhood D target (Internal n h s cs) start =
     (case span_entries D target start cs of
        None \<Rightarrow> None
      | Some (i, pos) \<Rightarrow>
          if is_leaf (fst (cs ! i)) then Some (filter is_leaf (map fst cs))
          else leaf_neighborhood D target (fst (cs ! i)) pos)"
  by pat_completeness auto
termination
  by (relation "measure (\<lambda>(D, target, node, start). size node)")
    (auto dest!: span_entries_bound simp: child_size_nth simp del: node.size)

definition for_each_leaf_near_path ::
  "('d::linorder, 's) dimension \<Rightarrow> 'd \<Rightarrow> ('i, 's, 'n, 'p) sum_tree \<Rightarrow> ('i, 's, 'n) node list option" where
  "for_each_leaf_near_path D target t =
     (case st_root t of
        None \<Rightarrow> None
      | Some node \<Rightarrow>
          if node_path D target node None 0 (d_zero D) = None then None
          else leaf_neighborhood D target node (d_zero D))"

section \<open>Editing, inserting and removing at a position\<close>

text \<open>\<open>None\<close> is the result \<open>false\<close>.\<close>

function edit_item_recursive ::
  "('i, 's, 'n, 'p) tree_ops \<Rightarrow> ('d::linorder, 's) dimension \<Rightarrow> ('i \<Rightarrow> 'i) \<Rightarrow> 'd \<Rightarrow> bias \<Rightarrow> 'd \<Rightarrow>
     ('i, 's, 'n) node \<Rightarrow> ('i, 's, 'n) node option" where
  "edit_item_recursive K D f target b cumulative (Leaf n s es) =
     (case seek_entries D target b cumulative es of
        (i, pos, found) \<Rightarrow>
          if found then let x = f (fst (es ! i)) in Some (leaf_of K n (es[i := (x, s_item K x)]))
          else None)"
| "edit_item_recursive K D f target b cumulative (Internal n h s cs) =
     (case seek_entries D target b cumulative cs of
        (i, pos, found) \<Rightarrow>
          if found \<and> i < length cs then
            map_option (\<lambda>c. internal_of K n h (cs[i := child c]))
              (edit_item_recursive K D f target b pos (fst (cs ! i)))
          else None)"
  by pat_completeness auto
termination
  by (relation "measure (\<lambda>(K, D, f, target, b, cumulative, node). size node)")
    (simp_all add: child_size_nth del: node.size)

definition edit_item ::
  "('i, 's, 'n, 'p) tree_ops \<Rightarrow> ('d::linorder, 's) dimension \<Rightarrow> 'd \<Rightarrow> ('i \<Rightarrow> 'i) \<Rightarrow> bias \<Rightarrow>
     ('i, 's, 'n, 'p) sum_tree \<Rightarrow> ('i, 's, 'n, 'p) sum_tree option" where
  "edit_item K D target f b t =
     (case st_root t of
        None \<Rightarrow> None
      | Some root \<Rightarrow>
          map_option (\<lambda>root'. t\<lparr>st_root := Some root'\<rparr>)
            (edit_item_recursive K D f target b (d_zero D) root))"

definition insert_at :: "nat \<Rightarrow> 'a \<Rightarrow> 'a list \<Rightarrow> 'a list" where
  "insert_at i x xs = take i xs @ x # drop i xs"

definition insert_leaf ::
  "('i, 's, 'n, 'p) tree_ops \<Rightarrow> 'n \<Rightarrow> ('i \<times> 's) list \<Rightarrow> nat \<Rightarrow> 'i \<times> 's \<Rightarrow> 'p \<Rightarrow> ('i, 's, 'n, 'p) grown" where
  "insert_leaf K n es i entry p =
     (let full = insert_at i entry es in
      if length es < max_children K then (leaf_of K n full, None, p)
      else
        let mid = (max_children K + 1) div 2 in
        case alloc_id K p of
          (p', right) \<Rightarrow> (leaf_of K n (take mid full), Some (leaf_of K right (drop mid full)), p'))"

definition insert_child ::
  "('i, 's, 'n, 'p) tree_ops \<Rightarrow> 'n \<Rightarrow> nat \<Rightarrow> (('i, 's, 'n) node \<times> 's) list \<Rightarrow> nat \<Rightarrow> ('i, 's, 'n) node option \<Rightarrow>
     'p \<Rightarrow> ('i, 's, 'n, 'p) grown" where
  "insert_child K n h cs i overflow p =
     (case overflow of
        None \<Rightarrow> (internal_of K n h cs, None, p)
      | Some c \<Rightarrow>
          let full = insert_at i (child c) cs in
          if length cs < max_children K then (internal_of K n h full, None, p)
          else
            let mid = (max_children K + 1) div 2 in
            case alloc_id K p of
              (p', right) \<Rightarrow>
                (internal_of K n h (take mid full), Some (internal_of K right h (drop mid full)), p'))"

text \<open>Where no child is past the target the last one is taken, from the position it starts at.\<close>

definition insertion_child ::
  "('d::linorder, 's) dimension \<Rightarrow> 'd \<Rightarrow> bias \<Rightarrow> 'd \<Rightarrow> ('a \<times> 's) list \<Rightarrow> nat \<times> 'd" where
  "insertion_child D target b cumulative cs =
     (case seek_entries D target b cumulative cs of
        (i, pos, found) \<Rightarrow>
          if found then (i, pos)
          else (length cs - 1, foldl (d_add D) cumulative (map snd (butlast cs))))"

function insert_item_recursive ::
  "('i, 's, 'n, 'p) tree_ops \<Rightarrow> ('d::linorder, 's) dimension \<Rightarrow> 'd \<Rightarrow> 'i \<Rightarrow> bias \<Rightarrow> 'd \<Rightarrow>
     ('i, 's, 'n) node \<Rightarrow> 'p \<Rightarrow> ('i, 's, 'n, 'p) grown" where
  "insert_item_recursive K D target x b cumulative (Leaf n s es) p =
     insert_leaf K n es (fst (seek_entries D target b cumulative es)) (x, s_item K x) p"
| "insert_item_recursive K D target x b cumulative (Internal n h s cs) p =
     (case insertion_child D target b cumulative cs of
        (i, pos) \<Rightarrow>
          if i < length cs then
            case insert_item_recursive K D target x b pos (fst (cs ! i)) p of
              (c, overflow, p') \<Rightarrow> insert_child K n h (cs[i := child c]) (i + 1) overflow p'
          else (Internal n h s cs, None, p))"
  by pat_completeness auto
termination
  by (relation "measure (\<lambda>(K, D, target, x, b, cumulative, node, p). size node)")
    (simp_all add: child_size_nth del: node.size)

definition insert_item ::
  "('i, 's, 'n, 'p) tree_ops \<Rightarrow> ('d::linorder, 's) dimension \<Rightarrow> 'd \<Rightarrow> 'i \<Rightarrow> bias \<Rightarrow>
     ('i, 's, 'n, 'p) sum_tree \<Rightarrow> ('i, 's, 'n, 'p) sum_tree" where
  "insert_item K D target x b t =
     (case (case st_root t of None \<Rightarrow> make_leaf K (st_ids t) | Some root \<Rightarrow> (root, st_ids t)) of
        (root, p) \<Rightarrow> grow K (insert_item_recursive K D target x b (d_zero D) root p))"

definition remove_at :: "nat \<Rightarrow> 'a list \<Rightarrow> 'a list" where
  "remove_at i xs = take i xs @ drop (i + 1) xs"

function remove_item_recursive ::
  "('i, 's, 'n, 'p) tree_ops \<Rightarrow> ('d::linorder, 's) dimension \<Rightarrow> 'd \<Rightarrow> bias \<Rightarrow> 'd \<Rightarrow>
     ('i, 's, 'n) node \<Rightarrow> ('i, 's, 'n) node option" where
  "remove_item_recursive K D target b cumulative (Leaf n s es) =
     (case seek_entries D target b cumulative es of
        (i, pos, found) \<Rightarrow> if found then Some (leaf_of K n (remove_at i es)) else None)"
| "remove_item_recursive K D target b cumulative (Internal n h s cs) =
     (case seek_entries D target b cumulative cs of
        (i, pos, found) \<Rightarrow>
          if found \<and> i < length cs then
            map_option (\<lambda>c. internal_of K n h (if nd_count c = 0 then remove_at i cs else cs[i := child c]))
              (remove_item_recursive K D target b pos (fst (cs ! i)))
          else None)"
  by pat_completeness auto
termination
  by (relation "measure (\<lambda>(K, D, target, b, cumulative, node). size node)")
    (simp_all add: child_size_nth del: node.size)

definition shrink_root :: "('i, 's, 'n) node \<Rightarrow> ('i, 's, 'n) node option" where
  "shrink_root root =
     (case root of
        Leaf n s es \<Rightarrow> if es = [] then None else Some root
      | Internal n h s cs \<Rightarrow>
          if length cs = 1 then Some (fst (hd cs)) else if cs = [] then None else Some root)"

definition remove_item ::
  "('i, 's, 'n, 'p) tree_ops \<Rightarrow> ('d::linorder, 's) dimension \<Rightarrow> 'd \<Rightarrow> bias \<Rightarrow>
     ('i, 's, 'n, 'p) sum_tree \<Rightarrow> ('i, 's, 'n, 'p) sum_tree option" where
  "remove_item K D target b t =
     (case st_root t of
        None \<Rightarrow> None
      | Some root \<Rightarrow>
          map_option (\<lambda>root'. t\<lparr>st_root := shrink_root root'\<rparr>)
            (remove_item_recursive K D target b (d_zero D) root))"

section \<open>Replacing a range\<close>

record ('i, 's, 'n, 'p) range_parts =
  rp_prefix :: "('i, 's, 'n) node list"
  rp_suffix :: "('i, 's, 'n) node list"
  rp_valid :: bool
  rp_ids :: 'p

definition append_leaf_items ::
  "('i, 's, 'n, 'p) tree_ops \<Rightarrow> ('i \<times> 's) list \<Rightarrow> 'p \<Rightarrow> ('i, 's, 'n) node list \<times> 'p" where
  "append_leaf_items K es p =
     (if es = [] then ([], p) else case alloc_id K p of (p', n) \<Rightarrow> ([leaf_of K n es], p'))"

text \<open>Which items of a leaf stay before and after the range; \<open>None\<close> if the range cuts an item.\<close>

fun split_leaf_items ::
  "('d::linorder, 's) dimension \<Rightarrow> 'd \<Rightarrow> 'd \<Rightarrow> 'd \<Rightarrow> ('i \<times> 's) list \<Rightarrow>
     (('i \<times> 's) list \<times> ('i \<times> 's) list) option" where
  "split_leaf_items D first last' start [] = Some ([], [])"
| "split_leaf_items D first last' start ((x, s) # es) =
     (let end_pos = d_add D start s in
      if end_pos \<le> first then
        map_option (\<lambda>(pre, suf). ((x, s) # pre, suf)) (split_leaf_items D first last' end_pos es)
      else if start \<ge> last' then
        map_option (\<lambda>(pre, suf). (pre, (x, s) # suf)) (split_leaf_items D first last' end_pos es)
      else if first \<le> start \<and> end_pos \<le> last' then split_leaf_items D first last' end_pos es
      else None)"

function split_range_node ::
    "('i, 's, 'n, 'p) tree_ops \<Rightarrow> ('d::linorder, 's) dimension \<Rightarrow> 'd \<Rightarrow> 'd \<Rightarrow> 'd \<Rightarrow>
       ('i, 's, 'n) node \<Rightarrow> ('i, 's, 'n, 'p) range_parts \<Rightarrow> ('i, 's, 'n, 'p) range_parts"
  and split_range_children ::
    "('i, 's, 'n, 'p) tree_ops \<Rightarrow> ('d::linorder, 's) dimension \<Rightarrow> 'd \<Rightarrow> 'd \<Rightarrow> 'd \<Rightarrow>
       (('i, 's, 'n) node \<times> 's) list \<Rightarrow> ('i, 's, 'n, 'p) range_parts \<Rightarrow> ('i, 's, 'n, 'p) range_parts" where
  "split_range_node K D first last' base node parts =
     (let node_end = d_add D base (nd_summary node) in
      if node_end \<le> first then parts\<lparr>rp_prefix := rp_prefix parts @ [node]\<rparr>
      else if base \<ge> last' then parts\<lparr>rp_suffix := rp_suffix parts @ [node]\<rparr>
      else if first \<le> base \<and> node_end \<le> last' then parts
      else case node of
        Leaf n s es \<Rightarrow>
          (case split_leaf_items D first last' base es of
             None \<Rightarrow> parts\<lparr>rp_valid := False\<rparr>
           | Some (pre, suf) \<Rightarrow>
               (case append_leaf_items K pre (rp_ids parts) of
                  (pre_nodes, p1) \<Rightarrow>
                    (case append_leaf_items K suf p1 of
                       (suf_nodes, p2) \<Rightarrow>
                         parts\<lparr>rp_prefix := rp_prefix parts @ pre_nodes,
                               rp_suffix := rp_suffix parts @ suf_nodes, rp_ids := p2\<rparr>)))
      | Internal n h s cs \<Rightarrow> split_range_children K D first last' base cs parts)"
| "split_range_children K D first last' start [] parts = parts"
| "split_range_children K D first last' start ((c, s) # cs) parts =
     (let end_pos = d_add D start s;
          parts' =
            (if end_pos \<le> first then parts\<lparr>rp_prefix := rp_prefix parts @ [c]\<rparr>
             else if start \<ge> last' then parts\<lparr>rp_suffix := rp_suffix parts @ [c]\<rparr>
             else if first \<le> start \<and> end_pos \<le> last' then parts
             else split_range_node K D first last' start c parts)
      in if \<not> rp_valid parts' then parts' else split_range_children K D first last' end_pos cs parts')"
  by pat_completeness auto
termination
  by (relation "measure (\<lambda>x. case x of
        Inl (K, D, first, last', base, node, parts) \<Rightarrow> 2 * size node
      | Inr (K, D, first, last', start, cs, parts) \<Rightarrow> 2 * size_list (size_prod size (\<lambda>_. 0)) cs + 1)") auto

declare split_range_node.simps [simp del]

definition push_nodes ::
  "('i, 's, 'n, 'p) tree_ops \<Rightarrow> ('i, 's, 'n) node list \<Rightarrow> ('i, 's, 'n, 'p) sum_tree \<Rightarrow> ('i, 's, 'n, 'p) sum_tree" where
  "push_nodes K nodes t = fold (\<lambda>node t. push_tree K t (Some node)) nodes t"

definition splice_range ::
  "('i, 's, 'n, 'p) tree_ops \<Rightarrow> ('d::linorder, 's) dimension \<Rightarrow> 'd \<Rightarrow> 'd \<Rightarrow> ('i, 's, 'n, 'p) sum_tree \<Rightarrow>
     ('i, 's, 'n, 'p) sum_tree \<Rightarrow> ('i, 's, 'n, 'p) sum_tree option" where
  "splice_range K D first last' replacement t =
     (let full = (case st_root t of None \<Rightarrow> d_zero D | Some root \<Rightarrow> d_add D (d_zero D) (nd_summary root)) in
      if last' < first then None
      else if full < last' then None
      else if first = last' \<and> tree_empty replacement then Some t
      else
        let none = \<lparr>rp_prefix = [], rp_suffix = [], rp_valid = True, rp_ids = st_ids t\<rparr>;
            parts = (case st_root t of
              None \<Rightarrow> none | Some root \<Rightarrow> split_range_node K D first last' (d_zero D) root none)
        in if \<not> rp_valid parts then None
           else
             let result = push_nodes K (rp_prefix parts) \<lparr>st_ids = rp_ids parts, st_root = None\<rparr>
             in Some (push_nodes K (rp_suffix parts) (push_tree K result (st_root replacement))))"

end
