(* ===== verification/Sum_Tree_Shape.thy ===== *)
theory Sum_Tree_Shape
  imports Sum_Tree
begin

text \<open>
  The shape of the tree under appending. The code's own validators are the invariant: every node
  but the root holds between \<open>B\<close> and \<open>2B\<close> entries, all leaves are on one level, and the stored
  summaries are those of the entries. A step that grows a node is described by \<open>grown_ok\<close>: the node
  and its overflow sibling, when there is one, hold the expected items. The tree then refines the
  list of its items: appending an item or a tree appends to the list.
\<close>

section \<open>Growing nodes\<close>

definition entries_fit :: "('i, 's, 'n, 'p) tree_ops \<Rightarrow> bool \<Rightarrow> nat \<Rightarrow> bool" where
  "entries_fit K is_root n \<longleftrightarrow> 0 < n \<and> n \<le> max_children K \<and> (is_root \<or> branching K \<le> n)"

definition child_ok :: "('i, 's, 'n, 'p) tree_ops \<Rightarrow> nat \<Rightarrow> ('i, 's, 'n) node \<times> 's \<Rightarrow> bool" where
  "child_ok K h c \<longleftrightarrow> nd_height (fst c) + 1 = h \<and> validate_occupancy K False (fst c) \<and>
     validate_summaries K (fst c) \<and> snd c = nd_summary (fst c)"

definition stored_ok :: "('i, 's, 'n, 'p) tree_ops \<Rightarrow> 'i \<times> 's \<Rightarrow> bool" where
  "stored_ok K e \<longleftrightarrow> snd e = s_item K (fst e)"

definition node_ok :: "('i, 's, 'n, 'p) tree_ops \<Rightarrow> bool \<Rightarrow> nat \<Rightarrow> ('i, 's, 'n) node \<Rightarrow> bool" where
  "node_ok K is_root h node \<longleftrightarrow> nd_height node = h \<and> validate_occupancy K is_root node \<and> validate_summaries K node"

definition child_items :: "(('i, 's, 'n) node \<times> 's) list \<Rightarrow> 'i list" where
  "child_items cs = concat (map (\<lambda>c. node_items (fst c)) cs)"

lemma child_items_simps [simp]:
  "child_items [] = []"
  "child_items (c # cs) = node_items (fst c) @ child_items cs"
  "child_items (cs @ ds) = child_items cs @ child_items ds"
  by (simp_all add: child_items_def)

declare node_items.simps(2) [simp del]

lemma node_items_internal [simp]: "node_items (Internal n h s cs) = child_items cs"
  unfolding node_items.simps child_items_def case_prod_beta by (rule refl)

lemma child_items_split: "child_items (take k cs) @ child_items (drop k cs) = child_items cs"
  by (metis append_take_drop_id child_items_simps(3))

lemma child_items_split': "child_items (take k cs) @ child_items (drop k cs) @ ys = child_items cs @ ys"
  by (simp add: child_items_split flip: append_assoc)

lemma last_child: "cs \<noteq> [] \<Longrightarrow> child_items cs = child_items (butlast cs) @ node_items (fst (last cs))"
  by (metis append.right_neutral append_butlast_last_id child_items_simps)

lemma first_child: "cs \<noteq> [] \<Longrightarrow> child_items cs = node_items (fst (hd cs)) @ child_items (tl cs)"
  by (cases cs) simp_all

lemma entries_ok: "list_all (\<lambda>(x, r). r = s_item K x) es \<longleftrightarrow> list_all (stored_ok K) es"
  by (simp add: list_all_iff stored_ok_def case_prod_beta)

lemma node_ok_leaf:
  "node_ok K r h (Leaf n s es) \<longleftrightarrow>
     h = 0 \<and> entries_fit K r (length es) \<and> list_all (stored_ok K) es \<and> s = fold_summaries K es"
  unfolding node_ok_def validate_occupancy.simps validate_summaries.simps entries_ok entries_fit_def nd_height.simps
  by auto

lemma summaries_of_children:
  "list_all (child_ok K h) cs \<Longrightarrow> foldl f z (map (\<lambda>(c, s). nd_summary c) cs) = foldl f z (map snd cs)"
  by (rule arg_cong [of _ _ "foldl f z"]) (simp add: list_all_iff child_ok_def case_prod_beta)

lemma node_ok_internal:
  "node_ok K r h (Internal n g s cs) \<longleftrightarrow>
     h = g \<and> entries_fit K r (length cs) \<and> list_all (child_ok K h) cs \<and> s = fold_summaries K cs"
proof -
  have "list_all (child_ok K g) cs \<longleftrightarrow>
    list_all (\<lambda>(c, s). nd_height c + 1 = g \<and> validate_occupancy K False c) cs \<and>
    list_all (\<lambda>(c, r). r = nd_summary c \<and> validate_summaries K c) cs"
    by (auto simp: list_all_iff child_ok_def case_prod_beta)
  moreover have "list_all (child_ok K g) cs \<Longrightarrow>
      s = foldl (s_add K) (s_zero K) (map (\<lambda>(c, s). nd_summary c) cs) \<longleftrightarrow> s = fold_summaries K cs"
    by (simp only: summaries_of_children fold_summaries_def)
  ultimately show ?thesis
    unfolding node_ok_def validate_occupancy.simps validate_summaries.simps entries_fit_def nd_height.simps
    by blast
qed

lemma leaf_of_ok:
  "node_ok K r h (leaf_of K n es) \<longleftrightarrow> h = 0 \<and> entries_fit K r (length es) \<and> list_all (stored_ok K) es"
  by (auto simp: leaf_of_def node_ok_leaf)

lemma internal_of_ok:
  "node_ok K r h (internal_of K n g cs) \<longleftrightarrow> h = g \<and> entries_fit K r (length cs) \<and> list_all (child_ok K h) cs"
  by (auto simp: internal_of_def node_ok_internal)

lemma child_child_ok [simp]: "child_ok K h (child c) \<longleftrightarrow> (\<exists>g. h = Suc g \<and> node_ok K False g c)"
  by (auto simp: child_ok_def child_def node_ok_def)

lemma child_okD: "child_ok K h c \<Longrightarrow> \<exists>g. h = Suc g \<and> node_ok K False g (fst c)"
  by (auto simp: child_ok_def node_ok_def)

lemma items_of [simp]:
  "node_items (leaf_of K n es) = map fst es" "node_items (internal_of K n h cs) = child_items cs"
  "nd_height (leaf_of K n es) = 0" "nd_height (internal_of K n h cs) = h"
  "nd_count (leaf_of K n es) = length es" "nd_count (internal_of K n h cs) = length cs"
  by (simp_all add: leaf_of_def internal_of_def)

lemma fst_child [simp]: "fst (child c) = c" "snd (child c) = nd_summary c"
  by (simp_all add: child_def)

definition grown_ok ::
  "('i, 's, 'n, 'p) tree_ops \<Rightarrow> bool \<Rightarrow> nat \<Rightarrow> 'i list \<Rightarrow> ('i, 's, 'n, 'p) grown \<Rightarrow> bool" where
  "grown_ok K is_root h xs result \<longleftrightarrow>
     (case result of
        (node, None, p) \<Rightarrow> node_ok K is_root h node \<and> node_items node = xs
      | (node, Some right, p) \<Rightarrow>
          node_ok K False h node \<and> node_ok K False h right \<and> node_items node @ node_items right = xs)"

definition tree_ok :: "('i, 's, 'n, 'p) tree_ops \<Rightarrow> ('i, 's, 'n, 'p) sum_tree \<Rightarrow> bool" where
  "tree_ok K t \<longleftrightarrow> (case st_root t of None \<Rightarrow> True | Some root \<Rightarrow> node_ok K True (nd_height root) root)"

lemma tree_ok_validators: "tree_ok K t \<longleftrightarrow> has_valid_occupancy K t \<and> has_valid_summaries K t"
  by (auto simp: tree_ok_def has_valid_occupancy_def has_valid_summaries_def node_ok_def split: option.splits)

lemma tree_ok_empty [simp]: "tree_ok K \<lparr>st_ids = p, st_root = None\<rparr>" "tree_items \<lparr>st_ids = p, st_root = None\<rparr> = []"
  by (simp_all add: tree_ok_def tree_items_def)

lemma tree_root [simp]:
  "tree_items \<lparr>st_ids = p, st_root = Some root\<rparr> = node_items root"
  "tree_ok K \<lparr>st_ids = p, st_root = Some root\<rparr> \<longleftrightarrow> node_ok K True (nd_height root) root"
  by (simp_all add: tree_ok_def tree_items_def)

lemma node_ok_height: "node_ok K r h node \<Longrightarrow> nd_height node = h"
  by (simp add: node_ok_def)

lemma node_ok_root: "node_ok K False h node \<Longrightarrow> node_ok K True h node"
  by (cases node) (auto simp: node_ok_leaf node_ok_internal entries_fit_def)

text \<open>The branching factor is at least 2, as the \<open>static_assert\<close> demands.\<close>

definition branching_ok :: "('i, 's, 'n, 'p) tree_ops \<Rightarrow> bool" where
  "branching_ok K \<longleftrightarrow> 2 \<le> branching K"

lemma new_root_ok:
  assumes "branching_ok K" "node_ok K False h left" "node_ok K False h right"
  shows "case new_root K left right p of (root, p') \<Rightarrow>
    node_ok K True (Suc h) root \<and> node_items root = node_items left @ node_items right"
  using assms by (auto simp: new_root_def internal_of_ok entries_fit_def max_children_def branching_ok_def
      node_ok_height split: prod.splits)

lemma grow_ok:
  assumes "branching_ok K" "grown_ok K True h xs result"
  shows "tree_ok K (grow K result)" "tree_items (grow K result) = xs"
proof -
  obtain node ov p where r: "result = (node, ov, p)"
    by (metis surj_pair)
  have "tree_ok K (grow K result) \<and> tree_items (grow K result) = xs"
  proof (cases ov)
    case None
    then show ?thesis
      using assms(2) r by (auto simp: grow_def grown_ok_def node_ok_height)
  next
    case (Some right)
    then show ?thesis
      using assms new_root_ok [OF assms(1), of h node right p] r
      by (auto simp: grow_def grown_ok_def node_ok_height split: prod.splits)
  qed
  then show "tree_ok K (grow K result)" "tree_items (grow K result) = xs"
    by simp_all
qed

section \<open>Overflows\<close>

lemma half_fits:
  "branching_ok K \<Longrightarrow> max_children K \<le> n \<Longrightarrow> n \<le> max_children K + 1 \<Longrightarrow>
     entries_fit K False (max_children K div 2) \<and> entries_fit K False (n - max_children K div 2) \<or>
     n = max_children K \<and> entries_fit K False (max_children K div 2)"
  by (auto simp: entries_fit_def max_children_def branching_ok_def)

lemma list_all_take: "list_all P xs \<Longrightarrow> list_all P (take k xs)"
  by (auto simp: list_all_iff dest: in_set_takeD)

lemma list_all_drop: "list_all P xs \<Longrightarrow> list_all P (drop k xs)"
  by (auto simp: list_all_iff dest: in_set_dropD)

lemma list_all_butlast: "list_all P xs \<Longrightarrow> list_all P (butlast xs)"
  by (auto simp: list_all_iff dest: in_set_butlastD)

lemma list_all_tl: "list_all P xs \<Longrightarrow> list_all P (tl xs)"
  by (cases xs) simp_all

lemma list_all_last: "list_all P xs \<Longrightarrow> xs \<noteq> [] \<Longrightarrow> P (last xs)"
  by (simp add: list_all_iff)

lemma list_all_hd: "list_all P xs \<Longrightarrow> xs \<noteq> [] \<Longrightarrow> P (hd xs)"
  by (simp add: list_all_iff)

lemma add_last_ok:
  assumes B: "branching_ok K" and cs: "entries_fit K r (length cs)" "list_all (child_ok K (Suc h)) cs"
    and ov: "\<And>c. overflow = Some c \<Longrightarrow> node_ok K False h c"
  shows "grown_ok K r (Suc h)
    (child_items cs @ (case overflow of None \<Rightarrow> [] | Some c \<Rightarrow> node_items c)) (add_last K n (Suc h) cs overflow p)"
proof (cases overflow)
  case None
  then show ?thesis
    using cs by (simp add: add_last_def grown_ok_def internal_of_ok)
next
  case (Some c)
  show ?thesis
  proof (cases "length cs < max_children K")
    case True
    then show ?thesis
      using Some cs ov [OF Some] by (auto simp: add_last_def grown_ok_def internal_of_ok entries_fit_def)
  next
    case False
    then have len: "length cs = max_children K"
      using cs(1) by (simp add: entries_fit_def)
    have halves: "entries_fit K False (length (take (max_children K div 2) cs))"
      "entries_fit K False (length (drop (max_children K div 2) cs @ [child c]))"
      using B len by (auto simp: entries_fit_def max_children_def branching_ok_def)
    show ?thesis
      using Some False halves ov [OF Some] cs(2)
      by (simp add: add_last_def split_internal_and_add_def Let_def case_prod_beta grown_ok_def internal_of_ok
          list_all_take list_all_drop child_items_split')
  qed
qed

text \<open>The mirror image: the overflow is the left sibling.\<close>

definition grown_left_ok ::
  "('i, 's, 'n, 'p) tree_ops \<Rightarrow> bool \<Rightarrow> nat \<Rightarrow> 'i list \<Rightarrow> ('i, 's, 'n, 'p) grown \<Rightarrow> bool" where
  "grown_left_ok K is_root h xs result \<longleftrightarrow>
     (case result of
        (node, None, p) \<Rightarrow> node_ok K is_root h node \<and> node_items node = xs
      | (node, Some left, p) \<Rightarrow>
          node_ok K False h node \<and> node_ok K False h left \<and> node_items left @ node_items node = xs)"

lemma add_first_ok:
  assumes B: "branching_ok K" and cs: "entries_fit K r (length cs)" "list_all (child_ok K (Suc h)) cs"
    and ov: "\<And>c. overflow = Some c \<Longrightarrow> node_ok K False h c"
  shows "grown_left_ok K r (Suc h)
    ((case overflow of None \<Rightarrow> [] | Some c \<Rightarrow> node_items c) @ child_items cs) (add_first K n (Suc h) cs overflow p)"
proof (cases overflow)
  case None
  then show ?thesis
    using cs by (simp add: add_first_def grown_left_ok_def internal_of_ok)
next
  case (Some c)
  show ?thesis
  proof (cases "length cs < max_children K")
    case True
    then show ?thesis
      using Some cs ov [OF Some] by (auto simp: add_first_def grown_left_ok_def internal_of_ok entries_fit_def)
  next
    case False
    then have len: "length cs = max_children K"
      using cs(1) by (simp add: entries_fit_def)
    let ?k = "max_children K div 2 - 1"
    have halves: "entries_fit K False (length (drop ?k cs))"
      "entries_fit K False (length (child c # take ?k cs))"
      using B len by (auto simp: entries_fit_def max_children_def branching_ok_def)
    show ?thesis
      using Some False halves ov [OF Some] cs(2)
      by (simp add: add_first_def split_internal_and_prepend_def Let_def case_prod_beta grown_left_ok_def internal_of_ok
          list_all_take list_all_drop child_items_split)
  qed
qed

section \<open>Appending an item\<close>

lemma fold_summaries_snoc: "fold_summaries K (xs @ [x]) = s_add K (fold_summaries K xs) (snd x)"
  by (simp add: fold_summaries_def)

lemma full_leaf_halves:
  assumes "branching_ok K" "length es = max_children K" "list_all (stored_ok K) es" "stored_ok K (x, s)"
  shows "grown_ok K r 0 (map fst es @ [x]) (split_leaf_and_push K n es x s p)"
proof -
  have "entries_fit K False (length (take (max_children K div 2) es))"
    "entries_fit K False (length (drop (max_children K div 2) es @ [(x, s)]))"
    using assms(1,2) by (auto simp: entries_fit_def max_children_def branching_ok_def)
  then show ?thesis
    using assms(3,4)
    by (simp add: split_leaf_and_push_def Let_def grown_ok_def leaf_of_ok list_all_take list_all_drop
        case_prod_beta flip: append_assoc map_append, simp)
qed

lemma last_child_replaced:
  assumes cs: "cs \<noteq> []" "list_all (child_ok K (Suc h)) cs" and c: "node_ok K False h c"
    and fit: "entries_fit K r (length cs)" and B: "branching_ok K"
    and ov: "\<And>d. overflow = Some d \<Longrightarrow> node_ok K False h d"
    and ys: "node_items c @ (case overflow of None \<Rightarrow> [] | Some d \<Rightarrow> node_items d) = ys"
  shows "grown_ok K r (Suc h) (child_items (butlast cs) @ ys)
    (add_last K n (Suc h) (butlast cs @ [child c]) overflow p)"
proof -
  have "entries_fit K r (length (butlast cs @ [child c]))"
    "list_all (child_ok K (Suc h)) (butlast cs @ [child c])"
    using fit cs c by (simp_all add: list_all_butlast)
  from add_last_ok [OF B this, of overflow n p] show ?thesis
    using ys ov by simp
qed

lemma grown_cases:
  assumes "grown_ok K r h xs (c, overflow, p)" "r = False"
  shows "node_ok K False h c" "\<And>d. overflow = Some d \<Longrightarrow> node_ok K False h d"
    "node_items c @ (case overflow of None \<Rightarrow> [] | Some d \<Rightarrow> node_items d) = xs"
  using assms by (auto simp: grown_ok_def split: option.splits)

theorem push_item_recursive_ok:
  assumes B: "branching_ok K"
  shows "node_ok K r h node \<or> (r \<and> h = 0 \<and> (\<exists>n. node = Leaf n (s_zero K) [])) \<Longrightarrow> s = s_item K x \<Longrightarrow>
    grown_ok K r h (node_items node @ [x]) (push_item_recursive K x s node p)"
  using B
proof (induction K x s node p arbitrary: r h rule: push_item_recursive.induct)
  case (1 K x s n t es p)
  have pre: "h = 0" "length es \<le> max_children K" "r \<or> branching K \<le> length es" "list_all (stored_ok K) es"
    "t = fold_summaries K es"
    using 1(1) by (auto simp: node_ok_leaf entries_fit_def fold_summaries_def)
  have new: "stored_ok K (x, s)"
    using 1(2) by (simp add: stored_ok_def)
  show ?case
  proof (cases "length es < max_children K")
    case True
    then show ?thesis
      using pre new by (auto simp: grown_ok_def node_ok_leaf entries_fit_def fold_summaries_snoc)
  next
    case False
    then show ?thesis
      using full_leaf_halves [OF 1(3) _ pre(4) new] pre by simp
  qed
next
  case (2 K x s n g t cs p)
  have pre: "h = g" "cs \<noteq> []" "entries_fit K r (length cs)" "list_all (child_ok K h) cs"
    using 2(2) by (auto simp: node_ok_internal entries_fit_def)
  obtain k where k: "h = Suc k" "node_ok K False k (fst (last cs))"
    using child_okD [OF list_all_last [OF pre(4,2)]] by blast
  obtain c overflow p' where r: "push_item_recursive K x s (fst (last cs)) p = (c, overflow, p')"
    by (metis surj_pair)
  have grown: "grown_ok K False k (node_items (fst (last cs)) @ [x]) (c, overflow, p')"
    using 2(1) [OF pre(2), of False k] k(2) 2(3,4) r by simp
  note * = grown_cases [OF grown refl]
  show ?case
    using last_child_replaced [OF pre(2) pre(4) [unfolded k(1)] *(1) pre(3) 2(4) *(2) *(3), of n p'] pre r k(1)
    by (simp add: last_child [OF pre(2)])
qed

theorem push_item_ok:
  assumes "branching_ok K" "tree_ok K t"
  shows "tree_ok K (push_item K x t)" "tree_items (push_item K x t) = tree_items t @ [x]"
proof -
  obtain root p where r: "(case st_root t of None \<Rightarrow> make_leaf K (st_ids t) | Some root \<Rightarrow> (root, st_ids t)) = (root, p)"
    by (metis surj_pair)
  have "node_ok K True (nd_height root) root \<or> (True \<and> nd_height root = 0 \<and> (\<exists>n. root = Leaf n (s_zero K) []))"
    "node_items root = tree_items t"
    using assms(2) r by (auto simp: tree_ok_def tree_items_def make_leaf_def split: option.splits prod.splits)
  with push_item_recursive_ok [OF assms(1) this(1) refl, of x p]
  have "grown_ok K True (nd_height root) (tree_items t @ [x]) (push_item_recursive K x (s_item K x) root p)"
    by simp
  from grow_ok [OF assms(1) this] show "tree_ok K (push_item K x t)" "tree_items (push_item K x t) = tree_items t @ [x]"
    using r by (simp_all add: push_item_def)
qed

theorem extend_items_ok:
  assumes "branching_ok K"
  shows "tree_ok K t \<Longrightarrow> tree_ok K (extend_items K xs t) \<and> tree_items (extend_items K xs t) = tree_items t @ xs"
  by (induction xs arbitrary: t) (simp_all add: extend_items_def push_item_ok [OF assms])

section \<open>Appending a tree\<close>

text \<open>
  Two nodes of one height: their combination is one node, or two that are both at least half full.
  One node is as full as the fuller one, so at least half full unless both were roots.
\<close>

lemma combine_adjacent_ok:
  assumes B: "branching_ok K" and "node_ok K r h left" "node_ok K q h right"
  shows "case combine_adjacent K left right of
      (node, None) \<Rightarrow> node_ok K (r \<and> q) h node \<and> node_items node = node_items left @ node_items right
    | (node, Some rest) \<Rightarrow> node_ok K False h node \<and> node_ok K False h rest \<and>
        node_items node @ node_items rest = node_items left @ node_items right"
proof (cases left)
  case l: (Leaf n s es)
  then obtain m t fs where rt: "right = Leaf m t fs"
    using assms(2,3) by (cases right) (auto simp: node_ok_leaf node_ok_internal child_ok_def entries_fit_def neq_Nil_conv)
  show ?thesis
  proof (cases "length es + length fs \<le> max_children K")
    case True
    then show ?thesis
      using assms l rt by (auto simp: leaf_of_ok node_ok_leaf entries_fit_def)
  next
    case False
    let ?k = "(length es + length fs) div 2"
    have "entries_fit K False (length (take ?k (es @ fs)))" "entries_fit K False (length (drop ?k (es @ fs)))"
      using False B assms(2,3) unfolding l rt
      by (auto simp: node_ok_leaf entries_fit_def max_children_def branching_ok_def)
    moreover have "list_all (stored_ok K) (es @ fs)"
      using assms(2,3) unfolding l rt by (simp add: node_ok_leaf)
    moreover have "?k \<noteq> length es + length fs"
      using False by auto
    moreover have "map fst (take ?k (es @ fs)) @ map fst (drop ?k (es @ fs)) = map fst (es @ fs)"
      by (metis append_take_drop_id map_append)
    ultimately show ?thesis
      using False assms(2,3) unfolding l rt
      by (simp add: Let_def leaf_of_ok node_ok_leaf list_all_take list_all_drop del: take_append drop_append)
  qed
next
  case l: (Internal n g s cs)
  then obtain m t ds where rt: "right = Internal m g t ds"
    using assms(2,3) by (cases right) (auto simp: node_ok_leaf node_ok_internal child_ok_def entries_fit_def neq_Nil_conv)
  show ?thesis
  proof (cases "length cs + length ds \<le> max_children K")
    case True
    then show ?thesis
      using assms l rt by (auto simp: internal_of_ok node_ok_internal entries_fit_def)
  next
    case False
    let ?k = "(length cs + length ds) div 2"
    have "entries_fit K False (length (take ?k (cs @ ds)))" "entries_fit K False (length (drop ?k (cs @ ds)))"
      using False B assms(2,3) unfolding l rt
      by (auto simp: node_ok_internal entries_fit_def max_children_def branching_ok_def)
    moreover have "list_all (child_ok K h) (cs @ ds)"
      using assms(2,3) unfolding l rt by (auto simp: node_ok_internal)
    moreover have "?k \<noteq> length cs + length ds"
      using False by auto
    moreover have "child_items (take ?k (cs @ ds)) @ child_items (drop ?k (cs @ ds)) = child_items cs @ child_items ds"
      by (simp only: child_items_split child_items_simps)
    ultimately show ?thesis
      using False assms(2,3) unfolding l rt
      by (simp add: Let_def internal_of_ok node_ok_internal list_all_take list_all_drop
          del: take_append drop_append)
  qed
qed

lemma combined:
  assumes "branching_ok K" "node_ok K r h left" "node_ok K q h right"
  shows "grown_ok K (r \<and> q) h (node_items left @ node_items right)
    (fst (combine_adjacent K left right), snd (combine_adjacent K left right), p)"
  using combine_adjacent_ok [OF assms] by (simp add: grown_ok_def case_prod_beta split: option.splits)

theorem push_tree_right_ok:
  assumes B: "branching_ok K"
  shows "node_ok K r h node \<Longrightarrow> nd_height other < h \<Longrightarrow> node_ok K True (nd_height other) other \<Longrightarrow>
    grown_ok K r h (node_items node @ node_items other) (push_tree_right K node other p)"
  using B
proof (induction K node other p arbitrary: r h rule: push_tree_right.induct)
  case (1 K n s es other p)
  then show ?case
    by (simp add: node_ok_leaf)
next
  case (2 K n g s cs other p)
  have pre: "h = g" "cs \<noteq> []" "entries_fit K r (length cs)" "list_all (child_ok K h) cs"
    using 2(2) by (auto simp: node_ok_internal entries_fit_def)
  obtain k where k: "h = Suc k" "node_ok K False k (fst (last cs))"
    using child_okD [OF list_all_last [OF pre(4,2)]] by blast
  let ?step = "if nd_height other = k then
      (fst (combine_adjacent K (fst (last cs)) other), snd (combine_adjacent K (fst (last cs)) other), p)
    else push_tree_right K (fst (last cs)) other p"
  have grown: "grown_ok K False k (node_items (fst (last cs)) @ node_items other) ?step"
    using combined [OF 2(5) k(2), of True other p] 2(1) [OF pre(2), of False k] k 2(3-5) pre(1) by auto
  obtain c overflow p' where r: "?step = (c, overflow, p')"
    by (rule prod_cases3)
  note * = grown_cases [OF grown [unfolded r] refl]
  have "push_tree_right K (Internal n g s cs) other p = add_last K n g (butlast cs @ [child c]) overflow p'"
    using r pre(1,2) k(1) by (auto simp: case_prod_beta split: if_splits)
  then show ?case
    using last_child_replaced [OF pre(2) pre(4) [unfolded k(1)] *(1) pre(3) 2(5) *(2) *(3), of n p'] pre k(1)
    by (simp add: last_child [OF pre(2)])
qed

lemma grown_left_cases:
  assumes "grown_left_ok K r h xs (c, overflow, p)" "r = False"
  shows "node_ok K False h c" "\<And>d. overflow = Some d \<Longrightarrow> node_ok K False h d"
    "(case overflow of None \<Rightarrow> [] | Some d \<Rightarrow> node_items d) @ node_items c = xs"
  using assms by (auto simp: grown_left_ok_def split: option.splits)

lemma first_child_replaced:
  assumes cs: "cs \<noteq> []" "list_all (child_ok K (Suc h)) cs" and c: "node_ok K False h c"
    and fit: "entries_fit K r (length cs)" and B: "branching_ok K"
    and ov: "\<And>d. overflow = Some d \<Longrightarrow> node_ok K False h d"
    and ys: "(case overflow of None \<Rightarrow> [] | Some d \<Rightarrow> node_items d) @ node_items c = ys"
  shows "grown_left_ok K r (Suc h) (ys @ child_items (tl cs))
    (add_first K n (Suc h) (child c # tl cs) overflow p)"
proof -
  have "entries_fit K r (length (child c # tl cs))" "list_all (child_ok K (Suc h)) (child c # tl cs)"
    using fit cs c by (simp_all add: list_all_tl)
  from add_first_ok [OF B this, of overflow n p] show ?thesis
    using ov by (simp flip: ys)
qed

theorem push_tree_left_ok:
  assumes B: "branching_ok K"
  shows "node_ok K r h node \<Longrightarrow> nd_height other < h \<Longrightarrow> node_ok K True (nd_height other) other \<Longrightarrow>
    grown_left_ok K r h (node_items other @ node_items node) (push_tree_left K node other p)"
  using B
proof (induction K node other p arbitrary: r h rule: push_tree_left.induct)
  case (1 K n s es other p)
  then show ?case
    by (simp add: node_ok_leaf)
next
  case (2 K n g s cs other p)
  have pre: "h = g" "cs \<noteq> []" "entries_fit K r (length cs)" "list_all (child_ok K h) cs"
    using 2(2) by (auto simp: node_ok_internal entries_fit_def)
  obtain k where k: "h = Suc k" "node_ok K False k (fst (hd cs))"
    using child_okD [OF list_all_hd [OF pre(4,2)]] by blast
  let ?step = "if nd_height other = k then
      case combine_adjacent K other (fst (hd cs)) of
        (left, None) \<Rightarrow> (left, None, p) | (left, Some c) \<Rightarrow> (c, Some left, p)
    else push_tree_left K (fst (hd cs)) other p"
  have grown: "grown_left_ok K False k (node_items other @ node_items (fst (hd cs))) ?step"
  proof (cases "nd_height other = k")
    case True
    obtain left rest where c: "combine_adjacent K other (fst (hd cs)) = (left, rest)"
      by (metis surj_pair)
    have "node_ok K True k other"
      using 2(4) True by simp
    from combine_adjacent_ok [OF 2(5) this k(2)] show ?thesis
      using True c by (cases rest) (simp_all add: grown_left_ok_def)
  next
    case False
    have "nd_height other < k"
      using False k(1) 2(3) by simp
    moreover have "g \<noteq> nd_height other + 1"
      using False k(1) pre(1) by simp
    ultimately show ?thesis
      using 2(1) [OF pre(2) _ k(2) _ 2(4,5)] False by simp
  qed
  obtain c overflow p' where r: "?step = (c, overflow, p')"
    by (rule prod_cases3)
  note * = grown_left_cases [OF grown [unfolded r] refl]
  have "push_tree_left K (Internal n g s cs) other p = add_first K n g (child c # tl cs) overflow p'"
  proof (cases "nd_height other = k")
    case True
    obtain left rest where "combine_adjacent K other (fst (hd cs)) = (left, rest)"
      by (metis surj_pair)
    then show ?thesis
      using r pre(1,2) k(1) True by (cases rest) (auto simp: add_first_def)
  next
    case False
    then show ?thesis
      using r pre(1,2) k(1) by simp
  qed
  then show ?case
    using first_child_replaced [OF pre(2) pre(4) [unfolded k(1)] *(1) pre(3) 2(5) *(2) *(3), of n p'] pre k(1)
    by (simp add: first_child [OF pre(2)])
qed

lemma push_root_ok:
  assumes B: "branching_ok K" and node: "node_ok K True (nd_height node) node"
    and other: "node_ok K True (nd_height other) other"
  shows "tree_ok K (push_root K node other p) \<and>
    tree_items (push_root K node other p) = node_items node @ node_items other"
proof (cases "nd_height node = nd_height other")
  case True
  have "grown_ok K (True \<and> True) (nd_height other) (node_items node @ node_items other)
      (fst (combine_adjacent K node other), snd (combine_adjacent K node other), p)"
    using combined [OF B, of True _ node True other p] node other True by simp
  from grow_ok [OF B this [unfolded simp_thms]] show ?thesis
    using True by (simp add: push_root_def merge_same_height_def case_prod_beta)
next
  case False
  show ?thesis
  proof (cases "nd_height node > nd_height other")
    case True
    from grow_ok [OF B push_tree_right_ok [OF B node True other, of p]] show ?thesis
      using True by (simp add: push_root_def)
  next
    case small: False
    obtain taller overflow q where r: "push_tree_left K other node p = (taller, overflow, q)"
      by (metis surj_pair)
    have "grown_left_ok K True (nd_height other) (node_items node @ node_items other) (taller, overflow, q)"
      using push_tree_left_ok [OF B other _ node, of p] small False r by simp
    then show ?thesis
      using small False r new_root_ok [OF B, of "nd_height other" "the overflow" taller q]
      by (cases overflow; cases "new_root K (the overflow) taller q")
        (auto simp: push_root_def grown_left_ok_def node_ok_height)
  qed
qed

theorem push_tree_ok:
  assumes B: "branching_ok K" and t: "tree_ok K t"
    and other: "other = None \<or> other = Some node \<and> node_ok K True (nd_height node) node"
  shows "tree_ok K (push_tree K t other)"
    "tree_items (push_tree K t other) = tree_items t @ (case other of None \<Rightarrow> [] | Some n \<Rightarrow> node_items n)"
proof -
  have e: "node_empty n \<Longrightarrow> node_items n = []" for n :: "('a, 'b, 'c) node"
    by (cases n) (simp_all add: node_empty_def)
  show "tree_ok K (push_tree K t other)"
  proof (cases "st_root t")
    case (Some root)
    then show ?thesis
      using t other push_root_ok [OF B, of root node "st_ids t"]
      by (auto simp: push_tree_def) (simp_all add: tree_ok_def)
  qed (use other in \<open>auto simp: push_tree_def tree_ok_def\<close>)
  show "tree_items (push_tree K t other) = tree_items t @ (case other of None \<Rightarrow> [] | Some n \<Rightarrow> node_items n)"
  proof (cases "st_root t")
    case (Some root)
    then have i: "tree_items t = node_items root" "node_ok K True (nd_height root) root"
      using t by (simp_all add: tree_items_def tree_ok_def)
    show ?thesis
    proof (cases "other = None \<or> node_empty node \<or> node_empty root")
      case True
      then show ?thesis
        using Some other i(1) e [of root] e [of node]
        by (auto simp: push_tree_def) (simp_all add: tree_items_def)
    next
      case False
      then show ?thesis
        using Some other i push_root_ok [OF B i(2), of node "st_ids t"] by (auto simp: push_tree_def)
    qed
  qed (use other e in \<open>auto simp: push_tree_def tree_items_def\<close>)
qed

end
