(* ===== verification/Sum_Tree_Seek.thy ===== *)
theory Sum_Tree_Seek
  imports Sum_Tree_Shape
begin

text \<open>
  Positions in the tree. A dimension turns summaries into positions; the laws its accumulation obeys
  are the locale \<open>tree_dimension\<close>. Under them a seek that walks the nodes is the seek over the list of
  items, and so editing, inserting and removing at a position act on the list of items at the index
  that seek gives. Positions must not go down along the items (\<open>advancing\<close>): an offset that wraps
  around, or a key out of order, breaks the search.
\<close>

section \<open>Positions along a list of items\<close>

definition advance ::
  "('i, 's, 'n, 'p) tree_ops \<Rightarrow> ('d, 's) dimension \<Rightarrow> 'd \<Rightarrow> 'i list \<Rightarrow> 'd" where
  "advance K D p xs = foldl (\<lambda>p x. d_add D p (s_item K x)) p xs"

fun advancing ::
  "('i, 's, 'n, 'p) tree_ops \<Rightarrow> ('d::linorder, 's) dimension \<Rightarrow> 'd \<Rightarrow> 'i list \<Rightarrow> bool" where
  "advancing K D p [] \<longleftrightarrow> True"
| "advancing K D p (x # xs) \<longleftrightarrow>
     p \<le> d_add D p (s_item K x) \<and> advancing K D (d_add D p (s_item K x)) xs"

definition entries_of :: "('i, 's, 'n, 'p) tree_ops \<Rightarrow> 'i list \<Rightarrow> ('i \<times> 's) list" where
  "entries_of K xs = map (\<lambda>x. (x, s_item K x)) xs"

definition seek_items ::
  "('i, 's, 'n, 'p) tree_ops \<Rightarrow> ('d::linorder, 's) dimension \<Rightarrow> 'd \<Rightarrow> bias \<Rightarrow> 'd \<Rightarrow> 'i list \<Rightarrow>
     nat \<times> 'd \<times> bool" where
  "seek_items K D target b p xs = seek_entries D target b p (entries_of K xs)"

lemma advance_simps [simp]:
  "advance K D p [] = p"
  "advance K D p (x # xs) = advance K D (d_add D p (s_item K x)) xs"
  "advance K D p (xs @ ys) = advance K D (advance K D p xs) ys"
  by (simp_all add: advance_def)

lemma advancing_append [simp]:
  "advancing K D p (xs @ ys) \<longleftrightarrow> advancing K D p xs \<and> advancing K D (advance K D p xs) ys"
  by (induction xs arbitrary: p) auto

lemma advancing_le: "advancing K D p xs \<Longrightarrow> p \<le> advance K D p xs"
  by (induction xs arbitrary: p) (auto intro: order_trans)

lemma entries_of_simps [simp]:
  "entries_of K [] = []" "entries_of K (x # xs) = (x, s_item K x) # entries_of K xs"
  "length (entries_of K xs) = length xs"
  by (simp_all add: entries_of_def)

lemma entries_of_leaf: "list_all (stored_ok K) es \<Longrightarrow> entries_of K (map fst es) = es"
  by (induction es) (auto simp: entries_of_def stored_ok_def)

lemma seek_items_simps [simp]:
  "seek_items K D target b p [] = (0, p, False)"
  "seek_items K D target b p (x # xs) =
     (if past b target (d_add D p (s_item K x)) then (0, p, True)
      else case seek_items K D target b (d_add D p (s_item K x)) xs of (i, q, found) \<Rightarrow> (Suc i, q, found))"
  by (simp_all add: seek_items_def Let_def)

lemma seek_items_missed:
  "seek_items K D target b p xs = (i, q, False) \<Longrightarrow> i = length xs \<and> q = advance K D p xs"
  by (induction xs arbitrary: p i) (auto split: if_splits prod.splits)

lemma seek_items_found:
  "seek_items K D target b p xs = (i, q, True) \<Longrightarrow> i < length xs \<and> q = advance K D p (take i xs)"
  by (induction xs arbitrary: p i) (auto split: if_splits prod.splits)

lemma seek_items_first:
  "seek_items K D target b p xs = (i, q, True) \<Longrightarrow>
     past b target (d_add D q (s_item K (xs ! i))) \<and> (i = 0 \<or> \<not> past b target q)"
proof (induction xs arbitrary: p i)
  case (Cons x xs)
  show ?case
  proof (cases "past b target (d_add D p (s_item K x))")
    case True
    then show ?thesis
      using Cons(2) by auto
  next
    case False
    then obtain j where j: "i = Suc j" "seek_items K D target b (d_add D p (s_item K x)) xs = (j, q, True)"
      using Cons(2) by (auto split: prod.splits)
    have "j = 0 \<Longrightarrow> q = d_add D p (s_item K x)"
      using seek_items_found [OF j(2)] by simp
    then show ?thesis
      using Cons(1) [OF j(2)] j(1) False by auto
  qed
qed simp

lemma seek_items_le: "fst (seek_items K D target b p xs) \<le> length xs"
proof (induction xs arbitrary: p)
  case (Cons x xs)
  show ?case
    using Cons [of "d_add D p (s_item K x)"] by (auto split: prod.splits)
qed simp

lemma seek_items_append:
  "seek_items K D target b p (xs @ ys) =
     (case seek_items K D target b p xs of
        (i, q, True) \<Rightarrow> (i, q, True)
      | (i, q, False) \<Rightarrow>
          (case seek_items K D target b q ys of (j, r, found) \<Rightarrow> (length xs + j, r, found)))"
  by (induction xs arbitrary: p) (auto split: prod.splits bool.splits)

lemma past_mono: "past b target p \<Longrightarrow> p \<le> q \<Longrightarrow> past b target q"
  by (auto simp: past_def split: if_splits)

lemma seek_found_iff:
  "advancing K D p xs \<Longrightarrow> xs \<noteq> [] \<Longrightarrow>
     snd (snd (seek_items K D target b p xs)) \<longleftrightarrow> past b target (advance K D p xs)"
proof (induction xs arbitrary: p)
  case (Cons x xs)
  let ?q = "d_add D p (s_item K x)"
  show ?case
  proof (cases "past b target ?q")
    case True
    then show ?thesis
      using past_mono [OF True advancing_le [of K D ?q xs]] Cons(2) by simp
  next
    case False
    then show ?thesis
      using Cons(1) [of ?q] Cons(2) by (cases xs) (auto split: prod.splits)
  qed
qed simp

section \<open>Positions of nodes\<close>

locale tree_dimension =
  fixes K :: "('i, 's, 'n, 'p) tree_ops" and D :: "('d::linorder, 's) dimension" and valid :: "'d \<Rightarrow> bool"
  assumes zero_valid: "valid (d_zero D)"
    and add_valid: "valid p \<Longrightarrow> valid (d_add D p s)"
    and add_zero: "valid p \<Longrightarrow> d_add D p (s_zero K) = p"
    and add_add: "valid p \<Longrightarrow> d_add D (d_add D p s) t = d_add D p (s_add K s t)"
begin

lemma advance_valid: "valid p \<Longrightarrow> valid (advance K D p xs)"
  by (induction xs arbitrary: p) (simp_all add: add_valid)

lemma add_fold: "valid p \<Longrightarrow> d_add D p (foldl (s_add K) z ss) = foldl (d_add D) (d_add D p z) ss"
  by (induction ss arbitrary: z) (simp_all add: add_add)

lemma add_summaries: "valid p \<Longrightarrow> d_add D p (fold_summaries K xs) = foldl (d_add D) p (map snd xs)"
  by (simp add: fold_summaries_def add_fold add_zero)

lemma fold_leaf:
  "list_all (stored_ok K) es \<Longrightarrow> foldl (d_add D) p (map snd es) = advance K D p (map fst es)"
  by (induction es arbitrary: p) (auto simp: stored_ok_def)

lemma fold_children:
  assumes "\<And>c q. c \<in> set cs \<Longrightarrow> valid q \<Longrightarrow> d_add D q (snd c) = advance K D q (node_items (fst c))"
  shows "valid p \<Longrightarrow> foldl (d_add D) p (map snd cs) = advance K D p (child_items cs)"
  using assms by (induction cs arbitrary: p) (simp_all add: advance_valid)

theorem node_position:
  "node_ok K r h node \<Longrightarrow> valid p \<Longrightarrow> d_add D p (nd_summary node) = advance K D p (node_items node)"
proof (induction node arbitrary: r h p rule: node_items.induct)
  case (1 n s es)
  then show ?case
    by (simp add: node_ok_leaf add_summaries fold_leaf)
next
  case (2 n g s cs)
  have cs: "list_all (child_ok K h) cs" "s = fold_summaries K cs"
    using 2(2) by (auto simp: node_ok_internal)
  have "d_add D q (snd c) = advance K D q (node_items (fst c))" if "c \<in> set cs" "valid q" for c q
  proof -
    have c: "child_ok K h c"
      using cs(1) that(1) by (simp add: list_all_iff)
    then obtain g where "node_ok K False g (fst c)"
      using child_okD by blast
    from 2(1) [OF that(1) prod.collapse this that(2)] show ?thesis
      using c by (simp add: child_ok_def)
  qed
  from fold_children [OF this 2(3)] show ?case
    using 2(3) cs(2) by (simp add: add_summaries)
qed

lemma child_position:
  assumes "child_ok K h c" "valid p"
  shows "d_add D p (snd c) = advance K D p (node_items (fst c))"
proof -
  obtain g where "node_ok K False g (fst c)"
    using child_okD [OF assms(1)] by blast
  from node_position [OF this assms(2)] show ?thesis
    using assms(1) by (simp add: child_ok_def)
qed

lemma children_position:
  "list_all (child_ok K h) cs \<Longrightarrow> valid p \<Longrightarrow> foldl (d_add D) p (map snd cs) = advance K D p (child_items cs)"
  by (rule fold_children) (auto simp: list_all_iff intro: child_position)

end

lemma node_nonempty: "node_ok K r h node \<Longrightarrow> node_items node \<noteq> []"
proof (induction node arbitrary: r h rule: node_items.induct)
  case (2 n g s cs)
  then obtain c ds where c: "cs = c # ds" "child_ok K h c"
    by (cases cs) (auto simp: node_ok_internal entries_fit_def)
  then show ?case
    using 2(1) [of c "fst c" "snd c" False] child_okD [OF c(2)] by fastforce
qed (simp add: node_ok_leaf entries_fit_def)

lemma child_nonempty: "child_ok K h c \<Longrightarrow> node_items (fst c) \<noteq> []"
  using child_okD node_nonempty by blast

context tree_dimension
begin

text \<open>The seek over the children of a node: the child it finds holds the item.\<close>

theorem seek_children:
  assumes "list_all (child_ok K h) cs" "valid p" "advancing K D p (child_items cs)"
    "seek_entries D target b p cs = (i, q, found)"
  shows "if found
    then i < length cs \<and> q = advance K D p (child_items (take i cs)) \<and>
      (\<exists>j r. seek_items K D target b q (node_items (fst (cs ! i))) = (j, r, True) \<and>
        seek_items K D target b p (child_items cs) = (length (child_items (take i cs)) + j, r, True))
    else i = length cs \<and> q = advance K D p (child_items cs) \<and>
      seek_items K D target b p (child_items cs) = (length (child_items cs), q, False)"
  using assms
proof (induction cs arbitrary: p i)
  case (Cons c cs)
  let ?e = "advance K D p (node_items (fst c))"
  have c: "d_add D p (snd c) = ?e" "node_items (fst c) \<noteq> []" "advancing K D p (node_items (fst c))"
    using Cons(2-4) by (auto simp: child_position child_nonempty)
  have found_c: "snd (snd (seek_items K D target b p (node_items (fst c)))) \<longleftrightarrow> past b target ?e"
    by (rule seek_found_iff [OF c(3,2)])
  obtain j r f where s: "seek_items K D target b p (node_items (fst c)) = (j, r, f)"
    by (metis surj_pair)
  show ?case
  proof (cases "past b target ?e")
    case True
    then show ?thesis
      using Cons(5) c(1) found_c s by (cases c) (auto simp: Let_def seek_items_append)
  next
    case False
    then have miss: "seek_items K D target b p (node_items (fst c)) = (length (node_items (fst c)), ?e, False)"
      using found_c s seek_items_missed [of K D target b p "node_items (fst c)" j r] by simp
    obtain i' where i: "i = Suc i'" "seek_entries D target b ?e cs = (i', q, found)"
      using Cons(5) c(1) False by (cases c) (auto simp: Let_def split: prod.splits)
    show ?thesis
      using Cons(1) [OF _ _ _ i(2)] Cons(2-4) miss i(1)
      by (auto simp: seek_items_append advance_valid split: if_splits)
  qed
qed simp

lemma seek_leaf:
  "list_all (stored_ok K) es \<Longrightarrow> seek_entries D target b p es = seek_items K D target b p (map fst es)"
  by (simp add: seek_items_def entries_of_leaf)

end

section \<open>Editing an item\<close>

lemma child_items_nth:
  "i < length cs \<Longrightarrow>
     child_items cs = child_items (take i cs) @ node_items (fst (cs ! i)) @ child_items (drop (Suc i) cs)"
  by (metis child_items_simps(2,3) id_take_nth_drop)

context tree_dimension
begin

text \<open>The step into the child that holds the item, shared by the three operations.\<close>

lemma seek_child:
  assumes "node_ok K r h (Internal n g s cs)" "valid p" "advancing K D p (child_items cs)"
    "seek_entries D target b p cs = (j, q, True)"
  shows "j < length cs" "\<exists>m. h = Suc m \<and> node_ok K False m (fst (cs ! j))" "valid q"
    "advancing K D q (node_items (fst (cs ! j)))"
    "\<exists>k t. seek_items K D target b q (node_items (fst (cs ! j))) = (k, t, True) \<and>
      k < length (node_items (fst (cs ! j))) \<and>
      seek_items K D target b p (child_items cs) = (length (child_items (take j cs)) + k, t, True)"
proof -
  have cs: "list_all (child_ok K h) cs"
    using assms(1) by (auto simp: node_ok_internal)
  note found = seek_children [OF cs assms(2,3,4), unfolded if_True]
  then show j: "j < length cs"
    by blast
  show "\<exists>m. h = Suc m \<and> node_ok K False m (fst (cs ! j))"
    using child_okD [of K h "cs ! j"] cs j by (simp add: list_all_length)
  show "valid q" "advancing K D q (node_items (fst (cs ! j)))"
    using found assms(2,3) by (simp_all add: advance_valid child_items_nth [OF j])
  show "\<exists>k t. seek_items K D target b q (node_items (fst (cs ! j))) = (k, t, True) \<and>
      k < length (node_items (fst (cs ! j))) \<and>
      seek_items K D target b p (child_items cs) = (length (child_items (take j cs)) + k, t, True)"
    using found seek_items_found by blast
qed

end

lemma child_items_update:
  "i < length cs \<Longrightarrow>
     child_items (cs[i := d]) = child_items (take i cs) @ node_items (fst d) @ child_items (drop (Suc i) cs)"
  by (simp add: upd_conv_take_nth_drop)

lemma list_all_update: "list_all P xs \<Longrightarrow> P y \<Longrightarrow> list_all P (xs[i := y])"
  by (auto simp: list_all_iff dest!: subsetD [OF set_update_subset_insert])

lemma entry_fresh [simp]: "stored_ok K (x, s_item K x)"
  by (simp add: stored_ok_def)

context tree_dimension
begin

theorem edit_item_recursive_ok:
  assumes "node_ok K r h node" "valid p" "advancing K D p (node_items node)"
    "seek_items K D target b p (node_items node) = (i, q, found)"
  shows "if found
    then \<exists>node'. edit_item_recursive K D f target b p node = Some node' \<and> node_ok K r h node' \<and>
      node_items node' = (node_items node)[i := f (node_items node ! i)]
    else edit_item_recursive K D f target b p node = None"
  using assms
proof (induction node arbitrary: r h p i q rule: node_items.induct)
  case (1 n s es)
  then show ?case
    using seek_items_found [of K D target b p "map fst es" i q]
    by (auto simp: node_ok_leaf seek_leaf leaf_of_ok Let_def map_update intro!: list_all_update)
next
  case (2 n g s cs)
  have cs: "list_all (child_ok K h) cs" "entries_fit K r (length cs)" "h = g" "advancing K D p (child_items cs)"
    using 2(2,4) by (auto simp: node_ok_internal)
  obtain j qc fc where sc: "seek_entries D target b p cs = (j, qc, fc)"
    by (metis surj_pair)
  show ?case
  proof (cases fc)
    case False
    then show ?thesis
      using seek_children [OF cs(1) 2(3) cs(4) sc] 2(5) sc by simp
  next
    case True
    note down = seek_child [OF 2(2,3) cs(4) sc [unfolded eqTrueI [OF True]]]
    from down(2,5) obtain m k t where m: "h = Suc m" "node_ok K False m (fst (cs ! j))"
      and k: "seek_items K D target b qc (node_items (fst (cs ! j))) = (k, t, True)"
        "k < length (node_items (fst (cs ! j)))"
        "seek_items K D target b p (child_items cs) = (length (child_items (take j cs)) + k, t, True)"
      by blast
    have i: "i = length (child_items (take j cs)) + k" found
      using k(3) 2(5) by simp_all
    from 2(1) [OF nth_mem [OF down(1)] prod.collapse m(2) down(3,4), of k t] k(1) i(2) obtain node'
      where n: "edit_item_recursive K D f target b qc (fst (cs ! j)) = Some node'" "node_ok K False m node'"
        "node_items node' = (node_items (fst (cs ! j)))[k := f (node_items (fst (cs ! j)) ! k)]"
      by auto
    have "child_items (cs[j := child node']) = (child_items cs)[i := f (child_items cs ! i)]"
      using k(2) i(1) n(3)
      by (simp add: child_items_update [OF down(1)] child_items_nth [OF down(1)] list_update_append nth_append)
    moreover have "list_all (child_ok K h) (cs[j := child node'])"
      by (rule list_all_update [OF cs(1)]) (use m(1) n(2) in simp)
    ultimately show ?thesis
      using sc True down(1) n(1) cs i(2) by (simp add: internal_of_ok)
  qed
qed

end

section \<open>Inserting an item\<close>

lemma insert_at_map: "map g (insert_at i x xs) = insert_at i (g x) (map g xs)"
  by (simp add: insert_at_def take_map drop_map)

lemma insert_at_length: "i \<le> length xs \<Longrightarrow> length (insert_at i x xs) = length xs + 1"
  by (simp add: insert_at_def)

lemma list_all_insert_at: "list_all P xs \<Longrightarrow> P x \<Longrightarrow> list_all P (insert_at i x xs)"
  by (simp add: insert_at_def list_all_take list_all_drop)

lemma insert_halves:
  assumes "branching_ok K" "length es = max_children K" "i \<le> length es"
  shows "entries_fit K False (length (take ((max_children K + 1) div 2) (insert_at i x es)))"
    "entries_fit K False (length (drop ((max_children K + 1) div 2) (insert_at i x es)))"
  using assms by (auto simp: insert_at_length entries_fit_def max_children_def branching_ok_def)

lemma insert_leaf_ok:
  assumes "branching_ok K" "list_all (stored_ok K) es" "i \<le> length es" "length es \<le> max_children K"
    "r \<or> branching K \<le> length es"
  shows "grown_ok K r 0 (insert_at i x (map fst es)) (insert_leaf K n es i (x, s_item K x) p)"
proof -
  let ?full = "insert_at i (x, s_item K x) es"
  have full: "list_all (stored_ok K) ?full" "map fst ?full = insert_at i x (map fst es)"
    "length ?full = length es + 1"
    using assms(2,3) by (simp_all add: list_all_insert_at insert_at_map insert_at_length)
  show ?thesis
  proof (cases "length es < max_children K")
    case True
    then show ?thesis
      using full assms(5) by (auto simp: insert_leaf_def Let_def grown_ok_def leaf_of_ok entries_fit_def)
  next
    case False
    then have "length es = max_children K"
      using assms(4) by simp
    note insert_halves [OF assms(1) this assms(3), of "(x, s_item K x)"]
    then show ?thesis
      using False full
      by (simp add: insert_leaf_def Let_def grown_ok_def leaf_of_ok case_prod_beta list_all_take list_all_drop
          flip: map_append)
  qed
qed

lemma insert_child_ok:
  assumes B: "branching_ok K" and cs: "entries_fit K r (length cs)" "list_all (child_ok K (Suc h)) cs" "i \<le> length cs"
    and ov: "\<And>c. overflow = Some c \<Longrightarrow> node_ok K False h c"
  shows "grown_ok K r (Suc h)
    (child_items (take i cs) @ (case overflow of None \<Rightarrow> [] | Some c \<Rightarrow> node_items c) @ child_items (drop i cs))
    (insert_child K n (Suc h) cs i overflow p)"
proof (cases overflow)
  case None
  then show ?thesis
    using cs by (simp add: insert_child_def grown_ok_def internal_of_ok child_items_split)
next
  case (Some c)
  let ?full = "insert_at i (child c) cs"
  have full: "list_all (child_ok K (Suc h)) ?full" "length ?full = length cs + 1"
    "child_items ?full = child_items (take i cs) @ node_items c @ child_items (drop i cs)"
    using cs ov [OF Some] by (simp_all add: list_all_insert_at insert_at_length) (simp add: insert_at_def)
  show ?thesis
  proof (cases "length cs < max_children K")
    case True
    then show ?thesis
      using full cs(1) Some by (auto simp: insert_child_def Let_def grown_ok_def internal_of_ok entries_fit_def)
  next
    case False
    then have "length cs = max_children K"
      using cs(1) by (simp add: entries_fit_def)
    note insert_halves [OF B this cs(3), of "child c"]
    then show ?thesis
      using False full Some
      by (simp add: insert_child_def Let_def grown_ok_def internal_of_ok case_prod_beta list_all_take list_all_drop
          child_items_split)
  qed
qed

lemma child_updated:
  "j < length cs \<Longrightarrow> child_items (take (j + 1) (cs[j := d])) = child_items (take j cs) @ node_items (fst d)"
  "drop (j + 1) (cs[j := d]) = drop (Suc j) cs"
  by (simp_all add: take_Suc_conv_app_nth)

context tree_dimension
begin

text \<open>The child the insertion goes to, found or the last one.\<close>

lemma insertion_child_ok:
  assumes "node_ok K r h (Internal n g s cs)" "valid p" "advancing K D p (child_items cs)"
    "insertion_child D target b p cs = (j, q)"
  shows "j < length cs" "\<exists>m. h = Suc m \<and> node_ok K False m (fst (cs ! j))" "valid q"
    "advancing K D q (node_items (fst (cs ! j)))"
    "fst (seek_items K D target b p (child_items cs)) =
      length (child_items (take j cs)) + fst (seek_items K D target b q (node_items (fst (cs ! j))))"
proof -
  have cs: "list_all (child_ok K h) cs" "cs \<noteq> []"
    using assms(1) by (auto simp: node_ok_internal entries_fit_def)
  obtain i t found where sc: "seek_entries D target b p cs = (i, t, found)"
    by (metis surj_pair)
  have "j < length cs \<and> (\<exists>m. h = Suc m \<and> node_ok K False m (fst (cs ! j))) \<and> valid q \<and>
    advancing K D q (node_items (fst (cs ! j))) \<and>
    fst (seek_items K D target b p (child_items cs)) =
      length (child_items (take j cs)) + fst (seek_items K D target b q (node_items (fst (cs ! j))))"
  proof (cases found)
    case True
    then have "j = i" "q = t"
      using assms(4) sc by (simp_all add: insertion_child_def)
    then show ?thesis
      using seek_child [OF assms(1-3) sc [unfolded eqTrueI [OF True]]] by auto
  next
    case False
    have j: "j = length cs - 1" and q: "q = advance K D p (child_items (butlast cs))"
      using assms(4) sc False children_position [OF list_all_butlast [OF cs(1)] assms(2)]
      by (auto simp: insertion_child_def)
    have jl: "j < length cs" "cs ! j = last cs" "take j cs = butlast cs"
      using cs(2) j by (simp_all add: last_conv_nth butlast_conv_take)
    have split: "child_items cs = child_items (butlast cs) @ node_items (fst (last cs))"
      by (rule last_child [OF cs(2)])
    have "valid q" "advancing K D q (node_items (fst (last cs)))"
      using assms(2,3) q split by (simp_all add: advance_valid)
    moreover have "fst (seek_items K D target b p (child_items cs)) =
      length (child_items (butlast cs)) + fst (seek_items K D target b q (node_items (fst (last cs))))"
      using seek_children [OF cs(1) assms(2,3) sc] False split
        seek_items_missed [of K D target b p "child_items (butlast cs)"]
      by (auto simp: seek_items_append q split: prod.splits bool.splits)
    ultimately show ?thesis
      using jl child_okD [OF list_all_last [OF cs]] by simp
  qed
  then show "j < length cs" "\<exists>m. h = Suc m \<and> node_ok K False m (fst (cs ! j))" "valid q"
    "advancing K D q (node_items (fst (cs ! j)))"
    "fst (seek_items K D target b p (child_items cs)) =
      length (child_items (take j cs)) + fst (seek_items K D target b q (node_items (fst (cs ! j))))"
    by simp_all
qed

theorem insert_item_recursive_ok:
  assumes B: "branching_ok K"
  shows "node_ok K r h node \<or> (r \<and> h = 0 \<and> (\<exists>n. node = Leaf n (s_zero K) [])) \<Longrightarrow> valid p \<Longrightarrow>
    advancing K D p (node_items node) \<Longrightarrow>
    grown_ok K r h (insert_at (fst (seek_items K D target b p (node_items node))) x (node_items node))
      (insert_item_recursive K D target x b p node ids)"
proof (induction node arbitrary: r h p ids rule: node_items.induct)
  case (1 n s es)
  have pre: "h = 0" "length es \<le> max_children K" "r \<or> branching K \<le> length es" "list_all (stored_ok K) es"
    using 1(1) by (auto simp: node_ok_leaf entries_fit_def)
  have "fst (seek_items K D target b p (map fst es)) \<le> length es"
    using seek_items_le [of K D target b p "map fst es"] by simp
  from insert_leaf_ok [OF B pre(4) this pre(2,3)] show ?case
    using pre(1,4) by (simp add: seek_leaf)
next
  case (2 n g s cs)
  have node: "node_ok K r h (Internal n g s cs)"
    using 2(2) by auto
  have cs: "list_all (child_ok K h) cs" "entries_fit K r (length cs)" "h = g" "advancing K D p (child_items cs)"
    using node 2(4) by (auto simp: node_ok_internal)
  obtain j q where ic: "insertion_child D target b p cs = (j, q)"
    by (metis surj_pair)
  note down = insertion_child_ok [OF node 2(3) cs(4) ic]
  obtain m where m: "h = Suc m" "node_ok K False m (fst (cs ! j))"
    using down(2) by blast
  let ?k = "fst (seek_items K D target b q (node_items (fst (cs ! j))))"
  obtain c overflow ids' where rec: "insert_item_recursive K D target x b q (fst (cs ! j)) ids = (c, overflow, ids')"
    by (rule prod_cases3)
  have "grown_ok K False m (insert_at ?k x (node_items (fst (cs ! j)))) (c, overflow, ids')"
    using 2(1) [OF nth_mem [OF down(1)] prod.collapse _ down(3,4), of False m ids] m(2) rec by simp
  note * = grown_cases [OF this refl]
  have "list_all (child_ok K h) (cs[j := child c])"
    by (rule list_all_update [OF cs(1)]) (use m(1) *(1) in simp)
  then have "entries_fit K r (length (cs[j := child c]))" "list_all (child_ok K (Suc m)) (cs[j := child c])"
    using cs(2) m(1) by simp_all
  from insert_child_ok [OF B this, of "j + 1" overflow n ids'] *(2) down(1)
  have "grown_ok K r h
      (child_items (take j cs) @ (node_items c @ (case overflow of None \<Rightarrow> [] | Some c \<Rightarrow> node_items c)) @
        child_items (drop (Suc j) cs))
      (insert_child K n h (cs[j := child c]) (j + 1) overflow ids')"
    using m(1) child_updated [of j cs "child c"] by simp
  moreover have "?k \<le> length (node_items (fst (cs ! j)))"
    by (rule seek_items_le)
  ultimately show ?case
    using ic rec down(1,5) cs(3) *(3) by (simp add: insert_at_def child_items_nth [OF down(1)])
qed

end

end
