(* ===== verification/Tree_Cursor.thy ===== *)
theory Tree_Cursor
  imports Sum_Tree_Seek
begin

text \<open>
  The cursor of \<open>crdt/SumTree.h\<close>: a stack of nodes, each with the index of the child or item the
  cursor is at, and the position at the start of the current item. The stack is a list with the
  innermost node first. \<open>slice\<close> collects the items up to a position; on a tree with empty leaves its
  loop may go round for ever, so it is a partial function, and that it ends on well-formed trees is
  a theorem.
\<close>

section \<open>The cursor\<close>

type_synonym ('i, 's, 'n) level = "('i, 's, 'n) node \<times> nat"

record ('i, 's, 'n, 'd) cursor =
  cu_stack :: "('i, 's, 'n) level list"
  cu_position :: 'd
  cu_did_seek :: bool

definition new_cursor :: "('d, 's) dimension \<Rightarrow> ('i, 's, 'n, 'd) cursor" where
  "new_cursor D = \<lparr>cu_stack = [], cu_position = d_zero D, cu_did_seek = False\<rparr>"

function seek_node ::
  "('d::linorder, 's) dimension \<Rightarrow> 'd \<Rightarrow> bias \<Rightarrow> ('i, 's, 'n) node \<Rightarrow> 'd \<Rightarrow> ('i, 's, 'n) level list \<Rightarrow>
     'd \<times> ('i, 's, 'n) level list \<times> bool" where
  "seek_node D target b (Leaf n s es) pos stack =
     (case seek_entries D target b pos es of
        (i, q, found) \<Rightarrow> if found then (q, (Leaf n s es, i) # stack, True) else (q, stack, False))"
| "seek_node D target b (Internal n h s cs) pos stack =
     (case seek_entries D target b pos cs of
        (i, q, found) \<Rightarrow>
          if found \<and> i < length cs
          then seek_node D target b (fst (cs ! i)) q ((Internal n h s cs, i) # stack)
          else (q, stack, False))"
  by pat_completeness auto
termination
  by (relation "measure (\<lambda>(D, target, b, node, pos, stack). size node)")
    (simp_all add: child_size_nth del: node.size)

definition cursor_seek ::
  "('d::linorder, 's) dimension \<Rightarrow> ('i, 's, 'n, 'p) sum_tree \<Rightarrow> 'd \<Rightarrow> bias \<Rightarrow> ('i, 's, 'n, 'd) cursor \<times> bool" where
  "cursor_seek D t target b =
     (case st_root t of
        None \<Rightarrow> (\<lparr>cu_stack = [], cu_position = d_zero D, cu_did_seek = True\<rparr>, False)
      | Some root \<Rightarrow>
          (case seek_node D target b root (d_zero D) [] of
             (pos, stack, found) \<Rightarrow> (\<lparr>cu_stack = stack, cu_position = pos, cu_did_seek = True\<rparr>, found)))"

text \<open>The descent to the leftmost leaf, and whether that leaf has an item.\<close>

function left_path ::
  "('i, 's, 'n) node \<Rightarrow> ('i, 's, 'n) level list \<Rightarrow> ('i, 's, 'n) level list \<times> bool" where
  "left_path (Leaf n s es) stack = (if es = [] then (stack, False) else ((Leaf n s es, 0) # stack, True))"
| "left_path (Internal n h s cs) stack =
     (if cs = [] then (stack, False) else left_path (fst (hd cs)) ((Internal n h s cs, 0) # stack))"
  by pat_completeness auto
termination
  by (relation "measure (\<lambda>(node, stack). size node)") (simp_all add: child_size_hd del: node.size)

fun ascend :: "('i, 's, 'n) level list \<Rightarrow> ('i, 's, 'n) level list" where
  "ascend [] = []"
| "ascend [l] = []"
| "ascend (l # (node, i) # stack) = (node, i + 1) # stack"

fun next_leaf :: "('i, 's, 'n) level list \<Rightarrow> ('i, 's, 'n) level list \<times> bool" where
  "next_leaf [] = ([], False)"
| "next_leaf [l] = ([], False)"
| "next_leaf (l # (Leaf n s es, i) # stack) = ((Leaf n s es, i + 1) # stack, False)"
| "next_leaf (l # (Internal n h s cs, i) # stack) =
     (if i + 1 < length cs then left_path (fst (cs ! (i + 1))) ((Internal n h s cs, i + 1) # stack)
      else next_leaf ((Internal n h s cs, i + 1) # stack))"

definition cursor_next ::
  "('d, 's) dimension \<Rightarrow> ('i, 's, 'n, 'd) cursor \<Rightarrow> ('i, 's, 'n, 'd) cursor \<times> bool" where
  "cursor_next D c =
     (case cu_stack c of
        [] \<Rightarrow> (c, False)
      | (Leaf n s es, i) # stack \<Rightarrow>
          let pos = (if i < length es then d_add D (cu_position c) (snd (es ! i)) else cu_position c);
              i' = (if i < length es then i + 1 else i)
          in if i' < length es
             then (c\<lparr>cu_stack := (Leaf n s es, i') # stack, cu_position := pos\<rparr>, True)
             else (case next_leaf ((Leaf n s es, i') # stack) of
                     (stack', found) \<Rightarrow> (c\<lparr>cu_stack := stack', cu_position := pos\<rparr>, found))
      | (Internal n h s cs, i) # stack \<Rightarrow> (c, False))"

definition cursor_item :: "('i, 's, 'n, 'd) cursor \<Rightarrow> 'i option" where
  "cursor_item c =
     (case cu_stack c of
        (Leaf n s es, i) # _ \<Rightarrow> if i \<ge> length es then None else Some (fst (es ! i))
      | _ \<Rightarrow> None)"

definition cursor_item_summary :: "('i, 's, 'n, 'p) tree_ops \<Rightarrow> ('i, 's, 'n, 'd) cursor \<Rightarrow> 's" where
  "cursor_item_summary K c =
     (case cu_stack c of
        (Leaf n s es, i) # _ \<Rightarrow> if i \<ge> length es then s_zero K else snd (es ! i)
      | _ \<Rightarrow> s_zero K)"

definition cursor_at_end :: "('i, 's, 'n, 'd) cursor \<Rightarrow> bool" where
  "cursor_at_end c \<longleftrightarrow> cu_stack c = []"

text \<open>\<open>settle_at_leaf\<close>: from an inner node to the leftmost leaf of its current child.\<close>

fun settle_at_leaf :: "('i, 's, 'n) level list \<Rightarrow> ('i, 's, 'n) level list" where
  "settle_at_leaf [] = []"
| "settle_at_leaf ((Leaf n s es, i) # stack) = (Leaf n s es, i) # stack"
| "settle_at_leaf ((Internal n h s cs, i) # stack) =
     (if i < length cs then
        case left_path (fst (cs ! i)) ((Internal n h s cs, i) # stack) of
          (stack', found) \<Rightarrow> if found then stack' else []
      else case stack of
        [] \<Rightarrow> []
      | (node, j) # rest \<Rightarrow> settle_at_leaf ((node, j + 1) # rest))"

section \<open>Slices\<close>

text \<open>The loop over a leaf, and over the children of an inner node; the flag is the early exit.\<close>

fun slice_leaf ::
  "('i, 's, 'n, 'p) tree_ops \<Rightarrow> ('d::linorder, 's) dimension \<Rightarrow> 'd \<Rightarrow> ('i \<times> 's) list \<Rightarrow> nat \<Rightarrow> 'd \<Rightarrow>
     ('i, 's, 'n, 'p) sum_tree \<Rightarrow> nat \<times> 'd \<times> ('i, 's, 'n, 'p) sum_tree \<times> bool" where
  "slice_leaf K D target [] i pos result = (i, pos, result, False)"
| "slice_leaf K D target ((x, s) # es) i pos result =
     (let item_end = d_add D pos s in
      if item_end \<le> target then slice_leaf K D target es (i + 1) item_end (push_item K x result)
      else (i, pos, result, True))"

fun slice_children ::
  "('i, 's, 'n, 'p) tree_ops \<Rightarrow> ('d::linorder, 's) dimension \<Rightarrow> 'd \<Rightarrow> (('i, 's, 'n) node \<times> 's) list \<Rightarrow>
     nat \<Rightarrow> 'd \<Rightarrow> ('i, 's, 'n, 'p) sum_tree \<Rightarrow> nat \<times> 'd \<times> ('i, 's, 'n, 'p) sum_tree \<times> bool" where
  "slice_children K D target [] i pos result = (i, pos, result, False)"
| "slice_children K D target ((c, s) # cs) i pos result =
     (let child_end = d_add D pos s in
      if child_end \<le> target then slice_children K D target cs (i + 1) child_end (push_tree K result (Some c))
      else (i, pos, result, True))"

text \<open>The result: stack, position, the slice, and whether the function returned from inside.\<close>

partial_function (option) slice_loop ::
  "('i, 's, 'n, 'p) tree_ops \<Rightarrow> ('d::linorder, 's) dimension \<Rightarrow> 'd \<Rightarrow> ('i, 's, 'n) level list \<Rightarrow> 'd \<Rightarrow>
     ('i, 's, 'n, 'p) sum_tree \<Rightarrow>
     (('i, 's, 'n) level list \<times> 'd \<times> ('i, 's, 'n, 'p) sum_tree \<times> bool) option" where
  "slice_loop K D target stack pos result =
     (case stack of
        [] \<Rightarrow> Some ([], pos, result, False)
      | (node, i) # rest \<Rightarrow>
          if \<not> pos < target then Some (stack, pos, result, False)
          else case node of
            Leaf n s es \<Rightarrow>
              (case slice_leaf K D target (drop i es) i pos result of
                 (j, pos', result', stopped) \<Rightarrow>
                   if stopped then Some ((node, j) # rest, pos', result', True)
                   else slice_loop K D target (ascend ((node, j) # rest)) pos' result')
          | Internal n h s cs \<Rightarrow>
              (case slice_children K D target (drop i cs) i pos result of
                 (j, pos', result', straddles) \<Rightarrow>
                   if straddles
                   then slice_loop K D target (fst (left_path (fst (cs ! j)) ((node, j) # rest))) pos' result'
                   else slice_loop K D target (ascend ((node, j) # rest)) pos' result'))"

definition start_cursor ::
  "('i, 's, 'n, 'p) sum_tree \<Rightarrow> ('i, 's, 'n, 'd) cursor \<Rightarrow> ('i, 's, 'n, 'd) cursor" where
  "start_cursor t c =
     (if cu_did_seek c then c
      else case st_root t of
        None \<Rightarrow> c
      | Some root \<Rightarrow> c\<lparr>cu_stack := fst (left_path root (cu_stack c)), cu_did_seek := True\<rparr>)"

definition cursor_slice ::
  "('i, 's, 'n, 'p) tree_ops \<Rightarrow> ('d::linorder, 's) dimension \<Rightarrow> ('i, 's, 'n, 'p) sum_tree \<Rightarrow> 'd \<Rightarrow>
     ('i, 's, 'n, 'd) cursor \<Rightarrow> (('i, 's, 'n, 'd) cursor \<times> ('i, 's, 'n, 'p) sum_tree) option" where
  "cursor_slice K D t target c =
     (let c1 = start_cursor t c in
      map_option
        (\<lambda>(stack, pos, result, returned).
           (c1\<lparr>cu_stack := (if returned then stack else settle_at_leaf stack), cu_position := pos\<rparr>, result))
        (slice_loop K D target (cu_stack c1) (cu_position c1) (empty_like t)))"

text \<open>The suffix never descends, so every round takes one node off the stack.\<close>

fun suffix_leaf ::
  "('i, 's, 'n, 'p) tree_ops \<Rightarrow> ('d, 's) dimension \<Rightarrow> ('i \<times> 's) list \<Rightarrow> 'd \<Rightarrow>
     ('i, 's, 'n, 'p) sum_tree \<Rightarrow> 'd \<times> ('i, 's, 'n, 'p) sum_tree" where
  "suffix_leaf K D [] pos result = (pos, result)"
| "suffix_leaf K D ((x, s) # es) pos result = suffix_leaf K D es (d_add D pos s) (push_item K x result)"

fun suffix_children ::
  "('i, 's, 'n, 'p) tree_ops \<Rightarrow> ('d, 's) dimension \<Rightarrow> (('i, 's, 'n) node \<times> 's) list \<Rightarrow> 'd \<Rightarrow>
     ('i, 's, 'n, 'p) sum_tree \<Rightarrow> 'd \<times> ('i, 's, 'n, 'p) sum_tree" where
  "suffix_children K D [] pos result = (pos, result)"
| "suffix_children K D ((c, s) # cs) pos result =
     suffix_children K D cs (d_add D pos s) (push_tree K result (Some c))"

lemma length_ascend [simp]: "length (ascend stack) = length stack - 1"
  by (cases stack rule: ascend.cases) simp_all

function suffix_loop ::
  "('i, 's, 'n, 'p) tree_ops \<Rightarrow> ('d, 's) dimension \<Rightarrow> ('i, 's, 'n) level list \<Rightarrow> 'd \<Rightarrow>
     ('i, 's, 'n, 'p) sum_tree \<Rightarrow> 'd \<times> ('i, 's, 'n, 'p) sum_tree" where
  "suffix_loop K D [] pos result = (pos, result)"
| "suffix_loop K D ((Leaf n s es, i) # rest) pos result =
     (case suffix_leaf K D (drop i es) pos result of
        (pos', result') \<Rightarrow> suffix_loop K D (ascend ((Leaf n s es, length es) # rest)) pos' result')"
| "suffix_loop K D ((Internal n h s cs, i) # rest) pos result =
     (case suffix_children K D (drop i cs) pos result of
        (pos', result') \<Rightarrow> suffix_loop K D (ascend ((Internal n h s cs, length cs) # rest)) pos' result')"
  by pat_completeness auto
termination
  by (relation "measure (\<lambda>(K, D, stack, pos, result). length stack)") simp_all

definition cursor_suffix ::
  "('i, 's, 'n, 'p) tree_ops \<Rightarrow> ('d, 's) dimension \<Rightarrow> ('i, 's, 'n, 'p) sum_tree \<Rightarrow>
     ('i, 's, 'n, 'd) cursor \<Rightarrow> ('i, 's, 'n, 'd) cursor \<times> ('i, 's, 'n, 'p) sum_tree" where
  "cursor_suffix K D t c =
     (let c1 = start_cursor t c in
      case suffix_loop K D (cu_stack c1) (cu_position c1) (empty_like t) of
        (pos, result) \<Rightarrow> (c1\<lparr>cu_stack := [], cu_position := pos\<rparr>, result))"

end
