(* ===== verification/Sum_Tree_Edit.thy ===== *)
theory Sum_Tree_Edit
  imports Sum_Tree_Seek
begin

text \<open>
  The operations of the tree at a position, as operations on the list of its items: editing and
  inserting keep the whole invariant, mapping all items does too and rebuilds stale summaries,
  removing keeps the summaries but may leave a node less than half full.
\<close>

section \<open>Editing and inserting\<close>

lemma tree_ok_root: "tree_ok K t \<Longrightarrow> st_root t = Some root \<Longrightarrow> node_ok K True (nd_height root) root"
  by (simp add: tree_ok_def)

lemma tree_items_root: "st_root t = Some root \<Longrightarrow> tree_items t = node_items root"
  "st_root t = None \<Longrightarrow> tree_items t = []"
  by (simp_all add: tree_items_def)

context tree_dimension
begin

theorem edit_item_ok:
  assumes "tree_ok K t" "advancing K D (d_zero D) (tree_items t)"
    "seek_items K D target b (d_zero D) (tree_items t) = (i, q, found)"
  shows "if found
    then \<exists>t'. edit_item K D target f b t = Some t' \<and> tree_ok K t' \<and>
      tree_items t' = (tree_items t)[i := f (tree_items t ! i)]
    else edit_item K D target f b t = None"
proof (cases "st_root t")
  case None
  then show ?thesis
    using assms(3) by (simp add: edit_item_def tree_items_root(2))
next
  case (Some root)
  note root = tree_ok_root [OF assms(1) Some] tree_items_root(1) [OF Some]
  show ?thesis
    using edit_item_recursive_ok [OF root(1) zero_valid, of target b i q found f] assms(2,3)
    by (auto simp: root(2) edit_item_def Some tree_ok_def tree_items_def node_ok_height)
qed

theorem insert_item_ok:
  assumes "branching_ok K" "tree_ok K t" "advancing K D (d_zero D) (tree_items t)"
  shows "tree_ok K (insert_item K D target x b t)"
    "tree_items (insert_item K D target x b t) =
      insert_at (fst (seek_items K D target b (d_zero D) (tree_items t))) x (tree_items t)"
proof -
  obtain root p where r: "(case st_root t of None \<Rightarrow> make_leaf K (st_ids t) | Some root \<Rightarrow> (root, st_ids t)) = (root, p)"
    by (metis surj_pair)
  have "node_ok K True (nd_height root) root \<or> (True \<and> nd_height root = 0 \<and> (\<exists>n. root = Leaf n (s_zero K) []))"
    "node_items root = tree_items t"
    using assms(2) r by (auto simp: tree_ok_def tree_items_def make_leaf_def split: option.splits prod.splits)
  with insert_item_recursive_ok [OF assms(1) this(1) zero_valid, of target b x p] assms(3)
  have "grown_ok K True (nd_height root)
      (insert_at (fst (seek_items K D target b (d_zero D) (tree_items t))) x (tree_items t))
      (insert_item_recursive K D target x b (d_zero D) root p)"
    by simp
  from grow_ok [OF assms(1) this] show "tree_ok K (insert_item K D target x b t)"
    "tree_items (insert_item K D target x b t) =
      insert_at (fst (seek_items K D target b (d_zero D) (tree_items t))) x (tree_items t)"
    using r by (simp_all add: insert_item_def)
qed

end

section \<open>Mapping all items\<close>

text \<open>The stored summaries are not needed: they are all computed again.\<close>

lemma map_node_ok:
  "validate_occupancy K r node \<Longrightarrow> nd_height (map_node K f node) = nd_height node \<and>
     node_ok K r (nd_height node) (map_node K f node) \<and> node_items (map_node K f node) = map f (node_items node)"
proof (induction node arbitrary: r rule: node_items.induct)
  case (1 n s es)
  then show ?case
    by (auto simp: leaf_of_ok entries_fit_def list_all_iff stored_ok_def)
next
  case (2 n h s cs)
  have IH: "nd_height c + 1 = h \<and> nd_height (map_node K f c) = nd_height c \<and>
      node_ok K False (nd_height c) (map_node K f c) \<and> node_items (map_node K f c) = map f (node_items c)"
    if "(c, t) \<in> set cs" for c t
    using 2(1) [OF that refl, of False] 2(2) that by (auto simp: list_all_iff)
  let ?ds = "map (\<lambda>(c, s). child (map_node K f c)) cs"
  have "list_all (child_ok K h) ?ds"
    using IH by (fastforce simp: list_all_iff)
  moreover have "child_items ?ds = map f (child_items cs)"
    using IH by (auto simp: child_items_def map_concat intro!: arg_cong [of _ _ concat])
  ultimately show ?case
    using 2(2) by (auto simp: internal_of_ok entries_fit_def)
qed

theorem for_each_mut_ok:
  assumes "has_valid_occupancy K t"
  shows "tree_ok K (for_each_mut K f t) \<and> tree_items (for_each_mut K f t) = map f (tree_items t)"
  using assms map_node_ok [of K True _ f]
  by (auto simp: has_valid_occupancy_def for_each_mut_def tree_ok_def tree_items_def split: option.splits)

section \<open>Removing an item\<close>

definition removed_ok :: "('i, 's, 'n, 'p) tree_ops \<Rightarrow> 'i list \<Rightarrow> ('i, 's, 'n) node \<Rightarrow> bool" where
  "removed_ok K xs node \<longleftrightarrow> validate_summaries K node \<and> node_items node = xs \<and> (nd_count node = 0 \<longleftrightarrow> xs = [])"

lemma internal_summaries:
  "list_all (\<lambda>c. snd c = nd_summary (fst c) \<and> validate_summaries K (fst c)) cs \<Longrightarrow>
     validate_summaries K (internal_of K n h cs)"
proof -
  assume cs: "list_all (\<lambda>c. snd c = nd_summary (fst c) \<and> validate_summaries K (fst c)) cs"
  then have "map (\<lambda>(c, s). nd_summary c) cs = map snd cs"
    by (simp add: list_all_iff case_prod_beta)
  then have "foldl (s_add K) (s_zero K) (map (\<lambda>(c, s). nd_summary c) cs) = fold_summaries K cs"
    by (simp only: fold_summaries_def)
  then show ?thesis
    using cs by (simp add: internal_of_def list_all_iff case_prod_beta)
qed

lemma remove_at_map: "map f (remove_at i xs) = remove_at i (map f xs)"
  by (simp add: remove_at_def take_map drop_map)

lemma remove_at_append: "remove_at (length xs + k) (xs @ ys) = xs @ remove_at k ys"
  by (simp add: remove_at_def)

lemma remove_at_append_first: "k < length xs \<Longrightarrow> remove_at k (xs @ ys) = remove_at k xs @ ys"
  by (simp add: remove_at_def)

lemma list_all_remove_at: "list_all P xs \<Longrightarrow> list_all P (remove_at i xs)"
  by (simp add: remove_at_def list_all_take list_all_drop)

lemma child_items_empty:
  "list_all (\<lambda>c. node_items (fst c) \<noteq> []) cs \<Longrightarrow> child_items cs = [] \<longleftrightarrow> cs = []"
  by (cases cs) simp_all

lemma children_loose:
  "list_all (child_ok K h) cs \<Longrightarrow> list_all (\<lambda>c. snd c = nd_summary (fst c) \<and> validate_summaries K (fst c)) cs"
  "list_all (child_ok K h) cs \<Longrightarrow> list_all (\<lambda>c. node_items (fst c) \<noteq> []) cs"
  by (simp_all add: list_all_iff child_ok_def child_nonempty)
    (auto intro!: child_nonempty [of K h] simp: child_ok_def)

lemma child_removed:
  assumes cs: "list_all (child_ok K h) cs" "j < length cs"
    and c: "removed_ok K ys c"
  shows "removed_ok K (child_items (take j cs) @ ys @ child_items (drop (Suc j) cs))
    (internal_of K n h (if nd_count c = 0 then remove_at j cs else cs[j := child c]))"
proof (cases "nd_count c = 0")
  case True
  have "list_all (child_ok K h) (remove_at j cs)"
    using cs(1) by (rule list_all_remove_at)
  note loose = children_loose [OF this]
  have "child_items (remove_at j cs) = child_items (take j cs) @ child_items (drop (Suc j) cs)"
    by (simp add: remove_at_def)
  then show ?thesis
    using c True internal_summaries [OF loose(1)] child_items_empty [OF loose(2)]
    by (simp add: removed_ok_def)
next
  case False
  note loose = children_loose [OF cs(1)]
  have "list_all (\<lambda>c. snd c = nd_summary (fst c) \<and> validate_summaries K (fst c)) (cs[j := child c])"
    by (rule list_all_update [OF loose(1)]) (use c in \<open>simp add: removed_ok_def\<close>)
  moreover have "cs[j := child c] \<noteq> []"
    using cs(2) by auto
  ultimately show ?thesis
    using c False child_items_update [OF cs(2), of "child c"] internal_summaries
    by (auto simp: removed_ok_def)
qed

context tree_dimension
begin

theorem remove_item_recursive_ok:
  assumes "node_ok K r h node" "valid p" "advancing K D p (node_items node)"
    "seek_items K D target b p (node_items node) = (i, q, found)"
  shows "if found
    then \<exists>node'. remove_item_recursive K D target b p node = Some node' \<and>
      removed_ok K (remove_at i (node_items node)) node'
    else remove_item_recursive K D target b p node = None"
  using assms
proof (induction node arbitrary: r h p i q rule: node_items.induct)
  case (1 n s es)
  have es: "list_all (stored_ok K) es"
    using 1(1) by (simp add: node_ok_leaf)
  have "validate_summaries K (leaf_of K n (remove_at i es))"
    using list_all_remove_at [OF es] by (simp add: leaf_of_def entries_ok)
  then show ?case
    using 1(4) es by (auto simp: seek_leaf removed_ok_def simp flip: remove_at_map)
next
  case (2 n g s cs)
  have cs: "list_all (child_ok K h) cs" "h = g" "advancing K D p (child_items cs)"
    using 2(2,4) by (auto simp: node_ok_internal)
  obtain j qc fc where sc: "seek_entries D target b p cs = (j, qc, fc)"
    by (metis surj_pair)
  show ?case
  proof (cases fc)
    case False
    then show ?thesis
      using seek_children [OF cs(1) 2(3) cs(3) sc] 2(5) sc by simp
  next
    case True
    note down = seek_child [OF 2(2,3) cs(3) sc [unfolded eqTrueI [OF True]]]
    from down(2,5) obtain m k t where m: "node_ok K False m (fst (cs ! j))"
      and k: "seek_items K D target b qc (node_items (fst (cs ! j))) = (k, t, True)"
        "k < length (node_items (fst (cs ! j)))"
        "seek_items K D target b p (child_items cs) = (length (child_items (take j cs)) + k, t, True)"
      by blast
    have i: "i = length (child_items (take j cs)) + k" found
      using k(3) 2(5) by simp_all
    from 2(1) [OF nth_mem [OF down(1)] prod.collapse m down(3,4), of k t] k(1) i(2) obtain c
      where c: "remove_item_recursive K D target b qc (fst (cs ! j)) = Some c"
        "removed_ok K (remove_at k (node_items (fst (cs ! j)))) c"
      by auto
    have "remove_at i (child_items cs) =
      child_items (take j cs) @ remove_at k (node_items (fst (cs ! j))) @ child_items (drop (Suc j) cs)"
      using k(2) i(1) by (simp add: child_items_nth [OF down(1)] remove_at_append remove_at_append_first)
    then show ?thesis
      using child_removed [OF cs(1) down(1) c(2), of n] sc True down(1) c(1) i(2) cs(2) by simp
  qed
qed

theorem remove_item_ok:
  assumes "tree_ok K t" "advancing K D (d_zero D) (tree_items t)"
    "seek_items K D target b (d_zero D) (tree_items t) = (i, q, found)"
  shows "if found
    then \<exists>t'. remove_item K D target b t = Some t' \<and> has_valid_summaries K t' \<and>
      tree_items t' = remove_at i (tree_items t)
    else remove_item K D target b t = None"
proof (cases "st_root t")
  case None
  then show ?thesis
    using assms(3) by (simp add: remove_item_def tree_items_root(2))
next
  case (Some root)
  note root = tree_ok_root [OF assms(1) Some] tree_items_root(1) [OF Some]
  have shrink: "removed_ok K xs node \<Longrightarrow>
    (case shrink_root node of None \<Rightarrow> xs = [] | Some c \<Rightarrow> validate_summaries K c \<and> node_items c = xs)" for xs node
    by (cases node) (auto simp: removed_ok_def shrink_root_def length_Suc_conv)
  note rec = remove_item_recursive_ok [OF root(1) zero_valid, of target b i q found]
  show ?thesis
  proof (cases found)
    case True
    then obtain node where "remove_item_recursive K D target b (d_zero D) root = Some node"
      "removed_ok K (remove_at i (tree_items t)) node"
      using rec assms(2,3) root(2) by auto
    then show ?thesis
      using True shrink [of "remove_at i (tree_items t)" node]
      by (auto simp: remove_item_def Some has_valid_summaries_def tree_items_def split: option.splits)
  next
    case False
    then show ?thesis
      using rec assms(2,3) root(2) by (simp add: remove_item_def Some)
  qed
qed

end

end
