(* ===== verification/Sum_Tree_Splice.thy ===== *)
theory Sum_Tree_Splice
  imports Sum_Tree_Edit
begin

text \<open>
  Replacing a range of the tree by another tree. The items the nodes outside the range hold are a
  prefix and a suffix of the list of items, so the result is the prefix, the items of the
  replacement and the suffix. Every item must have width in the dimension: whether an item of no
  width on a boundary stays depends on the node it is in.
\<close>

section \<open>Splitting a list of items\<close>

fun strictly_advancing ::
  "('i, 's, 'n, 'p) tree_ops \<Rightarrow> ('d::linorder, 's) dimension \<Rightarrow> 'd \<Rightarrow> 'i list \<Rightarrow> bool" where
  "strictly_advancing K D p [] \<longleftrightarrow> True"
| "strictly_advancing K D p (x # xs) \<longleftrightarrow>
     p < d_add D p (s_item K x) \<and> strictly_advancing K D (d_add D p (s_item K x)) xs"

lemma strictly_advancing_append [simp]:
  "strictly_advancing K D p (xs @ ys) \<longleftrightarrow>
     strictly_advancing K D p xs \<and> strictly_advancing K D (advance K D p xs) ys"
  by (induction xs arbitrary: p) auto

lemma strictly_advancing_weak: "strictly_advancing K D p xs \<Longrightarrow> advancing K D p xs"
  by (induction xs arbitrary: p) auto

definition split_items ::
  "('i, 's, 'n, 'p) tree_ops \<Rightarrow> ('d::linorder, 's) dimension \<Rightarrow> 'd \<Rightarrow> 'd \<Rightarrow> 'd \<Rightarrow> 'i list \<Rightarrow>
     ('i list \<times> 'i list) option" where
  "split_items K D first last' p xs =
     map_option (\<lambda>(pre, suf). (map fst pre, map fst suf)) (split_leaf_items D first last' p (entries_of K xs))"

lemma split_items_simps [simp]:
  "split_items K D first last' p [] = Some ([], [])"
  "split_items K D first last' p (x # xs) =
     (let end_pos = d_add D p (s_item K x) in
      if end_pos \<le> first then
        map_option (\<lambda>(pre, suf). (x # pre, suf)) (split_items K D first last' end_pos xs)
      else if p \<ge> last' then
        map_option (\<lambda>(pre, suf). (pre, x # suf)) (split_items K D first last' end_pos xs)
      else if first \<le> p \<and> end_pos \<le> last' then split_items K D first last' end_pos xs
      else None)"
  by (auto simp: split_items_def Let_def option.map_comp comp_def case_prod_beta)

lemma split_items_append:
  "split_items K D first last' p (xs @ ys) =
     (case split_items K D first last' p xs of
        None \<Rightarrow> None
      | Some (pre, suf) \<Rightarrow>
          (case split_items K D first last' (advance K D p xs) ys of
             None \<Rightarrow> None | Some (pre', suf') \<Rightarrow> Some (pre @ pre', suf @ suf')))"
proof (induction xs arbitrary: p)
  case (Cons x xs)
  show ?case
    using Cons [of "d_add D p (s_item K x)"] by (auto simp: Let_def split: option.splits)
qed (auto split: option.splits)

lemma split_items_before:
  "advancing K D p xs \<Longrightarrow> advance K D p xs \<le> first \<Longrightarrow> split_items K D first last' p xs = Some (xs, [])"
proof (induction xs arbitrary: p)
  case (Cons x xs)
  then show ?case
    using order_trans [OF advancing_le [of K D "d_add D p (s_item K x)" xs]] by (simp add: Let_def)
qed simp

lemma split_items_after:
  "strictly_advancing K D p xs \<Longrightarrow> last' \<le> p \<Longrightarrow> first \<le> p \<Longrightarrow>
     split_items K D first last' p xs = Some ([], xs)"
  by (induction xs arbitrary: p) (auto simp: Let_def)

lemma split_items_within:
  "strictly_advancing K D p xs \<Longrightarrow> first \<le> p \<Longrightarrow> advance K D p xs \<le> last' \<Longrightarrow>
     split_items K D first last' p xs = Some ([], [])"
proof (induction xs arbitrary: p)
  case (Cons x xs)
  let ?q = "d_add D p (s_item K x)"
  have "?q \<le> last'"
    using Cons(2,4) advancing_le [OF strictly_advancing_weak, of K D ?q xs] by simp
  then show ?case
    using Cons by (auto simp: Let_def)
qed simp

text \<open>At item boundaries the parts are what the indices say.\<close>

theorem split_items_at:
  assumes "strictly_advancing K D p xs" "m \<le> n" "n \<le> length xs"
  shows "split_items K D (advance K D p (take m xs)) (advance K D p (take n xs)) p xs =
    Some (take m xs, drop n xs)"
proof -
  let ?mid = "take (n - m) (drop m xs)"
  have xs: "xs = take m xs @ ?mid @ drop n xs" and tn: "take n xs = take m xs @ ?mid"
    using assms(2) by (metis append.assoc append_take_drop_id le_add_diff_inverse take_add)+
  let ?a = "advance K D p (take m xs)" and ?b = "advance K D p (take n xs)"
  have strict: "strictly_advancing K D p (take m xs)" "strictly_advancing K D ?a ?mid"
    "strictly_advancing K D ?b (drop n xs)" "?b = advance K D ?a ?mid"
    using assms(1) xs tn by (metis strictly_advancing_append advance_simps(3))+
  have "?a \<le> ?b"
    using advancing_le [OF strictly_advancing_weak [OF strict(2)]] strict(4) by simp
  then have parts: "split_items K D ?a ?b p (take m xs) = Some (take m xs, [])"
    "split_items K D ?a ?b ?a ?mid = Some ([], [])"
    "split_items K D ?a ?b ?b (drop n xs) = Some ([], drop n xs)"
    using strict by (auto intro!: split_items_before split_items_within split_items_after strictly_advancing_weak)
  have "split_items K D ?a ?b p (take m xs @ ?mid @ drop n xs) = Some (take m xs, drop n xs)"
    unfolding split_items_append parts using parts strict(4) by simp
  then show ?thesis
    using xs by simp
qed

section \<open>Splitting the nodes\<close>

definition nodes_items :: "('i, 's, 'n) node list \<Rightarrow> 'i list" where
  "nodes_items nodes = concat (map node_items nodes)"

definition parts_ok :: "('i, 's, 'n, 'p) tree_ops \<Rightarrow> ('i, 's, 'n, 'p) range_parts \<Rightarrow> bool" where
  "parts_ok K parts \<longleftrightarrow>
     (\<forall>node\<in>set (rp_prefix parts) \<union> set (rp_suffix parts). node_ok K True (nd_height node) node)"

text \<open>What a step adds to the parts, given the split of the items it covers.\<close>

definition parts_step ::
  "('i, 's, 'n, 'p) tree_ops \<Rightarrow> ('i list \<times> 'i list) option \<Rightarrow> ('i, 's, 'n, 'p) range_parts \<Rightarrow>
     ('i, 's, 'n, 'p) range_parts \<Rightarrow> bool" where
  "parts_step K split parts parts' \<longleftrightarrow>
     (case split of
        None \<Rightarrow> \<not> rp_valid parts'
      | Some (pre, suf) \<Rightarrow> rp_valid parts' \<and> parts_ok K parts' \<and>
          nodes_items (rp_prefix parts') = nodes_items (rp_prefix parts) @ pre \<and>
          nodes_items (rp_suffix parts') = nodes_items (rp_suffix parts) @ suf)"

lemma nodes_items_simps [simp]:
  "nodes_items [] = []" "nodes_items (n # ns) = node_items n @ nodes_items ns"
  "nodes_items (ns @ ms) = nodes_items ns @ nodes_items ms"
  by (simp_all add: nodes_items_def)

lemma append_leaf_items_ok:
  assumes "list_all (stored_ok K) es" "length es \<le> max_children K" "append_leaf_items K es p = (nodes, p')"
  shows "nodes_items nodes = map fst es" "\<forall>node\<in>set nodes. node_ok K True (nd_height node) node"
  using assms by (auto simp: append_leaf_items_def leaf_of_ok entries_fit_def split: if_splits prod.splits)

lemma split_leaf_parts:
  "split_leaf_items D first last' p es = Some (pre, suf) \<Longrightarrow>
     set pre \<union> set suf \<subseteq> set es \<and> length pre \<le> length es \<and> length suf \<le> length es"
proof (induction es arbitrary: p pre suf)
  case (Cons e es)
  then show ?case
    by (cases e) (fastforce simp: Let_def split: if_splits)
qed simp

lemma split_leaf_step:
  assumes leaf: "node_ok K r h (Leaf n s es)" and parts: "parts_ok K parts" "rp_valid parts"
  shows "parts_step K (split_items K D first last' base (map fst es)) parts
    (case split_leaf_items D first last' base es of
       None \<Rightarrow> parts\<lparr>rp_valid := False\<rparr>
     | Some (pre, suf) \<Rightarrow>
         (case append_leaf_items K pre (rp_ids parts) of
            (pre_nodes, p1) \<Rightarrow>
              (case append_leaf_items K suf p1 of
                 (suf_nodes, p2) \<Rightarrow>
                   parts\<lparr>rp_prefix := rp_prefix parts @ pre_nodes,
                         rp_suffix := rp_suffix parts @ suf_nodes, rp_ids := p2\<rparr>)))"
proof -
  have es: "list_all (stored_ok K) es" "length es \<le> max_children K"
    using leaf by (simp_all add: node_ok_leaf entries_fit_def)
  show ?thesis
  proof (cases "split_leaf_items D first last' base es")
    case None
    then show ?thesis
      using es by (simp add: parts_step_def split_items_def entries_of_leaf)
  next
    case (Some ps)
    obtain pre suf where ps: "ps = (pre, suf)"
      by fastforce
    obtain pn p1 where p1: "append_leaf_items K pre (rp_ids parts) = (pn, p1)"
      by fastforce
    obtain sn p2 where p2: "append_leaf_items K suf p1 = (sn, p2)"
      by fastforce
    have "list_all (stored_ok K) pre" "length pre \<le> max_children K"
      "list_all (stored_ok K) suf" "length suf \<le> max_children K"
      using split_leaf_parts [OF Some [unfolded ps]] es by (auto simp: list_all_iff)
    note * = append_leaf_items_ok [OF this(1,2) p1] append_leaf_items_ok [OF this(3,4) p2]
    show ?thesis
      using Some ps p1 p2 * parts es by (auto simp: parts_step_def parts_ok_def split_items_def entries_of_leaf)
  qed
qed

context tree_dimension
begin

lemma range_cases:
  assumes "node_ok K r (nd_height node) node" "valid base" "strictly_advancing K D base (node_items node)" "first \<le> last'"
    "parts_ok K parts" "rp_valid parts"
  shows "d_add D base (nd_summary node) \<le> first \<Longrightarrow>
      parts_step K (split_items K D first last' base (node_items node)) parts
        (parts\<lparr>rp_prefix := rp_prefix parts @ [node]\<rparr>)"
    "\<not> d_add D base (nd_summary node) \<le> first \<Longrightarrow> last' \<le> base \<Longrightarrow>
      parts_step K (split_items K D first last' base (node_items node)) parts
        (parts\<lparr>rp_suffix := rp_suffix parts @ [node]\<rparr>)"
    "first \<le> base \<Longrightarrow> d_add D base (nd_summary node) \<le> last' \<Longrightarrow>
      parts_step K (split_items K D first last' base (node_items node)) parts parts"
proof -
  have e: "d_add D base (nd_summary node) = advance K D base (node_items node)"
    by (rule node_position [OF assms(1,2)])
  have root: "node_ok K True (nd_height node) node"
    using assms(1) node_ok_root by (cases r) auto
  show "d_add D base (nd_summary node) \<le> first \<Longrightarrow>
      parts_step K (split_items K D first last' base (node_items node)) parts
        (parts\<lparr>rp_prefix := rp_prefix parts @ [node]\<rparr>)"
    using split_items_before [OF strictly_advancing_weak [OF assms(3)]] e root assms(5,6)
    by (auto simp: parts_step_def parts_ok_def)
  show "\<not> d_add D base (nd_summary node) \<le> first \<Longrightarrow> last' \<le> base \<Longrightarrow>
      parts_step K (split_items K D first last' base (node_items node)) parts
        (parts\<lparr>rp_suffix := rp_suffix parts @ [node]\<rparr>)"
    using split_items_after [OF assms(3)] root assms(4-6)
    by (auto simp: parts_step_def parts_ok_def)
  show "first \<le> base \<Longrightarrow> d_add D base (nd_summary node) \<le> last' \<Longrightarrow>
      parts_step K (split_items K D first last' base (node_items node)) parts parts"
    using split_items_within [OF assms(3)] e assms(5,6) by (auto simp: parts_step_def)
qed

lemma split_range_invalid:
  "parts_step K None parts parts' \<longleftrightarrow> \<not> rp_valid parts'"
  by (simp add: parts_step_def)

lemma split_items_later:
  "parts_step K s1 parts parts1 \<Longrightarrow> s1 = Some (pre, suf) \<Longrightarrow> parts_step K s2 parts1 parts2 \<Longrightarrow>
     parts_step K (case s2 of None \<Rightarrow> None | Some (pre', suf') \<Rightarrow> Some (pre @ pre', suf @ suf')) parts parts2"
  by (auto simp: parts_step_def split: option.splits)

end

theorem split_range_ok:
  shows "node_ok K r (nd_height node) node \<Longrightarrow> valid base \<Longrightarrow> strictly_advancing K D base (node_items node) \<Longrightarrow>
      parts_ok K parts \<Longrightarrow> rp_valid parts \<Longrightarrow> first \<le> last' \<Longrightarrow> tree_dimension K D valid \<Longrightarrow>
      parts_step K (split_items K D first last' base (node_items node)) parts
        (split_range_node K D first last' base node parts)"
    and "list_all (child_ok K h) cs \<Longrightarrow> valid base \<Longrightarrow> strictly_advancing K D base (child_items cs) \<Longrightarrow>
      parts_ok K parts \<Longrightarrow> rp_valid parts \<Longrightarrow> first \<le> last' \<Longrightarrow> tree_dimension K D valid \<Longrightarrow>
      parts_step K (split_items K D first last' base (child_items cs)) parts
        (split_range_children K D first last' base cs parts)"
proof (induction K D first last' base node parts and K D first last' base cs parts arbitrary: r and h
    rule: split_range_node_split_range_children.induct)
  case (1 K D first last' base node parts)
  note cases = tree_dimension.range_cases [OF 1(8) 1(2-4) 1(7) 1(5,6)]
  let ?e = "d_add D base (nd_summary node)"
  show ?case
  proof (cases "?e \<le> first \<or> last' \<le> base \<or> first \<le> base \<and> ?e \<le> last'")
    case True
    then show ?thesis
      using cases by (auto simp: split_range_node.simps Let_def)
  next
    case out: False
    show ?thesis
    proof (cases node)
      case (Leaf n s es)
      then show ?thesis
        using split_leaf_step [of K r "nd_height node" n s es parts D first last' base] 1(2,5,6) out
        by (auto simp: split_range_node.simps Let_def)
    next
      case (Internal n g s cs)
      have "list_all (child_ok K g) cs"
        using 1(2) Internal by (simp add: node_ok_internal)
      from 1(1) [OF refl _ _ _ Internal this] show ?thesis
        using Internal 1(3-8) out by (auto simp: split_range_node.simps Let_def)
    qed
  qed
next
  case (2 K D first last' start parts)
  then show ?case
    by (simp add: parts_step_def)
next
  case (3 K D first last' start c s cs parts)
  have c: "child_ok K h (c, s)" "strictly_advancing K D start (node_items c)"
    and cs: "list_all (child_ok K h) cs" "strictly_advancing K D (advance K D start (node_items c)) (child_items cs)"
    using 3(3,5) by simp_all
  obtain g where node: "node_ok K False (nd_height c) c"
    using child_okD [OF c(1)] node_ok_height by fastforce
  have s: "s = nd_summary c" and e: "d_add D start s = advance K D start (node_items c)"
    using c(1) tree_dimension.child_position [OF 3(9) c(1) 3(4)] by (simp_all add: child_ok_def)
  define parts' where "parts' = (if d_add D start s \<le> first then parts\<lparr>rp_prefix := rp_prefix parts @ [c]\<rparr>
             else if last' \<le> start then parts\<lparr>rp_suffix := rp_suffix parts @ [c]\<rparr>
             else if first \<le> start \<and> d_add D start s \<le> last' then parts
             else split_range_node K D first last' start c parts)"
  have step: "parts_step K (split_items K D first last' start (node_items c)) parts parts'"
    using tree_dimension.range_cases [OF 3(9) node 3(4) c(2) 3(8) 3(6,7)] s
      3(1) [OF refl _ _ _ node 3(4) c(2) 3(6-9)] by (auto simp: parts'_def)
  have unfold: "split_range_children K D first last' start ((c, s) # cs) parts =
      (if \<not> rp_valid parts' then parts' else split_range_children K D first last' (d_add D start s) cs parts')"
    by (simp add: Let_def parts'_def)
  show ?case
  proof (cases "rp_valid parts'")
    case False
    then have "split_items K D first last' start (node_items c) = None"
      using step by (auto simp: parts_step_def split: option.splits)
    then show ?thesis
      using False unfold by (simp add: split_items_append parts_step_def)
  next
    case True
    then obtain pre suf where split: "split_items K D first last' start (node_items c) = Some (pre, suf)"
      "parts_ok K parts'"
      using step by (auto simp: parts_step_def split: option.splits)
    have "valid (d_add D start s)"
      by (rule tree_dimension.add_valid [OF 3(9,4)])
    from 3(2) [OF refl parts'_def _ cs(1) this _ split(2) True 3(8,9)] True e cs(2)
    have "parts_step K (split_items K D first last' (d_add D start s) (child_items cs)) parts'
        (split_range_children K D first last' (d_add D start s) cs parts')"
      by simp
    from tree_dimension.split_items_later [OF 3(9) step split(1) this] show ?thesis
      using True split(1) e unfold by (simp add: split_items_append)
  qed
qed

section \<open>The splice\<close>

lemma push_nodes_ok:
  assumes "branching_ok K"
  shows "tree_ok K t \<Longrightarrow> \<forall>node\<in>set nodes. node_ok K True (nd_height node) node \<Longrightarrow>
    tree_ok K (push_nodes K nodes t) \<and> tree_items (push_nodes K nodes t) = tree_items t @ nodes_items nodes"
proof (induction nodes arbitrary: t)
  case (Cons node nodes)
  have "Some node = None \<or> Some node = Some node \<and> node_ok K True (nd_height node) node"
    using Cons(3) by simp
  note * = push_tree_ok [OF assms Cons(2) this]
  show ?case
    using Cons(1) [OF *(1)] Cons(3) *(2) by (simp add: push_nodes_def)
qed (simp add: push_nodes_def)

lemma tree_empty_items: "tree_ok K t \<Longrightarrow> tree_empty t \<longleftrightarrow> tree_items t = []"
  using node_nonempty [of K True]
  by (auto simp: tree_ok_def tree_empty_def tree_items_def node_empty_def node_ok_leaf entries_fit_def
      split: option.splits node.splits)

context tree_dimension
begin

theorem splice_range_ok:
  assumes B: "branching_ok K" and t: "tree_ok K t" "strictly_advancing K D (d_zero D) (tree_items t)"
    and rep: "tree_ok K replacement" and range: "first \<le> last'" "last' \<le> advance K D (d_zero D) (tree_items t)"
    and change: "first < last' \<or> tree_items replacement \<noteq> []"
  shows "case split_items K D first last' (d_zero D) (tree_items t) of
      None \<Rightarrow> splice_range K D first last' replacement t = None
    | Some (pre, suf) \<Rightarrow> \<exists>t'. splice_range K D first last' replacement t = Some t' \<and> tree_ok K t' \<and>
        tree_items t' = pre @ tree_items replacement @ suf"
proof -
  define none :: "('i, 's, 'n, 'p) range_parts" where "none = \<lparr>rp_prefix = [], rp_suffix = [], rp_valid = True, rp_ids = st_ids t\<rparr>"
  define parts where "parts = (case st_root t of
    None \<Rightarrow> none | Some root \<Rightarrow> split_range_node K D first last' (d_zero D) root none)"
  have none: "parts_ok K none" "rp_valid none" "nodes_items (rp_prefix none) = []" "nodes_items (rp_suffix none) = []"
    by (simp_all add: none_def parts_ok_def)
  have full: "(case st_root t of None \<Rightarrow> d_zero D | Some root \<Rightarrow> d_add D (d_zero D) (nd_summary root)) =
      advance K D (d_zero D) (tree_items t)"
    using t(1) node_position [OF _ zero_valid] by (auto simp: tree_ok_def tree_items_def split: option.splits)
  have step: "parts_step K (split_items K D first last' (d_zero D) (tree_items t)) none parts"
  proof (cases "st_root t")
    case None
    then show ?thesis
      using none by (simp add: parts_def parts_step_def tree_items_def)
  next
    case (Some root)
    note root = tree_ok_root [OF t(1) Some] tree_items_root(1) [OF Some]
    show ?thesis
      using split_range_ok(1) [OF root(1) zero_valid _ none(1,2) range(1) tree_dimension_axioms] t(2)
      by (simp add: root(2) Some parts_def)
  qed
  define prefix where "prefix = push_nodes K (rp_prefix parts) \<lparr>st_ids = rp_ids parts, st_root = None\<rparr>"
  have splice: "splice_range K D first last' replacement t = (if \<not> rp_valid parts then None
      else Some (push_nodes K (rp_suffix parts) (push_tree K prefix (st_root replacement))))"
    using range change full tree_empty_items [OF rep]
    by (auto simp: splice_range_def Let_def prefix_def simp flip: none_def parts_def)
  show ?thesis
  proof (cases "split_items K D first last' (d_zero D) (tree_items t)")
    case None
    then show ?thesis
      using step splice by (simp add: parts_step_def)
  next
    case (Some ps)
    then obtain pre suf where ps: "ps = (pre, suf)" "rp_valid parts" "parts_ok K parts"
      "nodes_items (rp_prefix parts) = pre" "nodes_items (rp_suffix parts) = suf"
      using step none by (cases ps) (simp add: parts_step_def)
    have "tree_ok K prefix \<and> tree_items prefix = pre"
      using push_nodes_ok [OF B, of "\<lparr>st_ids = rp_ids parts, st_root = None\<rparr>" "rp_prefix parts"] ps
      by (simp add: prefix_def parts_ok_def)
    then have pre: "tree_ok K prefix" "tree_items prefix = pre"
      by simp_all
    have "st_root replacement = None \<or> (st_root replacement = Some (the (st_root replacement)) \<and>
        node_ok K True (nd_height (the (st_root replacement))) (the (st_root replacement)))"
      using rep by (cases "st_root replacement") (simp_all add: tree_ok_def)
    note mid = push_tree_ok [OF B pre(1) this]
    have "\<forall>node\<in>set (rp_suffix parts). node_ok K True (nd_height node) node"
      using ps(3) by (simp add: parts_ok_def)
    from push_nodes_ok [OF B mid(1) this] show ?thesis
      using Some ps splice mid(2) pre(2) by (simp add: tree_items_def)
  qed
qed

text \<open>With nothing to put in, an empty range is accepted anywhere, also inside an item.\<close>

lemma splice_nothing:
  assumes "tree_ok K t" "p \<le> advance K D (d_zero D) (tree_items t)" "tree_ok K replacement" "tree_items replacement = []"
  shows "splice_range K D p p replacement t = Some t"
proof -
  have "(case st_root t of None \<Rightarrow> d_zero D | Some root \<Rightarrow> d_add D (d_zero D) (nd_summary root)) =
      advance K D (d_zero D) (tree_items t)"
    using assms(1) node_position [OF _ zero_valid] by (auto simp: tree_ok_def tree_items_def split: option.splits)
  then show ?thesis
    using assms(2,4) tree_empty_items [OF assms(3)] by (simp add: splice_range_def Let_def)
qed

text \<open>On item boundaries the splice replaces the items between two indices.\<close>

theorem splice_range_at:
  assumes B: "branching_ok K" and t: "tree_ok K t" "strictly_advancing K D (d_zero D) (tree_items t)"
    and rep: "tree_ok K replacement" and mn: "m \<le> n" "n \<le> length (tree_items t)"
    and change: "m < n \<or> tree_items replacement \<noteq> []"
  shows "\<exists>t'. splice_range K D (advance K D (d_zero D) (take m (tree_items t)))
      (advance K D (d_zero D) (take n (tree_items t))) replacement t = Some t' \<and> tree_ok K t' \<and>
    tree_items t' = take m (tree_items t) @ tree_items replacement @ drop n (tree_items t)"
proof -
  let ?xs = "tree_items t" and ?mid = "take (n - m) (drop m (tree_items t))"
  let ?a = "advance K D (d_zero D) (take m ?xs)" and ?b = "advance K D (d_zero D) (take n ?xs)"
  have n: "take n ?xs = take m ?xs @ ?mid" and xs: "?xs = take n ?xs @ drop n ?xs"
    using mn(1) by (metis le_add_diff_inverse take_add) simp
  have strict: "strictly_advancing K D ?a ?mid" "strictly_advancing K D ?b (drop n ?xs)"
    using t(2) n xs by (metis strictly_advancing_append)+
  have b: "?b = advance K D ?a ?mid" "advance K D (d_zero D) ?xs = advance K D ?b (drop n ?xs)"
    using n xs by (metis advance_simps(3))+
  have "?a \<le> ?b" "?b \<le> advance K D (d_zero D) ?xs"
    using advancing_le [OF strictly_advancing_weak [OF strict(1)]]
      advancing_le [OF strictly_advancing_weak [OF strict(2)]] b by simp_all
  moreover have "?a < ?b" if "m < n"
  proof -
    have "?mid \<noteq> []"
      using that mn(2) by simp
    then obtain y ys where y: "?mid = y # ys"
      by (cases ?mid) simp_all
    then have "?a < d_add D ?a (s_item K y)" "strictly_advancing K D (d_add D ?a (s_item K y)) ys"
      using strict(1) by simp_all
    then show ?thesis
      using advancing_le [OF strictly_advancing_weak] b(1) y by fastforce
  qed
  ultimately show ?thesis
    using splice_range_ok [OF B t rep, of ?a ?b] split_items_at [OF t(2) mn] change by auto
qed

end

end
