(* ===== verification/Tree_Cursor_Spec.thy ===== *)
theory Tree_Cursor_Spec
  imports Tree_Cursor Sum_Tree_Splice
begin

text \<open>
  What the cursor does, in terms of the items still to come (\<open>pending\<close>): a seek leaves the items
  from the index the seek over the list gives, \<open>next\<close> drops one, a slice ends, takes the items that
  end at or before its target and leaves the rest, a suffix takes all.
\<close>

section \<open>The items to come\<close>

fun level_items :: "('i, 's, 'n) level \<Rightarrow> 'i list" where
  "level_items (Leaf n s es, i) = map fst (drop i es)"
| "level_items (Internal n h s cs, i) = child_items (drop i cs)"

definition beyond :: "('i, 's, 'n) level list \<Rightarrow> 'i list" where
  "beyond stack = concat (map (\<lambda>l. level_items (fst l, snd l + 1)) stack)"

definition pending :: "('i, 's, 'n) level list \<Rightarrow> 'i list" where
  "pending stack = (case stack of [] \<Rightarrow> [] | l # rest \<Rightarrow> level_items l @ beyond rest)"

definition level_ok :: "('i, 's, 'n, 'p) tree_ops \<Rightarrow> ('i, 's, 'n) level \<Rightarrow> bool" where
  "level_ok K l \<longleftrightarrow> (\<exists>r. node_ok K r (nd_height (fst l)) (fst l)) \<and> snd l \<le> nd_count (fst l)"

definition inner_ok :: "('i, 's, 'n, 'p) tree_ops \<Rightarrow> ('i, 's, 'n) level \<Rightarrow> bool" where
  "inner_ok K l \<longleftrightarrow> level_ok K l \<and> \<not> is_leaf (fst l) \<and> snd l < nd_count (fst l)"

fun stack_ok :: "('i, 's, 'n, 'p) tree_ops \<Rightarrow> ('i, 's, 'n) level list \<Rightarrow> bool" where
  "stack_ok K [] \<longleftrightarrow> True"
| "stack_ok K (l # rest) \<longleftrightarrow> level_ok K l \<and> list_all (inner_ok K) rest"

fun stack_settled :: "('i, 's, 'n) level list \<Rightarrow> bool" where
  "stack_settled [] \<longleftrightarrow> True"
| "stack_settled (l # rest) \<longleftrightarrow> is_leaf (fst l) \<and> snd l < nd_count (fst l)"

text \<open>No exhausted leaf on top.\<close>

fun leaf_open :: "('i, 's, 'n) level list \<Rightarrow> bool" where
  "leaf_open [] \<longleftrightarrow> True"
| "leaf_open (l # rest) \<longleftrightarrow> (is_leaf (fst l) \<longrightarrow> snd l < nd_count (fst l))"

lemma stack_settled_open: "stack_settled stack \<Longrightarrow> leaf_open stack"
  by (cases stack) auto

lemma beyond_simps [simp]:
  "beyond [] = []" "beyond ((node, i) # rest) = level_items (node, i + 1) @ beyond rest"
  by (simp_all add: beyond_def)

lemma pending_simps [simp]: "pending [] = []" "pending (l # rest) = level_items l @ beyond rest"
  by (simp_all add: pending_def)

lemma level_ok_leaf:
  "level_ok K (Leaf n s es, i) \<longleftrightarrow> entries_fit K True (length es) \<and> list_all (stored_ok K) es \<and>
     s = fold_summaries K es \<and> i \<le> length es"
  by (auto simp: level_ok_def node_ok_leaf entries_fit_def)

lemma level_ok_internal:
  "level_ok K (Internal n h s cs, i) \<longleftrightarrow> entries_fit K True (length cs) \<and> list_all (child_ok K h) cs \<and>
     s = fold_summaries K cs \<and> i \<le> length cs"
  by (auto simp: level_ok_def node_ok_internal entries_fit_def)

lemma inner_ok_internal:
  "inner_ok K (node, i) \<longleftrightarrow> (\<exists>n h s cs. node = Internal n h s cs \<and> level_ok K (node, i) \<and> i < length cs)"
  by (cases node) (auto simp: inner_ok_def)

lemma inner_level_next: "inner_ok K (node, i) \<Longrightarrow> level_ok K (node, i + 1)"
  by (auto simp: inner_ok_internal level_ok_internal)

lemma inner_child:
  assumes "level_ok K (Internal n h s cs, i)" "j < length cs"
  shows "node_ok K False (nd_height (fst (cs ! j))) (fst (cs ! j))"
    "child_items (drop j cs) = node_items (fst (cs ! j)) @ child_items (drop (j + 1) cs)"
proof -
  have "child_ok K h (cs ! j)"
    using assms by (simp add: level_ok_internal list_all_length)
  then show "node_ok K False (nd_height (fst (cs ! j))) (fst (cs ! j))"
    using child_okD node_ok_height by blast
  show "child_items (drop j cs) = node_items (fst (cs ! j)) @ child_items (drop (j + 1) cs)"
    using Cons_nth_drop_Suc [OF assms(2)] by (metis Suc_eq_plus1 child_items_simps(2))
qed

section \<open>Descending\<close>

lemma left_path_ok:
  "node_ok K r (nd_height node) node \<Longrightarrow> list_all (inner_ok K) stack \<Longrightarrow>
     (case left_path node stack of (stack', found) \<Rightarrow>
       found \<and> stack_ok K stack' \<and> stack' \<noteq> [] \<and> stack_settled stack' \<and> pending stack' = node_items node @ beyond stack)"
proof (induction node stack arbitrary: r rule: left_path.induct)
  case (1 n s es stack)
  then show ?case
    by (auto simp: node_ok_leaf entries_fit_def level_ok_leaf)
next
  case (2 n h s cs stack)
  have cs: "cs \<noteq> []" "level_ok K (Internal n h s cs, 0)"
    using 2(2) by (auto simp: node_ok_internal level_ok_internal entries_fit_def)
  then have hd: "cs ! 0 = hd cs" "0 < length cs"
    by (simp_all add: hd_conv_nth)
  have inner: "inner_ok K (Internal n h s cs, 0)"
    using cs by (simp add: inner_ok_internal)
  have "case left_path (fst (hd cs)) ((Internal n h s cs, 0) # stack) of (stack', found) \<Rightarrow>
      found \<and> stack_ok K stack' \<and> stack' \<noteq> [] \<and> stack_settled stack' \<and>
      pending stack' = node_items (fst (hd cs)) @ beyond ((Internal n h s cs, 0) # stack)"
    using 2(1) [OF cs(1) inner_child(1) [OF cs(2) hd(2), unfolded hd(1)]] inner 2(3) by simp
  then show ?case
    using cs(1) inner_child(2) [OF cs(2) hd(2)] hd(1) by (simp add: case_prod_beta)
qed

lemma next_leaf_ok:
  "list_all (inner_ok K) rest \<Longrightarrow>
     (case next_leaf (l # rest) of (stack', found) \<Rightarrow>
       stack_ok K stack' \<and> stack_settled stack' \<and> pending stack' = beyond rest \<and> (found \<longleftrightarrow> stack' \<noteq> []))"
proof (induction "l # rest" arbitrary: l rest rule: next_leaf.induct)
  case (3 l n s es i stack)
  then show ?case
    by (simp add: inner_ok_internal)
next
  case (4 l n h s cs i stack)
  have ok: "level_ok K (Internal n h s cs, i + 1)" "list_all (inner_ok K) stack"
    using 4(2) inner_level_next by auto
  show ?case
  proof (cases "i + 1 < length cs")
    case True
    then have "inner_ok K (Internal n h s cs, i + 1)"
      using ok(1) by (simp add: inner_ok_internal)
    then show ?thesis
      using left_path_ok [OF inner_child(1) [OF ok(1) True], of "(Internal n h s cs, i + 1) # stack"]
        inner_child(2) [OF ok(1) True] ok(2) True by (auto split: prod.splits)
  next
    case False
    then show ?thesis
      using 4(1) [OF False ok(2)] by simp
  qed
qed simp_all

lemma settle_ok:
  "stack_ok K stack \<Longrightarrow> leaf_open stack \<Longrightarrow>
     stack_ok K (settle_at_leaf stack) \<and> stack_settled (settle_at_leaf stack) \<and>
     pending (settle_at_leaf stack) = pending stack"
proof (induction stack rule: settle_at_leaf.induct)
  case (3 n h s cs i stack)
  have ok: "level_ok K (Internal n h s cs, i)" "list_all (inner_ok K) stack"
    using 3(2) by simp_all
  show ?case
  proof (cases "i < length cs")
    case True
    then have "inner_ok K (Internal n h s cs, i)"
      using ok(1) by (simp add: inner_ok_internal)
    then show ?thesis
      using left_path_ok [OF inner_child(1) [OF ok(1) True], of "(Internal n h s cs, i) # stack"]
        inner_child(2) [OF ok(1) True] ok(2) True by (auto split: prod.splits)
  next
    case False
    show ?thesis
    proof (cases stack)
      case (Cons l rest)
      obtain node j where l: "l = (node, j)"
        by fastforce
      have inner: "inner_ok K (node, j)" and rest: "list_all (inner_ok K) rest"
        using ok(2) Cons l by simp_all
      have "level_ok K (node, j + 1)" "\<not> is_leaf node"
        using inner_level_next [OF inner] inner by (auto simp: inner_ok_def)
      then show ?thesis
        using 3(1) [OF False Cons l [symmetric]] False Cons l rest by auto
    qed (use False in simp)
  qed
qed simp_all

lemma ascend_ok:
  assumes "list_all (inner_ok K) rest" "level_items l = []"
  shows "stack_ok K (ascend (l # rest)) \<and> pending (ascend (l # rest)) = pending (l # rest) \<and>
    leaf_open (ascend (l # rest))"
proof (cases rest)
  case (Cons m rest')
  obtain node i where m: "m = (node, i)"
    by fastforce
  have inner: "inner_ok K (node, i)" "list_all (inner_ok K) rest'"
    using assms(1) Cons m by simp_all
  have "\<not> is_leaf node"
    using inner(1) by (simp add: inner_ok_def)
  then show ?thesis
    using inner_level_next [OF inner(1)] inner(2) assms(2) Cons m by auto
qed (use assms(2) in simp)

section \<open>Seeking\<close>

context tree_dimension
begin

theorem seek_node_ok:
  assumes "node_ok K r (nd_height node) node" "valid p" "advancing K D p (node_items node)" "list_all (inner_ok K) stack"
    "seek_items K D target b p (node_items node) = (i, q, found)"
  shows "if found
    then \<exists>stack'. seek_node D target b node p stack = (q, stack', True) \<and> stack_ok K stack' \<and> stack' \<noteq> [] \<and>
      stack_settled stack' \<and> pending stack' = drop i (node_items node) @ beyond stack
    else seek_node D target b node p stack = (q, stack, False)"
  using assms
proof (induction node arbitrary: r p i q stack rule: node_items.induct)
  case (1 n s es)
  then show ?case
    using seek_items_found [of K D target b p "map fst es" i q]
    by (auto simp: node_ok_leaf seek_leaf level_ok_leaf entries_fit_def drop_map)
next
  case (2 n h s cs)
  have cs: "list_all (child_ok K h) cs" "advancing K D p (child_items cs)" "level_ok K (Internal n h s cs, 0)"
    using 2(2,4) by (auto simp: node_ok_internal level_ok_internal entries_fit_def)
  obtain j qc fc where sc: "seek_entries D target b p cs = (j, qc, fc)"
    by (metis surj_pair)
  show ?case
  proof (cases fc)
    case False
    then show ?thesis
      using seek_children [OF cs(1) 2(3) cs(2) sc] 2(6) sc by simp
  next
    case True
    note down = seek_child [OF 2(2,3) cs(2) sc [unfolded eqTrueI [OF True]]]
    then obtain k t where k: "seek_items K D target b qc (node_items (fst (cs ! j))) = (k, t, True)"
        "k < length (node_items (fst (cs ! j)))"
        "seek_items K D target b p (child_items cs) = (length (child_items (take j cs)) + k, t, True)"
      by blast
    have i: "i = length (child_items (take j cs)) + k" "t = q" found
      using k(3) 2(6) by simp_all
    have j: "level_ok K (Internal n h s cs, j)" "list_all (inner_ok K) ((Internal n h s cs, j) # stack)"
      using cs(3) down(1) 2(5) by (simp_all add: level_ok_internal inner_ok_internal)
    from 2(1) [OF nth_mem [OF down(1)] prod.collapse inner_child(1) [OF cs(3) down(1)] down(3,4) j(2), of k t] k(1) i(3)
    obtain stack' where s: "seek_node D target b (fst (cs ! j)) qc ((Internal n h s cs, j) # stack) = (t, stack', True)"
      "stack_ok K stack'" "stack' \<noteq> []" "stack_settled stack'"
      "pending stack' = drop k (node_items (fst (cs ! j))) @ beyond ((Internal n h s cs, j) # stack)"
      by auto
    have "drop i (child_items cs) = drop k (node_items (fst (cs ! j))) @ child_items (drop (Suc j) cs)"
      using k(2) i(1) by (simp add: child_items_nth [OF down(1)])
    then show ?thesis
      using s sc True down(1) i(2,3) by simp
  qed
qed

theorem cursor_seek_ok:
  assumes "tree_ok K t" "advancing K D (d_zero D) (tree_items t)"
    "seek_items K D target b (d_zero D) (tree_items t) = (i, q, found)"
  shows "\<exists>c. cursor_seek D t target b = (c, found) \<and> stack_ok K (cu_stack c) \<and> stack_settled (cu_stack c) \<and>
    pending (cu_stack c) = drop i (tree_items t) \<and> cu_position c = q \<and> cu_did_seek c"
proof (cases "st_root t")
  case None
  then show ?thesis
    using assms(3) by (simp add: cursor_seek_def tree_items_root)
next
  case (Some root)
  note root = tree_ok_root [OF assms(1) Some] tree_items_root(1) [OF Some]
  show ?thesis
    using seek_node_ok [OF root(1) zero_valid, of "[]" target b i q found] assms(2,3)
      seek_items_missed [of K D target b "d_zero D" "tree_items t" i q]
    by (cases found) (auto simp: root(2) cursor_seek_def Some)
qed

end

section \<open>Reading and stepping\<close>

theorem cursor_item_ok:
  assumes "stack_ok K (cu_stack c)" "stack_settled (cu_stack c)"
  shows "cursor_item c = (case pending (cu_stack c) of [] \<Rightarrow> None | x # _ \<Rightarrow> Some x)"
    and "cursor_item_summary K c = (case pending (cu_stack c) of [] \<Rightarrow> s_zero K | x # _ \<Rightarrow> s_item K x)"
proof -
  have "(case pending (cu_stack c) of [] \<Rightarrow> cursor_item c = None \<and> cursor_item_summary K c = s_zero K
    | x # _ \<Rightarrow> cursor_item c = Some x \<and> cursor_item_summary K c = s_item K x)"
  proof (cases "cu_stack c")
    case (Cons l rest)
    then obtain n s es i where l: "l = (Leaf n s es, i)" "i < length es"
      using assms(2) by (cases l; cases "fst l") auto
    have "stored_ok K (es ! i)"
      using assms(1) Cons l by (simp add: level_ok_leaf list_all_length)
    moreover have "drop i es = es ! i # drop (Suc i) es"
      using Cons_nth_drop_Suc [OF l(2)] by simp
    ultimately show ?thesis
      using Cons l by (simp add: cursor_item_def cursor_item_summary_def stored_ok_def)
  qed (simp add: cursor_item_def cursor_item_summary_def)
  then show "cursor_item c = (case pending (cu_stack c) of [] \<Rightarrow> None | x # _ \<Rightarrow> Some x)"
    and "cursor_item_summary K c = (case pending (cu_stack c) of [] \<Rightarrow> s_zero K | x # _ \<Rightarrow> s_item K x)"
    by (simp_all split: list.splits)
qed

theorem cursor_next_ok:
  fixes c :: "('i, 's, 'n, 'd) cursor"
  assumes "stack_ok K (cu_stack c)" "stack_settled (cu_stack c)" "pending (cu_stack c) = x # xs"
  shows "case cursor_next D c of (c', found) \<Rightarrow> stack_ok K (cu_stack c') \<and> stack_settled (cu_stack c') \<and>
    pending (cu_stack c') = xs \<and> cu_position c' = d_add D (cu_position c) (s_item K x) \<and> (found \<longleftrightarrow> xs \<noteq> [])"
proof -
  obtain l rest where c: "cu_stack c = l # rest"
    using assms(3) by (cases "cu_stack c") auto
  then obtain n s es i where l: "l = (Leaf n s es, i)" "i < length es"
    using assms(2) by (cases l; cases "fst l") auto
  have ok: "level_ok K (Leaf n s es, i)" "list_all (inner_ok K) rest" "stored_ok K (es ! i)"
    using assms(1) c l by (simp_all add: level_ok_leaf list_all_length)
  have d: "drop i es = es ! i # drop (Suc i) es"
    using Cons_nth_drop_Suc [OF l(2)] by simp
  then have x: "x = fst (es ! i)" "xs = map fst (drop (Suc i) es) @ beyond rest"
    using assms(3) c l by simp_all
  show ?thesis
  proof (cases "i + 1 < length es")
    case True
    then show ?thesis
      using c l ok x by (auto simp: cursor_next_def Let_def level_ok_leaf stored_ok_def)
  next
    case False
    have empty: "stack' = [] \<longleftrightarrow> pending stack' = []" if settled_top: "stack_settled stack'" for stack' :: "('i, 's, 'n) level list"
    proof (cases stack')
      case (Cons m ms)
      then obtain n' s' es' j where "m = (Leaf n' s' es', j)" "j < length es'"
        using settled_top Cons by (cases m; cases "fst m") auto
      then show ?thesis
        using Cons by simp
    qed simp
    show ?thesis
      using next_leaf_ok [OF ok(2), of "(Leaf n s es, i + 1)"] empty False c l ok(3) x
      by (auto simp: cursor_next_def Let_def stored_ok_def split: prod.splits)
  qed
qed

section \<open>Slicing\<close>

fun slice_items ::
  "('i, 's, 'n, 'p) tree_ops \<Rightarrow> ('d::linorder, 's) dimension \<Rightarrow> 'd \<Rightarrow> 'd \<Rightarrow> 'i list \<Rightarrow> 'i list" where
  "slice_items K D target p [] = []"
| "slice_items K D target p (x # xs) =
     (let q = d_add D p (s_item K x) in if q \<le> target then x # slice_items K D target q xs else [])"

lemma slice_items_all:
  "advancing K D p xs \<Longrightarrow> advance K D p xs \<le> target \<Longrightarrow>
     slice_items K D target p (xs @ ys) = xs @ slice_items K D target (advance K D p xs) ys"
proof (induction xs arbitrary: p)
  case (Cons x xs)
  have "d_add D p (s_item K x) \<le> target"
    using Cons(2,3) advancing_le [of K D "d_add D p (s_item K x)" xs] by auto
  then show ?case
    using Cons by (simp add: Let_def)
qed simp

lemma slice_items_done:
  "length (slice_items K D target p xs) < length xs \<Longrightarrow>
     slice_items K D target p (xs @ ys) = slice_items K D target p xs"
  by (induction xs arbitrary: p) (auto simp: Let_def split: if_splits)

lemma slice_items_full:
  "length xs \<le> length (slice_items K D target p xs) \<Longrightarrow> slice_items K D target p xs = xs"
  by (induction xs arbitrary: p) (auto simp: Let_def split: if_splits)

lemma slice_items_take: "slice_items K D target p xs = take (length (slice_items K D target p xs)) xs"
  by (induction xs arbitrary: p) (auto simp: Let_def)

lemma slice_items_le: "length (slice_items K D target p xs) \<le> length xs"
  by (induction xs arbitrary: p) (auto simp: Let_def)

lemma slice_items_none: "strictly_advancing K D p xs \<Longrightarrow> target \<le> p \<Longrightarrow> slice_items K D target p xs = []"
  by (cases xs) (auto simp: Let_def)

lemma slice_items_last:
  "xs \<noteq> [] \<Longrightarrow> slice_items K D target p xs = xs \<Longrightarrow> advance K D p xs \<le> target"
proof (induction xs arbitrary: p)
  case (Cons x xs)
  then show ?case
    by (cases xs) (auto simp: Let_def split: if_splits)
qed simp

lemma slice_leaf_ok:
  assumes B: "branching_ok K"
  shows "list_all (stored_ok K) es \<Longrightarrow> tree_ok K result \<Longrightarrow>
    (case slice_leaf K D target es i pos result of (j, pos', result', stopped) \<Rightarrow>
      let ys = slice_items K D target pos (map fst es) in
        j = i + length ys \<and> pos' = advance K D pos ys \<and> tree_ok K result' \<and>
        tree_items result' = tree_items result @ ys \<and> (stopped \<longleftrightarrow> length ys < length es))"
proof (induction es arbitrary: i pos result)
  case (Cons e es)
  obtain x s where e: "e = (x, s)"
    by fastforce
  have s: "s = s_item K x"
    using Cons(2) e by (simp add: stored_ok_def)
  note pushed = push_item_ok [OF B Cons(3), of x]
  show ?case
    using Cons(1) [OF _ pushed(1), where i = "i + 1" and pos = "d_add D pos s"] Cons(2,3) pushed(2) e s
    by (auto simp: Let_def split: prod.splits)
qed simp

context tree_dimension
begin

lemma slice_children_ok:
  assumes B: "branching_ok K"
  shows "list_all (child_ok K h) cs \<Longrightarrow> valid pos \<Longrightarrow> advancing K D pos (child_items cs) \<Longrightarrow> tree_ok K result \<Longrightarrow>
    \<exists>m result'. slice_children K D target cs i pos result =
        (i + m, advance K D pos (child_items (take m cs)), result', m < length cs) \<and> m \<le> length cs \<and>
      tree_ok K result' \<and> tree_items result' = tree_items result @ child_items (take m cs) \<and>
      advance K D pos (child_items (take m cs)) \<le> max pos target"
proof (induction cs arbitrary: i pos result)
  case (Cons c cs)
  obtain d s where c: "c = (d, s)"
    by fastforce
  have child: "child_ok K h (d, s)" "list_all (child_ok K h) cs"
    using Cons(2) c by simp_all
  have e: "d_add D pos s = advance K D pos (node_items d)"
    using child_position [OF child(1) Cons(3)] by simp
  have rest: "valid (advance K D pos (node_items d))" "advancing K D (advance K D pos (node_items d)) (child_items cs)"
    using Cons(3,4) c by (simp_all add: advance_valid)
  have "Some d = None \<or> Some d = Some d \<and> node_ok K True (nd_height d) d"
    using child_okD [OF child(1)] node_ok_root node_ok_height by fastforce
  note pushed = push_tree_ok [OF B Cons(5) this]
  show ?case
  proof (cases "advance K D pos (node_items d) \<le> target")
    case True
    obtain m result' where IH: "slice_children K D target cs (i + 1) (advance K D pos (node_items d))
        (push_tree K result (Some d)) =
        (i + 1 + m, advance K D (advance K D pos (node_items d)) (child_items (take m cs)), result', m < length cs)"
      "m \<le> length cs" "tree_ok K result'"
      "tree_items result' = tree_items (push_tree K result (Some d)) @ child_items (take m cs)"
      "advance K D (advance K D pos (node_items d)) (child_items (take m cs)) \<le>
        max (advance K D pos (node_items d)) target"
      using Cons(1) [OF child(2) rest pushed(1), of "i + 1"] by blast
    have "slice_children K D target (c # cs) i pos result =
        (i + Suc m, advance K D pos (child_items (take (Suc m) (c # cs))), result', Suc m < length (c # cs))"
      using IH(1) True c e by (simp add: Let_def)
    moreover have "tree_items result' = tree_items result @ child_items (take (Suc m) (c # cs))"
      using IH(4) pushed(2) c by simp
    moreover have "advance K D pos (child_items (take (Suc m) (c # cs))) \<le> max pos target"
      using IH(5) True c by (auto simp: max_def split: if_splits)
    ultimately show ?thesis
      using IH(2,3) by (metis Suc_le_mono length_Cons)
  next
    case False
    then have "slice_children K D target (c # cs) i pos result =
        (i + 0, advance K D pos (child_items (take 0 (c # cs))), result, 0 < length (c # cs))"
      using c e by (simp add: Let_def)
    then show ?thesis
      using Cons(5) by (metis advance_simps(1) append_Nil2 child_items_simps(1) le0 max.cobounded1 take_0)
  qed
qed simp

end

text \<open>The work left: every round takes a node off, or goes from an inner node to a leaf.\<close>

function weight :: "('i, 's, 'n) node \<Rightarrow> nat" where
  "weight (Leaf n s es) = 1"
| "weight (Internal n h s cs) = 1 + sum_list (map (\<lambda>(c, s). weight c) cs)"
  by pat_completeness auto
termination
  by (relation "measure size") (simp_all add: child_size_pair del: node.size)

definition children_weight :: "(('i, 's, 'n) node \<times> 's) list \<Rightarrow> nat" where
  "children_weight cs = sum_list (map (\<lambda>c. weight (fst c)) cs)"

declare weight.simps(2) [simp del]

lemma weight_internal [simp]: "weight (Internal n h s cs) = 1 + children_weight cs"
  unfolding weight.simps children_weight_def case_prod_beta by (rule refl)

lemma children_weight_simps [simp]:
  "children_weight [] = 0" "children_weight (c # cs) = weight (fst c) + children_weight cs"
  "children_weight (cs @ ds) = children_weight cs + children_weight ds"
  by (simp_all add: children_weight_def)

fun level_weight :: "('i, 's, 'n) level \<Rightarrow> nat" where
  "level_weight (Leaf n s es, i) = 1"
| "level_weight (Internal n h s cs, i) = 1 + children_weight (drop i cs)"

definition rest_weight :: "('i, 's, 'n) level list \<Rightarrow> nat" where
  "rest_weight stack = sum_list (map (\<lambda>l. level_weight (fst l, snd l + 1)) stack)"

fun stack_work :: "('i, 's, 'n) level list \<Rightarrow> nat" where
  "stack_work [] = 0"
| "stack_work (l # rest) = 2 * (level_weight l + rest_weight rest) + (if is_leaf (fst l) then 0 else 1)"

lemma rest_weight_simps [simp]:
  "rest_weight [] = 0" "rest_weight ((node, i) # rest) = level_weight (node, i + 1) + rest_weight rest"
  by (simp_all add: rest_weight_def)

lemma left_path_work:
  "node_ok K r (nd_height node) node \<Longrightarrow>
     stack_work (fst (left_path node stack)) = 2 * (weight node + rest_weight stack)"
proof (induction node stack arbitrary: r rule: left_path.induct)
  case (1 n s es stack)
  then show ?case
    by (simp add: node_ok_leaf entries_fit_def)
next
  case (2 n h s cs stack)
  have cs: "cs \<noteq> []" "level_ok K (Internal n h s cs, 0)"
    using 2(2) by (auto simp: node_ok_internal level_ok_internal entries_fit_def)
  then obtain c ds where c: "cs = c # ds"
    by (cases cs) auto
  show ?case
    using 2(1) [OF cs(1)] inner_child(1) [OF cs(2), of 0] c by simp
qed

lemma level_weight_pos: "0 < level_weight l"
  by (cases l rule: level_weight.cases) simp_all

lemma ascend_work:
  "is_leaf (fst l) \<or> level_items l = [] \<Longrightarrow> stack_work (ascend (l # rest)) < stack_work (l # rest)"
  using level_weight_pos [of l] by (cases rest) (auto split: if_splits prod.splits)

definition slice_ok ::
  "('i, 's, 'n, 'p) tree_ops \<Rightarrow> ('d::linorder, 's) dimension \<Rightarrow> 'd \<Rightarrow> ('i, 's, 'n) level list \<Rightarrow> 'd \<Rightarrow>
     ('i, 's, 'n, 'p) sum_tree \<Rightarrow> ('i, 's, 'n) level list \<times> 'd \<times> ('i, 's, 'n, 'p) sum_tree \<times> bool \<Rightarrow> bool" where
  "slice_ok K D target stack pos result r \<longleftrightarrow>
     (case r of (stack', pos', result', returned) \<Rightarrow>
       let ys = slice_items K D target pos (pending stack) in
         stack_ok K stack' \<and> leaf_open stack' \<and> (returned \<longrightarrow> stack_settled stack') \<and>
         pending stack' = drop (length ys) (pending stack) \<and> pos' = advance K D pos ys \<and>
         tree_ok K result' \<and> tree_items result' = tree_items result @ ys)"

lemma slice_ok_step:
  assumes "slice_ok K D target stack1 (advance K D pos ys) result1 r"
    and "pending stack = ys @ pending stack1" "tree_items result1 = tree_items result @ ys"
    and "advancing K D pos ys" "advance K D pos ys \<le> target"
  shows "slice_ok K D target stack pos result r"
  using assms by (auto simp: slice_ok_def slice_items_all Let_def)

lemma slice_ok_same:
  assumes "slice_ok K D target stack1 pos result r" "pending stack = pending stack1"
  shows "slice_ok K D target stack pos result r"
  using assms by (simp add: slice_ok_def)

context tree_dimension
begin

lemma slice_leaf_case:
  assumes B: "branching_ok K" and ok: "stack_ok K ((Leaf n s es, i) # rest)" "tree_ok K result" "i < length es"
    and pos: "valid pos" "strictly_advancing K D pos (pending ((Leaf n s es, i) # rest))" "pos < target"
    and step: "slice_leaf K D target (drop i es) i pos result = (j, pos', result', stopped)"
  shows "if stopped then slice_ok K D target ((Leaf n s es, i) # rest) pos result ((Leaf n s es, j) # rest, pos', result', True)
    else stack_ok K (ascend ((Leaf n s es, j) # rest)) \<and> leaf_open (ascend ((Leaf n s es, j) # rest)) \<and>
      stack_work (ascend ((Leaf n s es, j) # rest)) < stack_work ((Leaf n s es, i) # rest) \<and>
      tree_ok K result' \<and> tree_items result' = tree_items result @ map fst (drop i es) \<and>
      pos' = advance K D pos (map fst (drop i es)) \<and> pos' \<le> target \<and>
      pending (ascend ((Leaf n s es, j) # rest)) = beyond rest"
proof -
  define ys where "ys = slice_items K D target pos (map fst (drop i es))"
  have es: "list_all (stored_ok K) es" "list_all (inner_ok K) rest"
    using ok(1) by (simp_all add: level_ok_leaf)
  have r: "j = i + length ys" "pos' = advance K D pos ys" "tree_ok K result'"
    "tree_items result' = tree_items result @ ys" "stopped \<longleftrightarrow> length ys < length es - i"
    using slice_leaf_ok [OF B list_all_drop [OF es(1), of i] ok(2), where i = i and D = D and target = target and pos = pos] step
    by (simp_all add: ys_def Let_def)
  show ?thesis
  proof (cases stopped)
    case True
    have "slice_items K D target pos (pending ((Leaf n s es, i) # rest)) = ys"
      using True r(5) slice_items_done [of K D target pos "map fst (drop i es)" "beyond rest"] ys_def by simp
    moreover have "level_ok K (Leaf n s es, j)" "j < length es"
      using ok(1) r(1,5) True by (simp_all add: level_ok_leaf)
    ultimately show ?thesis
      using True r es(2) by (simp add: slice_ok_def Let_def drop_map add.commute)
  next
    case False
    then have ys: "ys = map fst (drop i es)" "j = length es"
      using r(1,5) ok(3) slice_items_full [of "map fst (drop i es)" K D target pos]
        slice_items_le [of K D target pos "map fst (drop i es)"] by (simp_all add: ys_def)
    have "pos' \<le> target"
    proof -
      have "drop i es \<noteq> []"
        using ok(3) by simp
      then show ?thesis
        using ys(1) slice_items_last [of "map fst (drop i es)" K D target pos] r(2) by (simp add: ys_def)
    qed
    then show ?thesis
      using False ys r ascend_ok [OF es(2), of "(Leaf n s es, j)"] ascend_work [of "(Leaf n s es, j)" rest]
      by simp
  qed
qed

lemma slice_children_case:
  assumes B: "branching_ok K" and ok: "stack_ok K ((Internal n h s cs, i) # rest)" "tree_ok K result"
    and pos: "valid pos" "strictly_advancing K D pos (pending ((Internal n h s cs, i) # rest))" "pos < target"
    and step: "slice_children K D target (drop i cs) i pos result = (j, pos', result', straddles)"
  shows "let stack' = (if straddles then fst (left_path (fst (cs ! j)) ((Internal n h s cs, j) # rest))
        else ascend ((Internal n h s cs, j) # rest));
      ys = child_items (take (j - i) (drop i cs))
    in stack_ok K stack' \<and> leaf_open stack' \<and> stack_work stack' < stack_work ((Internal n h s cs, i) # rest) \<and>
      tree_ok K result' \<and> tree_items result' = tree_items result @ ys \<and>
      pos' = advance K D pos ys \<and> pos' \<le> target \<and> pending ((Internal n h s cs, i) # rest) = ys @ pending stack'"
proof -
  have cs: "list_all (child_ok K h) cs" "i \<le> length cs" "list_all (inner_ok K) rest"
    using ok(1) by (simp_all add: level_ok_internal)
  have adv: "advancing K D pos (child_items (drop i cs))"
    using pos(2) by (simp add: strictly_advancing_weak)
  obtain m where m: "j = i + m" "pos' = advance K D pos (child_items (take m (drop i cs)))"
    "straddles \<longleftrightarrow> m < length cs - i" "m \<le> length cs - i" "tree_ok K result'"
    "tree_items result' = tree_items result @ child_items (take m (drop i cs))" "pos' \<le> max pos target"
    using slice_children_ok [OF B list_all_drop [OF cs(1)] pos(1) adv ok(2), of target i] step by auto
  have target: "pos' \<le> target"
    using m(7) pos(3) by (simp add: max_def split: if_splits)
  have split: "child_items (drop i cs) = child_items (take m (drop i cs)) @ child_items (drop j cs)"
    using child_items_split [of m "drop i cs"] m(1) by (simp add: add.commute)
  have jk: "level_ok K (Internal n h s cs, j)"
    using ok(1) m(1,4) cs(2) by (simp add: level_ok_internal)
  have work: "children_weight (drop j cs) \<le> children_weight (drop i cs)"
    using arg_cong [OF append_take_drop_id [of m "drop i cs"], of children_weight] m(1) by (simp add: add.commute)
  show ?thesis
  proof (cases straddles)
    case True
    then have j: "j < length cs"
      using m by simp
    have inner: "list_all (inner_ok K) ((Internal n h s cs, j) # rest)"
      using jk j cs(3) by (simp add: inner_ok_internal)
    have "children_weight (drop j cs) = weight (fst (cs ! j)) + children_weight (drop (Suc j) cs)"
      by (metis Cons_nth_drop_Suc children_weight_simps(2) j)
    moreover obtain stack' found where path: "left_path (fst (cs ! j)) ((Internal n h s cs, j) # rest) = (stack', found)"
      by fastforce
    ultimately have "stack_work stack' < stack_work ((Internal n h s cs, i) # rest)"
      using left_path_work [OF inner_child(1) [OF jk j], of "(Internal n h s cs, j) # rest"] work by simp
    moreover have "stack_ok K stack'" "stack_settled stack'" "child_items (drop j cs) @ beyond rest = pending stack'"
      using left_path_ok [OF inner_child(1) [OF jk j] inner] path inner_child(2) [OF jk j] by simp_all
    ultimately show ?thesis
      using True m target split path stack_settled_open by (simp add: Let_def)
  next
    case False
    then have j: "j = length cs"
      using m cs(2) by simp
    let ?up = "ascend ((Internal n h s cs, j) # rest)"
    have "stack_ok K ?up" "leaf_open ?up" "pending ?up = beyond rest"
      using ascend_ok [OF cs(3), of "(Internal n h s cs, j)"] j by simp_all
    moreover have "stack_work ?up < stack_work ((Internal n h s cs, i) # rest)"
      using ascend_work [of "(Internal n h s cs, j)" rest] j by simp
    moreover have "m = j - i" "child_items (drop i cs) = child_items (take m (drop i cs))"
      using m(1) split j by simp_all
    ultimately show ?thesis
      using False m(2,5,6) target unfolding Let_def by simp
  qed
qed

end

text \<open>One round: it returns, or it goes on with less work, some items moved to the result.\<close>

definition goes_on ::
  "('i, 's, 'n, 'p) tree_ops \<Rightarrow> ('d::linorder, 's) dimension \<Rightarrow> 'd \<Rightarrow> ('i, 's, 'n) level list \<Rightarrow> 'd \<Rightarrow>
     ('i, 's, 'n, 'p) sum_tree \<Rightarrow> ('i, 's, 'n) level list \<Rightarrow> 'i list \<Rightarrow> ('i, 's, 'n, 'p) sum_tree \<Rightarrow> bool" where
  "goes_on K D target stack pos result up ys result' \<longleftrightarrow>
     slice_loop K D target stack pos result = slice_loop K D target up (advance K D pos ys) result' \<and>
     stack_ok K up \<and> leaf_open up \<and> stack_work up < stack_work stack \<and> tree_ok K result' \<and>
     tree_items result' = tree_items result @ ys \<and> advance K D pos ys \<le> target \<and> pending stack = ys @ pending up"

context tree_dimension
begin

lemma slice_round:
  assumes B: "branching_ok K" and stack: "stack_ok K ((node, i) # rest)" "leaf_open ((node, i) # rest)" "tree_ok K result"
    and pos: "valid pos" "strictly_advancing K D pos (pending ((node, i) # rest))" "pos < target"
  shows "(\<exists>r. slice_loop K D target ((node, i) # rest) pos result = Some r \<and>
      slice_ok K D target ((node, i) # rest) pos result r) \<or>
    (\<exists>up ys result'. goes_on K D target ((node, i) # rest) pos result up ys result')"
proof (cases node)
  case (Leaf n s es)
  obtain j pos' result' stopped where step: "slice_leaf K D target (drop i es) i pos result = (j, pos', result', stopped)"
    by (rule prod_cases4)
  have i: "i < length es"
    using stack(2) Leaf by simp
  note case1 = slice_leaf_case [OF B stack(1) [unfolded Leaf] stack(3) i pos(1) pos(2) [unfolded Leaf] pos(3) step]
  have unfold: "slice_loop K D target ((node, i) # rest) pos result =
      (if stopped then Some ((node, j) # rest, pos', result', True)
       else slice_loop K D target (ascend ((node, j) # rest)) pos' result')"
    using Leaf pos(3) step by (subst slice_loop.simps) simp
  show ?thesis
  proof (cases stopped)
    case True
    then show ?thesis
      using case1 Leaf unfold by simp
  next
    case False
    then have "goes_on K D target ((node, i) # rest) pos result (ascend ((node, j) # rest)) (map fst (drop i es)) result'"
      using case1 Leaf unfold by (auto simp: goes_on_def)
    then show ?thesis
      by blast
  qed
next
  case (Internal n h s cs)
  obtain j pos' result' straddles
    where step: "slice_children K D target (drop i cs) i pos result = (j, pos', result', straddles)"
    by (rule prod_cases4)
  define up where "up = (if straddles then fst (left_path (fst (cs ! j)) ((Internal n h s cs, j) # rest))
    else ascend ((Internal n h s cs, j) # rest))"
  have "slice_loop K D target ((node, i) # rest) pos result = slice_loop K D target up pos' result'"
    using Internal pos(3) step by (subst slice_loop.simps) (simp add: up_def)
  then have "goes_on K D target ((node, i) # rest) pos result up (child_items (take (j - i) (drop i cs))) result'"
    using slice_children_case [OF B stack(1) [unfolded Internal] stack(3) pos(1) pos(2) [unfolded Internal] pos(3) step,
        folded up_def] Internal
    unfolding Let_def goes_on_def by auto
  then show ?thesis
    by blast
qed

theorem slice_loop_ok:
  assumes B: "branching_ok K"
  shows "stack_ok K stack \<Longrightarrow> leaf_open stack \<Longrightarrow> tree_ok K result \<Longrightarrow> valid pos \<Longrightarrow>
    strictly_advancing K D pos (pending stack) \<Longrightarrow>
    \<exists>r. slice_loop K D target stack pos result = Some r \<and> slice_ok K D target stack pos result r"
proof (induction "stack_work stack" arbitrary: stack pos result rule: less_induct)
  case less
  show ?case
  proof (cases "stack = [] \<or> \<not> pos < target")
    case True
    then show ?thesis
      using less.prems slice_items_none [OF less.prems(5), of target]
      by (cases stack) (auto simp: slice_loop.simps slice_ok_def)
  next
    case False
    then obtain node i rest where stack: "stack = (node, i) # rest" "pos < target"
      by (cases stack) auto
    have "goes_on K D target stack pos result up ys result' \<Longrightarrow>
      \<exists>r. slice_loop K D target stack pos result = Some r \<and> slice_ok K D target stack pos result r" for up ys result'
    proof -
      assume "goes_on K D target stack pos result up ys result'"
      then have up: "slice_loop K D target stack pos result = slice_loop K D target up (advance K D pos ys) result'"
        "stack_ok K up" "leaf_open up" "stack_work up < stack_work stack" "tree_ok K result'"
        "tree_items result' = tree_items result @ ys" "advance K D pos ys \<le> target" "pending stack = ys @ pending up"
        by (simp_all add: goes_on_def)
      have adv: "strictly_advancing K D pos ys" "strictly_advancing K D (advance K D pos ys) (pending up)"
        "valid (advance K D pos ys)"
        using less.prems(4,5) up(8) by (simp_all add: advance_valid)
      obtain r where r: "slice_loop K D target up (advance K D pos ys) result' = Some r"
        "slice_ok K D target up (advance K D pos ys) result' r"
        using less.hyps [OF up(4,2,3,5) adv(3,2)] by blast
      have "slice_ok K D target stack pos result r"
        by (rule slice_ok_step [OF r(2) up(8,6) strictly_advancing_weak [OF adv(1)] up(7)])
      then show ?thesis
        using r(1) up(1) by auto
    qed
    then show ?thesis
      using slice_round [OF B less.prems(1) [unfolded stack(1)] less.prems(2) [unfolded stack(1)] less.prems(3,4)
          less.prems(5) [unfolded stack(1)] stack(2)] stack(1) by blast
  qed
qed

end

section \<open>Cursors on a tree\<close>

text \<open>Where a cursor stands is an index of the item list.\<close>

definition cursor_ok ::
  "('i, 's, 'n, 'p) tree_ops \<Rightarrow> ('d::linorder, 's) dimension \<Rightarrow> ('i, 's, 'n, 'p) sum_tree \<Rightarrow> nat \<Rightarrow>
     ('i, 's, 'n, 'd) cursor \<Rightarrow> bool" where
  "cursor_ok K D t k c \<longleftrightarrow> (cu_did_seek c \<or> st_root t = None) \<and> stack_ok K (cu_stack c) \<and> stack_settled (cu_stack c) \<and>
     k \<le> length (tree_items t) \<and> pending (cu_stack c) = drop k (tree_items t) \<and>
     cu_position c = advance K D (d_zero D) (take k (tree_items t))"

lemma cursor_ok_item: "cursor_ok K D t k c \<Longrightarrow> cursor_item c = (if k < length (tree_items t) then Some (tree_items t ! k) else None)"
proof -
  assume c: "cursor_ok K D t k c"
  show ?thesis
  proof (cases "k < length (tree_items t)")
    case True
    then have "pending (cu_stack c) = tree_items t ! k # drop (Suc k) (tree_items t)"
      using c Cons_nth_drop_Suc [OF True] by (simp add: cursor_ok_def)
    then show ?thesis
      using cursor_item_ok(1) [of K c] c True by (simp add: cursor_ok_def)
  next
    case False
    then show ?thesis
      using cursor_item_ok(1) [of K c] c by (simp add: cursor_ok_def)
  qed
qed

lemma cursor_ok_next:
  assumes "cursor_ok K D t k c" "k < length (tree_items t)"
  shows "cursor_ok K D t (k + 1) (fst (cursor_next D c))"
    "snd (cursor_next D c) \<longleftrightarrow> k + 1 < length (tree_items t)"
proof -
  have p: "pending (cu_stack c) = tree_items t ! k # drop (Suc k) (tree_items t)"
    using assms Cons_nth_drop_Suc [OF assms(2)] by (simp add: cursor_ok_def)
  have d: "cu_did_seek (fst (cursor_next D c)) = cu_did_seek c"
    by (simp add: cursor_next_def Let_def split: list.split node.split prod.split)
  have "take (k + 1) (tree_items t) = take k (tree_items t) @ [tree_items t ! k]"
    using assms(2) by (simp add: take_Suc_conv_app_nth)
  then show "cursor_ok K D t (k + 1) (fst (cursor_next D c))"
    "snd (cursor_next D c) \<longleftrightarrow> k + 1 < length (tree_items t)"
    using cursor_next_ok [OF _ _ p, of K D] assms d by (auto simp: cursor_ok_def case_prod_beta)
qed

lemma cursor_ok_new: "tree_ok K t \<Longrightarrow> cursor_ok K D t 0 (start_cursor t (new_cursor D))"
proof (cases "st_root t")
  case None
  then show ?thesis
    by (simp add: cursor_ok_def start_cursor_def new_cursor_def tree_items_def)
next
  case (Some root)
  assume t: "tree_ok K t"
  show ?thesis
    using left_path_ok [OF tree_ok_root [OF t Some], of "[]"] tree_items_root(1) [OF Some] Some
    by (simp add: cursor_ok_def start_cursor_def new_cursor_def case_prod_beta)
qed

lemma cursor_ok_started: "cursor_ok K D t k c \<Longrightarrow> start_cursor t c = c"
  by (auto simp: cursor_ok_def start_cursor_def split: option.splits)

context tree_dimension
begin

theorem cursor_ok_seek:
  assumes "tree_ok K t" "advancing K D (d_zero D) (tree_items t)"
  shows "cursor_ok K D t (fst (seek_items K D target b (d_zero D) (tree_items t))) (fst (cursor_seek D t target b))"
    "snd (cursor_seek D t target b) \<longleftrightarrow> snd (snd (seek_items K D target b (d_zero D) (tree_items t)))"
proof -
  obtain i q found where s: "seek_items K D target b (d_zero D) (tree_items t) = (i, q, found)"
    by (rule prod_cases3)
  have "i \<le> length (tree_items t)" "q = advance K D (d_zero D) (take i (tree_items t))"
    using seek_items_found [of K D target b "d_zero D" "tree_items t" i q]
      seek_items_missed [of K D target b "d_zero D" "tree_items t" i q] s by (cases found; auto)+
  then show "cursor_ok K D t (fst (seek_items K D target b (d_zero D) (tree_items t))) (fst (cursor_seek D t target b))"
    "snd (cursor_seek D t target b) \<longleftrightarrow> snd (snd (seek_items K D target b (d_zero D) (tree_items t)))"
    using cursor_seek_ok [OF assms s] s by (auto simp: cursor_ok_def)
qed

text \<open>The slice ends, and it is the run of items that end at or before the target.\<close>

theorem cursor_slice_ok:
  assumes B: "branching_ok K" and t: "strictly_advancing K D (d_zero D) (tree_items t)"
    and c: "cursor_ok K D t k c"
    and ys: "ys = slice_items K D target (cu_position c) (drop k (tree_items t))"
  shows "\<exists>c' result. cursor_slice K D t target c = Some (c', result) \<and> tree_ok K result \<and>
    tree_items result = ys \<and> cursor_ok K D t (k + length ys) c'"
proof -
  have pos: "cu_position c = advance K D (d_zero D) (take k (tree_items t))" "pending (cu_stack c) = drop k (tree_items t)"
    "k \<le> length (tree_items t)" "stack_ok K (cu_stack c)" "stack_settled (cu_stack c)"
    using c by (simp_all add: cursor_ok_def)
  have strict: "strictly_advancing K D (cu_position c) (pending (cu_stack c))"
    using t pos(1,2) by (metis append_take_drop_id strictly_advancing_append)
  have valid: "valid (cu_position c)"
    using pos(1) by (simp add: advance_valid zero_valid)
  have empty: "tree_ok K (empty_like t)" "tree_items (empty_like t) = []"
    by (simp_all add: empty_like_def)
  obtain stack pos' result returned where r: "slice_loop K D target (cu_stack c) (cu_position c) (empty_like t) =
      Some (stack, pos', result, returned)"
    "slice_ok K D target (cu_stack c) (cu_position c) (empty_like t) (stack, pos', result, returned)"
    using slice_loop_ok [OF B pos(4) stack_settled_open [OF pos(5)] empty(1) valid strict, of target] by auto
  define final where "final = (if returned then stack else settle_at_leaf stack)"
  have s: "stack_ok K stack" "leaf_open stack" "returned \<longrightarrow> stack_settled stack" "pending stack = drop (k + length ys) (tree_items t)"
    "pos' = advance K D (cu_position c) ys" "tree_ok K result" "tree_items result = ys"
    using r(2) pos(2) ys empty(2) by (simp_all add: slice_ok_def Let_def add.commute)
  have final: "stack_ok K final" "stack_settled final" "pending final = drop (k + length ys) (tree_items t)"
    using s settle_ok [OF s(1,2)] by (auto simp: final_def)
  have len: "length ys \<le> length (tree_items t) - k"
    using slice_items_le [of K D target "cu_position c" "drop k (tree_items t)"] ys by simp
  have "take (k + length ys) (tree_items t) = take k (tree_items t) @ ys"
    using slice_items_take [of K D target "cu_position c" "drop k (tree_items t)"] ys by (simp add: take_add)
  then have "cursor_ok K D t (k + length ys) (c\<lparr>cu_stack := final, cu_position := pos'\<rparr>)"
    using c final len pos(1,3) s(5) by (simp add: cursor_ok_def)
  then show ?thesis
    using r(1) s(6,7) cursor_ok_started [OF c] by (simp add: cursor_slice_def final_def)
qed

text \<open>The suffix is everything to come.\<close>

lemma suffix_leaf_ok:
  assumes B: "branching_ok K"
  shows "list_all (stored_ok K) es \<Longrightarrow> tree_ok K result \<Longrightarrow>
    (case suffix_leaf K D es pos result of (pos', result') \<Rightarrow>
      pos' = advance K D pos (map fst es) \<and> tree_ok K result' \<and> tree_items result' = tree_items result @ map fst es)"
proof (induction es arbitrary: pos result)
  case (Cons e es)
  obtain x s where e: "e = (x, s)"
    by fastforce
  have s: "s = s_item K x"
    using Cons(2) e by (simp add: stored_ok_def)
  note pushed = push_item_ok [OF B Cons(3), of x]
  show ?case
    using Cons(1) [OF _ pushed(1), where pos = "d_add D pos s"] Cons(2) pushed(2) e s by (auto split: prod.splits)
qed simp

lemma suffix_children_ok:
  assumes B: "branching_ok K"
  shows "list_all (child_ok K h) cs \<Longrightarrow> valid pos \<Longrightarrow> tree_ok K result \<Longrightarrow>
    (case suffix_children K D cs pos result of (pos', result') \<Rightarrow>
      pos' = advance K D pos (child_items cs) \<and> tree_ok K result' \<and> tree_items result' = tree_items result @ child_items cs)"
proof (induction cs arbitrary: pos result)
  case (Cons c cs)
  obtain d s where c: "c = (d, s)"
    by fastforce
  have child: "child_ok K h (d, s)" "list_all (child_ok K h) cs"
    using Cons(2) c by simp_all
  have e: "d_add D pos s = advance K D pos (node_items d)"
    using child_position [OF child(1) Cons(3)] by simp
  have "Some d = None \<or> Some d = Some d \<and> node_ok K True (nd_height d) d"
    using child_okD [OF child(1)] node_ok_root node_ok_height by fastforce
  note pushed = push_tree_ok [OF B Cons(4) this]
  show ?case
    using Cons(1) [OF child(2) advance_valid [OF Cons(3)] pushed(1), of "node_items d"] pushed(2) c e
    by (auto split: prod.splits)
qed simp

lemma suffix_loop_ok:
  assumes B: "branching_ok K"
  shows "stack_ok K stack \<Longrightarrow> valid pos \<Longrightarrow> tree_ok K result \<Longrightarrow>
    (case suffix_loop K D stack pos result of (pos', result') \<Rightarrow>
      pos' = advance K D pos (pending stack) \<and> tree_ok K result' \<and>
      tree_items result' = tree_items result @ pending stack)"
proof (induction "length stack" arbitrary: stack pos result rule: less_induct)
  case less
  show ?case
  proof (cases stack)
    case (Cons l rest)
    obtain node i where l: "l = (node, i)"
      by fastforce
    define up where "up = ascend ((node, nd_count node) # rest)"
    have up: "stack_ok K up" "pending up = beyond rest" "length up < length stack"
      using ascend_ok [of K rest "(node, nd_count node)"] less.prems(1) Cons l
      by (cases node; simp add: up_def)+
    obtain pos' result' where step: "suffix_loop K D stack pos result = suffix_loop K D up pos' result'"
      "pos' = advance K D pos (level_items l)" "tree_ok K result'" "tree_items result' = tree_items result @ level_items l"
    proof (cases node)
      case (Leaf n s es)
      have "list_all (stored_ok K) (drop i es)"
        using less.prems(1) Cons l Leaf by (simp add: level_ok_leaf list_all_drop)
      from suffix_leaf_ok [OF B this less.prems(3), of pos] show ?thesis
        using that Cons l Leaf by (auto simp: up_def split: prod.splits)
    next
      case (Internal n h s cs)
      have "list_all (child_ok K h) (drop i cs)"
        using less.prems(1) Cons l Internal by (simp add: level_ok_internal list_all_drop)
      from suffix_children_ok [OF B this less.prems(2,3)] show ?thesis
        using that Cons l Internal by (auto simp: up_def split: prod.splits)
    qed
    show ?thesis
      using less.hyps [OF up(3,1) _ step(3), of pos'] step(1,2,4) up(2) less.prems(2) Cons
      by (simp add: advance_valid case_prod_beta)
  qed (use less.prems in simp)
qed

theorem cursor_suffix_ok:
  assumes "branching_ok K" "cursor_ok K D t k c"
  shows "case cursor_suffix K D t c of (c', result) \<Rightarrow>
    tree_ok K result \<and> tree_items result = drop k (tree_items t) \<and> cursor_ok K D t (length (tree_items t)) c'"
proof -
  have c: "stack_ok K (cu_stack c)" "valid (cu_position c)" "pending (cu_stack c) = drop k (tree_items t)"
    "cu_position c = advance K D (d_zero D) (take k (tree_items t))" "cu_did_seek c \<or> st_root t = None"
    using assms(2) by (simp_all add: cursor_ok_def advance_valid zero_valid)
  have empty: "tree_ok K (empty_like t)" "tree_items (empty_like t) = []"
    by (simp_all add: empty_like_def)
  have "advance K D (d_zero D) (tree_items t) = advance K D (cu_position c) (drop k (tree_items t))"
    using c(4) by (metis advance_simps(3) append_take_drop_id)
  then show ?thesis
    using suffix_loop_ok [OF assms(1) c(1,2) empty(1)] c(3,5) empty(2) cursor_ok_started [OF assms(2)]
    by (auto simp: cursor_suffix_def cursor_ok_def Let_def split: prod.splits)
qed

end

end
