(* ===== verification/Fragment_Tree.thy ===== *)
theory Fragment_Tree
  imports Fragments Tree_Cursor_Spec
begin

text \<open>
  The fragment tree of the buffer: the tree of \<open>crdt/SumTree.h\<close> over \<open>crdt/Fragment.h\<close> with
  branching factor 6 and stable node identities, and three of the dimensions it is searched by. The
  offsets are 32-bit and wrap around, the rank is 64-bit. By rank a position is an index of the list
  of fragments, so every operation of the tree at a rank is the operation of the list.
  \<open>VisibleUtf16Offset\<close> compares its units only, which is no order of pairs, so seeks by it are not
  an instance.
\<close>

definition fragment_tree_ops :: "(fragment, fragment_summary, node_id, stable_ids) tree_ops" where
  "fragment_tree_ops =
     \<lparr>branching = 6, s_zero = summary_zero, s_add = summary_add, s_item = fragment_summary_of,
      alloc_id = stable_allocate, id_valid = node_id_valid, ids_valid = stable_valid\<rparr>"

definition visible_offset :: "(nat, fragment_summary) dimension" where
  "visible_offset = \<lparr>d_zero = 0, d_add = visible_offset_add\<rparr>"

definition full_offset :: "(nat, fragment_summary) dimension" where
  "full_offset = \<lparr>d_zero = 0, d_add = full_offset_add\<rparr>"

definition retained_run :: "(nat, fragment_summary) dimension" where
  "retained_run = \<lparr>d_zero = 0, d_add = retained_run_add\<rparr>"

type_synonym fragment_tree = "(fragment, fragment_summary, node_id, stable_ids) sum_tree"

lemma fragment_tree_branching [simp]: "branching_ok fragment_tree_ops"
  by (simp add: branching_ok_def fragment_tree_ops_def)

lemma u32_u64 [simp]: "u32 (u64 x) = u32 x"
  by (simp add: u32_def u64_def mod_mod_cancel)

lemma u32_add_left [simp]: "u32 (u32 x + y) = u32 (x + y)" "u32 (x + u32 y) = u32 (x + y)"
  "u32 (x + u64 y) = u32 (x + y)" "u32 (u64 x + y) = u32 (x + y)"
proof -
  show "u32 (u32 x + y) = u32 (x + y)" "u32 (x + u32 y) = u32 (x + y)"
    by (simp_all add: u32_def mod_simps)
  show "u32 (x + u64 y) = u32 (x + y)" "u32 (u64 x + y) = u32 (x + y)"
    by (metis u32_def mod_add_left_eq mod_add_right_eq u32_u64)+
qed

interpretation visible: tree_dimension fragment_tree_ops visible_offset "\<lambda>p. p < 2 ^ 32"
proof (unfold_locales, goal_cases)
  case (4 p s t)
  then show ?case
    by (simp add: visible_offset_def fragment_tree_ops_def visible_offset_add_def summary_add_def add.assoc)
qed (simp_all add: visible_offset_def fragment_tree_ops_def visible_offset_add_def summary_zero_def u32_def)

interpretation full: tree_dimension fragment_tree_ops full_offset "\<lambda>p. p < 2 ^ 32"
proof (unfold_locales, goal_cases)
  case (4 p s t)
  have "u32 (p + (u64 (fs_visible_bytes s + fs_visible_bytes t) + u32 (fs_deleted_bytes s + fs_deleted_bytes t))) =
    u32 (p + (fs_visible_bytes s + fs_deleted_bytes s) + (fs_visible_bytes t + fs_deleted_bytes t))"
    by (metis (no_types, opaque_lifting) add.assoc add.commute u32_add_left)
  then show ?case
    by (simp add: full_offset_def fragment_tree_ops_def full_offset_add_def summary_add_def)
qed (simp_all add: full_offset_def fragment_tree_ops_def full_offset_add_def summary_zero_def u32_def u64_def)

interpretation rank: tree_dimension fragment_tree_ops retained_run "\<lambda>p. p < 2 ^ 64"
  by unfold_locales
    (simp_all add: retained_run_def fragment_tree_ops_def retained_run_add_def summary_zero_def summary_add_def
      u64_def mod_simps add.assoc)

section \<open>Ranks are indices\<close>

lemma rank_step: "p + 1 < 2 ^ 64 \<Longrightarrow> d_add retained_run p (s_item fragment_tree_ops f) = p + 1"
  by (simp add: retained_run_def fragment_tree_ops_def retained_run_add_def fragment_summary_of_def u64_def)

lemma rank_zero [simp]: "d_zero retained_run = 0"
  by (simp add: retained_run_def)

lemma rank_advance: "p + length fs < 2 ^ 64 \<Longrightarrow> advance fragment_tree_ops retained_run p fs = p + length fs"
  by (induction fs arbitrary: p) (simp_all add: rank_step)

lemma rank_strict: "p + length fs < 2 ^ 64 \<Longrightarrow> strictly_advancing fragment_tree_ops retained_run p fs"
  by (induction fs arbitrary: p) (simp_all add: rank_step)

lemma rank_seek:
  "p + length fs < 2 ^ 64 \<Longrightarrow> p \<le> k \<Longrightarrow>
     seek_items fragment_tree_ops retained_run k BiasLeft p fs =
       (if k < p + length fs then (k - p, k, True) else (length fs, p + length fs, False))"
proof (induction fs arbitrary: p)
  case (Cons f fs)
  show ?case
  proof (cases "k = p")
    case False
    then show ?thesis
      using Cons(1) [of "p + 1"] Cons(2,3) by (auto simp: rank_step past_def)
  qed (use Cons(2) in \<open>simp add: rank_step past_def\<close>)
qed simp

lemma rank_slice:
  "p + length fs < 2 ^ 64 \<Longrightarrow> p \<le> k \<Longrightarrow> slice_items fragment_tree_ops retained_run k p fs = take (k - p) fs"
proof (induction fs arbitrary: p)
  case (Cons f fs)
  then show ?case
    by (cases "k = p") (auto simp: rank_step Let_def take_Cons' diff_Suc split: nat.splits)
qed simp

lemma rank_edit:
  assumes t: "tree_ok fragment_tree_ops t" "length (tree_items t) < 2 ^ 64"
    and a: "k < length (tree_items t)"
  shows "\<exists>t'. edit_item fragment_tree_ops retained_run k f BiasLeft t = Some t' \<and> tree_ok fragment_tree_ops t' \<and>
    tree_items t' = (tree_items t)[k := f (tree_items t ! k)]"
proof -
  have "seek_items fragment_tree_ops retained_run k BiasLeft (d_zero retained_run) (tree_items t) = (k, k, True)"
    using rank_seek [of 0 "tree_items t" k] t(2) a by simp
  from rank.edit_item_ok [OF t(1) _ this, of f] show ?thesis
    using rank_strict [of 0 "tree_items t"] t(2) by (simp add: strictly_advancing_weak)
qed

lemma rank_insert:
  assumes t: "tree_ok fragment_tree_ops t" "length (tree_items t) < 2 ^ 64"
    and a: "k \<le> length (tree_items t)"
  shows "tree_ok fragment_tree_ops (insert_item fragment_tree_ops retained_run k x BiasLeft t)"
    "tree_items (insert_item fragment_tree_ops retained_run k x BiasLeft t) = insert_at k x (tree_items t)"
  using rank.insert_item_ok [OF fragment_tree_branching t(1), of k x BiasLeft] rank_strict [of 0 "tree_items t"]
    rank_seek [of 0 "tree_items t" k] t(2) a
  by (auto simp: strictly_advancing_weak split: if_splits)

lemma rank_splice:
  assumes t: "tree_ok fragment_tree_ops t" "length (tree_items t) < 2 ^ 64"
    and a: "tree_ok fragment_tree_ops u" "m \<le> n" "n \<le> length (tree_items t)" "m < n \<or> tree_items u \<noteq> []"
  shows "\<exists>t'. splice_range fragment_tree_ops retained_run m n u t = Some t' \<and> tree_ok fragment_tree_ops t' \<and>
    tree_items t' = take m (tree_items t) @ tree_items u @ drop n (tree_items t)"
  using rank.splice_range_at [OF fragment_tree_branching t(1) _ a] rank_strict [of 0 "tree_items t"] t(2) a(2,3)
  by (simp add: rank_advance)

lemma rank_cursor:
  assumes t: "tree_ok fragment_tree_ops t" "length (tree_items t) < 2 ^ 64"
    and a: "k < length (tree_items t)"
  shows "cursor_ok fragment_tree_ops retained_run t k (fst (cursor_seek retained_run t k BiasLeft))"
  using rank.cursor_ok_seek(1) [OF t(1), of k BiasLeft] rank_strict [of 0 "tree_items t"]
    rank_seek [of 0 "tree_items t" k] t(2) a
  by (simp add: strictly_advancing_weak)

lemma rank_range:
  assumes t: "tree_ok fragment_tree_ops t" "length (tree_items t) < 2 ^ 64"
    and a: "k < length (tree_items t)" "k \<le> m"
  shows "\<exists>c result. cursor_slice fragment_tree_ops retained_run t m (fst (cursor_seek retained_run t k BiasLeft)) =
      Some (c, result) \<and> tree_ok fragment_tree_ops result \<and> tree_items result = take (m - k) (drop k (tree_items t)) \<and>
    cursor_item c = (if m < length (tree_items t) then Some (tree_items t ! m) else None)"
proof -
  let ?c = "fst (cursor_seek retained_run t k BiasLeft)"
  have c: "cursor_ok fragment_tree_ops retained_run t k ?c"
    by (rule rank_cursor [OF t a(1)])
  then have "cu_position ?c = k"
    using t(2) a(1) by (simp add: cursor_ok_def rank_advance)
  then have "take (m - k) (drop k (tree_items t)) =
      slice_items fragment_tree_ops retained_run m (cu_position ?c) (drop k (tree_items t))"
    using rank_slice [of k "drop k (tree_items t)" m] t(2) a by simp
  from rank.cursor_slice_ok [OF fragment_tree_branching _ c this] obtain c' result
    where r: "cursor_slice fragment_tree_ops retained_run t m ?c = Some (c', result)" "tree_ok fragment_tree_ops result"
      "tree_items result = take (m - k) (drop k (tree_items t))"
      "cursor_ok fragment_tree_ops retained_run t (k + length (take (m - k) (drop k (tree_items t)))) c'"
    using rank_strict [of 0 "tree_items t"] t(2) by auto
  moreover have "k + length (take (m - k) (drop k (tree_items t))) = min m (length (tree_items t))"
    using a by (auto simp: min_def)
  ultimately show ?thesis
    using cursor_ok_item [of fragment_tree_ops retained_run t "min m (length (tree_items t))" c'] by (simp add: r)
qed

section \<open>Visible offsets\<close>

definition visible_bytes :: "fragment list \<Rightarrow> nat" where
  "visible_bytes fs = sum_list (map (\<lambda>f. fs_visible_bytes (fragment_summary_of f)) fs)"

lemma visible_bytes_simps [simp]:
  "visible_bytes [] = 0" "visible_bytes (f # fs) = fs_visible_bytes (fragment_summary_of f) + visible_bytes fs"
  "visible_bytes (fs @ gs) = visible_bytes fs + visible_bytes gs"
  by (simp_all add: visible_bytes_def)

lemma visible_step:
  "p + fs_visible_bytes (fragment_summary_of f) < 2 ^ 32 \<Longrightarrow>
     d_add visible_offset p (s_item fragment_tree_ops f) = p + fs_visible_bytes (fragment_summary_of f)"
  by (simp add: visible_offset_def fragment_tree_ops_def visible_offset_add_def)

lemma visible_zero [simp]: "d_zero visible_offset = 0"
  by (simp add: visible_offset_def)

lemma visible_advance:
  "p + visible_bytes fs < 2 ^ 32 \<Longrightarrow>
     advance fragment_tree_ops visible_offset p fs = p + visible_bytes fs \<and> advancing fragment_tree_ops visible_offset p fs"
  by (induction fs arbitrary: p) (simp_all add: visible_step)

lemma visible_seek:
  assumes t: "tree_ok fragment_tree_ops t" "visible_bytes (tree_items t) < 2 ^ 32" and target: "target < visible_bytes (tree_items t)"
  shows "\<exists>before f after. tree_items t = before @ f # after \<and> visible_bytes before \<le> target \<and>
    target < visible_bytes before + fs_visible_bytes (fragment_summary_of f) \<and>
    cursor_item (fst (cursor_seek visible_offset t target BiasLeft)) = Some f \<and>
    cu_position (fst (cursor_seek visible_offset t target BiasLeft)) = visible_bytes before"
proof -
  let ?xs = "tree_items t" and ?c = "fst (cursor_seek visible_offset t target BiasLeft)"
  have all: "advance fragment_tree_ops visible_offset 0 ?xs = visible_bytes ?xs" "advancing fragment_tree_ops visible_offset 0 ?xs"
    using visible_advance [of 0 ?xs] t(2) by simp_all
  obtain i q found where s: "seek_items fragment_tree_ops visible_offset target BiasLeft 0 ?xs = (i, q, found)"
    by (rule prod_cases3)
  have "?xs \<noteq> []"
    using target by auto
  then have found
    using seek_found_iff [OF all(2), of target BiasLeft] s all(1) target by (simp add: past_def)
  with s have s: "seek_items fragment_tree_ops visible_offset target BiasLeft 0 ?xs = (i, q, True)"
    by simp
  have i: "i < length ?xs" "q = advance fragment_tree_ops visible_offset 0 (take i ?xs)"
    using seek_items_found [OF s] by simp_all
  have split: "?xs = take i ?xs @ ?xs ! i # drop (Suc i) ?xs"
    by (rule id_take_nth_drop [OF i(1)])
  have total: "visible_bytes ?xs = visible_bytes (take i ?xs) + fs_visible_bytes (fragment_summary_of (?xs ! i)) +
      visible_bytes (drop (Suc i) ?xs)"
    by (subst split) simp
  then have q: "q = visible_bytes (take i ?xs)"
    using visible_advance [of 0 "take i ?xs"] t(2) i(2) by simp
  have "d_add visible_offset q (s_item fragment_tree_ops (?xs ! i)) = q + fs_visible_bytes (fragment_summary_of (?xs ! i))"
    using visible_step q total t(2) by simp
  then have "target < q + fs_visible_bytes (fragment_summary_of (?xs ! i))" "q \<le> target"
    using seek_items_first [OF s] q by (auto simp: past_def)
  moreover have c: "cursor_ok fragment_tree_ops visible_offset t i ?c"
    using visible.cursor_ok_seek(1) [OF t(1), of target BiasLeft] all(2) s by simp
  ultimately show ?thesis
    using split q cursor_ok_item [OF c] i by (intro exI) (auto simp: cursor_ok_def)
qed

end
