(* ===== verification/Text_Buffer.thy ===== *)
theory Text_Buffer
  imports Fragment_Tree Run_Indexes Id_List
begin

text \<open>
  The text engine \<open>Buffer\<close> (\<open>Buffer.h\<close>, \<open>Buffer.cpp\<close>): its state, the lookups its operations
  share. The fragment tree is its item sequence: seeks by visible
  offset and by retained rank are list functions here, which \<open>Fragment_Tree\<close> shows the tree's
  cursors compute. The origin index, the deletion index and the run directory are derived from that
  sequence; the state keeps whether they are valid, and lookups through them are lookups in the
  sequence guarded by that flag. Node and run identities (64-bit, never reused) do not run out.
  Offsets are natural numbers: the visible text stays below \<open>2 ^ 32\<close> bytes. The calls of the change
  callback are counted in \<open>tb_changes\<close>.
\<close>

section \<open>State\<close>

record text_op_entry =
  te_timestamp :: identity
  te_op :: operation

record 'al text_buffer =
  tb_alloc :: 'al
  tb_version :: global
  tb_gaps :: gap_ledger
  tb_undo_map :: undo_map
  tb_reclamation :: reclamation_binding
  tb_fragments :: "fragment list"
  tb_indexes_valid :: bool
  tb_undo_stack :: "undo_group list"
  tb_retired :: "undo_group list"
  tb_retired_bytes :: nat
  tb_cursor :: nat
  tb_max_depth :: nat
  tb_undo_bytes :: nat
  tb_max_bytes :: nat
  tb_deferred :: "text_op_entry list"
  tb_deferred_actors :: "actor_id set"
  tb_deferred_count :: nat
  tb_deferred_bytes :: nat
  tb_deferred_budget :: deferred_budget
  tb_quarantined :: "(operation \<times> error_code) list"
  tb_quarantine_budget :: deferred_budget
  tb_quarantined_bytes :: nat
  tb_changes :: nat

definition new_buffer :: "'al \<Rightarrow> 'al text_buffer" where
  "new_buffer al =
     \<lparr>tb_alloc = al, tb_version = [], tb_gaps = empty_ledger, tb_undo_map = [],
      tb_reclamation = empty_binding, tb_fragments = [], tb_indexes_valid = True,
      tb_undo_stack = [], tb_retired = [], tb_retired_bytes = 0, tb_cursor = 0,
      tb_max_depth = 1000, tb_undo_bytes = 0, tb_max_bytes = 16 * 1024 * 1024, tb_deferred = [],
      tb_deferred_actors = {}, tb_deferred_count = 0, tb_deferred_bytes = 0,
      tb_deferred_budget = default_budget, tb_quarantined = [],
      tb_quarantine_budget = default_budget, tb_quarantined_bytes = 0, tb_changes = 0\<rparr>"

definition buffer_changed :: "'al text_buffer \<Rightarrow> 'al text_buffer" where
  "buffer_changed st = st\<lparr>tb_changes := tb_changes st + 1\<rparr>"

definition buffer_observe_remote :: "'al alloc_ops \<Rightarrow> identity \<Rightarrow> 'al text_buffer \<Rightarrow> 'al text_buffer" where
  "buffer_observe_remote A i st = st\<lparr>tb_alloc := alloc_observe A (tb_alloc st) (counter i)\<rparr>"

definition buffer_check_allocator :: "'al alloc_ops \<Rightarrow> 'al text_buffer \<Rightarrow> unit result" where
  "buffer_check_allocator A st =
     (if \<not> actor_valid (alloc_actor A (tb_alloc st)) then Err invalid_identity else Ok ())"

section \<open>Publishing fragments\<close>

definition refresh_fragment :: "undo_map \<Rightarrow> fragment \<Rightarrow> fragment" where
  "refresh_fragment m f =
     (let f1 = f\<lparr>fr_visible := fragment_compute_visible f m\<rparr>
      in if fr_index_ready f1 then f1 else rebuild_utf16_index f1)"

definition fragment_end :: "fragment \<Rightarrow> nat" where
  "fragment_end f = counter (fr_origin f) + fr_length f"

text \<open>
  The rows of the two indexes. Run identities only need to be non-zero here; the position plus one
  stands for the one the code hands out.
\<close>

definition origin_row :: "nat \<times> fragment \<Rightarrow> (actor_id \<times> nat) \<times> origin_interval" where
  "origin_row p =
     (case p of (run, f) \<Rightarrow>
        ((actor (fr_origin f), counter (fr_origin f)), \<lparr>oi_end = fragment_end f, oi_run = run\<rparr>))"

definition deletion_rows_of :: "nat \<times> fragment \<Rightarrow> (deletion_key \<times> incidence) list" where
  "deletion_rows_of p =
     (case p of (run, f) \<Rightarrow>
        map (\<lambda>d. ((d, actor (fr_origin f), counter (fr_origin f)),
            \<lparr>in_actor = actor (fr_origin f), in_first = counter (fr_origin f), in_end = fragment_end f,
             in_run = run\<rparr>)) (fr_deletions f))"

definition indexes_rebuild :: "fragment list \<Rightarrow> bool" where
  "indexes_rebuild frags =
     (let kept = filter (\<lambda>p. fr_length (snd p) \<noteq> 0) (enumerate 1 frags) in
      origin_rebuild (map origin_row kept) \<noteq> None \<and>
      deletion_rebuild (concat (map deletion_rows_of kept)) \<noteq> None \<and>
      length kept = length frags)"

definition set_fragments :: "fragment list \<Rightarrow> 'al text_buffer \<Rightarrow> 'al text_buffer" where
  "set_fragments frags st =
     st\<lparr>tb_fragments := map (refresh_fragment (tb_undo_map st)) frags,
        tb_indexes_valid := indexes_rebuild frags\<rparr>"

text \<open>The direct publication of the fast paths: the indexes stay valid.\<close>

definition publish_fragments :: "fragment list \<Rightarrow> 'al text_buffer \<Rightarrow> 'al text_buffer" where
  "publish_fragments frags st = st\<lparr>tb_fragments := frags\<rparr>"

section \<open>Lookups\<close>

text \<open>\<open>OriginIndex::locate\<close>, the run directory and the rank of the leaf slot: rank and offset.\<close>

definition locate_retained :: "'al text_buffer \<Rightarrow> identity \<Rightarrow> pos option" where
  "locate_retained st i =
     (if \<not> tb_indexes_valid st then None else index_find fragment_ops (tb_fragments st) i)"

definition frag_item :: "fragment \<Rightarrow> nat \<Rightarrow> identity" where
  "frag_item f off = Identity (actor (fr_origin f)) (counter (fr_origin f) + off)"

definition frag_holds :: "fragment \<Rightarrow> identity \<Rightarrow> bool" where
  "frag_holds f i \<longleftrightarrow> actor i = actor (fr_origin f) \<and> counter (fr_origin f) \<le> counter i \<and>
     counter i - counter (fr_origin f) < fr_length f"

fun descendant_loop :: "nat \<Rightarrow> 'al text_buffer \<Rightarrow> identity \<Rightarrow> identity \<Rightarrow> bool" where
  "descendant_loop 0 st item ancestor = False"
| "descendant_loop (Suc n) st item ancestor =
     (if actor item = actor ancestor \<and> counter item < counter ancestor then False
      else case locate_retained st item of
        None \<Rightarrow> False
      | Some (r, off) \<Rightarrow>
          let f = tb_fragments st ! r in
          if frag_holds f ancestor then counter ancestor < counter item
          else if off > 0 then descendant_loop n st (fr_origin f) ancestor
          else case parent (fr_link f) of
            None \<Rightarrow> False
          | Some p \<Rightarrow> if p = ancestor then True else descendant_loop n st p ancestor)"

definition is_descendant_identity :: "'al text_buffer \<Rightarrow> identity \<Rightarrow> identity \<Rightarrow> bool" where
  "is_descendant_identity st item ancestor =
     (if item = ancestor then True
      else if actor item = actor ancestor \<and> counter item < counter ancestor then False
      else descendant_loop (length (tb_fragments st) + 1) st item ancestor)"

text \<open>
  The number of scalars that start in the first \<open>byte_count\<close> bytes, and the byte offset of a scalar.
\<close>

function count_loop :: "bytes \<Rightarrow> nat \<Rightarrow> nat \<Rightarrow> nat \<Rightarrow> nat" where
  "count_loop s byte_count b chars =
     (if b < byte_count then count_loop s byte_count (b + frag_width (byte_at s b)) (chars + 1) else chars)"
  by pat_completeness auto
termination
  by (relation "measure (\<lambda>(s, n, b, c). n - b)") (use frag_width_pos in \<open>auto intro!: diff_less_mono2\<close>)

declare count_loop.simps [simp del]

definition count_utf8_chars :: "bytes \<Rightarrow> nat \<Rightarrow> nat" where
  "count_utf8_chars s byte_count = count_loop s byte_count 0 0"

definition char_to_byte_offset :: "bytes \<Rightarrow> nat \<Rightarrow> nat" where
  "char_to_byte_offset s char_offset = fst (prefix_loop s char_offset 0 0)"

definition frag_visible_bytes :: "fragment \<Rightarrow> nat" where
  "frag_visible_bytes f = (if fr_visible f then fr_byte_length f else 0)"

text \<open>
  The seek by visible offset with \<open>Bias::Left\<close>: the first fragment whose end is beyond the target,
  and the offset at which it starts.
\<close>

fun seek_visible :: "nat \<Rightarrow> nat \<Rightarrow> fragment list \<Rightarrow> nat \<Rightarrow> (nat \<times> nat) option" where
  "seek_visible i pos [] target = None"
| "seek_visible i pos (f # fs) target =
     (if target < pos + frag_visible_bytes f then Some (i, pos)
      else seek_visible (i + 1) (pos + frag_visible_bytes f) fs target)"

definition visible_length :: "'al text_buffer \<Rightarrow> nat" where
  "visible_length st = u32 (visible_bytes (tb_fragments st))"

definition visible_element_before_tree :: "'al text_buffer \<Rightarrow> nat \<Rightarrow> identity option" where
  "visible_element_before_tree st byte_offset =
     (if byte_offset = 0 then None
      else case seek_visible 0 0 (tb_fragments st) (byte_offset - 1) of
        None \<Rightarrow> None
      | Some (i, start) \<Rightarrow>
          let f = tb_fragments st ! i; local_byte = byte_offset - 1 - start in
          if \<not> fr_visible f \<or> fr_marker f then None
          else if local_byte \<ge> length (fr_text f) then None
          else let n = count_utf8_chars (fr_text f) (local_byte + 1) in
            if n = 0 \<or> n > fr_length f then None else Some (frag_item f (n - 1)))"

text \<open>The link and the rank of an insertion at a boundary between two retained runs.\<close>

definition simple_middle_insertion :: "'al text_buffer \<Rightarrow> nat \<Rightarrow> (link \<times> nat) option" where
  "simple_middle_insertion st byte_offset =
     (if \<not> tb_indexes_valid st \<or> byte_offset \<ge> visible_length st then None
      else
        let frags = tb_fragments st;
            left = visible_element_before_tree st byte_offset;
            successor = (case left of
                None \<Rightarrow> Some 0
              | Some l \<Rightarrow>
                  (case locate_retained st l of
                     None \<Rightarrow> None
                   | Some (r, off) \<Rightarrow> if off + 1 \<noteq> fr_length (frags ! r) then None else Some (r + 1)))
        in case successor of
             None \<Rightarrow> None
           | Some rank \<Rightarrow>
               if rank < length frags \<and> fr_length (frags ! rank) = 0 then None
               else
                 let right = (if rank < length frags then Some (frag_item (frags ! rank) 0) else None)
                 in case left of
                      None \<Rightarrow> if right = None then None else Some (Link right Left right, rank)
                    | Some l \<Rightarrow>
                        if right \<noteq> None \<and> is_descendant_identity st (the right) l
                        then Some (Link right Left right, rank)
                        else Some (Link (Some l) Right right, rank))"

section \<open>Fragment vectors\<close>

definition split_fragment_at :: "fragment list \<Rightarrow> nat \<Rightarrow> nat \<Rightarrow> fragment list" where
  "split_fragment_at frags idx offset =
     (case split_fragment (frags ! idx) (count_utf8_chars (fr_text (frags ! idx)) offset) of
        (h, t) \<Rightarrow> take idx frags @ [h, t] @ drop (idx + 1) frags)"

fun resolve_visible_loop :: "undo_map \<Rightarrow> nat \<Rightarrow> nat \<Rightarrow> fragment list \<Rightarrow> nat \<Rightarrow> nat \<times> nat" where
  "resolve_visible_loop m i acc [] byte_offset = (i, 0)"
| "resolve_visible_loop m i acc (f # fs) byte_offset =
     (if \<not> fragment_compute_visible f m then resolve_visible_loop m (i + 1) acc fs byte_offset
      else if acc + fr_byte_length f > byte_offset then (i, byte_offset - acc)
      else resolve_visible_loop m (i + 1) (acc + fr_byte_length f) fs byte_offset)"

definition resolve_visible_offset :: "'al text_buffer \<Rightarrow> fragment list \<Rightarrow> nat \<Rightarrow> nat \<times> nat" where
  "resolve_visible_offset st frags byte_offset = resolve_visible_loop (tb_undo_map st) 0 0 frags byte_offset"

fun element_before_loop :: "nat \<Rightarrow> fragment list \<Rightarrow> nat \<Rightarrow> identity option" where
  "element_before_loop seen [] start = None"
| "element_before_loop seen (f # fs) start =
     (if \<not> fr_visible f \<or> fr_marker f then element_before_loop seen fs start
      else if seen + fr_byte_length f \<ge> start
      then Some (frag_item f (count_utf8_chars (fr_text f) (start - seen) - 1))
      else element_before_loop (seen + fr_byte_length f) fs start)"

definition visible_element_before :: "fragment list \<Rightarrow> nat \<Rightarrow> identity option" where
  "visible_element_before frags start = (if start = 0 then None else element_before_loop 0 frags start)"

fun split_visible_loop :: "nat \<Rightarrow> fragment list \<Rightarrow> nat \<Rightarrow> fragment list" where
  "split_visible_loop seen [] off = []"
| "split_visible_loop seen (f # fs) off =
     (if \<not> fr_visible f then f # split_visible_loop seen fs off
      else if off > seen \<and> off < seen + fr_byte_length f
      then (case split_fragment f (count_utf8_chars (fr_text f) (off - seen)) of (h, t) \<Rightarrow> h # t # fs)
      else f # split_visible_loop (seen + fr_byte_length f) fs off)"

definition split_at_visible_offset :: "fragment list \<Rightarrow> nat \<Rightarrow> fragment list" where
  "split_at_visible_offset frags off = split_visible_loop 0 frags off"

end
