(* ===== verification/Text_History.thy ===== *)
theory Text_History
  imports Text_Buffer
begin

text \<open>
  The local undo history of the text engine (\<open>Buffer.cpp\<close>): the stack with its running byte
  charge, trimming into the retired groups, the retirement budgets, coalescing, snapshots and their
  restoration. Unlike the list engine, which recomputes the charge, the text engine keeps it up to
  date with every push and trim.
\<close>

section \<open>Trimming\<close>

definition buffer_retire :: "undo_group \<Rightarrow> 'al text_buffer \<Rightarrow> 'al text_buffer" where
  "buffer_retire g st =
     st\<lparr>tb_retired_bytes := tb_retired_bytes st + retirement_charge g, tb_retired := tb_retired st @ [g]\<rparr>"

definition buffer_drop_bytes :: "undo_group \<Rightarrow> 'al text_buffer \<Rightarrow> 'al text_buffer" where
  "buffer_drop_bytes g st = st\<lparr>tb_undo_bytes := tb_undo_bytes st - min (tb_undo_bytes st) (ug_retained_bytes g)\<rparr>"

definition buffer_trim_front :: "'al text_buffer \<Rightarrow> 'al text_buffer" where
  "buffer_trim_front st =
     (let g = hd (tb_undo_stack st); st1 = buffer_drop_bytes g (buffer_retire g st)
      in st1\<lparr>tb_undo_stack := tl (tb_undo_stack st1), tb_cursor := tb_cursor st1 - 1\<rparr>)"

lemma trim_front_stack [simp]: "tb_undo_stack (buffer_trim_front st) = tl (tb_undo_stack st)"
  by (simp add: buffer_trim_front_def buffer_retire_def buffer_drop_bytes_def Let_def)

function buffer_trim :: "'al text_buffer \<Rightarrow> 'al text_buffer" where
  "buffer_trim st =
     (if tb_undo_stack st \<noteq> [] \<and>
         (length (tb_undo_stack st) > tb_max_depth st \<or> tb_undo_bytes st > tb_max_bytes st)
      then buffer_trim (buffer_trim_front st)
      else st)"
  by pat_completeness auto
termination
  by (relation "measure (\<lambda>st. length (tb_undo_stack st))") auto

declare buffer_trim.simps [simp del]

definition commit_local_history :: "undo_group \<Rightarrow> 'al text_buffer \<Rightarrow> 'al text_buffer" where
  "commit_local_history g st =
     (let st1 = fold (\<lambda>old s. buffer_drop_bytes old (buffer_retire old s))
            (drop (tb_cursor st) (tb_undo_stack st)) st;
          stack = take (tb_cursor st1) (tb_undo_stack st1) @ [g];
          bytes = (if ug_retained_bytes g > U64_MAX - tb_undo_bytes st1 then U64_MAX
                   else tb_undo_bytes st1 + ug_retained_bytes g)
      in buffer_trim (st1\<lparr>tb_undo_stack := stack, tb_undo_bytes := bytes, tb_cursor := length stack\<rparr>))"

section \<open>Retirement budgets\<close>

definition buffer_budget_check :: "'al text_buffer \<Rightarrow> nat \<Rightarrow> nat \<Rightarrow> nat \<Rightarrow> unit result" where
  "buffer_budget_check st added_bytes added_groups count =
     (let existing = length (tb_retired st) in
      if existing > kMaxRetirementGroups \<or> added_groups > kMaxRetirementGroups - existing \<or>
         count > kMaxRetirementGroups - existing - added_groups \<or>
         added_bytes > kMaxRetirementBytes - min (tb_retired_bytes st) kMaxRetirementBytes
      then Err limit_exceeded else Ok ())"

definition check_retirement_budget_for_limits :: "'al text_buffer \<Rightarrow> nat \<Rightarrow> nat \<Rightarrow> unit result" where
  "check_retirement_budget_for_limits st depth bytes =
     (case limits_loop depth bytes (tb_undo_stack st) (tb_undo_bytes st) 0 0 (length (tb_undo_stack st)) of
        Inl e \<Rightarrow> Err e
      | Inr (added, groups, count) \<Rightarrow> buffer_budget_check st added groups count)"

text \<open>The redo tail that a new entry discards: what it leaves of the charge, and its own charge.\<close>

fun redo_tail_budget :: "undo_group list \<Rightarrow> nat \<Rightarrow> nat \<Rightarrow> nat \<Rightarrow> (nat \<times> nat \<times> nat) result" where
  "redo_tail_budget [] remaining added groups = Ok (remaining, added, groups)"
| "redo_tail_budget (g # gs) remaining added groups =
     (let remaining' = remaining - min remaining (ug_retained_bytes g) in
      case add_charge added (retirement_charge g) of
        None \<Rightarrow> Err limit_exceeded
      | Some added' \<Rightarrow> redo_tail_budget gs remaining' added' (groups + 1))"

definition check_retirement_budget_for_new_entry ::
  "'al text_buffer \<Rightarrow> nat \<Rightarrow> nat \<Rightarrow> nat \<Rightarrow> unit result" where
  "check_retirement_budget_for_new_entry st retained inserted_count deletion_count =
     (case redo_tail_budget (drop (tb_cursor st) (tb_undo_stack st)) (tb_undo_bytes st) 0 0 of
        Inl e \<Rightarrow> Err e
      | Inr (kept, added, groups) \<Rightarrow>
          let remaining = (if retained > U64_MAX - kept then U64_MAX else kept + retained)
          in case new_entry_loop (tb_max_depth st) (tb_max_bytes st) retained inserted_count deletion_count
                 (take (tb_cursor st) (tb_undo_stack st)) remaining added groups (tb_cursor st + 1) of
               Inl e \<Rightarrow> Err e
             | Inr (added', groups', count) \<Rightarrow> buffer_budget_check st added' groups' count)"

definition buffer_set_max_undo_depth :: "nat \<Rightarrow> 'al text_buffer \<Rightarrow> 'al text_buffer \<times> unit result" where
  "buffer_set_max_undo_depth depth st =
     (if depth > kMaxRetirementGroups then (st, Err limit_exceeded)
      else case check_retirement_budget_for_limits st depth (tb_max_bytes st) of
        Inl e \<Rightarrow> (st, Err e)
      | Inr _ \<Rightarrow> (buffer_trim (st\<lparr>tb_max_depth := depth\<rparr>), Ok ()))"

definition buffer_set_max_undo_bytes :: "nat \<Rightarrow> 'al text_buffer \<Rightarrow> 'al text_buffer \<times> unit result" where
  "buffer_set_max_undo_bytes bytes st =
     (case check_retirement_budget_for_limits st (tb_max_depth st) bytes of
        Inl e \<Rightarrow> (st, Err e)
      | Inr _ \<Rightarrow> (buffer_trim (st\<lparr>tb_max_bytes := bytes\<rparr>), Ok ()))"

section \<open>Coalescing and snapshots\<close>

definition buffer_coalesce_last_undo :: "'al text_buffer \<Rightarrow> 'al text_buffer \<times> bool" where
  "buffer_coalesce_last_undo st =
     (if tb_cursor st < 2 then (st, False)
      else
        let c = tb_cursor st; stack = tb_undo_stack st;
            latest = stack ! (c - 1); previous = stack ! (c - 2);
            merged = previous\<lparr>
              ug_inserted := ug_inserted previous @ ug_inserted latest,
              ug_deletions := ug_deletions previous @ ug_deletions latest,
              ug_operation_ids := ug_operation_ids previous @ ug_operation_ids latest,
              ug_retained_bytes :=
                (if ug_retained_bytes latest > U64_MAX - ug_retained_bytes previous then U64_MAX
                 else ug_retained_bytes previous + ug_retained_bytes latest)\<rparr>
        in (st\<lparr>tb_undo_stack := take (c - 2) stack @ merged # drop c stack, tb_cursor := c - 1\<rparr>, True))"

definition buffer_history_snapshot :: "'al text_buffer \<Rightarrow> history_snapshot" where
  "buffer_history_snapshot st =
     \<lparr>hs_entries = tb_undo_stack st, hs_retired = tb_retired st, hs_cursor = tb_cursor st\<rparr>"

definition buffer_next_undo_group :: "'al text_buffer \<Rightarrow> undo_group option" where
  "buffer_next_undo_group st =
     (if tb_cursor st = 0 then None else Some (hs_entries (buffer_history_snapshot st) ! (tb_cursor st - 1)))"

definition buffer_next_redo_group :: "'al text_buffer \<Rightarrow> undo_group option" where
  "buffer_next_redo_group st =
     (if tb_cursor st \<ge> length (tb_undo_stack st) then None
      else Some (hs_entries (buffer_history_snapshot st) ! tb_cursor st))"

definition buffer_acknowledge_retirements ::
  "identity list \<Rightarrow> 'al text_buffer \<Rightarrow> 'al text_buffer \<times> unit result" where
  "buffer_acknowledge_retirements group_ids st =
     (case ack_check (tb_retired st) [] group_ids of
        Inl e \<Rightarrow> (st, Err e)
      | Inr _ \<Rightarrow>
          (st\<lparr>tb_retired_bytes := tb_retired_bytes st -
                sum_list (map retirement_charge
                  (filter (\<lambda>g. ug_group_id g \<in> set group_ids) (tb_retired st))),
              tb_retired := filter (\<lambda>g. ug_group_id g \<notin> set group_ids) (tb_retired st)\<rparr>, Ok ()))"

definition buffer_local_id :: "'al alloc_ops \<Rightarrow> 'al text_buffer \<Rightarrow> identity \<Rightarrow> bool" where
  "buffer_local_id A st i \<longleftrightarrow>
     actor i = alloc_actor A (tb_alloc st) \<and> counter i \<noteq> 0 \<and>
     counter i \<le> get (tb_version st) (alloc_actor A (tb_alloc st)) \<and> \<not> gap_contains (tb_gaps st) i"

definition buffer_group_valid :: "'al alloc_ops \<Rightarrow> 'al text_buffer \<Rightarrow> undo_group \<Rightarrow> bool" where
  "buffer_group_valid A st g \<longleftrightarrow>
     buffer_local_id A st (ug_group_id g) \<and> ug_operation_ids g \<noteq> [] \<and>
     list_all (buffer_local_id A st) (ug_operation_ids g) \<and>
     list_all (buffer_local_id A st) (ug_inserted g) \<and> list_all (buffer_local_id A st) (ug_deletions g)"

fun buffer_restore_active :: "'al alloc_ops \<Rightarrow> 'al text_buffer \<Rightarrow> nat \<Rightarrow> undo_group list \<Rightarrow> nat result" where
  "buffer_restore_active A st bytes [] = Ok bytes"
| "buffer_restore_active A st bytes (g # gs) =
     (if ug_retained_bytes g > tb_max_bytes st - min bytes (tb_max_bytes st) then Err limit_exceeded
      else if \<not> buffer_group_valid A st g then Err history_unavailable
      else buffer_restore_active A st (bytes + ug_retained_bytes g) gs)"

fun buffer_restore_retired :: "'al alloc_ops \<Rightarrow> 'al text_buffer \<Rightarrow> nat \<Rightarrow> undo_group list \<Rightarrow> nat result" where
  "buffer_restore_retired A st bytes [] = Ok bytes"
| "buffer_restore_retired A st bytes (g # gs) =
     (case add_charge bytes (retirement_charge g) of
        None \<Rightarrow> Err limit_exceeded
      | Some bytes' \<Rightarrow>
          if \<not> buffer_group_valid A st g then Err history_unavailable
          else buffer_restore_retired A st bytes' gs)"

definition buffer_restore_history ::
  "'al alloc_ops \<Rightarrow> history_snapshot \<Rightarrow> 'al text_buffer \<Rightarrow> 'al text_buffer \<times> unit result" where
  "buffer_restore_history A snap st =
     (if hs_cursor snap > length (hs_entries snap) \<or> length (hs_entries snap) > tb_max_depth st \<or>
         length (hs_retired snap) > kMaxRetirementGroups \<or>
         length (hs_entries snap) > kMaxRetirementGroups - length (hs_retired snap)
      then (st, Err malformed)
      else case buffer_restore_active A st 0 (hs_entries snap) of
        Inl e \<Rightarrow> (st, Err e)
      | Inr bytes \<Rightarrow>
          (case buffer_restore_retired A st 0 (hs_retired snap) of
             Inl e \<Rightarrow> (st, Err e)
           | Inr retired_bytes \<Rightarrow>
               (st\<lparr>tb_undo_stack := hs_entries snap, tb_retired := hs_retired snap,
                   tb_retired_bytes := retired_bytes, tb_cursor := hs_cursor snap,
                   tb_undo_bytes := bytes\<rparr>, Ok ())))"

section \<open>What the history touches\<close>

text \<open>Everything but the history: the document, the clock, the queues.\<close>

definition same_document :: "'al text_buffer \<Rightarrow> 'al text_buffer \<Rightarrow> bool" where
  "same_document s t \<longleftrightarrow>
     tb_alloc t = tb_alloc s \<and>
     tb_version t = tb_version s \<and>
     tb_gaps t = tb_gaps s \<and>
     tb_undo_map t = tb_undo_map s \<and>
     tb_reclamation t = tb_reclamation s \<and>
     tb_fragments t = tb_fragments s \<and>
     tb_indexes_valid t = tb_indexes_valid s \<and>
     tb_max_depth t = tb_max_depth s \<and>
     tb_max_bytes t = tb_max_bytes s \<and>
     tb_deferred t = tb_deferred s \<and>
     tb_deferred_actors t = tb_deferred_actors s \<and>
     tb_deferred_count t = tb_deferred_count s \<and>
     tb_deferred_bytes t = tb_deferred_bytes s \<and>
     tb_deferred_budget t = tb_deferred_budget s \<and>
     tb_quarantined t = tb_quarantined s \<and>
     tb_quarantine_budget t = tb_quarantine_budget s \<and>
     tb_quarantined_bytes t = tb_quarantined_bytes s \<and>
     tb_changes t = tb_changes s"

lemma same_document_refl [simp]: "same_document s s"
  by (simp add: same_document_def)

lemma same_document_trans: "same_document s t \<Longrightarrow> same_document t u \<Longrightarrow> same_document s u"
  by (simp add: same_document_def)

lemma same_document_retire: "same_document s (buffer_retire g s)" "same_document s (buffer_drop_bytes g s)"
  by (simp_all add: same_document_def buffer_retire_def buffer_drop_bytes_def)

lemma same_document_trim: "same_document s (buffer_trim s)"
proof (induction s rule: buffer_trim.induct)
  case (1 st)
  have "same_document st (buffer_trim_front st)"
    by (simp add: same_document_def buffer_trim_front_def buffer_retire_def buffer_drop_bytes_def Let_def)
  then show ?case
    using 1 by (subst buffer_trim.simps) (auto intro: same_document_trans)
qed

lemma same_document_discard:
  "same_document s (fold (\<lambda>old s. buffer_drop_bytes old (buffer_retire old s)) gs s)"
proof (induction gs arbitrary: s)
  case (Cons g gs)
  have "same_document s (buffer_drop_bytes g (buffer_retire g s))"
    using same_document_trans [OF same_document_retire(1) same_document_retire(2)] .
  then show ?case
    using same_document_trans [OF _ Cons] by simp
qed simp

lemma same_document_commit: "same_document s (commit_local_history g s)"
proof -
  let ?s1 = "fold (\<lambda>old s. buffer_drop_bytes old (buffer_retire old s)) (drop (tb_cursor s) (tb_undo_stack s)) s"
  have "same_document s (?s1\<lparr>tb_undo_stack := st, tb_undo_bytes := b, tb_cursor := c\<rparr>)" for st b c
    using same_document_discard [of s "drop (tb_cursor s) (tb_undo_stack s)"] by (simp add: same_document_def)
  then show ?thesis
    unfolding commit_local_history_def Let_def using same_document_trim same_document_trans by blast
qed

lemma commit_simps [simp]:
  "tb_alloc (commit_local_history g s) = tb_alloc s"
  "tb_version (commit_local_history g s) = tb_version s"
  "tb_gaps (commit_local_history g s) = tb_gaps s"
  "tb_undo_map (commit_local_history g s) = tb_undo_map s"
  "tb_reclamation (commit_local_history g s) = tb_reclamation s"
  "tb_fragments (commit_local_history g s) = tb_fragments s"
  "tb_indexes_valid (commit_local_history g s) = tb_indexes_valid s"
  "tb_max_depth (commit_local_history g s) = tb_max_depth s"
  "tb_max_bytes (commit_local_history g s) = tb_max_bytes s"
  "tb_deferred (commit_local_history g s) = tb_deferred s"
  "tb_deferred_actors (commit_local_history g s) = tb_deferred_actors s"
  "tb_deferred_count (commit_local_history g s) = tb_deferred_count s"
  "tb_deferred_bytes (commit_local_history g s) = tb_deferred_bytes s"
  "tb_deferred_budget (commit_local_history g s) = tb_deferred_budget s"
  "tb_quarantined (commit_local_history g s) = tb_quarantined s"
  "tb_quarantine_budget (commit_local_history g s) = tb_quarantine_budget s"
  "tb_quarantined_bytes (commit_local_history g s) = tb_quarantined_bytes s"
  "tb_changes (commit_local_history g s) = tb_changes s"
  using same_document_commit [of s g] by (simp_all add: same_document_def)

end
