(* ===== verification/Text_Edits.thy ===== *)
theory Text_Edits
  imports Text_History
begin

text \<open>
  The local edits of the text engine (\<open>Buffer.cpp\<close>): the direct publications that avoid copying the
  document, the general placement they fall back to, marker operations, undo and redo. A direct
  publication is a function to an option: \<open>None\<close> is the refusal that leaves the state as it was.
  The tree, the directories and the index rows it stages are derived from the fragments, so only the
  checks that look at fragments and identities appear; the checks that the staged tree and
  directories agree with each other cannot fail and are left out.
\<close>

section \<open>Direct insertions\<close>

text \<open>\<open>OriginIndex::insert\<close> and \<open>DeletionIndex::insert\<close> on valid indexes: no interval is in the way.\<close>

definition origin_room :: "fragment list \<Rightarrow> fragment \<Rightarrow> bool" where
  "origin_room frags f \<longleftrightarrow> actor_valid (actor (fr_origin f)) \<and> counter (fr_origin f) \<noteq> 0 \<and> fr_length f \<noteq> 0 \<and>
     list_all (\<lambda>g. actor (fr_origin g) \<noteq> actor (fr_origin f) \<or> fragment_end g \<le> counter (fr_origin f) \<or>
       fragment_end f \<le> counter (fr_origin g)) frags"

definition deletion_room :: "identity \<Rightarrow> fragment \<Rightarrow> bool" where
  "deletion_room d f \<longleftrightarrow> actor_valid (actor d) \<and> counter d \<noteq> 0 \<and> actor_valid (actor (fr_origin f)) \<and>
     counter (fr_origin f) \<noteq> 0 \<and> fr_length f \<noteq> 0 \<and> d \<notin> set (fr_deletions f)"

definition insertable :: "fragment \<Rightarrow> bool" where
  "insertable f \<longleftrightarrow> fr_length f \<noteq> 0 \<and> actor_valid (actor (fr_origin f)) \<and> counter (fr_origin f) \<noteq> 0 \<and>
     fr_length f \<le> U64_MAX - counter (fr_origin f)"

definition try_append_fragment :: "fragment \<Rightarrow> 'al text_buffer \<Rightarrow> fragment list option" where
  "try_append_fragment f st =
     (let frags = tb_fragments st; tail = last frags in
      if \<not> tb_indexes_valid st \<or> \<not> insertable f \<or> l_side (fr_link f) \<noteq> Right \<or>
         right_origin (fr_link f) \<noteq> None then None
      else if (if frags = [] then parent (fr_link f) \<noteq> None
               else fr_length tail = 0 \<or> parent (fr_link f) \<noteq> Some (frag_item tail (fr_length tail - 1)))
        then None
      else if \<not> origin_room frags f \<or> \<not> list_all (\<lambda>d. actor_valid (actor d) \<and> counter d \<noteq> 0) (fr_deletions f) \<or>
          \<not> distinct (fr_deletions f) then None
      else Some (frags @ [refresh_fragment (tb_undo_map st) f]))"

definition try_insert_fragment_at_rank :: "fragment \<Rightarrow> nat \<Rightarrow> 'al text_buffer \<Rightarrow> fragment list option" where
  "try_insert_fragment_at_rank f rank st =
     (let frags = tb_fragments st in
      if \<not> tb_indexes_valid st \<or> \<not> insertable f \<or> rank > length frags then None
      else if \<not> origin_room frags f \<or> \<not> list_all (\<lambda>d. actor_valid (actor d) \<and> counter d \<noteq> 0) (fr_deletions f) \<or>
          \<not> distinct (fr_deletions f) then None
      else Some (insert_at rank (refresh_fragment (tb_undo_map st) f) frags))"

section \<open>Direct deletions\<close>

definition delete_fragment :: "undo_map \<Rightarrow> identity \<Rightarrow> fragment \<Rightarrow> fragment" where
  "delete_fragment m d f =
     (let f1 = f\<lparr>fr_deletions := fr_deletions f @ [d]\<rparr> in f1\<lparr>fr_visible := fragment_compute_visible f1 m\<rparr>)"

definition shows_text :: "fragment \<Rightarrow> bool" where
  "shows_text f \<longleftrightarrow> fr_visible f \<and> \<not> fr_marker f \<and> fr_byte_length f \<noteq> 0"

definition run_intact :: "fragment \<Rightarrow> bool" where
  "run_intact f \<longleftrightarrow> fr_byte_length f = length (fr_text f) \<and> fr_length f \<noteq> 0 \<and>
     fr_length f \<le> U64_MAX - counter (fr_origin f)"

fun exact_targets :: "nat \<Rightarrow> nat \<Rightarrow> fragment list \<Rightarrow> nat \<Rightarrow> nat \<Rightarrow> nat list option" where
  "exact_targets idx pos [] covered end' = (if covered < end' then None else if covered = end' then Some [] else None)"
| "exact_targets idx pos (f # fs) covered end' =
     (if \<not> covered < end' then (if covered = end' then Some [] else None)
      else if shows_text f then
        (if pos \<noteq> covered \<or> fr_byte_length f > end' - covered \<or> \<not> run_intact f then None
         else map_option ((#) idx)
           (exact_targets (idx + 1) (pos + frag_visible_bytes f) fs (covered + fr_byte_length f) end'))
      else exact_targets (idx + 1) (pos + frag_visible_bytes f) fs covered end')"

text \<open>
  The packing of whole runs: refused when the intervals of different actors interleave, since the
  identities of the general path then sort differently.
\<close>

fun pack_exact :: "nat option \<Rightarrow> deletion_run list \<Rightarrow> fragment list \<Rightarrow> deletion_run list option" where
  "pack_exact previous_end packed [] = Some packed"
| "pack_exact previous_end packed (f # fs) =
     (if (case previous_end of Some e \<Rightarrow> counter (fr_origin f) < e | None \<Rightarrow> False) then None
      else if packed \<noteq> [] \<and> actor (dr_first (last packed)) = actor (fr_origin f) \<and>
          counter (dr_first (last packed)) + dr_count (last packed) = counter (fr_origin f)
      then (if fr_length f > 2 ^ 32 - 1 - dr_count (last packed) then None
            else pack_exact (Some (fragment_end f))
              (butlast packed @ [(last packed)\<lparr>dr_count := dr_count (last packed) + fr_length f\<rparr>]) fs)
      else pack_exact (Some (fragment_end f)) (packed @ [\<lparr>dr_first = fr_origin f, dr_count = fr_length f\<rparr>]) fs)"

definition try_delete_exact_visible_runs ::
  "nat \<Rightarrow> nat \<Rightarrow> identity \<Rightarrow> 'al text_buffer \<Rightarrow> (fragment list \<times> deletion_run list) option" where
  "try_delete_exact_visible_runs start end' d st =
     (let frags = tb_fragments st; m = tb_undo_map st in
      if \<not> tb_indexes_valid st \<or> start \<ge> end' then None
      else case seek_visible 0 0 frags start of
        None \<Rightarrow> None
      | Some (i, pos) \<Rightarrow>
          (case exact_targets i pos (drop i frags) start end' of
             None \<Rightarrow> None
           | Some targets \<Rightarrow>
               if targets = [] then None
               else case pack_exact None [] (sort_key fr_origin (map ((!) frags) targets)) of
                 None \<Rightarrow> None
               | Some runs \<Rightarrow>
                   if \<not> list_all (\<lambda>k. deletion_room d (frags ! k)) targets then None
                   else if list_ex (\<lambda>k. fr_visible (delete_fragment m d (frags ! k))) targets then None
                   else Some (map (\<lambda>k. if k \<in> set targets then delete_fragment m d (frags ! k) else frags ! k)
                     [0..<length frags], runs)))"

text \<open>The pieces of one covered run: what is kept before, what is deleted, what is kept after.\<close>

definition cut_pieces :: "undo_map \<Rightarrow> identity \<Rightarrow> fragment \<Rightarrow> nat \<Rightarrow> nat \<Rightarrow> fragment list option" where
  "cut_pieces m d f first_scalar last_scalar =
     (case (if first_scalar \<noteq> 0 then (case split_fragment f first_scalar of (h, t) \<Rightarrow> ([h], t)) else ([], f)) of
        (prefix, rest) \<Rightarrow>
          let n = last_scalar - first_scalar in
          if n = 0 \<or> n > fr_length rest then None
          else case (if n < fr_length rest then (case split_fragment rest n of (h, t) \<Rightarrow> (h, [t])) else (rest, [])) of
            (middle, suffix) \<Rightarrow>
              if fr_length middle \<noteq> n \<or> fr_visible (delete_fragment m d middle) then None
              else Some (prefix @ [delete_fragment m d middle] @ suffix))"

section \<open>Direct replacements\<close>

definition try_replace_exact_visible_run ::
  "nat \<Rightarrow> nat \<Rightarrow> fragment \<Rightarrow> link \<Rightarrow> nat \<Rightarrow> identity \<Rightarrow> 'al text_buffer \<Rightarrow>
     (fragment list \<times> deletion_run) option" where
  "try_replace_exact_visible_run start end' inserted l insertion_rank d st =
     (let frags = tb_fragments st; m = tb_undo_map st in
      if \<not> tb_indexes_valid st \<or> start \<ge> end' \<or> insertion_rank > length frags then None
      else case seek_visible 0 0 frags start of
        None \<Rightarrow> None
      | Some (rank, pos) \<Rightarrow>
          let old = frags ! rank; new = refresh_fragment m inserted in
          if pos \<noteq> start then None
          else if \<not> fr_visible old \<or> fr_marker old \<or> fr_byte_length old \<noteq> end' - start \<or> fr_length old = 0 \<or>
              fr_length old > U64_MAX - counter (fr_origin old) then None
          else if insertion_rank > rank then None
          else if \<not> fr_visible new \<or> \<not> insertable inserted \<or> fr_link inserted \<noteq> l then None
          else if \<not> deletion_room d old \<or> fr_visible (delete_fragment m d old) then None
          else if \<not> origin_room frags inserted then None
          else Some (insert_at insertion_rank new (frags[rank := delete_fragment m d old]),
            \<lparr>dr_first = fr_origin old, dr_count = fr_length old\<rparr>))"

definition try_replace_partial_visible_run ::
  "nat \<Rightarrow> nat \<Rightarrow> identity \<Rightarrow> bytes \<Rightarrow> nat \<Rightarrow> identity \<Rightarrow> 'al text_buffer \<Rightarrow>
     (fragment list \<times> deletion_run \<times> link) option" where
  "try_replace_partial_visible_run start end' inserted_origin inserted_text inserted_length d st =
     (let frags = tb_fragments st; m = tb_undo_map st in
      if \<not> tb_indexes_valid st \<or> start \<ge> end' \<or> inserted_length = 0 \<or> inserted_text = [] then None
      else case seek_visible 0 0 frags start of
        None \<Rightarrow> None
      | Some (rank, pos) \<Rightarrow>
          let old = frags ! rank in
          if \<not> fr_visible old \<or> fr_marker old then None
          else if start < pos \<or> end' > pos + fr_byte_length old \<or> \<not> run_intact old then None
          else
            let first_scalar = count_utf8_chars (fr_text old) (start - pos);
                end_scalar = count_utf8_chars (fr_text old) (end' - pos)
            in if end_scalar \<le> first_scalar \<or> end_scalar > fr_length old then None
               else if actor inserted_origin \<noteq> actor d \<or> counter inserted_origin = 0 \<or>
                   inserted_length > U64_MAX - counter inserted_origin then None
               else case (if first_scalar \<noteq> 0
                          then (let right = Some (frag_item old first_scalar)
                                in Some (Link right Left right, rank + 1))
                          else case simple_middle_insertion st start of
                            None \<Rightarrow> None
                          | Some (l, r) \<Rightarrow> if r > rank then None else Some (l, r)) of
                 None \<Rightarrow> None
               | Some (l, insertion_rank) \<Rightarrow>
                   (case cut_pieces m d old first_scalar end_scalar of
                      None \<Rightarrow> None
                    | Some pieces \<Rightarrow>
                        let new = (new_fragment inserted_origin l (u32 (length inserted_text)) inserted_length
                              inserted_text)\<lparr>fr_visible := True\<rparr>
                        in if \<not> deletion_room d old \<or> \<not> origin_room frags new then None
                           else Some (insert_at insertion_rank new (take rank frags @ pieces @ drop (rank + 1) frags),
                             \<lparr>dr_first = frag_item old first_scalar, dr_count = end_scalar - first_scalar\<rparr>, l)))"

text \<open>The visible runs a range covers: index, first scalar, end scalar.\<close>

fun collect_covered :: "nat \<Rightarrow> nat \<Rightarrow> fragment list \<Rightarrow> nat \<Rightarrow> nat \<Rightarrow> (nat \<times> nat \<times> nat) list option" where
  "collect_covered idx pos [] consumed end' =
     (if consumed < end' then None else if consumed = end' then Some [] else None)"
| "collect_covered idx pos (f # fs) consumed end' =
     (let continue = collect_covered (idx + 1) (pos + frag_visible_bytes f) fs in
      if \<not> consumed < end' then (if consumed = end' then Some [] else None)
      else if shows_text f then
        (if pos > consumed \<or> \<not> run_intact f then None
         else
           let local_start = consumed - pos; local_end = min (end' - pos) (fr_byte_length f) in
           if local_end \<le> local_start
           then (if pos + fr_byte_length f \<noteq> consumed then None else continue consumed end')
           else
             let first_scalar = count_utf8_chars (fr_text f) local_start;
                 last_scalar = count_utf8_chars (fr_text f) local_end
             in if last_scalar \<le> first_scalar \<or> last_scalar > fr_length f then None
                else map_option ((#) (idx, first_scalar, last_scalar))
                  (continue (consumed + (local_end - local_start)) end'))
      else continue consumed end')"

definition collect_covered_visible_runs ::
  "nat \<Rightarrow> nat \<Rightarrow> 'al text_buffer \<Rightarrow> (nat \<times> nat \<times> nat) list option" where
  "collect_covered_visible_runs start end' st =
     (if start \<ge> end' then None
      else case seek_visible 0 0 (tb_fragments st) start of
        None \<Rightarrow> None
      | Some (i, pos) \<Rightarrow>
          (case collect_covered i pos (drop i (tb_fragments st)) start end' of
             None \<Rightarrow> None | Some covered \<Rightarrow> if covered = [] then None else Some covered))"

fun pack_segments :: "deletion_run list \<Rightarrow> (identity \<times> nat) list \<Rightarrow> deletion_run list option" where
  "pack_segments packed [] = Some packed"
| "pack_segments packed ((i, n) # segments) =
     (if packed \<noteq> [] \<and> actor (dr_first (last packed)) = actor i \<and>
         counter (dr_first (last packed)) + dr_count (last packed) = counter i
      then (if n > 2 ^ 32 - 1 - dr_count (last packed) then None
            else pack_segments
              (butlast packed @ [(last packed)\<lparr>dr_count := dr_count (last packed) + n\<rparr>]) segments)
      else pack_segments (packed @ [\<lparr>dr_first = i, dr_count = n\<rparr>]) segments)"

fun all_pieces :: "undo_map \<Rightarrow> identity \<Rightarrow> fragment list \<Rightarrow> (nat \<times> nat \<times> nat) list \<Rightarrow>
    (nat \<times> fragment list) list option" where
  "all_pieces m d frags [] = Some []"
| "all_pieces m d frags ((i, a, b) # covered) =
     (case cut_pieces m d (frags ! i) a b of
        None \<Rightarrow> None
      | Some pieces \<Rightarrow> map_option ((#) (i, pieces)) (all_pieces m d frags covered))"

definition place_pieces :: "fragment list \<Rightarrow> (nat \<times> fragment list) list \<Rightarrow> fragment list" where
  "place_pieces frags table =
     concat (map (\<lambda>k. case map_of table k of None \<Rightarrow> [frags ! k] | Some pieces \<Rightarrow> pieces) [0..<length frags])"

definition publish_visible_run_deletions ::
  "(nat \<times> nat \<times> nat) list \<Rightarrow> identity \<Rightarrow> fragment option \<Rightarrow> nat \<Rightarrow> 'al text_buffer \<Rightarrow>
     (fragment list \<times> deletion_run list) option" where
  "publish_visible_run_deletions covered d inserted insertion_rank st =
     (let frags = tb_fragments st; m = tb_undo_map st in
      if \<not> tb_indexes_valid st \<or> covered = [] then None
      else if (case inserted of
                 None \<Rightarrow> insertion_rank \<noteq> 0
               | Some f \<Rightarrow> fr_length f = 0 \<or> fr_byte_length f \<noteq> length (fr_text f) \<or> counter (fr_origin f) = 0 \<or>
                   fr_length f > U64_MAX - counter (fr_origin f) \<or>
                   (if fst (snd (hd covered)) \<noteq> 0 then insertion_rank \<noteq> fst (hd covered) + 1
                    else insertion_rank > fst (hd covered)) \<or>
                   \<not> fr_visible (refresh_fragment m f)) then None
      else case all_pieces m d frags covered of
        None \<Rightarrow> None
      | Some table \<Rightarrow>
          if \<not> list_all (\<lambda>(i, a, b). deletion_room d (frags ! i)) covered then None
          else if (case inserted of None \<Rightarrow> False | Some f \<Rightarrow> \<not> origin_room frags f) then None
          else case pack_segments []
              (sort_key fst (map (\<lambda>(i, a, b). (frag_item (frags ! i) a, b - a)) covered)) of
            None \<Rightarrow> None
          | Some runs \<Rightarrow>
              Some (case inserted of
                      None \<Rightarrow> place_pieces frags table
                    | Some f \<Rightarrow> insert_at insertion_rank (refresh_fragment m f) (place_pieces frags table),
                    runs))"

definition try_replace_visible_runs ::
  "nat \<Rightarrow> nat \<Rightarrow> identity \<Rightarrow> bytes \<Rightarrow> nat \<Rightarrow> identity \<Rightarrow> 'al text_buffer \<Rightarrow>
     (fragment list \<times> deletion_run list \<times> link) option" where
  "try_replace_visible_runs start end' inserted_origin inserted_text inserted_length d st =
     (let frags = tb_fragments st in
      if \<not> tb_indexes_valid st \<or> start \<ge> end' \<or> inserted_length = 0 \<or> inserted_text = [] \<or>
         actor inserted_origin \<noteq> actor d \<or> counter inserted_origin = 0 \<or>
         inserted_length > U64_MAX - counter inserted_origin then None
      else case collect_covered_visible_runs start end' st of
        None \<Rightarrow> None
      | Some covered \<Rightarrow>
          let rank = fst (hd covered); first_scalar = fst (snd (hd covered)) in
          (case (if first_scalar \<noteq> 0
                 then (let right = Some (frag_item (frags ! rank) first_scalar)
                       in Some (Link right Left right, rank + 1))
                 else case simple_middle_insertion st start of
                   None \<Rightarrow> None
                 | Some (l, r) \<Rightarrow> if r > rank then None else Some (l, r)) of
             None \<Rightarrow> None
           | Some (l, insertion_rank) \<Rightarrow>
               map_option (\<lambda>(frags', runs). (frags', runs, l))
                 (publish_visible_run_deletions covered d
                   (Some (new_fragment inserted_origin l (u32 (length inserted_text)) inserted_length inserted_text))
                   insertion_rank st)))"

definition try_delete_visible_runs ::
  "nat \<Rightarrow> nat \<Rightarrow> identity \<Rightarrow> 'al text_buffer \<Rightarrow> (fragment list \<times> deletion_run list) option" where
  "try_delete_visible_runs start end' d st =
     (if \<not> tb_indexes_valid st \<or> start \<ge> end' then None
      else case collect_covered_visible_runs start end' st of
        None \<Rightarrow> None
      | Some covered \<Rightarrow> publish_visible_run_deletions covered d None 0 st)"

end
