(* ===== verification/Text_Local.thy ===== *)
theory Text_Local
  imports Text_Edits
begin

text \<open>
  The entry points of local edits in the text engine (\<open>Buffer.cpp\<close>): the validated edit with its
  direct publications and the general placement behind them, markers, undo and redo. A refused edit returns the state as it was; only a
  refused reservation may have moved the allocator.
\<close>

section \<open>The general placement\<close>

text \<open>The edit's parts: range, replacement, number of scalars; in ascending order of the range.\<close>

type_synonym edit_part = "(nat \<times> nat) \<times> bytes \<times> nat"

definition edit_parts :: "(nat \<times> nat) list \<Rightarrow> bytes list \<Rightarrow> edit_part list" where
  "edit_parts ranges new_text =
     sort_key (\<lambda>p. fst (fst p))
       (zip ranges (map (\<lambda>t. (t, count_utf8_chars t (u32 (length t)))) new_text))"

definition inserted_record :: "fragment \<Rightarrow> inserted_fragment" where
  "inserted_record f =
     \<lparr>if_origin = fr_origin f, if_link = fr_link f, if_content = fr_text f, if_length = fr_length f,
      if_marker = fr_marker f\<rparr>"

fun mint_inserts :: "fragment list \<Rightarrow> actor_id \<Rightarrow> nat \<Rightarrow> edit_part list \<Rightarrow> fragment list" where
  "mint_inserts frags a next_item [] = []"
| "mint_inserts frags a next_item (((start, end'), t, n) # parts) =
     (if t = [] then mint_inserts frags a next_item parts
      else (new_fragment (Identity a next_item) (mint_link fragment_ops frags (visible_element_before frags start))
              (u32 (length t)) n t)\<lparr>fr_visible := True\<rparr> # mint_inserts frags a (next_item + n) parts)"

fun mark_range :: "nat \<Rightarrow> nat \<Rightarrow> nat \<Rightarrow> identity \<Rightarrow> fragment list \<Rightarrow> fragment list \<times> identity list" where
  "mark_range seen start end' d [] = ([], [])"
| "mark_range seen start end' d (f # fs) =
     (if \<not> fr_visible f \<or> fr_marker f
      then (case mark_range seen start end' d fs of (gs, ids) \<Rightarrow> (f # gs, ids))
      else case mark_range (seen + fr_byte_length f) start end' d fs of (gs, ids) \<Rightarrow>
        if seen < start \<or> seen + fr_byte_length f > end' then (f # gs, ids)
        else (f\<lparr>fr_deletions := fr_deletions f @ [d], fr_visible := False\<rparr> # gs,
          map (frag_item f) [0..<fr_length f] @ ids))"

definition delete_visible_range :: "identity \<Rightarrow> nat \<times> nat \<Rightarrow> fragment list \<Rightarrow> fragment list \<times> identity list" where
  "delete_visible_range d rng frags =
     (case rng of (start, end') \<Rightarrow>
        if end' \<le> start then (frags, [])
        else mark_range 0 start end' d
          (split_at_visible_offset (split_at_visible_offset frags start) end'))"

fun delete_ranges :: "identity \<Rightarrow> (nat \<times> nat) list \<Rightarrow> fragment list \<Rightarrow> fragment list \<times> identity list" where
  "delete_ranges d [] frags = (frags, [])"
| "delete_ranges d (r # rs) frags =
     (case delete_visible_range d r frags of (frags1, ids1) \<Rightarrow>
        (case delete_ranges d rs frags1 of (frags2, ids2) \<Rightarrow> (frags2, ids1 @ ids2)))"

fun place_inserts :: "fragment list \<Rightarrow> fragment list \<Rightarrow> fragment list" where
  "place_inserts frags [] = frags"
| "place_inserts frags (f # fs) =
     place_inserts (case integrate fragment_ops frags f of None \<Rightarrow> frags | Some frags' \<Rightarrow> frags') fs"

text \<open>The run-length encoding of the sorted deleted identities.\<close>

fun take_run :: "identity \<Rightarrow> nat \<Rightarrow> identity list \<Rightarrow> nat \<times> identity list" where
  "take_run first count [] = (count, [])"
| "take_run first count (i # is) =
     (if actor i = actor first \<and> counter i = counter first + count then take_run first (count + 1) is
      else (count, i # is))"

lemma take_run_length: "take_run first count is = (n, rest) \<Longrightarrow> length rest \<le> length is"
  by (induction first count "is" rule: take_run.induct) (auto split: if_splits)

function pack_runs :: "identity list \<Rightarrow> deletion_run list" where
  "pack_runs [] = []"
| "pack_runs (i # is) =
     (case take_run i 1 is of (n, rest) \<Rightarrow> \<lparr>dr_first = i, dr_count = n\<rparr> # pack_runs rest)"
  by pat_completeness auto
termination
  by (relation "measure length") (auto dest: take_run_length [OF sym])

definition general_edit ::
  "fragment list \<Rightarrow> actor_id \<Rightarrow> nat \<Rightarrow> identity \<Rightarrow> edit_part list \<Rightarrow>
     fragment list \<times> fragment list \<times> deletion_run list" where
  "general_edit frags a next_item d parts =
     (let inserts = mint_inserts frags a next_item parts in
      case delete_ranges d (rev (map fst parts)) frags of (marked, ids) \<Rightarrow>
        (place_inserts marked inserts, inserts, pack_runs (sort ids)))"

section \<open>The direct publications of a single range\<close>

text \<open>
  What an edit leaves: the fragments, the inserted runs, the deletion runs. The attempts come in the order
  of the code.
\<close>

type_synonym edit_result = "fragment list \<times> fragment list \<times> deletion_run list"

definition direct_append ::
  "identity \<Rightarrow> nat \<times> nat \<Rightarrow> bytes \<Rightarrow> nat \<Rightarrow> 'al text_buffer \<Rightarrow> edit_result option" where
  "direct_append orig rng t n st =
     (let frags = tb_fragments st; tail = last frags in
      if fst rng = snd rng \<and> fst rng = visible_length st \<and> n > 0 \<and> tb_indexes_valid st \<and>
         (frags = [] \<or> fr_visible tail \<and> \<not> fr_marker tail \<and> fr_length tail > 0)
      then
        let l = Link (if frags = [] then None else Some (frag_item tail (fr_length tail - 1))) Right None;
            f = (new_fragment orig l (u32 (length t)) n t)\<lparr>fr_visible := True\<rparr>
        in map_option (\<lambda>frags'. (frags', [f], [])) (try_append_fragment f st)
      else None)"

definition direct_insert ::
  "identity \<Rightarrow> nat \<times> nat \<Rightarrow> bytes \<Rightarrow> nat \<Rightarrow> 'al text_buffer \<Rightarrow> edit_result option" where
  "direct_insert orig rng t n st =
     (if fst rng = snd rng \<and> n > 0 \<and> t \<noteq> []
      then case simple_middle_insertion st (fst rng) of
        None \<Rightarrow> None
      | Some (l, rank) \<Rightarrow>
          let f = (new_fragment orig l (u32 (length t)) n t)\<lparr>fr_visible := True\<rparr>
          in map_option (\<lambda>frags'. (frags', [f], [])) (try_insert_fragment_at_rank f rank st)
      else None)"

definition direct_replace ::
  "identity \<Rightarrow> identity \<Rightarrow> nat \<times> nat \<Rightarrow> bytes \<Rightarrow> nat \<Rightarrow> 'al text_buffer \<Rightarrow> edit_result option" where
  "direct_replace orig d rng t n st =
     (case rng of (start, end') \<Rightarrow>
        let run = (\<lambda>l. (new_fragment orig l (u32 (length t)) n t)\<lparr>fr_visible := True\<rparr>) in
        if start < end' \<and> n > 0 \<and> t \<noteq> [] \<and> tb_indexes_valid st
        then case (case simple_middle_insertion st start of
                     None \<Rightarrow> None
                   | Some (l, rank) \<Rightarrow>
                       map_option (\<lambda>(frags', r). (frags', [run l], [r]))
                         (try_replace_exact_visible_run start end' (run l) l rank d st)) of
               Some result \<Rightarrow> Some result
             | None \<Rightarrow>
                 (case try_replace_partial_visible_run start end' orig t n d st of
                    Some (frags', r, l) \<Rightarrow> Some (frags', [run l], [r])
                  | None \<Rightarrow>
                      map_option (\<lambda>(frags', runs, l). (frags', [run l], runs))
                        (try_replace_visible_runs start end' orig t n d st))
        else None)"

definition direct_delete ::
  "identity \<Rightarrow> nat \<times> nat \<Rightarrow> bytes \<Rightarrow> 'al text_buffer \<Rightarrow> edit_result option" where
  "direct_delete d rng t st =
     (case rng of (start, end') \<Rightarrow>
        if t = [] \<and> start < end'
        then case try_delete_exact_visible_runs start end' d st of
               Some (frags', runs) \<Rightarrow> Some (frags', [], runs)
             | None \<Rightarrow>
                 map_option (\<lambda>(frags', runs). (frags', [], runs)) (try_delete_visible_runs start end' d st)
        else None)"

definition direct_edit ::
  "identity \<Rightarrow> identity \<Rightarrow> edit_part list \<Rightarrow> 'al text_buffer \<Rightarrow> edit_result option" where
  "direct_edit orig d parts st =
     (case parts of
        [(rng, t, n)] \<Rightarrow>
          (case direct_append orig rng t n st of
             Some result \<Rightarrow> Some result
           | None \<Rightarrow>
               (case direct_insert orig rng t n st of
                  Some result \<Rightarrow> Some result
                | None \<Rightarrow>
                    (case direct_replace orig d rng t n st of
                       Some result \<Rightarrow> Some result
                     | None \<Rightarrow> direct_delete d rng t st)))
      | _ \<Rightarrow> None)"

section \<open>A local edit\<close>

definition fragment_keys :: "fragment \<Rightarrow> identity list" where
  "fragment_keys f = map (frag_item f) [0..<fr_length f]"

definition finish_edit ::
  "bool \<Rightarrow> identity \<Rightarrow> (nat \<times> nat) list \<Rightarrow> bytes list \<Rightarrow> nat \<Rightarrow> fragment list \<Rightarrow> deletion_run list \<Rightarrow>
     'al text_buffer \<Rightarrow> 'al text_buffer \<times> operation result" where
  "finish_edit marker d ranges new_text retained inserts runs st =
     (let op = EditOp \<lparr>eo_marker_edit = marker, eo_timestamp = d, eo_version = tb_version st,
            eo_ranges = ranges, eo_new_text = new_text, eo_inserted = map inserted_record inserts,
            eo_deletion_runs = runs, eo_deletion_id = d\<rparr>;
          group = \<lparr>ug_group_id = d, ug_operation_ids = [d], ug_inserted = concat (map fragment_keys inserts),
            ug_deletions = (if runs = [] then [] else [d]), ug_retained_bytes = retained\<rparr>
      in (buffer_changed (commit_local_history group (st\<lparr>tb_version := observe (tb_version st) d\<rparr>)), Ok op))"

definition edit_retained :: "(nat \<times> nat) list \<Rightarrow> bytes list \<Rightarrow> nat \<Rightarrow> nat" where
  "edit_retained ranges new_text scalars =
     sum_list (map length new_text) + sum_list (map (\<lambda>(start, end'). end' - start) ranges) +
     scalars * sizeof_key + (if list_ex (\<lambda>(start, end'). end' > start) ranges then sizeof_identity else 0)"

definition try_apply_validated_local_edit ::
  "'al alloc_ops \<Rightarrow> (nat \<times> nat) list \<Rightarrow> bytes list \<Rightarrow> 'al text_buffer \<Rightarrow> 'al text_buffer \<times> operation result" where
  "try_apply_validated_local_edit A ranges new_text st =
     (case buffer_check_allocator A st of
        Inl e \<Rightarrow> (st, Err e)
      | Inr _ \<Rightarrow>
          let parts = edit_parts ranges new_text;
              scalars = sum_list (map (snd \<circ> snd) parts);
              retained = edit_retained ranges new_text scalars;
              deletes = list_ex (\<lambda>(start, end'). end' > start) ranges
          in if retained > U64_MAX then (st, Err limit_exceeded)
             else if retained > tb_max_bytes st then (st, Err limit_exceeded)
             else case check_retirement_budget_for_new_entry st retained scalars (if deletes then 1 else 0) of
               Inl e \<Rightarrow> (st, Err e)
             | Inr _ \<Rightarrow>
                 (case reserve_run A (tb_alloc st) (scalars + 1) of
                    (al, Inl e) \<Rightarrow> (st\<lparr>tb_alloc := al\<rparr>, Err e)
                  | (al, Inr c) \<Rightarrow>
                      let st1 = st\<lparr>tb_alloc := al\<rparr>; a = alloc_actor A al; d = Identity a (c + scalars)
                      in case direct_edit (Identity a c) d parts st1 of
                           Some (frags, inserts, runs) \<Rightarrow>
                             finish_edit False d ranges new_text retained inserts runs (publish_fragments frags st1)
                         | None \<Rightarrow>
                             (case general_edit (tb_fragments st1) a c d parts of
                                (frags, inserts, runs) \<Rightarrow>
                                  finish_edit False d ranges new_text retained inserts runs
                                    (set_fragments frags st1))))"

definition scalar_boundary :: "'al text_buffer \<Rightarrow> nat \<Rightarrow> bool" where
  "scalar_boundary st offset =
     (if offset = 0 \<or> offset = visible_length st then True
      else case seek_visible 0 0 (tb_fragments st) offset of
        None \<Rightarrow> False
      | Some (i, start) \<Rightarrow>
          let t = fr_text (tb_fragments st ! i) in
          if offset < start \<or> offset - start \<ge> length t then False
          else \<not> is_continuation (byte_at t (offset - start)))"

definition try_apply_local_edit ::
  "'al alloc_ops \<Rightarrow> (nat \<times> nat) list \<Rightarrow> bytes list \<Rightarrow> 'al text_buffer \<Rightarrow> 'al text_buffer \<times> operation result" where
  "try_apply_local_edit A ranges new_text st =
     (case validate_local_edit ranges new_text (visible_length st) of
        Inl e \<Rightarrow> (st, Err e)
      | Inr _ \<Rightarrow>
          if \<not> list_all (\<lambda>(start, end'). scalar_boundary st start \<and> scalar_boundary st end') ranges
          then (st, Err invalid_unicode)
          else try_apply_validated_local_edit A ranges new_text st)"

definition empty_operation :: operation where
  "empty_operation =
     EditOp \<lparr>eo_marker_edit = False, eo_timestamp = identity_min, eo_version = [], eo_ranges = [], eo_new_text = [],
       eo_inserted = [], eo_deletion_runs = [], eo_deletion_id = identity_min\<rparr>"

definition apply_local_edit ::
  "'al alloc_ops \<Rightarrow> (nat \<times> nat) list \<Rightarrow> bytes list \<Rightarrow> 'al text_buffer \<Rightarrow> 'al text_buffer \<times> operation" where
  "apply_local_edit A ranges new_text st =
     (case try_apply_local_edit A ranges new_text st of
        (st', Inl e) \<Rightarrow> (st', empty_operation)
      | (st', Inr op) \<Rightarrow> (st', op))"

section \<open>Markers\<close>

definition try_insert_item ::
  "'al alloc_ops \<Rightarrow> identity option \<Rightarrow> bytes \<Rightarrow> bool \<Rightarrow> 'al text_buffer \<Rightarrow> 'al text_buffer \<times> operation result" where
  "try_insert_item A left t marker st =
     (case buffer_check_allocator A st of
        Inl e \<Rightarrow> (st, Err e)
      | Inr _ \<Rightarrow>
          (case utf8_length t of
             Inl _ \<Rightarrow> (st, Err invalid_unicode)
           | Inr scalars \<Rightarrow>
               let n = (if marker then 1 else scalars); charge = length t + n * sizeof_key in
               if \<not> marker \<and> scalars = 0 \<or> scalars > 2 ^ 32 - 1 \<or> length t > 2 ^ 32 - 1 then (st, Err malformed)
               else if charge > U64_MAX then (st, Err limit_exceeded)
               else if charge > tb_max_bytes st then (st, Err limit_exceeded)
               else case check_retirement_budget_for_new_entry st charge n 0 of
                 Inl e \<Rightarrow> (st, Err e)
               | Inr _ \<Rightarrow>
                   let frags = tb_fragments st; tail = last frags;
                       append = tb_indexes_valid st \<and>
                         (if frags = [] then left = None
                          else fr_length tail > 0 \<and> left = Some (frag_item tail (fr_length tail - 1)));
                       l = (if append then Link left Right None else mint_link fragment_ops frags left)
                   in case reserve_run A (tb_alloc st) (n + 1) of
                        (al, Inl e) \<Rightarrow> (st\<lparr>tb_alloc := al\<rparr>, Err e)
                      | (al, Inr c) \<Rightarrow>
                          let st1 = st\<lparr>tb_alloc := al\<rparr>; a = alloc_actor A al;
                              f = (new_fragment (Identity a c) l (u32 (length t)) (u32 n) t)\<lparr>fr_marker := marker\<rparr>;
                              done = finish_edit marker (Identity a (c + n)) [] [] charge [f] []
                          in case (if append then try_append_fragment f st1 else None) of
                               Some frags' \<Rightarrow> done (publish_fragments frags' st1)
                             | None \<Rightarrow>
                                 (case integrate fragment_ops frags f of
                                    None \<Rightarrow> (st1, Err history_unavailable)
                                  | Some frags' \<Rightarrow> done (set_fragments frags' st1))))"

definition try_insert_marker :: "'al alloc_ops \<Rightarrow> nat \<Rightarrow> 'al text_buffer \<Rightarrow> 'al text_buffer \<times> operation result" where
  "try_insert_marker A offset st =
     (case validate_local_edit [(offset, offset)] [[]] (visible_length st) of
        Inl e \<Rightarrow> (st, Err e)
      | Inr _ \<Rightarrow>
          let frags = tb_fragments st;
              boundary = (if offset \<noteq> 0 \<and> offset < visible_length st
                then case seek_visible 0 0 frags offset of
                       None \<Rightarrow> Err history_unavailable
                     | Some (i, start) \<Rightarrow>
                         if offset - start \<ge> length (fr_text (frags ! i)) then Err history_unavailable
                         else if is_continuation (byte_at (fr_text (frags ! i)) (offset - start))
                         then Err not_scalar_boundary else Ok ()
                else Ok ());
              left = (if offset > 0
                then case seek_visible 0 0 frags (offset - 1) of
                       None \<Rightarrow> Err history_unavailable
                     | Some (i, start) \<Rightarrow>
                         let n = count_utf8_chars (fr_text (frags ! i)) (offset - start) in
                         if n = 0 \<or> n > fr_length (frags ! i) then Err history_unavailable
                         else Ok (Some (frag_item (frags ! i) (n - 1)))
                else Ok None)
          in case boundary of
               Inl e \<Rightarrow> (st, Err e)
             | Inr _ \<Rightarrow>
                 (case left of Inl e \<Rightarrow> (st, Err e) | Inr l \<Rightarrow> try_insert_item A l [] True st))"

datatype marker_side = BeforeMarker | AfterMarker

fun insert_relative_loop :: "identity option \<Rightarrow> fragment list \<Rightarrow> identity \<Rightarrow> marker_side \<Rightarrow> identity option result" where
  "insert_relative_loop previous [] marker side' = Err history_unavailable"
| "insert_relative_loop previous (f # fs) marker side' =
     (if fr_origin f = marker \<and> fr_marker f then
        (if \<not> fr_visible f then Err detached
         else Ok (if side' = BeforeMarker then previous else Some marker))
      else insert_relative_loop (Some (frag_item f (fr_length f - 1))) fs marker side')"

definition try_insert_relative ::
  "'al alloc_ops \<Rightarrow> identity \<Rightarrow> marker_side \<Rightarrow> bytes \<Rightarrow> bool \<Rightarrow> 'al text_buffer \<Rightarrow> 'al text_buffer \<times> operation result"
where
  "try_insert_relative A marker side' t insert_marker st =
     (case insert_relative_loop None (tb_fragments st) marker side' of
        Inl e \<Rightarrow> (st, Err e)
      | Inr left \<Rightarrow> try_insert_item A left t insert_marker st)"

definition try_remove_marker :: "'al alloc_ops \<Rightarrow> identity \<Rightarrow> 'al text_buffer \<Rightarrow> 'al text_buffer \<times> operation result" where
  "try_remove_marker A target st =
     (case buffer_check_allocator A st of
        Inl e \<Rightarrow> (st, Err e)
      | Inr _ \<Rightarrow>
          let frags = tb_fragments st in
          case find (\<lambda>k. fr_origin (frags ! k) = target \<and> fr_marker (frags ! k)) [0..<length frags] of
            None \<Rightarrow> (st, Err history_unavailable)
          | Some k \<Rightarrow>
              if \<not> fr_visible (frags ! k) then (st, Err detached)
              else if sizeof_identity > tb_max_bytes st then (st, Err limit_exceeded)
              else case check_retirement_budget_for_new_entry st sizeof_identity 0 1 of
                Inl e \<Rightarrow> (st, Err e)
              | Inr _ \<Rightarrow>
                  (case reserve_run A (tb_alloc st) 1 of
                     (al, Inl e) \<Rightarrow> (st\<lparr>tb_alloc := al\<rparr>, Err e)
                   | (al, Inr c) \<Rightarrow>
                       let d = Identity (alloc_actor A al) c; f = frags ! k in
                       finish_edit True d [] [] sizeof_identity [] [\<lparr>dr_first = target, dr_count = 1\<rparr>]
                         (set_fragments (frags[k := f\<lparr>fr_deletions := fr_deletions f @ [d]\<rparr>])
                           (st\<lparr>tb_alloc := al\<rparr>))))"

section \<open>Visibility after an undo\<close>

text \<open>
  The fragments an undo touches: the run that holds the identity, or else the runs it deleted. The
  ranges of consecutive identities the code resolves at once name the same runs.
\<close>

definition affected_by :: "fragment list \<Rightarrow> identity \<Rightarrow> nat list" where
  "affected_by frags i =
     (case index_find fragment_ops frags i of
        Some (k, _) \<Rightarrow> [k]
      | None \<Rightarrow> filter (\<lambda>k. i \<in> set (fr_deletions (frags ! k))) [0..<length frags])"

definition recompute_fragment :: "undo_map \<Rightarrow> fragment \<Rightarrow> fragment" where
  "recompute_fragment m f = f\<lparr>fr_visible := fragment_compute_visible f m\<rparr>"

definition recompute_visibility_for :: "identity list \<Rightarrow> 'al text_buffer \<Rightarrow> 'al text_buffer" where
  "recompute_visibility_for ids st =
     (let frags = tb_fragments st; m = tb_undo_map st in
      if \<not> tb_indexes_valid st then st\<lparr>tb_fragments := map (recompute_fragment m) frags\<rparr>
      else
        let affected = concat (map (affected_by frags) ids)
        in st\<lparr>tb_fragments := map (\<lambda>k. if k \<in> set affected then recompute_fragment m (frags ! k) else frags ! k)
             [0..<length frags]\<rparr>)"

section \<open>Undo and redo\<close>

definition buffer_flip_group ::
  "undo_group \<Rightarrow> identity \<Rightarrow> 'al text_buffer \<Rightarrow> 'al text_buffer \<times> operation" where
  "buffer_flip_group g timestamp st =
     (case bump_counts (tb_undo_map st) timestamp (ug_inserted g @ ug_deletions g) of
        (m, counts) \<Rightarrow>
          let op = UndoOp \<lparr>uo_timestamp = timestamp, uo_version = tb_version st, uo_counts = counts\<rparr>;
              st1 = recompute_visibility_for (map fst counts) (st\<lparr>tb_undo_map := m\<rparr>)
          in (st1\<lparr>tb_version := observe (tb_version st1) timestamp\<rparr>, op))"

definition buffer_try_undo_group ::
  "'al alloc_ops \<Rightarrow> identity \<Rightarrow> 'al text_buffer \<Rightarrow> 'al text_buffer \<times> operation option result" where
  "buffer_try_undo_group A group_id st =
     (case find (\<lambda>i. ug_group_id (tb_undo_stack st ! i) = group_id) [0..<tb_cursor st] of
        None \<Rightarrow> (st, Err history_unavailable)
      | Some index \<Rightarrow>
          (case buffer_check_allocator A st of
             Inl e \<Rightarrow> (st, Err e)
           | Inr _ \<Rightarrow>
               (case reserve_run A (tb_alloc st) 1 of
                  (al, Inl e) \<Rightarrow> (st\<lparr>tb_alloc := al\<rparr>, Err e)
                | (al, Inr c) \<Rightarrow>
                    let stack = tb_undo_stack st; g = stack ! index;
                        erased = take index stack @ drop (index + 1) stack;
                        cursor = tb_cursor st - 1;
                        st1 = st\<lparr>tb_alloc := al, tb_undo_stack := take cursor erased @ g # drop cursor erased,
                          tb_cursor := cursor\<rparr>
                    in case buffer_flip_group g (Identity (alloc_actor A al) c) st1 of
                         (st2, op) \<Rightarrow> (st2, Ok (Some op)))))"

definition buffer_try_undo :: "'al alloc_ops \<Rightarrow> 'al text_buffer \<Rightarrow> 'al text_buffer \<times> operation option result" where
  "buffer_try_undo A st =
     (if tb_cursor st = 0 then (st, Ok None)
      else buffer_try_undo_group A (ug_group_id (tb_undo_stack st ! (tb_cursor st - 1))) st)"

definition buffer_try_redo_group ::
  "'al alloc_ops \<Rightarrow> identity \<Rightarrow> 'al text_buffer \<Rightarrow> 'al text_buffer \<times> operation option result" where
  "buffer_try_redo_group A group_id st =
     (case find (\<lambda>i. ug_group_id (tb_undo_stack st ! i) = group_id)
             [tb_cursor st..<length (tb_undo_stack st)] of
        None \<Rightarrow> (st, Err history_unavailable)
      | Some index \<Rightarrow>
          (case buffer_check_allocator A st of
             Inl e \<Rightarrow> (st, Err e)
           | Inr _ \<Rightarrow>
               (case reserve_run A (tb_alloc st) 1 of
                  (al, Inl e) \<Rightarrow> (st\<lparr>tb_alloc := al\<rparr>, Err e)
                | (al, Inr c) \<Rightarrow>
                    let stack = tb_undo_stack st; g = stack ! index;
                        erased = take index stack @ drop (index + 1) stack;
                        cursor = tb_cursor st;
                        st1 = st\<lparr>tb_alloc := al, tb_undo_stack := take cursor erased @ g # drop cursor erased,
                          tb_cursor := cursor + 1\<rparr>
                    in case buffer_flip_group g (Identity (alloc_actor A al) c) st1 of
                         (st2, op) \<Rightarrow> (st2, Ok (Some op)))))"

definition buffer_try_redo :: "'al alloc_ops \<Rightarrow> 'al text_buffer \<Rightarrow> 'al text_buffer \<times> operation option result" where
  "buffer_try_redo A st =
     (if tb_cursor st \<ge> length (tb_undo_stack st) then (st, Ok None)
      else buffer_try_redo_group A (ug_group_id (tb_undo_stack st ! tb_cursor st)) st)"

definition buffer_undo :: "'al alloc_ops \<Rightarrow> 'al text_buffer \<Rightarrow> 'al text_buffer \<times> operation option" where
  "buffer_undo A st = (case buffer_try_undo A st of (st', Inl e) \<Rightarrow> (st', None) | (st', Inr op) \<Rightarrow> (st', op))"

definition buffer_redo :: "'al alloc_ops \<Rightarrow> 'al text_buffer \<Rightarrow> 'al text_buffer \<times> operation option" where
  "buffer_redo A st = (case buffer_try_redo A st of (st', Inl e) \<Rightarrow> (st', None) | (st', Inr op) \<Rightarrow> (st', op))"

end
