(* ===== verification/Text_Remote.thy ===== *)
theory Text_Remote
  imports Text_Local
begin

text \<open>
  Remote operations in the text engine (\<open>Buffer.cpp\<close>): the deletion runs of a remote edit, the edit with
  its two direct publications and the general path, the undo, and what surrounds them: validation order,
  the deferral queue in timestamp order with head-of-line blocking per actor, the quarantine, the retry
  loop, counter gaps and the budgets. A refused operation leaves the state as it was; the attempt type is
  that of the list engine (\<open>Inl None\<close>: not ready, \<open>Inl (Some e)\<close>: malformed with the error \<open>e\<close>).
\<close>

type_synonym 'al text_attempt = "error_code option + 'al text_buffer"

section \<open>Counter gaps\<close>

definition run_in_gap :: "gap_ledger \<Rightarrow> deletion_run \<Rightarrow> bool" where
  "run_in_gap gaps r \<longleftrightarrow>
     dr_count r \<noteq> 0 \<and> dr_count r - 1 \<le> U64_MAX - counter (dr_first r) \<and>
     gap_overlaps gaps (actor (dr_first r)) (counter (dr_first r)) (counter (dr_first r) + dr_count r - 1)"

definition named_in_gap :: "gap_ledger \<Rightarrow> identity option \<Rightarrow> bool" where
  "named_in_gap gaps named = (case named of None \<Rightarrow> False | Some i \<Rightarrow> gap_contains gaps i)"

definition buffer_gap_conflicts :: "gap_ledger \<Rightarrow> operation \<Rightarrow> bool" where
  "buffer_gap_conflicts gaps op =
     (if gl_records gaps = [] \<or> \<not> actor_valid (actor (op_identity op)) then False
      else if ledger_conflicts_op gaps op then True
      else case op of
        EditOp e \<Rightarrow>
          list_ex (\<lambda>f. named_in_gap gaps (parent (if_link f)) \<or> named_in_gap gaps (right_origin (if_link f)))
            (eo_inserted e) \<or>
          list_ex (run_in_gap gaps) (eo_deletion_runs e)
      | UndoOp u \<Rightarrow> list_ex (\<lambda>(target, count). gap_contains gaps target) (uo_counts u))"

section \<open>Deletion runs\<close>

definition push_deletion :: "identity \<Rightarrow> fragment \<Rightarrow> fragment" where
  "push_deletion d f = f\<lparr>fr_deletions := fr_deletions f @ [d]\<rparr>"

text \<open>
  Without the indexes: for every run, the first fragment that holds the next wanted item. Every round
  covers at least one item, so the count of the run is enough fuel.
\<close>

definition cut_at :: "nat \<Rightarrow> nat \<Rightarrow> fragment list \<Rightarrow> fragment list" where
  "cut_at k n frags = split_fragment_at frags k (char_to_byte_offset (fr_text (frags ! k)) n)"

fun scan_run :: "nat \<Rightarrow> identity \<Rightarrow> identity \<Rightarrow> nat \<Rightarrow> fragment list \<Rightarrow> fragment list" where
  "scan_run 0 d nxt remaining frags = frags"
| "scan_run (Suc fuel) d nxt remaining frags =
     (if remaining = 0 then frags
      else case find (\<lambda>k. frag_holds (frags ! k) nxt) [0..<length frags] of
        None \<Rightarrow> frags
      | Some k \<Rightarrow>
          let offset = counter nxt - counter (fr_origin (frags ! k));
              frags1 = (if offset \<noteq> 0 then cut_at k offset frags else frags);
              k1 = (if offset \<noteq> 0 then k + 1 else k);
              count = (if offset \<noteq> 0 then min remaining (fr_length (frags1 ! k1))
                       else min remaining (fr_length (frags ! k) - offset));
              frags2 = (if count < fr_length (frags1 ! k1) then cut_at k1 count frags1 else frags1)
          in scan_run fuel d (Identity (actor nxt) (counter nxt + count)) (remaining - count)
               (frags2[k1 := push_deletion d (frags2 ! k1)]))"

definition scan_deletion_runs :: "fragment list \<Rightarrow> deletion_run list \<Rightarrow> identity \<Rightarrow> fragment list" where
  "scan_deletion_runs frags runs d =
     fold (\<lambda>r fs. scan_run (dr_count r) d (dr_first r) (dr_count r) fs) runs frags"

text \<open>
  With the indexes: the retained intervals that overlap a run, in ascending order, as far as they cover
  it without a hole. A target is a rank, an offset and a count.
\<close>

definition overlapping_runs :: "fragment list \<Rightarrow> actor_id \<Rightarrow> nat \<Rightarrow> nat \<Rightarrow> (nat \<times> nat) list" where
  "overlapping_runs frags a first' end' =
     (if \<not> actor_valid a \<or> first' = 0 \<or> end' \<le> first' then []
      else filter (\<lambda>(c, k). c < end' \<and> first' < c + fr_length (frags ! k)) (index_runs fragment_ops frags a))"

fun run_targets :: "fragment list \<Rightarrow> nat \<Rightarrow> nat \<Rightarrow> nat \<Rightarrow> (nat \<times> nat) list \<Rightarrow> (nat \<times> nat \<times> nat) list" where
  "run_targets frags first' covered end' [] = []"
| "run_targets frags first' covered end' ((c, k) # intervals) =
     (let from = max first' c; upto = min end' (c + fr_length (frags ! k)) in
      if from > covered then []
      else if upto \<le> covered then run_targets frags first' covered end' intervals
      else (k, max from covered - c, upto - max from covered) #
        (if upto = end' then [] else run_targets frags first' upto end' intervals))"

definition targets_of_run :: "fragment list \<Rightarrow> deletion_run \<Rightarrow> (nat \<times> nat \<times> nat) list" where
  "targets_of_run frags r =
     (if dr_count r = 0 \<or> dr_count r > U64_MAX - counter (dr_first r) then []
      else let first' = counter (dr_first r); end' = first' + dr_count r in
        run_targets frags first' first' end' (overlapping_runs frags (actor (dr_first r)) first' end'))"

fun merge_targets :: "(nat \<times> nat \<times> nat) list \<Rightarrow> (nat \<times> nat \<times> nat) list \<Rightarrow> (nat \<times> nat \<times> nat) list" where
  "merge_targets merged [] = merged"
| "merge_targets merged ((k, off, n) # rest) =
     (if merged \<noteq> [] \<and> fst (last merged) = k \<and>
         off \<le> fst (snd (last merged)) + snd (snd (last merged))
      then (case last merged of (k0, off0, n0) \<Rightarrow>
        merge_targets (butlast merged @ [(k0, off0, max (off0 + n0) (off + n) - off0)]) rest)
      else merge_targets (merged @ [(k, off, n)]) rest)"

definition mark_target :: "identity \<Rightarrow> nat \<times> nat \<times> nat \<Rightarrow> fragment list \<Rightarrow> fragment list" where
  "mark_target d target frags =
     (case target of (k, off, n) \<Rightarrow>
        if k \<ge> length frags then frags
        else if off > fr_length (frags ! k) \<or> n > fr_length (frags ! k) - off then frags
        else
          let frags1 = (if off > 0 then cut_at k off frags else frags);
              k1 = (if off > 0 then k + 1 else k);
              frags2 = (if n < fr_length (frags1 ! k1) then cut_at k1 n frags1 else frags1)
          in frags2[k1 := push_deletion d (frags2 ! k1)])"

text \<open>The merged targets are in ascending order of rank and offset; they are marked from right to left.\<close>

definition apply_deletion_runs :: "bool \<Rightarrow> fragment list \<Rightarrow> deletion_run list \<Rightarrow> identity \<Rightarrow> fragment list" where
  "apply_deletion_runs indexed frags runs d =
     (if \<not> indexed then scan_deletion_runs frags runs d
      else
        let targets = sort_key (\<lambda>(k, off, n). (k, off)) (concat (map (targets_of_run frags) runs))
        in fold (mark_target d) (rev (merge_targets [] targets)) frags)"

section \<open>A remote edit\<close>

definition fragment_of_inserted :: "inserted_fragment \<Rightarrow> fragment" where
  "fragment_of_inserted i =
     (new_fragment (if_origin i) (if_link i) (u32 (length (if_content i))) (if_length i) (if_content i))
       \<lparr>fr_marker := if_marker i\<rparr>"

definition inserted_last :: "inserted_fragment \<Rightarrow> identity" where
  "inserted_last i = Identity (actor (if_origin i)) (counter (if_origin i) + if_length i - 1)"

definition observe_edit_op :: "'al alloc_ops \<Rightarrow> edit_operation \<Rightarrow> 'al text_buffer \<Rightarrow> 'al text_buffer" where
  "observe_edit_op A op st =
     (let st1 = (buffer_observe_remote A (eo_timestamp op) st)
            \<lparr>tb_version := observe (observe (tb_version st) (eo_timestamp op)) (eo_deletion_id op)\<rparr>;
          st2 = fold (\<lambda>i s. (buffer_observe_remote A (inserted_last i) s)
              \<lparr>tb_version := observe (tb_version s) (inserted_last i)\<rparr>) (eo_inserted op) st1
      in st2\<lparr>tb_version := join (tb_version st2) (eo_version op)\<rparr>)"

text \<open>The direct publications: one run at the tail without deletions, one whole run deleted.\<close>

definition remote_append :: "edit_operation \<Rightarrow> 'al text_buffer \<Rightarrow> fragment list option" where
  "remote_append op st =
     (if eo_deletion_runs op = [] \<and> length (eo_inserted op) = 1
      then try_append_fragment (fragment_of_inserted (hd (eo_inserted op))) st else None)"

definition remote_delete_run :: "edit_operation \<Rightarrow> 'al text_buffer \<Rightarrow> fragment list option" where
  "remote_delete_run op st =
     (if eo_inserted op = [] \<and> length (eo_deletion_runs op) = 1 \<and> \<not> eo_marker_edit op \<and> tb_indexes_valid st
      then
        let r = hd (eo_deletion_runs op); frags = tb_fragments st in
        case locate_retained st (dr_first r) of
          None \<Rightarrow> None
        | Some (k, off) \<Rightarrow>
            let f = frags ! k in
            if dr_count r \<noteq> 0 \<and> dr_count r \<le> U64_MAX - counter (dr_first r) \<and>
               fragment_end f = counter (dr_first r) + dr_count r \<and>
               fr_origin f = dr_first r \<and> fr_length f = dr_count r \<and> \<not> fr_marker f \<and>
               deletion_room (eo_deletion_id op) f
            then Some (frags[k := delete_fragment (tb_undo_map st) (eo_deletion_id op) f])
            else None
      else None)"

text \<open>The general path.\<close>

definition marker_target_error :: "edit_operation \<Rightarrow> fragment list \<Rightarrow> error_code option" where
  "marker_target_error op frags =
     (if eo_marker_edit op \<and> eo_deletion_runs op \<noteq> []
      then (case find_item fragment_ops frags (dr_first (hd (eo_deletion_runs op))) of
              None \<Rightarrow> Some history_unavailable
            | Some (k, off) \<Rightarrow> if \<not> fr_marker (frags ! k) then Some malformed else None)
      else if list_ex (\<lambda>f. fr_marker f \<and> list_ex (\<lambda>r. actor (fr_origin f) = actor (dr_first r) \<and>
            counter (fr_origin f) \<ge> counter (dr_first r) \<and>
            counter (fr_origin f) - counter (dr_first r) < dr_count r) (eo_deletion_runs op)) frags
      then Some malformed else None)"

definition placement_reclaimed :: "reclamation_binding \<Rightarrow> fragment list \<Rightarrow> identity option \<Rightarrow> bool" where
  "placement_reclaimed b frags dependency =
     (case dependency of
        None \<Rightarrow> False
      | Some i \<Rightarrow> find_item fragment_ops frags i = None \<and> operation_is_covered (rb_frontier b) i)"

fun integrate_inserted ::
  "reclamation_binding \<Rightarrow> fragment list \<Rightarrow> inserted_fragment list \<Rightarrow> fragment list result" where
  "integrate_inserted b frags [] = Ok frags"
| "integrate_inserted b frags (i # is) =
     (if placement_reclaimed b frags (parent (if_link i)) \<or>
         placement_reclaimed b frags (right_origin (if_link i)) then Err history_unavailable
      else case integrate fragment_ops frags (fragment_of_inserted i) of
        None \<Rightarrow> Err malformed
      | Some frags' \<Rightarrow> integrate_inserted b frags' is)"

definition apply_remote_edit :: "'al alloc_ops \<Rightarrow> edit_operation \<Rightarrow> 'al text_buffer \<Rightarrow> 'al text_attempt" where
  "apply_remote_edit A op st =
     (if observed (tb_version st) (eo_timestamp op) then Inr st
      else if \<not> observed_all (tb_version st) (eo_version op) then Inl None
      else case remote_append op st of
        Some frags \<Rightarrow> Inr (observe_edit_op A op (publish_fragments frags st))
      | None \<Rightarrow>
          (case remote_delete_run op st of
             Some frags \<Rightarrow> Inr (observe_edit_op A op (publish_fragments frags st))
           | None \<Rightarrow>
               (case marker_target_error op (tb_fragments st) of
                  Some e \<Rightarrow> Inl (Some e)
                | None \<Rightarrow>
                    (case integrate_inserted (tb_reclamation st)
                         (apply_deletion_runs (tb_indexes_valid st) (tb_fragments st)
                           (eo_deletion_runs op) (eo_deletion_id op)) (eo_inserted op) of
                       Inl e \<Rightarrow> Inl (Some e)
                     | Inr frags \<Rightarrow> Inr (set_fragments frags (observe_edit_op A op st))))))"

section \<open>A remote undo\<close>

definition apply_remote_undo :: "'al alloc_ops \<Rightarrow> undo_operation \<Rightarrow> 'al text_buffer \<Rightarrow> 'al text_attempt" where
  "apply_remote_undo A op st =
     (if observed (tb_version st) (uo_timestamp op) then Inr st
      else if \<not> observed_all (tb_version st) (uo_version op) then Inl None
      else if list_ex (\<lambda>(i, n). operation_is_covered (rb_frontier (tb_reclamation st)) i) (uo_counts op)
        then Inl (Some history_unavailable)
      else
        let st1 = buffer_observe_remote A (uo_timestamp op)
              (st\<lparr>tb_undo_map := undo_insert_all (tb_undo_map st) (uo_timestamp op) (uo_counts op)\<rparr>);
            st2 = st1\<lparr>tb_version := join (observe (tb_version st1) (uo_timestamp op)) (uo_version op)\<rparr>
        in Inr (recompute_visibility_for (map fst (uo_counts op)) st2))"

definition buffer_try_apply :: "'al alloc_ops \<Rightarrow> operation \<Rightarrow> 'al text_buffer \<Rightarrow> 'al text_attempt" where
  "buffer_try_apply A op st =
     (case op of EditOp e \<Rightarrow> apply_remote_edit A e st | UndoOp u \<Rightarrow> apply_remote_undo A u st)"

section \<open>The deferral queue\<close>

definition enqueue_deferred :: "text_op_entry \<Rightarrow> text_op_entry list \<Rightarrow> text_op_entry list" where
  "enqueue_deferred e q =
     (if q = [] then [e]
      else let cursor = dropWhile (\<lambda>x. \<not> identity_min < te_timestamp x) q in
        takeWhile (\<lambda>x. te_timestamp x \<le> te_timestamp e) cursor @ e #
        dropWhile (\<lambda>x. te_timestamp x \<le> te_timestamp e) cursor)"

definition buffer_quarantine :: "operation \<Rightarrow> error_code \<Rightarrow> 'al text_buffer \<Rightarrow> 'al text_buffer" where
  "buffer_quarantine op reason st =
     (let bytes = estimate_operation_bytes op in
      if deferred_budget_exhausted (tb_quarantine_budget st) (length (tb_quarantined st))
          (tb_quarantined_bytes st) bytes
      then st
      else st\<lparr>tb_quarantined := tb_quarantined st @ [(op, reason)],
              tb_quarantined_bytes := tb_quarantined_bytes st + bytes\<rparr>)"

definition buffer_defer :: "operation \<Rightarrow> identity \<Rightarrow> 'al text_buffer \<Rightarrow> 'al text_buffer \<times> apply_outcome" where
  "buffer_defer op awaiting st =
     (let bytes = estimate_operation_bytes op in
      if deferred_budget_exhausted (tb_deferred_budget st) (tb_deferred_count st) (tb_deferred_bytes st) bytes
      then (buffer_quarantine op deferred_queue_full st, Rejected deferred_queue_full)
      else (st\<lparr>tb_deferred := enqueue_deferred \<lparr>te_timestamp = op_identity op, te_op = op\<rparr> (tb_deferred st),
               tb_deferred_actors := insert (actor (op_identity op)) (tb_deferred_actors st),
               tb_deferred_count := tb_deferred_count st + 1,
               tb_deferred_bytes := tb_deferred_bytes st + bytes\<rparr>, Deferred awaiting))"

text \<open>The least pending counter of an actor; the largest 64-bit number when nothing is pending.\<close>

definition earliest_pending :: "actor_id \<Rightarrow> text_op_entry list \<Rightarrow> nat" where
  "earliest_pending a q =
     foldl (\<lambda>c e. if actor (te_timestamp e) = a then min c (counter (te_timestamp e)) else c) U64_MAX q"

definition mark_waiting :: "actor_id \<Rightarrow> 'al text_buffer \<Rightarrow> 'al text_buffer" where
  "mark_waiting a st = st\<lparr>tb_deferred_actors := insert a (tb_deferred_actors st)\<rparr>"

definition buffer_apply_one ::
  "'al alloc_ops \<Rightarrow> operation \<Rightarrow> 'al text_buffer \<Rightarrow> 'al text_buffer \<times> apply_outcome" where
  "buffer_apply_one A op st =
     (let ts = op_identity op in
      case validate_operation_identity op of
        Reject e \<Rightarrow> (st, Rejected e)
      | Defer _ \<Rightarrow> (st, Rejected malformed) \<comment> \<open>never: identities are valid or rejected\<close>
      | Valid \<Rightarrow>
          if buffer_gap_conflicts (tb_gaps st) op then (st, Rejected actor_conflict)
          else if observed (tb_version st) ts then (st, Duplicate)
          else case validate_operation op (tb_version st) of
            Reject e \<Rightarrow> (st, Rejected e)
          | Defer awaiting \<Rightarrow> buffer_defer op awaiting st
          | Valid \<Rightarrow>
              if actor ts \<in> tb_deferred_actors st \<and> \<not> counter ts < earliest_pending (actor ts) (tb_deferred st)
              then buffer_defer op (if counter ts > 0 then Identity (actor ts) (counter ts - 1) else ts)
                (mark_waiting (actor ts) st)
              else case buffer_try_apply A op st of
                Inr st' \<Rightarrow> (buffer_changed st', Applied)
              | Inl (Some e) \<Rightarrow> (st, Rejected e)
              | Inl None \<Rightarrow> buffer_defer op ts (mark_waiting (actor ts) st))"

text \<open>One pass over the queue: the kept entries and whether anything moved.\<close>

fun buffer_retry_pass ::
  "'al alloc_ops \<Rightarrow> text_op_entry list \<Rightarrow> 'al text_buffer \<Rightarrow> 'al text_buffer \<times> text_op_entry list \<times> bool" where
  "buffer_retry_pass A [] st = (st, [], False)"
| "buffer_retry_pass A (e # es) st =
     (if actor (te_timestamp e) \<in> tb_deferred_actors st
      then (case buffer_retry_pass A es st of (st', rest, p) \<Rightarrow> (st', e # rest, p))
      else case buffer_try_apply A (te_op e) st of
        Inr st1 \<Rightarrow> (case buffer_retry_pass A es (buffer_changed st1) of (st', rest, _) \<Rightarrow> (st', rest, True))
      | Inl (Some err) \<Rightarrow>
          (case buffer_retry_pass A es (buffer_quarantine (te_op e) err st) of (st', rest, _) \<Rightarrow> (st', rest, True))
      | Inl None \<Rightarrow>
          (case buffer_retry_pass A es (mark_waiting (actor (te_timestamp e)) st) of
             (st', rest, p) \<Rightarrow> (st', e # rest, p)))"

lemma buffer_retry_length:
  "buffer_retry_pass A es st = (st', rest, p) \<Longrightarrow>
     length rest \<le> length es \<and> (p \<longrightarrow> length rest < length es)"
proof (induction A es st arbitrary: st' rest p rule: buffer_retry_pass.induct)
  case (2 A e es st)
  then show ?case
    by (auto split: if_splits sum.splits option.splits prod.splits simp: less_Suc_eq_le) fastforce+
qed simp

function buffer_retry_deferred :: "'al alloc_ops \<Rightarrow> 'al text_buffer \<Rightarrow> 'al text_buffer" where
  "buffer_retry_deferred A st =
     (case buffer_retry_pass A (tb_deferred st) (st\<lparr>tb_deferred_actors := {}\<rparr>) of
        (st1, remaining, progress) \<Rightarrow>
          let st2 = st1\<lparr>tb_deferred := remaining, tb_deferred_count := length remaining,
            tb_deferred_bytes := sum_list (map (\<lambda>e. estimate_operation_bytes (te_op e)) remaining)\<rparr>
          in if progress then buffer_retry_deferred A st2 else st2)"
  by pat_completeness auto
termination
  by (relation "measure (\<lambda>(A, st). length (tb_deferred st))") (auto dest: buffer_retry_length [OF sym])

declare buffer_retry_deferred.simps [simp del]

fun buffer_apply_each ::
  "'al alloc_ops \<Rightarrow> operation list \<Rightarrow> 'al text_buffer \<Rightarrow> 'al text_buffer \<times> apply_outcome list" where
  "buffer_apply_each A [] st = (st, [])"
| "buffer_apply_each A (op # ops) st =
     (case buffer_apply_one A op st of (st1, out) \<Rightarrow>
        (case buffer_apply_each A ops st1 of (st2, outs) \<Rightarrow> (st2, out # outs)))"

definition buffer_apply_ops ::
  "'al alloc_ops \<Rightarrow> operation list \<Rightarrow> 'al text_buffer \<Rightarrow> 'al text_buffer \<times> apply_outcome list" where
  "buffer_apply_ops A ops st =
     (case buffer_apply_each A ops st of (st1, outs) \<Rightarrow> (buffer_retry_deferred A st1, outs))"

definition buffer_apply_counter_gap ::
  "'al alloc_ops \<Rightarrow> counter_gap \<Rightarrow> 'al text_buffer \<Rightarrow> 'al text_buffer \<times> apply_outcome" where
  "buffer_apply_counter_gap A g st =
     (case gap_check (tb_gaps st) g (tb_version st) of
        Applied \<Rightarrow>
          (let offered = fst (gap_commit empty_ledger g (gap_prior g)) in
           if list_ex (\<lambda>e. buffer_gap_conflicts offered (te_op e)) (tb_deferred st) \<or>
              list_ex (\<lambda>(op, _). buffer_gap_conflicts offered op) (tb_quarantined st)
           then (st, Rejected actor_conflict)
           else case gap_commit (tb_gaps st) g (tb_version st) of
             (ledger, version) \<Rightarrow>
               (buffer_retry_deferred A (buffer_observe_remote A
                 (Identity (gap_actor g) (gap_first g + gap_count g - 1))
                 (st\<lparr>tb_gaps := ledger, tb_version := version\<rparr>)), Applied))
      | out \<Rightarrow> (st, out))"

end
