(* ===== verification/Text_Cells.thy ===== *)
theory Text_Cells
  imports Text_Remote
begin

text \<open>
  What the fragments of the text engine stand for: a sequence of cells, one per item, each with its
  identity, its placement, the bytes of its scalar (none for a marker) and the deletions on it. Splits
  leave the cells alone, an insertion adds the cells of one run at one place, a deletion adds its
  identity to the cells it names; the visible text is the bytes of the visible cells.
\<close>

section \<open>Cells\<close>

datatype cell = Cell
  (cl_id: identity) (cl_link: link) (cl_bytes: bytes) (cl_marker: bool) (cl_deletions: "identity set")

function text_chunks :: "bytes \<Rightarrow> bytes list" where
  "text_chunks s =
     (if s = [] then [] else take (frag_width (byte_at s 0)) s # text_chunks (drop (frag_width (byte_at s 0)) s))"
  by pat_completeness auto
termination
  by (relation "measure length") (use frag_width_pos in auto)

declare text_chunks.simps [simp del]

definition frag_chunks :: "fragment \<Rightarrow> bytes list" where
  "frag_chunks f = (if fr_marker f then [[]] else text_chunks (fr_text f))"

definition frag_cells :: "fragment \<Rightarrow> cell list" where
  "frag_cells f =
     map (\<lambda>(k, b). Cell (frag_item f k) (link_at fragment_ops f k) b (fr_marker f) (set (fr_deletions f)))
       (enumerate 0 (frag_chunks f))"

definition text_cells :: "fragment list \<Rightarrow> cell list" where
  "text_cells frags = concat (map frag_cells frags)"

text \<open>A fragment holds text with as many scalars as items, or is a marker of one item without text.\<close>

definition piece_ok :: "fragment \<Rightarrow> bool" where
  "piece_ok f \<longleftrightarrow>
     (if fr_marker f then fr_length f = 1 \<and> fr_text f = [] \<and> fr_byte_length f = 0
      else \<exists>vs. vs \<noteq> [] \<and> frag_ok f vs)"

lemma text_cells_simps [simp]:
  "text_cells [] = []"
  "text_cells (f # fs) = frag_cells f @ text_cells fs"
  "text_cells (fs @ gs) = text_cells fs @ text_cells gs"
  by (simp_all add: text_cells_def)

lemma fragment_ops_simps [simp]:
  "origin fragment_ops = fr_origin" "run_length fragment_ops = fr_length"
  "run_link fragment_ops = fr_link" "split_off fragment_ops = split_fragment"
  by (simp_all add: fragment_ops_def)

lemma item_at_frag: "item_at fragment_ops f k = frag_item f k"
  by (simp add: item_at_def frag_item_def)

section \<open>Chunks of well-formed text\<close>

lemma text_chunks_scalar:
  assumes "is_scalar v"
  shows "text_chunks (scalar_bytes v @ ws) = scalar_bytes v # text_chunks ws"
proof -
  have "byte_at (scalar_bytes v @ ws) 0 = lead_of v"
    using lead_byte [OF assms, of "[]" ws] by simp
  then have w: "frag_width (byte_at (scalar_bytes v @ ws) 0) = length (scalar_bytes v)"
    using frag_width_lead(1) [OF assms] length_scalar_width by simp
  moreover have "scalar_bytes v \<noteq> []"
    using width_pos(1) [of v] length_scalar_width [of v] by auto
  ultimately show ?thesis
    by (subst text_chunks.simps) simp
qed

lemma text_chunks_encode: "list_all is_scalar vs \<Longrightarrow> text_chunks (encode_scalars vs) = map scalar_bytes vs"
proof (induction vs)
  case Nil
  then show ?case
    by (subst text_chunks.simps) (simp add: encode_simps)
next
  case (Cons v vs)
  then show ?case
    by (simp add: encode_simps text_chunks_scalar)
qed

lemma frag_ok_chunks: "frag_ok f vs \<Longrightarrow> \<not> fr_marker f \<Longrightarrow> frag_chunks f = map scalar_bytes vs"
  by (simp add: frag_chunks_def frag_ok_def text_chunks_encode)

lemma piece_okI: "\<not> fr_marker f \<Longrightarrow> vs \<noteq> [] \<Longrightarrow> frag_ok f vs \<Longrightarrow> piece_ok f"
  by (auto simp: piece_ok_def)

lemma piece_cases:
  assumes "piece_ok f"
  obtains (marker) "fr_marker f" "fr_length f = 1" "fr_text f = []" "fr_byte_length f = 0"
  | (run) vs where "\<not> fr_marker f" "vs \<noteq> []" "frag_ok f vs" "frag_chunks f = map scalar_bytes vs"
  using assms frag_ok_chunks by (auto simp: piece_ok_def split: if_splits)

lemma piece_length: "piece_ok f \<Longrightarrow> length (frag_chunks f) = fr_length f"
  by (elim piece_cases) (auto simp: frag_chunks_def frag_ok_def)

lemma piece_pos: "piece_ok f \<Longrightarrow> 0 < fr_length f"
  by (elim piece_cases) (auto simp: frag_ok_def)

lemma piece_text: "piece_ok f \<Longrightarrow> concat (frag_chunks f) = fr_text f"
  by (elim piece_cases) (auto simp: frag_chunks_def frag_ok_def encode_scalars_def)

lemma piece_bytes: "piece_ok f \<Longrightarrow> fr_byte_length f = length (fr_text f)"
  by (elim piece_cases) (auto simp: frag_ok_def)

lemma length_frag_cells [simp]: "length (frag_cells f) = length (frag_chunks f)"
  by (simp add: frag_cells_def)

lemma frag_cells_nth:
  "k < length (frag_chunks f) \<Longrightarrow> frag_cells f ! k =
     Cell (frag_item f k) (link_at fragment_ops f k) (frag_chunks f ! k) (fr_marker f) (set (fr_deletions f))"
  by (simp add: frag_cells_def nth_enumerate_eq)

lemma frag_cells_bytes: "concat (map cl_bytes (frag_cells f)) = concat (frag_chunks f)"
proof -
  have "map cl_bytes (frag_cells f) = frag_chunks f"
    by (rule nth_equalityI) (simp_all add: frag_cells_nth)
  then show ?thesis
    by simp
qed

lemma frag_cells_items:
  "piece_ok f \<Longrightarrow> map (\<lambda>c. (cl_id c, cl_link c)) (frag_cells f) = run_items fragment_ops f"
  by (rule nth_equalityI) (simp_all add: piece_length frag_cells_nth run_items_nth item_at_frag)

lemma text_cells_items:
  "\<forall>f \<in> set frags. piece_ok f \<Longrightarrow>
     map (\<lambda>c. (cl_id c, cl_link c)) (text_cells frags) = items fragment_ops frags"
  by (induction frags) (simp_all add: frag_cells_items)

section \<open>Splits\<close>

lemma encode_map_take: "list_all is_scalar vs \<Longrightarrow> list_all is_scalar (take k vs) \<and> list_all is_scalar (drop k vs)"
  by (auto simp: list_all_iff dest: in_set_takeD in_set_dropD)

lemma split_marker:
  "split_fragment f k = (h, t) \<Longrightarrow> fr_marker h = fr_marker f \<and> fr_marker t = False \<and>
     fr_origin h = fr_origin f \<and> fr_link h = fr_link f \<and> fr_length h = k \<and> fr_length t = fr_length f - k"
  by (auto simp: split_fragment_def Let_def default_fragment_def split: prod.splits option.splits)

lemma split_piece:
  assumes ok: "piece_ok f" and k: "0 < k" "k < fr_length f" and s: "split_fragment f k = (h, t)"
  shows "piece_ok h" "piece_ok t" "frag_chunks h = take k (frag_chunks f)" "frag_chunks t = drop k (frag_chunks f)"
    "fr_visible h = fr_visible f" "fr_visible t = fr_visible f" "fr_deletions h = fr_deletions f"
    "fr_deletions t = fr_deletions f" "\<not> fr_marker f" "\<not> fr_marker h" "\<not> fr_marker t" "fr_text h @ fr_text t = fr_text f"
proof -
  obtain vs where vs: "\<not> fr_marker f" "vs \<noteq> []" "frag_ok f vs" "frag_chunks f = map scalar_bytes vs"
    using ok k by (elim piece_cases) auto
  have len: "length vs = fr_length f"
    using vs(3) by (simp add: frag_ok_def)
  let ?us = "take k vs" and ?ws = "drop k vs"
  have ok': "frag_ok f (?us @ ?ws)" and s': "split_fragment f (length ?us) = (h, t)"
    using vs(3) s k len by simp_all
  note ht = split_fragment_ok [OF ok' s']
  have m: "\<not> fr_marker h" "\<not> fr_marker t"
    using split_marker [OF s] vs(1) by simp_all
  show "piece_ok h" "piece_ok t"
    using piece_okI [OF m(1) _ ht(1)] piece_okI [OF m(2) _ ht(2)] k len vs(2) by auto
  show "frag_chunks h = take k (frag_chunks f)" "frag_chunks t = drop k (frag_chunks f)"
    using frag_ok_chunks [OF ht(1) m(1)] frag_ok_chunks [OF ht(2) m(2)] vs(4) by (simp_all add: take_map drop_map)
  show "fr_visible h = fr_visible f" "fr_visible t = fr_visible f" "fr_deletions h = fr_deletions f"
    "fr_deletions t = fr_deletions f" "\<not> fr_marker f" "\<not> fr_marker h" "\<not> fr_marker t" "fr_text h @ fr_text t = fr_text f"
    using ht vs(1) m by simp_all
qed

lemma split_link_at:
  assumes "0 < k" "k < fr_length f" "split_fragment f k = (h, t)"
  shows "j < k \<Longrightarrow> link_at fragment_ops h j = link_at fragment_ops f j \<and> frag_item h j = frag_item f j"
    "link_at fragment_ops t j = link_at fragment_ops f (k + j) \<and> frag_item t j = frag_item f (k + j)"
proof -
  have h: "fr_origin h = fr_origin f" "fr_link h = fr_link f"
    using split_marker [OF assms(3)] by simp_all
  have t: "fr_origin t = item_at fragment_ops f k" "fr_link t = link_at fragment_ops f k"
    using fragments.split_tail [of k f h t] assms by simp_all
  show "j < k \<Longrightarrow> link_at fragment_ops h j = link_at fragment_ops f j \<and> frag_item h j = frag_item f j"
    using h by (simp add: link_at_def item_at_def frag_item_def)
  show "link_at fragment_ops t j = link_at fragment_ops f (k + j) \<and> frag_item t j = frag_item f (k + j)"
    using t assms(1) by (auto simp: link_at_def item_at_def frag_item_def)
qed

lemma split_cells:
  assumes ok: "piece_ok f" and k: "0 < k" "k < fr_length f" and s: "split_fragment f k = (h, t)"
  shows "frag_cells h = take k (frag_cells f)" "frag_cells t = drop k (frag_cells f)"
proof -
  note p = split_piece [OF ok k s]
  have len: "length (frag_chunks f) = fr_length f"
    using piece_length [OF ok] .
  show "frag_cells h = take k (frag_cells f)"
    by (rule nth_equalityI) (use p k len split_link_at(1) [OF k s] in \<open>simp_all add: frag_cells_nth\<close>)
  show "frag_cells t = drop k (frag_cells f)"
    by (rule nth_equalityI) (use p k len split_link_at(2) [OF k s] in \<open>simp_all add: frag_cells_nth\<close>)
qed

section \<open>Byte and scalar offsets\<close>

lemma count_loop_prefix:
  "list_all is_scalar (us @ vs @ ws) \<Longrightarrow>
     count_loop (encode_scalars (us @ vs @ ws)) (length (encode_scalars (us @ vs))) (length (encode_scalars us)) c =
       c + length vs"
proof (induction vs arbitrary: us c)
  case Nil
  then show ?case
    by (subst count_loop.simps) simp
next
  case (Cons v vs)
  have sc: "list_all is_scalar (us @ v # vs @ ws)"
    using Cons.prems by simp
  note step = text_step [OF sc]
  have v: "is_scalar v"
    using sc by simp
  have w: "frag_width (byte_at (encode_scalars (us @ v # vs @ ws)) (length (encode_scalars us))) = scalar_width v"
    using step(1) frag_width_lead(1) [OF v] by simp
  have "length (encode_scalars us) < length (encode_scalars (us @ v # vs))"
    using width_pos(1) [of v] by (simp add: encode_simps length_scalar_width)
  then show ?case
    using Cons.IH [of "us @ [v]" "Suc c"] Cons.prems w step(2) by (subst count_loop.simps) simp
qed

lemma count_chars_prefix:
  "list_all is_scalar (vs @ ws) \<Longrightarrow> count_utf8_chars (encode_scalars (vs @ ws)) (length (encode_scalars vs)) = length vs"
  using count_loop_prefix [of "[]" vs ws 0] by (simp add: count_utf8_chars_def encode_simps)

lemma char_offset_prefix:
  "list_all is_scalar (vs @ ws) \<Longrightarrow> char_to_byte_offset (encode_scalars (vs @ ws)) (length vs) = length (encode_scalars vs)"
  using prefix_loop_spec [of "[]" vs ws] by (simp add: char_to_byte_offset_def encode_simps)

lemma cut_count:
  assumes ok: "piece_ok f" and k: "k \<le> fr_length f"
  shows "count_utf8_chars (fr_text f) (char_to_byte_offset (fr_text f) k) = k \<or> fr_marker f"
proof (cases "fr_marker f")
  case False
  then obtain vs where vs: "frag_ok f vs"
    using ok by (elim piece_cases) auto
  have "list_all is_scalar (take k vs @ drop k vs)" "fr_text f = encode_scalars (take k vs @ drop k vs)"
    "length (take k vs) = k"
    using vs k by (simp_all add: frag_ok_def)
  then show ?thesis
    using count_chars_prefix char_offset_prefix by metis
qed simp

text \<open>Cutting a fragment of a list inside.\<close>

lemma cut_at_eq:
  assumes ok: "piece_ok (frags ! i)" and k: "0 < k" "k < fr_length (frags ! i)"
  obtains h t where "split_fragment (frags ! i) k = (h, t)"
    "cut_at i k frags = take i frags @ [h, t] @ drop (i + 1) frags"
proof -
  have "\<not> fr_marker (frags ! i)"
    using ok k by (elim piece_cases) auto
  then have "count_utf8_chars (fr_text (frags ! i)) (char_to_byte_offset (fr_text (frags ! i)) k) = k"
    using cut_count [OF ok, of k] k by simp
  then show thesis
    using that by (cases "split_fragment (frags ! i) k") (simp add: cut_at_def split_fragment_at_def)
qed

lemma text_cells_take_drop:
  "i < length frags \<Longrightarrow> text_cells frags =
     text_cells (take i frags) @ frag_cells (frags ! i) @ text_cells (drop (i + 1) frags)"
  using id_take_nth_drop [of i frags] by (metis Suc_eq_plus1 text_cells_simps(2,3))

section \<open>Insertions\<close>

text \<open>The pieces of one list lie inside the pieces of another.\<close>

definition frag_ids :: "fragment \<Rightarrow> identity set" where
  "frag_ids f = cl_id ` set (frag_cells f)"

definition finer :: "fragment list \<Rightarrow> fragment list \<Rightarrow> bool" where
  "finer gs fs \<longleftrightarrow> (\<forall>g \<in> set gs. \<exists>f \<in> set fs. frag_ids g \<subseteq> frag_ids f)"

lemma finer_refl [simp]: "finer fs fs"
  by (auto simp: finer_def)

lemma finer_subset: "set gs \<subseteq> set fs \<Longrightarrow> finer gs fs"
  by (auto simp: finer_def)

lemma finer_trans: "finer hs gs \<Longrightarrow> finer gs fs \<Longrightarrow> finer hs fs"
  unfolding finer_def by (meson subset_trans)

lemma split_ids:
  assumes "piece_ok f" "0 < k" "k < fr_length f" "split_fragment f k = (h, t)"
  shows "frag_ids h \<subseteq> frag_ids f" "frag_ids t \<subseteq> frag_ids f"
  using split_cells [OF assms] by (auto simp: frag_ids_def dest: in_set_takeD in_set_dropD)

text \<open>An insertion of a run adds its cells at the flat position.\<close>

lemma items_length_cells:
  "\<forall>f \<in> set frags. piece_ok f \<Longrightarrow> length (items fragment_ops frags) = length (text_cells frags)"
  using text_cells_items [of frags] by (metis length_map)

lemma insert_run_cells:
  assumes ok: "\<forall>f \<in> set frags. piece_ok f" and p: "norm_pos fragment_ops frags p" and inc: "piece_ok inc"
  shows "text_cells (insert_run fragment_ops frags p inc) =
      take (flat fragment_ops frags p) (text_cells frags) @ frag_cells inc @
      drop (flat fragment_ops frags p) (text_cells frags)"
    "\<forall>f \<in> set (insert_run fragment_ops frags p inc). piece_ok f"
    "finer (insert_run fragment_ops frags p inc) (inc # frags)"
proof -
  obtain i k where pk: "p = (i, k)"
    by (cases p)
  have le: "i \<le> length frags" and bound: "0 < k \<Longrightarrow> i < length frags \<and> k < fr_length (frags ! i)"
    using p pk by (auto simp: norm_pos_def valid_pos_def)
  have len: "length (items fragment_ops (take i frags)) = length (text_cells (take i frags))"
    using ok by (intro items_length_cells) (auto dest: in_set_takeD)
  have "text_cells (insert_run fragment_ops frags p inc) =
      take (flat fragment_ops frags p) (text_cells frags) @ frag_cells inc @
      drop (flat fragment_ops frags p) (text_cells frags) \<and>
    (\<forall>f \<in> set (insert_run fragment_ops frags p inc). piece_ok f) \<and>
    finer (insert_run fragment_ops frags p inc) (inc # frags)"
  proof (cases "0 < k")
    case True
    let ?f = "frags ! i"
    have i: "i < length frags" "k < fr_length ?f" and f: "piece_ok ?f"
      using bound [OF True] ok by simp_all
    obtain h t where s: "split_fragment ?f k = (h, t)"
      by (cases "split_fragment ?f k")
    note sp = split_piece [OF f True i(2) s] split_cells [OF f True i(2) s]
    have "flat fragment_ops frags p = length (text_cells (take i frags)) + k"
      using len pk by (simp add: flat_def)
    moreover have "k \<le> length (frag_cells ?f)"
      using i(2) piece_length [OF f] by simp
    ultimately have "take (flat fragment_ops frags p) (text_cells frags) = text_cells (take i frags) @ frag_cells h"
      "drop (flat fragment_ops frags p) (text_cells frags) = frag_cells t @ text_cells (drop (i + 1) frags)"
      using text_cells_take_drop [OF i(1)] sp by simp_all
    moreover have "insert_run fragment_ops frags p inc = take i frags @ [h, inc, t] @ drop (i + 1) frags"
      using s pk True by (simp add: insert_run_def)
    moreover have "finer (take i frags @ [h, inc, t] @ drop (i + 1) frags) (inc # frags)"
      using split_ids [OF f True i(2) s] nth_mem [OF i(1)]
      by (auto simp: finer_def dest: in_set_takeD in_set_dropD)
    ultimately show ?thesis
      using sp(1,2) ok inc by (auto dest: in_set_takeD in_set_dropD)
  next
    case False
    have "flat fragment_ops frags p = length (text_cells (take i frags))"
      using len pk False by (simp add: flat_def)
    moreover have "text_cells frags = text_cells (take i frags) @ text_cells (drop i frags)"
      by (metis append_take_drop_id text_cells_simps(3))
    moreover have "insert_run fragment_ops frags p inc = take i frags @ inc # drop i frags"
      using pk False by (simp add: insert_run_def)
    moreover have "finer (take i frags @ inc # drop i frags) (inc # frags)"
      by (rule finer_subset) (auto dest: in_set_takeD in_set_dropD)
    ultimately show ?thesis
      using ok inc by (auto dest: in_set_takeD in_set_dropD)
  qed
  then show "text_cells (insert_run fragment_ops frags p inc) =
      take (flat fragment_ops frags p) (text_cells frags) @ frag_cells inc @
      drop (flat fragment_ops frags p) (text_cells frags)"
    "\<forall>f \<in> set (insert_run fragment_ops frags p inc). piece_ok f"
    "finer (insert_run fragment_ops frags p inc) (inc # frags)"
    by simp_all
qed

lemma norm_pos_end: "norm_pos R frags (length frags, 0)"
  by (simp add: norm_pos_def)

lemma integrate_cells:
  assumes ok: "runs_ok fragment_ops frags" "\<forall>f \<in> set frags. piece_ok f" and inc: "piece_ok inc"
    and fresh: "run_fresh fragment_ops (set (run_ids fragment_ops frags)) inc" and wf: "link_wf (fr_link inc)"
    and some: "integrate fragment_ops frags inc = Some frags'"
  shows "runs_ok fragment_ops frags'" "\<forall>f \<in> set frags'. piece_ok f"
    "\<exists>us vs. text_cells frags = us @ vs \<and> text_cells frags' = us @ frag_cells inc @ vs"
    "finer frags' (inc # frags)"
proof -
  have present: "link_present (links fragment_ops frags) (run_link fragment_ops inc)"
    using integrate_None_iff [OF ok(1) fresh] wf some by simp
  obtain q where q: "run_cut fragment_ops frags inc q"
    and slow: "integrate_slow fragment_ops frags inc = Some (insert_run fragment_ops frags q inc)"
    using slow_cut [OF ok(1) fresh present] by blast
  have eq: "frags' = insert_run fragment_ops frags q inc"
    using integrate_eq_slow [OF ok(1) fresh] slow some by simp
  have n: "norm_pos fragment_ops frags q"
    using q by simp
  show "runs_ok fragment_ops frags'"
    using fragments.run_cut_ok [OF ok(1) fresh q] eq by simp
  show "\<forall>f \<in> set frags'. piece_ok f"
    using insert_run_cells(2) [OF ok(2) n inc] eq by simp
  show "\<exists>us vs. text_cells frags = us @ vs \<and> text_cells frags' = us @ frag_cells inc @ vs"
    using insert_run_cells(1) [OF ok(2) n inc] eq
    by (intro exI [of _ "take (flat fragment_ops frags q) (text_cells frags)"]
        exI [of _ "drop (flat fragment_ops frags q) (text_cells frags)"]) simp
  show "finer frags' (inc # frags)"
    using insert_run_cells(3) [OF ok(2) n inc] eq by simp
qed

end
