(* ===== verification/Text_Marks.thy ===== *)
theory Text_Marks
  imports Text_Cells
begin

text \<open>
  Deletion runs at work: whichever way the engine resolves them, by scanning the fragments or by the
  interval index, the cells they name get the deletion and nothing else changes.
\<close>

section \<open>Marked cells\<close>

definition mark_cell :: "identity set \<Rightarrow> identity \<Rightarrow> cell \<Rightarrow> cell" where
  "mark_cell D d c =
     (if cl_id c \<in> D
      then Cell (cl_id c) (cl_link c) (cl_bytes c) (cl_marker c) (insert d (cl_deletions c)) else c)"

lemma mark_cell_simps [simp]:
  "cl_id (mark_cell D d c) = cl_id c" "cl_link (mark_cell D d c) = cl_link c"
  "cl_bytes (mark_cell D d c) = cl_bytes c" "cl_marker (mark_cell D d c) = cl_marker c"
  "cl_deletions (mark_cell D d c) = (if cl_id c \<in> D then insert d (cl_deletions c) else cl_deletions c)"
  by (simp_all add: mark_cell_def)

lemma mark_cell_union: "mark_cell D d (mark_cell E d c) = mark_cell (D \<union> E) d c"
  by (simp add: mark_cell_def)

lemma mark_cell_none: "cl_id c \<notin> D \<Longrightarrow> mark_cell D d c = c"
  by (simp add: mark_cell_def)

lemma mark_cells_none: "(\<forall>c \<in> set cs. cl_id c \<notin> D) \<Longrightarrow> map (mark_cell D d) cs = cs"
  by (simp add: mark_cell_none map_idI)

lemma mark_cell_empty [simp]: "mark_cell {} d = id"
  by (auto simp: mark_cell_def)

abbreviation pieces_ok :: "fragment list \<Rightarrow> bool" where
  "pieces_ok frags \<equiv> \<forall>f \<in> set frags. piece_ok f"

text \<open>Whether runs are well placed depends on their cells only.\<close>

lemma text_cells_ids: "pieces_ok frags \<Longrightarrow> map cl_id (text_cells frags) = run_ids fragment_ops frags"
  using arg_cong [OF text_cells_items [of frags], of "map fst"] by (simp add: run_ids_def comp_def)

lemma runs_ok_cells:
  assumes "runs_ok fragment_ops frags" "pieces_ok frags" "pieces_ok frags'"
    and "map (\<lambda>c. (cl_id c, cl_link c)) (text_cells frags') = map (\<lambda>c. (cl_id c, cl_link c)) (text_cells frags)"
  shows "runs_ok fragment_ops frags'"
proof -
  have "items fragment_ops frags' = items fragment_ops frags"
    using assms(2-4) text_cells_items by metis
  then show ?thesis
    using assms(1,3) piece_pos by (simp add: runs_ok_def run_ids_def)
qed

lemma cells_distinct:
  "runs_ok fragment_ops frags \<Longrightarrow> pieces_ok frags \<Longrightarrow> distinct (map cl_id (text_cells frags))"
  using runs_ok_distinct text_cells_ids by metis

section \<open>One target\<close>

lemma push_deletion_piece [simp]: "piece_ok (push_deletion d f) = piece_ok f"
  by (auto simp: piece_ok_def push_deletion_def frag_ok_def)

lemma push_deletion_simps [simp]:
  "fr_origin (push_deletion d f) = fr_origin f" "fr_length (push_deletion d f) = fr_length f"
  "fr_marker (push_deletion d f) = fr_marker f" "frag_chunks (push_deletion d f) = frag_chunks f"
  "frag_item (push_deletion d f) = frag_item f"
  by (simp_all add: push_deletion_def frag_chunks_def frag_item_def fun_eq_iff)

lemma link_at_deletions [simp]: "link_at fragment_ops (f\<lparr>fr_deletions := ds\<rparr>) k = link_at fragment_ops f k"
  by (simp add: link_at_def item_at_def)

definition item_range :: "fragment \<Rightarrow> nat \<Rightarrow> nat \<Rightarrow> identity set" where
  "item_range f off n = frag_item f ` {off..<off + n}"

lemma frag_item_inject [simp]: "frag_item f j = frag_item f k \<longleftrightarrow> j = k"
  by (simp add: frag_item_def)

lemma frag_cells_id: "k < length (frag_chunks f) \<Longrightarrow> cl_id (frag_cells f ! k) = frag_item f k"
  by (simp add: frag_cells_nth)

lemma push_deletion_cells:
  assumes "\<forall>c \<in> set (frag_cells f). cl_id c \<in> D"
  shows "frag_cells (push_deletion d f) = map (mark_cell D d) (frag_cells f)"
proof (rule nth_equalityI)
  show "length (frag_cells (push_deletion d f)) = length (map (mark_cell D d) (frag_cells f))"
    by simp
next
  fix k
  assume k: "k < length (frag_cells (push_deletion d f))"
  then have "cl_id (frag_cells f ! k) \<in> D"
    using assms by (metis length_frag_cells nth_mem push_deletion_simps(4))
  then show "frag_cells (push_deletion d f) ! k = map (mark_cell D d) (frag_cells f) ! k"
    using k by (simp add: frag_cells_nth mark_cell_def) (simp add: push_deletion_def)
qed

lemma take_drop_ids:
  assumes ok: "piece_ok f"
  shows "c \<in> set (take n (frag_cells f)) \<Longrightarrow> cl_id c \<in> item_range f 0 n"
    "c \<in> set (drop n (frag_cells f)) \<Longrightarrow> cl_id c \<in> frag_item f ` {n..}"
  by (auto simp: in_set_conv_nth frag_cells_id item_range_def)

definition valid_target :: "fragment list \<Rightarrow> nat \<times> nat \<times> nat \<Rightarrow> bool" where
  "valid_target frags t = (case t of (k, off, n) \<Rightarrow> k < length frags \<and> 0 < n \<and> off + n \<le> fr_length (frags ! k))"

definition target_ids :: "fragment list \<Rightarrow> nat \<times> nat \<times> nat \<Rightarrow> identity set" where
  "target_ids frags t = (case t of (k, off, n) \<Rightarrow> item_range (frags ! k) off n)"

text \<open>A target inside a fragment becomes a fragment of its own and gets the deletion.\<close>

lemma mark_target_pieces:
  assumes ok: "piece_ok (frags ! k)" and v: "k < length frags" "0 < n" "off + n \<le> fr_length (frags ! k)"
  obtains ps where "mark_target d (k, off, n) frags = take k frags @ ps @ drop (k + 1) frags" "pieces_ok ps"
    "ps \<noteq> []" "text_cells ps = map (mark_cell (item_range (frags ! k) off n) d) (frag_cells (frags ! k))"
    "0 < off \<Longrightarrow> hd ps = fst (split_fragment (frags ! k) off)"
proof -
  let ?f = "frags ! k" and ?D = "item_range (frags ! k) off n"
  have len: "length (frag_cells ?f) = fr_length ?f"
    using piece_length [OF ok] by simp
  have g: "\<not> (k \<ge> length frags)" "\<not> (off > fr_length ?f \<or> n > fr_length ?f - off)"
    using v by auto
  obtain pre mid where first: "frag_cells ?f = text_cells pre @ frag_cells mid" "pieces_ok pre" "piece_ok mid"
    "(if off > 0 then cut_at k off frags else frags) = take k frags @ pre @ mid # drop (k + 1) frags"
    "length pre = (if off > 0 then 1 else 0)" "fr_length mid = fr_length ?f - off" "length (text_cells pre) = off"
    "0 < off \<Longrightarrow> pre = [fst (split_fragment ?f off)]" "\<And>j. frag_item mid j = frag_item ?f (off + j)"
  proof (cases "off > 0")
    case True
    then have off: "off < fr_length ?f"
      using v by simp
    obtain h t where s: "split_fragment ?f off = (h, t)"
      "cut_at k off frags = take k frags @ [h, t] @ drop (k + 1) frags"
      using cut_at_eq [OF ok True off] .
    note cells = split_cells [OF ok True off s(1)]
    have "frag_cells ?f = text_cells [h] @ frag_cells t"
      using cells by simp
    moreover have "pieces_ok [h]" "piece_ok t"
      using split_piece(1,2) [OF ok True off s(1)] by simp_all
    moreover have "(if off > 0 then cut_at k off frags else frags) = take k frags @ [h] @ t # drop (k + 1) frags"
      using True s(2) by simp
    moreover have "length [h] = (if off > 0 then 1 else 0)" "fr_length t = fr_length ?f - off"
      using True split_marker [OF s(1)] by simp_all
    moreover have "length (text_cells [h]) = off"
      unfolding text_cells_simps cells(1) append_Nil2 using len off by (subst length_take) simp
    moreover have "0 < off \<Longrightarrow> [h] = [fst (split_fragment ?f off)]"
      using s(1) by simp
    moreover have "\<And>j. frag_item t j = frag_item ?f (off + j)"
      using split_link_at(2) [OF True off s(1)] by simp
    ultimately show thesis
      by (rule that)
  next
    case False
    then show thesis
      using that [of "[]" ?f] v ok by (simp add: id_take_nth_drop [symmetric])
  qed
  let ?k = "if off > 0 then k + 1 else k" and ?frags1 = "if off > 0 then cut_at k off frags else frags"
  have k1: "?k = length (take k frags @ pre)" "?frags1 = (take k frags @ pre) @ mid # drop (k + 1) frags"
    using first(4,5) v(1) by (simp_all split: if_splits)
  have nth: "?frags1 ! ?k = mid" "?k < length ?frags1"
    unfolding k1 by (rule nth_append_length) (simp only: length_append length_Cons)
  have lmid: "n \<le> fr_length mid"
    using first(6) v(3) by simp
  obtain m post where second: "frag_cells mid = frag_cells m @ text_cells post" "piece_ok m" "pieces_ok post"
    "(if n < fr_length mid then cut_at ?k n ?frags1 else ?frags1) = (take k frags @ pre) @ m # post @ drop (k + 1) frags"
    "fr_length m = n" "\<And>j. frag_item m j = frag_item mid j"
  proof (cases "n < fr_length mid")
    case True
    have okm: "piece_ok (?frags1 ! ?k)" "n < fr_length (?frags1 ! ?k)"
      using first(3) nth True by simp_all
    obtain h t where s: "split_fragment (?frags1 ! ?k) n = (h, t)"
      "cut_at ?k n ?frags1 = take ?k ?frags1 @ [h, t] @ drop (?k + 1) ?frags1"
      using cut_at_eq [OF okm(1) v(2) okm(2)] .
    have s': "split_fragment mid n = (h, t)"
      using s(1) nth by simp
    have split: "take (length xs) (xs @ mid # ys) = xs" "drop (length xs + 1) (xs @ mid # ys) = ys" for xs ys
      by simp_all
    have td: "take ?k ?frags1 = take k frags @ pre" "drop (?k + 1) ?frags1 = drop (k + 1) frags"
      unfolding k1 by (rule split)+
    have "frag_cells mid = frag_cells h @ text_cells [t]"
      using split_cells [OF first(3) v(2) True s'] by simp
    moreover have "piece_ok h" "pieces_ok [t]"
      using split_piece(1,2) [OF first(3) v(2) True s'] by simp_all
    moreover have "(if n < fr_length mid then cut_at ?k n ?frags1 else ?frags1) =
        (take k frags @ pre) @ h # [t] @ drop (k + 1) frags"
      using True s(2) td by simp
    moreover have "fr_length h = n" "\<And>j. frag_item h j = frag_item mid j"
      using split_marker [OF s'] by (simp_all add: frag_item_def)
    ultimately show thesis
      by (rule that)
  next
    case False
    have "frag_cells mid = frag_cells mid @ text_cells []" "piece_ok mid" "pieces_ok []"
      using first(3) by simp_all
    moreover have "(if n < fr_length mid then cut_at ?k n ?frags1 else ?frags1) =
        (take k frags @ pre) @ mid # [] @ drop (k + 1) frags"
      unfolding if_not_P [OF False] append_Nil by (rule k1(2))
    moreover have "fr_length mid = n" "\<And>j. frag_item mid j = frag_item mid j"
      using lmid False by simp_all
    ultimately show thesis
      by (rule that)
  qed
  let ?ps = "pre @ push_deletion d m # post"
  have nth2: "((take k frags @ pre) @ m # zs) ! ?k = m" for zs
    unfolding k1(1) by (rule nth_append_length)
  have "mark_target d (k, off, n) frags =
      ((take k frags @ pre) @ m # post @ drop (k + 1) frags)[?k := push_deletion d m]"
    unfolding mark_target_def prod.case if_not_P [OF g(1)] if_not_P [OF g(2)] Let_def nth(1) second(4) nth2 ..
  also have "\<dots> = take k frags @ ?ps @ drop (k + 1) frags"
    unfolding k1(1) list_update_length by simp
  finally have eq: "mark_target d (k, off, n) frags = take k frags @ ?ps @ drop (k + 1) frags" .
  have pre: "take off (frag_cells ?f) = text_cells pre" "drop off (frag_cells ?f) = frag_cells mid"
    using first(1,7) by simp_all
  have lm: "length (frag_cells m) = n"
    using second(2,5) piece_length by simp
  have "\<forall>c \<in> set (text_cells pre). cl_id c \<notin> ?D"
    using take_drop_ids(1) [OF ok, of _ off] pre(1) by (fastforce simp: item_range_def)
  then have "map (mark_cell ?D d) (text_cells pre) = text_cells pre"
    by (rule mark_cells_none)
  moreover have "\<forall>c \<in> set (frag_cells m). cl_id c \<in> ?D"
  proof
    fix c
    assume "c \<in> set (frag_cells m)"
    then obtain j where "j < n" "c = frag_cells m ! j"
      using lm by (metis in_set_conv_nth)
    then show "cl_id c \<in> ?D"
      using lm second(6) first(9) by (auto simp: frag_cells_id item_range_def)
  qed
  then have "frag_cells (push_deletion d m) = map (mark_cell ?D d) (frag_cells m)"
    by (rule push_deletion_cells)
  moreover have "\<forall>c \<in> set (text_cells post). cl_id c \<notin> ?D"
  proof
    fix c
    assume "c \<in> set (text_cells post)"
    then have "c \<in> set (drop (off + n) (frag_cells ?f))"
      using pre(2) second(1) lm by (metis add.commute append_eq_conv_conj drop_drop)
    then show "cl_id c \<notin> ?D"
      using take_drop_ids(2) [OF ok] by (fastforce simp: item_range_def)
  qed
  then have "map (mark_cell ?D d) (text_cells post) = text_cells post"
    by (rule mark_cells_none)
  ultimately have "text_cells ?ps = map (mark_cell ?D d) (frag_cells ?f)"
    using first(1) second(1) by simp
  moreover have "pieces_ok ?ps"
    using first(2) second(2,3) by auto
  moreover have "0 < off \<Longrightarrow> hd ?ps = fst (split_fragment ?f off)"
    using first(8) by simp
  ultimately show thesis
    using that [OF eq] by simp
qed

lemma item_range_cells:
  assumes ok: "piece_ok f" and n: "off + n \<le> fr_length f" and i: "i \<in> item_range f off n"
  shows "i \<in> cl_id ` set (frag_cells f)"
proof -
  obtain j where j: "j < fr_length f" "i = frag_item f j"
    using i n by (auto simp: item_range_def)
  then have "cl_id (frag_cells f ! j) = i" "j < length (frag_cells f)"
    using piece_length [OF ok] by (simp_all add: frag_cells_id)
  then show ?thesis
    using nth_mem by blast
qed

lemma mark_target_cells:
  assumes ok: "pieces_ok frags" and d: "distinct (map cl_id (text_cells frags))" and v: "valid_target frags t"
  shows "pieces_ok (mark_target x t frags)"
    "text_cells (mark_target x t frags) = map (mark_cell (target_ids frags t) x) (text_cells frags)"
    "finer (mark_target x t frags) frags"
proof -
  obtain k off n where t: "t = (k, off, n)"
    by (cases t)
  have k: "k < length frags" "0 < n" "off + n \<le> fr_length (frags ! k)"
    using v t by (simp_all add: valid_target_def)
  let ?D = "item_range (frags ! k) off n"
  have f: "piece_ok (frags ! k)"
    using ok k(1) by simp
  obtain ps where ps: "mark_target x (k, off, n) frags = take k frags @ ps @ drop (k + 1) frags" "pieces_ok ps"
    "text_cells ps = map (mark_cell ?D x) (frag_cells (frags ! k))"
    using mark_target_pieces [OF f k, of x] by metis
  show "pieces_ok (mark_target x t frags)"
    using ps(1,2) t ok by (auto dest: in_set_takeD in_set_dropD)
  have "frag_ids g \<subseteq> frag_ids (frags ! k)" if "g \<in> set ps" for g
  proof -
    have "set (frag_cells g) \<subseteq> set (text_cells ps)"
      using that by (auto simp: text_cells_def)
    then show ?thesis
      unfolding ps(3) by (force simp: frag_ids_def)
  qed
  then show "finer (mark_target x t frags) frags"
    using ps(1) t nth_mem [OF k(1)] by (auto simp: finer_def dest: in_set_takeD in_set_dropD)
  have split: "text_cells frags = text_cells (take k frags) @ frag_cells (frags ! k) @ text_cells (drop (k + 1) frags)"
    using text_cells_take_drop [OF k(1)] .
  have "cl_id c \<notin> ?D" if "c \<in> set (text_cells (take k frags)) \<union> set (text_cells (drop (k + 1) frags))" for c
  proof
    assume "cl_id c \<in> ?D"
    then have "cl_id c \<in> cl_id ` set (frag_cells (frags ! k))"
      using item_range_cells [OF f k(3)] by blast
    then show False
      using d that unfolding split by auto
  qed
  then have "map (mark_cell ?D x) (text_cells (take k frags)) = text_cells (take k frags)"
    "map (mark_cell ?D x) (text_cells (drop (k + 1) frags)) = text_cells (drop (k + 1) frags)"
    by (simp_all add: mark_cells_none)
  moreover have "text_cells (mark_target x t frags) =
      text_cells (take k frags) @ text_cells ps @ text_cells (drop (k + 1) frags)"
    using ps(1) t by simp
  moreover have "target_ids frags t = ?D"
    using t by (simp add: target_ids_def)
  ultimately show "text_cells (mark_target x t frags) = map (mark_cell (target_ids frags t) x) (text_cells frags)"
    unfolding ps(3) by (subst split) simp
qed

section \<open>Several targets, from right to left\<close>

definition target_less :: "nat \<times> nat \<times> nat \<Rightarrow> nat \<times> nat \<times> nat \<Rightarrow> bool" where
  "target_less s t = (case s of (k, off, n) \<Rightarrow> case t of (k', off', n') \<Rightarrow> k < k' \<or> k = k' \<and> off + n \<le> off')"

lemma mark_target_keeps:
  assumes ok: "pieces_ok frags" and t: "valid_target frags t" and s: "valid_target frags s" "target_less s t"
  shows "valid_target (mark_target x t frags) s" "target_ids (mark_target x t frags) s = target_ids frags s"
proof -
  obtain k off n k' off' n' where eqs: "t = (k, off, n)" "s = (k', off', n')"
    by (cases t, cases s)
  have k: "k < length frags" "0 < n" "off + n \<le> fr_length (frags ! k)" and n': "0 < n'" "off' + n' \<le> fr_length (frags ! k')"
    using t s(1) eqs by (simp_all add: valid_target_def)
  have f: "piece_ok (frags ! k)"
    using ok k(1) by simp
  obtain ps where ps: "mark_target x (k, off, n) frags = take k frags @ ps @ drop (k + 1) frags" "ps \<noteq> []"
    "0 < off \<Longrightarrow> hd ps = fst (split_fragment (frags ! k) off)"
    using mark_target_pieces [OF f k, of x] by metis
  then obtain p ps' where lps: "ps = p # ps'"
    by (cases ps) auto
  consider "k' < k" | "k' = k" "off' + n' \<le> off"
    using s(2) eqs by (auto simp: target_less_def)
  then have "k' < length (mark_target x t frags) \<and> off' + n' \<le> fr_length (mark_target x t frags ! k') \<and>
      frag_item (mark_target x t frags ! k') = frag_item (frags ! k')"
  proof cases
    case 1
    then have "mark_target x t frags ! k' = frags ! k'" "k' < length (mark_target x t frags)"
      using ps(1,2) eqs k(1) by (simp_all add: nth_append)
    then show ?thesis
      using n' by simp
  next
    case 2
    then have off: "0 < off"
      using n' by simp
    obtain h t' where s': "split_fragment (frags ! k) off = (h, t')"
      by (cases "split_fragment (frags ! k) off")
    have "hd ps = h"
      using ps(3) [OF off] s' by simp
    then have "mark_target x t frags ! k' = h" "k' < length (mark_target x t frags)"
      using 2(1) ps(1,2) eqs k(1) lps by (simp_all add: nth_append hd_conv_nth)
    moreover have "fr_length h = off" "frag_item h = frag_item (frags ! k)"
      using split_marker [OF s'] by (simp_all add: frag_item_def fun_eq_iff)
    ultimately show ?thesis
      using 2 by simp
  qed
  then show "valid_target (mark_target x t frags) s" "target_ids (mark_target x t frags) s = target_ids frags s"
    using eqs n' by (auto simp: valid_target_def target_ids_def item_range_def)
qed

lemma mark_targets_cells:
  "pieces_ok frags \<Longrightarrow> distinct (map cl_id (text_cells frags)) \<Longrightarrow> \<forall>t \<in> set ts. valid_target frags t \<Longrightarrow>
     sorted_wrt target_less ts \<Longrightarrow>
     pieces_ok (fold (mark_target x) (rev ts) frags) \<and>
     text_cells (fold (mark_target x) (rev ts) frags) =
       map (mark_cell (\<Union> (target_ids frags ` set ts)) x) (text_cells frags) \<and>
     finer (fold (mark_target x) (rev ts) frags) frags"
proof (induction ts arbitrary: frags rule: rev_induct)
  case Nil
  then show ?case by simp
next
  case (snoc t ts)
  let ?frags = "mark_target x t frags"
  have v: "valid_target frags t" and vs: "\<forall>s \<in> set ts. valid_target frags s \<and> target_less s t"
    and sorted: "sorted_wrt target_less ts"
    using snoc.prems by (auto simp: sorted_wrt_append)
  have cells: "pieces_ok ?frags" "text_cells ?frags = map (mark_cell (target_ids frags t) x) (text_cells frags)"
    "finer ?frags frags"
    using mark_target_cells [OF snoc.prems(1,2) v] by simp_all
  have keep: "\<forall>s \<in> set ts. valid_target ?frags s" "\<And>s. s \<in> set ts \<Longrightarrow> target_ids ?frags s = target_ids frags s"
    using mark_target_keeps [OF snoc.prems(1) v] vs by blast+
  have "distinct (map cl_id (text_cells ?frags))"
    using snoc.prems(2) cells(2) by (simp add: comp_def)
  then have IH: "pieces_ok (fold (mark_target x) (rev ts) ?frags) \<and>
      text_cells (fold (mark_target x) (rev ts) ?frags) =
        map (mark_cell (\<Union> (target_ids ?frags ` set ts)) x) (text_cells ?frags) \<and>
      finer (fold (mark_target x) (rev ts) ?frags) ?frags"
    using snoc.IH [OF cells(1) _ keep(1) sorted] by blast
  have "\<Union> (target_ids ?frags ` set ts) = \<Union> (target_ids frags ` set ts)"
    using keep(2) by simp
  then show ?case
    using IH cells(2) finer_trans [OF _ cells(3)] by (simp add: comp_def mark_cell_union Un_commute)
qed

section \<open>The scan\<close>

definition item_span :: "identity \<Rightarrow> nat \<Rightarrow> identity set" where
  "item_span i n = Identity (actor i) ` {counter i..<counter i + n}"

lemma item_span_0 [simp]: "item_span i 0 = {}"
  by (simp add: item_span_def)

lemma item_span_split:
  "m \<le> n \<Longrightarrow> item_span i n = item_span i m \<union> item_span (Identity (actor i) (counter i + m)) (n - m)"
  by (simp add: item_span_def image_Un [symmetric] ivl_disj_un_two(3))

lemma item_range_span: "item_range f off n = item_span (frag_item f off) n"
proof -
  have "{counter (fr_origin f) + off..<counter (fr_origin f) + off + n} =
      (\<lambda>j. counter (fr_origin f) + j) ` {off..<off + n}"
    by (simp add: image_add_atLeastLessThan ac_simps)
  then show ?thesis
    by (simp only: item_range_def item_span_def frag_item_def [abs_def] identity.sel image_image)
qed

lemma frag_holds_iff: "frag_holds f i \<longleftrightarrow> (\<exists>j < fr_length f. i = frag_item f j)"
proof
  assume h: "frag_holds f i"
  then have "i = frag_item f (counter i - counter (fr_origin f))"
    by (simp add: frag_holds_def frag_item_def identity.expand)
  then show "\<exists>j < fr_length f. i = frag_item f j"
    using h unfolding frag_holds_def by blast
qed (auto simp: frag_holds_def frag_item_def)

lemma holds_cells: "piece_ok f \<Longrightarrow> frag_holds f i \<longleftrightarrow> i \<in> cl_id ` set (frag_cells f)"
proof -
  assume ok: "piece_ok f"
  have "cl_id ` set (frag_cells f) = (\<lambda>j. cl_id (frag_cells f ! j)) ` {..<length (frag_cells f)}"
    by (auto simp: set_conv_nth)
  also have "\<dots> = frag_item f ` {..<fr_length f}"
    using piece_length [OF ok] by (intro image_cong) (simp_all add: frag_cells_id)
  finally show ?thesis
    by (auto simp: frag_holds_iff)
qed

lemma holder_ex:
  assumes ok: "pieces_ok frags"
  shows "(\<exists>f \<in> set frags. frag_holds f i) \<longleftrightarrow> i \<in> cl_id ` set (text_cells frags)"
  using ok holds_cells by (auto simp: text_cells_def)

lemma find_upt_Some: "find P [0..<n] = Some k \<Longrightarrow> k < n \<and> P k"
  by (auto simp: find_Some_iff)

lemma find_upt_None: "find P [0..<n] = None \<longleftrightarrow> (\<forall>k < n. \<not> P k)"
  by (auto simp: find_None_iff)

lemma scan_step:
  assumes ok: "piece_ok (frags ! k)" and k: "k < length frags" and off: "offset < fr_length (frags ! k)"
    and n: "n = min remaining (fr_length (frags ! k) - offset)"
  shows "(let frags1 = (if offset \<noteq> 0 then cut_at k offset frags else frags);
              k1 = (if offset \<noteq> 0 then k + 1 else k);
              count = (if offset \<noteq> 0 then min remaining (fr_length (frags1 ! k1))
                       else min remaining (fr_length (frags ! k) - offset));
              frags2 = (if count < fr_length (frags1 ! k1) then cut_at k1 count frags1 else frags1)
          in F count (frags2[k1 := push_deletion d (frags2 ! k1)])) = F n (mark_target d (k, offset, n) frags)"
proof (cases "offset = 0")
  case True
  then show ?thesis
    using k n by (simp add: mark_target_def Let_def)
next
  case False
  then have off': "0 < offset"
    by simp
  obtain h t where s: "split_fragment (frags ! k) offset = (h, t)"
    "cut_at k offset frags = take k frags @ [h, t] @ drop (k + 1) frags"
    using cut_at_eq [OF ok off' off] .
  have len: "fr_length t = fr_length (frags ! k) - offset"
    using split_marker [OF s(1)] by simp
  have nth: "cut_at k offset frags ! (k + 1) = t"
    using s(2) k by (simp add: nth_append)
  have g: "\<not> (k \<ge> length frags)" "\<not> (offset > fr_length (frags ! k) \<or> n > fr_length (frags ! k) - offset)"
    using k off n by auto
  have cnt: "min remaining (fr_length t) = n"
    using n len by simp
  show ?thesis
    unfolding mark_target_def prod.case if_not_P [OF g(1)] if_not_P [OF g(2)] Let_def if_P [OF False] if_P [OF off']
      nth cnt ..
qed

lemma scan_run_cells:
  assumes "pieces_ok frags" "distinct (map cl_id (text_cells frags))" "remaining \<le> fuel"
    and "item_span nxt remaining \<subseteq> cl_id ` set (text_cells frags)"
  shows "pieces_ok (scan_run fuel d nxt remaining frags) \<and>
    text_cells (scan_run fuel d nxt remaining frags) = map (mark_cell (item_span nxt remaining) d) (text_cells frags) \<and>
    finer (scan_run fuel d nxt remaining frags) frags"
  using assms
proof (induction fuel arbitrary: nxt remaining frags)
  case 0
  then show ?case by simp
next
  case (Suc fuel)
  show ?case
  proof (cases "remaining = 0")
    case True
    then show ?thesis
      using Suc.prems(1) by simp
  next
    case False
    have "nxt \<in> item_span nxt remaining"
      using False by (auto simp: item_span_def image_iff intro!: bexI [of _ "counter nxt"])
    then obtain f where "f \<in> set frags" "frag_holds f nxt"
      using Suc.prems(4) holder_ex [OF Suc.prems(1)] by blast
    then obtain k where find: "find (\<lambda>k. frag_holds (frags ! k) nxt) [0..<length frags] = Some k"
      using find_upt_None [of "\<lambda>k. frag_holds (frags ! k) nxt" "length frags"]
      by (metis in_set_conv_nth option.exhaust)
    then have k: "k < length frags" "frag_holds (frags ! k) nxt"
      using find_upt_Some by blast+
    let ?f = "frags ! k" and ?off = "counter nxt - counter (fr_origin (frags ! k))"
    define n where "n = min remaining (fr_length ?f - ?off)"
    let ?frags = "mark_target d (k, ?off, n) frags" and ?nxt = "Identity (actor nxt) (counter nxt + n)"
    have off: "?off < fr_length ?f" "frag_item ?f ?off = nxt"
      using k(2) by (simp_all add: frag_holds_def frag_item_def identity.expand)
    have n: "0 < n" "n \<le> remaining" "?off + n \<le> fr_length ?f"
      using False off(1) unfolding n_def by auto
    have f: "piece_ok ?f"
      using Suc.prems(1) k(1) by simp
    have v: "valid_target frags (k, ?off, n)" and ids: "target_ids frags (k, ?off, n) = item_span nxt n"
      using k(1) n off(2) by (simp_all add: valid_target_def target_ids_def item_range_span)
    have step: "scan_run (Suc fuel) d nxt remaining frags =
        scan_run fuel d ?nxt (remaining - n) ?frags"
      using scan_step [OF f k(1) off(1) n_def, where d = d and
          F = "\<lambda>count frags'. scan_run fuel d (Identity (actor nxt) (counter nxt + count)) (remaining - count) frags'"]
        by (simp only: scan_run.simps(2) if_not_P [OF False] find option.case
            Let_def [where s = "counter nxt - counter (fr_origin (frags ! k))"])
    note cells = mark_target_cells [OF Suc.prems(1,2) v, of d, unfolded ids]
    have span: "item_span nxt remaining = item_span nxt n \<union> item_span ?nxt (remaining - n)"
      using item_span_split [OF n(2)] .
    have ids': "cl_id ` set (text_cells ?frags) = cl_id ` set (text_cells frags)"
      by (simp add: cells(2) image_image)
    have "pieces_ok (scan_run fuel d ?nxt (remaining - n) ?frags) \<and>
        text_cells (scan_run fuel d ?nxt (remaining - n) ?frags) =
          map (mark_cell (item_span ?nxt (remaining - n)) d) (text_cells ?frags) \<and>
        finer (scan_run fuel d ?nxt (remaining - n) ?frags) ?frags"
    proof (rule Suc.IH [OF cells(1)])
      show "distinct (map cl_id (text_cells ?frags))"
        using Suc.prems(2) cells(2) by (simp add: comp_def)
      show "remaining - n \<le> fuel"
        using n(1) Suc.prems(3) by simp
      show "item_span ?nxt (remaining - n) \<subseteq> cl_id ` set (text_cells ?frags)"
        using Suc.prems(4) span ids' by blast
    qed
    then show ?thesis
      using step cells(2) span finer_trans [OF _ cells(3)] by (simp add: comp_def mark_cell_union Un_commute)
  qed
qed

definition runs_span :: "deletion_run list \<Rightarrow> identity set" where
  "runs_span runs = (\<Union>r \<in> set runs. item_span (dr_first r) (dr_count r))"

lemma scan_deletion_cells:
  assumes "pieces_ok frags" "distinct (map cl_id (text_cells frags))" "runs_span runs \<subseteq> cl_id ` set (text_cells frags)"
  shows "pieces_ok (scan_deletion_runs frags runs d) \<and>
    text_cells (scan_deletion_runs frags runs d) = map (mark_cell (runs_span runs) d) (text_cells frags) \<and>
    finer (scan_deletion_runs frags runs d) frags"
  using assms
proof (induction runs arbitrary: frags)
  case Nil
  then show ?case
    by (simp add: scan_deletion_runs_def runs_span_def)
next
  case (Cons r runs)
  let ?frags = "scan_run (dr_count r) d (dr_first r) (dr_count r) frags"
  have sub: "item_span (dr_first r) (dr_count r) \<subseteq> cl_id ` set (text_cells frags)"
    "runs_span runs \<subseteq> cl_id ` set (text_cells frags)"
    using Cons.prems(3) by (auto simp: runs_span_def)
  have cells: "pieces_ok ?frags"
    "text_cells ?frags = map (mark_cell (item_span (dr_first r) (dr_count r)) d) (text_cells frags)"
    "finer ?frags frags"
    using scan_run_cells [OF Cons.prems(1,2) order_refl sub(1)] by simp_all
  have "distinct (map cl_id (text_cells ?frags))" "cl_id ` set (text_cells ?frags) = cl_id ` set (text_cells frags)"
    using Cons.prems(2) by (simp_all add: cells(2) comp_def image_image)
  then have "pieces_ok (scan_deletion_runs ?frags runs d) \<and>
      text_cells (scan_deletion_runs ?frags runs d) = map (mark_cell (runs_span runs) d) (text_cells ?frags) \<and>
      finer (scan_deletion_runs ?frags runs d) ?frags"
    using Cons.IH [OF cells(1)] sub(2) by simp
  then show ?case
    using finer_trans [OF _ cells(3)]
    by (simp add: scan_deletion_runs_def runs_span_def cells(2) comp_def mark_cell_union Un_commute)
qed

section \<open>The interval index\<close>

text \<open>An interval of the index: where the run starts and its rank.\<close>

definition interval_of :: "fragment list \<Rightarrow> actor_id \<Rightarrow> nat \<times> nat \<Rightarrow> bool" where
  "interval_of frags a p = (case p of (c, k) \<Rightarrow>
     k < length frags \<and> fr_origin (frags ! k) = Identity a c \<and> 0 < fr_length (frags ! k))"

definition interval_less :: "fragment list \<Rightarrow> nat \<times> nat \<Rightarrow> nat \<times> nat \<Rightarrow> bool" where
  "interval_less frags p q = (case p of (c, k) \<Rightarrow> case q of (c', k') \<Rightarrow> c + fr_length (frags ! k) \<le> c')"

lemma interval_item: "interval_of frags a (c, k) \<Longrightarrow> frag_item (frags ! k) j = Identity a (c + j)"
  by (simp add: interval_of_def frag_item_def)

lemma interval_range: "interval_of frags a (c, k) \<Longrightarrow> item_range (frags ! k) off n = Identity a ` {c + off..<c + off + n}"
  by (simp add: item_range_span interval_item item_span_def)

lemma run_targets_span:
  assumes "\<forall>p \<in> set ps. interval_of frags a p" "sorted_wrt (interval_less frags) ps" "first' \<le> covered" "covered < end'"
    and "\<forall>x. covered \<le> x \<and> x < end' \<longrightarrow> (\<exists>(c, k) \<in> set ps. c \<le> x \<and> x < c + fr_length (frags ! k))"
  shows "(\<forall>t \<in> set (run_targets frags first' covered end' ps). valid_target frags t) \<and>
    \<Union> (target_ids frags ` set (run_targets frags first' covered end' ps)) = Identity a ` {covered..<end'}"
  using assms
proof (induction ps arbitrary: covered)
  case Nil
  then show ?case by auto
next
  case (Cons p ps)
  obtain c k where p: "p = (c, k)"
    by (cases p)
  let ?len = "fr_length (frags ! k)" and ?upto = "min end' (c + fr_length (frags ! k))"
  have i: "interval_of frags a (c, k)" and ps: "\<forall>p \<in> set ps. interval_of frags a p"
    "sorted_wrt (interval_less frags) ps"
    using Cons.prems(1,2) p by simp_all
  have less: "\<forall>(c', k') \<in> set ps. c + ?len \<le> c'"
    using Cons.prems(2) p by (auto simp: interval_less_def)
  have cov: "\<exists>(c', k') \<in> set ps. c' \<le> x \<and> x < c' + fr_length (frags ! k')"
    if "covered \<le> x" "x < end'" "\<not> (c \<le> x \<and> x < c + ?len)" for x
    using Cons.prems(5) that p by auto
  have c: "c \<le> covered"
  proof (rule ccontr)
    assume "\<not> c \<le> covered"
    then obtain c' k' where "(c', k') \<in> set ps" "c' \<le> covered"
      using cov [of covered] Cons.prems(4) by auto
    then show False
      using less \<open>\<not> c \<le> covered\<close> by auto
  qed
  then have start: "\<not> max first' c > covered" and clip: "max (max first' c) covered = covered"
    using Cons.prems(3) by simp_all
  show ?case
  proof (cases "?upto \<le> covered")
    case True
    then have "c + ?len \<le> covered"
      using Cons.prems(4) by simp
    then have "\<forall>x. covered \<le> x \<and> x < end' \<longrightarrow> (\<exists>(c, k) \<in> set ps. c \<le> x \<and> x < c + fr_length (frags ! k))"
      using cov by auto
    then show ?thesis
      using Cons.IH [OF ps Cons.prems(3,4)] start True p by simp
  next
    case False
    let ?t = "(k, covered - c, ?upto - covered)"
    have vt: "valid_target frags ?t"
      using i False c by (auto simp: valid_target_def interval_of_def)
    have ids: "target_ids frags ?t = Identity a ` {covered..<?upto}"
    proof -
      have "covered + (?upto - covered) = ?upto" "c + (covered - c) = covered"
        using c False by simp_all
      then show ?thesis
        by (simp only: target_ids_def prod.case interval_range [OF i])
    qed
    have step: "run_targets frags first' covered end' (p # ps) =
        ?t # (if ?upto = end' then [] else run_targets frags first' ?upto end' ps)"
      using start False clip p by (simp add: Let_def)
    show ?thesis
    proof (cases "?upto = end'")
      case True
      then show ?thesis
        using step vt ids by simp
    next
      case end': False
      then have u: "?upto = c + ?len" "c + ?len < end'"
        by simp_all
      have "\<forall>x. ?upto \<le> x \<and> x < end' \<longrightarrow> (\<exists>(c, k) \<in> set ps. c \<le> x \<and> x < c + fr_length (frags ! k))"
        using cov False u by auto
      then have IH: "(\<forall>t \<in> set (run_targets frags first' ?upto end' ps). valid_target frags t) \<and>
          \<Union> (target_ids frags ` set (run_targets frags first' ?upto end' ps)) = Identity a ` {?upto..<end'}"
        using Cons.IH [OF ps, of ?upto] Cons.prems(3) False u by simp
      have "{covered..<end'} = {covered..<?upto} \<union> {?upto..<end'}"
        using False u by auto
      then have "Identity a ` {covered..<end'} = Identity a ` {covered..<?upto} \<union> Identity a ` {?upto..<end'}"
        by (simp add: image_Un)
      then show ?thesis
        using IH step end' vt ids by simp
    qed
  qed
qed

lemma index_run_member:
  "(c, k) \<in> set (index_runs fragment_ops frags a) \<longleftrightarrow> k < length frags \<and> fr_origin (frags ! k) = Identity a c"
  by (force simp: index_runs_def identity.expand)

lemma cells_apart:
  assumes ok: "pieces_ok frags" and d: "distinct (map cl_id (text_cells frags))"
    and ij: "i < length frags" "j < length frags" "i \<noteq> j" and h: "frag_holds (frags ! i) x"
  shows "\<not> frag_holds (frags ! j) x"
proof
  assume "frag_holds (frags ! j) x"
  then have x: "x \<in> cl_id ` set (frag_cells (frags ! i))" "x \<in> cl_id ` set (frag_cells (frags ! j))"
    using h holds_cells ok ij by auto
  have disj: "m < n \<Longrightarrow> n < length frags \<Longrightarrow> x \<in> cl_id ` set (frag_cells (frags ! m)) \<Longrightarrow>
      x \<in> cl_id ` set (frag_cells (frags ! n)) \<Longrightarrow> False" for m n
  proof -
    assume mn: "m < n" "n < length frags" and xm: "x \<in> cl_id ` set (frag_cells (frags ! m))"
      "x \<in> cl_id ` set (frag_cells (frags ! n))"
    have "frags ! n \<in> set (drop (m + 1) frags)"
      using mn nth_mem [of "n - (m + 1)" "drop (m + 1) frags"] by simp
    then have "x \<in> cl_id ` set (text_cells (drop (m + 1) frags))"
      using xm(2) by (auto simp: text_cells_def)
    then show False
      using d xm(1) mn text_cells_take_drop [of m frags] by auto
  qed
  then show False
    using x ij by (metis linorder_neqE_nat)
qed

lemma sorted_distinct_wrt:
  "sorted xs \<Longrightarrow> distinct xs \<Longrightarrow> sorted_wrt (\<lambda>x y. x \<le> y \<and> x \<noteq> y) xs"
  by (induction xs) auto

lemma index_runs_less:
  assumes ok: "pieces_ok frags" and d: "distinct (map cl_id (text_cells frags))"
  shows "sorted_wrt (interval_less frags) (index_runs fragment_ops frags a)"
proof -
  let ?ps = "index_runs fragment_ops frags a"
  have dist: "distinct ?ps"
    by (auto simp: index_runs_def distinct_map inj_on_def)
  have "sorted ?ps"
    by (simp add: index_runs_def)
  then have "sorted_wrt (\<lambda>p q. p \<le> q \<and> p \<noteq> q) ?ps"
    by (rule sorted_distinct_wrt [OF _ dist])
  moreover have "interval_less frags p q" if pq: "p \<in> set ?ps" "q \<in> set ?ps" "p \<le> q \<and> p \<noteq> q" for p q
  proof -
    obtain c k c' k' where eqs: "p = (c, k)" "q = (c', k')"
      by (cases p, cases q)
    have k: "k < length frags" "fr_origin (frags ! k) = Identity a c"
      and k': "k' < length frags" "fr_origin (frags ! k') = Identity a c'"
      using pq eqs index_run_member by blast+
    have le: "c \<le> c'" and ne: "k \<noteq> k'"
      using pq(3) eqs k(2) k'(2) by (auto simp: less_eq_prod_def)
    have "frag_holds (frags ! k') (Identity a c')"
      using k' ok piece_pos by (simp add: frag_holds_def)
    then have "\<not> frag_holds (frags ! k) (Identity a c')"
      using cells_apart [OF ok d k'(1) k(1)] ne by blast
    then show ?thesis
      using le k(2) eqs by (simp add: frag_holds_def interval_less_def)
  qed
  ultimately show ?thesis
    by (rule sorted_wrt_mono_rel [rotated]) blast
qed

text \<open>A run whose items are all retained resolves to exactly those items.\<close>

definition run_ok :: "deletion_run \<Rightarrow> bool" where
  "run_ok r \<longleftrightarrow> actor_valid (actor (dr_first r)) \<and> counter (dr_first r) \<noteq> 0 \<and> dr_count r \<noteq> 0 \<and>
     dr_count r \<le> U64_MAX - counter (dr_first r)"

lemma targets_of_run_span:
  assumes ok: "pieces_ok frags" and d: "distinct (map cl_id (text_cells frags))" and r: "run_ok r"
    and present: "item_span (dr_first r) (dr_count r) \<subseteq> cl_id ` set (text_cells frags)"
  shows "(\<forall>t \<in> set (targets_of_run frags r). valid_target frags t) \<and>
    \<Union> (target_ids frags ` set (targets_of_run frags r)) = item_span (dr_first r) (dr_count r)"
proof -
  let ?a = "actor (dr_first r)" and ?c = "counter (dr_first r)" and ?e = "counter (dr_first r) + dr_count r"
  let ?ps = "overlapping_runs frags ?a ?c ?e"
  have ps: "?ps = filter (\<lambda>(c, k). c < ?e \<and> ?c < c + fr_length (frags ! k)) (index_runs fragment_ops frags ?a)"
    using r by (simp add: overlapping_runs_def run_ok_def)
  have "\<forall>p \<in> set ?ps. interval_of frags ?a p"
    using ok piece_pos unfolding ps by (auto simp: interval_of_def index_run_member)
  moreover have "sorted_wrt (interval_less frags) ?ps"
    unfolding ps by (rule sorted_wrt_filter [OF index_runs_less [OF ok d]])
  moreover have "\<forall>x. ?c \<le> x \<and> x < ?e \<longrightarrow> (\<exists>(c, k) \<in> set ?ps. c \<le> x \<and> x < c + fr_length (frags ! k))"
  proof (intro allI impI)
    fix x
    assume x: "?c \<le> x \<and> x < ?e"
    then have "Identity ?a x \<in> cl_id ` set (text_cells frags)"
      using present by (auto simp: item_span_def)
    then obtain f where "f \<in> set frags" "frag_holds f (Identity ?a x)"
      using holder_ex [OF ok] by blast
    then obtain k where k: "k < length frags" "frag_holds (frags ! k) (Identity ?a x)"
      by (metis in_set_conv_nth)
    let ?o = "counter (fr_origin (frags ! k))"
    have o: "fr_origin (frags ! k) = Identity ?a ?o" "?o \<le> x" "x < ?o + fr_length (frags ! k)"
      using k(2) by (auto simp: frag_holds_def identity.expand)
    then have "(?o, k) \<in> set ?ps"
      using k(1) x unfolding ps by (simp add: index_run_member)
    then show "\<exists>(c, k) \<in> set ?ps. c \<le> x \<and> x < c + fr_length (frags ! k)"
      using o by blast
  qed
  ultimately have "(\<forall>t \<in> set (run_targets frags ?c ?c ?e ?ps). valid_target frags t) \<and>
      \<Union> (target_ids frags ` set (run_targets frags ?c ?c ?e ?ps)) = Identity ?a ` {?c..<?e}"
    using run_targets_span [of ?ps frags ?a ?c ?c ?e] r by (simp add: run_ok_def)
  moreover have "targets_of_run frags r = run_targets frags ?c ?c ?e ?ps"
    using r by (simp add: targets_of_run_def run_ok_def Let_def)
  ultimately show ?thesis
    by (simp add: item_span_def)
qed

section \<open>Merging\<close>

definition target_key :: "nat \<times> nat \<times> nat \<Rightarrow> nat \<times> nat" where
  "target_key t = (fst t, fst (snd t))"

lemma target_key_eq: "(\<lambda>(k, off, n). (k, off)) = target_key"
  by (auto simp: target_key_def fun_eq_iff)

lemma merge_targets_spec:
  assumes "sorted_wrt target_less merged" "\<forall>t \<in> set (merged @ rest). valid_target frags t"
    and "sorted (map target_key rest)" "merged \<noteq> [] \<Longrightarrow> \<forall>t \<in> set rest. target_key (last merged) \<le> target_key t"
  shows "sorted_wrt target_less (merge_targets merged rest) \<and>
    (\<forall>t \<in> set (merge_targets merged rest). valid_target frags t) \<and>
    \<Union> (target_ids frags ` set (merge_targets merged rest)) =
      \<Union> (target_ids frags ` set merged) \<union> \<Union> (target_ids frags ` set rest)"
  using assms
proof (induction merged rest rule: merge_targets.induct)
  case (1 merged)
  then show ?case by simp
next
  case (2 merged k off n rest)
  have v: "valid_target frags (k, off, n)" and rest: "sorted (map target_key rest)"
    "\<forall>t \<in> set rest. target_key (k, off, n) \<le> target_key t"
    using "2.prems"(2,3) by simp_all
  show ?case
  proof (cases "merged \<noteq> [] \<and> fst (last merged) = k \<and> off \<le> fst (snd (last merged)) + snd (snd (last merged))")
    case True
    then obtain us off0 n0 where m: "merged = us @ [(k, off0, n0)]" "off \<le> off0 + n0"
      by (cases merged rule: rev_cases) auto
    let ?t = "(k, off0, max (off0 + n0) (off + n) - off0)"
    have le: "off0 \<le> off"
      using "2.prems"(4) m by (auto simp: target_key_def less_eq_prod_def)
    have v0: "valid_target frags (k, off0, n0)"
      using "2.prems"(2) m by simp
    have vt: "valid_target frags ?t"
      using v v0 le by (auto simp: valid_target_def)
    have "{off0..<off0 + (max (off0 + n0) (off + n) - off0)} = {off0..<off0 + n0} \<union> {off..<off + n}"
      using le m(2) by auto
    then have ids: "target_ids frags ?t = target_ids frags (k, off0, n0) \<union> target_ids frags (k, off, n)"
      by (simp add: target_ids_def item_range_def image_Un)
    have sorted: "sorted_wrt target_less (us @ [?t])"
    proof -
      have "target_less u ?t" if "target_less u (k, off0, n0)" for u
        using that by (cases u) (simp add: target_less_def)
      then show ?thesis
        using "2.prems"(1) m by (simp add: sorted_wrt_append)
    qed
    note IH = "2.IH"(1) [OF True, unfolded m(1) last_snoc butlast_snoc, OF refl refl]
    have "sorted_wrt target_less (merge_targets (us @ [?t]) rest) \<and>
        (\<forall>t \<in> set (merge_targets (us @ [?t]) rest). valid_target frags t) \<and>
        \<Union> (target_ids frags ` set (merge_targets (us @ [?t]) rest)) =
          \<Union> (target_ids frags ` set (us @ [?t])) \<union> \<Union> (target_ids frags ` set rest)"
    proof (rule IH)
      show "sorted_wrt target_less (us @ [?t])"
        by (rule sorted)
      show "\<forall>t \<in> set ((us @ [?t]) @ rest). valid_target frags t"
        using "2.prems"(2) m vt by simp
      show "sorted (map target_key rest)"
        by (rule rest(1))
      show "\<forall>t \<in> set rest. target_key ?t \<le> target_key t"
        using "2.prems"(4) m by (simp add: target_key_def)
    qed
    moreover have "merge_targets merged ((k, off, n) # rest) = merge_targets (us @ [?t]) rest"
      unfolding merge_targets.simps(2) if_P [OF True] by (simp add: m(1))
    moreover have "\<Union> (target_ids frags ` set (us @ [?t])) \<union> \<Union> (target_ids frags ` set rest) =
        \<Union> (target_ids frags ` set merged) \<union> \<Union> (target_ids frags ` set ((k, off, n) # rest))"
      using ids m(1) by auto
    ultimately show ?thesis
      by simp
  next
    case False
    have sorted: "sorted_wrt target_less (merged @ [(k, off, n)])"
    proof (cases merged rule: rev_cases)
      case (snoc us l)
      obtain k0 off0 n0 where l: "l = (k0, off0, n0)"
        by (cases l)
      have "k0 < k \<or> k0 = k \<and> off0 + n0 \<le> off"
        using "2.prems"(4) snoc l False by (auto simp: target_key_def less_eq_prod_def)
      then have last: "target_less l (k, off, n)"
        using l by (simp add: target_less_def)
      have "0 < n0"
        using "2.prems"(2) snoc l by (simp add: valid_target_def)
      then have "target_less x (k, off, n)" if "x \<in> set us" for x
        using "2.prems"(1) snoc l last that by (cases x) (fastforce simp: sorted_wrt_append target_less_def)
      then show ?thesis
        using "2.prems"(1) snoc last by (auto simp: sorted_wrt_append)
    qed simp
    have valid: "\<forall>t \<in> set ((merged @ [(k, off, n)]) @ rest). valid_target frags t"
      using "2.prems"(2) by auto
    have "sorted_wrt target_less (merge_targets (merged @ [(k, off, n)]) rest) \<and>
        (\<forall>t \<in> set (merge_targets (merged @ [(k, off, n)]) rest). valid_target frags t) \<and>
        \<Union> (target_ids frags ` set (merge_targets (merged @ [(k, off, n)]) rest)) =
          \<Union> (target_ids frags ` set (merged @ [(k, off, n)])) \<union> \<Union> (target_ids frags ` set rest)"
      by (rule "2.IH"(2) [OF False sorted valid rest(1)]) (unfold last_snoc, rule rest(2))
    moreover have "merge_targets merged ((k, off, n) # rest) = merge_targets (merged @ [(k, off, n)]) rest"
      unfolding merge_targets.simps(2) if_not_P [OF False] ..
    ultimately show ?thesis
      by (simp add: Un_ac)
  qed
qed

theorem apply_deletion_cells:
  assumes ok: "pieces_ok frags" and d: "distinct (map cl_id (text_cells frags))" and r: "\<forall>r \<in> set runs. run_ok r"
    and present: "runs_span runs \<subseteq> cl_id ` set (text_cells frags)"
  shows "pieces_ok (apply_deletion_runs indexed frags runs x) \<and>
    text_cells (apply_deletion_runs indexed frags runs x) = map (mark_cell (runs_span runs) x) (text_cells frags) \<and>
    finer (apply_deletion_runs indexed frags runs x) frags"
proof (cases indexed)
  case False
  then show ?thesis
    using scan_deletion_cells [OF ok d present] by (simp add: apply_deletion_runs_def)
next
  case True
  let ?ts = "sort_key target_key (concat (map (targets_of_run frags) runs))"
  let ?ms = "merge_targets [] ?ts"
  have run: "(\<forall>t \<in> set (targets_of_run frags r). valid_target frags t) \<and>
      \<Union> (target_ids frags ` set (targets_of_run frags r)) = item_span (dr_first r) (dr_count r)"
    if "r \<in> set runs" for r
  proof (rule targets_of_run_span [OF ok d])
    show "run_ok r"
      using that \<open>\<forall>r \<in> set runs. run_ok r\<close> by blast
    show "item_span (dr_first r) (dr_count r) \<subseteq> cl_id ` set (text_cells frags)"
      using that present by (auto simp: runs_span_def)
  qed
  have v: "\<forall>t \<in> set ?ts. valid_target frags t" and ids: "\<Union> (target_ids frags ` set ?ts) = runs_span runs"
    using run by (auto simp: runs_span_def)
  have m: "sorted_wrt target_less ?ms" "\<forall>t \<in> set ?ms. valid_target frags t"
    "\<Union> (target_ids frags ` set ?ms) = runs_span runs"
    using merge_targets_spec [of "[]" ?ts frags] v ids by simp_all
  have "apply_deletion_runs indexed frags runs x = fold (mark_target x) (rev ?ms) frags"
    using True by (simp add: apply_deletion_runs_def target_key_eq)
  then show ?thesis
    using mark_targets_cells [OF ok d m(2,1), of x] m(3) by simp
qed

end
