(* ===== verification/Text_Queries.thy ===== *)
theory Text_Queries
  imports Text_Local
begin

text \<open>
  The queries of the text engine (\<open>Buffer.cpp\<close>): the text, marker offsets, ranges in UTF-16 code units,
  the edits since a version, anchors, counts, and the position items of the retained fragments.
\<close>

section \<open>Text and counts\<close>

definition shown_text :: "fragment list \<Rightarrow> bytes" where
  "shown_text frags = concat (map fr_text (filter fr_visible frags))"

definition buffer_text :: "'al text_buffer \<Rightarrow> bytes" where
  "buffer_text st = shown_text (tb_fragments st)"

definition deleted_length :: "'al text_buffer \<Rightarrow> nat" where
  "deleted_length st = u32 (sum_list (map (\<lambda>f. if fr_visible f then 0 else fr_byte_length f) (tb_fragments st)))"

definition buffer_tombstones :: "'al text_buffer \<Rightarrow> nat" where
  "buffer_tombstones st = length (filter (\<lambda>f. \<not> fr_visible f) (tb_fragments st))"

definition buffer_fragment_count :: "'al text_buffer \<Rightarrow> nat" where
  "buffer_fragment_count st = length (tb_fragments st)"

definition buffer_utf16_length :: "'al text_buffer \<Rightarrow> nat" where
  "buffer_utf16_length st =
     u32 (sum_list (map (\<lambda>f. if fr_visible f then u32 (fr_units f) else 0) (tb_fragments st)))"

section \<open>Markers\<close>

text \<open>The last fragment that answers decides.\<close>

fun marker_loop :: "identity \<Rightarrow> nat \<Rightarrow> nat result option \<Rightarrow> fragment list \<Rightarrow> nat result option" where
  "marker_loop i off found [] = found"
| "marker_loop i off found (f # fs) =
     (let found1 = (if \<not> fr_marker f \<and> frag_holds f i then Some (Err malformed) else found);
          found2 = (if fr_origin f = i \<and> fr_marker f
            then Some (if fr_visible f then Ok off else Err detached) else found1)
      in marker_loop i (off + frag_visible_bytes f) found2 fs)"

definition marker_offset :: "'al text_buffer \<Rightarrow> identity \<Rightarrow> nat result" where
  "marker_offset st i =
     (case marker_loop i 0 None (tb_fragments st) of
        Some r \<Rightarrow> r | None \<Rightarrow> Err history_unavailable)"

section \<open>Ranges in UTF-16 code units\<close>

text \<open>The seek by visible code units: the fragment, and the units and bytes before it.\<close>

definition frag_visible_units :: "fragment \<Rightarrow> nat" where
  "frag_visible_units f = (if fr_visible f then u32 (fr_units f) else 0)"

fun seek_units :: "nat \<Rightarrow> nat \<Rightarrow> fragment list \<Rightarrow> nat \<Rightarrow> (fragment \<times> nat \<times> nat) option" where
  "seek_units units bytes [] target = None"
| "seek_units units bytes (f # fs) target =
     (if target < units + frag_visible_units f then Some (f, units, bytes)
      else seek_units (units + frag_visible_units f) (bytes + frag_visible_bytes f) fs target)"

definition resolve_units :: "'al text_buffer \<Rightarrow> nat \<Rightarrow> nat result" where
  "resolve_units st target =
     (if target = buffer_utf16_length st then Ok (u32 (visible_bytes (tb_fragments st)))
      else case seek_units 0 0 (tb_fragments st) target of
        None \<Rightarrow> Err history_unavailable
      | Some (f, units, bytes) \<Rightarrow>
          if \<not> fr_visible f \<or> fr_marker f then Err history_unavailable
          else case utf16_byte_offset f (target - units) of
            (off, exact) \<Rightarrow> if \<not> exact then Err malformed else Ok (u32 (bytes + off)))"

definition utf16_range :: "'al text_buffer \<Rightarrow> int \<Rightarrow> int \<Rightarrow> (nat \<times> nat) result" where
  "utf16_range st pos0 len =
     (if pos0 < 0 \<or> len < 0 then Err malformed
      else
        let start = nat pos0; end' = start + nat len in
        if visible_bytes (tb_fragments st) > 2 ^ 32 - 1 then Err malformed
        else if end' > buffer_utf16_length st then Err malformed
        else case resolve_units st start of
          Inl e \<Rightarrow> Err e
        | Inr first' \<Rightarrow>
            (case resolve_units st end' of
               Inl e \<Rightarrow> Err e
             | Inr last' \<Rightarrow> Ok (first', last')))"

section \<open>The edits since a version\<close>

record text_edit =
  tx_start :: nat
  tx_end :: nat
  tx_text :: bytes

text \<open>The pending replacement: where it starts and ends in the old text, and what replaces it.\<close>

type_synonym pending_edit = "(nat \<times> nat \<times> bytes) option"

definition flush_edit :: "pending_edit \<Rightarrow> text_edit list" where
  "flush_edit p =
     (case p of
        None \<Rightarrow> []
      | Some (s, e, t) \<Rightarrow> if s \<noteq> e \<or> t \<noteq> [] then [\<lparr>tx_start = s, tx_end = e, tx_text = t\<rparr>] else [])"

definition open_edit :: "nat \<Rightarrow> pending_edit \<Rightarrow> nat \<times> nat \<times> bytes" where
  "open_edit old_pos p = (case p of None \<Rightarrow> (old_pos, old_pos, []) | Some e \<Rightarrow> e)"

fun edits_loop :: "global \<Rightarrow> undo_map \<Rightarrow> nat \<Rightarrow> pending_edit \<Rightarrow> fragment list \<Rightarrow> text_edit list" where
  "edits_loop since m old_pos p [] = flush_edit p"
| "edits_loop since m old_pos p (f # fs) =
     (let was = fragment_was_visible_at f since m in
      if was \<and> fr_visible f
      then flush_edit p @ edits_loop since m (old_pos + fr_byte_length f) None fs
      else if was \<and> \<not> fr_visible f
      then (case open_edit old_pos p of (s, e, t) \<Rightarrow>
        edits_loop since m (old_pos + fr_byte_length f) (Some (s, e + fr_byte_length f, t)) fs)
      else if \<not> was \<and> fr_visible f
      then (case open_edit old_pos p of (s, e, t) \<Rightarrow>
        edits_loop since m old_pos (Some (s, e, t @ fr_text f)) fs)
      else edits_loop since m old_pos p fs)"

definition edits_since :: "'al text_buffer \<Rightarrow> global \<Rightarrow> text_edit list" where
  "edits_since st since = edits_loop since (tb_undo_map st) 0 None (tb_fragments st)"

section \<open>Anchors\<close>

fun anchor_loop :: "nat \<Rightarrow> fragment list \<Rightarrow> nat \<Rightarrow> bias \<Rightarrow> anchor" where
  "anchor_loop accumulated [] byte_offset b = anchor_end"
| "anchor_loop accumulated (f # fs) byte_offset b =
     (if \<not> fr_visible f then anchor_loop accumulated fs byte_offset b
      else if accumulated + fr_byte_length f > byte_offset
      then mk_anchor (frag_item f (count_utf8_chars (fr_text f) (byte_offset - accumulated))) b
      else anchor_loop (accumulated + fr_byte_length f) fs byte_offset b)"

definition buffer_anchor_at :: "'al text_buffer \<Rightarrow> nat \<Rightarrow> bias \<Rightarrow> anchor" where
  "buffer_anchor_at st byte_offset b =
     (if tb_fragments st = [] then anchor_min else anchor_loop 0 (tb_fragments st) byte_offset b)"

fun resolve_item_loop :: "nat \<Rightarrow> fragment list \<Rightarrow> identity \<Rightarrow> nat option" where
  "resolve_item_loop accumulated [] i = None"
| "resolve_item_loop accumulated (f # fs) i =
     (if frag_holds f i
      then Some (if fr_visible f
        then accumulated + char_to_byte_offset (fr_text f) (counter i - counter (fr_origin f)) else accumulated)
      else resolve_item_loop (accumulated + frag_visible_bytes f) fs i)"

definition buffer_resolve_anchor :: "'al text_buffer \<Rightarrow> anchor \<Rightarrow> nat" where
  "buffer_resolve_anchor st an =
     (if is_min an then 0
      else if is_end an then visible_length st
      else case resolve_item_loop 0 (tb_fragments st) (position an) of
        None \<Rightarrow> visible_length st | Some off \<Rightarrow> off)"

definition buffer_compare_anchors :: "'al text_buffer \<Rightarrow> anchor \<Rightarrow> anchor \<Rightarrow> int" where
  "buffer_compare_anchors st x y =
     (let p = buffer_resolve_anchor st x; q = buffer_resolve_anchor st y in
      if p < q then -1 else if p > q then 1
      else if a_bias x \<noteq> a_bias y then (if a_bias x = BiasLeft then -1 else 1)
      else 0)"

section \<open>Position items\<close>

record position_item =
  pi_identity :: identity
  pi_width :: nat
  pi_visible :: bool
  pi_marker :: bool

function scalar_items :: "fragment \<Rightarrow> nat \<Rightarrow> nat \<Rightarrow> position_item list" where
  "scalar_items f byte scalar =
     (if scalar < fr_length f
      then
        let lead = byte_at (fr_text f) byte;
            width = (if lead < 0x80 then 1 else if lead < 0xe0 then 2 else if lead < 0xf0 then 3 else 4)
        in \<lparr>pi_identity = frag_item f scalar, pi_width = width, pi_visible = fr_visible f, pi_marker = False\<rparr> #
          scalar_items f (byte + width) (scalar + 1)
      else [])"
  by pat_completeness auto
termination
  by (relation "measure (\<lambda>(f, byte, scalar). fr_length f - scalar)") auto

declare scalar_items.simps [simp del]

definition fragment_items :: "fragment \<Rightarrow> position_item list result" where
  "fragment_items f =
     (case utf8_length (fr_text f) of
        Inl _ \<Rightarrow> Err invalid_unicode
      | Inr scalars \<Rightarrow>
          if (if fr_marker f then fr_length f \<noteq> 1 \<or> scalars \<noteq> 0 else scalars \<noteq> fr_length f) \<or>
             length (fr_text f) \<noteq> fr_byte_length f then Err history_unavailable
          else if fr_length f \<noteq> 0 \<and> (\<not> actor_valid (actor (fr_origin f)) \<or> counter (fr_origin f) = 0 \<or>
             fr_length f > U64_MAX - counter (fr_origin f)) then Err history_unavailable
          else if fr_marker f
            then Ok [\<lparr>pi_identity = fr_origin f, pi_width = 0, pi_visible = fr_visible f, pi_marker = True\<rparr>]
          else Ok (scalar_items f 0 0))"

fun position_items_of :: "fragment list \<Rightarrow> position_item list result" where
  "position_items_of [] = Ok []"
| "position_items_of (f # fs) =
     (case fragment_items f of
        Inl e \<Rightarrow> Err e
      | Inr xs \<Rightarrow> (case position_items_of fs of Inl e \<Rightarrow> Err e | Inr ys \<Rightarrow> Ok (xs @ ys)))"

definition position_items :: "'al text_buffer \<Rightarrow> position_item list result" where
  "position_items st = position_items_of (tb_fragments st)"

end
