(* ===== verification/Text_Apply.thy ===== *)
theory Text_Apply
  imports Text_Marks Text_Queries List_Convergence
begin

text \<open>
  What a remote operation does to the cells of the text engine. \<open>text_ok\<close> is the invariant of the
  sequence; an applied edit adds exactly its cells and its deletions, an applied undo exactly its
  counts, whichever path of the code (direct publication or general placement) takes it.
\<close>

section \<open>Cells as sets\<close>

definition cell_core :: "cell \<Rightarrow> identity \<times> link \<times> bytes \<times> bool" where
  "cell_core c = (cl_id c, cl_link c, cl_bytes c, cl_marker c)"

definition text_cores :: "fragment list \<Rightarrow> (identity \<times> link \<times> bytes \<times> bool) set" where
  "text_cores frags = cell_core ` set (text_cells frags)"

definition cell_marks :: "cell list \<Rightarrow> (identity \<times> identity) set" where
  "cell_marks cs = (\<Union>c \<in> set cs. Pair (cl_id c) ` cl_deletions c)"

definition text_ids :: "fragment list \<Rightarrow> identity set" where
  "text_ids frags = cl_id ` set (text_cells frags)"

lemma cell_core_mark [simp]: "cell_core (mark_cell D d c) = cell_core c"
  by (simp add: cell_core_def)

lemma text_ids_cores: "text_ids frags = fst ` text_cores frags"
  by (simp add: text_ids_def text_cores_def image_image cell_core_def)

lemma text_ids_simps [simp]:
  "text_ids [] = {}" "text_ids (f # fs) = frag_ids f \<union> text_ids fs" "text_ids (fs @ gs) = text_ids fs \<union> text_ids gs"
  by (auto simp: text_ids_def frag_ids_def)

lemma text_cores_simps [simp]:
  "text_cores [] = {}" "text_cores (f # fs) = cell_core ` set (frag_cells f) \<union> text_cores fs"
  "text_cores (fs @ gs) = text_cores fs \<union> text_cores gs"
  by (auto simp: text_cores_def)

lemma cell_marks_simps [simp]:
  "cell_marks [] = {}" "cell_marks (c # cs) = Pair (cl_id c) ` cl_deletions c \<union> cell_marks cs"
  "cell_marks (cs @ ds) = cell_marks cs \<union> cell_marks ds"
  by (auto simp: cell_marks_def)

lemma cell_marks_mark:
  "cell_marks (map (mark_cell D d) cs) = cell_marks cs \<union> (D \<inter> cl_id ` set cs) \<times> {d}"
  by (induction cs) auto

lemma text_ids_run_ids: "pieces_ok frags \<Longrightarrow> set (run_ids fragment_ops frags) = text_ids frags"
  using text_cells_ids [of frags] by (metis set_map text_ids_def)

lemma frag_cells_cong:
  assumes "fr_origin g = fr_origin f" "fr_link g = fr_link f" "fr_text g = fr_text f" "fr_marker g = fr_marker f"
    "set (fr_deletions g) = set (fr_deletions f)"
  shows "frag_cells g = frag_cells f"
proof (rule nth_equalityI)
  have ch: "frag_chunks g = frag_chunks f"
    using assms by (simp add: frag_chunks_def)
  then show "length (frag_cells g) = length (frag_cells f)"
    by simp
  show "frag_cells g ! i = frag_cells f ! i" if "i < length (frag_cells g)" for i
    using that ch assms by (simp add: frag_cells_nth frag_item_def link_at_def item_at_def)
qed

lemma refresh_fragment_simps [simp]:
  "fr_origin (refresh_fragment m f) = fr_origin f" "fr_link (refresh_fragment m f) = fr_link f"
  "fr_text (refresh_fragment m f) = fr_text f" "fr_marker (refresh_fragment m f) = fr_marker f"
  "fr_deletions (refresh_fragment m f) = fr_deletions f" "fr_length (refresh_fragment m f) = fr_length f"
  "fr_byte_length (refresh_fragment m f) = fr_byte_length f"
  "fr_visible (refresh_fragment m f) = fragment_compute_visible f m"
  by (auto simp: refresh_fragment_def rebuild_utf16_index_def Let_def split: prod.splits)

lemma refresh_fragment_cells [simp]: "frag_cells (refresh_fragment m f) = frag_cells f"
  by (rule frag_cells_cong) simp_all

lemma refresh_text_cells [simp]: "text_cells (map (refresh_fragment m) frags) = text_cells frags"
  by (induction frags) simp_all

lemma refresh_frag_ids [simp]: "frag_ids (refresh_fragment m f) = frag_ids f"
  by (simp add: frag_ids_def)

lemma refresh_piece [simp]: "piece_ok f \<Longrightarrow> piece_ok (refresh_fragment m f)"
proof -
  assume ok: "piece_ok f"
  show ?thesis
  proof (cases "fr_marker f")
    case True
    then show ?thesis
      using ok by (simp add: piece_ok_def)
  next
    case False
    then obtain vs where vs: "vs \<noteq> []" "frag_ok f vs"
      using ok by (elim piece_cases) auto
    let ?g = "f\<lparr>fr_visible := fragment_compute_visible f m\<rparr>"
    have g: "frag_ok ?g vs"
      using vs(2) by (auto simp: frag_ok_def)
    have "frag_ok (rebuild_utf16_index ?g) vs"
      by (rule rebuild_index_ok) (use g in \<open>auto simp: frag_ok_def\<close>)
    then have "frag_ok (refresh_fragment m f) vs"
      using g by (simp add: refresh_fragment_def Let_def)
    then show ?thesis
      using False vs(1) piece_okI by simp
  qed
qed

section \<open>The invariant of the sequence\<close>

definition flags_current :: "undo_map \<Rightarrow> fragment list \<Rightarrow> bool" where
  "flags_current m frags \<longleftrightarrow> (\<forall>f \<in> set frags. fr_visible f = fragment_compute_visible f m)"

definition frags_ok :: "fragment list \<Rightarrow> bool" where
  "frags_ok frags \<longleftrightarrow> runs_ok fragment_ops frags \<and> pieces_ok frags"

definition text_ok :: "'al text_buffer \<Rightarrow> bool" where
  "text_ok st \<longleftrightarrow> frags_ok (tb_fragments st) \<and> flags_current (tb_undo_map st) (tb_fragments st) \<and>
     global_ok (tb_version st) \<and> undo_ok (tb_undo_map st)"

lemma frags_ok_same_cells:
  assumes "frags_ok frags" "pieces_ok frags'"
    and "map (\<lambda>c. (cl_id c, cl_link c)) (text_cells frags') = map (\<lambda>c. (cl_id c, cl_link c)) (text_cells frags)"
  shows "frags_ok frags'"
  using runs_ok_cells [OF _ _ assms(2,3)] assms(1,2) by (simp add: frags_ok_def)

lemma frags_ok_refresh: "frags_ok frags \<Longrightarrow> frags_ok (map (refresh_fragment m) frags)"
  by (rule frags_ok_same_cells) (auto simp: frags_ok_def)

lemma compute_visible_deletions [simp]:
  "fragment_compute_visible (f\<lparr>fr_visible := b\<rparr>) m = fragment_compute_visible f m"
  "fragment_compute_visible (refresh_fragment n f) m = fragment_compute_visible f m"
  by (simp_all add: fragment_compute_visible_def)

lemma flags_refresh [simp]: "flags_current m (map (refresh_fragment m) frags)"
  by (simp add: flags_current_def)

section \<open>Inserted runs\<close>

abbreviation edit_frags :: "edit_operation \<Rightarrow> fragment list" where
  "edit_frags e \<equiv> map fragment_of_inserted (eo_inserted e)"

lemma integrate_frags:
  assumes ok: "frags_ok frags" and inc: "piece_ok inc" "link_wf (fr_link inc)" "frag_ids inc \<inter> text_ids frags = {}"
    and some: "integrate fragment_ops frags inc = Some frags'"
  shows "frags_ok frags'" "text_cores frags' = cell_core ` set (frag_cells inc) \<union> text_cores frags"
    "cell_marks (text_cells frags') = cell_marks (frag_cells inc) \<union> cell_marks (text_cells frags)"
    "finer frags' (inc # frags)"
proof -
  have r: "runs_ok fragment_ops frags" "pieces_ok frags"
    using ok by (simp_all add: frags_ok_def)
  have "frag_item inc k \<in> frag_ids inc" if "k < fr_length inc" for k
    unfolding frag_ids_def
    using that piece_length [OF inc(1)] by (intro image_eqI [of _ _ "frag_cells inc ! k"]) (simp_all add: frag_cells_id)
  then have fresh: "run_fresh fragment_ops (set (run_ids fragment_ops frags)) inc"
    using inc(1,3) piece_pos text_ids_run_ids [OF r(2)] by (auto simp: run_fresh_def item_at_frag)
  note c = integrate_cells [OF r inc(1) fresh inc(2) some]
  show "frags_ok frags'" "finer frags' (inc # frags)"
    using c by (simp_all add: frags_ok_def)
  obtain us vs where "text_cells frags = us @ vs" "text_cells frags' = us @ frag_cells inc @ vs"
    using c(3) by blast
  then show "text_cores frags' = cell_core ` set (frag_cells inc) \<union> text_cores frags"
    "cell_marks (text_cells frags') = cell_marks (frag_cells inc) \<union> cell_marks (text_cells frags)"
    by (auto simp: text_cores_def)
qed

lemma inserted_simps [simp]:
  "fr_origin (fragment_of_inserted i) = if_origin i" "fr_link (fragment_of_inserted i) = if_link i"
  "fr_length (fragment_of_inserted i) = if_length i" "fr_deletions (fragment_of_inserted i) = []"
  by (auto simp: fragment_of_inserted_def new_fragment_def rebuild_utf16_index_def default_fragment_def Let_def
      split: prod.splits)

lemma new_fragment_piece:
  assumes "list_all is_scalar vs" "vs \<noteq> []" "length (encode_scalars vs) < 2 ^ 32"
  shows "piece_ok (new_fragment orig l (length (encode_scalars vs)) (length vs) (encode_scalars vs))"
proof (rule piece_okI [OF _ assms(2)])
  show "frag_ok (new_fragment orig l (length (encode_scalars vs)) (length vs) (encode_scalars vs)) vs"
    unfolding new_fragment_def by (rule rebuild_index_ok) (use assms in simp_all)
qed (auto simp: new_fragment_def rebuild_utf16_index_def default_fragment_def Let_def split: prod.splits)

lemma inserted_piece:
  assumes "list_all is_scalar vs" "vs \<noteq> []" "length (encode_scalars vs) < 2 ^ 32"
    and "if_content i = encode_scalars vs" "if_length i = length vs" "\<not> if_marker i"
  shows "piece_ok (fragment_of_inserted i)"
proof -
  let ?f = "new_fragment (if_origin i) (if_link i) (length (encode_scalars vs)) (length vs) (encode_scalars vs)"
  have "fr_marker ?f = False"
    by (auto simp: new_fragment_def rebuild_utf16_index_def default_fragment_def Let_def split: prod.splits)
  then have "fragment_of_inserted i = ?f"
    using assms(3-6) by (cases ?f) (simp add: fragment_of_inserted_def u32_def)
  then show ?thesis
    using new_fragment_piece [OF assms(1-3)] by simp
qed

lemma unmarked_cells: "fr_deletions f = [] \<Longrightarrow> cell_marks (frag_cells f) = {}"
  by (auto simp: cell_marks_def frag_cells_def)

lemma integrate_inserted_frags:
  assumes "frags_ok frags" "\<forall>i \<in> set is. piece_ok (fragment_of_inserted i) \<and> link_wf (if_link i)"
    and "distinct (map cl_id (text_cells (map fragment_of_inserted is)))"
    and "text_ids (map fragment_of_inserted is) \<inter> text_ids frags = {}"
    and "integrate_inserted b frags is = Ok frags'"
  shows "frags_ok frags' \<and> text_cores frags' = text_cores (map fragment_of_inserted is) \<union> text_cores frags \<and>
    cell_marks (text_cells frags') = cell_marks (text_cells frags) \<and>
    finer frags' (map fragment_of_inserted is @ frags)"
  using assms
proof (induction "is" arbitrary: frags)
  case Nil
  then show ?case by simp
next
  case (Cons i "is")
  let ?f = "fragment_of_inserted i" and ?fs = "map fragment_of_inserted is"
  obtain frags1 where one: "integrate fragment_ops frags ?f = Some frags1"
    and rest: "integrate_inserted b frags1 is = Ok frags'"
    using Cons.prems(5) by (auto split: if_splits option.splits)
  have f: "piece_ok ?f" "link_wf (fr_link ?f)" "frag_ids ?f \<inter> text_ids frags = {}"
    using Cons.prems(2,4) by auto
  note i = integrate_frags [OF Cons.prems(1) f one]
  have d: "distinct (map cl_id (text_cells ?fs))" "frag_ids ?f \<inter> text_ids ?fs = {}"
    using Cons.prems(3) by (auto simp: frag_ids_def text_ids_def)
  have "text_ids frags1 = frag_ids ?f \<union> text_ids frags"
    unfolding text_ids_cores i(2) by (simp add: image_Un image_image cell_core_def frag_ids_def)
  then have "text_ids ?fs \<inter> text_ids frags1 = {}"
    using Cons.prems(4) d(2) by auto
  then have IH: "frags_ok frags' \<and> text_cores frags' = text_cores ?fs \<union> text_cores frags1 \<and>
      cell_marks (text_cells frags') = cell_marks (text_cells frags1) \<and> finer frags' (?fs @ frags1)"
    using Cons.IH [OF i(1) _ d(1) _ rest] Cons.prems(2) by simp
  have "finer (?fs @ frags1) (map fragment_of_inserted (i # is) @ frags)"
    using i(4) by (auto simp: finer_def)
  then show ?case
    using IH i(2,3) finer_trans unmarked_cells [of ?f] by auto
qed

section \<open>What an operation brings\<close>

definition edit_ok :: "edit_operation \<Rightarrow> bool" where
  "edit_ok e \<longleftrightarrow> counter (eo_timestamp e) \<noteq> 0 \<and> eo_deletion_id e = eo_timestamp e \<and>
     (\<forall>i \<in> set (eo_inserted e). piece_ok (fragment_of_inserted i) \<and> link_wf (if_link i) \<and>
        actor (if_origin i) = actor (eo_timestamp e) \<and>
        counter (if_origin i) + if_length i \<le> counter (eo_timestamp e)) \<and>
     distinct (map cl_id (text_cells (edit_frags e))) \<and>
     (\<forall>r \<in> set (eo_deletion_runs e). run_ok r)"

definition text_op_ok :: "operation \<Rightarrow> bool" where
  "text_op_ok op = (case op of
     EditOp e \<Rightarrow> edit_ok e
   | UndoOp u \<Rightarrow> counter (uo_timestamp u) \<noteq> 0 \<and> (\<forall>(i, c) \<in> set (uo_counts u). counter i \<noteq> 0))"

definition op_cores :: "operation \<Rightarrow> (identity \<times> link \<times> bytes \<times> bool) set" where
  "op_cores op = (case op of EditOp e \<Rightarrow> text_cores (edit_frags e) | UndoOp u \<Rightarrow> {})"

definition op_targets :: "operation \<Rightarrow> identity set" where
  "op_targets op = (case op of EditOp e \<Rightarrow> runs_span (eo_deletion_runs e) | UndoOp u \<Rightarrow> {})"

definition op_counts :: "operation \<Rightarrow> undo_entry set" where
  "op_counts op = (case op of
     EditOp e \<Rightarrow> {}
   | UndoOp u \<Rightarrow> (\<lambda>(i, c). \<lparr>ue_edit = i, ue_undo = uo_timestamp u, ue_count = c\<rparr>) ` set (uo_counts u))"

definition op_runs :: "operation \<Rightarrow> identity set set" where
  "op_runs op = (case op of EditOp e \<Rightarrow> frag_ids ` set (edit_frags e) | UndoOp u \<Rightarrow> {})"

definition text_op_version :: "operation \<Rightarrow> global" where
  "text_op_version op = (case op of EditOp e \<Rightarrow> eo_version e | UndoOp u \<Rightarrow> uo_version u)"

text \<open>The step from one state to the next: what an operation adds, and what stays.\<close>

definition text_step :: "operation \<Rightarrow> 'al text_buffer \<Rightarrow> 'al text_buffer \<Rightarrow> bool" where
  "text_step op st st' \<longleftrightarrow>
     text_ok st' \<and>
     text_cores (tb_fragments st') = op_cores op \<union> text_cores (tb_fragments st) \<and>
     cell_marks (text_cells (tb_fragments st')) =
       cell_marks (text_cells (tb_fragments st)) \<union> op_targets op \<times> {op_identity op} \<and>
     set (tb_undo_map st') = set (tb_undo_map st) \<union> op_counts op \<and>
     (\<forall>f \<in> set (tb_fragments st'). (\<exists>D \<in> op_runs op. frag_ids f \<subseteq> D) \<or>
        (\<exists>g \<in> set (tb_fragments st). frag_ids f \<subseteq> frag_ids g)) \<and>
     (\<forall>a. get (tb_version st') a = get (observe (tb_version st) (op_identity op)) a)"

section \<open>The version after an edit\<close>

lemma observe_inserted:
  assumes "global_ok v" "\<forall>i \<in> set is. actor (if_origin i) = actor t \<and> counter (if_origin i) + if_length i \<le> counter t"
    and "counter t \<le> get v (actor t)"
  shows "global_ok (fold (\<lambda>i v. observe v (inserted_last i)) is v) \<and>
    (\<forall>a. get (fold (\<lambda>i v. observe v (inserted_last i)) is v) a = get v a)"
  using assms
proof (induction "is" arbitrary: v)
  case Nil
  then show ?case by simp
next
  case (Cons i "is")
  have i: "actor (inserted_last i) = actor t" "counter (inserted_last i) \<le> counter t"
    using Cons.prems(2) by (auto simp: inserted_last_def)
  then have v: "get (observe v (inserted_last i)) a = get v a" for a
    using Cons.prems(1,3) by (simp add: get_observe)
  then show ?case
    using Cons.IH [of "observe v (inserted_last i)"] Cons.prems by simp
qed

lemma observe_edit_op_eq:
  obtains al where "observe_edit_op A op st = st\<lparr>tb_alloc := al, tb_version :=
      join (fold (\<lambda>i v. observe v (inserted_last i)) (eo_inserted op)
        (observe (observe (tb_version st) (eo_timestamp op)) (eo_deletion_id op))) (eo_version op)\<rparr>"
proof -
  let ?step = "\<lambda>i s. (buffer_observe_remote A (inserted_last i) s)\<lparr>tb_version := observe (tb_version s) (inserted_last i)\<rparr>"
  have fold: "\<exists>al. fold ?step is (s :: 'a text_buffer) =
      s\<lparr>tb_alloc := al, tb_version := fold (\<lambda>i v. observe v (inserted_last i)) is (tb_version s)\<rparr>" for "is" s
  proof (induction "is" arbitrary: s)
    case Nil
    then show ?case
      by (intro exI [of _ "tb_alloc s"]) simp
  next
    case (Cons i "is")
    show ?case
      using Cons.IH [of "?step i s"] by (auto simp: buffer_observe_remote_def)
  qed
  define s1 where "s1 = (buffer_observe_remote A (eo_timestamp op) st)
      \<lparr>tb_version := observe (observe (tb_version st) (eo_timestamp op)) (eo_deletion_id op)\<rparr>"
  obtain al where "fold ?step (eo_inserted op) s1 =
      s1\<lparr>tb_alloc := al, tb_version := fold (\<lambda>i v. observe v (inserted_last i)) (eo_inserted op) (tb_version s1)\<rparr>"
    using fold [of "eo_inserted op" s1] by blast
  then show thesis
    using that [of al] by (simp add: observe_edit_op_def Let_def s1_def [symmetric])
      (simp add: s1_def buffer_observe_remote_def)
qed

lemma observe_edit_op_facts:
  assumes e: "edit_ok e" and g: "global_ok (tb_version st)" and c: "observed_all (tb_version st) (eo_version e)"
  shows "tb_fragments (observe_edit_op A e st) = tb_fragments st" "tb_undo_map (observe_edit_op A e st) = tb_undo_map st"
    "global_ok (tb_version (observe_edit_op A e st))"
    "get (tb_version (observe_edit_op A e st)) a = get (observe (tb_version st) (eo_timestamp e)) a"
proof -
  let ?t = "eo_timestamp e" and ?v = "tb_version st"
  let ?w = "observe (observe ?v ?t) (eo_deletion_id e)"
  let ?f = "fold (\<lambda>i v. observe v (inserted_last i)) (eo_inserted e) ?w"
  obtain al where eq: "observe_edit_op A e st = st\<lparr>tb_alloc := al, tb_version := join ?f (eo_version e)\<rparr>"
    by (rule observe_edit_op_eq)
  have del: "eo_deletion_id e = ?t"
    using e by (simp add: edit_ok_def)
  have w: "get ?w a = get (observe ?v ?t) a" for a
    using g del by (simp add: get_observe)
  have f: "global_ok ?f" "get ?f a = get ?w a" for a
    using observe_inserted [of ?w "eo_inserted e" ?t] e g del by (simp_all add: edit_ok_def get_observe)
  have "observed_all ?f (eo_version e)"
    using observed_all_mono [OF c, of ?f] f(2) w g get_observe_ge by simp
  then have "get (join ?f (eo_version e)) a = get ?f a" for a
    using join_covered [OF f(1)] by blast
  then show "tb_fragments (observe_edit_op A e st) = tb_fragments st"
    "tb_undo_map (observe_edit_op A e st) = tb_undo_map st" "global_ok (tb_version (observe_edit_op A e st))"
    "get (tb_version (observe_edit_op A e st)) a = get (observe (tb_version st) (eo_timestamp e)) a"
    using eq f w by simp_all
qed

section \<open>An edit\<close>

lemma edit_stepI:
  assumes ok: "text_ok st" and e: "edit_ok e" and c: "observed_all (tb_version st) (eo_version e)"
    and frags': "frags_ok (tb_fragments st')" "flags_current (tb_undo_map st) (tb_fragments st')"
      "text_cores (tb_fragments st') = text_cores (edit_frags e) \<union> text_cores (tb_fragments st)"
      "cell_marks (text_cells (tb_fragments st')) =
         cell_marks (text_cells (tb_fragments st)) \<union> runs_span (eo_deletion_runs e) \<times> {eo_timestamp e}"
      "finer (tb_fragments st') (edit_frags e @ tb_fragments st)"
    and st': "tb_undo_map st' = tb_undo_map st" "\<exists>st0. tb_version st0 = tb_version st \<and>
      tb_version st' = tb_version (observe_edit_op A e st0)"
  shows "text_step (EditOp e) st st'"
proof -
  obtain st0 where st0: "tb_version st0 = tb_version st"
    "tb_version st' = tb_version (observe_edit_op A e st0)"
    using st'(2) by blast
  have g: "global_ok (tb_version st0)" "observed_all (tb_version st0) (eo_version e)"
    using ok c st0(1) by (simp_all add: text_ok_def)
  note v = observe_edit_op_facts(3,4) [OF e g, of A]
  have "(\<exists>D \<in> op_runs (EditOp e). frag_ids f \<subseteq> D) \<or> (\<exists>g \<in> set (tb_fragments st). frag_ids f \<subseteq> frag_ids g)"
    if "f \<in> set (tb_fragments st')" for f
  proof -
    obtain f' where "f' \<in> set (edit_frags e @ tb_fragments st)" "frag_ids f \<subseteq> frag_ids f'"
      using frags'(5) [unfolded finer_def, THEN bspec, OF \<open>f \<in> set (tb_fragments st')\<close>] by (elim bexE)
    then show ?thesis
      by (auto simp: op_runs_def)
  qed
  moreover have "text_ok st'"
    unfolding text_ok_def st' st0(2) using frags'(1,2) v(1) ok by (simp add: text_ok_def)
  moreover have "get (tb_version st') a = get (observe (tb_version st) (eo_timestamp e)) a" for a
    using v(2) [of a] st0 by simp
  moreover have "op_identity (EditOp e) = eo_timestamp e" "op_cores (EditOp e) = text_cores (edit_frags e)"
    "op_targets (EditOp e) = runs_span (eo_deletion_runs e)" "op_counts (EditOp e) = {}"
    by (simp_all add: op_cores_def op_targets_def op_counts_def op_identity_def)
  ultimately show ?thesis
    unfolding text_step_def using frags'(3,4) st'(1) by (simp only: Un_empty_right simp_thms) blast
qed

lemma remote_append_Some:
  assumes "remote_append e st = Some frags'"
  obtains i where "eo_inserted e = [i]" "eo_deletion_runs e = []"
    "frags' = tb_fragments st @ [refresh_fragment (tb_undo_map st) (fragment_of_inserted i)]"
    "integrate fragment_ops (tb_fragments st) (fragment_of_inserted i) =
      Some (tb_fragments st @ [fragment_of_inserted i])"
proof -
  obtain i where i: "eo_inserted e = [i]" "eo_deletion_runs e = []"
    "try_append_fragment (fragment_of_inserted i) st = Some frags'"
    using assms by (auto simp: remote_append_def length_Suc_conv split: if_splits)
  let ?f = "fragment_of_inserted i"
  have "has_final_append_preconditions fragment_ops (tb_fragments st) ?f"
    using i(3) by (auto simp: try_append_fragment_def has_final_append_preconditions_def insertable_def Let_def
        item_at_frag split: if_splits option.splits)
  then have "integrate fragment_ops (tb_fragments st) ?f = Some (tb_fragments st @ [?f])"
    by (simp add: integrate_def integrate_impl_def)
  then show thesis
    using that i by (auto simp: try_append_fragment_def Let_def split: if_splits)
qed

lemma text_cells_update:
  "k < length frags \<Longrightarrow> frag_cells g = frag_cells h \<Longrightarrow> text_cells (frags[k := g]) = text_cells (frags[k := h])"
  by (simp add: text_cells_def map_update)

lemma delete_fragment_cells [simp]: "frag_cells (delete_fragment m d f) = frag_cells (push_deletion d f)"
  by (rule frag_cells_cong) (simp_all add: delete_fragment_def push_deletion_def Let_def)

lemma delete_fragment_piece [simp]: "piece_ok (delete_fragment m d f) = piece_ok f"
  by (auto simp: piece_ok_def delete_fragment_def frag_ok_def Let_def)

lemma remote_delete_run_Some:
  assumes ok: "frags_ok (tb_fragments st)" and some: "remote_delete_run e st = Some frags'"
  obtains k r where "eo_inserted e = []" "eo_deletion_runs e = [r]" "k < length (tb_fragments st)"
    "fr_origin (tb_fragments st ! k) = dr_first r" "fr_length (tb_fragments st ! k) = dr_count r"
    "frags' = (tb_fragments st)[k := delete_fragment (tb_undo_map st) (eo_deletion_id e) (tb_fragments st ! k)]"
proof -
  let ?F = "tb_fragments st"
  have g: "eo_inserted e = [] \<and> length (eo_deletion_runs e) = 1 \<and> \<not> eo_marker_edit e \<and> tb_indexes_valid st"
    using some by (auto simp: remote_delete_run_def split: if_splits)
  then obtain r where r: "eo_deletion_runs e = [r]"
    by (auto simp: length_Suc_conv)
  obtain k off where k: "locate_retained st (dr_first r) = Some (k, off)"
    using some g r by (cases "locate_retained st (dr_first r)") (auto simp: remote_delete_run_def Let_def)
  then have "index_find fragment_ops ?F (dr_first r) = Some (k, off)"
    using g by (simp add: locate_retained_def)
  then have "k < length ?F"
    using index_find_correct [of fragment_ops ?F] ok by (simp add: frags_ok_def valid_pos_def)
  then show thesis
    using that g r k some by (auto simp: remote_delete_run_def Let_def split: if_splits)
qed

lemma delete_run_frags:
  assumes ok: "frags_ok frags" and k: "k < length frags"
    and frags': "frags' = frags[k := delete_fragment m d (frags ! k)]"
  shows "frags_ok frags'"
    "text_cells frags' = map (mark_cell (item_span (fr_origin (frags ! k)) (fr_length (frags ! k))) d) (text_cells frags)"
    "finer frags' frags"
proof -
  have r: "runs_ok fragment_ops frags" "pieces_ok frags"
    using ok by (simp_all add: frags_ok_def)
  let ?f = "frags ! k" and ?t = "(k, 0::nat, fr_length (frags ! k))"
  have f: "piece_ok ?f"
    using r(2) k by simp
  have v: "valid_target frags ?t"
    using k piece_pos [OF f] by (simp add: valid_target_def)
  have m: "mark_target d ?t frags = frags[k := push_deletion d ?f]"
    using k by (simp add: mark_target_def Let_def)
  note t = mark_target_cells [OF r(2) cells_distinct [OF r] v, of d]
  have ids: "target_ids frags ?t = item_span (fr_origin ?f) (fr_length ?f)"
    by (simp add: target_ids_def item_range_span frag_item_def identity.expand)
  have "text_cells frags' = text_cells (mark_target d ?t frags)"
    unfolding m frags' by (rule text_cells_update [OF k]) simp
  then show c: "text_cells frags' = map (mark_cell (item_span (fr_origin ?f) (fr_length ?f)) d) (text_cells frags)"
    using t(2) ids by simp
  have "pieces_ok frags'"
    using r(2) f unfolding frags' by (auto dest: set_update_subset_insert [THEN subsetD])
  then show "frags_ok frags'"
    using frags_ok_same_cells [OF ok] by (simp add: c comp_def)
  have fid: "frag_ids (delete_fragment m d ?f) = frag_ids (push_deletion d ?f)"
    by (simp add: frag_ids_def)
  have "push_deletion d ?f \<in> set (mark_target d ?t frags)"
    using m set_update_memI [OF k] by simp
  then have "\<exists>g \<in> set frags. frag_ids (delete_fragment m d ?f) \<subseteq> frag_ids g"
    using t(3) fid unfolding finer_def by simp
  then show "finer frags' frags"
    unfolding frags' finer_def by (auto dest!: set_update_subset_insert [THEN subsetD])
qed

lemma publish_simps [simp]:
  "tb_fragments (publish_fragments frags st) = frags" "tb_undo_map (publish_fragments frags st) = tb_undo_map st"
  "tb_version (publish_fragments frags st) = tb_version st"
  by (simp_all add: publish_fragments_def)

lemma set_fragments_simps [simp]:
  "tb_fragments (set_fragments frags st) = map (refresh_fragment (tb_undo_map st)) frags"
  "tb_undo_map (set_fragments frags st) = tb_undo_map st" "tb_version (set_fragments frags st) = tb_version st"
  by (simp_all add: set_fragments_def)

lemma observe_edit_simps [simp]:
  "tb_fragments (observe_edit_op A e st) = tb_fragments st" "tb_undo_map (observe_edit_op A e st) = tb_undo_map st"
  by (rule observe_edit_op_eq [of A e st]; simp)+

lemma finer_append: "finer gs fs \<Longrightarrow> finer (hs @ gs) (hs @ fs)"
  by (auto simp: finer_def)

lemma finer_refresh: "finer frags gs \<Longrightarrow> finer (map (refresh_fragment m) frags) gs"
  by (auto simp: finer_def)

lemma refresh_cores [simp]: "text_cores (map (refresh_fragment m) frags) = text_cores frags"
  by (simp add: text_cores_def)

theorem apply_edit_step:
  assumes ok: "text_ok st" and e: "edit_ok e" and new: "\<not> observed (tb_version st) (eo_timestamp e)"
    and fresh: "text_ids (edit_frags e) \<inter> text_ids (tb_fragments st) = {}"
    and present: "observed_all (tb_version st) (eo_version e) \<Longrightarrow>
      runs_span (eo_deletion_runs e) \<subseteq> text_ids (tb_fragments st)"
    and some: "apply_remote_edit A e st = Inr st'"
  shows "text_step (EditOp e) st st'"
proof -
  let ?F = "tb_fragments st" and ?m = "tb_undo_map st"
  have c: "observed_all (tb_version st) (eo_version e)"
    using some new by (auto simp: apply_remote_edit_def split: if_splits)
  have F: "frags_ok ?F" "flags_current ?m ?F"
    using ok by (simp_all add: text_ok_def)
  then have r: "runs_ok fragment_ops ?F" "pieces_ok ?F"
    by (simp_all add: frags_ok_def)
  have del: "eo_deletion_id e = eo_timestamp e" and runs: "\<forall>r \<in> set (eo_deletion_runs e). run_ok r"
    and ins: "\<forall>i \<in> set (eo_inserted e). piece_ok (fragment_of_inserted i) \<and> link_wf (if_link i)"
    and dist: "distinct (map cl_id (text_cells (edit_frags e)))"
    using e by (simp_all add: edit_ok_def)
  note pres = present [OF c]
  show ?thesis
  proof (cases "remote_append e st")
    case (Some frags')
    then obtain i where i: "eo_inserted e = [i]" "eo_deletion_runs e = []"
      "frags' = ?F @ [refresh_fragment ?m (fragment_of_inserted i)]"
      "integrate fragment_ops ?F (fragment_of_inserted i) = Some (?F @ [fragment_of_inserted i])"
      by (rule remote_append_Some)
    have st': "st' = observe_edit_op A e (publish_fragments frags' st)"
      using some new c Some by (simp add: apply_remote_edit_def)
    let ?f = "fragment_of_inserted i"
    have f: "piece_ok ?f" "link_wf (fr_link ?f)" "frag_ids ?f \<inter> text_ids ?F = {}"
      using ins fresh i(1) by auto
    note p = integrate_frags [OF F(1) f i(4)]
    have "pieces_ok frags'"
      using r(2) f(1) i(3) by auto
    then have ok': "frags_ok frags'"
      by (rule frags_ok_same_cells [OF p(1)]) (simp add: i(3))
    show ?thesis
    proof (rule edit_stepI [OF ok e c])
      show "frags_ok (tb_fragments st')" "flags_current ?m (tb_fragments st')"
        using ok' F(2) i(3) st' by (auto simp: flags_current_def)
      show "text_cores (tb_fragments st') = text_cores (edit_frags e) \<union> text_cores ?F"
        "finer (tb_fragments st') (edit_frags e @ ?F)"
        using i(1,3) st' by (auto simp: finer_def)
      show "cell_marks (text_cells (tb_fragments st')) =
          cell_marks (text_cells ?F) \<union> runs_span (eo_deletion_runs e) \<times> {eo_timestamp e}"
        using i(2,3) st' unmarked_cells [of ?f] by (simp add: runs_span_def)
      show "\<exists>st0. tb_version st0 = tb_version st \<and> tb_version st' = tb_version (observe_edit_op A e st0)"
        unfolding st' by (rule exI [of _ "publish_fragments frags' st"]) simp
    qed (simp add: st')
  next
    case no_append: None
    show ?thesis
    proof (cases "remote_delete_run e st")
      case (Some frags')
      then obtain k x where x: "eo_inserted e = []" "eo_deletion_runs e = [x]" "k < length ?F"
        "fr_origin (?F ! k) = dr_first x" "fr_length (?F ! k) = dr_count x"
        "frags' = ?F[k := delete_fragment ?m (eo_deletion_id e) (?F ! k)]"
        by (rule remote_delete_run_Some [OF F(1)])
      have st': "st' = observe_edit_op A e (publish_fragments frags' st)"
        using some new c no_append Some by (simp add: apply_remote_edit_def)
      note d = delete_run_frags [OF F(1) x(3,6)]
      have span: "runs_span (eo_deletion_runs e) = item_span (fr_origin (?F ! k)) (fr_length (?F ! k))"
        using x by (simp add: runs_span_def)
      show ?thesis
      proof (rule edit_stepI [OF ok e c])
        show "frags_ok (tb_fragments st')" "finer (tb_fragments st') (edit_frags e @ ?F)"
          using d(1,3) st' x(1) by simp_all
        show "flags_current ?m (tb_fragments st')"
          using F(2) x(6) st' by (auto simp: flags_current_def delete_fragment_def Let_def
            dest!: set_update_subset_insert [THEN subsetD])
        show "text_cores (tb_fragments st') = text_cores (edit_frags e) \<union> text_cores ?F"
          using x(1) st' d(2) by (simp add: text_cores_def image_image)
        show "cell_marks (text_cells (tb_fragments st')) =
            cell_marks (text_cells ?F) \<union> runs_span (eo_deletion_runs e) \<times> {eo_timestamp e}"
          using pres unfolding span st' by (simp add: d(2) cell_marks_mark del text_ids_def Int_absorb2)
        show "\<exists>st0. tb_version st0 = tb_version st \<and> tb_version st' = tb_version (observe_edit_op A e st0)"
          unfolding st' by (rule exI [of _ "publish_fragments frags' st"]) simp
      qed (simp add: st')
    next
      case no_delete: None
      let ?D = "apply_deletion_runs (tb_indexes_valid st) ?F (eo_deletion_runs e) (eo_deletion_id e)"
      obtain frags where frags: "integrate_inserted (tb_reclamation st) ?D (eo_inserted e) = Ok frags"
        "st' = set_fragments frags (observe_edit_op A e st)"
        using some new c no_append no_delete
        by (auto simp: apply_remote_edit_def split: option.splits sum.splits)
      have D: "pieces_ok ?D \<and> text_cells ?D = map (mark_cell (runs_span (eo_deletion_runs e)) (eo_deletion_id e)) (text_cells ?F) \<and>
          finer ?D ?F"
        using apply_deletion_cells [OF r(2) cells_distinct [OF r] runs] pres by (simp add: text_ids_def)
      then have okD: "frags_ok ?D"
        using frags_ok_same_cells [OF F(1), of ?D] by (simp add: comp_def)
      have "text_ids ?D = text_ids ?F" "text_cores ?D = text_cores ?F"
        using D by (simp_all add: text_ids_def text_cores_def image_image)
      then have I: "frags_ok frags \<and> text_cores frags = text_cores (edit_frags e) \<union> text_cores ?F \<and>
          cell_marks (text_cells frags) = cell_marks (text_cells ?D) \<and> finer frags (edit_frags e @ ?D)"
        using integrate_inserted_frags [OF okD ins dist _ frags(1)] fresh by simp
      have marks: "cell_marks (text_cells ?D) =
          cell_marks (text_cells ?F) \<union> runs_span (eo_deletion_runs e) \<times> {eo_timestamp e}"
        using pres D by (simp add: cell_marks_mark del text_ids_def Int_absorb2)
      have "finer (edit_frags e @ ?D) (edit_frags e @ ?F)"
        using D finer_append by blast
      then have fin: "finer frags (edit_frags e @ ?F)"
        using I finer_trans by blast
      show ?thesis
      proof (rule edit_stepI [OF ok e c])
        show "frags_ok (tb_fragments st')" "flags_current ?m (tb_fragments st')"
          using I frags_ok_refresh frags(2) by simp_all
        show "text_cores (tb_fragments st') = text_cores (edit_frags e) \<union> text_cores ?F"
          "finer (tb_fragments st') (edit_frags e @ ?F)"
          using I fin finer_refresh frags(2) by simp_all
        show "cell_marks (text_cells (tb_fragments st')) =
            cell_marks (text_cells ?F) \<union> runs_span (eo_deletion_runs e) \<times> {eo_timestamp e}"
          using I marks frags(2) by simp
        show "\<exists>st0. tb_version st0 = tb_version st \<and> tb_version st' = tb_version (observe_edit_op A e st0)"
          unfolding frags(2) by (rule exI [of _ st]) simp
      qed (simp add: frags(2))
    qed
  qed
qed

section \<open>An undo\<close>

lemma recompute_simps [simp]:
  "fr_origin (recompute_fragment m f) = fr_origin f" "fr_length (recompute_fragment m f) = fr_length f"
  "fr_deletions (recompute_fragment m f) = fr_deletions f" "fr_marker (recompute_fragment m f) = fr_marker f"
  "fr_visible (recompute_fragment m f) = fragment_compute_visible f m"
  "fragment_compute_visible (recompute_fragment m f) n = fragment_compute_visible f n"
  by (simp_all add: recompute_fragment_def)

lemma recompute_cells [simp]: "frag_cells (recompute_fragment m f) = frag_cells f"
  by (rule frag_cells_cong) (simp_all add: recompute_fragment_def)

lemma recompute_piece [simp]: "piece_ok (recompute_fragment m f) = piece_ok f"
  by (auto simp: piece_ok_def recompute_fragment_def frag_ok_def)

lemma recompute_fields [simp]:
  "tb_version (recompute_visibility_for ids st) = tb_version st"
  "tb_undo_map (recompute_visibility_for ids st) = tb_undo_map st"
  by (simp_all add: recompute_visibility_for_def Let_def)

lemma recompute_list:
  "\<exists>K. tb_fragments (recompute_visibility_for ids st) =
     map (\<lambda>k. if k \<in> K then recompute_fragment (tb_undo_map st) (tb_fragments st ! k) else tb_fragments st ! k)
       [0..<length (tb_fragments st)] \<and>
     (\<forall>k < length (tb_fragments st). k \<notin> K \<longrightarrow> tb_indexes_valid st \<and>
        (\<forall>i \<in> set ids. k \<notin> set (affected_by (tb_fragments st) i)))"
proof (cases "tb_indexes_valid st")
  case True
  then show ?thesis
    by (intro exI [of _ "\<Union> (set ` affected_by (tb_fragments st) ` set ids)"])
      (auto simp: recompute_visibility_for_def Let_def)
next
  case False
  have "map g xs = map (\<lambda>k. g (xs ! k)) [0..<length xs]" for g :: "fragment \<Rightarrow> fragment" and xs
    by (rule nth_equalityI) simp_all
  then show ?thesis
    using False by (intro exI [of _ UNIV]) (simp add: recompute_visibility_for_def Let_def)
qed

lemma recompute_frags:
  assumes "pieces_ok (tb_fragments st)"
  shows "text_cells (tb_fragments (recompute_visibility_for ids st)) = text_cells (tb_fragments st)"
    "pieces_ok (tb_fragments (recompute_visibility_for ids st))"
    "finer (tb_fragments (recompute_visibility_for ids st)) (tb_fragments st)"
proof -
  obtain K where K: "tb_fragments (recompute_visibility_for ids st) =
     map (\<lambda>k. if k \<in> K then recompute_fragment (tb_undo_map st) (tb_fragments st ! k) else tb_fragments st ! k)
       [0..<length (tb_fragments st)]"
    using recompute_list by blast
  have "map frag_cells (tb_fragments (recompute_visibility_for ids st)) = map frag_cells (tb_fragments st)"
    unfolding K by (rule nth_equalityI) simp_all
  then show "text_cells (tb_fragments (recompute_visibility_for ids st)) = text_cells (tb_fragments st)"
    by (simp add: text_cells_def)
  show "pieces_ok (tb_fragments (recompute_visibility_for ids st))"
    using assms unfolding K by auto
  have "frag_ids (recompute_fragment m f) = frag_ids f" for m f
    by (simp add: frag_ids_def)
  then show "finer (tb_fragments (recompute_visibility_for ids st)) (tb_fragments st)"
    unfolding K finer_def by auto
qed

lemma recompute_flags:
  assumes ok: "frags_ok (tb_fragments st)" and flags: "flags_current m (tb_fragments st)"
    and same: "\<And>i. i \<notin> set ids \<Longrightarrow> is_undone (tb_undo_map st) i = is_undone m i"
    and apart: "\<And>f. f \<in> set (tb_fragments st) \<Longrightarrow> set (fr_deletions f) \<inter> text_ids (tb_fragments st) = {}"
  shows "flags_current (tb_undo_map st) (tb_fragments (recompute_visibility_for ids st))"
proof -
  let ?F = "tb_fragments st" and ?n = "tb_undo_map st"
  have r: "runs_ok fragment_ops ?F" "pieces_ok ?F"
    using ok by (simp_all add: frags_ok_def)
  obtain K where K: "tb_fragments (recompute_visibility_for ids st) =
      map (\<lambda>k. if k \<in> K then recompute_fragment ?n (?F ! k) else ?F ! k) [0..<length ?F]"
    and out: "\<And>k i. k < length ?F \<Longrightarrow> k \<notin> K \<Longrightarrow> i \<in> set ids \<Longrightarrow> k \<notin> set (affected_by ?F i)"
    using recompute_list [of ids st] by blast
  have "fragment_compute_visible (?F ! k) m = fragment_compute_visible (?F ! k) ?n" if k: "k < length ?F" "k \<notin> K" for k
  proof -
    let ?f = "?F ! k"
    have "fr_origin ?f \<notin> set ids"
    proof
      assume i: "fr_origin ?f \<in> set ids"
      have "valid_pos fragment_ops ?F (k, 0)" "w_id fragment_ops ?F (k, 0) = fr_origin ?f"
        using k(1) r(2) piece_pos by (simp_all add: valid_pos_def)
      then have "index_find fragment_ops ?F (fr_origin ?f) = Some (k, 0)"
        using index_find_correct [OF r(1)] by blast
      then show False
        using out [OF k i] by (simp add: affected_by_def)
    qed
    moreover have "d \<notin> set ids" if d: "d \<in> set (fr_deletions ?f)" for d
    proof
      assume i: "d \<in> set ids"
      have "d \<notin> text_ids ?F"
        using apart [of ?f] d k(1) by auto
      then have "index_find fragment_ops ?F d = None"
        using index_find_None [OF r(1)] text_ids_run_ids [OF r(2)] by simp
      then show False
        using out [OF k i] d k(1) by (simp add: affected_by_def)
    qed
    ultimately show ?thesis
      using same by (auto simp: fragment_compute_visible_def list_all_iff)
  qed
  then show ?thesis
    using flags unfolding flags_current_def K by (auto simp: flags_current_def)
qed

lemma is_undone_other:
  assumes "undo_ok m" "counter t \<noteq> 0" "\<forall>(i, c) \<in> set cs. counter i \<noteq> 0" "i \<notin> fst ` set cs"
  shows "is_undone (undo_insert_all m t cs) i = is_undone m i"
proof -
  note n = undo_insert_all_ok [OF assms(1-3)]
  have "{e \<in> set (undo_insert_all m t cs). ue_edit e = i} = {e \<in> set m. ue_edit e = i}"
    using assms(4) unfolding n(2) by force
  then show ?thesis
    using assms(1) n(1) by (simp add: is_undone_def undo_count_spec)
qed

theorem apply_undo_step:
  assumes ok: "text_ok st" and u: "text_op_ok (UndoOp u)" and new: "\<not> observed (tb_version st) (uo_timestamp u)"
    and apart: "\<And>f. f \<in> set (tb_fragments st) \<Longrightarrow> set (fr_deletions f) \<inter> text_ids (tb_fragments st) = {}"
    and some: "apply_remote_undo A u st = Inr st'"
  shows "text_step (UndoOp u) st st'"
proof -
  let ?F = "tb_fragments st" and ?m = "undo_insert_all (tb_undo_map st) (uo_timestamp u) (uo_counts u)"
  define st1 where "st1 = buffer_observe_remote A (uo_timestamp u) (st\<lparr>tb_undo_map := ?m\<rparr>)"
  define st2 where "st2 = st1\<lparr>tb_version := join (observe (tb_version st1) (uo_timestamp u)) (uo_version u)\<rparr>"
  have c: "observed_all (tb_version st) (uo_version u)" and st': "st' = recompute_visibility_for (map fst (uo_counts u)) st2"
    using some new unfolding st1_def st2_def by (auto simp: apply_remote_undo_def Let_def split: if_splits)
  have f2: "tb_fragments st2 = ?F" "tb_undo_map st2 = ?m" "tb_version st2 = join (observe (tb_version st) (uo_timestamp u)) (uo_version u)"
    by (simp_all add: st1_def st2_def buffer_observe_remote_def)
  have F: "frags_ok ?F" "flags_current (tb_undo_map st) ?F" "global_ok (tb_version st)" "undo_ok (tb_undo_map st)"
    using ok by (simp_all add: text_ok_def)
  have cs: "counter (uo_timestamp u) \<noteq> 0" "\<forall>(i, c) \<in> set (uo_counts u). counter i \<noteq> 0"
    using u by (simp_all add: text_op_ok_def)
  note n = undo_insert_all_ok [OF F(4) cs]
  have p: "pieces_ok (tb_fragments st2)"
    using F(1) f2(1) by (simp add: frags_ok_def)
  note rf = recompute_frags [OF p, of "map fst (uo_counts u)", folded st', unfolded f2]
  have "flags_current (tb_undo_map st2) (tb_fragments st')"
    unfolding st' by (rule recompute_flags [where m = "tb_undo_map st"])
      (use F(1,2) f2 apart is_undone_other [OF F(4) cs] in auto)
  moreover have "frags_ok (tb_fragments st')"
    using frags_ok_same_cells [OF F(1) rf(2)] rf(1) by simp
  ultimately have "text_ok st'"
    using st' f2 n(1) F(3) by (simp add: text_ok_def)
  moreover have "observed_all (observe (tb_version st) (uo_timestamp u)) (uo_version u)"
    using observed_all_mono [OF c get_observe_ge] F(3) by simp
  then have "get (tb_version st') a = get (observe (tb_version st) (uo_timestamp u)) a" for a
    using join_covered [of "observe (tb_version st) (uo_timestamp u)"] F(3) st' f2(3) by simp
  moreover have "op_identity (UndoOp u) = uo_timestamp u" "op_cores (UndoOp u) = {}" "op_targets (UndoOp u) = {}"
    "op_counts (UndoOp u) = (\<lambda>(i, c). \<lparr>ue_edit = i, ue_undo = uo_timestamp u, ue_count = c\<rparr>) ` set (uo_counts u)"
    "op_runs (UndoOp u) = {}"
    by (simp_all add: op_cores_def op_targets_def op_counts_def op_identity_def op_runs_def)
  moreover have "tb_undo_map st' = ?m"
    using st' f2 by simp
  ultimately show ?thesis
    using rf(1,3) n(2) by (simp add: text_step_def text_cores_def finer_def)
qed

end
