(* ===== verification/Text_Convergence.thy ===== *)
theory Text_Convergence
  imports Text_Apply
begin

text \<open>
  The abstract specification of the text engine: the text is determined by the set of operations the
  version covers. \<open>text_reflects\<close> ties a buffer to a set of operations, every applied operation is an
  insertion into that set, and two buffers that reflect the same set have the same cells and show the
  same text, however their fragments are cut.
\<close>

lemma text_okD:
  assumes "text_ok st"
  shows "frags_ok (tb_fragments st)" "pieces_ok (tb_fragments st)" "flags_current (tb_undo_map st) (tb_fragments st)"
    "global_ok (tb_version st)" "undo_ok (tb_undo_map st)"
  using assms unfolding text_ok_def frags_ok_def by simp_all

section \<open>The text of the cells\<close>

definition cell_shown :: "undo_map \<Rightarrow> cell \<Rightarrow> bool" where
  "cell_shown m c \<longleftrightarrow> \<not> is_undone m (cl_id c) \<and> (\<forall>d \<in> cl_deletions c. is_undone m d)"

definition cells_text :: "undo_map \<Rightarrow> cell list \<Rightarrow> bytes" where
  "cells_text m cs = concat (map cl_bytes (filter (cell_shown m) cs))"

lemma cells_text_append [simp]: "cells_text m (cs @ ds) = cells_text m cs @ cells_text m ds"
  by (simp add: cells_text_def)

text \<open>The flag of a fragment is the one of its cells when their undo counts agree.\<close>

definition runs_uniform :: "undo_map \<Rightarrow> fragment list \<Rightarrow> bool" where
  "runs_uniform m frags \<longleftrightarrow> (\<forall>f \<in> set frags. \<forall>x \<in> frag_ids f. is_undone m x = is_undone m (fr_origin f))"

lemma frag_cells_deletions: "c \<in> set (frag_cells f) \<Longrightarrow> cl_deletions c = set (fr_deletions f)"
  by (auto simp: frag_cells_def)

lemma frag_cells_text:
  assumes ok: "piece_ok f" and u: "\<forall>x \<in> frag_ids f. is_undone m x = is_undone m (fr_origin f)"
  shows "cells_text m (frag_cells f) = (if fragment_compute_visible f m then fr_text f else [])"
proof -
  have shown: "cell_shown m c = fragment_compute_visible f m" if "c \<in> set (frag_cells f)" for c
  proof -
    have "is_undone m (cl_id c) = is_undone m (fr_origin f)"
      using u that by (auto simp: frag_ids_def)
    then show ?thesis
      using frag_cells_deletions [OF that] by (simp add: cell_shown_def fragment_compute_visible_def list_all_iff)
  qed
  show ?thesis
  proof (cases "fragment_compute_visible f m")
    case True
    then have "filter (cell_shown m) (frag_cells f) = frag_cells f"
      using shown by simp
    then show ?thesis
      using True frag_cells_bytes [of f] piece_text [OF ok] by (simp add: cells_text_def)
  next
    case False
    then have "filter (cell_shown m) (frag_cells f) = []"
      using shown by (simp add: filter_empty_conv)
    then show ?thesis
      using False by (simp add: cells_text_def)
  qed
qed

lemma shown_text_cells:
  "pieces_ok frags \<Longrightarrow> flags_current m frags \<Longrightarrow> runs_uniform m frags \<Longrightarrow>
     shown_text frags = cells_text m (text_cells frags)"
proof (induction frags)
  case Nil
  then show ?case
    by (simp add: shown_text_def cells_text_def)
next
  case (Cons f frags)
  have f: "piece_ok f" "\<forall>x \<in> frag_ids f. is_undone m x = is_undone m (fr_origin f)"
    "fr_visible f = fragment_compute_visible f m"
    and rest: "pieces_ok frags" "flags_current m frags" "runs_uniform m frags"
    using Cons.prems by (simp_all add: flags_current_def runs_uniform_def)
  show ?case
    using Cons.IH [OF rest] frag_cells_text [OF f(1,2)] f(3) by (simp add: shown_text_def)
qed

section \<open>Reflecting a set of operations\<close>

definition text_reflects :: "operation set \<Rightarrow> 'al text_buffer \<Rightarrow> bool" where
  "text_reflects S st \<longleftrightarrow>
     text_cores (tb_fragments st) = \<Union> (op_cores ` S) \<and>
     cell_marks (text_cells (tb_fragments st)) = (\<Union>op \<in> S. op_targets op \<times> {op_identity op}) \<and>
     set (tb_undo_map st) = \<Union> (op_counts ` S) \<and>
     (\<forall>f \<in> set (tb_fragments st). \<exists>op \<in> S. \<exists>D \<in> op_runs op. frag_ids f \<subseteq> D)"

theorem text_step_reflects:
  assumes "text_reflects S st" "text_step op st st'"
  shows "text_reflects (insert op S) st'"
proof -
  have frags: "\<exists>p \<in> insert op S. \<exists>D \<in> op_runs p. frag_ids f \<subseteq> D" if f: "f \<in> set (tb_fragments st')" for f
  proof -
    have "(\<exists>D \<in> op_runs op. frag_ids f \<subseteq> D) \<or> (\<exists>g \<in> set (tb_fragments st). frag_ids f \<subseteq> frag_ids g)"
      using assms(2) f by (simp add: text_step_def)
    then consider D where "D \<in> op_runs op" "frag_ids f \<subseteq> D"
      | g where "g \<in> set (tb_fragments st)" "frag_ids f \<subseteq> frag_ids g"
      by blast
    then show ?thesis
    proof cases
      case 1
      then show ?thesis by blast
    next
      case 2
      then have "\<exists>p \<in> S. \<exists>D \<in> op_runs p. frag_ids g \<subseteq> D"
        using assms(1) by (simp add: text_reflects_def)
      then obtain p D where "p \<in> S" "D \<in> op_runs p" "frag_ids g \<subseteq> D"
        by blast
      then show ?thesis
        using 2(2) by (meson insertCI subset_trans)
    qed
  qed
  show ?thesis
    unfolding text_reflects_def
  proof (intro conjI ballI)
    show "text_cores (tb_fragments st') = \<Union> (op_cores ` insert op S)"
      "set (tb_undo_map st') = \<Union> (op_counts ` insert op S)"
      using assms by (simp_all add: text_reflects_def text_step_def Un_commute)
    show "cell_marks (text_cells (tb_fragments st')) = (\<Union>op \<in> insert op S. op_targets op \<times> {op_identity op})"
      using assms by (simp add: text_reflects_def text_step_def Un_commute)
  qed (rule frags)
qed

section \<open>The cells are determined by the set\<close>

lemma cells_eqI:
  assumes ids: "map cl_id xs = map cl_id ys" and d: "distinct (map cl_id xs)"
    and core: "cell_core ` set xs = cell_core ` set ys" and marks: "cell_marks xs = cell_marks ys"
  shows "xs = ys"
proof (rule nth_equalityI)
  show len: "length xs = length ys"
    using ids by (rule map_eq_imp_length_eq)
  have del: "cl_deletions c = {x. (cl_id c, x) \<in> cell_marks zs}" if "distinct (map cl_id zs)" "c \<in> set zs" for c zs
    using that by (auto simp: cell_marks_def distinct_map dest: inj_onD)
  have d': "distinct (map cl_id ys)"
    using d ids by simp
  show "xs ! k = ys ! k" if k: "k < length xs" for k
  proof -
    have mem: "xs ! k \<in> set xs" "ys ! k \<in> set ys" and id: "cl_id (xs ! k) = cl_id (ys ! k)"
      using k len arg_cong [OF ids, of "\<lambda>zs. zs ! k"] by simp_all
    obtain c where c: "c \<in> set ys" "cell_core (xs ! k) = cell_core c"
      using core mem(1) by blast
    then have "c = ys ! k"
      using id mem(2) d' by (auto simp: cell_core_def distinct_map dest: inj_onD)
    then have "cell_core (xs ! k) = cell_core (ys ! k)" "cl_deletions (xs ! k) = cl_deletions (ys ! k)"
      using c del [OF d mem(1)] del [OF d' mem(2)] id marks by simp_all
    then show ?thesis
      by (cases "xs ! k", cases "ys ! k") (simp add: cell_core_def)
  qed
qed

lemma frags_determined:
  assumes x: "frags_ok xs" and y: "frags_ok ys" and cores: "text_cores xs = text_cores ys"
    and marks: "cell_marks (text_cells xs) = cell_marks (text_cells ys)"
  shows "text_cells xs = text_cells ys"
proof -
  have rx: "runs_ok fragment_ops xs" "pieces_ok xs" and ry: "runs_ok fragment_ops ys" "pieces_ok ys"
    using x y by (simp_all add: frags_ok_def)
  have items: "set (items fragment_ops zs) = (\<lambda>(i, l, b, k). (i, l)) ` text_cores zs" if "pieces_ok zs" for zs
    using text_cells_items [OF that] by (metis (no_types, lifting) image_cong image_image list.set_map
        cell_core_def old.prod.case text_cores_def)
  have "set (items fragment_ops xs) = set (items fragment_ops ys)"
    using items rx(2) ry(2) cores by simp
  then have "items fragment_ops xs = items fragment_ops ys"
    using items_determined [OF rx(1) ry(1)] by blast
  then have "map cl_id (text_cells xs) = map cl_id (text_cells ys)"
    using text_cells_ids rx(2) ry(2) by (simp add: run_ids_def)
  then show ?thesis
    using cells_eqI cells_distinct [OF rx] cores marks unfolding text_cores_def by blast
qed

section \<open>A log of operations\<close>

text \<open>
  The operations of all replicas: well formed, no identity used twice, each covering the earlier ones
  of its own actor and the ones whose items it deletes, and undo counts that treat the items of one
  inserted run alike.
\<close>

definition op_claims :: "operation \<Rightarrow> identity set" where
  "op_claims op = insert (op_identity op) (fst ` op_cores op)"

definition uniform_counts :: "operation set \<Rightarrow> bool" where
  "uniform_counts L \<longleftrightarrow> (\<forall>u \<in> L. \<forall>op \<in> L. \<forall>D \<in> op_runs op. \<forall>x \<in> D. \<forall>y \<in> D. \<forall>t c.
     \<lparr>ue_edit = x, ue_undo = t, ue_count = c\<rparr> \<in> op_counts u \<longrightarrow>
     \<lparr>ue_edit = y, ue_undo = t, ue_count = c\<rparr> \<in> op_counts u)"

definition text_log :: "operation set \<Rightarrow> bool" where
  "text_log L \<longleftrightarrow>
     (\<forall>op \<in> L. text_op_ok op) \<and>
     (\<forall>op \<in> L. \<forall>op' \<in> L. op \<noteq> op' \<longrightarrow> op_claims op \<inter> op_claims op' = {}) \<and>
     (\<forall>op \<in> L. \<forall>old \<in> L. actor (op_identity old) = actor (op_identity op) \<and>
        counter (op_identity old) < counter (op_identity op) \<longrightarrow> observed (text_op_version op) (op_identity old)) \<and>
     (\<forall>op \<in> L. \<forall>x \<in> op_targets op. \<exists>old \<in> L. observed (text_op_version op) (op_identity old) \<and> x \<in> fst ` op_cores old) \<and>
     uniform_counts L"

definition covered_text :: "global \<Rightarrow> operation set \<Rightarrow> operation set" where
  "covered_text v L = {op \<in> L. observed v (op_identity op)}"

lemma text_logD:
  assumes "text_log L"
  shows "op \<in> L \<Longrightarrow> text_op_ok op"
    "op \<in> L \<Longrightarrow> old \<in> L \<Longrightarrow> op \<noteq> old \<Longrightarrow> op_claims op \<inter> op_claims old = {}"
    "op \<in> L \<Longrightarrow> old \<in> L \<Longrightarrow> actor (op_identity old) = actor (op_identity op) \<Longrightarrow>
       counter (op_identity old) < counter (op_identity op) \<Longrightarrow> observed (text_op_version op) (op_identity old)"
    "op \<in> L \<Longrightarrow> x \<in> op_targets op \<Longrightarrow>
       \<exists>old \<in> L. observed (text_op_version op) (op_identity old) \<and> x \<in> fst ` op_cores old"
    "uniform_counts L"
  using assms unfolding text_log_def by simp_all

lemma edit_items_before:
  assumes "edit_ok e" "x \<in> fst ` op_cores (EditOp e)"
  shows "actor x = actor (eo_timestamp e)" "counter x < counter (eo_timestamp e)"
proof -
  have "x \<in> text_ids (edit_frags e)"
    using assms(2) by (simp add: op_cores_def text_ids_cores)
  then obtain i where i: "i \<in> set (eo_inserted e)" "x \<in> cl_id ` set (frag_cells (fragment_of_inserted i))"
    by (auto simp: text_ids_def text_cells_def)
  then have p: "piece_ok (fragment_of_inserted i)" "actor (if_origin i) = actor (eo_timestamp e)"
    "counter (if_origin i) + if_length i \<le> counter (eo_timestamp e)"
    using assms(1) by (simp_all add: edit_ok_def)
  have "frag_holds (fragment_of_inserted i) x"
    using holds_cells [OF p(1)] i(2) by simp
  then show "actor x = actor (eo_timestamp e)" "counter x < counter (eo_timestamp e)"
    using p(2,3) by (auto simp: frag_holds_def)
qed

lemma op_identity_fresh: "text_op_ok op \<Longrightarrow> op_identity op \<notin> fst ` op_cores op"
proof (cases op)
  case (EditOp e)
  assume "text_op_ok op"
  then show ?thesis
    using edit_items_before [of e "op_identity op"] EditOp by (auto simp: text_op_ok_def op_identity_def)
qed (simp add: op_cores_def)

text \<open>An identity that names an operation of the log is no item of the log.\<close>

lemma log_identity_no_item:
  assumes "text_log L" "op \<in> L" "old \<in> L"
  shows "op_identity op \<notin> fst ` op_cores old"
proof (cases "op = old")
  case True
  then show ?thesis
    using op_identity_fresh text_logD(1) [OF assms(1,2)] by simp
next
  case False
  then show ?thesis
    using text_logD(2) [OF assms False] by (auto simp: op_claims_def)
qed

lemma covered_text_observe:
  assumes L: "text_log L" "op \<in> L" and g: "global_ok v" and c: "observed_all v (text_op_version op)"
    and new: "\<not> observed v (op_identity op)" and w: "\<And>a. get w a = get (observe v (op_identity op)) a"
  shows "covered_text w L = insert op (covered_text v L)"
proof -
  let ?i = "op_identity op"
  have w': "get w a = (if a = actor ?i then max (get v a) (counter ?i) else get v a)" for a
    using w get_observe [OF g] by simp
  have new_op: "old = op"
    if old: "old \<in> L" "observed w (op_identity old)" "\<not> observed v (op_identity old)" for old
  proof -
    let ?j = "op_identity old"
    have j: "actor ?j = actor ?i" "counter ?j \<le> counter ?i"
      using old(2,3) w' by (auto simp: observed_def split: if_splits)
    have "\<not> counter ?j < counter ?i"
      using text_logD(3) [OF L(1,2) old(1) j(1)] observed_by_version [OF c] old(3) by blast
    then have "?j = ?i"
      using j by (simp add: identity.expand)
    then show ?thesis
      using text_logD(2) [OF L(1,2) old(1)] by (auto simp: op_claims_def)
  qed
  have "observed w ?i"
    using w' by (simp add: observed_def)
  moreover have "observed v i \<Longrightarrow> observed w i" for i
    using w' [of "actor i"] by (simp add: observed_def split: if_splits)
  ultimately show ?thesis
    using L(2) new_op unfolding covered_text_def by blast
qed

section \<open>Showing the log\<close>

definition text_shows :: "operation set \<Rightarrow> 'al text_buffer \<Rightarrow> bool" where
  "text_shows L st \<longleftrightarrow> text_ok st \<and> text_reflects (covered_text (tb_version st) L) st"

lemma shows_ids: "text_shows L st \<Longrightarrow>
  text_ids (tb_fragments st) = (\<Union>op \<in> covered_text (tb_version st) L. fst ` op_cores op)"
  by (simp add: text_shows_def text_reflects_def text_ids_cores image_UN)

lemma edit_frags_ids: "text_ids (edit_frags e) = fst ` op_cores (EditOp e)"
  by (simp add: op_cores_def text_ids_cores)

lemma shows_apart:
  assumes L: "text_log L" and st: "text_shows L st" and f: "f \<in> set (tb_fragments st)"
  shows "set (fr_deletions f) \<inter> text_ids (tb_fragments st) = {}"
proof -
  have "pieces_ok (tb_fragments st)"
    using st text_okD(2) unfolding text_shows_def by blast
  then have "frag_cells f \<noteq> []"
    using f piece_pos [of f] piece_length [of f] by (metis length_frag_cells less_numeral_extra(3) list.size(3))
  then obtain c where c: "c \<in> set (frag_cells f)"
    by (meson list.set_sel(1))
  have "d \<notin> text_ids (tb_fragments st)" if d: "d \<in> set (fr_deletions f)" for d
  proof -
    have "c \<in> set (text_cells (tb_fragments st))"
      using c f by (auto simp: text_cells_def)
    then have "(cl_id c, d) \<in> cell_marks (text_cells (tb_fragments st))"
      using d frag_cells_deletions [OF c] by (auto simp: cell_marks_def)
    then obtain op where op: "op \<in> L" "d = op_identity op"
      using st by (auto simp: text_shows_def text_reflects_def covered_text_def)
    show ?thesis
    proof
      assume "d \<in> text_ids (tb_fragments st)"
      then obtain old where "old \<in> L" "d \<in> fst ` op_cores old"
        unfolding shows_ids [OF st] covered_text_def by blast
      then show False
        using log_identity_no_item [OF L op(1), of old] op(2) by simp
    qed
  qed
  then show ?thesis
    by blast
qed

lemma try_apply_version_covered:
  "buffer_try_apply A op st = Inr st' \<Longrightarrow> \<not> observed (tb_version st) (op_identity op) \<Longrightarrow>
     observed_all (tb_version st) (text_op_version op)"
  by (cases op) (auto simp: buffer_try_apply_def apply_remote_edit_def apply_remote_undo_def op_identity_def
      text_op_version_def split: if_splits)

lemma buffer_apply_observed:
  "observed (tb_version st) (op_identity op) \<Longrightarrow> buffer_try_apply A op st = Inr st"
  by (cases op) (simp_all add: buffer_try_apply_def apply_remote_edit_def apply_remote_undo_def op_identity_def)

theorem try_apply_shows:
  assumes L: "text_log L" and op: "op \<in> L" and st: "text_shows L st" and some: "buffer_try_apply A op st = Inr st'"
  shows "text_shows L st'"
proof (cases "observed (tb_version st) (op_identity op)")
  case True
  then have "st' = st"
    using buffer_apply_observed [OF True, of A] some by simp
  then show ?thesis
    using st by simp
next
  case new: False
  note c = try_apply_version_covered [OF some new]
  have ok: "text_ok st" "global_ok (tb_version st)"
    using st by (simp_all add: text_shows_def text_ok_def)
  have wf: "text_op_ok op"
    using text_logD(1) [OF L op] .
  have step: "text_step op st st'"
  proof (cases op)
    case (EditOp e)
    show ?thesis
      unfolding EditOp
    proof (rule apply_edit_step [OF ok(1)])
      show "edit_ok e" "\<not> observed (tb_version st) (eo_timestamp e)" "apply_remote_edit A e st = Inr st'"
        using wf new some EditOp by (simp_all add: text_op_ok_def op_identity_def buffer_try_apply_def)
      have "x \<notin> fst ` op_cores old" if "old \<in> covered_text (tb_version st) L" "x \<in> fst ` op_cores op" for old x
      proof -
        have "old \<in> L" "op \<noteq> old"
          using that(1) new by (auto simp: covered_text_def)
        then show ?thesis
          using text_logD(2) [OF L op] that(2) unfolding op_claims_def by blast
      qed
      then show "text_ids (edit_frags e) \<inter> text_ids (tb_fragments st) = {}"
        unfolding shows_ids [OF st] edit_frags_ids EditOp by blast
      have "x \<in> text_ids (tb_fragments st)" if x: "x \<in> op_targets op" for x
      proof -
        obtain old where "old \<in> L" "observed (text_op_version op) (op_identity old)" "x \<in> fst ` op_cores old"
          using text_logD(4) [OF L op x] by blast
        then show ?thesis
          using observed_by_version [OF c] unfolding shows_ids [OF st] covered_text_def by blast
      qed
      then show "runs_span (eo_deletion_runs e) \<subseteq> text_ids (tb_fragments st)"
        unfolding EditOp op_targets_def by auto
    qed
  next
    case (UndoOp u)
    show ?thesis
      unfolding UndoOp
    proof (rule apply_undo_step [OF ok(1)])
      show "text_op_ok (UndoOp u)" "\<not> observed (tb_version st) (uo_timestamp u)" "apply_remote_undo A u st = Inr st'"
        using wf new some UndoOp by (simp_all add: op_identity_def buffer_try_apply_def)
    qed (rule shows_apart [OF L st])
  qed
  have "get (tb_version st') a = get (observe (tb_version st) (op_identity op)) a" for a
    using step by (simp add: text_step_def)
  then have "covered_text (tb_version st') L = insert op (covered_text (tb_version st) L)"
    by (rule covered_text_observe [OF L op ok(2) c new])
  moreover have "text_reflects (insert op (covered_text (tb_version st) L)) st'"
    using text_step_reflects [OF _ step] st by (simp add: text_shows_def)
  ultimately show ?thesis
    using step by (simp add: text_shows_def text_step_def)
qed

section \<open>The text is determined by the version\<close>

lemma reflects_uniform:
  assumes L: "text_log L" and st: "text_ok st" "text_reflects S st" and S: "S \<subseteq> L"
  shows "runs_uniform (tb_undo_map st) (tb_fragments st)"
  unfolding runs_uniform_def
proof (intro ballI)
  fix f x
  assume f: "f \<in> set (tb_fragments st)" and x: "x \<in> frag_ids f"
  let ?m = "tb_undo_map st" and ?o = "fr_origin f"
  have p: "piece_ok f"
    using f text_okD(2) [OF st(1)] by blast
  have o: "?o \<in> frag_ids f"
    using holds_cells [OF p, of ?o] piece_pos [OF p] by (simp add: frag_holds_def frag_ids_def)
  have "\<exists>op \<in> S. \<exists>D \<in> op_runs op. frag_ids f \<subseteq> D"
    using st(2) f by (simp add: text_reflects_def)
  then obtain op D where D: "op \<in> S" "D \<in> op_runs op" "x \<in> D" "?o \<in> D"
    using x o by blast
  have set: "set ?m = \<Union> (op_counts ` S)"
    using st(2) by (simp add: text_reflects_def)
  have same: "\<lparr>ue_edit = z, ue_undo = t, ue_count = c\<rparr> \<in> set ?m"
    if ent: "\<lparr>ue_edit = y, ue_undo = t, ue_count = c\<rparr> \<in> set ?m" "y \<in> D" "z \<in> D" for y z t c
  proof -
    obtain u where u: "u \<in> S" "\<lparr>ue_edit = y, ue_undo = t, ue_count = c\<rparr> \<in> op_counts u"
      using ent(1) set by blast
    have "\<lparr>ue_edit = z, ue_undo = t, ue_count = c\<rparr> \<in> op_counts u"
      using text_logD(5) [OF L] u D(1,2) S ent(2,3) unfolding uniform_counts_def by blast
    then show ?thesis
      using u(1) set by blast
  qed
  have sub: "ue_count ` {e \<in> set ?m. ue_edit e = y} \<subseteq> ue_count ` {e \<in> set ?m. ue_edit e = z}"
    if "y \<in> D" "z \<in> D" for y z
  proof
    fix c
    assume "c \<in> ue_count ` {e \<in> set ?m. ue_edit e = y}"
    then obtain e where e: "e \<in> set ?m" "ue_edit e = y" "ue_count e = c"
      by blast
    then have "\<lparr>ue_edit = y, ue_undo = ue_undo e, ue_count = c\<rparr> \<in> set ?m"
      by (metis undo_entry.surjective old.unit.exhaust)
    then have "\<lparr>ue_edit = z, ue_undo = ue_undo e, ue_count = c\<rparr> \<in> set ?m"
      using same that by blast
    then show "c \<in> ue_count ` {e \<in> set ?m. ue_edit e = z}"
      by force
  qed
  have "ue_count ` {e \<in> set ?m. ue_edit e = x} = ue_count ` {e \<in> set ?m. ue_edit e = ?o}"
    using sub D(3,4) by blast
  then show "is_undone ?m x = is_undone ?m ?o"
    using st(1) by (simp add: is_undone_def undo_count_spec text_ok_def)
qed

theorem reflects_text:
  assumes "text_log L" "text_ok st" "text_reflects S st" "S \<subseteq> L"
  shows "buffer_text st = cells_text (tb_undo_map st) (text_cells (tb_fragments st))"
  unfolding buffer_text_def
  using shown_text_cells [OF _ _ reflects_uniform [OF assms]] assms(2) by (simp add: text_ok_def frags_ok_def)

theorem text_shows_converge:
  assumes L: "text_log L" and x: "text_shows L x" and y: "text_shows L y"
    and v: "\<And>a. get (tb_version x) a = get (tb_version y) a"
  shows "text_cells (tb_fragments x) = text_cells (tb_fragments y)" "buffer_text x = buffer_text y"
proof -
  let ?S = "covered_text (tb_version x) L"
  have S: "covered_text (tb_version y) L = ?S" "?S \<subseteq> L"
    using v by (auto simp: covered_text_def observed_def)
  have okx: "text_ok x" "text_reflects ?S x" and oky: "text_ok y" "text_reflects ?S y"
    using x y S(1) by (simp_all add: text_shows_def)
  have "text_cores (tb_fragments x) = text_cores (tb_fragments y)"
    "cell_marks (text_cells (tb_fragments x)) = cell_marks (text_cells (tb_fragments y))"
    and m: "set (tb_undo_map x) = set (tb_undo_map y)"
    using okx(2) oky(2) by (simp_all add: text_reflects_def)
  then show c: "text_cells (tb_fragments x) = text_cells (tb_fragments y)"
    using frags_determined okx(1) oky(1) by (simp add: text_ok_def)
  have "is_undone (tb_undo_map x) = is_undone (tb_undo_map y)"
    using is_undone_set_eq [OF _ _ m] okx(1) oky(1) by (auto simp: text_ok_def)
  then have "cell_shown (tb_undo_map x) = cell_shown (tb_undo_map y)"
    by (auto simp: cell_shown_def fun_eq_iff)
  then show "buffer_text x = buffer_text y"
    using reflects_text [OF L okx S(2)] reflects_text [OF L oky S(2)] c by (simp add: cells_text_def)
qed

section \<open>Batches and the deferral queue\<close>

definition text_tracks :: "operation set \<Rightarrow> 'al text_buffer \<Rightarrow> bool" where
  "text_tracks L st \<longleftrightarrow> text_shows L st \<and> te_op ` set (tb_deferred st) \<subseteq> L"

definition same_text :: "'al text_buffer \<Rightarrow> 'al text_buffer \<Rightarrow> bool" where
  "same_text st st' \<longleftrightarrow> tb_fragments st' = tb_fragments st \<and> tb_undo_map st' = tb_undo_map st \<and>
     tb_version st' = tb_version st"

lemma same_text_shows: "same_text st st' \<Longrightarrow> text_shows L st' = text_shows L st"
  by (simp add: same_text_def text_shows_def text_ok_def text_reflects_def)

lemma same_text_tracks:
  "same_text st st' \<Longrightarrow> te_op ` set (tb_deferred st') \<subseteq> L \<Longrightarrow> text_tracks L st \<Longrightarrow> text_tracks L st'"
  by (simp add: text_tracks_def same_text_shows)

lemma tracks_refl_step:
  assumes "text_tracks L st"
  shows "text_tracks L (buffer_changed st)" "text_tracks L (mark_waiting a st)"
    "text_tracks L (buffer_quarantine op e st)" "text_tracks L (st\<lparr>tb_deferred_actors := X\<rparr>)"
  by (rule same_text_tracks [OF _ _ assms]; use assms in
      \<open>simp add: same_text_def text_tracks_def buffer_changed_def mark_waiting_def buffer_quarantine_def Let_def\<close>)+

lemma enqueue_deferred_set: "set (enqueue_deferred e q) \<subseteq> insert e (set q)"
  unfolding enqueue_deferred_def Let_def
  by (auto dest!: set_takeWhileD set_dropWhileD)

lemma buffer_defer_tracks:
  assumes "text_tracks L st" "op \<in> L"
  shows "text_tracks L (fst (buffer_defer op i st))"
proof (cases "deferred_budget_exhausted (tb_deferred_budget st) (tb_deferred_count st) (tb_deferred_bytes st)
    (estimate_operation_bytes op)")
  case True
  then show ?thesis
    using tracks_refl_step(3) [OF assms(1)] by (simp add: buffer_defer_def Let_def)
next
  case False
  let ?q = "enqueue_deferred \<lparr>te_timestamp = op_identity op, te_op = op\<rparr> (tb_deferred st)"
  have "te_op ` set ?q \<subseteq> insert op (te_op ` set (tb_deferred st))"
    using enqueue_deferred_set [of "\<lparr>te_timestamp = op_identity op, te_op = op\<rparr>" "tb_deferred st"] by auto
  then have "te_op ` set ?q \<subseteq> L"
    using assms by (auto simp: text_tracks_def)
  then show ?thesis
    using False by (intro same_text_tracks [OF _ _ assms(1)]) (simp_all add: buffer_defer_def Let_def same_text_def)
qed

lemma recompute_deferred [simp]: "tb_deferred (recompute_visibility_for ids st) = tb_deferred st"
  by (simp add: recompute_visibility_for_def Let_def)

lemma buffer_try_apply_deferred: "buffer_try_apply A op st = Inr st' \<Longrightarrow> tb_deferred st' = tb_deferred st"
proof (cases op)
  case (EditOp e)
  have "tb_deferred (observe_edit_op A e s) = tb_deferred s" for s :: "'a text_buffer"
    by (rule observe_edit_op_eq [of A e s]) simp
  moreover assume "buffer_try_apply A op st = Inr st'"
  ultimately show ?thesis
    using EditOp by (auto simp: buffer_try_apply_def apply_remote_edit_def publish_fragments_def set_fragments_def
        split: if_splits option.splits sum.splits)
next
  case (UndoOp u)
  moreover assume "buffer_try_apply A op st = Inr st'"
  ultimately show ?thesis
    by (auto simp: buffer_try_apply_def apply_remote_undo_def buffer_observe_remote_def Let_def split: if_splits)
qed

lemma try_apply_tracks:
  assumes "text_log L" "op \<in> L" "text_tracks L st" "buffer_try_apply A op st = Inr st'"
  shows "text_tracks L st'"
  using try_apply_shows [OF assms(1,2) _ assms(4)] buffer_try_apply_deferred [OF assms(4)] assms(3)
  by (simp add: text_tracks_def)

lemma apply_one_tracks:
  assumes L: "text_log L" "op \<in> L" and t: "text_tracks L st"
  shows "text_tracks L (fst (buffer_apply_one A op st))"
proof -
  have queue: "text_tracks L (fst (buffer_defer op i st))" "text_tracks L (fst (buffer_defer op i (mark_waiting a st)))" for i a
    by (rule buffer_defer_tracks [OF t L(2)], rule buffer_defer_tracks [OF tracks_refl_step(2) [OF t] L(2)])
  show ?thesis
  proof (cases "buffer_try_apply A op st")
    case (Inr st')
    have "text_tracks L (buffer_changed st')"
      using tracks_refl_step(1) try_apply_tracks [OF L t Inr] by blast
    then show ?thesis
      using t queue Inr by (auto simp: buffer_apply_one_def Let_def split: validation_result.split)
  next
    case (Inl e)
    then show ?thesis
      using t queue by (auto simp: buffer_apply_one_def Let_def split: validation_result.split option.split)
  qed
qed

lemma retry_pass_tracks:
  assumes L: "text_log L"
  shows "text_tracks L st \<Longrightarrow> te_op ` set es \<subseteq> L \<Longrightarrow> buffer_retry_pass A es st = (st', rest, p) \<Longrightarrow>
    text_tracks L st' \<and> set rest \<subseteq> set es"
proof (induction es arbitrary: st st' rest p)
  case Nil
  then show ?case by simp
next
  case (Cons e es)
  have es: "te_op ` set es \<subseteq> L" "te_op e \<in> L"
    using Cons.prems(2) by auto
  have step: "text_tracks L st' \<and> set rest \<subseteq> set (e # es)"
    if "text_tracks L st1" "buffer_retry_pass A es st1 = (st', rest', q)" "rest = rest' \<or> rest = e # rest'" for st1 rest' q
    using Cons.IH [OF that(1) es(1) that(2)] that(3) by auto
  show ?case
  proof (cases "actor (te_timestamp e) \<in> tb_deferred_actors st")
    case True
    then show ?thesis
      using step [OF Cons.prems(1)] Cons.prems(3) by (simp split: prod.splits)
  next
    case new: False
    show ?thesis
    proof (cases "buffer_try_apply A (te_op e) st")
      case (Inr st1)
      have "text_tracks L (buffer_changed st1)"
        using tracks_refl_step(1) try_apply_tracks [OF L es(2) Cons.prems(1) Inr] by blast
      from step [OF this] show ?thesis
        using Cons.prems(3) new Inr by (simp split: prod.splits)
    next
      case (Inl err)
      then show ?thesis
        using step [OF tracks_refl_step(2) [OF Cons.prems(1)]] step [OF tracks_refl_step(3) [OF Cons.prems(1)]]
          Cons.prems(3) new
        by (cases err) (simp_all split: prod.splits)
    qed
  qed
qed

lemma retry_deferred_tracks: "text_log L \<Longrightarrow> text_tracks L st \<Longrightarrow> text_tracks L (buffer_retry_deferred A st)"
proof (induction A st rule: buffer_retry_deferred.induct)
  case (1 A st)
  obtain st1 rest p where r: "buffer_retry_pass A (tb_deferred st) (st\<lparr>tb_deferred_actors := {}\<rparr>) = (st1, rest, p)"
    by (cases "buffer_retry_pass A (tb_deferred st) (st\<lparr>tb_deferred_actors := {}\<rparr>)")
  let ?st2 = "st1\<lparr>tb_deferred := rest, tb_deferred_count := length rest,
    tb_deferred_bytes := sum_list (map (\<lambda>e. estimate_operation_bytes (te_op e)) rest)\<rparr>"
  have q: "te_op ` set (tb_deferred st) \<subseteq> L"
    using "1.prems"(2) by (simp add: text_tracks_def)
  have t: "text_tracks L st1" "set rest \<subseteq> set (tb_deferred st)"
    using retry_pass_tracks [OF "1.prems"(1) tracks_refl_step(4) [OF "1.prems"(2)] q r] by simp_all
  then have "te_op ` set rest \<subseteq> L"
    using q by blast
  then have t2: "text_tracks L ?st2"
    by (intro same_text_tracks [OF _ _ t(1)]) (simp_all add: same_text_def)
  show ?case
    using "1.IH" [OF r [symmetric] refl refl _ "1.prems"(1) t2] t2 r by (subst buffer_retry_deferred.simps) (simp add: Let_def)
qed

lemma apply_each_tracks:
  "text_log L \<Longrightarrow> set ops \<subseteq> L \<Longrightarrow> text_tracks L st \<Longrightarrow> text_tracks L (fst (buffer_apply_each A ops st))"
proof (induction ops arbitrary: st)
  case Nil
  then show ?case by simp
next
  case (Cons op ops)
  have "text_tracks L (fst (buffer_apply_one A op st))"
    using apply_one_tracks [OF Cons.prems(1) _ Cons.prems(3)] Cons.prems(2) by simp
  from Cons.IH [OF Cons.prems(1) _ this] show ?case
    using Cons.prems(2) by (simp add: case_prod_beta)
qed

theorem apply_ops_tracks_text:
  assumes "text_log L" "set ops \<subseteq> L" "text_tracks L st"
  shows "text_tracks L (fst (buffer_apply_ops A ops st))"
  using retry_deferred_tracks [OF assms(1) apply_each_tracks [OF assms]]
  by (simp add: buffer_apply_ops_def case_prod_beta)

lemma text_tracks_new:
  assumes "text_log L"
  shows "text_tracks L (new_buffer al)"
proof -
  have "op \<notin> covered_text [] L" for op
    using text_logD(1) [OF assms, of op]
    by (cases op) (auto simp: covered_text_def observed_def text_op_ok_def edit_ok_def op_identity_def)
  then have "covered_text [] L = {}"
    by blast
  then show ?thesis
    by (simp add: text_tracks_def text_shows_def text_ok_def text_reflects_def new_buffer_def frags_ok_def
        runs_ok_empty flags_current_def text_cores_def)
qed

lemma batches_track:
  "text_log L \<Longrightarrow> \<forall>ops \<in> set bs. set ops \<subseteq> L \<Longrightarrow> text_tracks L st \<Longrightarrow>
     text_tracks L (fold (\<lambda>ops st. fst (buffer_apply_ops A ops st)) bs st)"
  by (induction bs arbitrary: st) (simp_all add: apply_ops_tracks_text)

end
