(* ===== verification/Text_Checkpoint.thy ===== *)
theory Text_Checkpoint
  imports Text_Remote
begin

text \<open>
  Checkpoints, certified collection, budgets and the detached view of the text engine
  (\<open>Buffer.h\<close>, \<open>Buffer.cpp\<close>). A restoration builds a fresh buffer and replaces the old one only when every
  check has passed. A collection rebuilds the tree but neither the origin index nor the run directory,
  whose rows then lead to no leaf; the model counts the indexes as invalid from there on.
\<close>

section \<open>Budgets, quarantine, detached view\<close>

definition buffer_set_deferred_budget :: "deferred_budget \<Rightarrow> 'al text_buffer \<Rightarrow> 'al text_buffer" where
  "buffer_set_deferred_budget b st = st\<lparr>tb_deferred_budget := b\<rparr>"

definition buffer_set_quarantine_budget ::
  "deferred_budget \<Rightarrow> 'al text_buffer \<Rightarrow> 'al text_buffer \<times> unit result" where
  "buffer_set_quarantine_budget b st =
     (if length (tb_quarantined st) > max_operations b \<or> tb_quarantined_bytes st > max_bytes b
      then (st, Err malformed) else (st\<lparr>tb_quarantine_budget := b\<rparr>, Ok ()))"

definition buffer_take_quarantined ::
  "'al text_buffer \<Rightarrow> 'al text_buffer \<times> (operation \<times> error_code) list" where
  "buffer_take_quarantined st =
     (st\<lparr>tb_quarantined_bytes := 0, tb_quarantined := []\<rparr>, tb_quarantined st)"

definition buffer_set_reclamation :: "reclamation_binding \<Rightarrow> 'al text_buffer \<Rightarrow> 'al text_buffer" where
  "buffer_set_reclamation b st = st\<lparr>tb_reclamation := b\<rparr>"

definition buffer_discard_local_view :: "'al text_buffer \<Rightarrow> 'al text_buffer" where
  "buffer_discard_local_view st =
     (let fresh = (new_buffer (tb_alloc st))
            \<lparr>tb_version := tb_version st, tb_reclamation := tb_reclamation st, tb_retired := tb_retired st,
             tb_retired_bytes := tb_retired_bytes st, tb_changes := tb_changes st\<rparr>
      in fst (buffer_set_max_undo_bytes (tb_max_bytes st)
           (fst (buffer_set_max_undo_depth (tb_max_depth st) fresh))))"

section \<open>Certified collection\<close>

definition fragment_retained_by_history :: "'al text_buffer \<Rightarrow> fragment \<Rightarrow> bool" where
  "fragment_retained_by_history st f =
     list_ex (\<lambda>g. list_ex (frag_holds f) (ug_inserted g) \<or>
         list_ex (\<lambda>d. d \<in> set (fr_deletions f)) (ug_deletions g))
       (tb_undo_stack st @ tb_retired st)"

definition fragment_referenced :: "fragment list \<Rightarrow> nat \<Rightarrow> bool" where
  "fragment_referenced frags i =
     list_ex (\<lambda>j. i \<noteq> j \<and>
         ((case parent (fr_link (frags ! j)) of None \<Rightarrow> False | Some p \<Rightarrow> frag_holds (frags ! i) p) \<or>
          (case right_origin (fr_link (frags ! j)) of None \<Rightarrow> False | Some r \<Rightarrow> frag_holds (frags ! i) r)))
       [0..<length frags]"

definition fragment_targeted :: "fragment \<Rightarrow> identity \<Rightarrow> bool" where
  "fragment_targeted f i \<longleftrightarrow> frag_holds f i \<or> i \<in> set (fr_deletions f)"

definition fragment_reclaimable :: "'al text_buffer \<Rightarrow> identity list \<Rightarrow> nat \<Rightarrow> bool" where
  "fragment_reclaimable st pinned k =
     (let f = tb_fragments st ! k; covered = rb_frontier (tb_reclamation st) in
      \<not> (fr_visible f \<or> \<not> tombstone_is_covered covered (fr_origin f) (fr_length f) (fr_deletions f) \<or>
         fragment_retained_by_history st f) \<and>
      \<not> list_ex (frag_holds f) pinned \<and>
      \<not> fragment_referenced (tb_fragments st) k \<and>
      \<not> list_ex (\<lambda>event. fragment_targeted f (ue_edit event) \<and>
          \<not> operation_is_covered covered (ue_undo event)) (tb_undo_map st))"

definition buffer_collect_garbage ::
  "identity list \<Rightarrow> 'al text_buffer \<Rightarrow> 'al text_buffer \<times> nat result" where
  "buffer_collect_garbage pinned st =
     (if \<not> binding_well_formed (tb_reclamation st) then (st, Err awaiting_state)
      else if list_ex (\<lambda>(a, through). get (tb_version st) a < through) (rb_frontier (tb_reclamation st))
      then (st, Err counter_regression)
      else
        let frags = tb_fragments st;
            removed = filter (fragment_reclaimable st pinned) [0..<length frags];
            reclaimed = sum_list (map (\<lambda>k. fr_length (frags ! k)) removed)
        in if reclaimed = 0 then (st, Ok 0)
           else case undo_restore (filter (\<lambda>event. \<not> list_ex (\<lambda>k. fragment_targeted (frags ! k) (ue_edit event))
               removed) (tb_undo_map st)) of
             Inl e \<Rightarrow> (st, Err e)
           | Inr rebuilt \<Rightarrow>
               (st\<lparr>tb_undo_map := rebuilt,
                   tb_fragments := map (\<lambda>k. recompute_fragment rebuilt (frags ! k))
                     (filter (\<lambda>k. k \<notin> set removed) [0..<length frags]),
                   tb_indexes_valid := False\<rparr>,
                Ok reclaimed))"

text \<open>The public call collects nothing.\<close>

definition buffer_collect_nothing :: "'al text_buffer \<Rightarrow> nat" where
  "buffer_collect_nothing st = 0"

section \<open>Checkpoints\<close>

record buffer_checkpoint =
  bc_version :: global
  bc_gaps :: "counter_gap list"
  bc_reclamation :: reclamation_binding
  bc_fragments :: "fragment list"
  bc_undo_entries :: "undo_entry list"
  bc_deferred :: "text_op_entry list"
  bc_quarantined :: "(operation \<times> error_code) list"

definition buffer_checkpoint_state :: "'al text_buffer \<Rightarrow> buffer_checkpoint" where
  "buffer_checkpoint_state st =
     \<lparr>bc_version = tb_version st, bc_gaps = gl_records (tb_gaps st), bc_reclamation = tb_reclamation st,
      bc_fragments = tb_fragments st, bc_undo_entries = tb_undo_map st, bc_deferred = tb_deferred st,
      bc_quarantined = tb_quarantined st\<rparr>"

definition named_identity :: "identity \<Rightarrow> bool" where
  "named_identity i \<longleftrightarrow> actor_valid (actor i) \<and> counter i \<noteq> 0"

definition text_observed :: "global \<Rightarrow> gap_ledger \<Rightarrow> identity \<Rightarrow> bool" where
  "text_observed v gaps i \<longleftrightarrow> named_identity i \<and> observed v i \<and> \<not> gap_contains gaps i"

definition checked_fragment :: "global \<Rightarrow> gap_ledger \<Rightarrow> fragment \<Rightarrow> bool" where
  "checked_fragment v gaps f \<longleftrightarrow>
     \<not> (\<not> actor_valid (actor (fr_origin f)) \<or> counter (fr_origin f) = 0 \<or> fr_length f = 0 \<or>
        fr_length f > U64_MAX - counter (fr_origin f) \<or> fr_byte_length f \<noteq> length (fr_text f) \<or>
        (case utf8_length (fr_text f) of
           Inl _ \<Rightarrow> True
         | Inr scalars \<Rightarrow> if fr_marker f then fr_length f \<noteq> 1 \<or> scalars \<noteq> 0 else scalars \<noteq> fr_length f)) \<and>
     \<not> gap_overlaps gaps (actor (fr_origin f)) (counter (fr_origin f)) (fragment_end f - 1) \<and>
     text_observed v gaps (Identity (actor (fr_origin f)) (fragment_end f - 1)) \<and>
     (case parent (fr_link f) of None \<Rightarrow> True | Some p \<Rightarrow> text_observed v gaps p) \<and>
     (case right_origin (fr_link f) of None \<Rightarrow> True | Some r \<Rightarrow> text_observed v gaps r) \<and>
     list_all (text_observed v gaps) (fr_deletions f) \<and> distinct (fr_deletions f)"

fun intervals_apart :: "(nat \<times> nat) list \<Rightarrow> bool" where
  "intervals_apart ((a, b) # (c, d) # rest) = (\<not> b > c \<and> intervals_apart ((c, d) # rest))"
| "intervals_apart _ = True"

definition ranges_apart :: "fragment list \<Rightarrow> bool" where
  "ranges_apart frags =
     list_all (\<lambda>f. intervals_apart (sort (map (\<lambda>g. (counter (fr_origin g), fragment_end g))
       (filter (\<lambda>g. actor (fr_origin g) = actor (fr_origin f)) frags)))) frags"

fun check_text_deferred ::
  "global \<Rightarrow> gap_ledger \<Rightarrow> deferred_budget \<Rightarrow> identity option \<Rightarrow> identity list \<Rightarrow> nat \<Rightarrow>
     text_op_entry list \<Rightarrow> (identity list \<times> nat) result" where
  "check_text_deferred v gaps budget previous seen bytes [] = Ok (seen, bytes)"
| "check_text_deferred v gaps budget previous seen bytes (e # es) =
     (let ts = op_identity (te_op e); size = estimate_operation_bytes (te_op e) in
      if buffer_gap_conflicts gaps (te_op e) then Err actor_conflict
      else if ts \<noteq> te_timestamp e \<or> \<not> named_identity ts \<or> observed v ts \<or>
          (case previous of None \<Rightarrow> False | Some p \<Rightarrow> \<not> p < ts) \<or> ts \<in> set seen then Err malformed
      else case validate_operation (te_op e) v of
        Reject err \<Rightarrow> Err err
      | _ \<Rightarrow>
          if size > U64_MAX - bytes \<or> size > max_bytes budget - min bytes (max_bytes budget)
          then Err limit_exceeded
          else check_text_deferred v gaps budget (Some ts) (ts # seen) (bytes + size) es)"

fun check_text_quarantined ::
  "global \<Rightarrow> gap_ledger \<Rightarrow> deferred_budget \<Rightarrow> identity list \<Rightarrow> nat \<Rightarrow>
     (operation \<times> error_code) list \<Rightarrow> nat result" where
  "check_text_quarantined v gaps budget seen bytes [] = Ok bytes"
| "check_text_quarantined v gaps budget seen bytes ((op, reason) # es) =
     (let ts = op_identity op; size = estimate_operation_bytes op in
      if buffer_gap_conflicts gaps op then Err actor_conflict
      else if \<not> named_identity ts \<or> observed v ts \<or> ts \<in> set seen then Err malformed
      else if size > U64_MAX - bytes \<or> size > max_bytes budget - min bytes (max_bytes budget)
        then Err limit_exceeded
      else check_text_quarantined v gaps budget (ts # seen) (bytes + size) es)"

definition buffer_restore_checkpoint ::
  "'al alloc_ops \<Rightarrow> buffer_checkpoint \<Rightarrow> 'al text_buffer \<Rightarrow> 'al text_buffer \<times> unit result" where
  "buffer_restore_checkpoint A snap st =
     (let refuse = (\<lambda>e. (st, Err e)); v = bc_version snap in
      if \<not> binding_well_formed (bc_reclamation snap) then refuse malformed
      else if list_ex (\<lambda>(a, through). get v a < through) (rb_frontier (bc_reclamation snap))
        then refuse counter_regression
      else if get v (alloc_actor A (tb_alloc st)) \<ge> alloc_peek A (tb_alloc st)
        then refuse counter_regression
      else if length (bc_deferred snap) > max_operations (tb_deferred_budget st) \<or>
          length (bc_quarantined snap) > max_operations (tb_quarantine_budget st)
        then refuse limit_exceeded
      else case gap_restore (bc_gaps snap) v of
        Inl e \<Rightarrow> refuse e
      | Inr gaps \<Rightarrow>
        (case undo_restore (bc_undo_entries snap) of
           Inl e \<Rightarrow> refuse e
         | Inr um \<Rightarrow>
           if \<not> list_all (\<lambda>u. text_observed v gaps (ue_edit u) \<and> text_observed v gaps (ue_undo u))
               (bc_undo_entries snap) then refuse malformed
           else if \<not> list_all (checked_fragment v gaps) (bc_fragments snap) then refuse malformed
           else if \<not> ranges_apart (bc_fragments snap) then refuse malformed
           else if check_consistency fragment_ops (bc_fragments snap) \<noteq> None then refuse malformed
           else case check_text_deferred v gaps (tb_deferred_budget st) None [] 0 (bc_deferred snap) of
             Inl e \<Rightarrow> refuse e
           | Inr (seen, deferred_bytes) \<Rightarrow>
             if deferred_bytes > max_bytes (tb_deferred_budget st) then refuse limit_exceeded
             else case check_text_quarantined v gaps (tb_quarantine_budget st) seen 0 (bc_quarantined snap) of
               Inl e \<Rightarrow> refuse e
             | Inr quarantine_bytes \<Rightarrow>
               if quarantine_bytes > max_bytes (tb_quarantine_budget st) then refuse limit_exceeded
               else
                 let rebuilt = set_fragments (bc_fragments snap) ((new_buffer (tb_alloc st))
                       \<lparr>tb_gaps := gaps, tb_deferred_budget := tb_deferred_budget st,
                        tb_quarantine_budget := tb_quarantine_budget st,
                        tb_max_depth := tb_max_depth st, tb_max_bytes := tb_max_bytes st,
                        tb_undo_map := um, tb_version := v, tb_reclamation := bc_reclamation snap,
                        tb_deferred := bc_deferred snap,
                        tb_deferred_actors := actor ` te_timestamp ` set (bc_deferred snap),
                        tb_deferred_count := length (bc_deferred snap),
                        tb_deferred_bytes := deferred_bytes,
                        tb_quarantined := bc_quarantined snap,
                        tb_quarantined_bytes := quarantine_bytes\<rparr>)
                 in case buffer_restore_history A (buffer_history_snapshot st) rebuilt of
                      (_, Inl e) \<Rightarrow> refuse e
                    | (rebuilt', Inr _) \<Rightarrow> (rebuilt'\<lparr>tb_changes := tb_changes st\<rparr>, Ok ())))"

end
