(* ===== verification/Replica_State.thy ===== *)
theory Replica_State
  imports Actor_Identity
begin

text \<open>
  The private state of a device (\<open>ReplicaState\<close>, \<open>identity/ReplicaState.cpp\<close>) and the allocator
  bound to one of its streams (\<open>identity/ReplicaAllocator.cpp\<close>). The disk is a parameter: the
  state holds the contents of the state file and the outcomes of the next writes, with the three
  outcomes the contract of \<open>DurableFile.h\<close> names: written, failed with the file unchanged, and
  failed after the new contents were published. Locks, randomness and the process id are
  parameters too. Streams and lines of the file are lists of characters.
\<close>

section \<open>Text\<close>

definition code_of :: "char \<Rightarrow> nat" where
  "code_of c = of_char c"

definition is_space :: "char \<Rightarrow> bool" where
  "is_space c \<longleftrightarrow> code_of c = 32 \<or> 9 \<le> code_of c \<and> code_of c \<le> 13"

definition is_digit :: "char \<Rightarrow> bool" where
  "is_digit c \<longleftrightarrow> 48 \<le> code_of c \<and> code_of c \<le> 57"

definition stream_char :: "char \<Rightarrow> bool" where
  "stream_char c \<longleftrightarrow>
     97 \<le> code_of c \<and> code_of c \<le> 122 \<or> 65 \<le> code_of c \<and> code_of c \<le> 90 \<or> is_digit c \<or>
     code_of c = 95 \<or> code_of c = 45 \<or> code_of c = 46 \<or> code_of c = 58"

definition valid_stream_name :: "string \<Rightarrow> bool" where
  "valid_stream_name name = (if name = [] \<or> length name > 128 then False else list_all stream_char name)"

text \<open>\<open>operator>>\<close> on an \<open>istringstream\<close> takes one blank-separated word; \<open>getline\<close> one line.\<close>

fun split_words :: "string \<Rightarrow> string \<Rightarrow> string list" where
  "split_words acc [] = (if acc = [] then [] else [acc])"
| "split_words acc (c # cs) =
     (if is_space c then (if acc = [] then split_words [] cs else acc # split_words [] cs)
      else split_words (acc @ [c]) cs)"

fun split_lines :: "string \<Rightarrow> string \<Rightarrow> string list" where
  "split_lines acc [] = [acc]"
| "split_lines acc (c # cs) =
     (if c = CHR 0x0A then acc # split_lines [] cs else split_lines (acc @ [c]) cs)"

definition word_at :: "nat \<Rightarrow> string list \<Rightarrow> string" where
  "word_at k ws = (if k < length ws then ws ! k else [])"

definition digit_char :: "nat \<Rightarrow> char" where
  "digit_char n = ''0123456789'' ! n"

fun decimal :: "nat \<Rightarrow> string" where
  "decimal n = (if n < 10 then [digit_char n] else decimal (n div 10) @ [digit_char (n mod 10)])"

declare decimal.simps [simp del]

definition parse_u64 :: "string \<Rightarrow> nat result" where
  "parse_u64 text =
     (if text = [] \<or> \<not> list_all is_digit text then Err malformed
      else let value = foldl (\<lambda>acc c. 10 * acc + (code_of c - 48)) 0 text
           in if value > U64_MAX then Err malformed else Ok value)"

definition encode_path_component :: "string \<Rightarrow> string" where
  "encode_path_component text =
     concat (map (\<lambda>c. [hex_digit (code_of c div 16), hex_digit (code_of c mod 16)]) text)"

section \<open>State and file\<close>

datatype write_outcome = Written | Unwritten error_code | Uncertain error_code

record replica_state =
  rs_actor :: actor_id
  rs_streams :: "(string \<times> nat) list"
  rs_leases :: "string list"
  rs_held :: bool \<comment> \<open>\<open>m_state_lease\<close> is set\<close>
  rs_failed :: bool
  rs_file :: "string option"
  rs_disk :: "write_outcome list"

definition kStateMagic :: string where
  "kStateMagic = ''collabtext-replica-state''"

definition newline :: string where
  "newline = [CHR 0x0A]"

definition render_stream :: "string \<times> nat \<Rightarrow> string" where
  "render_stream s = ''stream '' @ fst s @ '' '' @ decimal (snd s) @ newline"

definition render_state :: "replica_state \<Rightarrow> string" where
  "render_state st =
     kStateMagic @ '' '' @ decimal 1 @ newline @ ''actor '' @ actor_to_string (rs_actor st) @ newline @
     concat (map render_stream (rs_streams st))"

text \<open>\<open>Storage::replace_atomically\<close>; a script that has run out means writes that succeed.\<close>

definition replace_atomically :: "string \<Rightarrow> replica_state \<Rightarrow> replica_state \<times> unit result" where
  "replace_atomically text st =
     (case rs_disk st of
        [] \<Rightarrow> (st\<lparr>rs_file := Some text\<rparr>, Ok ())
      | Written # rest \<Rightarrow> (st\<lparr>rs_file := Some text, rs_disk := rest\<rparr>, Ok ())
      | Unwritten e # rest \<Rightarrow> (st\<lparr>rs_disk := rest\<rparr>, Err e)
      | Uncertain e # rest \<Rightarrow> (st\<lparr>rs_file := Some text, rs_disk := rest\<rparr>, Err e))"

definition owner_closed :: "replica_state \<Rightarrow> bool" where
  "owner_closed st \<longleftrightarrow> \<not> rs_held st \<or> rs_failed st"

definition persist :: "replica_state \<Rightarrow> replica_state \<times> unit result" where
  "persist st =
     (if owner_closed st then (st, Err writer_conflict) else replace_atomically (render_state st) st)"

text \<open>One line of the file after the magic: the actor and the streams read so far.\<close>

type_synonym load_state = "bool \<times> actor_id option \<times> (string \<times> nat) list"

definition load_line :: "string \<Rightarrow> load_state \<Rightarrow> load_state result" where
  "load_line raw ls =
     (case ls of (saw_magic, saw_actor, streams) \<Rightarrow>
        let line = (if raw \<noteq> [] \<and> last raw = CHR 0x0D then butlast raw else raw);
            ws = split_words [] line; keyword = word_at 0 ws
        in if line = [] then Ok ls
        else if \<not> saw_magic then
          (if keyword \<noteq> kStateMagic then Err unknown_format
           else if length ws > 2 then Err malformed
           else case parse_u64 (word_at 1 ws) of
             Inl e \<Rightarrow> Err e
           | Inr v \<Rightarrow> if v \<noteq> 1 then Err unsupported_version else Ok (True, saw_actor, streams))
        else if keyword = ''actor'' then
          (if saw_actor \<noteq> None then Err corrupt_record
           else if length ws > 2 then Err malformed
           else case actor_parse (word_at 1 ws) of
             Inl e \<Rightarrow> Err e
           | Inr a \<Rightarrow> Ok (saw_magic, Some a, streams))
        else if keyword = ''stream'' then
          (if length ws > 3 then Err malformed
           else if \<not> valid_stream_name (word_at 1 ws) \<or> word_at 2 ws = [] then Err malformed
           else case parse_u64 (word_at 2 ws) of
             Inl e \<Rightarrow> Err e
           | Inr next \<Rightarrow>
               if word_at 1 ws \<in> fst ` set streams then Err corrupt_record
               else case cc_restore counter_start next of
                 (_, Inl e) \<Rightarrow> Err corrupt_record
               | (c, Inr _) \<Rightarrow> Ok (saw_magic, saw_actor, streams @ [(word_at 1 ws, c)]))
        else Err malformed)"

fun load_lines :: "string list \<Rightarrow> load_state \<Rightarrow> load_state result" where
  "load_lines [] ls = Ok ls"
| "load_lines (l # rest) ls = (case load_line l ls of Inl e \<Rightarrow> Err e | Inr ls' \<Rightarrow> load_lines rest ls')"

definition load_state_text :: "string \<Rightarrow> (actor_id \<times> (string \<times> nat) list) result" where
  "load_state_text text =
     (case load_lines (split_lines [] text) (False, None, []) of
        Inl e \<Rightarrow> Err e
      | Inr (saw_magic, saw_actor, streams) \<Rightarrow>
          if \<not> saw_magic then Err unknown_format
          else case saw_actor of None \<Rightarrow> Err corrupt_record | Some a \<Rightarrow> Ok (a, streams))"

text \<open>
  \<open>open\<close>: the lock, the entropy source and the outcomes of the writes come from outside. The
  first component is the file afterwards.
\<close>

definition open_state ::
  "unit result \<Rightarrow> string option \<Rightarrow> byte list result \<Rightarrow> write_outcome list \<Rightarrow>
     string option \<times> replica_state result" where
  "open_state lock file source disk =
     (case lock of
        Inl e \<Rightarrow> (file, Err e)
      | Inr _ \<Rightarrow>
          let st = \<lparr>rs_actor = default_actor, rs_streams = [], rs_leases = [], rs_held = True,
                rs_failed = False, rs_file = file, rs_disk = disk\<rparr>
          in case file of
               Some text \<Rightarrow>
                 (case load_state_text text of
                    Inl e \<Rightarrow> (file, Err e)
                  | Inr (a, streams) \<Rightarrow> (file, Ok (st\<lparr>rs_actor := a, rs_streams := streams\<rparr>)))
             | None \<Rightarrow>
                 (case actor_generate source of
                    Inl e \<Rightarrow> (file, Err e)
                  | Inr a \<Rightarrow>
                      (case persist (st\<lparr>rs_actor := a\<rparr>) of
                         (st', Inl e) \<Rightarrow> (rs_file st', Err e)
                       | (st', Inr _) \<Rightarrow> (rs_file st', Ok st'))))"

section \<open>Counters\<close>

text \<open>\<open>stream(name)\<close>: the counter of a stream, appended with a fresh one when it is new.\<close>

definition stream_counter :: "string \<Rightarrow> (string \<times> nat) list \<Rightarrow> nat" where
  "stream_counter name streams = (case map_of streams name of None \<Rightarrow> counter_start | Some c \<Rightarrow> c)"

definition set_stream :: "string \<Rightarrow> nat \<Rightarrow> (string \<times> nat) list \<Rightarrow> (string \<times> nat) list" where
  "set_stream name c streams =
     (if name \<in> fst ` set streams then map (\<lambda>(n, d). if n = name then (n, c) else (n, d)) streams
      else streams @ [(name, c)])"

definition reserve_refusal :: "string \<Rightarrow> string \<Rightarrow> nat \<Rightarrow> replica_state \<Rightarrow> error_code option" where
  "reserve_refusal name document epoch st =
     (if owner_closed st then Some writer_conflict
      else if \<not> valid_stream_name name then Some unknown_stream
      else if document = [] \<or> CHR 0x00 \<in> set document \<or> epoch = 0 then Some malformed
      else if \<not> actor_valid (rs_actor st) then Some invalid_identity
      else None)"

definition rs_next_operation ::
  "string \<Rightarrow> string \<Rightarrow> nat \<Rightarrow> replica_state \<Rightarrow> replica_state \<times> identity result" where
  "rs_next_operation name document epoch st =
     (case reserve_refusal name document epoch st of
        Some e \<Rightarrow> (st, Err e)
      | None \<Rightarrow>
          (case cc_reserve (stream_counter name (rs_streams st)) of
             (c, r) \<Rightarrow>
               let st1 = st\<lparr>rs_streams := set_stream name c (rs_streams st)\<rparr> in
               case r of
                 Inl e \<Rightarrow> (st1, Err e)
               | Inr b \<Rightarrow>
                   (case persist st1 of
                      (st2, Inl e) \<Rightarrow> (st2, Err e)
                    | (st2, Inr _) \<Rightarrow> (st2, Ok (Identity (rs_actor st2) b)))))"

definition rs_reserve_run ::
  "string \<Rightarrow> string \<Rightarrow> nat \<Rightarrow> nat \<Rightarrow> replica_state \<Rightarrow> replica_state \<times> nat result" where
  "rs_reserve_run name document epoch count st =
     (case reserve_refusal name document epoch st of
        Some e \<Rightarrow> (st, Err e)
      | None \<Rightarrow>
          (case cc_reserve_run (stream_counter name (rs_streams st)) count of
             (c, r) \<Rightarrow>
               let st1 = st\<lparr>rs_streams := set_stream name c (rs_streams st)\<rparr> in
               case r of
                 Inl e \<Rightarrow> (st1, Err e)
               | Inr b \<Rightarrow>
                   (case persist st1 of (st2, Inl e) \<Rightarrow> (st2, Err e) | (st2, Inr _) \<Rightarrow> (st2, Ok b))))"

definition rs_observe_remote :: "string \<Rightarrow> nat \<Rightarrow> replica_state \<Rightarrow> replica_state \<times> unit result" where
  "rs_observe_remote name observed st =
     (if owner_closed st then (st, Err writer_conflict)
      else case cc_observe (stream_counter name (rs_streams st)) observed of
        (c, r) \<Rightarrow> (st\<lparr>rs_streams := set_stream name c (rs_streams st)\<rparr>, r))"

definition peek_stream :: "string \<Rightarrow> replica_state \<Rightarrow> nat result" where
  "peek_stream name st =
     (case map_of (rs_streams st) name of Some c \<Rightarrow> Ok c | None \<Rightarrow> Err unknown_stream)"

definition high_water :: "string \<Rightarrow> replica_state \<Rightarrow> nat" where
  "high_water name st =
     (case map_of (rs_streams st) name of Some c \<Rightarrow> (if c \<noteq> 0 then c - 1 else 0) | None \<Rightarrow> 0)"

definition check_claim :: "string \<Rightarrow> actor_id \<Rightarrow> nat \<Rightarrow> replica_state \<Rightarrow> unit result" where
  "check_claim name claimant their_counter st =
     (if \<not> actor_valid claimant then Err invalid_identity
      else if claimant \<noteq> rs_actor st then Ok ()
      else if their_counter \<le> high_water name st then Err actor_conflict
      else Err corrupt_record)"

section \<open>Leases\<close>

definition lease_path :: "string \<Rightarrow> string \<Rightarrow> string" where
  "lease_path document name =
     ''writer-'' @ encode_path_component document @ ''.'' @ encode_path_component name @ ''.lease''"

definition acquire_writer ::
  "unit result \<Rightarrow> string \<Rightarrow> string \<Rightarrow> replica_state \<Rightarrow> replica_state \<times> unit result" where
  "acquire_writer lock document name st =
     (if owner_closed st then (st, Err writer_conflict)
      else if document = [] \<or> length document > 80 \<or> CHR 0x00 \<in> set document \<or>
          \<not> valid_stream_name name \<or> length name > 32 then (st, Err malformed)
      else case lock of
        Inl e \<Rightarrow> (st, Err e)
      | Inr _ \<Rightarrow> (st\<lparr>rs_leases := rs_leases st @ [lease_path document name]\<rparr>, Ok ()))"

definition release_writer :: "replica_state \<Rightarrow> replica_state" where
  "release_writer st = st\<lparr>rs_leases := []\<rparr>"

definition close_state :: "replica_state \<Rightarrow> replica_state" where
  "close_state st = (release_writer st)\<lparr>rs_held := False, rs_failed := True\<rparr>"

definition holds_writer :: "string \<Rightarrow> string \<Rightarrow> replica_state \<Rightarrow> bool" where
  "holds_writer document name st = list_ex (\<lambda>p. p = lease_path document name) (rs_leases st)"

definition fork_identity :: "byte list result \<Rightarrow> replica_state \<Rightarrow> replica_state \<times> actor_id result" where
  "fork_identity source st =
     (if owner_closed st \<or> rs_leases st \<noteq> [] then (st, Err writer_conflict)
      else case actor_generate source of
        Inl e \<Rightarrow> (st, Err e)
      | Inr a \<Rightarrow>
          (case persist (st\<lparr>rs_actor := a, rs_streams := []\<rparr>) of
             (st', Inl e) \<Rightarrow> (st'\<lparr>rs_failed := True\<rparr>, Err e)
           | (st', Inr _) \<Rightarrow> (st', Ok (rs_actor st'))))"

section \<open>The file reads back\<close>

lemma split_words_word:
  "list_all (\<lambda>c. \<not> is_space c) w \<Longrightarrow> split_words acc (w @ rest) = split_words (acc @ w) rest"
  by (induction w arbitrary: acc) auto

lemma split_words_last: "list_all (\<lambda>c. \<not> is_space c) w \<Longrightarrow> w \<noteq> [] \<Longrightarrow> split_words [] w = [w]"
  using split_words_word [of w "[]" "[]"] by simp

lemma split_words_first:
  "list_all (\<lambda>c. \<not> is_space c) w \<Longrightarrow> w \<noteq> [] \<Longrightarrow> is_space c \<Longrightarrow>
     split_words [] (w @ c # rest) = w # split_words [] rest"
  using split_words_word [of w "[]" "c # rest"] by simp

lemma split_lines_line:
  "CHR 0x0A \<notin> set l \<Longrightarrow> split_lines acc (l @ CHR 0x0A # rest) = (acc @ l) # split_lines [] rest"
  by (induction l arbitrary: acc) auto

lemma code_of_less: "code_of c < 256"
  by (simp add: code_of_def)

lemma digit_char_code: "n < 10 \<Longrightarrow> code_of (digit_char n) = 48 + n"
proof -
  have "\<forall>n \<in> {0..<10}. code_of (digit_char n) = 48 + n"
    by code_simp
  then show "n < 10 \<Longrightarrow> code_of (digit_char n) = 48 + n"
    by simp
qed

lemma digit_char_digit: "n < 10 \<Longrightarrow> is_digit (digit_char n)"
  by (simp add: is_digit_def digit_char_code)

lemma decimal_digits: "list_all is_digit (decimal n) \<and> decimal n \<noteq> []"
proof (induction n rule: decimal.induct)
  case (1 n)
  then show ?case
    by (subst (1 2) decimal.simps) (auto simp: digit_char_digit)
qed

lemma decimal_value: "foldl (\<lambda>acc c. 10 * acc + (code_of c - 48)) 0 (decimal n) = n"
proof (induction n rule: decimal.induct)
  case (1 n)
  then show ?case
    by (subst decimal.simps) (auto simp: digit_char_code)
qed

lemma parse_decimal: "n \<le> U64_MAX \<Longrightarrow> parse_u64 (decimal n) = Ok n"
  using decimal_digits [of n] decimal_value [of n] by (simp add: parse_u64_def Let_def)

lemma not_space:
  "is_digit c \<Longrightarrow> \<not> is_space c" "stream_char c \<Longrightarrow> \<not> is_space c"
  by (auto simp: is_digit_def is_space_def stream_char_def)

lemma newline_code: "is_space (CHR 0x0A)" "is_space (CHR 0x20)" "is_space (CHR 0x0D)"
  by (simp_all add: is_space_def code_of_def)

lemma hex_digit_plain: "n < 16 \<Longrightarrow> \<not> is_space (hex_digit n)"
proof -
  have "\<forall>n \<in> {0..<16}. \<not> is_space (hex_digit n)"
    by code_simp
  then show "n < 16 \<Longrightarrow> \<not> is_space (hex_digit n)"
    by simp
qed

lemma to_hex_plain: "list_all (\<lambda>c. \<not> is_space c) (to_hex bs)"
  by (induction bs) (simp_all add: hex_digit_plain drop_bit_4_bound and_15_bound)

lemma plain_list: "list_all is_digit w \<Longrightarrow> list_all (\<lambda>c. \<not> is_space c) w"
  "list_all stream_char w \<Longrightarrow> list_all (\<lambda>c. \<not> is_space c) w"
  using not_space by (auto simp: list_all_iff)

lemma plain_no_newline: "list_all (\<lambda>c. \<not> is_space c) w \<Longrightarrow> CHR 0x0A \<notin> set w"
  using newline_code by (auto simp: list_all_iff)

lemma plain_no_return: "list_all (\<lambda>c. \<not> is_space c) w \<Longrightarrow> w \<noteq> [] \<Longrightarrow> last w \<noteq> CHR 0x0D"
  using newline_code last_in_set by (fastforce simp: list_all_iff)

text \<open>Lines of two and three words.\<close>

lemma stream_line_words:
  assumes "valid_stream_name n"
  shows "split_words [] (''stream '' @ n @ '' '' @ decimal c) = [''stream'', n, decimal c]"
    "CHR 0x0A \<notin> set (''stream '' @ n @ '' '' @ decimal c)"
    "last (''stream '' @ n @ '' '' @ decimal c) \<noteq> CHR 0x0D"
proof -
  have n: "list_all (\<lambda>c. \<not> is_space c) n" "n \<noteq> []"
    using assms plain_list by (auto simp: valid_stream_name_def split: if_splits)
  have d: "list_all (\<lambda>c. \<not> is_space c) (decimal c)" "decimal c \<noteq> []"
    using decimal_digits plain_list by blast+
  have k: "list_all (\<lambda>c. \<not> is_space c) ''stream''"
    by (simp add: is_space_def code_of_def)
  show "split_words [] (''stream '' @ n @ '' '' @ decimal c) = [''stream'', n, decimal c]"
    using split_words_first [OF k _ newline_code(2), of "n @ CHR 0x20 # decimal c"]
      split_words_first [OF n newline_code(2), of "decimal c"] split_words_last [OF d] by simp
  show "CHR 0x0A \<notin> set (''stream '' @ n @ '' '' @ decimal c)"
    using plain_no_newline [OF n(1)] plain_no_newline [OF d(1)] by simp
  show "last (''stream '' @ n @ '' '' @ decimal c) \<noteq> CHR 0x0D"
    using plain_no_return [OF d] d(2) by simp
qed

definition streams_ok :: "(string \<times> nat) list \<Rightarrow> bool" where
  "streams_ok streams \<longleftrightarrow>
     distinct (map fst streams) \<and>
     list_all (\<lambda>(n, c). valid_stream_name n \<and> counter_start \<le> c \<and> c \<le> U64_MAX) streams"

lemma load_stream_line:
  assumes "valid_stream_name n" "counter_start \<le> c" "c \<le> U64_MAX" "n \<notin> fst ` set streams"
  shows "load_line (''stream '' @ n @ '' '' @ decimal c) (True, a, streams) = Ok (True, a, streams @ [(n, c)])"
proof -
  define line where "line = ''stream '' @ n @ '' '' @ decimal c"
  have l: "split_words [] line = [''stream'', n, decimal c]" "last line \<noteq> CHR 0x0D" "line \<noteq> []"
    using stream_line_words [OF assms(1), of c] by (simp_all add: line_def)
  have d: "decimal c \<noteq> []"
    using decimal_digits by blast
  have "word_at 0 [''stream'', n, decimal c] = ''stream''" "word_at 1 [''stream'', n, decimal c] = n"
    "word_at 2 [''stream'', n, decimal c] = decimal c"
    by (simp_all add: word_at_def)
  then have "load_line line (True, a, streams) = Ok (True, a, streams @ [(n, c)])"
    using l d parse_decimal [OF assms(3)] assms by (simp add: load_line_def Let_def cc_restore_def)
  then show ?thesis
    by (simp only: line_def)
qed

lemma load_streams:
  "streams_ok (done' @ streams) \<Longrightarrow>
     load_lines (split_lines [] (concat (map render_stream streams))) (True, a, done') = Ok (True, a, done' @ streams)"
proof (induction streams arbitrary: done')
  case Nil
  then show ?case by (simp add: load_line_def)
next
  case (Cons s streams)
  obtain n c where s: "s = (n, c)"
    by (cases s)
  have ok: "valid_stream_name n" "counter_start \<le> c" "c \<le> U64_MAX" "n \<notin> fst ` set done'"
    using Cons.prems s by (auto simp: streams_ok_def)
  have "split_lines [] (concat (map render_stream (s # streams))) =
      (''stream '' @ n @ '' '' @ decimal c) # split_lines [] (concat (map render_stream streams))"
    using split_lines_line [OF stream_line_words(2) [OF ok(1)], of "[]"] s
    by (simp add: render_stream_def newline_def)
  then show ?case
    using Cons.IH [of "done' @ [(n, c)]"] Cons.prems load_stream_line [OF ok] s by simp
qed

text \<open>What \<open>persist\<close> writes, \<open>load\<close> reads back.\<close>

theorem load_render:
  assumes a: "actor_ok (rs_actor st)" "actor_valid (rs_actor st)" and s: "streams_ok (rs_streams st)"
  shows "load_state_text (render_state st) = Ok (rs_actor st, rs_streams st)"
proof -
  let ?hex = "actor_to_string (rs_actor st)" and ?rest = "concat (map render_stream (rs_streams st))"
  have plain: "list_all (\<lambda>c. \<not> is_space c) kStateMagic" "list_all (\<lambda>c. \<not> is_space c) ''actor''"
    "list_all (\<lambda>c. \<not> is_space c) ?hex" "list_all (\<lambda>c. \<not> is_space c) (decimal 1)"
    using to_hex_plain decimal_digits plain_list
    by (auto simp: kStateMagic_def is_space_def code_of_def actor_to_string_def)
  have "length ?hex = 32"
    using a(1) by (simp add: actor_to_string_def actor_ok_def kBytes_def)
  then have ne: "kStateMagic \<noteq> []" "?hex \<noteq> []" "decimal 1 \<noteq> []"
    using decimal_digits by (auto simp: kStateMagic_def)
  have lines: "split_lines [] (render_state st) =
      (kStateMagic @ '' '' @ decimal 1) # (''actor '' @ ?hex) # split_lines [] ?rest"
    using split_lines_line [of "kStateMagic @ '' '' @ decimal 1" "[]" "''actor '' @ ?hex @ newline @ ?rest"]
      split_lines_line [of "''actor '' @ ?hex" "[]" ?rest] plain_no_newline [OF plain(1)]
      plain_no_newline [OF plain(3)] plain_no_newline [OF plain(4)]
    by (simp add: render_state_def newline_def)
  have w1: "split_words [] (kStateMagic @ '' '' @ decimal 1) = [kStateMagic, decimal 1]"
    using split_words_first [OF plain(1) ne(1) newline_code(2), of "decimal 1"] split_words_last [OF plain(4) ne(3)]
    by simp
  have w2: "split_words [] (''actor '' @ ?hex) = [''actor'', ?hex]"
    using split_words_first [OF plain(2) _ newline_code(2), of ?hex] split_words_last [OF plain(3) ne(2)] by simp
  have "load_line (kStateMagic @ '' '' @ decimal 1) (False, None, []) = Ok (True, None, [])"
    using w1 plain_no_return [OF plain(4) ne(3)] ne parse_decimal [of 1]
    by (simp add: load_line_def word_at_def Let_def U64_MAX_eq)
  moreover have "load_line (''actor '' @ ?hex) (True, None, []) = Ok (True, Some (rs_actor st), [])"
    using w2 plain_no_return [OF plain(3) ne(2)] ne(2) actor_parse_to_string [OF a]
    by (simp add: load_line_def word_at_def Let_def)
  ultimately show ?thesis
    using lines load_streams [of "[]" "rs_streams st" "Some (rs_actor st)"] s
    by (simp add: load_state_text_def)
qed

end
