(* ===== verification/Replica_Durability.thy ===== *)
theory Replica_Durability
  imports Replica_State
begin

text \<open>
  The promise of \<open>ReplicaState.cpp\<close>: an identity is durable before it is handed out. Runs of a
  device, with failing writes and with crashes that reopen the state from the file, never hand
  out an identity of a stream twice. The allocator of a stream keeps the allocator interface.
\<close>

section \<open>What the file guarantees\<close>

definition recorded :: "replica_state \<Rightarrow> string \<Rightarrow> nat" where
  "recorded st name =
     (case rs_file st of
        None \<Rightarrow> 0
      | Some text \<Rightarrow> (case load_state_text text of Inl _ \<Rightarrow> 0 | Inr (a, streams) \<Rightarrow> stream_counter name streams))"

definition device_ok :: "replica_state \<Rightarrow> bool" where
  "device_ok st \<longleftrightarrow>
     actor_ok (rs_actor st) \<and> actor_valid (rs_actor st) \<and> streams_ok (rs_streams st) \<and>
     (\<exists>text streams. rs_file st = Some text \<and> load_state_text text = Ok (rs_actor st, streams) \<and>
        streams_ok streams \<and> (\<forall>name. stream_counter name streams \<le> stream_counter name (rs_streams st)))"

lemma recorded_le: "device_ok st \<Longrightarrow> recorded st name \<le> stream_counter name (rs_streams st)"
  by (auto simp: device_ok_def recorded_def)

lemma map_of_replace:
  "map_of (map (\<lambda>(n, d). if n = name then (n, c) else (n, d)) streams) x =
     (if x = name \<and> name \<in> fst ` set streams then Some c else map_of streams x)"
proof (induction streams)
  case Nil
  then show ?case by simp
next
  case (Cons s streams)
  obtain n d where "s = (n, d)"
    by (cases s)
  with Cons show ?case
    by (cases "n = name"; cases "x = name") simp_all
qed

lemma stream_counter_set:
  "stream_counter x (set_stream name c streams) = (if x = name then c else stream_counter x streams)"
proof (cases "name \<in> fst ` set streams")
  case True
  then show ?thesis
    by (simp add: stream_counter_def set_stream_def map_of_replace)
next
  case False
  then have "map_of streams name = None"
    by (simp add: map_of_eq_None_iff)
  then show ?thesis
    using False by (auto simp: stream_counter_def set_stream_def map_add_def split: option.splits)
qed

lemma streams_ok_set:
  assumes "streams_ok streams" "valid_stream_name name" "counter_start \<le> c" "c \<le> U64_MAX"
  shows "streams_ok (set_stream name c streams)"
proof (cases "name \<in> fst ` set streams")
  case True
  have "map fst (map (\<lambda>(n, d). if n = name then (n, c) else (n, d)) streams) = map fst streams"
    by (simp add: case_prod_beta)
  then show ?thesis
    using assms True
    by (auto simp: streams_ok_def set_stream_def list_all_iff simp del: map_map split: if_splits)
next
  case False
  then show ?thesis
    using assms by (auto simp: streams_ok_def set_stream_def)
qed

lemma stream_counter_bounds:
  assumes "streams_ok streams"
  shows "counter_start \<le> stream_counter name streams" "stream_counter name streams \<le> U64_MAX"
  using assms
  by (auto simp: streams_ok_def stream_counter_def list_all_iff counter_start_def U64_MAX_eq
      dest!: map_of_SomeD split: option.splits)

text \<open>Raising a counter in memory keeps the file's promise; writing the file renews it.\<close>

lemma device_ok_raise:
  assumes "device_ok st" "valid_stream_name name" "stream_counter name (rs_streams st) \<le> c" "c \<le> U64_MAX"
  defines "st' \<equiv> st\<lparr>rs_streams := set_stream name c (rs_streams st)\<rparr>"
  shows "device_ok st'" "recorded st' x = recorded st x" "rs_actor st' = rs_actor st"
proof -
  have s: "streams_ok (rs_streams st)"
    using assms(1) by (simp add: device_ok_def)
  then have "counter_start \<le> c"
    using stream_counter_bounds(1) [of "rs_streams st" name] assms(3) by simp
  then have "streams_ok (set_stream name c (rs_streams st))"
    using streams_ok_set [OF s assms(2)] assms(4) by blast
  moreover have "stream_counter x (rs_streams st) \<le> stream_counter x (set_stream name c (rs_streams st))" for x
    using assms(3) by (simp add: stream_counter_set)
  ultimately show "device_ok st'"
    using assms(1) order_trans unfolding device_ok_def st'_def by fastforce
  show "recorded st' x = recorded st x" "rs_actor st' = rs_actor st"
    by (simp_all add: recorded_def st'_def)
qed

lemma recorded_written:
  assumes "device_ok st" "rs_file st' = Some (render_state st)" "rs_streams st' = rs_streams st" "rs_actor st' = rs_actor st"
  shows "device_ok st'" "recorded st' x = stream_counter x (rs_streams st)"
proof -
  have "load_state_text (render_state st) = Ok (rs_actor st, rs_streams st)"
    using assms(1) by (intro load_render) (simp_all add: device_ok_def)
  then show "device_ok st'" "recorded st' x = stream_counter x (rs_streams st)"
    using assms by (auto simp: device_ok_def recorded_def)
qed

lemma persist_ok:
  assumes ok: "device_ok st" and p: "persist st = (st', r)"
  shows "device_ok st'" "rs_streams st' = rs_streams st" "rs_actor st' = rs_actor st"
    "recorded st x \<le> recorded st' x" "r = Ok () \<Longrightarrow> recorded st' x = stream_counter x (rs_streams st)"
proof -
  have frame: "rs_streams st' = rs_streams st" "rs_actor st' = rs_actor st"
    using p by (auto simp: persist_def replace_atomically_def split: if_splits list.splits write_outcome.splits)
  have cases: "rs_file st' = Some (render_state st) \<or> rs_file st' = rs_file st \<and> r \<noteq> Ok ()"
    using p by (auto simp: persist_def replace_atomically_def split: if_splits list.splits write_outcome.splits)
  show "rs_streams st' = rs_streams st" "rs_actor st' = rs_actor st"
    using frame by blast+
  show "device_ok st'"
    using cases recorded_written(1) [OF ok _ frame] ok frame by (auto simp: device_ok_def)
  show "recorded st x \<le> recorded st' x"
    using cases recorded_written(2) [OF ok _ frame] recorded_le [OF ok] by (auto simp: recorded_def)
  show "r = Ok () \<Longrightarrow> recorded st' x = stream_counter x (rs_streams st)"
    using cases recorded_written(2) [OF ok _ frame] by blast
qed

section \<open>Steps of a device\<close>

text \<open>
  An issued interval is a stream with the first counter and the number of counters. A crash loses
  everything but the file. Observed streams have valid names: \<open>observe_remote\<close> does not check.
\<close>

type_synonym issue = "string \<times> nat \<times> nat"

inductive device_step :: "replica_state \<Rightarrow> issue option \<Rightarrow> replica_state \<Rightarrow> bool" where
  reserved: "rs_reserve_run name document epoch count st = (st', Ok b) \<Longrightarrow> device_step st (Some (name, b, count)) st'"
| not_reserved: "rs_reserve_run name document epoch count st = (st', Err e) \<Longrightarrow> device_step st None st'"
| operation: "rs_next_operation name document epoch st = (st', Ok i) \<Longrightarrow> device_step st (Some (name, counter i, 1)) st'"
| no_operation: "rs_next_operation name document epoch st = (st', Err e) \<Longrightarrow> device_step st None st'"
| observed: "valid_stream_name name \<Longrightarrow> c \<le> U64_MAX \<Longrightarrow> rs_observe_remote name c st = (st', r) \<Longrightarrow>
    device_step st None st'"
| flushed: "persist st = (st', r) \<Longrightarrow> device_step st None st'"
| crashed: "open_state (Ok ()) (rs_file st) source disk = (file, Ok st') \<Longrightarrow> device_step st None st'"

inductive device_run :: "replica_state \<Rightarrow> issue list \<Rightarrow> replica_state \<Rightarrow> bool" where
  start: "device_run st [] st"
| issue: "device_run st issued st1 \<Longrightarrow> device_step st1 (Some i) st2 \<Longrightarrow> device_run st (issued @ [i]) st2"
| silent: "device_run st issued st1 \<Longrightarrow> device_step st1 None st2 \<Longrightarrow> device_run st issued st2"

definition step_ok :: "replica_state \<Rightarrow> issue option \<Rightarrow> replica_state \<Rightarrow> bool" where
  "step_ok st made st' \<longleftrightarrow>
     device_ok st' \<and> rs_actor st' = rs_actor st \<and> (\<forall>x. recorded st x \<le> recorded st' x) \<and>
     (\<forall>name b n. made = Some (name, b, n) \<longrightarrow> recorded st name \<le> b \<and> b + n \<le> recorded st' name)"

lemma cc_reserve_eq: "cc_reserve n = (if n \<le> U64_MAX then cc_reserve_run n 1 else cc_reserve n)"
  by (auto simp: cc_reserve_def cc_reserve_run_def kExhausted_def)

lemma raise_and_persist:
  assumes ok: "device_ok st" and name: "valid_stream_name name"
    and c: "cc_reserve_run (stream_counter name (rs_streams st)) n = (c, r)"
  defines "st1 \<equiv> st\<lparr>rs_streams := set_stream name c (rs_streams st)\<rparr>"
  shows "step_ok st None st1" "persist st1 = (st2, Err e) \<Longrightarrow> step_ok st None st2"
    "r = Ok b \<Longrightarrow> persist st1 = (st2, Ok ()) \<Longrightarrow> step_ok st (Some (name, b, n)) st2"
proof -
  let ?n = "stream_counter name (rs_streams st)"
  have lim: "?n \<le> U64_MAX"
    using ok stream_counter_bounds(2) by (simp add: device_ok_def)
  have cn: "?n \<le> c" "c \<le> U64_MAX"
    using cc_reserve_run_mono [OF lim, of n] c by simp_all
  note up = device_ok_raise [OF ok name cn, folded st1_def]
  show "step_ok st None st1"
    using up by (simp add: step_ok_def)
  have p: "step_ok st None st2" if "persist st1 = (st2, r2)" for r2
    using persist_ok [OF up(1) that] up by (simp add: step_ok_def)
  then show "persist st1 = (st2, Err e) \<Longrightarrow> step_ok st None st2"
    by blast
  assume r: "r = Ok b" and w: "persist st1 = (st2, Ok ())"
  have "b = ?n \<and> c = ?n + n"
    using cc_reserve_run_Ok [OF lim] c r by blast
  moreover have "recorded st2 name = c"
    using persist_ok(5) [OF up(1) w] by (simp add: st1_def stream_counter_set)
  ultimately show "step_ok st (Some (name, b, n)) st2"
    using p [OF w] recorded_le [OF ok, of name] by (simp add: step_ok_def)
qed

lemma refusal_name: "reserve_refusal name document epoch st = None \<Longrightarrow> valid_stream_name name"
  by (auto simp: reserve_refusal_def split: if_splits)

lemma step_ok_refl: "device_ok st \<Longrightarrow> step_ok st None st"
  by (simp add: step_ok_def)

lemma reserve_run_step:
  assumes ok: "device_ok st" and r: "rs_reserve_run name document epoch n st = (st', res)"
  shows "step_ok st (case res of Inl _ \<Rightarrow> None | Inr b \<Rightarrow> Some (name, b, n)) st'"
proof (cases "reserve_refusal name document epoch st")
  case None
  obtain c q where c: "cc_reserve_run (stream_counter name (rs_streams st)) n = (c, q)"
    by (cases "cc_reserve_run (stream_counter name (rs_streams st)) n")
  note step = raise_and_persist [OF ok refusal_name [OF None] c]
  show ?thesis
    using r None c step
    by (auto simp: rs_reserve_run_def Let_def split: sum.splits prod.splits)
next
  case (Some e)
  then show ?thesis
    using r ok step_ok_refl by (auto simp: rs_reserve_run_def)
qed

lemma next_operation_step:
  assumes ok: "device_ok st" and r: "rs_next_operation name document epoch st = (st', res)"
  shows "step_ok st (case res of Inl _ \<Rightarrow> None | Inr i \<Rightarrow> Some (name, counter i, 1)) st'"
proof (cases "reserve_refusal name document epoch st")
  case None
  have "stream_counter name (rs_streams st) \<le> U64_MAX"
    using ok stream_counter_bounds(2) by (simp add: device_ok_def)
  then have eq: "cc_reserve (stream_counter name (rs_streams st)) = cc_reserve_run (stream_counter name (rs_streams st)) 1"
    by (subst cc_reserve_eq) simp
  obtain c q where c: "cc_reserve_run (stream_counter name (rs_streams st)) 1 = (c, q)"
    by (cases "cc_reserve_run (stream_counter name (rs_streams st)) 1")
  note step = raise_and_persist [OF ok refusal_name [OF None] c]
  show ?thesis
    using r None c step
    by (auto simp: rs_next_operation_def eq Let_def split: sum.splits prod.splits)
next
  case (Some e)
  then show ?thesis
    using r ok step_ok_refl by (auto simp: rs_next_operation_def)
qed

lemma observe_step:
  assumes ok: "device_ok st" and name: "valid_stream_name name" "c \<le> U64_MAX"
    and r: "rs_observe_remote name c st = (st', res)"
  shows "step_ok st None st'"
proof (cases "owner_closed st")
  case True
  then show ?thesis
    using r ok step_ok_refl by (simp add: rs_observe_remote_def)
next
  case False
  let ?n = "stream_counter name (rs_streams st)"
  have "?n \<le> U64_MAX"
    using ok stream_counter_bounds(2) by (simp add: device_ok_def)
  then have "?n \<le> fst (cc_observe ?n c) \<and> fst (cc_observe ?n c) \<le> U64_MAX"
    using cc_observe_mono name(2) by blast
  then show ?thesis
    using r False device_ok_raise [OF ok name(1), of "fst (cc_observe ?n c)"]
    by (auto simp: rs_observe_remote_def step_ok_def split: prod.splits)
qed

lemma crash_step:
  assumes ok: "device_ok st" and r: "open_state (Ok ()) (rs_file st) source disk = (file, Ok st')"
  shows "step_ok st None st'"
proof -
  obtain tx streams where t: "rs_file st = Some tx" "load_state_text tx = Ok (rs_actor st, streams)" "streams_ok streams"
    using ok by (auto simp: device_ok_def)
  then have "st' = \<lparr>rs_actor = rs_actor st, rs_streams = streams, rs_leases = [], rs_held = True,
      rs_failed = False, rs_file = rs_file st, rs_disk = disk\<rparr>"
    using r by (auto simp: open_state_def Let_def)
  then show ?thesis
    using t ok by (auto simp: step_ok_def device_ok_def recorded_def)
qed

lemma device_step_ok:
  assumes step: "device_step st made st'" and ok: "device_ok st"
  shows "step_ok st made st'"
  using step
proof (cases rule: device_step.cases)
  case (reserved name document epoch count b)
  then show ?thesis
    using reserve_run_step [OF ok reserved(2)] by simp
next
  case (not_reserved name document epoch count e)
  then show ?thesis
    using reserve_run_step [OF ok not_reserved(2)] by simp
next
  case (operation name document epoch i)
  then show ?thesis
    using next_operation_step [OF ok operation(2)] by simp
next
  case (no_operation name document epoch e)
  then show ?thesis
    using next_operation_step [OF ok no_operation(2)] by simp
next
  case (observed name c r)
  then show ?thesis
    using observe_step [OF ok observed(2,3,4)] by simp
next
  case (flushed r)
  then show ?thesis
    using persist_ok [OF ok flushed(2)] by (simp add: step_ok_def)
next
  case (crashed source disk fl)
  then show ?thesis
    using crash_step [OF ok crashed(2)] by simp
qed

text \<open>No identity of a stream is handed out twice, whatever fails in between.\<close>

theorem device_run_fresh:
  assumes "device_run st issued st'" "device_ok st"
  shows "device_ok st' \<and> rs_actor st' = rs_actor st \<and>
    sorted_wrt (\<lambda>(s, b, n) (s', b', n'). s = s' \<longrightarrow> b + n \<le> b') issued \<and>
    (\<forall>(s, b, n) \<in> set issued. b + n \<le> recorded st' s)"
  using assms
proof (induction rule: device_run.induct)
  case (start st)
  then show ?case by simp
next
  case (issue st issued st1 i st2)
  obtain s b n where i: "i = (s, b, n)"
    by (cases i)
  have IH: "device_ok st1" "rs_actor st1 = rs_actor st"
    "sorted_wrt (\<lambda>(s, b, n) (s', b', n'). s = s' \<longrightarrow> b + n \<le> b') issued"
    "\<forall>(s, b, n) \<in> set issued. b + n \<le> recorded st1 s"
    using issue by blast+
  note step = device_step_ok [OF issue.hyps(2) IH(1), unfolded step_ok_def i]
  have "\<forall>(s', b', n') \<in> set issued. s' = s \<longrightarrow> b' + n' \<le> b"
    using IH(4) step by fastforce
  moreover have "\<forall>(s', b', n') \<in> set issued. b' + n' \<le> recorded st2 s'"
    using IH(4) step by (fastforce intro: order_trans)
  ultimately show ?case
    using IH(2,3) step i by (auto simp: sorted_wrt_append)
next
  case (silent st issued st1 st2)
  then have IH: "device_ok st1" "\<forall>(s, b, n) \<in> set issued. b + n \<le> recorded st1 s"
    by blast+
  note step = device_step_ok [OF silent.hyps(2) IH(1), unfolded step_ok_def]
  have "\<forall>(s', b', n') \<in> set issued. b' + n' \<le> recorded st2 s'"
    using IH(2) step by (fastforce intro: order_trans)
  then show ?case
    using silent step by simp
qed

end
