(* ===== verification/Replica_Allocator.thy ===== *)
theory Replica_Allocator
  imports Replica_Durability
begin

text \<open>
  The durable allocator of an engine (\<open>ReplicaAllocator\<close>, \<open>identity/ReplicaAllocator.cpp\<close>): a
  handle that names one stream of a replica state. The handle owns the state it points to: no
  other handle changes it in between. The handle keeps the laws of the allocator interface, so
  every theorem about engines over an allocator holds for it.
\<close>

record replica_allocator =
  ra_state :: "replica_state option"
  ra_document :: string
  ra_stream :: string
  ra_epoch :: nat
  ra_failed :: bool
  ra_error :: error_code
  ra_peek :: nat

definition new_allocator :: "replica_state option \<Rightarrow> string \<Rightarrow> string \<Rightarrow> nat \<Rightarrow> replica_allocator" where
  "new_allocator state document name epoch =
     \<lparr>ra_state = state, ra_document = document, ra_stream = name, ra_epoch = epoch, ra_failed = False,
      ra_error = malformed,
      ra_peek = (case state of None \<Rightarrow> 0
        | Some st \<Rightarrow> (case peek_stream name st of Inl _ \<Rightarrow> 0 | Inr v \<Rightarrow> v))\<rparr>"

definition ra_reserve_run :: "replica_allocator \<Rightarrow> nat \<Rightarrow> replica_allocator \<times> nat result" where
  "ra_reserve_run al count =
     (if ra_failed al then (al, Err (ra_error al))
      else case ra_state al of
        None \<Rightarrow> (al\<lparr>ra_failed := True, ra_error := writer_conflict\<rparr>, Err writer_conflict)
      | Some st \<Rightarrow>
          (case rs_reserve_run (ra_stream al) (ra_document al) (ra_epoch al) count st of
             (st', Inl e) \<Rightarrow>
               if e \<noteq> counter_exhausted
               then (al\<lparr>ra_state := Some st', ra_failed := True, ra_error := e\<rparr>, Err e)
               else (al\<lparr>ra_state := Some st'\<rparr>, Err e)
           | (st', Inr b) \<Rightarrow> (al\<lparr>ra_state := Some st', ra_peek := u64 (b + count)\<rparr>, Ok b)))"

definition ra_observe :: "replica_allocator \<Rightarrow> nat \<Rightarrow> replica_allocator" where
  "ra_observe al c =
     (case ra_state al of
        None \<Rightarrow> al
      | Some st \<Rightarrow>
          if ra_failed al then al
          else al\<lparr>ra_peek := (if c \<ge> ra_peek al then u64 (c + 1) else ra_peek al),
                  ra_state := Some (fst (rs_observe_remote (ra_stream al) c st))\<rparr>)"

definition ra_actor :: "replica_allocator \<Rightarrow> actor_id" where
  "ra_actor al = (case ra_state al of None \<Rightarrow> default_actor | Some st \<Rightarrow> rs_actor st)"

definition replica_alloc :: "replica_allocator alloc_ops" where
  "replica_alloc =
     \<lparr>reserve_run = ra_reserve_run, alloc_observe = ra_observe, alloc_peek = ra_peek, alloc_actor = ra_actor\<rparr>"

section \<open>The interface\<close>

text \<open>
  A handle without a usable state issues nothing any more. Otherwise the bound of what was issued
  is the counter of its stream.
\<close>

definition handle_counter :: "replica_allocator \<Rightarrow> nat" where
  "handle_counter al =
     (case ra_state al of
        None \<Rightarrow> U64_MAX + 1
      | Some st \<Rightarrow>
          if ra_failed al \<or> owner_closed st then U64_MAX + 1 else stream_counter (ra_stream al) (rs_streams st))"

definition handle_ready :: "replica_allocator \<Rightarrow> bool" where
  "handle_ready al =
     (case ra_state al of
        None \<Rightarrow> True
      | Some st \<Rightarrow>
          counter_start \<le> stream_counter (ra_stream al) (rs_streams st) \<and>
          stream_counter (ra_stream al) (rs_streams st) \<le> U64_MAX)"

lemma persist_frame:
  assumes "persist st = (st', r)"
  shows "rs_streams st' = rs_streams st \<and> rs_actor st' = rs_actor st \<and> owner_closed st' = owner_closed st"
  using assms
  by (auto simp: persist_def replace_atomically_def owner_closed_def split: if_splits list.splits write_outcome.splits)

text \<open>A reservation of the state, as the handle sees it.\<close>

lemma rs_reserve_run_counter:
  assumes r: "rs_reserve_run name document epoch n st = (st', res)"
    and lim: "counter_start \<le> stream_counter name (rs_streams st)" "stream_counter name (rs_streams st) \<le> U64_MAX"
  shows "rs_actor st' = rs_actor st" "owner_closed st' = owner_closed st"
    "stream_counter name (rs_streams st) \<le> stream_counter name (rs_streams st')"
    "stream_counter name (rs_streams st') \<le> U64_MAX"
    "res = Ok b \<Longrightarrow> \<not> owner_closed st \<and> 0 < n \<and> b = stream_counter name (rs_streams st) \<and>
       stream_counter name (rs_streams st') = b + n"
proof -
  let ?n = "stream_counter name (rs_streams st)"
  obtain c q where c: "cc_reserve_run ?n n = (c, q)"
    by (cases "cc_reserve_run ?n n")
  define st1 where "st1 = st\<lparr>rs_streams := set_stream name c (rs_streams st)\<rparr>"
  have one: "stream_counter name (rs_streams st1) = c" "rs_actor st1 = rs_actor st" "owner_closed st1 = owner_closed st"
    by (simp_all add: st1_def stream_counter_set owner_closed_def)
  have cn: "?n \<le> c" "c \<le> U64_MAX"
    using cc_reserve_run_mono [OF lim(2), of n] c by simp_all
  obtain st2 w where p: "persist st1 = (st2, w)"
    by (cases "persist st1")
  note frame = persist_frame [OF p]
  have got: "q = Ok b \<Longrightarrow> 0 < n \<and> b = ?n \<and> c = b + n" for b
    using cc_reserve_run_Ok [OF lim(2), of n c b] c by auto
  show "rs_actor st' = rs_actor st" "owner_closed st' = owner_closed st"
    "?n \<le> stream_counter name (rs_streams st')" "stream_counter name (rs_streams st') \<le> U64_MAX"
    using r one cn frame p lim
    by (auto simp: rs_reserve_run_def c Let_def st1_def [symmetric] split: option.splits sum.splits)
  assume "res = Ok b"
  then show "\<not> owner_closed st \<and> 0 < n \<and> b = ?n \<and> stream_counter name (rs_streams st') = b + n"
    using r one frame p got
    by (auto simp: rs_reserve_run_def reserve_refusal_def c Let_def st1_def [symmetric] split: option.splits sum.splits if_splits)
qed

interpretation replica_allocator: identity_allocator replica_alloc handle_ready handle_counter
proof (unfold_locales, goal_cases)
  case (1 al n al' b)
  then obtain st st' where s: "ra_state al = Some st" "\<not> ra_failed al"
    "rs_reserve_run (ra_stream al) (ra_document al) (ra_epoch al) n st = (st', Ok b)"
    "al' = al\<lparr>ra_state := Some st', ra_peek := u64 (b + n)\<rparr>"
    by (auto simp: replica_alloc_def ra_reserve_run_def split: if_splits option.splits prod.splits sum.splits)
  have lim: "counter_start \<le> stream_counter (ra_stream al) (rs_streams st)"
    "stream_counter (ra_stream al) (rs_streams st) \<le> U64_MAX"
    using 1(1) s(1) by (simp_all add: handle_ready_def)
  note step = rs_reserve_run_counter [OF s(3) lim]
  show ?case
    using step s lim by (simp add: handle_ready_def handle_counter_def counter_start_def)
next
  case (2 al n al' e)
  show ?case
  proof (cases "ra_state al")
    case None
    then show ?thesis
      using 2 by (auto simp: replica_alloc_def ra_reserve_run_def handle_ready_def handle_counter_def split: if_splits)
  next
    case (Some st)
    show ?thesis
    proof (cases "ra_failed al")
      case True
      then show ?thesis
        using 2 by (auto simp: replica_alloc_def ra_reserve_run_def)
    next
      case False
      obtain st' where r: "rs_reserve_run (ra_stream al) (ra_document al) (ra_epoch al) n st = (st', Err e)"
        and al': "al' = al\<lparr>ra_state := Some st', ra_failed := True, ra_error := e\<rparr> \<or> al' = al\<lparr>ra_state := Some st'\<rparr>"
        using 2(3) Some False
        by (auto simp: replica_alloc_def ra_reserve_run_def split: if_splits option.splits prod.splits sum.splits)
      have lim: "counter_start \<le> stream_counter (ra_stream al) (rs_streams st)"
        "stream_counter (ra_stream al) (rs_streams st) \<le> U64_MAX"
        using 2(1) Some by (simp_all add: handle_ready_def)
      note step = rs_reserve_run_counter [OF r lim]
      show ?thesis
        using al' step(1-4) Some False lim by (elim disjE) (simp_all add: handle_ready_def handle_counter_def)
    qed
  qed
next
  case (3 al c)
  show ?case
  proof (cases "ra_state al")
    case (Some st)
    then show ?thesis
      using 3 cc_observe_mono [of "stream_counter (ra_stream al) (rs_streams st)" c]
      by (auto simp: replica_alloc_def ra_observe_def handle_ready_def handle_counter_def rs_observe_remote_def
          stream_counter_set owner_closed_def split: prod.splits)
  qed (use 3 in \<open>simp add: replica_alloc_def ra_observe_def\<close>)
next
  case (4 al c)
  show ?case
  proof (cases "ra_state al")
    case (Some st)
    then show ?thesis
      using 4 by (auto simp: replica_alloc_def ra_observe_def handle_counter_def rs_observe_remote_def
          stream_counter_set owner_closed_def cc_observe_def kExhausted_def split: prod.splits)
  qed (use 4 in \<open>simp add: replica_alloc_def ra_observe_def handle_counter_def\<close>)
next
  case (5 al n)
  show ?case
  proof (cases "ra_state al")
    case (Some st)
    have lim: "counter_start \<le> stream_counter (ra_stream al) (rs_streams st)"
      "stream_counter (ra_stream al) (rs_streams st) \<le> U64_MAX"
      using 5 Some by (simp_all add: handle_ready_def)
    obtain st' r where r: "rs_reserve_run (ra_stream al) (ra_document al) (ra_epoch al) n st = (st', r)"
      by (cases "rs_reserve_run (ra_stream al) (ra_document al) (ra_epoch al) n st")
    show ?thesis
      using Some r rs_reserve_run_counter(1) [OF r lim]
      by (simp add: replica_alloc_def ra_reserve_run_def ra_actor_def split: sum.splits)
  qed (simp add: replica_alloc_def ra_reserve_run_def ra_actor_def)
next
  case (6 al c)
  show ?case
    by (cases "ra_state al")
      (simp_all add: replica_alloc_def ra_observe_def ra_actor_def rs_observe_remote_def split: prod.splits)
qed

section \<open>Deviations\<close>

text \<open>
  The constructor's comment promises that a stream with no counter starts where a fresh counter
  does; the handle starts at 0. An observed counter of the greatest value wraps the handle's peek
  to 0, although the counter itself refuses to move.
\<close>

lemma fresh_handle_peek:
  "map_of (rs_streams st) name = None \<Longrightarrow> ra_peek (new_allocator (Some st) document name epoch) = 0 \<and>
     stream_counter name (rs_streams st) = 1"
  by (simp add: new_allocator_def peek_stream_def stream_counter_def counter_start_def)

lemma observed_maximum_wraps:
  "ra_state al = Some st \<Longrightarrow> \<not> ra_failed al \<Longrightarrow> ra_peek al \<le> U64_MAX \<Longrightarrow> ra_peek (ra_observe al U64_MAX) = 0"
  by (simp add: ra_observe_def u64_def U64_MAX_def)

end
