(* ===== verification/Spec2Isabelle.thy ===== *)
theory Spec2Isabelle
  imports List_Retirement List_Delivery List_Collection List_Checkpoint Text_Convergence Text_Checkpoint Replica_Allocator
    "HOL-Library.Code_Target_Nat"
begin

text \<open>
  Verification of the CRDT core of collabtext (\<open>src/libs/collabtext\<close>). File names below are
  relative to \<open>src/libs/collabtext/src\<close>.

  \<^bold>\<open>The program.\<close> Replicas of a document edit without coordination and exchange operations. Every
  operation has an identity (actor, counter) that its replica reserves from an allocator, and
  carries the version vector it was made at. A sequence of items is ordered by the FugueMax tree
  their links span (\<open>crdt/SequenceOrder.cpp\<close>); deletions are marks, undo is a counter per item
  (\<open>crdt/UndoMap.cpp\<close>), and the list engine (\<open>crdt/IdList.cpp\<close>) puts these together with
  validation, a queue for operations that arrive early, an undo history with a budget for what it
  retires, certified collection of tombstones, and checkpoints. Text runs are \<open>crdt/Fragment.h\<close>.
  Identities of a device survive crashes through \<open>identity/ReplicaState.cpp\<close>.

  \<^bold>\<open>Theories, in the order they build on each other.\<close>
  \<^item> \<open>Collab_Prelude\<close>: error codes and \<open>Result\<close>, order of elements in lists, sorted association
    lists, the theorem collections.
  \<^item> \<open>Actor_Identity\<close> (\<open>ActorId.h\<close>, \<open>Engine.h\<close>): actors and their hexadecimal form, Lamport order,
    anchors, checked counters with their 64-bit limits; the locale \<open>identity_allocator\<close> states what
    an engine may rely on, the volatile counter is its first interpretation.
  \<^item> \<open>Version_Vector\<close> (\<open>crdt/Clock.cpp\<close>): the sorted vector, binary search, observe, join, meet,
    intersection; the locale \<open>coverage_clock\<close>.
  \<^item> \<open>Sequence_Order\<close> (\<open>crdt/SequenceOrder.*\<close>, \<open>Placement.h\<close>): placement of runs over a record of
    run operations (the C++ template parameter), fast and reference form, link minting, consistency
    check. \<open>Fugue_Order\<close>, \<open>Run_Items\<close>, \<open>Placement_Walks\<close>, \<open>Placement_Left\<close> and
    \<open>Placement_Correct\<close> prove it against the order of the tree, stated without walks.
  \<^item> \<open>Undo_Map\<close>, \<open>Utf_Codec\<close> and \<open>Utf_Offsets\<close> (\<open>codec/Utf.*\<close>, \<open>crdt/Utf16.h\<close>), \<open>Operations\<close>
    (values, sizes and validation), \<open>Retention\<close> (gap ledger, reclamation, retirement charges).
  \<^item> \<open>Fragments\<close> (\<open>crdt/Fragment.h\<close>): text runs with UTF-16 checkpoints; an interpretation of the
    run interface, as are the entries of the list.
  \<^item> \<open>Id_List\<close> (\<open>crdt/IdList.cpp\<close>): the engine. \<open>List_Invariant\<close>: every operation keeps the state
    invariant. \<open>List_History\<close>, \<open>List_Local\<close>: undo history and local commands. \<open>List_Convergence\<close>: a
    state reflects the operations it covers. \<open>List_Network\<close>: replicas that exchange operations.
    \<open>List_Delivery\<close>: complete batches are integrated completely. \<open>List_Collection\<close>,
    \<open>List_Checkpoint\<close>, \<open>List_Retirement\<close>: collection, checkpoints, and the budget of retired
    history over the life of a list.
  \<^item> \<open>Replica_State\<close>, \<open>Replica_Durability\<close>, \<open>Replica_Allocator\<close> (\<open>identity/Replica*.cpp\<close>): the state
    file, what crashes and failing writes cannot do, and the durable allocator as an interpretation
    of the allocator interface.
  \<^item> \<open>Avl_Map\<close> (\<open>crdt/PersistentAvlMap.h\<close>): the map against sorted lists of bindings, its balance; the
    locales \<open>ordered_map\<close> and \<open>interval_rows\<close>. \<open>Run_Indexes\<close> (\<open>crdt/OriginIndex.h\<close>,
    \<open>DeletionIndex.h\<close>, \<open>RunDirectory.h\<close>, \<open>TreeNodeId.h\<close>): the indexes of runs kept in it.
  \<^item> \<open>Sum_Tree\<close>, \<open>Tree_Cursor\<close> (\<open>crdt/SumTree.h\<close>): the B+ tree under the sequences, every operation
    of it, and its cursor. \<open>Sum_Tree_Shape\<close>: occupancy, heights and summaries are kept, and the tree
    is the list of its items. \<open>Sum_Tree_Seek\<close>: a search through the nodes is the search through the
    list, for every dimension that obeys the laws of the locale \<open>tree_dimension\<close>. \<open>Sum_Tree_Edit\<close>,
    \<open>Sum_Tree_Splice\<close>, \<open>Tree_Cursor_Spec\<close>: editing, replacing a range, slices.
    \<open>Fragment_Tree\<close>: the tree of the text runs and its offsets.
  \<^item> \<open>Text_Buffer\<close> (\<open>crdt/Buffer.*\<close>): the state of the text engine and its lookups; \<open>Text_History\<close>: its
    undo stack; \<open>Text_Edits\<close>: the direct publications of local edits; \<open>Text_Local\<close>: local edits,
    markers, undo and redo; \<open>Text_Remote\<close>: remote operations and the deferral queue;
    \<open>Text_Checkpoint\<close>: checkpoints and collection; \<open>Text_Queries\<close>: text, anchors, edits since.
  \<^item> \<open>Text_Cells\<close>: the fragments as a sequence of cells, one per item; splits and insertions on it.
    \<open>Text_Marks\<close>: deletion runs put their deletion on the cells they name, through the index or by
    scanning. \<open>Text_Apply\<close>: an applied remote operation adds exactly its cells, deletions and undo
    counts, on every path. \<open>Text_Convergence\<close>: the text is determined by the operations the version
    covers, through the deferral queue too.
  \<^bold>\<open>Conventions.\<close> Structs are records, enums datatypes, \<open>Result\<close> is a sum with an error code.
  Counters and lengths are natural numbers; \<open>u64\<close> and \<open>u32\<close> write out the wrap-around where the
  code can reach it, and the refusals before \<open>2 ^ 64 - 1\<close> are the code's. \<open>sizeof\<close> constants are
  those of a 64-bit platform. Virtual classes and template parameters are records of functions
  with a locale for their laws. Loops are functions with a termination proof; fuel is used twice in
  the text engine: one step per fragment for an ancestry walk, as in the code, and one round per item
  of a deletion run, each of which covers an item.
  The disk is a script of write outcomes, the entropy source and locks are arguments.

  \<^bold>\<open>Not modelled.\<close> Messages and contexts of errors, diagnostics counters, memory management and
  threads; files and their formats apart from the state file; the network transport, the user
  interface, benchmarks and tests. The list engine and the undo map work on the list of items
  of their tree; the text engine on the list of its fragments, with the indexes and directories
  derived from it. Storage and synchronisation are listed in the manifest.

  \<^bold>\<open>Deviations\<close> of the code from what it means to do stand at the end.
\<close>

section \<open>Instances\<close>

text \<open>Two replicas with the volatile allocator, for the instances below.\<close>

abbreviation alice :: actor_id where "alice \<equiv> ActorId (replicate 16 1)"
abbreviation bob :: actor_id where "bob \<equiv> ActorId (replicate 16 2)"

abbreviation replica :: "actor_id \<Rightarrow> (actor_id \<times> nat) id_list" where
  "replica a \<equiv> new_id_list (a, 1)"

abbreviation counter_ready :: "actor_id \<times> nat \<Rightarrow> bool" where
  "counter_ready \<equiv> \<lambda>(a, n). n \<le> U64_MAX"

text \<open>Alice inserts item 7, then item 8 behind it, then removes item 7.\<close>

definition typed1 :: "(actor_id \<times> nat) id_list" where
  "typed1 = fst (run_command counter_alloc (InsertAfter anchor_min 7) (replica alice))"

definition typed2 :: "(actor_id \<times> nat) id_list" where
  "typed2 = fst (run_command counter_alloc (InsertAfter (mk_anchor (Identity alice 1) BiasRight) 8) typed1)"

definition insert7 :: idlist_operation where
  "insert7 = ListInsert \<lparr>li_timestamp = Identity alice 1, li_version = [], li_id = 7, li_link = default_link\<rparr>"

definition insert8 :: idlist_operation where
  "insert8 = ListInsert \<lparr>li_timestamp = Identity alice 2, li_version = [(alice, 1)], li_id = 8,
     li_link = Link (Some (Identity alice 1)) Right None\<rparr>"

lemma typed1_made: "run_command counter_alloc (InsertAfter anchor_min 7) (replica alice) = (typed1, Some insert7)"
  unfolding typed1_def by code_simp

lemma typed2_made:
  "run_command counter_alloc (InsertAfter (mk_anchor (Identity alice 1) BiasRight) 8) typed1 = (typed2, Some insert8)"
  unfolding typed2_def by code_simp

text \<open>Bob is handed the two operations in the wrong order.\<close>

definition bob2 :: "(actor_id \<times> nat) id_list" where
  "bob2 = fst (apply_ops counter_alloc [insert8, insert7] (replica bob))"

lemma bob2_made: "apply_ops counter_alloc [insert8, insert7] (replica bob) =
    (bob2, [Deferred (Identity alice 1), Applied])"
  unfolding bob2_def by code_simp

lemma bob2_ids: "list_ids bob2 = [7, 8]" "il_version bob2 = il_version typed2"
  unfolding bob2_def typed2_def typed1_def by code_simp+

lemma sample_run:
  "(net_step counter_alloc)\<^sup>*\<^sup>* ({}, [replica alice, replica bob]) ({insert8, insert7}, [typed2, bob2])"
proof -
  let ?A = counter_alloc
  have "net_step ?A ({}, [replica alice, replica bob]) ({insert7}, [typed1, replica bob])"
    using net_step.command [of 0 "[replica alice, replica bob]" ?A _ typed1 "Some insert7" "{}"] typed1_made by simp
  moreover have "net_step ?A ({insert7}, [typed1, replica bob]) ({insert8, insert7}, [typed2, replica bob])"
    using net_step.command [of 0 "[typed1, replica bob]" ?A _ typed2 "Some insert8" "{insert7}"] typed2_made
    by (simp add: insert_commute)
  moreover have "net_step ?A ({insert8, insert7}, [typed2, replica bob]) ({insert8, insert7}, [typed2, bob2])"
    using net_step.deliver [of 1 "[typed2, replica bob]" "[insert8, insert7]" "{insert8, insert7}" ?A bob2] bob2_made
    by simp
  ultimately show ?thesis
    by (meson rtranclp.rtrancl_into_rtrancl rtranclp.rtrancl_refl)
qed

section \<open>Properties\<close>

subsection \<open>Convergence\<close>

text \<open>
  C1: Start any number of replicas with distinct actors from the empty list. After any run of
  local commands (inserts, removals, undo and redo) and deliveries (any batch of operations some
  replica made, in any order, with repetitions), two replicas whose versions agree hold the same
  entries with the same visibility and deletions, and show the same list.
\<close>
theorem replicas_converge:
  assumes run: "(net_step counter_alloc)\<^sup>*\<^sup>* ({}, map new_id_list als) (L, rs)"
    and start: "distinct (map fst als)" "list_all (\<lambda>(a, n). 0 < n \<and> n \<le> U64_MAX) als"
    and pair: "x \<in> set rs" "y \<in> set rs" "\<And>a. get (il_version x) a = get (il_version y) a"
  shows "list_all2 same_entry (il_entries x) (il_entries y) \<and> list_ids x = list_ids y"
proof -
  have "network_ok counter_ready snd counter_alloc ({}, map new_id_list als)"
    using start by (intro network_start) (auto simp: counter_alloc_def list_all_iff)
  then show ?thesis
    using counter_allocator.network_converges [OF run _ pair] by blast
qed

lemma replicas_converge_witness: "list_ids typed2 = list_ids bob2 \<and> list_ids bob2 = [7, 8]"
proof -
  have start: "distinct (map fst [(alice, 1), (bob, 1::nat)])"
    "list_all (\<lambda>(a, n). 0 < n \<and> n \<le> U64_MAX) [(alice, 1), (bob, 1)]"
    by code_simp+
  have run: "(net_step counter_alloc)\<^sup>*\<^sup>* ({}, map new_id_list [(alice, 1), (bob, 1)])
      ({insert8, insert7}, [typed2, bob2])"
    using sample_run by simp
  show ?thesis
    using replicas_converge [OF run start, of typed2 bob2] bob2_ids by simp
qed

text \<open>
  C2: Let \<open>L\<close> be a log in which every operation's dependencies come earlier in some rank. A replica
  that is handed a batch with every operation it lacks, in any order, and whose deferral budget
  has room for the batch, ends with all of \<open>L\<close> integrated and an empty queue; no operation of the
  batch is rejected.
\<close>
theorem delivery_completes:
  assumes L: "log_ready L rank" and st: "tracks L st" "plain st"
    and ops: "set ops \<subseteq> L" "\<And>op. op \<in> L \<Longrightarrow> op \<in> set ops \<or> settled st op"
    and room: "room (length ops) (sum_list (map estimate_idlist_bytes ops)) st"
  shows "case apply_ops A ops st of (st', outs) \<Rightarrow>
    reflects L st' \<and> il_deferred st' = [] \<and> (\<forall>op \<in> L. observed (il_version st') (idlist_op_identity op)) \<and>
    (\<forall>out \<in> set outs. \<forall>e. out \<noteq> Rejected e)"
proof -
  obtain st' outs where "apply_ops A ops st = (st', outs)"
    by (cases "apply_ops A ops st")
  then show ?thesis
    using delivery_complete [OF L st ops room] by simp
qed

lemma sample_log: "log_ready {insert7, insert8} (\<lambda>op. counter (idlist_op_identity op))"
proof -
  let ?rank = "\<lambda>op. counter (idlist_op_identity op)"
  have ids: "idlist_op_identity insert7 = Identity alice 1" "idlist_op_identity insert8 = Identity alice 2"
    "idlist_op_version insert7 = []" "idlist_op_version insert8 = [(alice, 1)]"
    "op_refs insert7 = {}" "op_refs insert8 = {Identity alice 1}"
    by (simp_all add: insert7_def insert8_def idlist_op_identity_def idlist_op_version_def op_refs_def default_link_def)
  have ok: "op_ok insert7" "op_ok insert8"
    unfolding insert7_def insert8_def by code_simp+
  have valid: "validate_idlist_operation_identity insert7 = Valid" "validate_idlist_operation insert7 [] = Valid"
    "validate_idlist_operation_identity insert8 = Valid" "validate_idlist_operation insert8 [(alice, 1)] = Valid"
    unfolding insert7_def insert8_def by code_simp+
  have seen: "observed [(alice, 1)] (Identity alice 1)"
    by code_simp
  have "Identity alice 1 \<in> insert_ids {insert7, insert8}"
    by (auto simp: insert_ids_def insert7_def)
  then have "deliverable {insert7, insert8} ?rank insert7" "deliverable {insert7, insert8} ?rank insert8"
    using ids valid seen by (simp_all add: deliverable_def)
  moreover have "op_log {insert7, insert8}"
    using ids ok seen by (auto simp: op_log_def)
  ultimately show ?thesis
    by (simp add: log_ready_def)
qed

lemma sample_tracks: "tracks {insert7, insert8} (replica a)"
  using sample_log by (intro tracks_new) (simp add: log_ready_def)

lemma delivery_completes_witness: "il_deferred bob2 = [] \<and> reflects {insert7, insert8} bob2 \<and> list_ids bob2 = [7, 8]"
proof -
  have "plain (replica bob)" "room 2 (estimate_idlist_bytes insert8 + estimate_idlist_bytes insert7) (replica bob)"
    unfolding insert7_def insert8_def by code_simp+
  then show ?thesis
    using delivery_completes [OF sample_log sample_tracks, of bob "[insert8, insert7]" counter_alloc] bob2_made bob2_ids
    by (auto simp: numeral_2_eq_2)
qed

text \<open>
  C3: Two replicas that start from states of the log \<open>L\<close> and are handed all of \<open>L\<close>, each in its own
  order and with its own repetitions, show the same list, even with different allocators.
\<close>
theorem delivery_order_irrelevant:
  assumes "log_ready L rank" "set ops = L" "set ops' = L"
    and "plain x" "plain y" "tracks L x" "tracks L y"
    and "room (length ops) (sum_list (map estimate_idlist_bytes ops)) x"
    and "room (length ops') (sum_list (map estimate_idlist_bytes ops')) y"
  shows "list_ids (fst (apply_ops A ops x)) = list_ids (fst (apply_ops B ops' y))"
  using assms by (rule delivery_converges)

lemma delivery_order_irrelevant_witness:
  "list_ids (fst (apply_ops counter_alloc [insert7, insert8, insert7] (replica alice))) = list_ids bob2"
proof -
  have p: "plain (replica alice)" "plain (replica bob)"
    "room (length [insert7, insert8, insert7]) (sum_list (map estimate_idlist_bytes [insert7, insert8, insert7])) (replica alice)"
    "room (length [insert8, insert7]) (sum_list (map estimate_idlist_bytes [insert8, insert7])) (replica bob)"
    unfolding insert7_def insert8_def by code_simp+
  show ?thesis
    using delivery_order_irrelevant [OF sample_log _ _ p(1,2) sample_tracks sample_tracks p(3,4), of counter_alloc counter_alloc] bob2_made
    by (simp add: insert_commute)
qed

subsection \<open>The text engine\<close>

text \<open>Alice types two letters, Bob deletes the first one.\<close>

definition typed_run :: inserted_fragment where
  "typed_run = \<lparr>if_origin = Identity alice 1, if_link = default_link, if_content = [97, 98], if_length = 2,
     if_marker = False\<rparr>"

definition typed_ab :: edit_operation where
  "typed_ab = \<lparr>eo_marker_edit = False, eo_timestamp = Identity alice 3, eo_version = [], eo_ranges = [(0, 0)],
     eo_new_text = [[97, 98]], eo_inserted = [typed_run], eo_deletion_runs = [],
     eo_deletion_id = Identity alice 3\<rparr>"

definition erased_a :: edit_operation where
  "erased_a = \<lparr>eo_marker_edit = False, eo_timestamp = Identity bob 4, eo_version = [(alice, 3)], eo_ranges = [(0, 1)],
     eo_new_text = [[]], eo_inserted = [], eo_deletion_runs = [\<lparr>dr_first = Identity alice 1, dr_count = 1\<rparr>],
     eo_deletion_id = Identity bob 4\<rparr>"

abbreviation sample_edits :: "operation set" where
  "sample_edits \<equiv> {EditOp typed_ab, EditOp erased_a}"

lemma typed_ab_cells: "text_cells (edit_frags typed_ab) =
    [Cell (Identity alice 1) default_link [97] False {},
     Cell (Identity alice 2) (Link (Some (Identity alice 1)) Right None) [98] False {}]"
  unfolding typed_ab_def by code_simp

lemma typed_run_piece: "piece_ok (fragment_of_inserted typed_run)"
  unfolding typed_run_def by (rule inserted_piece [of "[97, 98]"]) code_simp+

lemma sample_edits_log: "text_log sample_edits"
proof -
  have cores: "fst ` op_cores (EditOp typed_ab) = {Identity alice 1, Identity alice 2}"
    "op_cores (EditOp erased_a) = {}"
    by (simp_all add: op_cores_def text_cores_def typed_ab_cells cell_core_def) (simp add: erased_a_def)
  have alice: "actor_valid alice" "Suc 0 \<le> U64_MAX - Suc 0" "alice \<noteq> bob"
    by code_simp+
  have "link_wf (if_link typed_run)" "actor (if_origin typed_run) = alice"
    "counter (if_origin typed_run) + if_length typed_run \<le> 3"
    unfolding typed_run_def by code_simp+
  then have "edit_ok typed_ab" "edit_ok erased_a"
    unfolding edit_ok_def typed_ab_cells
    by (simp_all add: typed_ab_def erased_a_def run_ok_def alice typed_run_piece)
  then have wf: "\<forall>op \<in> sample_edits. text_op_ok op"
    by (simp add: text_op_ok_def)
  have claims: "op_claims (EditOp typed_ab) \<inter> op_claims (EditOp erased_a) = {}"
    using alice(3) unfolding op_claims_def cores by (simp add: op_identity_def typed_ab_def erased_a_def)
  have order: "\<forall>op \<in> sample_edits. \<forall>old \<in> sample_edits. actor (op_identity old) = actor (op_identity op) \<and>
      counter (op_identity old) < counter (op_identity op) \<longrightarrow> observed (text_op_version op) (op_identity old)"
    using alice(3) by (simp add: op_identity_def typed_ab_def erased_a_def)
  have "op_targets (EditOp typed_ab) = {}" "op_targets (EditOp erased_a) = {Identity alice 1}"
    by (simp_all add: op_targets_def runs_span_def typed_ab_def erased_a_def item_span_def)
  moreover have "observed (text_op_version (EditOp erased_a)) (op_identity (EditOp typed_ab))"
    unfolding typed_ab_def erased_a_def by code_simp
  ultimately have targets: "\<forall>op \<in> sample_edits. \<forall>x \<in> op_targets op. \<exists>old \<in> sample_edits.
      observed (text_op_version op) (op_identity old) \<and> x \<in> fst ` op_cores old"
    using cores by simp
  show ?thesis
    unfolding text_log_def using wf claims order targets by (simp add: uniform_counts_def op_counts_def Int_commute)
qed

definition in_order :: "(actor_id \<times> nat) text_buffer" where
  "in_order = fst (buffer_apply_ops counter_alloc [EditOp typed_ab, EditOp erased_a] (new_buffer (alice, 10)))"

definition out_of_order :: "(actor_id \<times> nat) text_buffer" where
  "out_of_order = fst (buffer_apply_ops counter_alloc [EditOp typed_ab]
     (fst (buffer_apply_ops counter_alloc [EditOp erased_a] (new_buffer (bob, 10)))))"

lemma orders_shown: "buffer_text in_order = [98]" "buffer_text out_of_order = [98]"
  "tb_version in_order = [(alice, 3), (bob, 4)]" "tb_version out_of_order = [(alice, 3), (bob, 4)]"
  unfolding in_order_def out_of_order_def typed_ab_def erased_a_def typed_run_def by code_simp+

text \<open>
  C4: Let \<open>L\<close> be a log of well-formed text operations: no identity is used twice, each operation covers
  the earlier ones of its actor and those whose items it deletes, and undo counts treat the items of
  one inserted run alike. Two replicas that start empty and are handed any batches of operations of
  \<open>L\<close>, in any order and with repetitions, hold the same cells (items with their placement, bytes and
  deletions, in the same order) and show the same text whenever their versions agree, whichever
  publication path each of them took and however their fragments are cut.
\<close>
theorem text_replicas_converge:
  assumes L: "text_log L" "\<forall>ops \<in> set xs. set ops \<subseteq> L" "\<forall>ops \<in> set ys. set ops \<subseteq> L"
    and x: "x = fold (\<lambda>ops st. fst (buffer_apply_ops A ops st)) xs (new_buffer al)"
    and y: "y = fold (\<lambda>ops st. fst (buffer_apply_ops B ops st)) ys (new_buffer bl)"
    and v: "\<And>a. get (tb_version x) a = get (tb_version y) a"
  shows "text_cells (tb_fragments x) = text_cells (tb_fragments y) \<and> buffer_text x = buffer_text y"
proof -
  have "text_tracks L x" "text_tracks L y"
    unfolding x y by (rule batches_track [OF L(1,2) text_tracks_new [OF L(1)]],
      rule batches_track [OF L(1,3) text_tracks_new [OF L(1)]])
  then have "text_shows L x" "text_shows L y"
    by (simp_all add: text_tracks_def)
  from text_shows_converge [OF L(1) this v] show ?thesis
    by simp
qed

lemma text_replicas_converge_witness: "buffer_text in_order = buffer_text out_of_order \<and> buffer_text in_order = [98]"
proof -
  have "in_order = fold (\<lambda>ops st. fst (buffer_apply_ops counter_alloc ops st)) [[EditOp typed_ab, EditOp erased_a]]
      (new_buffer (alice, 10))"
    "out_of_order = fold (\<lambda>ops st. fst (buffer_apply_ops counter_alloc ops st)) [[EditOp erased_a], [EditOp typed_ab]]
      (new_buffer (bob, 10))"
    by (simp_all add: in_order_def out_of_order_def)
  then show ?thesis
    using text_replicas_converge [OF sample_edits_log, of "[[EditOp typed_ab, EditOp erased_a]]"
        "[[EditOp erased_a], [EditOp typed_ab]]"] orders_shown by simp
qed

text \<open>
  C5: Take fragments in document order and deletion runs that name retained items only. Resolving the
  runs through the interval index (overlapping intervals, merged and marked from right to left) and
  resolving them by scanning the fragments both put the deletion on exactly the named items and
  leave everything else as it was.
\<close>
theorem deletion_routes_agree:
  assumes ok: "frags_ok frags" and runs: "\<forall>r \<in> set runs. run_ok r" "runs_span runs \<subseteq> text_ids frags"
  shows "text_cells (apply_deletion_runs True frags runs d) = map (mark_cell (runs_span runs) d) (text_cells frags) \<and>
    text_cells (apply_deletion_runs False frags runs d) = map (mark_cell (runs_span runs) d) (text_cells frags)"
proof -
  have r: "pieces_ok frags" "distinct (map cl_id (text_cells frags))" "runs_span runs \<subseteq> cl_id ` set (text_cells frags)"
    using ok runs(2) cells_distinct by (auto simp: frags_ok_def text_ids_def)
  show ?thesis
    using apply_deletion_cells [OF r(1,2) runs(1) r(3)] by simp
qed

text \<open>Bob's run names the second half of Alice's.\<close>

lemma deletion_routes_agree_witness:
  "text_cells (apply_deletion_runs True (edit_frags typed_ab) [\<lparr>dr_first = Identity alice 2, dr_count = 1\<rparr>] (Identity bob 5)) =
     text_cells (apply_deletion_runs False (edit_frags typed_ab) [\<lparr>dr_first = Identity alice 2, dr_count = 1\<rparr>] (Identity bob 5)) \<and>
   length (apply_deletion_runs True (edit_frags typed_ab) [\<lparr>dr_first = Identity alice 2, dr_count = 1\<rparr>] (Identity bob 5)) = 2"
proof -
  let ?r = "\<lparr>dr_first = Identity alice 2, dr_count = 1\<rparr>"
  let ?st = "fst (buffer_apply_ops counter_alloc [EditOp typed_ab] (new_buffer (alice, 10)))"
  have "text_tracks sample_edits ?st"
    by (rule apply_ops_tracks_text [OF sample_edits_log _ text_tracks_new [OF sample_edits_log]]) simp
  then have "frags_ok (tb_fragments ?st)"
    by (simp add: text_tracks_def text_shows_def text_ok_def)
  moreover have "tb_fragments ?st = edit_frags typed_ab"
    unfolding typed_ab_def typed_run_def by code_simp
  ultimately have ok: "frags_ok (edit_frags typed_ab)"
    by simp
  have "run_ok ?r"
    unfolding run_ok_def by code_simp
  moreover have "{2..<3::nat} = {2}"
    by auto
  then have "runs_span [?r] \<subseteq> text_ids (edit_frags typed_ab)"
    by (simp add: runs_span_def item_span_def text_ids_def typed_ab_cells del: text_cells_simps)
  moreover have "length (apply_deletion_runs True (edit_frags typed_ab) [?r] (Identity bob 5)) = 2"
    unfolding typed_ab_def typed_run_def by code_simp
  ultimately show ?thesis
    using deletion_routes_agree [OF ok, of "[?r]" "Identity bob 5"] by simp
qed

subsection \<open>Placement\<close>

text \<open>A run of two characters, and two runs that two replicas place between them.\<close>

definition run_ab :: fragment where
  "run_ab = new_fragment (Identity alice 1) default_link 2 2 [97, 98]"

definition run_x :: fragment where
  "run_x = new_fragment (Identity bob 3) (Link (Some (Identity alice 2)) Left (Some (Identity alice 2))) 1 1 [120]"

definition run_y :: fragment where
  "run_y = new_fragment (Identity alice 5) (Link (Some (Identity alice 2)) Left (Some (Identity alice 2))) 1 1 [121]"

lemmas run_samples = run_ab_def run_x_def run_y_def

lemma runs_ab: "runs_ok fragment_ops [run_ab]"
proof -
  have "distinct (run_ids fragment_ops [run_ab])" "\<forall>f \<in> set [run_ab]. 0 < run_length fragment_ops f \<and> link_wf (run_link fragment_ops f)"
    "integrate_all fragment_ops [] [run_ab] = Some [run_ab]"
    unfolding run_samples by code_simp+
  then show ?thesis
    using fragments.integrate_all_items [of "[]" "[run_ab]"] runs_ok_empty [of fragment_ops] by simp
qed

lemma run_x_fresh: "run_fresh fragment_ops (set (run_ids fragment_ops [run_ab])) run_x"
proof -
  have "run_length fragment_ops run_x = 1" "item_at fragment_ops run_x 0 \<notin> set (run_ids fragment_ops [run_ab])"
    unfolding run_samples by code_simp+
  then show ?thesis
    by (simp add: run_fresh_def)
qed

text \<open>
  C6: Placing a received run of fresh items either refuses it, exactly when its link names an item
  the document does not have, or puts the whole run between two items of the document, moves
  nothing else, and keeps the order the FugueMax tree prescribes.
\<close>
theorem placement_correct:
  assumes "runs_ok fragment_ops frags" "run_fresh fragment_ops (set (run_ids fragment_ops frags)) inc"
    and "link_wf (run_link fragment_ops inc)"
  shows "case integrate fragment_ops frags inc of
      None \<Rightarrow> \<not> link_present (links fragment_ops frags) (run_link fragment_ops inc)
    | Some frags' \<Rightarrow> link_present (links fragment_ops frags) (run_link fragment_ops inc) \<and>
        runs_ok fragment_ops frags' \<and>
        (\<exists>us vs. items fragment_ops frags = us @ vs \<and>
           items fragment_ops frags' = us @ run_items fragment_ops inc @ vs)"
proof (cases "integrate fragment_ops frags inc")
  case None
  then show ?thesis
    using integrate_None_iff [OF assms] by simp
next
  case (Some frags')
  then have present: "link_present (links fragment_ops frags) (run_link fragment_ops inc)"
    using integrate_None_iff [OF assms] by auto
  then obtain k where k: "runs_ok fragment_ops frags'" "items fragment_ops frags' =
      take k (items fragment_ops frags) @ run_items fragment_ops inc @ drop k (items fragment_ops frags)"
    using fragments.integrate_correct [OF assms(1,2)] Some by auto
  then have "\<exists>us vs. items fragment_ops frags = us @ vs \<and> items fragment_ops frags' = us @ run_items fragment_ops inc @ vs"
    using append_take_drop_id by metis
  then show ?thesis
    using Some present k(1) by simp
qed

lemma placement_correct_witness:
  "\<exists>frags'. integrate fragment_ops [run_ab] run_x = Some frags' \<and> runs_ok fragment_ops frags' \<and>
     map fst (items fragment_ops frags') = [Identity alice 1, Identity bob 3, Identity alice 2]"
proof -
  have "link_wf (run_link fragment_ops run_x)"
    unfolding run_samples by code_simp
  moreover have "map_option (\<lambda>fs. map fst (items fragment_ops fs)) (integrate fragment_ops [run_ab] run_x) =
      Some [Identity alice 1, Identity bob 3, Identity alice 2]"
    unfolding run_samples by code_simp
  ultimately show ?thesis
    using placement_correct [OF runs_ab run_x_fresh] by (auto split: option.splits)
qed



text \<open>
  C8: Whenever the same fresh runs can be placed in two orders, both orders give the same items in
  the same document order.
\<close>
theorem placement_order_irrelevant:
  assumes "runs_ok fragment_ops frags" "set xs = set ys"
    and "distinct (run_ids fragment_ops (frags @ xs))" "distinct (run_ids fragment_ops (frags @ ys))"
    and "\<forall>f \<in> set xs. 0 < run_length fragment_ops f \<and> link_wf (run_link fragment_ops f)"
    and "integrate_all fragment_ops frags xs = Some f1" "integrate_all fragment_ops frags ys = Some f2"
  shows "items fragment_ops f1 = items fragment_ops f2"
  using fragments.integrate_all_converges [OF assms(1,3,2,4-)] .

lemma placement_order_irrelevant_witness:
  "\<exists>f1 f2. integrate_all fragment_ops [run_ab] [run_x, run_y] = Some f1 \<and>
     integrate_all fragment_ops [run_ab] [run_y, run_x] = Some f2 \<and> items fragment_ops f1 = items fragment_ops f2"
proof -
  have d: "distinct (run_ids fragment_ops ([run_ab] @ [run_x, run_y]))"
    "distinct (run_ids fragment_ops ([run_ab] @ [run_y, run_x]))"
    "\<forall>f \<in> set [run_x, run_y]. 0 < run_length fragment_ops f \<and> link_wf (run_link fragment_ops f)"
    unfolding run_samples by code_simp+
  have "map_option (map fr_length) (integrate_all fragment_ops [run_ab] [run_x, run_y]) = Some [1, 1, 1, 1]"
    "map_option (map fr_length) (integrate_all fragment_ops [run_ab] [run_y, run_x]) = Some [1, 1, 1, 1]"
    unfolding run_samples by code_simp+
  then obtain f1 f2 where f: "integrate_all fragment_ops [run_ab] [run_x, run_y] = Some f1"
    "integrate_all fragment_ops [run_ab] [run_y, run_x] = Some f2"
    by (auto simp only: map_option_eq_Some)
  have "items fragment_ops f1 = items fragment_ops f2"
    by (rule placement_order_irrelevant [OF runs_ab _ d f]) (simp add: insert_commute)
  then show ?thesis
    using f by blast
qed

text \<open>
  C9: A local insertion mints its link from the gap behind item \<open>lo\<close> (or the start). Placing a fresh
  run with that link puts it directly behind \<open>lo\<close>, before everything that stood behind \<open>lo\<close>.
\<close>
theorem minted_link_places:
  assumes "runs_ok fragment_ops frags" "\<forall>i. lo = Some i \<longrightarrow> i \<in> set (run_ids fragment_ops frags)"
    and "run_fresh fragment_ops (set (run_ids fragment_ops frags)) inc"
    and "run_link fragment_ops inc = mint_link fragment_ops frags lo"
  shows "\<exists>us vs frags'. integrate fragment_ops frags inc = Some frags' \<and> runs_ok fragment_ops frags' \<and>
    items fragment_ops frags = us @ vs \<and> items fragment_ops frags' = us @ run_items fragment_ops inc @ vs \<and>
    (if us = [] then None else Some (fst (last us))) = lo"
  using assms by (rule fragments.mint_link_correct)

lemma minted_link_places_witness:
  "\<exists>frags'. integrate fragment_ops [run_ab] run_x = Some frags' \<and> runs_ok fragment_ops frags'"
proof -
  have "run_link fragment_ops run_x = mint_link fragment_ops [run_ab] (Some (Identity alice 1))"
    "Identity alice 1 \<in> set (run_ids fragment_ops [run_ab])"
    unfolding run_samples by code_simp+
  then show ?thesis
    using minted_link_places [OF runs_ab _ run_x_fresh, of "Some (Identity alice 1)"] by auto
qed

subsection \<open>The list engine\<close>

text \<open>
  C10: Whatever batch of operations arrives, also malformed, duplicated or early ones, the engine
  keeps its invariant: entries in FugueMax order, visibility flags that match deletions and undo
  counts, only observed identities in use, exact queue and quarantine charges, a consistent undo
  history and gap ledger.
\<close>
theorem apply_ops_invariant:
  assumes "list_ok st"
  shows "list_ok (fst (apply_ops A ops st))"
proof (cases "apply_ops A ops st")
  case (Pair st' outs)
  then show ?thesis
    using apply_ops_ok [OF assms Pair] by simp
qed

lemma apply_ops_invariant_witness: "list_ok bob2 \<and> list_ids bob2 = [7, 8]"
  using apply_ops_invariant [OF list_ok_new, of counter_alloc "[insert8, insert7]" "(bob, 1)"] bob2_made bob2_ids
  by simp

text \<open>
  C11: A local insertion that succeeds puts exactly one new entry directly behind the item its
  anchor names (first for the minimum anchor), under an identity never observed before, records
  it in the version, and returns the operation that carries the version before it.
\<close>
theorem insert_after_places:
  assumes "list_ok st" "alloc_ahead counter_ready snd counter_alloc st"
    and "try_insert_after counter_alloc after eid st = (st', Ok op)"
  shows "list_ok st' \<and> alloc_ahead counter_ready snd counter_alloc st' \<and>
    (\<exists>us vs i l. il_entries st = us @ vs \<and>
       il_entries st' = us @ refresh_visible (il_undo_map st) (new_entry i l eid) # vs \<and>
       (if is_min after then us = [] else us \<noteq> [] \<and> le_origin (last us) = position after) \<and>
       op = ListInsert \<lparr>li_timestamp = i, li_version = il_version st, li_id = eid, li_link = l\<rparr> \<and>
       \<not> observed (il_version st) i \<and> actor i = alloc_actor counter_alloc (il_alloc st) \<and>
       il_version st' = observe (il_version st) i \<and> il_undo_map st' = il_undo_map st)"
  using assms by (rule counter_allocator.insert_after_correct)

lemma replica_ahead: "alloc_ahead counter_ready snd counter_alloc (replica a)"
  by (simp add: alloc_ahead_def counter_alloc_def new_id_list_def U64_MAX_eq)

lemma typed1_insert: "try_insert_after counter_alloc anchor_min 7 (replica alice) = (typed1, Ok insert7)"
  unfolding typed1_def insert7_def by code_simp

lemma typed1_ready: "list_ok typed1" "alloc_ahead counter_ready snd counter_alloc typed1"
  using counter_allocator.insert_after_correct [OF list_ok_new replica_ahead typed1_insert] by simp_all

lemma typed2_insert:
  "try_insert_after counter_alloc (mk_anchor (Identity alice 1) BiasRight) 8 typed1 = (typed2, Ok insert8)"
  unfolding typed2_def typed1_def insert8_def by code_simp

lemma insert_after_places_witness: "list_ok typed2 \<and> list_ids typed2 = [7, 8]"
proof -
  have "list_ids typed2 = [7, 8]"
    unfolding typed2_def typed1_def by code_simp
  then show ?thesis
    using insert_after_places [OF typed1_ready typed2_insert] by simp
qed

text \<open>
  C12: A local removal that succeeds adds a deletion with a fresh identity to the entry its anchor
  names; every other entry and the undo counts stay as they are.
\<close>
theorem remove_at_marks:
  assumes "list_ok st" "alloc_ahead counter_ready snd counter_alloc st"
    and "try_remove_at counter_alloc target st = (st', Ok op)"
  shows "list_ok st' \<and> alloc_ahead counter_ready snd counter_alloc st' \<and>
    (\<exists>us e vs d. il_entries st = us @ e # vs \<and> le_origin e = position target \<and>
       il_entries st' = us @ refresh_visible (il_undo_map st) (e\<lparr>le_deletions := le_deletions e @ [d]\<rparr>) # vs \<and>
       op = ListRemove \<lparr>lr_timestamp = d, lr_version = il_version st, lr_target_origin = position target\<rparr> \<and>
       \<not> observed (il_version st) d \<and> actor d = alloc_actor counter_alloc (il_alloc st) \<and>
       il_version st' = observe (il_version st) d \<and> il_undo_map st' = il_undo_map st)"
  using assms by (rule counter_allocator.remove_at_correct)

definition removed1 :: "(actor_id \<times> nat) id_list" where
  "removed1 = fst (try_remove_at counter_alloc (mk_anchor (Identity alice 1) BiasRight) typed1)"

definition remove7 :: idlist_operation where
  "remove7 = ListRemove \<lparr>lr_timestamp = Identity alice 2, lr_version = [(alice, 1)], lr_target_origin = Identity alice 1\<rparr>"

lemma removed1_made: "try_remove_at counter_alloc (mk_anchor (Identity alice 1) BiasRight) typed1 = (removed1, Ok remove7)"
  unfolding removed1_def typed1_def remove7_def by code_simp

lemma remove_at_marks_witness: "list_ok removed1 \<and> list_ids removed1 = []"
proof -
  have "list_ids removed1 = []"
    unfolding removed1_def typed1_def by code_simp
  then show ?thesis
    using remove_at_marks [OF typed1_ready removed1_made] by simp
qed

text \<open>
  C13: An undo followed by a redo restores every entry with its visibility, and the cursor of the
  undo stack, as long as no count of the group reaches the limit of its 32 bits.
\<close>
theorem undo_redo_identity:
  assumes "list_ok st" "alloc_ahead counter_ready snd counter_alloc st"
    and "try_undo counter_alloc st = (st1, Ok (Some op1))" "try_redo counter_alloc st1 = (st2, Ok (Some op2))"
    and "\<forall>g \<in> set (il_undo_stack st). distinct (members g) \<and>
      (\<forall>i \<in> set (members g). undo_count (il_undo_map st) i + 2 < 2 ^ 32)"
    and "distinct (map ug_group_id (il_undo_stack st))"
  shows "il_entries st2 = il_entries st \<and> il_cursor st2 = il_cursor st \<and> list_ids st2 = list_ids st"
  using assms by (rule counter_allocator.undo_redo_restores)

definition undone1 :: "(actor_id \<times> nat) id_list" where "undone1 = fst (try_undo counter_alloc typed1)"

definition redone1 :: "(actor_id \<times> nat) id_list" where "redone1 = fst (try_redo counter_alloc undone1)"

definition undo7 :: "nat \<Rightarrow> idlist_operation" where
  "undo7 n = ListUndo \<lparr>lu_timestamp = Identity alice (1 + n), lu_version = [(alice, n)], lu_counts = [(Identity alice 1, n)]\<rparr>"

lemma undone1_made: "try_undo counter_alloc typed1 = (undone1, Ok (Some (undo7 1)))" "list_ids undone1 = []"
  unfolding undone1_def typed1_def undo7_def by code_simp+

lemma redone1_made: "try_redo counter_alloc undone1 = (redone1, Ok (Some (undo7 2)))"
  unfolding redone1_def undone1_def typed1_def undo7_def by code_simp

lemma undo_redo_identity_witness: "list_ids undone1 = [] \<and> list_ids redone1 = list_ids typed1 \<and> list_ids typed1 = [7]"
proof -
  have "\<forall>g \<in> set (il_undo_stack typed1). distinct (members g) \<and>
      (\<forall>i \<in> set (members g). undo_count (il_undo_map typed1) i + 2 < 2 ^ 32)"
    "distinct (map ug_group_id (il_undo_stack typed1))" "list_ids typed1 = [7]"
    unfolding typed1_def by code_simp+
  then show ?thesis
    using undo_redo_identity [OF typed1_ready undone1_made(1) redone1_made] undone1_made(2) by simp
qed

text \<open>
  C14: A local command that makes no operation, because its anchor or its undo group is unknown, the
  budget for retired history is full, or the allocator refuses, changes nothing but possibly the
  allocator's own state.
\<close>
theorem refused_command_changes_nothing:
  assumes "run_command A cmd st = (st', None)"
  shows "alloc_only st st' \<and> kept_alloc A st st'"
  using run_command_idle [OF assms] by (simp add: idle_def)

lemma refused_command_changes_nothing_witness: "alloc_only typed1 (fst (run_command counter_alloc (RemoveAt anchor_end) typed1))"
proof -
  have "run_command counter_alloc (RemoveAt anchor_end) typed1 = (typed1, None)"
    unfolding typed1_def by code_simp
  then show ?thesis
    using refused_command_changes_nothing [of counter_alloc "RemoveAt anchor_end" typed1 typed1] by simp
qed

text \<open>
  C15: From the empty list, after any sequence of local commands, changes of the undo limits,
  coalescing, acknowledgements and deliveries, the state invariant holds and the retired history
  stays within \<open>kMaxRetirementBytes\<close>, the active and retired groups within
  \<open>kMaxRetirementGroups\<close>. The byte limit must leave room for one charge below \<open>2 ^ 64\<close>.
\<close>
theorem history_stays_bounded:
  assumes run: "(list_step counter_alloc L)\<^sup>*\<^sup>* (new_id_list (a, n)) st" and "sendable L" "0 < n" "n \<le> U64_MAX"
  shows "list_ok st \<and> il_retired_bytes st \<le> kMaxRetirementBytes \<and>
    length (il_retired st) + length (il_undo_stack st) \<le> kMaxRetirementGroups"
  using counter_allocator.list_life_ok [OF run assms(2) life_start] assms(3,4)
  by (simp add: life_ok_def queued_in_def retirement_bounded_def)

definition trimmed1 :: "(actor_id \<times> nat) id_list" where "trimmed1 = fst (set_max_undo_depth 0 typed1)"

lemma trimmed1_made: "set_max_undo_depth 0 typed1 = (trimmed1, Ok ())" "length (il_retired trimmed1) = 1"
  unfolding trimmed1_def typed1_def by code_simp+

lemma history_stays_bounded_witness: "list_ok trimmed1 \<and> length (il_retired trimmed1) = 1 \<and> il_retired_bytes trimmed1 \<le> kMaxRetirementBytes"
proof -
  have "list_step counter_alloc {} (replica alice) typed1" "list_step counter_alloc {} typed1 trimmed1"
    using list_step.command [OF typed1_made] list_step.depth [OF trimmed1_made(1)] by blast+
  then have "(list_step counter_alloc {})\<^sup>*\<^sup>* (replica alice) trimmed1"
    by (meson rtranclp.rtrancl_into_rtrancl rtranclp.rtrancl_refl)
  then show ?thesis
    using history_stays_bounded [of "{}" alice 1 trimmed1] trimmed1_made(2) by (simp add: sendable_def U64_MAX_eq)
qed

text \<open>
  C16: A successful collection on a replica of a log keeps the state invariant, so the order of what
  is left is still the FugueMax order of the remaining links, shows the same list as before, and
  drops exactly the entries it found reclaimable.
\<close>
theorem collection_is_invisible:
  assumes L: "op_log L" "tracks L st" and r: "collect_garbage pinned st = (st', Ok n)"
  shows "list_ok st' \<and> list_ids st' = list_ids st \<and>
    (n \<noteq> 0 \<longrightarrow> il_entries st' = filter (\<lambda>e. le_origin e \<notin> collected st pinned) (il_entries st))"
proof -
  have "list_ok st"
    using L(2) by (simp add: tracks_def queued_in_def)
  then show ?thesis
    using collect_garbage_correct [OF _ tracks_names_apart [OF L] r] by blast
qed

text \<open>Bob has seen the insertion and the removal of item 7, and every replica acknowledged both.\<close>

definition covered_binding :: reclamation_binding where
  "covered_binding = \<lparr>rb_stream = ''main'', rb_descriptor_hash = replicate 64 (CHR ''a''),
     rb_checkpoint_hash = replicate 64 (CHR ''b''), rb_frontier = [(alice, 2)]\<rparr>"

definition bob3 :: "(actor_id \<times> nat) id_list" where
  "bob3 = (fst (apply_ops counter_alloc [insert7, remove7] (replica bob)))\<lparr>il_reclamation := covered_binding\<rparr>"

lemma bob3_log: "op_log {insert7, remove7}"
proof -
  have ids: "idlist_op_identity insert7 = Identity alice 1" "idlist_op_identity remove7 = Identity alice 2"
    "idlist_op_version insert7 = []" "idlist_op_version remove7 = [(alice, 1)]"
    by (simp_all add: insert7_def remove7_def idlist_op_identity_def idlist_op_version_def)
  have "op_ok insert7" "op_ok remove7" "observed [(alice, 1)] (Identity alice 1)"
    unfolding insert7_def remove7_def by code_simp+
  then show ?thesis
    using ids by (auto simp: op_log_def)
qed

lemma bob3_tracks: "tracks {insert7, remove7} bob3"
proof -
  have "tracks {insert7, remove7} (fst (apply_ops counter_alloc [insert7, remove7] (replica bob)))"
    using apply_ops_tracks [OF bob3_log _ tracks_new [OF bob3_log]]
    by (metis (no_types) empty_set insert_is_Un list.simps(15) order_refl prod.collapse)
  then show ?thesis
    using reflects_cong by (simp add: bob3_def tracks_def shows_log_def queued_in_def list_ok_def queue_ok_def history_ok_def reflects_def)
qed

lemma collection_is_invisible_witness: "\<exists>st. collect_garbage {} bob3 = (st, Ok 1) \<and> list_ok st \<and> il_entries st = []"
proof -
  have c: "collect_garbage {} bob3 = (fst (collect_garbage {} bob3), Ok 1)" "il_entries (fst (collect_garbage {} bob3)) = []"
    unfolding bob3_def insert7_def remove7_def covered_binding_def by code_simp+
  then show ?thesis
    using collection_is_invisible [OF bob3_log bob3_tracks c(1)] by blast
qed

text \<open>
  C17: When a replica accepts the checkpoint of another state, it keeps the invariant, its own undo
  history and allocator, and from then on its checkpoint and its list are those of the other state.
\<close>
theorem checkpoint_roundtrip:
  assumes "list_ok st0" "list_ok st"
    and "restore_checkpoint_state A (checkpoint_state st0) st = (st', Ok ())"
  shows "list_ok st' \<and> checkpoint_state st' = checkpoint_state st0 \<and> list_ids st' = list_ids st0 \<and>
    local_history_snapshot st' = local_history_snapshot st \<and> il_alloc st' = il_alloc st"
  using restore_roundtrip [OF assms] by simp

lemma checkpoint_roundtrip_witness:
  "\<exists>st. restore_checkpoint_state counter_alloc (checkpoint_state typed2) (replica bob) = (st, Ok ()) \<and> list_ids st = [7, 8]"
proof -
  have r: "restore_checkpoint_state counter_alloc (checkpoint_state typed2) (replica bob) =
      (fst (restore_checkpoint_state counter_alloc (checkpoint_state typed2) (replica bob)), Ok ())"
    "list_ids typed2 = [7, 8]"
    unfolding typed2_def typed1_def by code_simp+
  have "list_ok typed2"
    using counter_allocator.insert_after_correct [OF typed1_ready typed2_insert] by simp
  then show ?thesis
    using checkpoint_roundtrip [OF _ list_ok_new r(1)] r by fastforce
qed

subsection \<open>Version vectors, undo counts and gaps\<close>

text \<open>
  C18: On stored version vectors (sorted by actor, no zero counters), \<open>join\<close> takes the larger and
  \<open>coverage_intersection\<close> the smaller counter of every actor, both results are stored vectors
  again, and \<open>observed_all\<close> holds exactly when no counter of the second is larger.
\<close>
theorem version_lattice:
  assumes "global_ok g" "global_ok h"
  shows "global_ok (join g h) \<and> global_ok (coverage_intersection g h) \<and>
    get (join g h) a = max (get g a) (get h a) \<and>
    get (coverage_intersection g h) a = min (get g a) (get h a) \<and>
    observed_all g h = (\<forall>a. get h a \<le> get g a)"
  using assms get_join [of g h a] get_coverage [of g h a] observed_all_iff [of h g] by (simp add: global_ok_sorted)

lemma version_lattice_witness: "get (join [(alice, 3)] [(alice, 2), (bob, 5)]) alice = max 3 2"
proof -
  have ok: "global_ok [(alice, 3)]" "global_ok [(alice, 2), (bob, 5)]"
    by code_simp+
  have "get [(alice, 3)] alice = 3" "get [(alice, 2), (bob, 5)] alice = 2"
    by code_simp+
  then show ?thesis
    using version_lattice [OF ok, of alice] by simp
qed

text \<open>
  C19: On a sorted vector the binary search returns the number of actors before the wanted one, and
  whether the entry there is the wanted one.
\<close>
theorem version_search:
  assumes "sorted1 g"
  shows "find_index g a =
     (length (takeWhile (\<lambda>p. fst p < a) g),
      case dropWhile (\<lambda>p. fst p < a) g of [] \<Rightarrow> False | p # _ \<Rightarrow> fst p = a)"
  using assms by (rule find_index_takeWhile)

lemma version_search_witness: "find_index [(alice, 3), (bob, 5)] bob = (1, True)"
proof -
  have "sorted1 [(alice, 3), (bob, 5)]" "length (takeWhile (\<lambda>p. fst p < bob) [(alice, 3), (bob, 5::nat)]) = 1"
    "(case dropWhile (\<lambda>p. fst p < bob) [(alice, 3), (bob, 5::nat)] of [] \<Rightarrow> False | p # _ \<Rightarrow> fst p = bob)"
    by code_simp+
  then show ?thesis
    using version_search [of "[(alice, 3), (bob, 5)]" bob] by simp
qed

text \<open>
  C20: In an ordered undo map, the seek and scan of \<open>undo_count\<close> give the largest count recorded for
  the item, and \<open>was_undone\<close> is the parity of the largest count among the undo operations the
  version has observed.
\<close>
theorem undo_count_is_maximum:
  assumes "undo_ok m"
  shows "undo_count m i = Max (insert 0 (ue_count ` {e \<in> set m. ue_edit e = i})) \<and>
    was_undone m i v =
      (Max (insert 0 (ue_count ` {e \<in> set m. ue_edit e = i \<and> observed v (ue_undo e)})) mod 2 = 1)"
  using undo_count_spec [OF assms] was_undone_spec [OF assms] by blast

abbreviation sample_undos :: undo_map where
  "sample_undos \<equiv> [\<lparr>ue_edit = Identity alice 1, ue_undo = Identity alice 2, ue_count = 1\<rparr>,
     \<lparr>ue_edit = Identity alice 1, ue_undo = Identity bob 3, ue_count = 2\<rparr>]"

lemma undo_count_is_maximum_witness: "undo_count sample_undos (Identity alice 1) = 2"
proof -
  have ok: "undo_ok sample_undos"
    by code_simp
  have "{e \<in> set sample_undos. ue_edit e = Identity alice 1} = set sample_undos"
    by auto
  then show ?thesis
    using undo_count_is_maximum [OF ok, of "Identity alice 1" "[]"] by simp
qed

text \<open>
  C21: \<open>undo_restore\<close> accepts a checkpoint's entries exactly when each has valid identities and a
  positive count and their keys strictly increase; the restored map is that list.
\<close>
theorem undo_restore_accepts:
  "undo_restore es = Ok m \<longleftrightarrow> list_all undo_entry_valid es \<and> sorted_wrt (<) (map ue_key es) \<and> m = es"
  by (simp add: undo_restore_iff list_all_iff)

text \<open>
  C22: A checkpoint's gap records are accepted exactly when they form a ledger that is consistent
  with the version: encodable gaps with covered dependencies, pairwise disjoint intervals below the
  version, within the record and byte budgets.
\<close>
theorem gap_restore_accepts: "gap_restore records current = Ok l \<longleftrightarrow> gl_records l = records \<and> ledger_ok l current"
  by (rule gap_restore_iff)

text \<open>
  C23: When the check accepts a gap, committing it gives a ledger that is consistent with the new
  version: no two abandoned intervals overlap, and the charges are exact.
\<close>
theorem gap_commit_invariant:
  assumes "ledger_ok l current" "gap_check l g current = Applied" "global_ok current"
    and "gap_commit l g current = (l', current')"
  shows "ledger_ok l' current'"
  using assms by (rule gap_commit_ok)

definition sample_gap :: counter_gap where
  "sample_gap = \<lparr>gap_actor = alice, gap_first = 2, gap_count = 3, gap_prior = [(alice, 1)]\<rparr>"

lemma gap_commit_invariant_witness: "\<exists>l v. gap_commit empty_ledger sample_gap [(alice, 1)] = (l, v) \<and> ledger_ok l v \<and> get v alice = 4"
proof -
  have c: "gap_check empty_ledger sample_gap [(alice, 1)] = Applied" "global_ok [(alice, 1)]"
    "get (snd (gap_commit empty_ledger sample_gap [(alice, 1)])) alice = 4"
    unfolding sample_gap_def by code_simp+
  have "ledger_ok empty_ledger [(alice, 1)]"
    by (simp add: ledger_ok_def empty_ledger_def max_gap_records_def max_gap_bytes_def)
  then show ?thesis
    using gap_commit_invariant [OF _ c(1,2)] c(3) by (metis prod.collapse)
qed

subsection \<open>Text\<close>

text \<open>
  C24: \<open>is_valid_utf8\<close> accepts a byte string exactly when it is the UTF-8 encoding of a sequence of
  Unicode scalar values.
\<close>
theorem utf8_validity: "is_valid_utf8 input \<longleftrightarrow> (\<exists>vs. list_all is_scalar vs \<and> input = encode_scalars vs)"
  by (rule is_valid_utf8_iff)

text \<open>
  C25: Valid UTF-8 converts to UTF-16 without an error, and converting the result back gives the
  original bytes.
\<close>
theorem utf16_conversion_roundtrip:
  assumes "is_valid_utf8 input"
  shows "\<exists>u. utf8_to_utf16 input = Inr u \<and> utf16_to_utf8 u = Inr input"
  using assms by (rule utf16_roundtrip)

lemma utf16_conversion_roundtrip_witness:
  "utf8_to_utf16 [0x61, 0xF0, 0x9F, 0x98, 0x80] = Inr [0x61, 0xD83D, 0xDE00] \<and>
     utf16_to_utf8 [0x61, 0xD83D, 0xDE00] = Inr [0x61, 0xF0, 0x9F, 0x98, 0x80]"
proof -
  have "is_valid_utf8 [0x61, 0xF0, 0x9F, 0x98, 0x80]"
    "utf8_to_utf16 [0x61, 0xF0, 0x9F, 0x98, 0x80] = Inr [0x61, 0xD83D, 0xDE00]"
    by code_simp+
  then show ?thesis
    using utf16_conversion_roundtrip by fastforce
qed

text \<open>
  C26: At the boundary behind the characters \<open>vs\<close> of a text, the UTF-16 offset maps to the byte
  offset of the boundary and the byte offset back to the UTF-16 offset.
\<close>
theorem utf16_offsets_agree:
  assumes "list_all is_scalar (vs @ ws)"
  shows "utf16_to_byte_offset (encode_scalars (vs @ ws)) (units_of vs) = length (encode_scalars vs) \<and>
    byte_to_utf16_offset (encode_scalars (vs @ ws)) (length (encode_scalars vs)) = units_of vs"
  using utf16_offset_boundary [OF assms] by blast

lemma utf16_offsets_agree_witness:
  "utf16_to_byte_offset (encode_scalars ([0x61, 0x1F600] @ [0x62])) 3 = 5 \<and>
     byte_to_utf16_offset (encode_scalars ([0x61, 0x1F600] @ [0x62])) 5 = 3"
proof -
  have "list_all is_scalar ([0x61, 0x1F600] @ [0x62])" "units_of [0x61, 0x1F600] = 3"
    "length (encode_scalars [0x61, 0x1F600]) = 5"
    by code_simp+
  then show ?thesis
    using utf16_offsets_agree [of "[0x61, 0x1F600]" "[0x62]"] by simp
qed

text \<open>
  C27: In a fragment whose index was built from its text, looking up a UTF-16 offset gives the byte
  offset of a character boundary: the one at that offset when the answer is exact, else the start
  of the character whose two units the offset separates.
\<close>
theorem fragment_lookup_correct:
  assumes "frag_ok f vs" "target \<le> units_of vs"
  shows "case utf16_byte_offset f target of (byte, exact) \<Rightarrow>
    \<exists>us ws. vs = us @ ws \<and> byte = length (encode_scalars us) \<and>
      (if exact then units_of us = target
       else \<exists>v ws'. ws = v # ws' \<and> units_of us < target \<and> target < units_of us + unit_width v)"
  using assms by (rule lookup_correct)

definition run_mixed :: fragment where
  "run_mixed = new_fragment (Identity alice 1) default_link 6 3 (encode_scalars [0x61, 0x1F600, 0x62])"

lemma run_mixed_ok: "frag_ok run_mixed [0x61, 0x1F600, 0x62]"
proof -
  have "list_all is_scalar [0x61, 0x1F600, 0x62]" "length (encode_scalars [0x61, 0x1F600, 0x62]) = 6"
    by code_simp+
  then show ?thesis
    unfolding run_mixed_def new_fragment_def by (intro rebuild_index_ok) simp_all
qed

lemma fragment_lookup_correct_witness: "utf16_byte_offset run_mixed 2 = (1, False) \<and> (\<exists>us. 1 = length (encode_scalars us))"
proof -
  have l: "utf16_byte_offset run_mixed 2 = (1, False)" "(2::nat) \<le> units_of [0x61, 0x1F600, 0x62]"
    unfolding run_mixed_def by code_simp+
  show ?thesis
    using fragment_lookup_correct [OF run_mixed_ok l(2)] l(1) by auto
qed

text \<open>
  C28: Splitting a fragment behind the characters \<open>us\<close> cuts its text there, gives both parts an index
  that fits their text without a rescan, keeps deletions and visibility, and the summaries of the
  parts add up to that of the whole with one more run.
\<close>
theorem fragment_split_correct:
  assumes "frag_ok f (us @ vs)" "split_fragment f (length us) = (h, t)"
  shows "frag_ok h us \<and> frag_ok t vs \<and> fr_text f = fr_text h @ fr_text t \<and>
    fr_deletions h = fr_deletions f \<and> fr_deletions t = fr_deletions f \<and>
    fr_visible h = fr_visible f \<and> fr_visible t = fr_visible f \<and>
    summary_add (fragment_summary_of h) (fragment_summary_of t) = (fragment_summary_of f)\<lparr>fs_retained_runs := 2\<rparr>"
  using split_fragment_ok [OF assms] split_summary [OF assms] by blast

lemma fragment_split_correct_witness:
  "\<exists>h t. split_fragment run_mixed 2 = (h, t) \<and> frag_ok h [0x61, 0x1F600] \<and> frag_ok t [0x62]"
proof -
  have "frag_ok run_mixed ([0x61, 0x1F600] @ [0x62])"
    using run_mixed_ok by simp
  from fragment_split_correct [OF this, of "fst (split_fragment run_mixed 2)" "snd (split_fragment run_mixed 2)"]
  show ?thesis
    by (metis One_nat_def Suc_1 length_Cons list.size(3) prod.collapse)
qed

subsection \<open>The tree under the text\<close>

text \<open>Two fragments in a tree.\<close>

definition no_fragments :: fragment_tree where
  "no_fragments = \<lparr>st_ids = \<lparr>si_allocator = \<lparr>na_tree = 1, na_next = 1, na_exhausted = False\<rparr>, si_failed = False\<rparr>,
     st_root = None\<rparr>"

definition run_hi :: fragment where
  "run_hi = new_fragment (Identity alice 4) default_link 2 2 (encode_scalars [0x68, 0x69])"

definition two_runs :: fragment_tree where
  "two_runs = extend_items fragment_tree_ops [run_mixed, run_hi] no_fragments"

lemma two_runs_ok: "tree_ok fragment_tree_ops no_fragments" "tree_items no_fragments = []"
    "tree_ok fragment_tree_ops two_runs" "tree_items two_runs = [run_mixed, run_hi]"
proof -
  show e: "tree_ok fragment_tree_ops no_fragments" "tree_items no_fragments = []"
    by (simp_all add: no_fragments_def)
  from extend_items_ok [OF fragment_tree_branching e(1), of "[run_mixed, run_hi]"]
  show "tree_ok fragment_tree_ops two_runs" "tree_items two_runs = [run_mixed, run_hi]"
    by (simp_all add: two_runs_def e(2))
qed

text \<open>
  C29: For any item type, summary and branching factor of at least 2: appending a tree of any height
  to a tree, or a list of items, appends the lists of items, and the result passes the tree's own
  validators for occupancy, heights and stored summaries.
\<close>
theorem appending_refines_lists:
  assumes "branching_ok K" "has_valid_occupancy K t" "has_valid_summaries K t"
    and "has_valid_occupancy K u" "has_valid_summaries K u"
  shows "(let a = push_tree K t (st_root u) in
      has_valid_occupancy K a \<and> has_valid_summaries K a \<and> tree_items a = tree_items t @ tree_items u) \<and>
    (let a = extend_items K xs t in
      has_valid_occupancy K a \<and> has_valid_summaries K a \<and> tree_items a = tree_items t @ xs)"
proof -
  have t: "tree_ok K t" and u: "tree_ok K u"
    using assms by (simp_all add: tree_ok_validators)
  have "st_root u = None \<or> (st_root u = Some (the (st_root u)) \<and>
      node_ok K True (nd_height (the (st_root u))) (the (st_root u)))"
    using u by (cases "st_root u") (simp_all add: tree_ok_def)
  note pushed = push_tree_ok [OF assms(1) t this]
  show ?thesis
    using pushed extend_items_ok [OF assms(1) t, of xs]
    by (simp add: Let_def tree_items_def flip: tree_ok_validators)
qed

lemma appending_refines_lists_witness:
  "tree_items (push_tree fragment_tree_ops two_runs (st_root two_runs)) = [run_mixed, run_hi, run_mixed, run_hi]"
  using appending_refines_lists [OF fragment_tree_branching, of two_runs two_runs "[]"] two_runs_ok
  by (simp add: Let_def tree_ok_validators)

text \<open>
  C30: In a well-formed tree of fewer than \<open>2 ^ 64\<close> fragments, inserting at rank \<open>k\<close> inserts at index
  \<open>k\<close> of the list of fragments, and editing at rank \<open>k\<close> applies the function to the fragment with
  index \<open>k\<close> only; both keep the tree well-formed.
\<close>
theorem ranks_are_indices:
  assumes "tree_ok fragment_tree_ops t" "length (tree_items t) < 2 ^ 64" "k < length (tree_items t)"
  shows "(let t' = insert_item fragment_tree_ops retained_run k f BiasLeft t in
      tree_ok fragment_tree_ops t' \<and> tree_items t' = take k (tree_items t) @ f # drop k (tree_items t)) \<and>
    (\<exists>t'. edit_item fragment_tree_ops retained_run k g BiasLeft t = Some t' \<and> tree_ok fragment_tree_ops t' \<and>
      tree_items t' = (tree_items t)[k := g (tree_items t ! k)])"
  using rank_insert [OF assms(1,2), of k f] rank_edit [OF assms, of g] assms(3) by (simp add: Let_def insert_at_def)

lemma ranks_are_indices_witness:
  "tree_items (insert_item fragment_tree_ops retained_run 1 run_hi BiasLeft two_runs) = [run_mixed, run_hi, run_hi]"
  using ranks_are_indices [of two_runs 1 run_hi id] two_runs_ok by (simp add: Let_def)

text \<open>
  C31: Replacing the range of ranks from \<open>m\<close> to \<open>n\<close> by another tree succeeds, gives the first \<open>m\<close>
  fragments, those of the replacement and those from index \<open>n\<close> on, in a well-formed tree.
\<close>
theorem splice_replaces_range:
  assumes "tree_ok fragment_tree_ops t" "length (tree_items t) < 2 ^ 64" "tree_ok fragment_tree_ops u"
    and "m \<le> n" "n \<le> length (tree_items t)" "m < n \<or> tree_items u \<noteq> []"
  shows "\<exists>t'. splice_range fragment_tree_ops retained_run m n u t = Some t' \<and> tree_ok fragment_tree_ops t' \<and>
    tree_items t' = take m (tree_items t) @ tree_items u @ drop n (tree_items t)"
  using assms by (rule rank_splice)

lemma splice_replaces_range_witness:
  "\<exists>t'. splice_range fragment_tree_ops retained_run 0 1 two_runs two_runs = Some t' \<and>
     tree_items t' = [run_mixed, run_hi, run_hi]"
  using splice_replaces_range [of two_runs two_runs 0 1] two_runs_ok by auto

text \<open>
  C32: The slice loop of the cursor, which has no bound of its own and goes round for ever on a tree
  with an empty leaf, ends on every well-formed tree: from rank \<open>k\<close> to rank \<open>m\<close> it returns the
  fragments with these indices, as a well-formed tree, and stands at the fragment with index \<open>m\<close>.
\<close>
theorem range_slice_ends:
  assumes "tree_ok fragment_tree_ops t" "length (tree_items t) < 2 ^ 64" "k < length (tree_items t)" "k \<le> m"
  shows "\<exists>c result. cursor_slice fragment_tree_ops retained_run t m (fst (cursor_seek retained_run t k BiasLeft)) =
      Some (c, result) \<and> tree_ok fragment_tree_ops result \<and> tree_items result = take (m - k) (drop k (tree_items t)) \<and>
    cursor_item c = (if m < length (tree_items t) then Some (tree_items t ! m) else None)"
  using assms by (rule rank_range)

lemma range_slice_ends_witness:
  "\<exists>c result. cursor_slice fragment_tree_ops retained_run two_runs 2 (fst (cursor_seek retained_run two_runs 1 BiasLeft)) =
     Some (c, result) \<and> tree_items result = [run_hi]"
  using range_slice_ends [of two_runs 1 2] two_runs_ok by auto

text \<open>
  C33: In a well-formed tree with fewer than \<open>2 ^ 32\<close> visible bytes, seeking a visible offset before
  the end puts the cursor on the fragment whose visible bytes contain the offset, and its position is
  the number of visible bytes before that fragment.
\<close>
theorem offset_finds_fragment:
  assumes "tree_ok fragment_tree_ops t" "visible_bytes (tree_items t) < 2 ^ 32" "target < visible_bytes (tree_items t)"
  shows "\<exists>before f after. tree_items t = before @ f # after \<and> visible_bytes before \<le> target \<and>
    target < visible_bytes before + fs_visible_bytes (fragment_summary_of f) \<and>
    cursor_item (fst (cursor_seek visible_offset t target BiasLeft)) = Some f \<and>
    cu_position (fst (cursor_seek visible_offset t target BiasLeft)) = visible_bytes before"
  using assms by (rule visible_seek)

lemma offset_finds_fragment_witness:
  "cursor_item (fst (cursor_seek visible_offset two_runs 6 BiasLeft)) = Some run_hi"
proof -
  have v: "visible_bytes [run_mixed] = 6" "visible_bytes [run_mixed, run_hi] = 8"
    unfolding run_mixed_def run_hi_def by code_simp+
  then obtain before f after where s: "[run_mixed, run_hi] = before @ f # after" "visible_bytes before \<le> 6"
    "6 < visible_bytes before + fs_visible_bytes (fragment_summary_of f)"
    "cursor_item (fst (cursor_seek visible_offset two_runs 6 BiasLeft)) = Some f"
    using offset_finds_fragment [of two_runs 6] two_runs_ok by auto
  then show ?thesis
    using v by (cases before) (auto simp: Cons_eq_append_conv)
qed

text \<open>
  C34: On an ordered, balanced tree, insertion updates the map of its bindings at the key, removal
  drops the key, lookup is that of the map, and the results are ordered and balanced again; a
  balanced tree of height \<open>h\<close> has at least \<open>2 ^ (h div 2) - 1\<close> entries.
\<close>
theorem avl_refines_map:
  assumes "avl_wf t"
  shows "avl_wf (avl_insert t k v) \<and> avl_map (avl_insert t k v) = (avl_map t)(k \<mapsto> v) \<and>
    avl_wf (avl_remove t k) \<and> avl_map (avl_remove t k) = (avl_map t)(k := None) \<and>
    avl_find t k = avl_map t k \<and> 2 ^ (node_height t div 2) \<le> node_count t + 1"
proof -
  have "avl_map (avl_insert t k v) = (avl_map t)(k \<mapsto> v)" "avl_map (avl_remove t k) = (avl_map t)(k := None)"
    using avl.insert_ok [OF assms, of k v] avl.erase_ok [OF assms, of k]
    by (simp_all add: avl_map_def fun_eq_iff map_of_put map_of_cut)
  then show ?thesis
    using avl.insert_ok [OF assms, of k v] avl.erase_ok [OF assms, of k] avl.find_ok [OF assms, of k]
      height_logarithmic [of t] assms by (auto simp: avl_map_def avl_wf_def)
qed

lemma avl_refines_map_witness:
  "avl_map (avl_insert (avl_insert AvlNil (1::nat) True) 2 False) 2 = Some False"
proof -
  have "avl_wf (avl_insert (AvlNil :: (nat, bool) avl) 1 True)"
    using avl.insert_ok [OF avl.empty_ok(1), of 1 True] by (rule conjunct1)
  note refined = avl_refines_map [OF this, of 2 False]
  then have "avl_map (avl_insert (avl_insert AvlNil (1::nat) True) 2 False) =
      (avl_map (avl_insert AvlNil 1 True))(2 \<mapsto> False)"
    by (elim conjE)
  then show ?thesis
    by (simp only: fun_upd_same)
qed

text \<open>
  C35: Inserting an interval into the origin index either refuses it, exactly when it is malformed or
  overlaps one of the same actor, or adds it and keeps the index consistent; and the range query,
  which looks only at neighbours in the tree, gives the intervals that a scan over all entries gives.
\<close>
theorem overlapping_is_scan:
  assumes "origin_ok ix" "actor_valid a" "0 < first" "first < end'"
  shows "origin_overlapping ix a first end' = map row_entry (filter (row_overlaps a first end') (bindings ix)) \<and>
    (case origin_insert a first end' run ix of
      None \<Rightarrow> run = 0 \<or> origin_overlapping ix a first end' \<noteq> []
    | Some ix' \<Rightarrow> origin_overlapping ix a first end' = [] \<and> origin_ok ix' \<and>
        set (bindings ix') = insert ((a, first), \<lparr>oi_end = end', oi_run = run\<rparr>) (set (bindings ix)))"
proof -
  have o: "origin_overlapping ix a first end' = map row_entry (filter (row_overlaps a first end') (bindings ix))"
    using origin_overlapping_eq [OF assms(1), of a first end'] assms(2-4) by simp
  then have "origin_overlapping ix a first end' = [] \<longleftrightarrow> \<not> (\<exists>row \<in> set (bindings ix). row_overlaps a first end' row)"
    by (auto simp: filter_empty_conv)
  then show ?thesis
    using origin_insert_correct [OF assms(1), of a first end' run] assms(2-4) o
    by (auto simp: row_valid_def split: option.splits)
qed

lemma overlapping_is_scan_witness:
  "\<exists>ix. origin_insert alice 1 4 7 AvlNil = Some ix \<and> origin_ok ix"
proof -
  have "origin_ok AvlNil" "actor_valid alice" "origin_insert alice 1 4 7 AvlNil \<noteq> None"
    by code_simp+
  then show ?thesis
    using overlapping_is_scan [of AvlNil alice 1 4 7] by auto
qed

subsection \<open>Durable identities\<close>

text \<open>C36: Printing a valid 16-byte actor in hexadecimal and parsing the result gives the actor back.\<close>
theorem actor_hex_roundtrip:
  assumes "actor_ok a" "actor_valid a"
  shows "actor_parse (actor_to_string a) = Ok a"
  using assms by (rule actor_parse_to_string)

lemma actor_hex_roundtrip_witness: "actor_parse (actor_to_string alice) = Ok alice"
proof -
  have "actor_ok alice" "actor_valid alice"
    by code_simp+
  then show ?thesis
    by (rule actor_hex_roundtrip)
qed

text \<open>
  C37: The text \<open>persist\<close> writes for a state with a valid actor and valid, distinct streams loads back
  to the same actor and the same streams with the same counters.
\<close>
theorem state_file_roundtrip:
  assumes "actor_ok (rs_actor st)" "actor_valid (rs_actor st)" "streams_ok (rs_streams st)"
  shows "load_state_text (render_state st) = Ok (rs_actor st, rs_streams st)"
  using assms by (rule load_render)

definition device0 :: replica_state where
  "device0 = \<lparr>rs_actor = alice, rs_streams = [], rs_leases = [], rs_held = True, rs_failed = False,
     rs_file = Some (render_state \<lparr>rs_actor = alice, rs_streams = [], rs_leases = [], rs_held = True,
       rs_failed = False, rs_file = None, rs_disk = []\<rparr>), rs_disk = [Written, Unwritten io_error]\<rparr>"

lemma state_file_roundtrip_witness: "load_state_text (render_state device0) = Ok (alice, [])"
proof -
  have "actor_ok alice" "actor_valid alice"
    by code_simp+
  then show ?thesis
    using state_file_roundtrip [of device0] by (simp add: device0_def streams_ok_def)
qed

lemma device0_ok: "device_ok device0"
proof -
  have a: "actor_ok alice" "actor_valid alice"
    by code_simp+
  then have "load_state_text (render_state \<lparr>rs_actor = alice, rs_streams = [], rs_leases = [], rs_held = True,
       rs_failed = False, rs_file = None, rs_disk = []\<rparr>) = Ok (alice, [])"
    by (subst load_render) (simp_all add: streams_ok_def)
  then show ?thesis
    using a by (simp add: device_ok_def device0_def streams_ok_def)
qed

text \<open>
  C38: In any run of a device (reservations, failing or uncertain writes, observed remote counters,
  crashes that reopen the state from its file) the intervals of identities it hands out for one
  stream are disjoint and ascending, and everything handed out is recorded in the file.
\<close>
theorem device_never_reissues:
  assumes "device_run st issued st'" "device_ok st"
  shows "device_ok st' \<and> rs_actor st' = rs_actor st \<and>
    sorted_wrt (\<lambda>(s, b, n) (s', b', n'). s = s' \<longrightarrow> b + n \<le> b') issued \<and>
    (\<forall>(s, b, n) \<in> set issued. b + n \<le> recorded st' s)"
  using assms by (rule device_run_fresh)

definition device1 :: replica_state where
  "device1 = fst (rs_reserve_run ''main'' ''doc'' 1 3 device0)"

lemma device1_made: "rs_reserve_run ''main'' ''doc'' 1 3 device0 = (device1, Ok 1)"
  unfolding device1_def device0_def by code_simp

lemma device_never_reissues_witness: "device_ok device1 \<and> 4 \<le> recorded device1 ''main''"
proof -
  have "device_run device0 ([] @ [(''main'', 1, 3)]) device1"
    using device_run.issue [OF device_run.start device_step.reserved [OF device1_made]] .
  then show ?thesis
    using device_never_reissues [OF _ device0_ok] by fastforce
qed

text \<open>
  C39: Two successful reservations one after the other through the durable handle give disjoint,
  ascending runs of identities.
\<close>
theorem durable_reservations_disjoint:
  assumes "handle_ready al" "n \<le> U64_MAX" "m \<le> U64_MAX"
    and "reserve_run replica_alloc al n = (al', Ok b)" "reserve_run replica_alloc al' m = (al'', Ok b')"
  shows "b + n \<le> b'"
  using assms by (rule replica_allocator.reserve_twice_disjoint)

lemma durable_reservations_disjoint_witness:
  "\<exists>al al'. reserve_run replica_alloc (new_allocator (Some (device1\<lparr>rs_disk := []\<rparr>)) ''doc'' ''main'' 1) 2 = (al, Ok 4) \<and>
     reserve_run replica_alloc al 1 = (al', Ok 6) \<and> (4::nat) + 2 \<le> 6"
proof -
  let ?al = "new_allocator (Some (device1\<lparr>rs_disk := []\<rparr>)) ''doc'' ''main'' 1"
  let ?al1 = "fst (reserve_run replica_alloc ?al 2)"
  have r: "handle_ready ?al" "reserve_run replica_alloc ?al 2 = (?al1, Ok 4)"
    "reserve_run replica_alloc ?al1 1 = (fst (reserve_run replica_alloc ?al1 1), Ok 6)"
    unfolding device1_def device0_def by code_simp+
  show ?thesis
    using durable_reservations_disjoint [OF r(1) _ _ r(2,3)] r(2,3) by (auto simp: U64_MAX_eq)
qed

section \<open>Deviations\<close>











text \<open>
  A fresh durable handle peeks at 0, so restoring even an empty checkpoint through it is refused.
\<close>

lemma fresh_handle_refuses_checkpoint:
  "snd (restore_checkpoint_state replica_alloc (checkpoint_state (replica bob))
     (new_id_list (new_allocator (Some device0) ''doc'' ''main'' 1))) = Err counter_regression"
  unfolding device0_def by code_simp

text \<open>An offset behind a truncated last sequence gives a byte offset behind the end of the string.\<close>

lemma truncated_offset_past_end: "utf16_to_byte_offset [0xF0] 5 = 4 \<and> length [0xF0 :: 8 word] = 1"
  by code_simp

text \<open>
  \<open>observe_remote\<close> accepts a stream name with a blank; the next write puts it in the file, which
  then no longer loads.
\<close>

lemma bad_stream_name_bricks_state:
  "load_state_text (the (rs_file (fst (persist (fst (rs_observe_remote ''a b'' 3 device0)))))) = Err malformed"
  unfolding device0_def by code_simp

end
